(* ===== verification/Prelude.thy ===== *)
theory Prelude
  imports Main "HOL-Library.Word" "HOL-Library.Char_ord" "HOL-Library.List_Lexorder"
    "HOL-Library.Multiset" "HOL-Library.Sublist"
begin

text \<open>
  Shared vocabulary of the development. Go strings and byte slices are lists of
  \<^typ>\<open>char\<close> (a \<^typ>\<open>char\<close> is one byte), a panic is the left value of a sum, an index
  that the source reports as \<open>-1\<close> is \<^term>\<open>None\<close>. The theory holds the Go primitives the
  source uses on strings and slices (indexing, slicing, \<open>copy\<close>, \<open>strings.IndexByte\<close>,
  \<open>strings.Index\<close> and their kin) with the lemmas every component shares.
\<close>

named_theorems go_simps "evaluation rules for Go primitives and results"

section \<open>Results: a value or a panic\<close>

datatype panic =
    IndexOutOfRange
  | SliceBounds
  | NilDereference
  | SendOnClosedChannel
  | CloseOfClosedChannel
  | LoggerPanic string

type_synonym bytes = string
type_synonym 'a go = "panic + 'a"

definition go_bind :: "'a go \<Rightarrow> ('a \<Rightarrow> 'b go) \<Rightarrow> 'b go" where
  "go_bind m f = (case m of Inl p \<Rightarrow> Inl p | Inr x \<Rightarrow> f x)"

lemma go_bind_Inr [simp, go_simps]: "go_bind (Inr x) f = f x"
  by (simp add: go_bind_def)

lemma go_bind_Inl [simp, go_simps]: "go_bind (Inl p) f = Inl p"
  by (simp add: go_bind_def)

lemma go_bind_eq_Inr: "go_bind m f = Inr y \<longleftrightarrow> (\<exists>x. m = Inr x \<and> f x = Inr y)"
  by (cases m) auto

lemma go_bind_cong [fundef_cong]:
  "m = m' \<Longrightarrow> (\<And>x. m' = Inr x \<Longrightarrow> f x = g x) \<Longrightarrow> go_bind m f = go_bind m' g"
  by (cases m') auto

text \<open>Whether a Go call returned, as a value a witness can compute.\<close>

fun returns :: "'a go \<Rightarrow> bool" where
  "returns (Inr x) = True"
| "returns (Inl p) = False"

lemma returns_iff: "returns m \<longleftrightarrow> (\<exists>x. m = Inr x)"
  by (cases m) auto

text \<open>
  A call that may also not return: \<^term>\<open>None\<close> while the fuel given to a loop of the source is
  used up.
\<close>

type_synonym 'a run = "'a go option"

definition run_bind :: "'a run \<Rightarrow> ('a \<Rightarrow> 'b run) \<Rightarrow> 'b run" where
  "run_bind m f = (case m of None \<Rightarrow> None | Some (Inl p) \<Rightarrow> Some (Inl p) | Some (Inr x) \<Rightarrow> f x)"

lemma run_bind_simps [simp, go_simps]:
  "run_bind None f = None"
  "run_bind (Some (Inl p)) f = Some (Inl p)"
  "run_bind (Some (Inr x)) f = f x"
  by (simp_all add: run_bind_def)

lemma run_bind_eq_Inr: "run_bind m f = Some (Inr y) \<longleftrightarrow> (\<exists>x. m = Some (Inr x) \<and> f x = Some (Inr y))"
  by (cases m rule: option.exhaust; cases "the m") (auto simp: run_bind_def split: sum.splits)

lemma run_bind_cong [fundef_cong]:
  "m = m' \<Longrightarrow> (\<And>x. m' = Some (Inr x) \<Longrightarrow> f x = g x) \<Longrightarrow> run_bind m f = run_bind m' g"
  by (auto simp: run_bind_def split: option.splits sum.splits)

text \<open>Signed 64-bit arithmetic: wrap-around, and division truncated towards zero.\<close>

definition wrap64 :: "int \<Rightarrow> int" where
  "wrap64 x = (x + 2 ^ 63) mod 2 ^ 64 - 2 ^ 63"

lemma wrap64_id: "- (2 ^ 63) \<le> x \<Longrightarrow> x < 2 ^ 63 \<Longrightarrow> wrap64 x = x"
  by (simp add: wrap64_def)

definition go_quot :: "int \<Rightarrow> int \<Rightarrow> int" where
  "go_quot a b = sgn a * sgn b * (\<bar>a\<bar> div \<bar>b\<bar>)"

lemma go_quot_nonneg: "0 \<le> a \<Longrightarrow> 0 < b \<Longrightarrow> go_quot a b = a div b"
  by (cases "a = 0") (auto simp: go_quot_def)

section \<open>Indexing, slicing and copying\<close>

definition go_index :: "'a list \<Rightarrow> int \<Rightarrow> 'a go" where
  "go_index xs i = (if 0 \<le> i \<and> i < int (length xs) then Inr (xs ! nat i) else Inl IndexOutOfRange)"

definition go_slice :: "'a list \<Rightarrow> int \<Rightarrow> int \<Rightarrow> 'a list go" where
  "go_slice xs i j =
     (if 0 \<le> i \<and> i \<le> j \<and> j \<le> int (length xs)
      then Inr (take (nat j - nat i) (drop (nat i) xs)) else Inl SliceBounds)"

definition go_set :: "'a list \<Rightarrow> nat \<Rightarrow> 'a \<Rightarrow> 'a list go" where
  "go_set xs i x = (if i < length xs then Inr (xs[i := x]) else Inl IndexOutOfRange)"

text \<open>\<open>copy(dst[i:], src)\<close>: the new \<open>dst\<close> and the number of elements copied.\<close>

definition go_copy :: "'a list \<Rightarrow> nat \<Rightarrow> 'a list \<Rightarrow> ('a list \<times> nat) go" where
  "go_copy dst i src =
     (if i \<le> length dst
      then let n = min (length dst - i) (length src)
           in Inr (take i dst @ take n src @ drop (i + n) dst, n)
      else Inl SliceBounds)"

lemma go_index_nat [simp, go_simps]: "i < length xs \<Longrightarrow> go_index xs (int i) = Inr (xs ! i)"
  by (simp add: go_index_def)

lemma go_index_negative [simp, go_simps]: "i < 0 \<Longrightarrow> go_index xs i = Inl IndexOutOfRange"
  by (simp add: go_index_def)

lemma go_slice_nat [simp, go_simps]:
  "i \<le> j \<Longrightarrow> j \<le> length xs \<Longrightarrow> go_slice xs (int i) (int j) = Inr (take (j - i) (drop i xs))"
  by (simp add: go_slice_def)

lemma go_slice_prefix [simp, go_simps]: "n \<le> length xs \<Longrightarrow> go_slice xs 0 (int n) = Inr (take n xs)"
  by (simp add: go_slice_def)

lemma go_slice_negative [simp, go_simps]: "i < 0 \<Longrightarrow> go_slice xs i j = Inl SliceBounds"
  by (simp add: go_slice_def)

lemma go_set_in [go_simps]: "i < length xs \<Longrightarrow> go_set xs i x = Inr (xs[i := x])"
  by (simp add: go_set_def)

text \<open>
  Writing a block of bytes at a position: what a sequence of encoder calls has done to the
  buffer. Consecutive blocks merge, which is how encoder proofs compose.
\<close>

definition patch :: "'a list \<Rightarrow> nat \<Rightarrow> 'a list \<Rightarrow> 'a list" where
  "patch b i xs = take i b @ xs @ drop (i + length xs) b"

lemma patch_Nil [simp]: "patch b i [] = b"
  by (simp add: patch_def)

lemma length_patch [simp]: "i + length xs \<le> length b \<Longrightarrow> length (patch b i xs) = length b"
  by (simp add: patch_def)

lemma take_patch [simp]: "i \<le> length b \<Longrightarrow> take i (patch b i xs) = take i b"
  by (simp add: patch_def)

lemma take_patch_end:
  "i + length xs \<le> length b \<Longrightarrow> take (i + length xs) (patch b i xs) = take i b @ xs"
  by (simp add: patch_def)

lemma patch_patch:
  assumes "i + length xs + length ys \<le> length b"
  shows "patch (patch b i xs) (i + length xs) ys = patch b i (xs @ ys)"
proof -
  have "take (i + length xs) (patch b i xs) = take i b @ xs"
    using assms by (intro take_patch_end) simp
  moreover have "drop (i + length xs + length ys) (patch b i xs) = drop (i + length xs + length ys) b"
    using assms by (simp add: patch_def min_absorb2 ac_simps)
  ultimately show ?thesis by (simp add: patch_def add.assoc)
qed

lemma patch_overwrite:
  assumes "i + length xs + length zs \<le> length b" and "length ys = length xs"
  shows "patch (patch b i (xs @ zs)) i ys = patch b i (ys @ zs)"
  using assms by (simp add: patch_def min_absorb2 ac_simps)

lemma go_set_patch: "i < length b \<Longrightarrow> go_set b i x = Inr (patch b i [x])"
  by (simp add: go_set_def patch_def upd_conv_take_nth_drop)

lemma go_copy_fits:
  assumes "i + length src \<le> length dst"
  shows "go_copy dst i src = Inr (patch dst i src, length src)"
proof -
  have "min (length dst - i) (length src) = length src" using assms by linarith
  then show ?thesis using assms by (simp add: go_copy_def patch_def Let_def)
qed

section \<open>Searching strings\<close>

text \<open>\<open>strings.IndexByte\<close> and \<open>bytes.LastIndexByte\<close>.\<close>

fun index_byte :: "'a \<Rightarrow> 'a list \<Rightarrow> nat option" where
  "index_byte c [] = None"
| "index_byte c (x # xs) = (if x = c then Some 0 else map_option Suc (index_byte c xs))"

definition last_index_byte :: "'a \<Rightarrow> 'a list \<Rightarrow> nat option" where
  "last_index_byte c s = map_option (\<lambda>n. length s - Suc n) (index_byte c (rev s))"

lemma index_byte_None [simp]: "index_byte c s = None \<longleftrightarrow> c \<notin> set s"
  by (induction s) auto

lemma index_byte_SomeD:
  "index_byte c s = Some n \<Longrightarrow> n < length s \<and> s ! n = c \<and> c \<notin> set (take n s)"
  by (induction s arbitrary: n) (auto split: if_splits)

lemma index_byte_split:
  "index_byte c s = Some n \<Longrightarrow> s = take n s @ c # drop (Suc n) s"
  using index_byte_SomeD[of c s n] by (metis id_take_nth_drop)

lemma index_byte_append_notin:
  "c \<notin> set xs \<Longrightarrow> index_byte c (xs @ ys) = map_option ((+) (length xs)) (index_byte c ys)"
  by (induction xs) (auto simp: option.map_comp option.map_ident_strong intro!: option.map_cong0)

lemma index_byte_append_in: "c \<in> set xs \<Longrightarrow> index_byte c (xs @ ys) = index_byte c xs"
  by (induction xs) auto

lemma index_byte_unique: "c \<notin> set xs \<Longrightarrow> index_byte c (xs @ c # ys) = Some (length xs)"
  by (simp add: index_byte_append_notin)

lemma last_index_byte_None [simp]: "last_index_byte c s = None \<longleftrightarrow> c \<notin> set s"
  by (simp add: last_index_byte_def)

lemma last_index_byte_SomeD:
  assumes "last_index_byte c s = Some n"
  shows "n < length s \<and> s = take n s @ c # drop (Suc n) s \<and> c \<notin> set (drop (Suc n) s)"
proof -
  obtain m where m: "index_byte c (rev s) = Some m" and n: "n = length s - Suc m"
    using assms by (auto simp: last_index_byte_def)
  have *: "m < length s" "rev s ! m = c" "c \<notin> set (take m (rev s))"
    using index_byte_SomeD[OF m] by auto
  have "s ! n = c" using * n by (simp add: rev_nth)
  moreover have "Suc n = length s - m" using * n by linarith
  then have "drop (Suc n) s = rev (take m (rev s))" by (simp add: take_rev)
  moreover have "n < length s" using * n by linarith
  ultimately show ?thesis using *(3) id_take_nth_drop[of n s] by auto
qed

text \<open>\<open>strings.HasPrefix\<close>, \<open>HasSuffix\<close>, \<open>Index\<close>, \<open>LastIndex\<close>, \<open>Contains\<close>.\<close>

definition has_prefix :: "'a list \<Rightarrow> 'a list \<Rightarrow> bool" where
  "has_prefix s p = (take (length p) s = p)"

definition has_suffix :: "'a list \<Rightarrow> 'a list \<Rightarrow> bool" where
  "has_suffix s p = (length p \<le> length s \<and> drop (length s - length p) s = p)"

fun str_index :: "'a list \<Rightarrow> 'a list \<Rightarrow> nat option" where
  "str_index [] p = (if p = [] then Some 0 else None)"
| "str_index (x # xs) p =
     (if has_prefix (x # xs) p then Some 0 else map_option Suc (str_index xs p))"

definition str_last_index :: "'a list \<Rightarrow> 'a list \<Rightarrow> nat option" where
  "str_last_index s p =
     map_option (\<lambda>n. length s - n - length p) (str_index (rev s) (rev p))"

definition str_contains :: "'a list \<Rightarrow> 'a list \<Rightarrow> bool" where
  "str_contains s p = (str_index s p \<noteq> None)"

lemma has_prefix_iff: "has_prefix s p \<longleftrightarrow> (\<exists>t. s = p @ t)"
  unfolding has_prefix_def by (metis append_eq_conv_conj append_take_drop_id)

lemma has_suffix_iff: "has_suffix s p \<longleftrightarrow> (\<exists>t. s = t @ p)"
  unfolding has_suffix_def by (auto simp: suffix_length_le) (metis append_take_drop_id)

lemma str_index_SomeD:
  "str_index s p = Some n \<Longrightarrow>
     n + length p \<le> length s \<and> s = take n s @ p @ drop (n + length p) s"
proof (induction s arbitrary: n)
  case Nil
  then show ?case by (simp split: if_splits)
next
  case (Cons x xs)
  show ?case
  proof (cases "has_prefix (x # xs) p")
    case True
    then obtain t where "x # xs = p @ t" by (auto simp: has_prefix_iff)
    then have "length (x # xs) = length p + length t" by (metis length_append)
    moreover have "n = 0" using True Cons.prems by simp
    ultimately show ?thesis using \<open>x # xs = p @ t\<close> by simp
  next
    case False
    with Cons.prems obtain m where "str_index xs p = Some m" and n: "n = Suc m" by auto
    with Cons.IH[of m] show ?thesis by simp
  qed
qed

lemma str_index_None: "str_index s p = None \<longleftrightarrow> (\<nexists>a b. s = a @ p @ b)"
proof (induction s)
  case Nil
  then show ?case by auto
next
  case (Cons x xs)
  have "(\<exists>a b. x # xs = a @ p @ b) \<longleftrightarrow> has_prefix (x # xs) p \<or> (\<exists>a b. xs = a @ p @ b)"
    by (auto simp: has_prefix_iff Cons_eq_append_conv)
  with Cons.IH show ?case by auto
qed

lemma str_last_index_SomeD:
  assumes "str_last_index s p = Some n"
  shows "n + length p \<le> length s \<and> s = take n s @ p @ drop (n + length p) s"
proof -
  obtain m where m: "str_index (rev s) (rev p) = Some m" and n: "n = length s - m - length p"
    using assms by (auto simp: str_last_index_def)
  have *: "m + length p \<le> length s"
    "rev s = take m (rev s) @ rev p @ drop (m + length p) (rev s)"
    using str_index_SomeD[OF m] by auto
  have "s = rev (take m (rev s) @ rev p @ drop (m + length p) (rev s))"
    using *(2) by (metis rev_rev_ident)
  also have "\<dots> = take (length s - (m + length p)) s @ p @ drop (length s - m) s"
    by (simp add: take_rev drop_rev)
  also have "\<dots> = take n s @ p @ drop (n + length p) s"
    using *(1) n by (simp add: add.commute)
  finally show ?thesis using * n by simp
qed

text \<open>\<open>strings.Join\<close> and \<open>strings.Split\<close> by one byte.\<close>

fun str_join :: "'a list \<Rightarrow> 'a list list \<Rightarrow> 'a list" where
  "str_join sep [] = []"
| "str_join sep [s] = s"
| "str_join sep (s # ss) = s @ sep @ str_join sep ss"

fun str_split :: "'a \<Rightarrow> 'a list \<Rightarrow> 'a list list" where
  "str_split sep [] = [[]]"
| "str_split sep (c # s) =
     (if c = sep then [] # str_split sep s else (c # hd (str_split sep s)) # tl (str_split sep s))"

lemma str_join_Cons: "ss \<noteq> [] \<Longrightarrow> str_join sep (s # ss) = s @ sep @ str_join sep ss"
  by (cases ss) simp_all

lemma str_split_nonempty [simp]: "str_split sep s \<noteq> []"
  by (cases s) simp_all

lemma str_split_append:
  "sep \<notin> set a \<Longrightarrow> str_split sep (a @ sep # b) = a # str_split sep b"
  by (induction a) auto

lemma str_split_plain: "sep \<notin> set a \<Longrightarrow> str_split sep a = [a]"
  by (induction a) auto

lemma str_split_join:
  "ss \<noteq> [] \<Longrightarrow> list_all (\<lambda>s. sep \<notin> set s) ss \<Longrightarrow> str_split sep (str_join [sep] ss) = ss"
proof (induction ss)
  case (Cons s ss)
  then show ?case
    by (cases ss) (simp_all add: str_split_plain str_split_append)
qed simp

lemma str_join_split: "str_join [sep] (str_split sep s) = s"
proof (induction s)
  case (Cons c s)
  obtain h t where h: "str_split sep s = h # t" by (cases "str_split sep s") simp_all
  then show ?case using Cons by (cases t) simp_all
qed simp

section \<open>Bytes as numbers\<close>

abbreviation code_of :: "char \<Rightarrow> nat" where
  "code_of c \<equiv> of_char c"

lemma code_of_less [simp]: "code_of c < 256"
  by simp

definition is_digit :: "char \<Rightarrow> bool" where
  "is_digit c = (48 \<le> code_of c \<and> code_of c \<le> 57)"

text \<open>\<open>strconv.Atoi\<close>: an optional sign and decimal digits, in the range of \<open>int64\<close>.\<close>

definition digits_value :: "bytes \<Rightarrow> int" where
  "digits_value s = foldl (\<lambda>v c. v * 10 + (int (code_of c) - 48)) 0 s"

definition strconv_atoi :: "bytes \<Rightarrow> int option" where
  "strconv_atoi s =
     (let (neg, ds) = (case s of
            [] \<Rightarrow> (False, [])
          | c # r \<Rightarrow> if c = CHR ''-'' then (True, r) else if c = CHR ''+'' then (False, r) else (False, s));
          v = (if neg then - digits_value ds else digits_value ds) in
      if ds = [] \<or> \<not> list_all is_digit ds then None
      else if - (2 ^ 63) \<le> v \<and> v < 2 ^ 63 then Some v else None)"

text \<open>The number of significant bits.\<close>

fun bit_len :: "nat \<Rightarrow> nat" where
  "bit_len n = (if n = 0 then 0 else Suc (bit_len (n div 2)))"

declare bit_len.simps [simp del]

lemma bit_len_0 [simp]: "bit_len 0 = 0"
  by (simp add: bit_len.simps)

lemma bit_len_less: "n < 2 ^ bit_len n"
  by (induction n rule: bit_len.induct) (subst bit_len.simps, auto)

lemma bit_len_le: "n < 2 ^ k \<Longrightarrow> bit_len n \<le> k"
proof (induction k arbitrary: n)
  case 0
  then show ?case by simp
next
  case (Suc k)
  then have "n div 2 < 2 ^ k" by (simp add: less_mult_imp_div_less mult.commute)
  then have "bit_len (n div 2) \<le> k" by (rule Suc.IH)
  then show ?case by (subst bit_len.simps) simp
qed

lemma bit_len_power [simp]: "bit_len (2 ^ k) = Suc k"
  by (induction k) (subst bit_len.simps, simp)+

lemma bit_len_le_self: "0 < n \<Longrightarrow> 2 ^ (bit_len n - 1) \<le> n"
proof (induction n rule: bit_len.induct)
  case (1 n)
  show ?case
  proof (cases "n div 2 = 0")
    case True
    then have "n = 1" using 1(2) by linarith
    then show ?thesis by (simp add: bit_len.simps)
  next
    case False
    then have "2 ^ (bit_len (n div 2) - 1) \<le> n div 2" using 1 by auto
    moreover have "0 < bit_len (n div 2)" using False by (subst bit_len.simps) simp
    then have "(2::nat) ^ bit_len (n div 2) = 2 * 2 ^ (bit_len (n div 2) - 1)"
      by (metis Suc_diff_1 power_Suc)
    ultimately have "2 ^ bit_len (n div 2) \<le> n" by linarith
    then show ?thesis using 1(2) by (subst bit_len.simps) simp
  qed
qed

definition byte_char :: "8 word \<Rightarrow> char" where
  "byte_char w = char_of (unat w)"

definition char_byte :: "char \<Rightarrow> 8 word" where
  "char_byte c = word_of_nat (code_of c)"

lemma char_byte_byte_char [simp]: "char_byte (byte_char w) = w"
proof -
  have "unat w < 256" using unsigned_less[of w] by simp
  then show ?thesis by (simp add: char_byte_def byte_char_def)
qed

lemma byte_char_char_byte [simp]: "byte_char (char_byte c) = c"
proof -
  have "unat (word_of_nat (code_of c) :: 8 word) = code_of c"
    by (simp add: unat_of_nat)
  then show ?thesis by (simp add: byte_char_def char_byte_def)
qed

end
