(* ===== verification/Unescape.thy ===== *)
theory Unescape
  imports Prelude
begin

text \<open>
  The unescaper of \<open>util/stringunescape/unescape.go\<close>: a table-driven decoder of escape
  sequences, run in place into a caller-supplied buffer. The theory models the buffer loop as
  it is (every write can run out of range) and proves it equal to a structural reference
  definition, in particular that a destination as long as the source never overflows.
\<close>

section \<open>The unescaper\<close>

record unescaper =
  escape_char :: char
  escapable_char :: "char \<Rightarrow> char"

text \<open>The zero byte in the 256-entry table marks a byte that is not escapable.\<close>

definition new_unescaper :: "char \<Rightarrow> (char \<times> char) list \<Rightarrow> unescaper" where
  "new_unescaper esc mapping =
     \<lparr>escape_char = esc,
      escapable_char =
        (\<lambda>c. case map_of mapping c of Some v \<Rightarrow> v | None \<Rightarrow> CHR 0x00)(esc := esc)\<rparr>"

definition find_first :: "unescaper \<Rightarrow> bytes \<Rightarrow> nat option" where
  "find_first e str = index_byte (escape_char e) str"

fun find_unescaped_from :: "unescaper \<Rightarrow> char \<Rightarrow> nat \<Rightarrow> bytes \<Rightarrow> nat option" where
  "find_unescaped_from e target pos [] = None"
| "find_unescaped_from e target pos (c # cs) =
     (if c = escape_char e then find_unescaped_from e target (pos + 2) (drop 1 cs)
      else if c = target then Some pos
      else find_unescaped_from e target (Suc pos) cs)"

definition find_first_unescaped :: "unescaper \<Rightarrow> bytes \<Rightarrow> char \<Rightarrow> nat option go" where
  "find_first_unescaped e str target =
     (if escapable_char e target = CHR 0x00 then Inl (LoggerPanic ''target is not escapable'')
      else Inr (find_unescaped_from e target 0 str))"

text \<open>One iteration's lookup: the decoded byte, or the pair kept as it was.\<close>

definition put_unescaped :: "unescaper \<Rightarrow> char \<Rightarrow> bytes \<Rightarrow> nat \<Rightarrow> (bytes \<times> nat) go" where
  "put_unescaped e val dst di =
     (let c = escapable_char e val
      in if c \<noteq> CHR 0x00 then go_bind (go_set dst di c) (\<lambda>dst. Inr (dst, di + 1))
         else go_bind (go_set dst di (escape_char e)) (\<lambda>dst.
              go_bind (go_set dst (di + 1) val) (\<lambda>dst. Inr (dst, di + 2))))"

text \<open>
  The loop of \<open>RunToBuffer\<close>, on the rest of the source (\<open>src[si:]\<close>). The loop condition
  \<open>si < len(src) - 1\<close> is "at least two bytes are left".
\<close>

function unescape_loop :: "unescaper \<Rightarrow> bytes \<Rightarrow> bytes \<Rightarrow> nat \<Rightarrow> (bytes \<times> nat) go" where
  "unescape_loop e rest dst di =
     (if length rest \<ge> 2 then
        go_bind (put_unescaped e (rest ! 1) dst di) (\<lambda>(dst, di).
          let rest2 = drop 2 rest;
              n = (case index_byte (escape_char e) rest2 of Some n \<Rightarrow> n | None \<Rightarrow> length rest2)
          in go_bind (go_copy dst di (take n rest2)) (\<lambda>(dst, k).
               unescape_loop e (drop n rest2) dst (di + k)))
      else if rest \<noteq> [] then
        go_bind (go_copy dst di rest) (\<lambda>(dst, k). Inr (dst, di + k))
      else Inr (dst, di))"
  by pat_completeness auto
termination
  by (relation "measure (\<lambda>(e, rest, dst, di). length rest)") auto

declare unescape_loop.simps [simp del]

definition run_to_buffer :: "unescaper \<Rightarrow> bytes \<Rightarrow> nat \<Rightarrow> bytes \<Rightarrow> (bytes \<times> nat) go" where
  "run_to_buffer e src first dst =
     go_bind (go_slice src 0 (int first)) (\<lambda>head.
     go_bind (go_copy dst 0 head) (\<lambda>(dst, di). unescape_loop e (drop first src) dst di))"

definition run_from_first :: "unescaper \<Rightarrow> bytes \<Rightarrow> nat \<Rightarrow> bytes go" where
  "run_from_first e src first =
     go_bind (run_to_buffer e src first (replicate (length src) (CHR 0x00)))
       (\<lambda>(dst, dend). go_slice dst 0 (int dend))"

definition unescape_run :: "unescaper \<Rightarrow> bytes \<Rightarrow> bytes go" where
  "unescape_run e src =
     (case find_first e src of None \<Rightarrow> Inr src | Some first \<Rightarrow> run_from_first e src first)"

text \<open>The unescaper for syslog text, \<open>base/bsupport/unescape.go\<close>.\<close>

definition syslog_unescaper :: unescaper where
  "syslog_unescaper = new_unescaper (CHR 0x5C)
     [(CHR ''b'', CHR 0x08), (CHR ''f'', CHR 0x0C), (CHR ''n'', CHR 0x0A),
      (CHR ''r'', CHR 0x0D), (CHR ''t'', CHR 0x09)]"

section \<open>Reference definition and equivalence\<close>

fun unescape_spec :: "unescaper \<Rightarrow> bytes \<Rightarrow> bytes" where
  "unescape_spec e [] = []"
| "unescape_spec e [c] = [c]"
| "unescape_spec e (c # v # rest) =
     (if c = escape_char e then
        (if escapable_char e v \<noteq> CHR 0x00 then escapable_char e v # unescape_spec e rest
         else c # v # unescape_spec e rest)
      else c # unescape_spec e (v # rest))"

lemma unescape_spec_length: "length (unescape_spec e s) \<le> length s"
  by (induction e s rule: unescape_spec.induct) auto

lemma unescape_spec_plain:
  "escape_char e \<notin> set xs \<Longrightarrow> unescape_spec e (xs @ ys) = xs @ unescape_spec e ys"
proof (induction xs)
  case Nil
  then show ?case by simp
next
  case (Cons x xs)
  then show ?case by (cases "xs @ ys") auto
qed

lemma unescape_spec_id: "escape_char e \<notin> set s \<Longrightarrow> unescape_spec e s = s"
  using unescape_spec_plain[of e s "[]"] by simp

definition unescape_pair :: "unescaper \<Rightarrow> char \<Rightarrow> bytes" where
  "unescape_pair e v = (if escapable_char e v \<noteq> CHR 0x00 then [escapable_char e v] else [escape_char e, v])"

lemma put_unescaped_patch:
  assumes "di + length (unescape_pair e v) \<le> length dst"
  shows "put_unescaped e v dst di =
    Inr (patch dst di (unescape_pair e v), di + length (unescape_pair e v))"
proof (cases "escapable_char e v = CHR 0x00")
  case True
  then have "patch (patch dst di [escape_char e]) (di + 1) [v] = patch dst di [escape_char e, v]"
    using assms patch_patch[of di "[escape_char e]" "[v]" dst] by (simp add: unescape_pair_def)
  with True assms show ?thesis
    by (simp add: put_unescaped_def unescape_pair_def Let_def go_set_patch)
next
  case False
  with assms show ?thesis
    by (simp add: put_unescaped_def unescape_pair_def Let_def go_set_patch)
qed

lemma unescape_spec_pair:
  "unescape_spec e (escape_char e # v # rest) = unescape_pair e v @ unescape_spec e rest"
  by (simp add: unescape_pair_def)

lemma unescape_pair_length: "length (unescape_pair e v) \<le> 2"
  by (simp add: unescape_pair_def)

text \<open>The source after a pair: plain bytes up to the next escape byte, then the rest.\<close>

lemma split_at_escape:
  fixes e :: unescaper
  defines "n \<equiv> \<lambda>s. case index_byte (escape_char e) s of Some n \<Rightarrow> n | None \<Rightarrow> length s"
  shows "escape_char e \<notin> set (take (n s) s)"
    and "drop (n s) s \<noteq> [] \<Longrightarrow> hd (drop (n s) s) = escape_char e"
    and "n s \<le> length s"
proof -
  show "escape_char e \<notin> set (take (n s) s)" and "n s \<le> length s"
    by (auto simp: n_def split: option.splits dest: index_byte_SomeD)
  show "drop (n s) s \<noteq> [] \<Longrightarrow> hd (drop (n s) s) = escape_char e"
  proof (cases "index_byte (escape_char e) s")
    case (Some k)
    then show ?thesis using index_byte_SomeD[OF Some] by (simp add: n_def hd_drop_conv_nth)
  qed (simp add: n_def)
qed

lemma unescape_loop_correct:
  assumes "rest \<noteq> [] \<Longrightarrow> hd rest = escape_char e" and "di + length rest \<le> length dst"
  shows "unescape_loop e rest dst di =
    Inr (patch dst di (unescape_spec e rest), di + length (unescape_spec e rest))"
  using assms
proof (induction "length rest" arbitrary: rest dst di rule: less_induct)
  case less
  consider (two) v rest2 where "rest = escape_char e # v # rest2"
    | (one) "rest = [escape_char e]" | (none) "rest = []"
    using less.prems(1) by (cases rest; cases "tl rest") auto
  then show ?case
  proof cases
    case two
    define n where "n = (case index_byte (escape_char e) rest2 of Some n \<Rightarrow> n | None \<Rightarrow> length rest2)"
    note sp = split_at_escape[where e = e and s = rest2, folded n_def]
    define p where "p = unescape_pair e v"
    define q where "q = take n rest2"
    have len: "length p \<le> 2" "length q + length (drop n rest2) = length rest2"
      using sp(3) by (auto simp: p_def q_def unescape_pair_length)
    have room: "di + 2 + length rest2 \<le> length dst" using less.prems(2) two by simp
    have "put_unescaped e v dst di = Inr (patch dst di p, di + length p)"
      unfolding p_def using room len by (intro put_unescaped_patch) (simp add: p_def)
    moreover have "go_copy (patch dst di p) (di + length p) q =
        Inr (patch dst di (p @ q), length q)"
      using room len by (simp add: go_copy_fits patch_patch)
    moreover have "unescape_loop e (drop n rest2) (patch dst di (p @ q)) (di + length p + length q) =
        Inr (patch (patch dst di (p @ q)) (di + length (p @ q)) (unescape_spec e (drop n rest2)),
             di + length p + length q + length (unescape_spec e (drop n rest2)))"
      using two sp(2) room len by (subst less.hyps) (auto simp: add.assoc)
    moreover have "patch (patch dst di (p @ q)) (di + length (p @ q)) (unescape_spec e (drop n rest2))
        = patch dst di (p @ q @ unescape_spec e (drop n rest2))"
      using room len unescape_spec_length[of e "drop n rest2"] by (subst patch_patch) auto
    moreover have "unescape_spec e rest = p @ q @ unescape_spec e (drop n rest2)"
      using two unescape_spec_plain[OF sp(1), of "drop n rest2"]
      by (simp add: unescape_spec_pair p_def q_def del: unescape_spec.simps)
    ultimately show ?thesis
      using two by (subst unescape_loop.simps) (simp add: Let_def n_def[symmetric] q_def)
  next
    case one
    with less.prems show ?thesis
      by (subst unescape_loop.simps) (simp add: go_copy_fits)
  next
    case none
    then show ?thesis by (subst unescape_loop.simps) simp
  qed
qed

text \<open>
  Writing into a buffer that has room for the source: the result is the reference text,
  everything behind it is untouched.
\<close>

lemma run_to_buffer_correct:
  assumes "find_first e src = Some first" and "length src \<le> length dst"
  shows "run_to_buffer e src first dst =
    Inr (patch dst 0 (unescape_spec e src), length (unescape_spec e src))"
proof -
  have i: "first < length src" "src ! first = escape_char e" "escape_char e \<notin> set (take first src)"
    using index_byte_SomeD[OF assms(1)[unfolded find_first_def]] by auto
  define h where "h = take first src"
  have h: "length h = first" "src = h @ drop first src" using i by (simp_all add: h_def)
  have spec: "unescape_spec e src = h @ unescape_spec e (drop first src)"
    using unescape_spec_plain[OF i(3), of "drop first src"] by (simp add: h_def)
  have "go_slice src 0 (int first) = Inr h"
    using i go_slice_nat[of 0 first src] by (simp add: h_def)
  moreover have "go_copy dst 0 h = Inr (patch dst 0 h, length h)"
    using h i assms by (intro go_copy_fits) simp
  moreover have "unescape_loop e (drop first src) (patch dst 0 h) (0 + length h) =
    Inr (patch (patch dst 0 h) (0 + length h) (unescape_spec e (drop first src)),
         0 + length h + length (unescape_spec e (drop first src)))"
    using i h assms by (intro unescape_loop_correct) (auto simp: hd_drop_conv_nth)
  moreover have "patch (patch dst 0 h) (0 + length h) (unescape_spec e (drop first src))
      = patch dst 0 (h @ unescape_spec e (drop first src))"
    using unescape_spec_length[of e "drop first src"] h i assms by (intro patch_patch) auto
  ultimately show ?thesis using spec by (simp add: run_to_buffer_def)
qed

lemma run_from_first_correct:
  assumes "find_first e src = Some first"
  shows "run_from_first e src first = Inr (unescape_spec e src)"
proof -
  have len: "length (unescape_spec e src) \<le> length src" by (rule unescape_spec_length)
  let ?dst = "replicate (length src) (CHR 0x00)"
  have "go_slice (patch ?dst 0 (unescape_spec e src)) 0 (int (length (unescape_spec e src)))
      = Inr (unescape_spec e src)"
    using len take_patch_end[of 0 "unescape_spec e src" ?dst] by (simp add: go_slice_def)
  then show ?thesis
    using run_to_buffer_correct[OF assms, of ?dst] by (simp add: run_from_first_def)
qed

lemma unescape_run_correct: "unescape_run e src = Inr (unescape_spec e src)"
  using run_from_first_correct[of e src]
  by (auto simp: unescape_run_def find_first_def unescape_spec_id split: option.splits)

text \<open>
  The unescaped target found is real: it is the target byte, and the bytes before it hold
  the target only behind an escape byte.
\<close>

lemma find_unescaped_from_SomeD:
  "find_unescaped_from e t pos s = Some n \<Longrightarrow>
     pos \<le> n \<and> n < pos + length s \<and> s ! (n - pos) = t"
proof (induction e t pos s rule: find_unescaped_from.induct)
  case (1 e target pos)
  then show ?case by simp
next
  case (2 e target pos c cs)
  consider (esc) "c = escape_char e" | (hit) "c \<noteq> escape_char e" "c = target"
    | (skip) "c \<noteq> escape_char e" "c \<noteq> target" by blast
  then show ?case
  proof cases
    case esc
    with "2.prems" have "find_unescaped_from e target (pos + 2) (drop 1 cs) = Some n" by simp
    from "2.IH"(1)[OF esc this]
    have "pos + 2 \<le> n" "n < pos + 2 + length (drop 1 cs)" "drop 1 cs ! (n - (pos + 2)) = target"
      by auto
    moreover from this have "(c # cs) ! (n - pos) = drop 1 cs ! (n - (pos + 2))"
      by (cases cs) (auto simp: nth_Cons' Suc_diff_le numeral_2_eq_2 diff_Suc split: nat.splits)
    ultimately show ?thesis by (cases cs) auto
  next
    case hit
    with "2.prems" show ?thesis by simp
  next
    case skip
    with "2.prems" "2.IH"(2) show ?thesis by (auto simp: nth_Cons' Suc_diff_le)
  qed
qed

text \<open>The escaping that syslog senders apply: the inverse of the syslog unescaper.\<close>

definition syslog_escape_char :: "char \<Rightarrow> bytes" where
  "syslog_escape_char c =
     (if c = CHR 0x5C then [CHR 0x5C, CHR 0x5C]
      else if c = CHR 0x08 then [CHR 0x5C, CHR ''b'']
      else if c = CHR 0x0C then [CHR 0x5C, CHR ''f'']
      else if c = CHR 0x0A then [CHR 0x5C, CHR ''n'']
      else if c = CHR 0x0D then [CHR 0x5C, CHR ''r'']
      else if c = CHR 0x09 then [CHR 0x5C, CHR ''t'']
      else [c])"

definition syslog_escape :: "bytes \<Rightarrow> bytes" where
  "syslog_escape s = concat (map syslog_escape_char s)"

lemma syslog_unescaper_simps [simp]:
  "escape_char syslog_unescaper = CHR 0x5C"
  "escapable_char syslog_unescaper (CHR 0x5C) = CHR 0x5C"
  "escapable_char syslog_unescaper (CHR ''b'') = CHR 0x08"
  "escapable_char syslog_unescaper (CHR ''f'') = CHR 0x0C"
  "escapable_char syslog_unescaper (CHR ''n'') = CHR 0x0A"
  "escapable_char syslog_unescaper (CHR ''r'') = CHR 0x0D"
  "escapable_char syslog_unescaper (CHR ''t'') = CHR 0x09"
  by (simp_all add: syslog_unescaper_def new_unescaper_def)

lemma unescape_spec_escape_char:
  "unescape_spec syslog_unescaper (syslog_escape_char c @ rest) =
     c # unescape_spec syslog_unescaper rest"
  by (cases rest) (auto simp: syslog_escape_char_def)

lemma unescape_spec_escape: "unescape_spec syslog_unescaper (syslog_escape s) = s"
  by (induction s) (simp_all add: syslog_escape_def unescape_spec_escape_char)

section \<open>Properties\<close>

text \<open>
  C38: the in-place unescaping loop never runs out of its buffer, whatever the unescaper and the
  source, and returns what the structural definition gives.
\<close>

theorem unescape_is_spec: "unescape_run e src = Inr (unescape_spec e src)"
  by (rule unescape_run_correct)

text \<open>
  The syslog unescaper undoes the escaping of control bytes and backslashes: every text is
  recovered from its escaped form.
\<close>

theorem unescape_inverts_escape: "unescape_run syslog_unescaper (syslog_escape s) = Inr s"
  by (simp add: unescape_run_correct unescape_spec_escape)

end
