(* ===== verification/Utf8.thy ===== *)
theory Utf8
  imports Prelude
begin

text \<open>
  \<open>util/utf8.go\<close> and the byte-slice helpers of \<open>util/strings.go\<close>: cutting a byte string so
  that it does not end inside a UTF-8 sequence. \<open>strings.ToValidUTF8\<close> and the decoding rules
  behind it belong to the Go standard library and are modelled from its documented tables.
\<close>

section \<open>UTF-8 sequences as the Go decoder accepts them\<close>

text \<open>Bytes needed by a leading byte (0: not a leading byte), and the range of the second byte.\<close>

definition utf8_need :: "char \<Rightarrow> nat" where
  "utf8_need c =
     (let b = code_of c in
      if b \<le> 127 then 1
      else if 194 \<le> b \<and> b \<le> 223 then 2
      else if 224 \<le> b \<and> b \<le> 239 then 3
      else if 240 \<le> b \<and> b \<le> 244 then 4
      else 0)"

definition utf8_lo :: "char \<Rightarrow> nat" where
  "utf8_lo c = (if code_of c = 224 then 160 else if code_of c = 240 then 144 else 128)"

definition utf8_hi :: "char \<Rightarrow> nat" where
  "utf8_hi c = (if code_of c = 237 then 159 else if code_of c = 244 then 143 else 191)"

definition is_cont :: "char \<Rightarrow> bool" where
  "is_cont c = (128 \<le> code_of c \<and> code_of c \<le> 191)"

text \<open>Width of the valid sequence at the head of a string, 0 if there is none.\<close>

fun utf8_width :: "bytes \<Rightarrow> nat" where
  "utf8_width [] = 0"
| "utf8_width (c # r) =
     (let n = utf8_need c in
      if n \<le> 1 then n
      else if n - 1 \<le> length r \<and> utf8_lo c \<le> code_of (r ! 0) \<and> code_of (r ! 0) \<le> utf8_hi c \<and>
              list_all is_cont (take (n - 2) (drop 1 r)) then n
      else 0)"

declare utf8_width.simps(2) [simp del]

lemma utf8_width_le: "utf8_width s \<le> length s"
  by (cases s) (auto simp: Let_def utf8_width.simps(2))

function valid_utf8 :: "bytes \<Rightarrow> bool" where
  "valid_utf8 s =
     (if s = [] then True
      else if utf8_width s = 0 then False
      else valid_utf8 (drop (utf8_width s) s))"
  by pat_completeness auto
termination
  by (relation "measure length") (simp_all add: diff_less)

text \<open>\<open>strings.ToValidUTF8(s, "")\<close>: keep valid sequences, drop every other byte.\<close>

function to_valid_utf8 :: "bytes \<Rightarrow> bytes" where
  "to_valid_utf8 s =
     (if s = [] then []
      else if utf8_width s = 0 then to_valid_utf8 (drop 1 s)
      else take (utf8_width s) s @ to_valid_utf8 (drop (utf8_width s) s))"
  by pat_completeness auto
termination
  by (relation "measure length") (simp_all add: diff_less)

declare valid_utf8.simps [simp del] to_valid_utf8.simps [simp del]

section \<open>The code\<close>

definition overwrite_n_truncate :: "bytes \<Rightarrow> nat \<Rightarrow> bytes \<Rightarrow> bytes go" where
  "overwrite_n_truncate main start tail =
     go_bind (go_copy main start tail) (\<lambda>(main, n). go_slice main 0 (int (start + n)))"

fun find_last_end_of_ascii_loop :: "bytes \<Rightarrow> nat \<Rightarrow> nat" where
  "find_last_end_of_ascii_loop s 0 = 0"
| "find_last_end_of_ascii_loop s (Suc i) =
     (if code_of (s ! i) \<le> 127 then Suc i else find_last_end_of_ascii_loop s i)"

definition find_last_end_of_ascii :: "bytes \<Rightarrow> nat" where
  "find_last_end_of_ascii s = find_last_end_of_ascii_loop s (length s)"

definition clean_utf8 :: "bytes \<Rightarrow> bytes go" where
  "clean_utf8 s =
     (if s = [] then Inr s
      else let end_pos = find_last_end_of_ascii s;
               unclean_tail = drop end_pos s
           in overwrite_n_truncate s end_pos (to_valid_utf8 unclean_tail))"

section \<open>Widths and boundaries\<close>

lemma utf8_need_le: "utf8_need c \<le> 4"
  by (simp add: utf8_need_def Let_def)

lemma utf8_width_le_4: "utf8_width s \<le> 4"
  using utf8_need_le by (cases s) (auto simp: Let_def utf8_width.simps(2))

lemma utf8_width_Cons: "utf8_width (c # r) \<noteq> 0 \<Longrightarrow> utf8_width (c # r) = utf8_need c"
  by (auto simp: Let_def utf8_width.simps(2) split: if_splits)

lemma utf8_width_ascii [simp]: "code_of c \<le> 127 \<Longrightarrow> utf8_width (c # r) = 1"
  by (simp add: utf8_need_def utf8_width.simps(2))

lemma utf8_width_cont: "is_cont c \<Longrightarrow> utf8_width (c # r) = 0"
  by (simp add: is_cont_def utf8_need_def utf8_width.simps(2))

text \<open>The conditions on the bytes after the leading byte.\<close>

lemma utf8_width_nonzero:
  "utf8_width (c # r) \<noteq> 0 \<longleftrightarrow>
     utf8_need c = 1 \<or>
     (2 \<le> utf8_need c \<and> utf8_need c - 1 \<le> length r \<and> utf8_lo c \<le> code_of (r ! 0) \<and>
      code_of (r ! 0) \<le> utf8_hi c \<and> list_all is_cont (take (utf8_need c - 2) (drop 1 r)))"
  by (cases "utf8_need c \<le> 1") (auto simp: utf8_width.simps(2) Let_def)

text \<open>A valid sequence is its leading byte and continuation bytes.\<close>

lemma utf8_width_body:
  assumes w: "utf8_width s \<noteq> 0"
  shows "\<exists>c t r. s = c # t @ r \<and> length t = utf8_width s - 1 \<and> utf8_need c = utf8_width s
           \<and> list_all is_cont t"
proof -
  obtain c r where s: "s = c # r" using w by (cases s) auto
  note n = utf8_width_Cons[of c r]
  define t where "t = take (utf8_need c - 1) r"
  have "utf8_need c = utf8_width s" using w s n by simp
  moreover have "length t = utf8_need c - 1"
    using w s by (auto simp: t_def utf8_width_nonzero simp del: neq0_conv)
  moreover have "list_all is_cont t"
  proof (cases "utf8_need c \<le> 1")
    case True
    then show ?thesis by (simp add: t_def)
  next
    case False
    with w s have l: "utf8_need c - 1 \<le> length r" "utf8_lo c \<le> code_of (r ! 0)"
      "code_of (r ! 0) \<le> utf8_hi c" "list_all is_cont (take (utf8_need c - 2) (drop 1 r))"
      by (auto simp: utf8_width_nonzero simp del: neq0_conv)
    from False l(1) obtain d r' where r: "r = d # r'" by (cases r) auto
    have "utf8_need c - 1 = Suc (utf8_need c - 2)" using False by simp
    with r have "t = d # take (utf8_need c - 2) r'" by (simp add: t_def)
    moreover have "is_cont d"
      using l r by (auto simp: is_cont_def utf8_lo_def utf8_hi_def split: if_splits)
    ultimately show ?thesis using l(4) r by simp
  qed
  moreover have "r = t @ drop (utf8_need c - 1) r" by (simp add: t_def)
  ultimately show ?thesis using s by auto
qed

lemma utf8_width_append:
  assumes "utf8_width s \<noteq> 0" shows "utf8_width (s @ r) = utf8_width s"
proof -
  obtain c t where s: "s = c # t" using assms by (cases s) auto
  have "utf8_width (c # t) \<noteq> 0" using assms s by simp
  then have "utf8_width (c # t @ r) \<noteq> 0"
    unfolding utf8_width_nonzero by (auto simp: nth_append)
  with assms s show ?thesis using utf8_width_Cons[of c t] utf8_width_Cons[of c "t @ r"] by simp
qed

lemma utf8_width_take_self:
  assumes "utf8_width s \<noteq> 0" shows "utf8_width (take (utf8_width s) s @ r) = utf8_width s"
proof -
  obtain c r0 where s: "s = c # r0" using assms by (cases s) auto
  define n where "n = utf8_need c"
  have n: "utf8_width s = n" "n \<noteq> 0" using assms s utf8_width_Cons[of c r0] by (auto simp: n_def)
  have "take (n - 2) (drop 1 (take (n - 1) r0)) = take (n - 2) (drop 1 r0)"
    by (simp add: drop_take numeral_2_eq_2)
  note eq = this
  have "utf8_width (c # r0) \<noteq> 0" using assms s by simp
  then have "utf8_width (c # take (n - 1) r0) \<noteq> 0"
  proof (cases "n = 1")
    case False
    with n(2) have "2 \<le> n" by simp
    with \<open>utf8_width (c # r0) \<noteq> 0\<close>
    have *: "n - 1 \<le> length r0" "utf8_lo c \<le> code_of (r0 ! 0)" "code_of (r0 ! 0) \<le> utf8_hi c"
      "list_all is_cont (take (n - 2) (drop 1 r0))"
      unfolding utf8_width_nonzero n_def[symmetric] by simp_all
    have "take (n - 1) r0 ! 0 = r0 ! 0" using \<open>2 \<le> n\<close> by simp
    moreover have "n - 1 \<le> length (take (n - 1) r0)" using *(1) by simp
    ultimately show ?thesis
      unfolding utf8_width_nonzero n_def[symmetric] eq using * \<open>2 \<le> n\<close> by (simp only: simp_thms)
  next
    case True
    then show ?thesis unfolding utf8_width_nonzero n_def by blast
  qed
  then have "utf8_width (c # take (n - 1) r0) = n"
    unfolding n_def by (rule utf8_width_Cons)
  moreover have "take (utf8_width s) s = c # take (n - 1) r0"
    using s n by (cases n) auto
  ultimately show ?thesis using n utf8_width_append[of "c # take (n - 1) r0"] by simp
qed

lemma utf8_width_cut:
  assumes "0 < k" and "k < utf8_width s" shows "utf8_width (take k s) = 0"
proof -
  obtain c r where s: "s = c # r" using assms by (cases s) auto
  have n: "utf8_need c = utf8_width s" using assms s utf8_width_Cons[of c r] by simp
  obtain k' where k: "k = Suc k'" using assms by (cases k) auto
  then have "\<not> utf8_need c - 1 \<le> length (take k' r)" and "2 \<le> utf8_need c" using assms n by auto
  then have "\<not> utf8_width (c # take k' r) \<noteq> 0" unfolding utf8_width_nonzero by (simp del: length_take)
  then show ?thesis by (simp add: s k)
qed

lemma valid_utf8_Nil [simp]: "valid_utf8 []"
  by (simp add: valid_utf8.simps)

lemma valid_utf8_step:
  "valid_utf8 s \<Longrightarrow> s \<noteq> [] \<Longrightarrow> utf8_width s \<noteq> 0 \<and> valid_utf8 (drop (utf8_width s) s)"
  by (subst (asm) valid_utf8.simps) (simp split: if_splits)

lemma valid_utf8_append: "valid_utf8 s \<Longrightarrow> valid_utf8 (s @ t) \<longleftrightarrow> valid_utf8 t"
proof (induction s rule: valid_utf8.induct)
  case (1 s)
  show ?case
  proof (cases "s = []")
    case False
    with "1.prems" have w: "utf8_width s \<noteq> 0" "valid_utf8 (drop (utf8_width s) s)"
      using valid_utf8_step by blast+
    have "valid_utf8 (s @ t) = valid_utf8 (drop (utf8_width s) s @ t)"
      using w(1) False utf8_width_le[of s]
      by (subst valid_utf8.simps) (simp add: utf8_width_append)
    with "1.IH" False w show ?thesis by simp
  qed simp
qed

lemma valid_utf8_seq: "utf8_width s \<noteq> 0 \<Longrightarrow> valid_utf8 (take (utf8_width s) s)"
  using utf8_width_take_self[of s "[]"] utf8_width_le[of s]
  by (subst valid_utf8.simps) simp

text \<open>An ASCII byte is a boundary: what follows it is valid on its own.\<close>

lemma valid_utf8_after_ascii:
  "valid_utf8 (a @ c # b) \<Longrightarrow> code_of c \<le> 127 \<Longrightarrow> valid_utf8 b"
proof (induction a rule: length_induct)
  case (1 a)
  let ?s = "a @ c # b"
  show ?case
  proof (cases a)
    case Nil
    with "1.prems" show ?thesis using valid_utf8_step[of "c # b"] by simp
  next
    case (Cons x xs)
    have w: "utf8_width ?s \<noteq> 0" "valid_utf8 (drop (utf8_width ?s) ?s)"
      using valid_utf8_step[OF "1.prems"(1)] by auto
    obtain d t r where b: "?s = d # t @ r" "length t = utf8_width ?s - 1" "list_all is_cont t"
      using utf8_width_body[OF w(1)] by blast
    have "utf8_width ?s \<le> length a"
    proof (rule ccontr)
      assume "\<not> utf8_width ?s \<le> length a"
      then have "length a - 1 < length t" using Cons b(2) by simp
      moreover have "?s ! length a = (t @ r) ! (length a - 1)" using b(1) Cons by (simp add: nth_Cons')
      ultimately have "c \<in> set t" by (simp add: nth_append)
      with b(3) "1.prems"(2) show False by (auto simp: list_all_iff is_cont_def)
    qed
    then have "drop (utf8_width ?s) ?s = drop (utf8_width ?s) a @ c # b"
      by simp
    moreover have "length (drop (utf8_width ?s) a) < length a" using w(1) Cons by simp
    ultimately show ?thesis using "1.IH" w(2) "1.prems"(2) by metis
  qed
qed

lemma to_valid_utf8_Nil [simp]: "to_valid_utf8 [] = []"
  by (simp add: to_valid_utf8.simps)

lemma to_valid_utf8_append_valid:
  "valid_utf8 s \<Longrightarrow> to_valid_utf8 (s @ t) = s @ to_valid_utf8 t"
proof (induction s rule: valid_utf8.induct)
  case (1 s)
  show ?case
  proof (cases "s = []")
    case False
    with "1.prems" have w: "utf8_width s \<noteq> 0" "valid_utf8 (drop (utf8_width s) s)"
      using valid_utf8_step by blast+
    have "to_valid_utf8 (s @ t) = take (utf8_width s) s @ to_valid_utf8 (drop (utf8_width s) s @ t)"
      using w(1) False utf8_width_le[of s]
      by (subst to_valid_utf8.simps) (simp add: utf8_width_append)
    also have "\<dots> = take (utf8_width s) s @ drop (utf8_width s) s @ to_valid_utf8 t"
      using "1.IH" False w by simp
    finally show ?thesis by (simp only: append_assoc[symmetric] append_take_drop_id)
  qed simp
qed

lemma to_valid_utf8_valid: "valid_utf8 (to_valid_utf8 s)"
proof (induction s rule: to_valid_utf8.induct)
  case (1 s)
  show ?case
    using "1.IH" by (subst to_valid_utf8.simps) (simp add: valid_utf8_append valid_utf8_seq)
qed

lemma to_valid_utf8_length: "length (to_valid_utf8 s) \<le> length s"
proof (induction s rule: to_valid_utf8.induct)
  case (1 s)
  show ?case
    using "1.IH" utf8_width_le[of s] by (subst to_valid_utf8.simps) auto
qed

lemma to_valid_utf8_conts: "list_all is_cont t \<Longrightarrow> to_valid_utf8 t = []"
proof (induction t)
  case (Cons c t)
  then show ?case by (subst to_valid_utf8.simps) (simp add: utf8_width_cont)
qed simp

text \<open>A sequence cut short leaves nothing valid behind.\<close>

lemma to_valid_utf8_cut:
  assumes "0 < k" and "k < utf8_width s" shows "to_valid_utf8 (take k s) = []"
proof -
  obtain c t r where b: "s = c # t @ r" "length t = utf8_width s - 1" "list_all is_cont t"
    using utf8_width_body[of s] assms by auto
  have k: "take k s = c # take (k - 1) t"
    using assms b(1,2) by (cases k) auto
  have "list_all is_cont (take (k - 1) t)" using b(3) by (auto simp: list_all_iff dest: in_set_takeD)
  moreover have "utf8_width (take k s) = 0" using assms by (rule utf8_width_cut)
  ultimately show ?thesis
    using k by (subst to_valid_utf8.simps) (simp add: to_valid_utf8_conts)
qed

text \<open>A cut of a valid string is a valid prefix and at most three bytes of a broken sequence.\<close>

lemma valid_utf8_take:
  "valid_utf8 s \<Longrightarrow> n \<le> length s \<Longrightarrow>
    \<exists>v t. take n s = v @ t \<and> valid_utf8 v \<and> length t \<le> 3 \<and> to_valid_utf8 t = [] \<and>
      (\<forall>c\<in>set t. 127 < code_of c)"
proof (induction s arbitrary: n rule: valid_utf8.induct)
  case (1 s)
  let ?w = "utf8_width s"
  show ?case
  proof (cases "s = [] \<or> n = 0")
    case True
    then show ?thesis by (intro exI[of _ "[]"]) auto
  next
    case False
    then have w: "?w \<noteq> 0" "valid_utf8 (drop ?w s)"
      using "1.prems"(1) valid_utf8_step[of s] by auto
    show ?thesis
    proof (cases "?w \<le> n")
      case True
      obtain v t where vt: "take (n - ?w) (drop ?w s) = v @ t" "valid_utf8 v" "length t \<le> 3"
        "to_valid_utf8 t = []" "\<forall>c\<in>set t. 127 < code_of c"
        using "1.IH"[of "n - ?w"] False w "1.prems"(2) diff_le_mono[of n "length s" ?w]
        by (auto simp del: neq0_conv)
      have "take n s = (take ?w s @ v) @ t"
        using True vt(1) by (metis append_assoc le_add_diff_inverse take_add)
      moreover have "valid_utf8 (take ?w s @ v)"
        using valid_utf8_append[OF valid_utf8_seq[OF w(1)]] vt(2) by simp
      ultimately show ?thesis using vt by blast
    next
      case False
      obtain c t r where b: "s = c # t @ r" "length t = ?w - 1" "utf8_need c = ?w"
        "list_all is_cont t"
        using utf8_width_body[OF w(1)] by blast
      have "to_valid_utf8 (take n s) = []"
        using False \<open>\<not> (s = [] \<or> n = 0)\<close> by (intro to_valid_utf8_cut) auto
      moreover have "length (take n s) \<le> 3" using False utf8_width_le_4[of s] by simp
      moreover have "\<forall>x\<in>set (take n s). 127 < code_of x"
      proof -
        have "127 < code_of c" using b(3) False \<open>\<not> (s = [] \<or> n = 0)\<close>
          by (auto simp: utf8_need_def Let_def split: if_splits)
        moreover have "take n s = c # take (n - 1) t"
          using b(1,2) False \<open>\<not> (s = [] \<or> n = 0)\<close> by (cases n) auto
        ultimately show ?thesis using b(4) by (force simp: list_all_iff is_cont_def dest: in_set_takeD)
      qed
      ultimately show ?thesis by (intro exI[of _ "[]"] exI[of _ "take n s"]) simp
    qed
  qed
qed

section \<open>Cleaning a cut string\<close>

lemma find_last_end_of_ascii_loop_spec:
  "n \<le> length s \<Longrightarrow>
    find_last_end_of_ascii_loop s n \<le> n \<and>
    (\<forall>i. find_last_end_of_ascii_loop s n \<le> i \<and> i < n \<longrightarrow> 127 < code_of (s ! i)) \<and>
    (find_last_end_of_ascii_loop s n \<noteq> 0 \<longrightarrow> code_of (s ! (find_last_end_of_ascii_loop s n - 1)) \<le> 127)"
  by (induction n) (auto simp: less_Suc_eq)

lemma find_last_end_of_ascii_le: "find_last_end_of_ascii s \<le> length s"
  using find_last_end_of_ascii_loop_spec[of "length s" s] by (simp add: find_last_end_of_ascii_def)

lemma clean_utf8_eq:
  "clean_utf8 s = Inr (take (find_last_end_of_ascii s) s @ to_valid_utf8 (drop (find_last_end_of_ascii s) s))"
proof (cases "s = []")
  case False
  let ?e = "find_last_end_of_ascii s"
  let ?t = "to_valid_utf8 (drop ?e s)"
  have fit: "?e + length ?t \<le> length s"
    using to_valid_utf8_length[of "drop ?e s"] find_last_end_of_ascii_le[of s] by simp
  have "go_slice (patch s ?e ?t) 0 (int (?e + length ?t)) = Inr (take (?e + length ?t) (patch s ?e ?t))"
    using fit by (intro go_slice_prefix) simp
  with fit False show ?thesis
    by (simp add: clean_utf8_def overwrite_n_truncate_def Let_def go_copy_fits take_patch_end
        del: of_nat_add)
qed (simp add: clean_utf8_def find_last_end_of_ascii_def)

lemma clean_utf8_length: "clean_utf8 s = Inr v \<Longrightarrow> length v \<le> length s"
  using to_valid_utf8_length[of "drop (find_last_end_of_ascii s) s"] find_last_end_of_ascii_le[of s]
  by (auto simp: clean_utf8_eq)

text \<open>
  Cutting a valid string anywhere and cleaning it gives a valid prefix that is at most three
  bytes shorter than the cut.
\<close>

lemma clean_utf8_take:
  assumes "valid_utf8 s" and "n \<le> length s"
  shows "\<exists>v. clean_utf8 (take n s) = Inr v \<and> valid_utf8 v \<and> (\<exists>r. s = v @ r) \<and>
    length v \<le> n \<and> n \<le> length v + 3"
proof -
  obtain v t where vt: "take n s = v @ t" "valid_utf8 v" "length t \<le> 3" "to_valid_utf8 t = []"
    "\<forall>c\<in>set t. 127 < code_of c"
    using valid_utf8_take[OF assms] by blast
  define e where "e = find_last_end_of_ascii (v @ t)"
  have sp: "e \<le> length (v @ t)" "e \<noteq> 0 \<Longrightarrow> code_of ((v @ t) ! (e - 1)) \<le> 127"
    using find_last_end_of_ascii_loop_spec[of "length (v @ t)" "v @ t"]
    by (auto simp: e_def find_last_end_of_ascii_def)
  have ev: "e \<le> length v"
  proof (rule ccontr)
    assume "\<not> e \<le> length v"
    then have "(v @ t) ! (e - 1) \<in> set t" using sp(1) by (auto simp: nth_append)
    with vt(5) sp(2) \<open>\<not> e \<le> length v\<close> show False by force
  qed
  have "valid_utf8 (drop e v)"
  proof (cases "e = 0")
    case False
    then have "v = take (e - 1) v @ v ! (e - 1) # drop e v"
      using ev id_take_nth_drop[of "e - 1" v] by simp
    moreover have "code_of (v ! (e - 1)) \<le> 127"
      using sp(2)[OF False] False ev nth_append[of v t "e - 1"] by (auto split: if_splits)
    ultimately show ?thesis using valid_utf8_after_ascii vt(2) by metis
  qed (simp add: vt(2))
  then have "to_valid_utf8 (drop e (v @ t)) = drop e v"
    using ev vt(4) by (simp add: to_valid_utf8_append_valid)
  then have "clean_utf8 (take n s) = Inr v"
    using ev by (simp add: clean_utf8_eq vt(1) e_def[symmetric])
  moreover have "s = v @ (t @ drop n s)" using vt(1) by (metis append_assoc append_take_drop_id)
  moreover have "n = length v + length t" using vt(1) assms(2) by (metis length_append length_take min_absorb2)
  ultimately show ?thesis using vt by auto
qed

section \<open>Properties\<close>

text \<open>
  C39: a valid text cut anywhere and then cleaned is a valid prefix of the text, and at most three
  bytes are lost by cleaning.
\<close>

theorem clean_utf8_of_cut:
  assumes "valid_utf8 s" and "n \<le> length s"
  shows "\<exists>v. clean_utf8 (take n s) = Inr v \<and> valid_utf8 v \<and> (\<exists>r. s = v @ r) \<and>
    length v \<le> n \<and> n \<le> length v + 3"
  by (rule clean_utf8_take[OF assms])

theorem clean_utf8_of_cut_witness:
  "\<exists>v. clean_utf8 (take 3 [CHR ''a'', CHR 0xE2, CHR 0x82, CHR 0xAC]) = Inr v \<and> valid_utf8 v \<and>
     (\<exists>r. [CHR ''a'', CHR 0xE2, CHR 0x82, CHR 0xAC] = v @ r) \<and> length v \<le> 3 \<and> 3 \<le> length v + 3"
proof -
  have w: "utf8_width [CHR ''a'', CHR 0xE2, CHR 0x82, CHR 0xAC] = 1"
    "utf8_width [CHR 0xE2, CHR 0x82, CHR 0xAC] = 3"
    by (simp_all add: utf8_width.simps(2) utf8_need_def utf8_lo_def utf8_hi_def is_cont_def)
  have "valid_utf8 [CHR ''a'', CHR 0xE2, CHR 0x82, CHR 0xAC]"
    by (subst valid_utf8.simps, simp add: w, subst valid_utf8.simps) (simp add: w)
  from clean_utf8_of_cut[OF this, of 3] show ?thesis by simp
qed

end
