(* ===== verification/Log_Record.thy ===== *)
theory Log_Record
  imports Prelude
begin

text \<open>
  Log records, schemas and field locators: \<open>base/logrecord.go\<close>, \<open>base/logschema.go\<close>,
  \<open>base/logfieldlocator.go\<close>, \<open>base/fieldsetextractor.go\<close>, \<open>base/logchunk.go\<close>. A record's
  fields are a list of fixed length; a locator is an index bound to a schema. A timestamp is
  the instant in nanoseconds since the Unix epoch.
\<close>

section \<open>Records and field access\<close>

type_synonym gotime = int

text \<open>\<open>time.Time{}\<close>: the first of January of the year 1, in nanoseconds.\<close>

definition zero_time :: gotime where
  "zero_time = -62135596800 * 1000000000"

record log_record =
  Fields :: "bytes list"
  RawLength :: nat
  Timestamp :: gotime
  Unescaped :: bool
  backbuf :: "bytes option"
  refCount :: int

type_synonym locator = int

definition MissingFieldLocator :: locator where
  "MissingFieldLocator = -1"

definition loc_get :: "locator \<Rightarrow> bytes list \<Rightarrow> bytes go" where
  "loc_get loc fs = go_index fs loc"

definition loc_set :: "locator \<Rightarrow> bytes list \<Rightarrow> bytes \<Rightarrow> bytes list go" where
  "loc_set loc fs v =
     (if 0 \<le> loc \<and> loc < int (length fs) then Inr (fs[nat loc := v])
      else Inl IndexOutOfRange)"

definition loc_del :: "locator \<Rightarrow> bytes list \<Rightarrow> bytes list go" where
  "loc_del loc fs = loc_set loc fs []"

text \<open>A locator that fits every record of \<open>n\<close> fields.\<close>

definition loc_ok :: "nat \<Rightarrow> locator \<Rightarrow> bool" where
  "loc_ok n loc \<longleftrightarrow> 0 \<le> loc \<and> loc < int n"

lemma loc_get_ok: "loc_ok (length fs) loc \<Longrightarrow> loc_get loc fs = Inr (fs ! nat loc)"
  by (simp add: loc_get_def go_index_def loc_ok_def)

lemma loc_set_ok: "loc_ok (length fs) loc \<Longrightarrow> loc_set loc fs v = Inr (fs[nat loc := v])"
  by (simp add: loc_set_def loc_ok_def)

lemma loc_del_ok: "loc_ok (length fs) loc \<Longrightarrow> loc_del loc fs = Inr (fs[nat loc := []])"
  by (simp add: loc_del_def loc_set_ok)

lemma loc_set_length: "loc_set loc fs v = Inr fs' \<Longrightarrow> length fs' = length fs"
  by (auto simp: loc_set_def split: if_splits)

lemma loc_set_get:
  "loc_set loc fs v = Inr fs' \<Longrightarrow> loc_get loc' fs' = (if loc' = loc then Inr v else loc_get loc' fs)"
  by (auto simp: loc_set_def loc_get_def go_index_def nth_list_update nat_eq_iff split: if_splits)

section \<open>Schemas\<close>

text \<open>Configuration errors, by the check that fails.\<close>

datatype cfg_error =
    Unspecified string
  | EmptyList string
  | FieldNotDefined bytes
  | InvalidValue string
  | Duplicated bytes
  | MustNotChange string

type_synonym 'a cfg = "cfg_error + 'a"

record log_schema =
  fieldNames :: "bytes list"
  maxFields :: nat

fun check_field_names :: "bytes list \<Rightarrow> bytes list \<Rightarrow> unit cfg" where
  "check_field_names seen [] = Inr ()"
| "check_field_names seen (name # names) =
     (if name = [] then Inl (InvalidValue ''field name'')
      else if name \<in> set seen then Inl (Duplicated name)
      else check_field_names (name # seen) names)"

definition new_log_schema :: "bytes list \<Rightarrow> nat \<Rightarrow> log_schema cfg" where
  "new_log_schema names mx =
     (if mx < length names then Inl (InvalidValue ''maxFields'')
      else case check_field_names [] names of
        Inl e \<Rightarrow> Inl e
      | Inr _ \<Rightarrow> Inr \<lparr>fieldNames = names, maxFields = mx\<rparr>)"

definition must_new_log_schema :: "bytes list \<Rightarrow> log_schema go" where
  "must_new_log_schema names =
     (case new_log_schema names (length names) of
        Inl e \<Rightarrow> Inl (LoggerPanic ''failed to create schema'')
      | Inr s \<Rightarrow> Inr s)"

definition create_field_locator :: "log_schema \<Rightarrow> bytes \<Rightarrow> locator cfg" where
  "create_field_locator s name =
     (case index_byte name (fieldNames s) of
        None \<Rightarrow> Inl (FieldNotDefined name)
      | Some i \<Rightarrow> Inr (int i))"

fun create_field_locators :: "log_schema \<Rightarrow> bytes list \<Rightarrow> locator list cfg" where
  "create_field_locators s [] = Inr []"
| "create_field_locators s (name # names) =
     (case create_field_locator s name of
        Inl e \<Rightarrow> Inl e
      | Inr loc \<Rightarrow>
          (case create_field_locators s names of
             Inl e \<Rightarrow> Inl e
           | Inr locs \<Rightarrow> Inr (loc # locs)))"

definition must :: "string \<Rightarrow> 'a cfg \<Rightarrow> 'a go" where
  "must msg r = (case r of Inl e \<Rightarrow> Inl (LoggerPanic msg) | Inr x \<Rightarrow> Inr x)"

definition must_create_field_locator :: "log_schema \<Rightarrow> bytes \<Rightarrow> locator go" where
  "must_create_field_locator s name =
     must ''failed to create locator for field'' (create_field_locator s name)"

definition must_create_field_locators :: "log_schema \<Rightarrow> bytes list \<Rightarrow> locator list go" where
  "must_create_field_locators s names =
     must ''failed to create locators for fields'' (create_field_locators s names)"

definition loc_name :: "locator \<Rightarrow> log_schema \<Rightarrow> bytes go" where
  "loc_name loc s = go_index (fieldNames s) loc"

lemma must_Inr [simp]: "must m (Inr x) = Inr x"
  by (simp add: must_def)

lemma must_eq_Inr: "must m r = Inr x \<longleftrightarrow> r = Inr x"
  by (auto simp: must_def split: sum.splits)

definition schema_ok :: "log_schema \<Rightarrow> bool" where
  "schema_ok s \<longleftrightarrow>
     length (fieldNames s) \<le> maxFields s \<and> [] \<notin> set (fieldNames s) \<and> distinct (fieldNames s)"

lemma check_field_names_iff:
  "check_field_names seen names = Inr () \<longleftrightarrow>
     [] \<notin> set names \<and> distinct names \<and> set names \<inter> set seen = {}"
  by (induction seen names rule: check_field_names.induct) auto

lemma new_log_schema_iff:
  "new_log_schema names mx = Inr s \<longleftrightarrow>
     s = \<lparr>fieldNames = names, maxFields = mx\<rparr> \<and> schema_ok s"
proof (cases "check_field_names [] names")
  case (Inl e)
  then have "\<not> ([] \<notin> set names \<and> distinct names)"
    using check_field_names_iff[of "[]" names] by auto
  with Inl show ?thesis by (auto simp: new_log_schema_def schema_ok_def)
next
  case (Inr u)
  then have "[] \<notin> set names \<and> distinct names"
    using check_field_names_iff[of "[]" names] by simp
  with Inr show ?thesis by (auto simp: new_log_schema_def schema_ok_def)
qed

lemma create_field_locator_ok:
  "create_field_locator s name = Inr loc \<Longrightarrow>
     loc_ok (length (fieldNames s)) loc \<and> loc_name loc s = Inr name"
  by (auto simp: create_field_locator_def loc_ok_def loc_name_def go_index_def
      dest: index_byte_SomeD split: option.splits)

lemma create_field_locator_defined:
  "(\<exists>loc. create_field_locator s name = Inr loc) \<longleftrightarrow> name \<in> set (fieldNames s)"
  using index_byte_None[of name "fieldNames s"]
  by (auto simp: create_field_locator_def split: option.splits simp del: index_byte_None)

lemma create_field_locator_nth:
  assumes "distinct (fieldNames s)" and "i < length (fieldNames s)"
  shows "create_field_locator s (fieldNames s ! i) = Inr (int i)"
proof -
  have "fieldNames s = take i (fieldNames s) @ fieldNames s ! i # drop (Suc i) (fieldNames s)"
    using assms(2) by (rule id_take_nth_drop)
  moreover have "fieldNames s ! i \<notin> set (take i (fieldNames s))"
    using assms by (metis calculation distinct_append disjoint_iff list.set_intros(1))
  ultimately have "index_byte (fieldNames s ! i) (fieldNames s) = Some (length (take i (fieldNames s)))"
    by (metis index_byte_unique)
  then show ?thesis using assms by (simp add: create_field_locator_def)
qed

lemma create_field_locators_ok:
  "create_field_locators s names = Inr locs \<Longrightarrow>
     length locs = length names \<and> list_all (loc_ok (length (fieldNames s))) locs"
  by (induction names arbitrary: locs)
    (auto split: sum.splits dest: create_field_locator_ok)

section \<open>Extracting key fields\<close>

text \<open>\<open>FieldSetExtractor.Extract\<close>: the values at the locators, in order.\<close>

fun extract_field_set :: "locator list \<Rightarrow> log_record \<Rightarrow> bytes list go" where
  "extract_field_set [] r = Inr []"
| "extract_field_set (loc # locs) r =
     go_bind (loc_get loc (Fields r)) (\<lambda>v.
     go_bind (extract_field_set locs r) (\<lambda>vs. Inr (v # vs)))"

lemma extract_field_set_ok:
  "list_all (loc_ok (length (Fields r))) locs \<Longrightarrow>
     extract_field_set locs r = Inr (map (\<lambda>loc. Fields r ! nat loc) locs)"
  by (induction locs) (auto simp: loc_get_ok)

section \<open>Chunks\<close>

text \<open>\<open>nil\<close> data is \<^term>\<open>None\<close>; an empty slice is \<^term>\<open>Some []\<close>.\<close>

record log_chunk =
  chunk_id :: bytes
  chunk_data :: "bytes option"
  chunk_saved :: bool

definition data_len :: "log_chunk \<Rightarrow> nat" where
  "data_len c = (case chunk_data c of None \<Rightarrow> 0 | Some d \<Rightarrow> length d)"

section \<open>Filter results\<close>

text \<open>\<open>RunTransforms\<close> and its callers return \<open>PASS\<close> or \<open>DROP\<close>.\<close>

datatype filter_result = PASS | DROP

section \<open>Limits of intermediate buffers\<close>

text \<open>From \<open>defs/params.go\<close>.\<close>

definition IntermediateBufferMaxNumLogs :: nat where
  "IntermediateBufferMaxNumLogs = 500"

definition IntermediateBufferMaxTotalBytes :: nat where
  "IntermediateBufferMaxTotalBytes = 4 * 1024 * 1024"

text \<open>A second, in nanoseconds.\<close>

definition IntermediateFlushInterval :: int where
  "IntermediateFlushInterval = 1000000000"

end
