(* ===== verification/Template.thy ===== *)
theory Template
  imports Log_Record
begin

text \<open>
  String templates: \<open>util/stringtemplate/stringtemplate.go\<close>. The two regular expressions of the
  source are written out as the matchers they are (\<^verbatim>\<open>(\$\w+|\$\{\w+[^}]*\}|[^$]+)\<close> and
  \<^verbatim>\<open>^(\w+)(\[(-?[0-9]+)?:(-?[0-9]+)?\])?$\<close>): every alternative is decided by
  its first bytes and every repetition stops at a byte outside its class, so matching never
  backtracks.
\<close>

section \<open>Splitting a template\<close>

definition is_word :: "char \<Rightarrow> bool" where
  "is_word c \<longleftrightarrow>
     (48 \<le> code_of c \<and> code_of c \<le> 57) \<or> (65 \<le> code_of c \<and> code_of c \<le> 90) \<or>
     code_of c = 95 \<or> (97 \<le> code_of c \<and> code_of c \<le> 122)"

text \<open>The length of the match of \<open>partRegex\<close> at the beginning of the string.\<close>

fun match_part :: "bytes \<Rightarrow> nat option" where
  "match_part [] = None"
| "match_part (c # rest) =
     (if c = CHR ''$'' then
        (case rest of
           [] \<Rightarrow> None
         | d # rest' \<Rightarrow>
             if is_word d then Some (1 + length (takeWhile is_word rest))
             else if d = CHR ''{'' \<and> takeWhile is_word rest' \<noteq> [] then
               map_option (\<lambda>i. i + 3) (index_byte (CHR ''}'') rest')
             else None)
      else Some (length (takeWhile (\<lambda>d. d \<noteq> CHR ''$'') (c # rest))))"

lemma match_part_pos: "match_part s = Some n \<Longrightarrow> 0 < n"
  by (cases s) (auto split: if_splits list.splits)

function find_all_parts :: "bytes \<Rightarrow> bytes list" where
  "find_all_parts s =
     (if s = [] then []
      else case match_part s of
             None \<Rightarrow> find_all_parts (tl s)
           | Some n \<Rightarrow> take n s # find_all_parts (drop n s))"
  by auto
termination
  by (relation "measure length") (auto dest: match_part_pos)

declare find_all_parts.simps [simp del]

section \<open>Variable expressions\<close>

text \<open>\<^verbatim>\<open>(-?[0-9]+)?\<close>: the match and the rest.\<close>

definition match_int :: "bytes \<Rightarrow> bytes \<times> bytes" where
  "match_int s =
     (case s of
        [] \<Rightarrow> ([], [])
      | c # rest \<Rightarrow>
          if c = CHR ''-'' \<and> takeWhile is_digit rest \<noteq> []
          then (c # takeWhile is_digit rest, dropWhile is_digit rest)
          else (takeWhile is_digit s, dropWhile is_digit s))"

definition match_variable_expression :: "bytes \<Rightarrow> (bytes \<times> bytes \<times> bytes) option" where
  "match_variable_expression s =
     (let name = takeWhile is_word s; rest = dropWhile is_word s in
      if name = [] then None
      else case rest of
             [] \<Rightarrow> Some (name, [], [])
           | c # rest1 \<Rightarrow>
               if c \<noteq> CHR ''['' then None
               else let (a, rest2) = match_int rest1 in
                    (case rest2 of
                       [] \<Rightarrow> None
                     | d # rest3 \<Rightarrow>
                         if d \<noteq> CHR '':'' then None
                         else let (b, rest4) = match_int rest3 in
                              if rest4 = [CHR '']''] then Some (name, a, b) else None))"

type_synonym part_provider = "bytes list \<Rightarrow> bytes go"

definition MaxInt32 :: int where
  "MaxInt32 = 2 ^ 31 - 1"

text \<open>An error of \<open>strconv.Atoi\<close> (a number out of range) panics.\<close>

definition must_atoi :: "bytes \<Rightarrow> int go" where
  "must_atoi s =
     (case strconv_atoi s of None \<Rightarrow> Inl (LoggerPanic ''strconv.Atoi'') | Some v \<Rightarrow> Inr v)"

text \<open>The closure of \<open>createVariableExpressionSolver\<close> after \<open>variableResolver(source)\<close>.\<close>

definition substring :: "int \<Rightarrow> int \<Rightarrow> bytes \<Rightarrow> bytes go" where
  "substring paramStart paramEnd v =
     (let len = int (length v);
          start1 = (if paramStart < 0 then paramStart + len else paramStart);
          start = (if start1 < 0 then 0 else start1) in
      if start \<ge> len then Inr []
      else
        let end1 = (if paramEnd < 0 then paramEnd + len else paramEnd) in
        if end1 < 0 then Inr []
        else let end' = (if end1 > len then len else end1) in
             if start < end' then go_slice v start end' else Inr [])"

definition create_variable_expression_solver ::
  "part_provider \<Rightarrow> bytes \<Rightarrow> bytes \<Rightarrow> part_provider go" where
  "create_variable_expression_solver resolver startStr endStr =
     go_bind (if startStr = [] then Inr 0 else must_atoi startStr) (\<lambda>paramStart.
     go_bind (if endStr = [] then Inr MaxInt32 else must_atoi endStr) (\<lambda>paramEnd.
       Inr (\<lambda>source. go_bind (resolver source) (substring paramStart paramEnd))))"

section \<open>Expanders\<close>

type_synonym expander = "part_provider list"

fun make_providers ::
  "(bytes \<Rightarrow> part_provider cfg) \<Rightarrow> bytes list \<Rightarrow> expander cfg go" where
  "make_providers resolve [] = Inr (Inr [])"
| "make_providers resolve (p # ps) =
     go_bind (go_index p 0) (\<lambda>c0.
       let continue_with = (\<lambda>provider. go_bind (make_providers resolve ps) (\<lambda>r.
             case r of Inl e \<Rightarrow> Inr (Inl e) | Inr providers \<Rightarrow> Inr (Inr (provider # providers)))) in
       if c0 \<noteq> CHR ''$'' then continue_with (\<lambda>source. Inr p)
       else go_bind (go_index p 1) (\<lambda>c1.
         if c1 = CHR ''{'' \<and> last p = CHR ''}'' then
           go_bind (go_slice p 2 (int (length p) - 1)) (\<lambda>vexpr.
             case match_variable_expression vexpr of
               None \<Rightarrow> Inr (Inl (InvalidValue ''unrecognized variable expression''))
             | Some (vname, a, b) \<Rightarrow>
                 (case resolve vname of
                    Inl e \<Rightarrow> Inr (Inl e)
                  | Inr vprovider \<Rightarrow>
                      go_bind (create_variable_expression_solver vprovider a b) continue_with))
         else
           (case resolve (tl p) of
              Inl e \<Rightarrow> Inr (Inl e)
            | Inr vprovider \<Rightarrow> continue_with vprovider)))"

definition new_expander :: "bytes \<Rightarrow> (bytes \<Rightarrow> part_provider cfg) \<Rightarrow> expander cfg go" where
  "new_expander template resolve =
     (if str_index ''$$'' template \<noteq> None then Inr (Inl (InvalidValue ''escaping of $ is unsupported''))
      else let parts = find_all_parts template in
           go_bind (make_providers resolve parts) (\<lambda>r.
             case r of
               Inl e \<Rightarrow> Inr (Inl e)
             | Inr providers \<Rightarrow>
                 if sum_list (map length parts) \<noteq> length template
                 then Inr (Inl (InvalidValue ''unenclosed variable quotes''))
                 else Inr (Inr providers)))"

fun append_parts :: "expander \<Rightarrow> bytes list \<Rightarrow> bytes \<Rightarrow> bytes go" where
  "append_parts [] source buf = Inr buf"
| "append_parts (provide # ps) source buf =
     go_bind (provide source) (\<lambda>part. append_parts ps source (buf @ part))"

definition expander_run :: "expander \<Rightarrow> bytes list \<Rightarrow> bytes go" where
  "expander_run tmpl source =
     (if length tmpl = 1 then (tmpl ! 0) source else append_parts tmpl source [])"

text \<open>\<open>RunWithBuffer\<close>: the string, and the buffer handed back (reset to length 0, or untouched).\<close>

definition run_with_buffer :: "expander \<Rightarrow> bytes list \<Rightarrow> bytes \<Rightarrow> (bytes \<times> bytes) go" where
  "run_with_buffer tmpl source buffer =
     (if length tmpl = 1 then go_bind ((tmpl ! 0) source) (\<lambda>s. Inr (s, buffer))
      else go_bind (append_parts tmpl source []) (\<lambda>buf. Inr (buf, [])))"

text \<open>\<open>LogSchema.CreateTemplateVariableResolver\<close>.\<close>

definition create_template_variable_resolver :: "log_schema \<Rightarrow> bytes \<Rightarrow> part_provider cfg" where
  "create_template_variable_resolver s name =
     (case create_field_locator s name of Inl e \<Rightarrow> Inl e | Inr loc \<Rightarrow> Inr (loc_get loc))"

section \<open>Lemmas\<close>

subsection \<open>Substrings\<close>

text \<open>What the bounds mean: negative ones count from the end, and both are clipped.\<close>

definition clip_bound :: "int \<Rightarrow> nat \<Rightarrow> nat" where
  "clip_bound i n = (if i < 0 then nat (i + int n) else min n (nat i))"

definition substring_spec :: "int \<Rightarrow> int \<Rightarrow> bytes \<Rightarrow> bytes" where
  "substring_spec a b v =
     take (clip_bound b (length v) - clip_bound a (length v)) (drop (clip_bound a (length v)) v)"

lemma substring_correct: "substring a b v = Inr (substring_spec a b v)"
proof -
  let ?n = "int (length v)"
  define s where "s = (if a < 0 then (if a + ?n < 0 then 0 else a + ?n) else a)"
  have s: "0 \<le> s" "s < ?n \<Longrightarrow> clip_bound a (length v) = nat s"
    "\<not> s < ?n \<Longrightarrow> clip_bound a (length v) \<ge> length v"
    by (auto simp: s_def clip_bound_def split: if_splits)
  define e where "e = (if b < 0 then b + ?n else b)"
  have e: "e < 0 \<Longrightarrow> clip_bound b (length v) = 0"
    "0 \<le> e \<Longrightarrow> clip_bound b (length v) = nat (if e > ?n then ?n else e)"
    by (auto simp: e_def clip_bound_def)
  have *: "substring a b v =
      (if s \<ge> ?n then Inr [] else if e < 0 then Inr []
       else if s < (if e > ?n then ?n else e) then go_slice v s (if e > ?n then ?n else e) else Inr [])"
    unfolding substring_def Let_def s_def e_def by (simp only: if_distrib cong: if_cong) auto
  show ?thesis
    using s e unfolding * substring_spec_def
    by (auto simp: go_slice_def)
qed

lemma substring_length: "substring a b v = Inr w \<Longrightarrow> length w \<le> length v"
  by (auto simp: substring_correct substring_spec_def)

subsection \<open>Running an expander\<close>

lemma append_parts_ok:
  assumes "\<And>p. p \<in> set tmpl \<Longrightarrow> p source = Inr (f p)"
  shows "append_parts tmpl source buf = Inr (buf @ concat (map f tmpl))"
  using assms
proof (induction tmpl arbitrary: buf)
  case Nil
  then show ?case by simp
next
  case (Cons p ps)
  have "p source = Inr (f p)" by (rule Cons.prems) simp
  moreover have "append_parts ps source (buf @ f p) = Inr ((buf @ f p) @ concat (map f ps))"
    by (rule Cons.IH, rule Cons.prems) simp
  ultimately show ?case by simp
qed

lemma run_with_buffer_run:
  "run_with_buffer tmpl source buffer = Inr (s, buffer') \<Longrightarrow> expander_run tmpl source = Inr s"
  by (auto simp: run_with_buffer_def expander_run_def go_bind_eq_Inr split: if_splits)

lemma expander_run_ok:
  assumes "\<And>p. p \<in> set tmpl \<Longrightarrow> p source = Inr (f p)"
  shows "expander_run tmpl source = Inr (concat (map f tmpl))"
    and "\<exists>buf. run_with_buffer tmpl source buffer = Inr (concat (map f tmpl), buf)"
proof -
  have all: "append_parts tmpl source [] = Inr (concat (map f tmpl))"
    using append_parts_ok[of tmpl source f "[]"] assms by simp
  have "length tmpl = 1 \<Longrightarrow> (tmpl ! 0) source = Inr (concat (map f tmpl))"
    using assms[of "tmpl ! 0"] by (auto simp: length_Suc_conv)
  then show "expander_run tmpl source = Inr (concat (map f tmpl))"
    "\<exists>buf. run_with_buffer tmpl source buffer = Inr (concat (map f tmpl), buf)"
    using all by (auto simp: expander_run_def run_with_buffer_def)
qed

lemma new_expander_providers:
  assumes "new_expander template resolve = Inr (Inr ex)"
  shows "make_providers resolve (find_all_parts template) = Inr (Inr ex)"
proof (cases "make_providers resolve (find_all_parts template)")
  case (Inr r)
  then show ?thesis using assms by (cases r) (auto simp: new_expander_def split: if_splits)
qed (use assms in \<open>simp add: new_expander_def split: if_splits\<close>)

subsection \<open>Where a template is split\<close>

datatype token = Lit bytes | Var bytes | Braced bytes bytes

fun render :: "token \<Rightarrow> bytes" where
  "render (Lit s) = s"
| "render (Var name) = CHR ''$'' # name"
| "render (Braced name rest) = CHR ''$'' # CHR ''{'' # name @ rest @ ''}''"

fun token_ok :: "token \<Rightarrow> bool" where
  "token_ok (Lit s) \<longleftrightarrow> s \<noteq> [] \<and> CHR ''$'' \<notin> set s"
| "token_ok (Var name) \<longleftrightarrow> name \<noteq> [] \<and> list_all is_word name"
| "token_ok (Braced name rest) \<longleftrightarrow>
     name \<noteq> [] \<and> list_all is_word name \<and> CHR ''}'' \<notin> set rest"

text \<open>A token and what follows it do not run into each other.\<close>

fun separate :: "token \<Rightarrow> bytes \<Rightarrow> bool" where
  "separate (Lit s) rest \<longleftrightarrow> rest = [] \<or> hd rest = CHR ''$''"
| "separate (Var name) rest \<longleftrightarrow> rest = [] \<or> \<not> is_word (hd rest)"
| "separate (Braced name e) rest \<longleftrightarrow> True"

fun tokens_ok :: "token list \<Rightarrow> bool" where
  "tokens_ok [] \<longleftrightarrow> True"
| "tokens_ok (t # ts) \<longleftrightarrow>
     token_ok t \<and> separate t (concat (map render ts)) \<and> tokens_ok ts"

lemma takeWhile_stop:
  "list_all P xs \<Longrightarrow> ys = [] \<or> \<not> P (hd ys) \<Longrightarrow> takeWhile P (xs @ ys) = xs"
  by (cases ys) (auto simp: list_all_iff takeWhile_tail)

lemma not_word_brace [simp]: "\<not> is_word (CHR ''}'')" "\<not> is_word (CHR ''$'')" "\<not> is_word (CHR ''{'')"
  by (simp_all add: is_word_def)

lemma match_part_token:
  assumes "token_ok t" and "separate t rest"
  shows "match_part (render t @ rest) = Some (length (render t))"
proof (cases t)
  case (Lit s)
  then obtain c s' where s: "s = c # s'" using assms by (cases s) auto
  have "takeWhile (\<lambda>d. d \<noteq> CHR ''$'') (s @ rest) = s"
    using assms Lit by (intro takeWhile_stop) (auto simp: list_all_iff)
  moreover have "c \<noteq> CHR ''$''" using assms Lit s by auto
  ultimately show ?thesis unfolding Lit s by simp
next
  case (Var name)
  then obtain c s' where s: "name = c # s'" using assms by (cases name) auto
  have "takeWhile is_word (name @ rest) = name"
    using assms Var by (intro takeWhile_stop) auto
  then show ?thesis using assms Var s by auto
next
  case (Braced name e)
  then obtain c s' where s: "name = c # s'" using assms by (cases name) auto
  have "CHR ''}'' \<notin> set (name @ e)"
    using assms Braced by (auto simp: list_all_iff)
  then have "index_byte (CHR ''}'') ((name @ e) @ CHR ''}'' # rest) = Some (length (name @ e))"
    by (rule index_byte_unique)
  then show ?thesis using assms Braced s by auto
qed

lemma find_all_parts_tokens:
  "tokens_ok ts \<Longrightarrow> find_all_parts (concat (map render ts)) = map render ts"
proof (induction ts)
  case Nil
  then show ?case by (simp add: find_all_parts.simps)
next
  case (Cons t ts)
  then have m: "match_part (render t @ concat (map render ts)) = Some (length (render t))"
    by (intro match_part_token) auto
  have "render t \<noteq> []" using Cons.prems by (cases t) auto
  then show ?case using Cons m by (subst find_all_parts.simps) simp
qed

lemma find_all_parts_whole:
  "sum_list (map length (find_all_parts s)) \<le> length s \<and>
   (sum_list (map length (find_all_parts s)) = length s \<longrightarrow> concat (find_all_parts s) = s)"
proof (induction s rule: find_all_parts.induct)
  case (1 s)
  show ?case
  proof (cases "s = []")
    case True
    then show ?thesis by (simp add: find_all_parts.simps)
  next
    case False
    show ?thesis
    proof (cases "match_part s")
      case None
      then show ?thesis using 1(1)[OF False None] False
        by (subst (1 2 3) find_all_parts.simps) (cases s, auto)
    next
      case (Some n)
      then show ?thesis using 1(2)[OF False Some] False
        by (subst (1 2 3) find_all_parts.simps) (auto simp: min_def split: if_splits)
    qed
  qed
qed

subsection \<open>What an expander writes\<close>

text \<open>A bound of a variable expression; an absent one is the default.\<close>

definition bound_value :: "int \<Rightarrow> bytes \<Rightarrow> int" where
  "bound_value dflt s = (if s = [] then dflt else the (strconv_atoi s))"

definition bound_ok :: "bytes \<Rightarrow> bool" where
  "bound_ok s \<longleftrightarrow> s = [] \<or> strconv_atoi s \<noteq> None"

definition variable_value :: "log_schema \<Rightarrow> bytes list \<Rightarrow> bytes \<Rightarrow> bytes" where
  "variable_value s fs name = (case index_byte name (fieldNames s) of None \<Rightarrow> [] | Some i \<Rightarrow> fs ! i)"

fun expand_token :: "log_schema \<Rightarrow> bytes list \<Rightarrow> token \<Rightarrow> bytes" where
  "expand_token s fs (Lit t) = t"
| "expand_token s fs (Var name) = variable_value s fs name"
| "expand_token s fs (Braced name rest) =
     (case match_variable_expression (name @ rest) of
        None \<Rightarrow> []
      | Some (n, a, b) \<Rightarrow>
          substring_spec (bound_value 0 a) (bound_value MaxInt32 b) (variable_value s fs n))"

text \<open>The variables of a token are fields of the schema, and its expression is well formed.\<close>

fun token_known :: "log_schema \<Rightarrow> token \<Rightarrow> bool" where
  "token_known s (Lit t) \<longleftrightarrow> True"
| "token_known s (Var name) \<longleftrightarrow> name \<in> set (fieldNames s)"
| "token_known s (Braced name rest) \<longleftrightarrow>
     (case match_variable_expression (name @ rest) of
        None \<Rightarrow> False
      | Some (n, a, b) \<Rightarrow> n \<in> set (fieldNames s) \<and> bound_ok a \<and> bound_ok b)"

lemma resolver_known:
  assumes "name \<in> set (fieldNames s)"
  shows "\<exists>p. create_template_variable_resolver s name = Inr p \<and>
     (\<forall>fs. length (fieldNames s) \<le> length fs \<longrightarrow> p fs = Inr (variable_value s fs name))"
proof -
  obtain i where i: "index_byte name (fieldNames s) = Some i" "i < length (fieldNames s)"
    using assms by (cases "index_byte name (fieldNames s)") (auto dest: index_byte_SomeD)
  then show ?thesis
    by (simp add: create_template_variable_resolver_def create_field_locator_def variable_value_def
        loc_get_def go_index_def)
qed

lemma solver_known:
  assumes "bound_ok a" and "bound_ok b"
  shows "create_variable_expression_solver p a b =
     Inr (\<lambda>source. go_bind (p source) (substring (bound_value 0 a) (bound_value MaxInt32 b)))"
  using assms
  by (auto simp: create_variable_expression_solver_def bound_ok_def bound_value_def must_atoi_def)

lemma provider_of_token:
  assumes "token_ok t" and "token_known s t"
  shows "\<exists>p. make_providers (create_template_variable_resolver s) (render t # parts) =
       go_bind (make_providers (create_template_variable_resolver s) parts) (\<lambda>r.
         case r of Inl e \<Rightarrow> Inr (Inl e) | Inr ps \<Rightarrow> Inr (Inr (p # ps))) \<and>
     (\<forall>fs. length (fieldNames s) \<le> length fs \<longrightarrow> p fs = Inr (expand_token s fs t))"
proof (cases t)
  case (Lit l)
  then obtain c l' where l: "l = c # l'" "c \<noteq> CHR ''$''" using assms(1) by (cases l) auto
  show ?thesis
    by (rule exI[of _ "\<lambda>source. Inr (c # l')"]) (use Lit l in \<open>simp add: go_index_def\<close>)
next
  case (Var name)
  then obtain d name' where n: "name = d # name'" "is_word d" using assms(1) by (cases name) auto
  then have "d \<noteq> CHR ''{''" by auto
  moreover obtain p where "create_template_variable_resolver s name = Inr p"
    "\<forall>fs. length (fieldNames s) \<le> length fs \<longrightarrow> p fs = Inr (variable_value s fs name)"
    using resolver_known assms(2) Var by fastforce
  ultimately show ?thesis
    by (intro exI[of _ p]) (use Var n in \<open>simp add: go_index_def\<close>)
next
  case (Braced name rest)
  then obtain n a b where m: "match_variable_expression (name @ rest) = Some (n, a, b)"
    "n \<in> set (fieldNames s)" "bound_ok a" "bound_ok b"
    using assms(2) by (auto split: option.splits)
  obtain p where p: "create_template_variable_resolver s n = Inr p"
    "\<forall>fs. length (fieldNames s) \<le> length fs \<longrightarrow> p fs = Inr (variable_value s fs n)"
    using resolver_known[OF m(2)] by blast
  have slice: "go_slice (render t) 2 (int (length (render t)) - 1) = Inr (name @ rest)"
    using Braced by (simp add: go_slice_def)
  show ?thesis
    by (rule exI[of _ "\<lambda>source. go_bind (p source) (substring (bound_value 0 a) (bound_value MaxInt32 b))"])
      (use Braced m p slice in \<open>simp add: go_index_def solver_known substring_correct\<close>)
qed

lemma make_providers_tokens:
  assumes "list_all token_ok ts" and "list_all (token_known s) ts"
  shows "\<exists>ps. make_providers (create_template_variable_resolver s) (map render ts) = Inr (Inr ps) \<and>
     (\<forall>fs. length (fieldNames s) \<le> length fs \<longrightarrow>
        list_all2 (\<lambda>p t. p fs = Inr (expand_token s fs t)) ps ts)"
  using assms
proof (induction ts)
  case Nil
  then show ?case by simp
next
  case (Cons t ts)
  obtain ps where ps: "make_providers (create_template_variable_resolver s) (map render ts) = Inr (Inr ps)"
    "\<forall>fs. length (fieldNames s) \<le> length fs \<longrightarrow>
       list_all2 (\<lambda>p t. p fs = Inr (expand_token s fs t)) ps ts"
    using Cons.IH Cons.prems by auto
  show ?case using provider_of_token[of t s "map render ts"] Cons.prems ps by auto
qed

lemma append_parts_tokens:
  "list_all2 (\<lambda>p t. p fs = Inr (expand_token s fs t)) ps ts \<Longrightarrow>
     append_parts ps fs buf = Inr (buf @ concat (map (expand_token s fs) ts))"
  by (induction ps ts arbitrary: buf rule: list_all2_induct) auto

lemma expander_tokens:
  assumes "list_all2 (\<lambda>p t. p fs = Inr (expand_token s fs t)) ps ts"
  shows "expander_run ps fs = Inr (concat (map (expand_token s fs) ts))"
  using append_parts_tokens[OF assms, of "[]"] assms
  by (auto simp: expander_run_def length_Suc_conv list_all2_Cons1)

lemma tokens_ok_all: "tokens_ok ts \<Longrightarrow> list_all token_ok ts"
  by (induction ts) auto

section \<open>Properties\<close>

text \<open>
  C32: a template written as a sequence of literals and variables is accepted when its variables
  are fields of the schema and its bounds are numbers, and running it on the fields of any
  record of the schema writes the literals, the values and the cut values in order.
\<close>

theorem template_expands:
  assumes "tokens_ok ts" and "list_all (token_known s) ts"
    and "str_index ''$$'' (concat (map render ts)) = None"
  shows "\<exists>tmpl. new_expander (concat (map render ts)) (create_template_variable_resolver s) = Inr (Inr tmpl) \<and>
     (\<forall>fs. length (fieldNames s) \<le> length fs \<longrightarrow>
        expander_run tmpl fs = Inr (concat (map (expand_token s fs) ts)))"
proof -
  obtain ps where "make_providers (create_template_variable_resolver s) (map render ts) = Inr (Inr ps)"
    "\<forall>fs. length (fieldNames s) \<le> length fs \<longrightarrow> list_all2 (\<lambda>p t. p fs = Inr (expand_token s fs t)) ps ts"
    using make_providers_tokens[OF tokens_ok_all[OF assms(1)] assms(2)] by blast
  moreover have "sum_list (map length (map render ts)) = length (concat (map render ts))"
    by (simp add: length_concat)
  ultimately show ?thesis
    using expander_tokens assms(1,3) by (auto simp: new_expander_def find_all_parts_tokens)
qed

theorem template_expands_witness:
  "\<exists>tmpl. new_expander ''x${app[-2:]}-$host'' (create_template_variable_resolver
       \<lparr>fieldNames = [''host'', ''app''], maxFields = 2\<rparr>) = Inr (Inr tmpl) \<and>
     expander_run tmpl [''h1'', ''nginx''] = Inr ''xnx-h1''"
proof -
  let ?ts = "[Lit ''x'', Braced ''app'' ''[-2:]'', Lit ''-'', Var ''host'']"
  let ?s = "\<lparr>fieldNames = [''host'', ''app''], maxFields = 2\<rparr>"
  have word: "is_word CHR ''a''" "is_word CHR ''p''" "is_word CHR ''h''" "is_word CHR ''o''"
    "is_word CHR ''s''" "is_word CHR ''t''" "\<not> is_word CHR ''[''"
    by (simp_all add: is_word_def)
  have digit: "is_digit CHR ''2''" "\<not> is_digit CHR '':''" "\<not> is_digit CHR '']''" by (simp_all add: is_digit_def)
  have m: "match_variable_expression ''app[-2:]'' = Some (''app'', ''-2'', [])"
    by (simp add: match_variable_expression_def match_int_def word digit)
  have atoi: "strconv_atoi ''-2'' = Some (-2)" by code_simp
  have 1: "tokens_ok ?ts" by (simp add: word)
  have 2: "list_all (token_known ?s) ?ts" using m atoi by (simp add: bound_ok_def)
  have 3: "str_index ''$$'' (concat (map render ?ts)) = None" by code_simp
  have "concat (map (expand_token ?s [''h1'', ''nginx'']) ?ts) = ''xnx-h1''"
    using m atoi by (simp add: bound_value_def variable_value_def substring_spec_def clip_bound_def MaxInt32_def)
  then show ?thesis using template_expands[OF 1 2 3] by auto
qed

end
