(* ===== verification/Matcher.thy ===== *)
theory Matcher
  imports Log_Record
begin

text \<open>
  Record matchers: \<open>base/bmatch/valuematch.go\<close>, \<open>logmatcherconfig.go\<close>, \<open>logmatcher.go\<close>. The
  glob and regular-expression compilers are parameters. A configuration map is the list of its
  entries in the order the map happens to be iterated; the sort by cost may be any permutation,
  since \<open>sort.Sort\<close> is not stable.
\<close>

section \<open>Value matchers\<close>

text \<open>\<^term>\<open>None\<close> is the \<open>nil\<close> function of a \<open>valueMatch\<close> that was never unmarshalled.\<close>

record value_match =
  vmatch :: "(bytes \<Rightarrow> bool) option"
  vcost :: int

type_synonym compiler = "bytes \<Rightarrow> (bytes \<Rightarrow> bool) cfg"

definition empty_value_match :: value_match where
  "empty_value_match = \<lparr>vmatch = None, vcost = 0\<rparr>"

definition create_string_any :: "bytes \<Rightarrow> value_match cfg" where
  "create_string_any expr =
     (if expr \<noteq> [] then Inl (InvalidValue ''value must be empty'')
      else Inr \<lparr>vmatch = Some (\<lambda>v. length v > 0), vcost = 0\<rparr>)"

definition create_string_test ::
  "(bytes \<Rightarrow> bytes \<Rightarrow> bool) \<Rightarrow> (nat \<Rightarrow> int) \<Rightarrow> bytes \<Rightarrow> value_match cfg" where
  "create_string_test test cost_of expr =
     (if expr = [] then Inl (InvalidValue ''value is empty'')
      else Inr \<lparr>vmatch = Some (\<lambda>v. test v expr), vcost = cost_of (length expr)\<rparr>)"

definition cheap_cost :: "nat \<Rightarrow> int" where
  "cheap_cost n = 1 + int n div 2"

definition create_string_equals :: "bytes \<Rightarrow> value_match cfg" where
  "create_string_equals = create_string_test (\<lambda>v e. v = e) cheap_cost"

definition create_string_not_equals :: "bytes \<Rightarrow> value_match cfg" where
  "create_string_not_equals = create_string_test (\<lambda>v e. v \<noteq> e) cheap_cost"

definition create_string_starts_with :: "bytes \<Rightarrow> value_match cfg" where
  "create_string_starts_with = create_string_test has_prefix cheap_cost"

definition create_string_ends_with :: "bytes \<Rightarrow> value_match cfg" where
  "create_string_ends_with = create_string_test has_suffix cheap_cost"

definition create_string_contains :: "bytes \<Rightarrow> value_match cfg" where
  "create_string_contains = create_string_test str_contains (\<lambda>n. 500 + int n)"

definition create_compiled :: "compiler \<Rightarrow> int \<Rightarrow> bytes \<Rightarrow> value_match cfg" where
  "create_compiled compile base expr =
     (case compile expr of
        Inl e \<Rightarrow> Inl e
      | Inr m \<Rightarrow> Inr \<lparr>vmatch = Some m, vcost = base + int (length expr)\<rparr>)"

definition create_length_test :: "(int \<Rightarrow> int \<Rightarrow> bool) \<Rightarrow> bytes \<Rightarrow> value_match cfg" where
  "create_length_test test expr =
     (case strconv_atoi expr of
        None \<Rightarrow> Inl (InvalidValue ''strconv.Atoi'')
      | Some target \<Rightarrow> Inr \<lparr>vmatch = Some (\<lambda>v. test (int (length v)) target), vcost = 0\<rparr>)"

text \<open>\<open>UnmarshalYAML\<close>, with the constructor table.\<close>

definition unmarshal_value_match ::
  "compiler \<Rightarrow> compiler \<Rightarrow> bytes \<Rightarrow> bytes \<Rightarrow> value_match cfg" where
  "unmarshal_value_match compile_glob compile_regex tag expr =
     (if tag = ''!!str'' then create_string_equals expr
      else if tag = ''!!str-any'' then create_string_any expr
      else if tag = ''!!str-eq'' then create_string_equals expr
      else if tag = ''!!str-not'' then create_string_not_equals expr
      else if tag = ''!!str-start'' then create_string_starts_with expr
      else if tag = ''!!str-end'' then create_string_ends_with expr
      else if tag = ''!!str-contain'' then create_string_contains expr
      else if tag = ''!!glob'' then create_compiled compile_glob 2000 expr
      else if tag = ''!!regex'' then create_compiled compile_regex 20000 expr
      else if tag = ''!!len-gt'' then create_length_test (\<lambda>n t. n > t) expr
      else if tag = ''!!len-lt'' then create_length_test (\<lambda>n t. n < t) expr
      else Inl (InvalidValue ''Unsupported value-match tag''))"

section \<open>Matchers over records\<close>

type_synonym matcher_config = "(bytes \<times> value_match) list"

record key_value_match =
  kv_locator :: locator
  kv_match :: "(bytes \<Rightarrow> bool) option"

type_synonym log_matcher = "key_value_match list"

fun locate_matches :: "log_schema \<Rightarrow> matcher_config \<Rightarrow> (locator \<times> value_match) list go" where
  "locate_matches s [] = Inr []"
| "locate_matches s ((key, m) # rest) =
     go_bind (must_create_field_locator s key) (\<lambda>loc.
     go_bind (locate_matches s rest) (\<lambda>ms. Inr ((loc, m) # ms)))"

definition new_matcher :: "log_schema \<Rightarrow> matcher_config \<Rightarrow> log_matcher go" where
  "new_matcher s cmap =
     go_bind (locate_matches s cmap) (\<lambda>ufieldMatches.
       Inr (map (\<lambda>(loc, m). \<lparr>kv_locator = loc, kv_match = vmatch m\<rparr>)
              (sort_key (\<lambda>(loc, m). vcost m) ufieldMatches)))"

fun verify_matcher :: "log_schema \<Rightarrow> matcher_config \<Rightarrow> unit cfg" where
  "verify_matcher s [] = Inr ()"
| "verify_matcher s ((key, m) # rest) =
     (case create_field_locator s key of
        Inl e \<Rightarrow> Inl e
      | Inr _ \<Rightarrow> if vmatch m = None then Inl (Unspecified ''match value'') else verify_matcher s rest)"

fun match_record :: "log_matcher \<Rightarrow> log_record \<Rightarrow> bool go" where
  "match_record [] r = Inr True"
| "match_record (fm # fms) r =
     go_bind (loc_get (kv_locator fm) (Fields r)) (\<lambda>value.
       case kv_match fm of
         None \<Rightarrow> Inl NilDereference
       | Some m \<Rightarrow> if \<not> m value then Inr False else match_record fms r)"

section \<open>What a matcher decides\<close>

definition matcher_ok :: "nat \<Rightarrow> log_matcher \<Rightarrow> bool" where
  "matcher_ok n ms \<longleftrightarrow> list_all (\<lambda>fm. loc_ok n (kv_locator fm) \<and> kv_match fm \<noteq> None) ms"

definition holds_on :: "log_record \<Rightarrow> key_value_match \<Rightarrow> bool" where
  "holds_on r fm = the (kv_match fm) (Fields r ! nat (kv_locator fm))"

lemma match_record_ok:
  "matcher_ok (length (Fields r)) ms \<Longrightarrow> match_record ms r = Inr (list_all (holds_on r) ms)"
  by (induction ms) (auto simp: matcher_ok_def loc_get_ok holds_on_def)

lemma match_record_mset:
  assumes "matcher_ok (length (Fields r)) ms" and "mset ms' = mset ms"
  shows "match_record ms' r = match_record ms r"
proof -
  have "set ms' = set ms" using assms(2) by (metis set_mset_mset)
  then have "matcher_ok (length (Fields r)) ms'" "list_all (holds_on r) ms' = list_all (holds_on r) ms"
    using assms(1) by (auto simp: matcher_ok_def list_all_iff)
  then show ?thesis using assms(1) by (simp add: match_record_ok)
qed

lemma locate_matches_ok:
  assumes "verify_matcher s cmap = Inr ()" and "distinct (fieldNames s)"
  shows "\<exists>ms. locate_matches s cmap = Inr ms \<and>
     map (\<lambda>(loc, m). (loc_name loc s, m)) ms = map (\<lambda>(k, m). (Inr k, m)) cmap \<and>
     list_all (\<lambda>(loc, m). loc_ok (length (fieldNames s)) loc \<and> vmatch m \<noteq> None) ms"
  using assms
proof (induction cmap)
  case Nil
  then show ?case by simp
next
  case (Cons e cmap)
  obtain key m where e: "e = (key, m)" by (cases e)
  obtain loc where loc: "create_field_locator s key = Inr loc"
    using Cons.prems(1) e by (auto split: sum.splits)
  have m: "vmatch m \<noteq> None" "verify_matcher s cmap = Inr ()"
    using Cons.prems(1) e loc by (auto split: if_splits)
  obtain ms where "locate_matches s cmap = Inr ms"
    "map (\<lambda>(loc, m). (loc_name loc s, m)) ms = map (\<lambda>(k, m). (Inr k, m)) cmap"
    "list_all (\<lambda>(loc, m). loc_ok (length (fieldNames s)) loc \<and> vmatch m \<noteq> None) ms"
    using Cons.IH[OF m(2) Cons.prems(2)] by blast
  then show ?case
    using e loc m create_field_locator_ok[OF loc] by (simp add: must_create_field_locator_def)
qed

definition field_value :: "log_schema \<Rightarrow> log_record \<Rightarrow> bytes \<Rightarrow> bytes" where
  "field_value s r name = (case index_byte name (fieldNames s) of None \<Rightarrow> [] | Some i \<Rightarrow> Fields r ! i)"

lemma loc_name_value:
  assumes "loc_name loc s = Inr name" and "distinct (fieldNames s)"
  shows "field_value s r name = Fields r ! nat loc"
proof -
  have "0 \<le> loc" "nat loc < length (fieldNames s)" "fieldNames s ! nat loc = name"
    using assms(1) by (auto simp: loc_name_def go_index_def split: if_splits)
  then show ?thesis
    using create_field_locator_nth[OF assms(2), of "nat loc"]
    by (auto simp: field_value_def create_field_locator_def split: option.splits)
qed

lemma new_matcher_ok:
  assumes "verify_matcher s cmap = Inr ()" and "distinct (fieldNames s)"
    and "length (fieldNames s) \<le> length (Fields r)"
  shows "\<exists>ms. new_matcher s cmap = Inr ms \<and> matcher_ok (length (fieldNames s)) ms \<and>
     match_record ms r = Inr (\<forall>(k, m) \<in> set cmap. the (vmatch m) (field_value s r k))"
proof -
  obtain us where us: "locate_matches s cmap = Inr us"
    "map (\<lambda>(loc, m). (loc_name loc s, m)) us = map (\<lambda>(k, m). (Inr k, m)) cmap"
    "list_all (\<lambda>(loc, m). loc_ok (length (fieldNames s)) loc \<and> vmatch m \<noteq> None) us"
    using locate_matches_ok[OF assms(1,2)] by blast
  let ?mk = "\<lambda>(loc, m). \<lparr>kv_locator = loc, kv_match = vmatch m\<rparr>"
  let ?ms = "map ?mk (sort_key (\<lambda>(loc, m). vcost m) us)"
  have ok: "matcher_ok (length (fieldNames s)) ?ms" "matcher_ok (length (Fields r)) (map ?mk us)"
    using us(3) assms(3) by (auto simp: matcher_ok_def list_all_iff loc_ok_def)
  have "match_record ?ms r = match_record (map ?mk us) r"
    by (rule match_record_mset[OF ok(2)]) simp
  also have "\<dots> = Inr (list_all (holds_on r) (map ?mk us))" by (rule match_record_ok[OF ok(2)])
  also have "list_all (holds_on r) (map ?mk us) \<longleftrightarrow> (\<forall>(k, m) \<in> set cmap. the (vmatch m) (field_value s r k))"
    using us(2)
  proof (induction us arbitrary: cmap)
    case Nil
    then show ?case by simp
  next
    case (Cons u us)
    obtain loc m where u: "u = (loc, m)" by (cases u)
    then obtain k cmap' where c: "cmap = (k, m) # cmap'" "loc_name loc s = Inr k"
      using Cons.prems by (auto simp: Cons_eq_map_conv split: prod.splits)
    then show ?case
      using Cons u loc_name_value[OF c(2) assms(2), of r] by (auto simp: holds_on_def)
  qed
  finally show ?thesis using us(1) ok(1) by (simp add: new_matcher_def)
qed

section \<open>Properties\<close>

text \<open>
  C36: a verified matcher configuration compiles, and the matcher accepts a record exactly when
  every configured condition holds for the field it names; the order in which the conditions
  were listed, or sorted by cost, does not matter.
\<close>

theorem matcher_decides_all:
  assumes "verify_matcher s cmap = Inr ()" and "schema_ok s"
    and "length (fieldNames s) \<le> length (Fields r)"
  shows "\<exists>ms. new_matcher s cmap = Inr ms \<and>
     (\<forall>ms'. mset ms' = mset ms \<longrightarrow>
        match_record ms' r = Inr (\<forall>(k, m) \<in> set cmap. the (vmatch m) (field_value s r k)))"
proof -
  have "distinct (fieldNames s)" using assms(2) by (simp add: schema_ok_def)
  from new_matcher_ok[OF assms(1) this assms(3)]
  obtain ms where ms: "new_matcher s cmap = Inr ms" "matcher_ok (length (fieldNames s)) ms"
    "match_record ms r = Inr (\<forall>(k, m) \<in> set cmap. the (vmatch m) (field_value s r k))" by blast
  have "matcher_ok (length (Fields r)) ms"
    using ms(2) assms(3) by (auto simp: matcher_ok_def list_all_iff loc_ok_def)
  from match_record_mset[OF this] show ?thesis using ms by auto
qed

theorem matcher_decides_all_witness:
  "\<exists>m ms. unmarshal_value_match (\<lambda>_. Inl (InvalidValue [])) (\<lambda>_. Inl (InvalidValue [])) ''!!str-start'' ''ng'' = Inr m \<and>
     new_matcher \<lparr>fieldNames = [''host'', ''app''], maxFields = 2\<rparr> [(''app'', m)] = Inr ms \<and>
     match_record ms (\<lparr>Fields = [''h'', ''nginx''], RawLength = 5, Timestamp = 0, Unescaped = False,
       backbuf = None, refCount = 1\<rparr>) = Inr True"
proof -
  let ?s = "\<lparr>fieldNames = [''host'', ''app''], maxFields = 2\<rparr>"
  let ?r = "\<lparr>Fields = [''h'', ''nginx''], RawLength = 5, Timestamp = 0, Unescaped = False,
       backbuf = None, refCount = 1\<rparr>"
  let ?m = "\<lparr>vmatch = Some (\<lambda>v. has_prefix v ''ng''), vcost = cheap_cost (length ''ng'')\<rparr>"
  have u: "unmarshal_value_match (\<lambda>_. Inl (InvalidValue [])) (\<lambda>_. Inl (InvalidValue [])) ''!!str-start'' ''ng'' = Inr ?m"
    by (simp add: unmarshal_value_match_def create_string_starts_with_def create_string_test_def)
  have v: "verify_matcher ?s [(''app'', ?m)] = Inr ()" by (simp add: create_field_locator_def)
  have s: "schema_ok ?s" by (simp add: schema_ok_def)
  have h: "has_prefix ''nginx'' ''ng''" by code_simp
  have f: "field_value ?s ?r ''app'' = ''nginx''" by (simp add: field_value_def)
  obtain ms where "new_matcher ?s [(''app'', ?m)] = Inr ms" "match_record ms ?r = Inr True"
    using matcher_decides_all[OF v s, of ?r] h f by fastforce
  then show ?thesis using u by blast
qed

end
