(* ===== verification/Allocator.thy ===== *)
theory Allocator
  imports Log_Record
begin

text \<open>
  Record and buffer recycling: \<open>base/logallocator.go\<close> over \<open>util/bytespoolby2n.go\<close>. A
  \<open>sync.Pool\<close> is the list of the items put into it; \<open>Get\<close> may return any of them or make
  a new one, so every use takes the choice as an argument (\<^term>\<open>None\<close>, or an index past the
  end, makes a new item). A backing buffer is its content.
\<close>

section \<open>Pools\<close>

definition pool_get :: "nat option \<Rightarrow> 'a \<Rightarrow> 'a list \<Rightarrow> 'a \<times> 'a list" where
  "pool_get choice fresh pool =
     (case choice of
        None \<Rightarrow> (fresh, pool)
      | Some i \<Rightarrow>
          if i < length pool then (pool ! i, take i pool @ drop (Suc i) pool) else (fresh, pool))"

definition pool_put :: "'a \<Rightarrow> 'a list \<Rightarrow> 'a list" where
  "pool_put x pool = x # pool"

lemma pool_get_all:
  assumes "list_all P pool" and "P fresh" and "pool_get c fresh pool = (x, pool')"
  shows "P x \<and> list_all P pool'"
  using assms
  unfolding pool_get_def list_all_iff
  by (auto split: option.splits if_splits) (metis in_set_takeD, metis in_set_dropD)

section \<open>Buffers by powers of two\<close>

text \<open>\<open>32 - bits.LeadingZeros32(w)\<close> is the number of significant bits of \<open>w\<close>.\<close>

definition leading_zeros32 :: "32 word \<Rightarrow> nat" where
  "leading_zeros32 w = 32 - bit_len (unat w)"

lemma bit_len_unat: "bit_len (unat (w :: 32 word)) \<le> 32"
  using bit_len_le[of "unat w" 32] unsigned_less[of w] by simp

type_synonym byte_pools = "bytes list list"

definition new_bytes_pool_by2n :: byte_pools where
  "new_bytes_pool_by2n = replicate 32 []"

text \<open>\<open>make([]byte, size)\<close> is all zero bytes.\<close>

definition zero_bytes :: "nat \<Rightarrow> bytes" where
  "zero_bytes n = replicate n (CHR 0x00)"

definition bytes_pool_get :: "nat option \<Rightarrow> byte_pools \<Rightarrow> nat \<Rightarrow> (bytes \<times> byte_pools) go" where
  "bytes_pool_get choice pools len =
     (let capacity = 32 - leading_zeros32 (word_of_nat len) in
      go_bind (go_index pools (int capacity)) (\<lambda>pool.
        let (buf, pool') = pool_get choice (zero_bytes (2 ^ capacity)) pool in
        Inr (buf, pools[capacity := pool'])))"

definition bytes_pool_put :: "byte_pools \<Rightarrow> bytes \<Rightarrow> byte_pools go" where
  "bytes_pool_put pools buf =
     (let capacity = 32 - int (leading_zeros32 (word_of_nat (length buf))) - 1 in
      go_bind (go_index pools capacity) (\<lambda>pool.
        Inr (pools[nat capacity := pool_put buf pool])))"

definition pools_ok :: "byte_pools \<Rightarrow> bool" where
  "pools_ok pools \<longleftrightarrow>
     length pools = 32 \<and> (\<forall>i < 32. list_all (\<lambda>b. length b = 2 ^ i) (pools ! i))"

lemma pools_ok_new: "pools_ok new_bytes_pool_by2n"
  by (simp add: pools_ok_def new_bytes_pool_by2n_def)

lemma capacity_eq:
  assumes "len < 2 ^ 31"
  shows "32 - leading_zeros32 (word_of_nat len) = bit_len len" and "bit_len len < 32"
proof -
  have "unat (word_of_nat len :: 32 word) = len"
    using assms by (simp add: unat_of_nat take_bit_nat_eq_self)
  moreover show "bit_len len < 32" using bit_len_le[OF assms] by simp
  ultimately show "32 - leading_zeros32 (word_of_nat len) = bit_len len"
    by (simp add: leading_zeros32_def)
qed

text \<open>\<open>Get\<close> serves the smallest power of two above the length; \<open>Put\<close> files the buffer where
  \<open>Get\<close> took it from.\<close>

lemma bytes_pool_get_ok:
  assumes "pools_ok pools" and "len < 2 ^ 31"
  shows "\<exists>buf pools'. bytes_pool_get c pools len = Inr (buf, pools') \<and> pools_ok pools' \<and>
     length buf = 2 ^ bit_len len"
proof -
  let ?n = "bit_len len"
  obtain buf pool' where get: "pool_get c (zero_bytes (2 ^ ?n)) (pools ! ?n) = (buf, pool')"
    by (cases "pool_get c (zero_bytes (2 ^ ?n)) (pools ! ?n)")
  have n: "?n < 32" "?n < length pools" using assms capacity_eq(2) by (auto simp: pools_ok_def)
  have "length buf = 2 ^ ?n \<and> list_all (\<lambda>b. length b = 2 ^ ?n) pool'"
    by (rule pool_get_all[OF _ _ get]) (use assms n in \<open>auto simp: pools_ok_def zero_bytes_def\<close>)
  moreover have "bytes_pool_get c pools len = Inr (buf, pools[?n := pool'])"
    using n get assms by (simp add: bytes_pool_get_def capacity_eq(1))
  ultimately show ?thesis using assms(1) n
    by (auto simp: pools_ok_def nth_list_update)
qed

lemma bytes_pool_put_ok:
  assumes "pools_ok pools" and "length buf = 2 ^ k" and "k < 32"
  shows "\<exists>pools'. bytes_pool_put pools buf = Inr pools' \<and> pools_ok pools' \<and>
     pools' = pools[k := buf # pools ! k]"
proof -
  have "unat (word_of_nat (length buf) :: 32 word) = 2 ^ k"
    unfolding unsigned_of_nat using assms(2,3) by (simp add: take_bit_nat_eq_self)
  then have "32 - int (leading_zeros32 (word_of_nat (length buf))) - 1 = int k"
    using assms(3) by (simp add: leading_zeros32_def)
  then show ?thesis using assms
    by (auto simp: bytes_pool_put_def pools_ok_def pool_put_def nth_list_update)
qed

section \<open>Allocating and releasing records\<close>

definition InputLogMinRecordBytesToPool :: nat where
  "InputLogMinRecordBytesToPool = 1024"

record log_allocator =
  recordPool :: "log_record list"
  backbufPools :: byte_pools
  initialRefCount :: int
  allocFields :: nat

definition new_empty_record :: "nat \<Rightarrow> log_record" where
  "new_empty_record n =
     \<lparr>Fields = replicate n [], RawLength = 0, Timestamp = zero_time, Unescaped = False,
      backbuf = None, refCount = 0\<rparr>"

definition new_log_allocator :: "log_schema \<Rightarrow> nat \<Rightarrow> log_allocator" where
  "new_log_allocator s outputCount =
     \<lparr>recordPool = [], backbufPools = new_bytes_pool_by2n, initialRefCount = int outputCount,
      allocFields = maxFields s\<rparr>"

text \<open>\<open>NewRecord\<close>: the record, the string its fields will be cut from, the allocator after.\<close>

definition new_record ::
  "nat option \<Rightarrow> nat option \<Rightarrow> log_allocator \<Rightarrow> bytes \<Rightarrow>
     (log_record \<times> bytes \<times> log_allocator) go" where
  "new_record c1 c2 alloc input =
     (let (r, pool') = pool_get c1 (new_empty_record (allocFields alloc)) (recordPool alloc);
          r' = r\<lparr>refCount := refCount r + initialRefCount alloc\<rparr>;
          alloc' = alloc\<lparr>recordPool := pool'\<rparr> in
      if length input > InputLogMinRecordBytesToPool
      then go_bind (bytes_pool_get c2 (backbufPools alloc) (length input)) (\<lambda>(buf, pools').
           go_bind (go_copy buf 0 input) (\<lambda>(buf', n).
             Inr (r'\<lparr>backbuf := Some buf'\<rparr>, take n buf', alloc'\<lparr>backbufPools := pools'\<rparr>)))
      else Inr (r', input, alloc'))"

definition recycle_record :: "log_allocator \<Rightarrow> log_record \<Rightarrow> (log_record \<times> log_allocator) go" where
  "recycle_record alloc r =
     (case backbuf r of
        None \<Rightarrow> Inr (r, alloc\<lparr>recordPool := pool_put r (recordPool alloc)\<rparr>)
      | Some buf \<Rightarrow>
          go_bind (bytes_pool_put (backbufPools alloc) buf) (\<lambda>pools'.
            let r' = r\<lparr>backbuf := None\<rparr> in
            Inr (r', alloc\<lparr>recordPool := pool_put r' (recordPool alloc), backbufPools := pools'\<rparr>)))"

definition release :: "log_allocator \<Rightarrow> log_record \<Rightarrow> (log_record \<times> log_allocator) go" where
  "release alloc r =
     (let r1 = r\<lparr>refCount := refCount r - 1\<rparr> in
      if refCount r1 < 0 then Inl (LoggerPanic ''negative reference count in record'')
      else if refCount r1 > 0 then Inr (r1, alloc)
      else recycle_record alloc
             (r1\<lparr>Fields := map (\<lambda>_. []) (Fields r1), RawLength := 0, Timestamp := zero_time\<rparr>))"

fun release_times :: "nat \<Rightarrow> log_allocator \<Rightarrow> log_record \<Rightarrow> (log_record \<times> log_allocator) go" where
  "release_times 0 alloc r = Inr (r, alloc)"
| "release_times (Suc n) alloc r =
     go_bind (release alloc r) (\<lambda>(r', alloc'). release_times n alloc' r')"

text \<open>A record in the pool: everything a record starts with, except the \<open>Unescaped\<close> mark.\<close>

definition blank :: "nat \<Rightarrow> log_record \<Rightarrow> bool" where
  "blank n r \<longleftrightarrow> r\<lparr>Unescaped := False\<rparr> = new_empty_record n"

lemma blank_new [simp]: "blank n (new_empty_record n)"
  by (simp add: blank_def new_empty_record_def)

lemma blank_iff:
  "blank n r \<longleftrightarrow> Fields r = replicate n [] \<and> RawLength r = 0 \<and> Timestamp r = zero_time \<and>
     backbuf r = None \<and> refCount r = 0"
  by (cases r) (auto simp: blank_def new_empty_record_def)

definition allocator_ok :: "log_allocator \<Rightarrow> bool" where
  "allocator_ok alloc \<longleftrightarrow>
     pools_ok (backbufPools alloc) \<and> list_all (blank (allocFields alloc)) (recordPool alloc)"

text \<open>A record in use: its buffer, if any, is one of the pools'.\<close>

definition in_use :: "log_allocator \<Rightarrow> log_record \<Rightarrow> bool" where
  "in_use alloc r \<longleftrightarrow>
     length (Fields r) = allocFields alloc \<and>
     (case backbuf r of None \<Rightarrow> True | Some b \<Rightarrow> (\<exists>k < 32. length b = 2 ^ k))"

lemma allocator_ok_new: "allocator_ok (new_log_allocator s n)"
  by (simp add: allocator_ok_def new_log_allocator_def pools_ok_new)

lemma new_record_correct:
  assumes "allocator_ok alloc" and "length input < 2 ^ 31"
  shows "\<exists>r alloc'. new_record c1 c2 alloc input = Inr (r, input, alloc') \<and>
     allocator_ok alloc' \<and> in_use alloc' r \<and> Fields r = replicate (allocFields alloc) [] \<and>
     RawLength r = 0 \<and> Timestamp r = zero_time \<and> refCount r = initialRefCount alloc \<and>
     initialRefCount alloc' = initialRefCount alloc \<and> allocFields alloc' = allocFields alloc"
proof -
  obtain r pool' where get:
    "pool_get c1 (new_empty_record (allocFields alloc)) (recordPool alloc) = (r, pool')"
    by (cases "pool_get c1 (new_empty_record (allocFields alloc)) (recordPool alloc)")
  have b: "blank (allocFields alloc) r \<and> list_all (blank (allocFields alloc)) pool'"
    by (rule pool_get_all[OF _ _ get])
      (use assms in \<open>auto simp: allocator_ok_def\<close>)
  obtain buf pools' where buf: "bytes_pool_get c2 (backbufPools alloc) (length input) = Inr (buf, pools')"
    "pools_ok pools'" "length buf = 2 ^ bit_len (length input)"
    using bytes_pool_get_ok[of "backbufPools alloc" "length input" c2] assms
    by (auto simp: allocator_ok_def)
  have k: "bit_len (length input) < 32" using capacity_eq(2)[OF assms(2)] .
  have fits: "length input \<le> length buf"
    using bit_len_less[of "length input"] buf(3) by simp
  then have copy: "go_copy buf 0 input = Inr (patch buf 0 input, length input)"
    by (intro go_copy_fits) simp
  have pre: "take (length input) (patch buf 0 input) = input" by (simp add: patch_def)
  have len: "length (patch buf 0 input) = 2 ^ bit_len (length input)"
    using fits buf(3) by simp
  show ?thesis
    using assms b buf(1,2) copy pre len k
    by (auto simp: Let_def new_record_def get allocator_ok_def in_use_def blank_iff)
qed

lemma release_keeps:
  assumes "allocator_ok alloc" and "in_use alloc r" and "refCount r > 1"
  shows "release alloc r = Inr (r\<lparr>refCount := refCount r - 1\<rparr>, alloc)"
  using assms by (simp add: release_def)

lemma release_last:
  assumes "allocator_ok alloc" and "in_use alloc r" and "refCount r = 1"
  shows "\<exists>r' alloc'. release alloc r = Inr (r', alloc') \<and> allocator_ok alloc' \<and>
     blank (allocFields alloc) r' \<and> recordPool alloc' = r' # recordPool alloc \<and>
     initialRefCount alloc' = initialRefCount alloc \<and> allocFields alloc' = allocFields alloc"
proof (cases "backbuf r")
  case None
  then show ?thesis using assms
    by (simp add: Let_def release_def recycle_record_def pool_put_def allocator_ok_def in_use_def blank_iff
        map_replicate_const)
next
  case (Some buf)
  then obtain k where k: "k < 32" "length buf = 2 ^ k" using assms by (auto simp: in_use_def)
  obtain pools' where "bytes_pool_put (backbufPools alloc) buf = Inr pools'" "pools_ok pools'"
    using bytes_pool_put_ok[of "backbufPools alloc" buf k] assms k by (auto simp: allocator_ok_def)
  then show ?thesis using assms Some
    by (simp add: Let_def release_def recycle_record_def pool_put_def allocator_ok_def in_use_def blank_iff
        map_replicate_const)
qed

lemma release_under:
  "refCount r \<le> 0 \<Longrightarrow> release alloc r = Inl (LoggerPanic ''negative reference count in record'')"
  by (simp add: release_def)

lemma release_times_all:
  assumes "allocator_ok alloc" and "in_use alloc r" and "refCount r = int (Suc n)"
  shows "\<exists>r' alloc'. release_times (Suc n) alloc r = Inr (r', alloc') \<and> allocator_ok alloc' \<and>
     blank (allocFields alloc) r' \<and> recordPool alloc' = r' # recordPool alloc"
  using assms
proof (induction n arbitrary: r)
  case 0
  then show ?case using release_last[of alloc r] by auto
next
  case (Suc n)
  have "in_use alloc (r\<lparr>refCount := refCount r - 1\<rparr>)"
    using Suc.prems(2) by (simp add: in_use_def)
  moreover have "refCount (r\<lparr>refCount := refCount r - 1\<rparr>) = int (Suc n)"
    using Suc.prems(3) by simp
  ultimately have "\<exists>r' alloc'. release_times (Suc n) alloc (r\<lparr>refCount := refCount r - 1\<rparr>) = Inr (r', alloc') \<and>
     allocator_ok alloc' \<and> blank (allocFields alloc) r' \<and> recordPool alloc' = r' # recordPool alloc"
    by (rule Suc.IH[OF Suc.prems(1)])
  moreover have "release alloc r = Inr (r\<lparr>refCount := refCount r - 1\<rparr>, alloc)"
    using Suc.prems by (intro release_keeps) auto
  ultimately show ?case by simp
qed

section \<open>Properties\<close>



end
