(* ===== verification/Counters.thy ===== *)
theory Counters
  imports Log_Record
begin

text \<open>
  Metric counters: \<open>base/logcustomcounterhost.go\<close>, \<open>base/loginputcounterset.go\<close> and
  \<open>base/logprocesscounterset.go\<close>. Counters are \<open>uint64\<close>. \<open>UpdateMetrics\<close> hands the
  accumulated values to Prometheus counters (\<open>Add\<close>), which are not part of the program: it
  returns what it adds. A Go closure over a counter is a handle: the label (counter host) or
  the index of the counter vector (process counters). A Go map filled by inserting absent keys
  is an association list.
\<close>

section \<open>Value counters\<close>

record value_counter =
  unwrittenValue :: "64 word"

definition new_value_counter :: value_counter where
  "new_value_counter = \<lparr>unwrittenValue = 0\<rparr>"

definition add_value :: "value_counter \<Rightarrow> nat \<Rightarrow> value_counter" where
  "add_value v n = v\<lparr>unwrittenValue := unwrittenValue v + word_of_nat n\<rparr>"

definition update_metric :: "value_counter \<Rightarrow> value_counter \<times> 64 word" where
  "update_metric v = (v\<lparr>unwrittenValue := 0\<rparr>, unwrittenValue v)"

section \<open>Custom counters by label\<close>

record custom_counter =
  unwrittenCount :: "64 word"
  unwrittenLength :: "64 word"

definition new_custom_counter :: custom_counter where
  "new_custom_counter = \<lparr>unwrittenCount = 0, unwrittenLength = 0\<rparr>"

definition count_record :: "custom_counter \<Rightarrow> nat \<Rightarrow> custom_counter" where
  "count_record c len =
     c\<lparr>unwrittenCount := unwrittenCount c + 1,
       unwrittenLength := unwrittenLength c + word_of_nat len\<rparr>"

definition update_custom :: "custom_counter \<Rightarrow> custom_counter \<times> 64 word \<times> 64 word" where
  "update_custom c =
     (c\<lparr>unwrittenCount := 0, unwrittenLength := 0\<rparr>, unwrittenCount c, unwrittenLength c)"

type_synonym counter_host = "bytes \<Rightarrow> custom_counter option"

definition new_counter_host :: counter_host where
  "new_counter_host = Map.empty"

definition register_custom_counter :: "counter_host \<Rightarrow> bytes \<Rightarrow> bytes \<times> counter_host" where
  "register_custom_counter host label =
     (case host label of
        Some _ \<Rightarrow> (label, host)
      | None \<Rightarrow> (label, host(label \<mapsto> new_custom_counter)))"

definition count_host :: "counter_host \<Rightarrow> bytes \<Rightarrow> nat \<Rightarrow> counter_host go" where
  "count_host host label len =
     (case host label of
        None \<Rightarrow> Inl NilDereference
      | Some c \<Rightarrow> Inr (host(label \<mapsto> count_record c len)))"

definition update_counter_host ::
  "counter_host \<Rightarrow> counter_host \<times> (bytes \<Rightarrow> (64 word \<times> 64 word) option)" where
  "update_counter_host host =
     (\<lambda>l. map_option (\<lambda>c. fst (update_custom c)) (host l),
      \<lambda>l. map_option (\<lambda>c. snd (update_custom c)) (host l))"

section \<open>Input counters\<close>

record input_counters =
  customHost :: counter_host
  passedCount :: value_counter
  passedLength :: value_counter
  droppedCount :: value_counter
  droppedLength :: value_counter

definition new_input_counters :: input_counters where
  "new_input_counters =
     \<lparr>customHost = new_counter_host, passedCount = new_value_counter,
      passedLength = new_value_counter, droppedCount = new_value_counter,
      droppedLength = new_value_counter\<rparr>"

definition count_record_pass :: "input_counters \<Rightarrow> log_record \<Rightarrow> input_counters" where
  "count_record_pass c r =
     c\<lparr>passedCount := add_value (passedCount c) 1,
       passedLength := add_value (passedLength c) (RawLength r)\<rparr>"

definition count_record_drop :: "input_counters \<Rightarrow> log_record \<Rightarrow> input_counters" where
  "count_record_drop c r =
     c\<lparr>droppedCount := add_value (droppedCount c) 1,
       droppedLength := add_value (droppedLength c) (RawLength r)\<rparr>"

record input_written =
  passedCountAdd :: "64 word"
  passedLengthAdd :: "64 word"
  droppedCountAdd :: "64 word"
  droppedLengthAdd :: "64 word"

definition update_input_counters ::
  "input_counters \<Rightarrow> input_counters \<times> input_written \<times> (bytes \<Rightarrow> (64 word \<times> 64 word) option)" where
  "update_input_counters c =
     (let (host, customs) = update_counter_host (customHost c);
          (pc, pca) = update_metric (passedCount c);
          (pl, pla) = update_metric (passedLength c);
          (dc, dca) = update_metric (droppedCount c);
          (dl, dla) = update_metric (droppedLength c) in
      (\<lparr>customHost = host, passedCount = pc, passedLength = pl, droppedCount = dc,
        droppedLength = dl\<rparr>,
       \<lparr>passedCountAdd = pca, passedLengthAdd = pla, droppedCountAdd = dca,
        droppedLengthAdd = dla\<rparr>,
       customs))"

section \<open>Process counters by metric key set\<close>

record key_pair =
  pairLabels :: "bytes list"
  inputCounter :: input_counters
  customCounters :: "custom_counter option list"

record process_counters =
  keyExtractor :: "locator list"
  metricKeyNames :: "bytes list"
  customVecs :: "(bytes \<times> nat) list"
  keySetPairs :: "(bytes \<times> key_pair) list"
  serializedLengths :: "value_counter list"
  chunksCounts :: "value_counter list"
  chunksLengths :: "value_counter list"
  currentCounters :: "bytes option"

fun loc_names :: "log_schema \<Rightarrow> locator list \<Rightarrow> bytes list go" where
  "loc_names s [] = Inr []"
| "loc_names s (loc # locs) =
     go_bind (loc_name loc s) (\<lambda>n. go_bind (loc_names s locs) (\<lambda>ns. Inr ((''key_'' @ n) # ns)))"

definition new_process_counters ::
  "log_schema \<Rightarrow> locator list \<Rightarrow> bytes list \<Rightarrow> process_counters go" where
  "new_process_counters s locs outputNames =
     go_bind (loc_names s locs) (\<lambda>names.
       Inr \<lparr>keyExtractor = locs, metricKeyNames = names, customVecs = [], keySetPairs = [],
            serializedLengths = map (\<lambda>_. new_value_counter) outputNames,
            chunksCounts = map (\<lambda>_. new_value_counter) outputNames,
            chunksLengths = map (\<lambda>_. new_value_counter) outputNames, currentCounters = None\<rparr>)"

definition register_process_counter :: "process_counters \<Rightarrow> bytes \<Rightarrow> nat \<times> process_counters" where
  "register_process_counter p label =
     (case map_of (customVecs p) label of
        Some i \<Rightarrow> (i, p)
      | None \<Rightarrow>
          let i = length (customVecs p) in
          (i, p\<lparr>customVecs := customVecs p @ [(label, i)]\<rparr>))"

text \<open>The closure: the counter at the registered index of the selected key set.\<close>

definition set_pair :: "bytes \<Rightarrow> key_pair \<Rightarrow> (bytes \<times> key_pair) list \<Rightarrow> (bytes \<times> key_pair) list" where
  "set_pair key pair ps = map (\<lambda>(k, q). (k, if k = key then pair else q)) ps"

definition count_process :: "process_counters \<Rightarrow> nat \<Rightarrow> nat \<Rightarrow> process_counters go" where
  "count_process p i len =
     (case currentCounters p of
        None \<Rightarrow> Inl IndexOutOfRange
      | Some key \<Rightarrow>
          (case map_of (keySetPairs p) key of
             None \<Rightarrow> Inl NilDereference
           | Some pair \<Rightarrow>
               go_bind (go_index (customCounters pair) (int i)) (\<lambda>c.
                 case c of
                   None \<Rightarrow> Inl NilDereference
                 | Some c \<Rightarrow>
                     Inr (p\<lparr>keySetPairs := set_pair key
                            (pair\<lparr>customCounters := (customCounters pair)[i := Some (count_record c len)]\<rparr>)
                            (keySetPairs p)\<rparr>))))"

fun fill_custom :: "(bytes \<times> nat) list \<Rightarrow> custom_counter option list \<Rightarrow> custom_counter option list go" where
  "fill_custom [] cs = Inr cs"
| "fill_custom ((l, i) # vecs) cs =
     go_bind (go_set cs i (Some new_custom_counter)) (fill_custom vecs)"

definition select_metric_key_set ::
  "process_counters \<Rightarrow> log_record \<Rightarrow> (bytes \<times> process_counters) go" where
  "select_metric_key_set p r =
     go_bind (extract_field_set (keyExtractor p) r) (\<lambda>keys.
       let merged = concat keys in
       case map_of (keySetPairs p) merged of
         Some _ \<Rightarrow> Inr (merged, p\<lparr>currentCounters := Some merged\<rparr>)
       | None \<Rightarrow>
           go_bind (fill_custom (customVecs p) (replicate (length (customVecs p)) None)) (\<lambda>cs.
             Inr (merged,
                  p\<lparr>keySetPairs := keySetPairs p @
                      [(merged, \<lparr>pairLabels = keys, inputCounter = new_input_counters,
                                 customCounters = cs\<rparr>)],
                    currentCounters := Some merged\<rparr>)))"

definition count_stream :: "process_counters \<Rightarrow> nat \<Rightarrow> bytes \<Rightarrow> process_counters go" where
  "count_stream p out stream =
     go_bind (go_index (serializedLengths p) (int out)) (\<lambda>v.
       Inr (p\<lparr>serializedLengths := (serializedLengths p)[out := add_value v (length stream)]\<rparr>))"

definition count_chunk :: "process_counters \<Rightarrow> nat \<Rightarrow> log_chunk \<Rightarrow> process_counters go" where
  "count_chunk p out chunk =
     go_bind (go_index (chunksCounts p) (int out)) (\<lambda>c.
     go_bind (go_index (chunksLengths p) (int out)) (\<lambda>l.
       Inr (p\<lparr>chunksCounts := (chunksCounts p)[out := add_value c 1],
              chunksLengths := (chunksLengths p)[out := add_value l (data_len chunk)]\<rparr>)))"

definition update_pair :: "key_pair \<Rightarrow> key_pair" where
  "update_pair q =
     q\<lparr>inputCounter := fst (update_input_counters (inputCounter q)),
       customCounters := map (map_option (\<lambda>c. fst (update_custom c))) (customCounters q)\<rparr>"

definition update_process_counters :: "process_counters \<Rightarrow> process_counters" where
  "update_process_counters p =
     p\<lparr>keySetPairs := map (\<lambda>(k, q). (k, update_pair q)) (keySetPairs p),
       serializedLengths := map (fst \<circ> update_metric) (serializedLengths p),
       chunksCounts := map (fst \<circ> update_metric) (chunksCounts p),
       chunksLengths := map (fst \<circ> update_metric) (chunksLengths p)\<rparr>"

section \<open>What a registry promises its clients\<close>

text \<open>
  \<open>ready s h l\<close>: the handle \<open>h\<close> was obtained for the label \<open>l\<close> and may be used now.
  \<open>total s l\<close> is what has been counted for \<open>l\<close> since the last update.
\<close>

locale counter_registry =
  fixes bump :: "'s \<Rightarrow> 'h \<Rightarrow> nat \<Rightarrow> 's go"
    and ready :: "'s \<Rightarrow> 'h \<Rightarrow> bytes \<Rightarrow> bool"
    and total :: "'s \<Rightarrow> bytes \<Rightarrow> (64 word \<times> 64 word) option"
  assumes ready_total: "ready s h l \<Longrightarrow> total s l \<noteq> None"
    and bump_ready: "ready s h l \<Longrightarrow> \<exists>s'. bump s h n = Inr s'"
    and bump_keeps: "ready s h l \<Longrightarrow> bump s h n = Inr s' \<Longrightarrow> ready s h' l' \<Longrightarrow> ready s' h' l'"
    and bump_total: "ready s h l \<Longrightarrow> bump s h n = Inr s' \<Longrightarrow>
      total s' = (\<lambda>l'. map_option (\<lambda>(c, t). if l' = l then (c + 1, t + word_of_nat n) else (c, t)) (total s l'))"
begin

fun bump_all :: "'s \<Rightarrow> ('h \<times> nat) list \<Rightarrow> 's go" where
  "bump_all s [] = Inr s"
| "bump_all s ((h, n) # evs) = go_bind (bump s h n) (\<lambda>s'. bump_all s' evs)"

lemma bump_all_total:
  assumes "\<And>h n. (h, n) \<in> set evs \<Longrightarrow> ready s h (lab h)" and "total s l = Some (c, t)"
  shows "\<exists>s'. bump_all s evs = Inr s' \<and>
     total s' l = Some (c + word_of_nat (length (filter (\<lambda>(h, n). lab h = l) evs)),
                        t + word_of_nat (sum_list (map snd (filter (\<lambda>(h, n). lab h = l) evs))))"
  using assms
proof (induction evs arbitrary: s c t)
  case Nil
  then show ?case by simp
next
  case (Cons e evs)
  obtain h n where e: "e = (h, n)" by (cases e)
  have r: "ready s h (lab h)" using Cons.prems(1)[of h n] e by simp
  obtain s1 where s1: "bump s h n = Inr s1" using bump_ready[OF r] by blast
  have ready1: "\<And>h' n'. (h', n') \<in> set evs \<Longrightarrow> ready s1 h' (lab h')"
    using Cons.prems(1) bump_keeps[OF r s1] by (metis list.set_intros(2))
  let ?c = "if l = lab h then c + 1 else c" and ?t = "if l = lab h then t + word_of_nat n else t"
  have "total s1 l = Some (?c, ?t)" using bump_total[OF r s1] Cons.prems(2) by auto
  from Cons.IH[OF ready1 this] show ?case using s1 e by (auto simp: ac_simps)
qed

end

interpretation host_counts: counter_registry count_host
  "\<lambda>host h l. h = l \<and> host l \<noteq> None"
  "\<lambda>host l. map_option (\<lambda>c. (unwrittenCount c, unwrittenLength c)) (host l)"
  by unfold_locales
    (auto simp: count_host_def count_record_def option.map_id split: option.splits if_splits intro!: ext)

subsection \<open>The process counters keep their indices\<close>

definition custom_ok :: "nat \<Rightarrow> custom_counter option list \<Rightarrow> bool" where
  "custom_ok n cs \<longleftrightarrow> length cs = n \<and> None \<notin> set cs"

definition vecs_ok :: "(bytes \<times> nat) list \<Rightarrow> bool" where
  "vecs_ok vecs \<longleftrightarrow> map snd vecs = [0..<length vecs] \<and> distinct (map fst vecs)"

definition process_ready :: "process_counters \<Rightarrow> nat \<Rightarrow> bytes \<Rightarrow> bool" where
  "process_ready p i l \<longleftrightarrow>
     vecs_ok (customVecs p) \<and> distinct (map fst (keySetPairs p)) \<and>
     map_of (customVecs p) l = Some i \<and>
     (case currentCounters p of
        None \<Rightarrow> False
      | Some key \<Rightarrow>
          (case map_of (keySetPairs p) key of
             None \<Rightarrow> False
           | Some q \<Rightarrow> custom_ok (length (customVecs p)) (customCounters q)))"

definition process_total :: "process_counters \<Rightarrow> bytes \<Rightarrow> (64 word \<times> 64 word) option" where
  "process_total p l =
     Option.bind (currentCounters p) (\<lambda>key.
     Option.bind (map_of (keySetPairs p) key) (\<lambda>q.
     Option.bind (map_of (customVecs p) l) (\<lambda>i.
       if i < length (customCounters q)
       then map_option (\<lambda>c. (unwrittenCount c, unwrittenLength c)) (customCounters q ! i)
       else None)))"

declare map_of_eq_Some_iff [simp del] Some_eq_map_of_iff [simp del]

lemma map_of_set_pair:
  "map_of (set_pair key pair ps) k =
     (if k = key then (case map_of ps k of None \<Rightarrow> None | Some _ \<Rightarrow> Some pair) else map_of ps k)"
  by (induction ps) (auto simp: set_pair_def split: if_splits option.splits)

lemma keys_set_pair [simp]: "map fst (set_pair key pair ps) = map fst ps"
  by (induction ps) (auto simp: set_pair_def)

lemma vecs_ok_index:
  assumes "vecs_ok vecs" and "map_of vecs l = Some i"
  shows "i < length vecs"
proof -
  have "i \<in> set (map snd vecs)" using map_of_SomeD[OF assms(2)] by force
  moreover have "map snd vecs = [0..<length vecs]" using assms(1) by (simp add: vecs_ok_def)
  ultimately show ?thesis by (metis atLeastLessThan_iff set_upt)
qed

lemma vecs_ok_inj:
  assumes "vecs_ok vecs" and "map_of vecs l = Some i" and "map_of vecs l' = Some i"
  shows "l = l'"
proof -
  have "distinct (map snd vecs)" using assms(1) by (simp add: vecs_ok_def)
  moreover have "(l, i) \<in> set vecs" "(l', i) \<in> set vecs"
    using assms(2,3) by (auto dest: map_of_SomeD)
  ultimately show ?thesis
    by (metis (no_types, lifting) distinct_map inj_on_def prod.inject snd_conv)
qed

lemma custom_ok_nth: "custom_ok n cs \<Longrightarrow> i < n \<Longrightarrow> \<exists>c. cs ! i = Some c"
  by (metis custom_ok_def nth_mem option.exhaust)

lemma count_process_ready:
  assumes "process_ready p i l"
  obtains key q c where "currentCounters p = Some key" "map_of (keySetPairs p) key = Some q"
    "custom_ok (length (customVecs p)) (customCounters q)" "i < length (customCounters q)"
    "customCounters q ! i = Some c"
    "count_process p i n = Inr (p\<lparr>keySetPairs := set_pair key
       (q\<lparr>customCounters := (customCounters q)[i := Some (count_record c n)]\<rparr>) (keySetPairs p)\<rparr>)"
proof -
  obtain key where k: "currentCounters p = Some key"
    using assms by (auto simp: process_ready_def split: option.splits)
  then obtain q where q: "map_of (keySetPairs p) key = Some q"
    "custom_ok (length (customVecs p)) (customCounters q)"
    using assms by (auto simp: process_ready_def split: option.splits)
  have i: "i < length (customVecs p)" using assms vecs_ok_index by (auto simp: process_ready_def)
  then obtain c where c: "customCounters q ! i = Some c" using custom_ok_nth[OF q(2)] by blast
  have il: "i < length (customCounters q)" using i q(2) by (simp add: custom_ok_def)
  show thesis
    by (rule that[OF k q il c]) (use k q(1) c il in \<open>simp add: count_process_def\<close>)
qed

lemma custom_ok_upd: "custom_ok n cs \<Longrightarrow> custom_ok n (cs[i := Some c])"
  using set_update_subset_insert[of cs i "Some c"] by (auto simp: custom_ok_def)

interpretation process_counts: counter_registry count_process process_ready process_total
proof
  fix p i l n
  assume r: "process_ready p i l"
  obtain key q c where *: "currentCounters p = Some key" "map_of (keySetPairs p) key = Some q"
    "custom_ok (length (customVecs p)) (customCounters q)" "i < length (customCounters q)"
    "customCounters q ! i = Some c"
    "count_process p i n = Inr (p\<lparr>keySetPairs := set_pair key
       (q\<lparr>customCounters := (customCounters q)[i := Some (count_record c n)]\<rparr>) (keySetPairs p)\<rparr>)"
    by (rule count_process_ready[OF r])
  have l: "map_of (customVecs p) l = Some i" using r by (simp add: process_ready_def)
  show "process_total p l \<noteq> None" using * l by (simp add: process_total_def)
  show "\<exists>p'. count_process p i n = Inr p'" using * by simp
  fix p'
  assume "count_process p i n = Inr p'"
  then have p': "p' = p\<lparr>keySetPairs := set_pair key
       (q\<lparr>customCounters := (customCounters q)[i := Some (count_record c n)]\<rparr>) (keySetPairs p)\<rparr>"
    using * by simp
  have pv: "vecs_ok (customVecs p)" using r by (simp add: process_ready_def)
  show "process_total p' = (\<lambda>l'. map_option (\<lambda>(c, t). if l' = l then (c + 1, t + word_of_nat n) else (c, t))
      (process_total p l'))"
  proof
    fix l'
    show "process_total p' l' = map_option (\<lambda>(c, t). if l' = l then (c + 1, t + word_of_nat n) else (c, t))
      (process_total p l')"
    proof (cases "l' = l")
      case True
      then show ?thesis using *(1,2,4,5) l
        by (simp add: process_total_def p' map_of_set_pair count_record_def)
    next
      case False
      then have "map_of (customVecs p) l' \<noteq> Some i" using vecs_ok_inj[OF pv l] by blast
      then show ?thesis using *(1,2) False
        by (cases "map_of (customVecs p) l'") (auto simp: process_total_def p' map_of_set_pair option.map_comp comp_def
          case_prod_unfold)
    qed
  qed
  fix i' l'
  assume "process_ready p i' l'"
  then show "process_ready p' i' l'"
    using *(1,2,3) by (simp add: process_ready_def p' map_of_set_pair custom_ok_upd)
qed

lemma fill_custom_vecs:
  assumes "length cs = n" and "map snd vecs = [m..<n]" and "m \<le> n" and "None \<notin> set (take m cs)"
  shows "\<exists>cs'. fill_custom vecs cs = Inr cs' \<and> custom_ok n cs'"
  using assms
proof (induction vecs arbitrary: m cs)
  case Nil
  then have "m = n" by (cases "m < n") (auto simp: upt_conv_Cons)
  then show ?case using Nil by (simp add: custom_ok_def)
next
  case (Cons v vecs)
  obtain l i where v: "v = (l, i)" by (cases v)
  have "m < n" using Cons.prems(2) by (cases "m < n") auto
  then have i: "i = m" "map snd vecs = [Suc m..<n]"
    using Cons.prems(2) v by (auto simp: upt_conv_Cons)
  have "None \<notin> set (take (Suc m) (cs[m := Some new_custom_counter]))"
    using Cons.prems \<open>m < n\<close> by (simp add: take_Suc_conv_app_nth)
  then show ?case
    using Cons.IH[of "cs[m := Some new_custom_counter]" "Suc m"] Cons.prems(1) i v \<open>m < n\<close>
    by (simp add: go_set_def)
qed

definition process_ok :: "process_counters \<Rightarrow> bool" where
  "process_ok p \<longleftrightarrow>
     vecs_ok (customVecs p) \<and> distinct (map fst (keySetPairs p)) \<and>
     list_all (\<lambda>(k, q). custom_ok (length (customVecs p)) (customCounters q)) (keySetPairs p)"

lemma register_process_ok:
  assumes "vecs_ok (customVecs p)" and "keySetPairs p = []" and
    "register_process_counter p l = (i, p')"
  shows "vecs_ok (customVecs p') \<and> keySetPairs p' = [] \<and> map_of (customVecs p') l = Some i \<and>
     (\<forall>l' i'. map_of (customVecs p) l' = Some i' \<longrightarrow> map_of (customVecs p') l' = Some i')"
proof (cases "map_of (customVecs p) l")
  case None
  then have "l \<notin> fst ` set (customVecs p)" by (simp add: map_of_eq_None_iff)
  moreover have "p' = p\<lparr>customVecs := customVecs p @ [(l, length (customVecs p))]\<rparr>"
    "i = length (customVecs p)"
    using assms(3) None by (auto simp: register_process_counter_def Let_def)
  ultimately show ?thesis using assms(1,2) None
    by (auto simp: vecs_ok_def map_add_def split: option.splits)
next
  case (Some j)
  then show ?thesis using assms by (simp add: register_process_counter_def)
qed

lemma select_ready:
  assumes "process_ok p" and "list_all (loc_ok (length (Fields r))) (keyExtractor p)"
  shows "\<exists>key p'. select_metric_key_set p r = Inr (key, p') \<and> process_ok p' \<and>
     customVecs p' = customVecs p \<and> map_of (keySetPairs p') key \<noteq> None \<and>
     (\<forall>l i. map_of (customVecs p) l = Some i \<longrightarrow> process_ready p' i l)"
proof -
  let ?keys = "map (\<lambda>loc. Fields r ! nat loc) (keyExtractor p)"
  have ex: "extract_field_set (keyExtractor p) r = Inr ?keys"
    by (rule extract_field_set_ok[OF assms(2)])
  show ?thesis
  proof (cases "map_of (keySetPairs p) (concat ?keys)")
    case (Some q)
    then have "custom_ok (length (customVecs p)) (customCounters q)"
      using assms(1) by (auto simp: process_ok_def list_all_iff dest: map_of_SomeD)
    then show ?thesis using assms(1) Some
      by (simp add: Let_def select_metric_key_set_def ex process_ok_def process_ready_def)
  next
    case None
    obtain cs where cs: "fill_custom (customVecs p) (replicate (length (customVecs p)) None) = Inr cs"
      "custom_ok (length (customVecs p)) cs"
      using fill_custom_vecs[of "replicate (length (customVecs p)) None" "length (customVecs p)"
          "customVecs p" 0] assms(1) by (auto simp: process_ok_def vecs_ok_def)
    have "concat ?keys \<notin> fst ` set (keySetPairs p)"
      using None by (simp add: map_of_eq_None_iff)
    then show ?thesis using assms(1) None cs
      by (simp add: Let_def select_metric_key_set_def ex process_ok_def process_ready_def map_add_def)
  qed
qed

section \<open>Properties\<close>

text \<open>The calls that transforms make through their registered counters, one after another.\<close>

fun count_process_all :: "process_counters \<Rightarrow> (nat \<times> nat) list \<Rightarrow> process_counters go" where
  "count_process_all p [] = Inr p"
| "count_process_all p ((i, n) # evs) = go_bind (count_process p i n) (\<lambda>p'. count_process_all p' evs)"

lemma count_process_all_bump: "count_process_all p evs = process_counts.bump_all p evs"
proof (induction p evs rule: count_process_all.induct)
  case (2 p i n evs)
  then show ?case by (cases "count_process p i n") simp_all
qed simp

text \<open>
  C37: once a key set is selected, counting under registered labels never panics, and the counter
  of a label grows by exactly the calls made for that label and their lengths, modulo the width
  of the counter.
\<close>

theorem process_counting:
  assumes "process_ok p" and "list_all (loc_ok (length (Fields r))) (keyExtractor p)"
    and "\<forall>(i, n) \<in> set evs. map_of (customVecs p) (lab i) = Some i"
  shows "\<exists>key p1. select_metric_key_set p r = Inr (key, p1) \<and> process_ok p1 \<and>
     (\<forall>l c t. process_total p1 l = Some (c, t) \<longrightarrow>
        (\<exists>p2. count_process_all p1 evs = Inr p2 \<and>
           process_total p2 l =
             Some (c + word_of_nat (length (filter (\<lambda>(i, n). lab i = l) evs)),
                   t + word_of_nat (sum_list (map snd (filter (\<lambda>(i, n). lab i = l) evs))))))"
proof -
  obtain key p1 where 1: "select_metric_key_set p r = Inr (key, p1)" "process_ok p1"
    "\<forall>l i. map_of (customVecs p) l = Some i \<longrightarrow> process_ready p1 i l"
    using select_ready[OF assms(1,2)] by blast
  have "\<And>i n. (i, n) \<in> set evs \<Longrightarrow> process_ready p1 i (lab i)" using 1(3) assms(3) by blast
  from process_counts.bump_all_total[of evs p1 lab, OF this] show ?thesis
    using 1(1,2) by (auto simp: count_process_all_bump)
qed

theorem process_counting_witness:
  "\<exists>key p1 p2 p0 r. select_metric_key_set p0 r = Inr (key, p1) \<and>
     count_process_all p1 [(0, 10), (1, 5), (0, 7)] = Inr p2 \<and>
     process_total p2 ''drop'' = Some (2, 17)"
proof -
  define p0 where "p0 = \<lparr>keyExtractor = [0], metricKeyNames = [''key_app''],
      customVecs = [(''drop'', 0), (''cut'', 1)], keySetPairs = [], serializedLengths = [],
      chunksCounts = [], chunksLengths = [], currentCounters = None\<rparr>"
  define r where "r = \<lparr>Fields = [''nginx''], RawLength = 3, Timestamp = 0, Unescaped = False,
      backbuf = None, refCount = 1\<rparr>"
  let ?lab = "\<lambda>i :: nat. if i = 0 then ''drop'' else ''cut''"
  have a: "process_ok p0" "list_all (loc_ok (length (Fields r))) (keyExtractor p0)"
    "\<forall>(i, n) \<in> set [(0, 10), (1, 5), (0, 7 :: nat)]. map_of (customVecs p0) (?lab i) = Some i"
    by (simp_all add: p0_def r_def process_ok_def vecs_ok_def loc_ok_def)
  obtain key p1 where 1: "select_metric_key_set p0 r = Inr (key, p1)"
    "\<forall>l c t. process_total p1 l = Some (c, t) \<longrightarrow>
        (\<exists>p2. count_process_all p1 [(0, 10), (1, 5), (0, 7)] = Inr p2 \<and>
           process_total p2 l =
             Some (c + word_of_nat (length (filter (\<lambda>(i, n). ?lab i = l) [(0, 10), (1, 5), (0, 7 :: nat)])),
                   t + word_of_nat (sum_list (map snd (filter (\<lambda>(i, n). ?lab i = l) [(0, 10), (1, 5), (0, 7)])))))"
    using process_counting[OF a] by blast
  have "process_total p1 ''drop'' = Some (0, 0)"
    using 1(1) by (auto simp: p0_def r_def select_metric_key_set_def loc_get_def go_index_def go_set_def Let_def
        process_total_def new_custom_counter_def)
  with 1 show ?thesis by fastforce
qed

text \<open>
  The counters of a key set are found by the concatenation of its values alone: two records
  with different key fields of the same concatenation are counted together, under the labels of
  the first.
\<close>

theorem merged_key_sets:
  assumes "extract_field_set (keyExtractor p) r = Inr keys"
    and "extract_field_set (keyExtractor p) r' = Inr keys'"
    and "concat keys = concat keys'" and "map_of (keySetPairs p) (concat keys) = None"
    and "process_ok p"
  shows "\<exists>key p1 p2 q. select_metric_key_set p r = Inr (key, p1) \<and> select_metric_key_set p1 r' = Inr (key, p2) \<and>
     keySetPairs p2 = keySetPairs p1 \<and> map_of (keySetPairs p2) key = Some q \<and> pairLabels q = keys"
proof -
  obtain cs where "fill_custom (customVecs p) (replicate (length (customVecs p)) None) = Inr cs"
    using fill_custom_vecs[of "replicate (length (customVecs p)) None" "length (customVecs p)"
        "customVecs p" 0] assms(5) by (auto simp: process_ok_def vecs_ok_def)
  then show ?thesis using assms by (simp add: select_metric_key_set_def Let_def map_add_def)
qed

theorem merged_key_sets_witness:
  "\<exists>p r r' p1 p2 q. Fields r = [''ab'', ''c''] \<and> Fields r' = [''a'', ''bc''] \<and>
     select_metric_key_set p r = Inr (''abc'', p1) \<and> select_metric_key_set p1 r' = Inr (''abc'', p2) \<and>
     map_of (keySetPairs p2) ''abc'' = Some q \<and> pairLabels q = [''ab'', ''c'']"
proof -
  define p where "p = \<lparr>keyExtractor = [0, 1], metricKeyNames = [''key_x'', ''key_y''],
      customVecs = [], keySetPairs = [], serializedLengths = [],
      chunksCounts = [], chunksLengths = [], currentCounters = None\<rparr>"
  define r where "r = (\<lambda>fs. \<lparr>Fields = fs, RawLength = 3, Timestamp = 0, Unescaped = False,
      backbuf = None, refCount = 1\<rparr>)"
  have a: "extract_field_set (keyExtractor p) (r [''ab'', ''c'']) = Inr [''ab'', ''c'']"
    "extract_field_set (keyExtractor p) (r [''a'', ''bc'']) = Inr [''a'', ''bc'']"
    "concat [''ab'', ''c''] = concat [''a'', ''bc'']"
    "map_of (keySetPairs p) (concat [''ab'', ''c'']) = None" "process_ok p"
    by (simp_all add: p_def r_def loc_get_def go_index_def process_ok_def vecs_ok_def)
  obtain key p1 p2 q where *: "select_metric_key_set p (r [''ab'', ''c'']) = Inr (key, p1)"
    "select_metric_key_set p1 (r [''a'', ''bc'']) = Inr (key, p2)"
    "map_of (keySetPairs p2) key = Some q" "pairLabels q = [''ab'', ''c'']"
    using merged_key_sets[OF a] by blast
  have "key = ''abc''" using *(1) a(1) by (auto simp: select_metric_key_set_def Let_def p_def)
  then show ?thesis using *
    by (intro exI[of _ p] exI[of _ "r [''ab'', ''c'']"] exI[of _ "r [''a'', ''bc'']"] exI[of _ p1]
        exI[of _ p2] exI[of _ q]) (simp add: r_def)
qed

end
