(* ===== verification/Redact_Email.thy ===== *)
theory Redact_Email
  imports Prelude
begin

text \<open>
  E-mail redaction: \<open>transform/tredactemail/redactemail.go\<close>. Byte indices are integers as in the
  source, every indexing and slicing can panic, and the lemmas show that none does, and
  what the result is: the input with some ranges replaced, each of them an address.
\<close>

section \<open>Character tables\<close>

definition valid_word_char :: "char \<Rightarrow> bool" where
  "valid_word_char c \<longleftrightarrow>
     (65 \<le> code_of c \<and> code_of c \<le> 90) \<or> (97 \<le> code_of c \<and> code_of c \<le> 122) \<or>
     (48 \<le> code_of c \<and> code_of c \<le> 57)"

definition valid_address_char :: "char \<Rightarrow> bool" where
  "valid_address_char c \<longleftrightarrow>
     valid_word_char c \<or> c = CHR ''.'' \<or> c = CHR ''-'' \<or> c = CHR ''_''"

lemma valid_address_not_at [simp]: "\<not> valid_address_char (CHR ''@'')"
  by (simp add: valid_address_char_def valid_word_char_def)

section \<open>Finding the boundaries\<close>

text \<open>\<open>sAt > 0 \<and> validWordChars[src[sAt-1]] \<and> validWordChars[src[sAt+1]]\<close>.\<close>

definition words_around :: "bytes \<Rightarrow> int \<Rightarrow> bool go" where
  "words_around src sAt =
     (if sAt > 0 then
        go_bind (go_index src (sAt - 1)) (\<lambda>c.
        if valid_word_char c
        then go_bind (go_index src (sAt + 1)) (\<lambda>d. Inr (valid_word_char d))
        else Inr False)
      else Inr False)"

function redact_find_first_from :: "bytes \<Rightarrow> int \<Rightarrow> int option go" where
  "redact_find_first_from src sAt =
     (if sAt < int (length src) - 1 then
        go_bind (words_around src sAt) (\<lambda>w.
        if w then Inr (Some sAt)
        else go_bind (go_slice src (sAt + 1) (int (length src))) (\<lambda>rest.
          case index_byte (CHR ''@'') rest of
            None \<Rightarrow> Inr None
          | Some nextAt \<Rightarrow> redact_find_first_from src (sAt + 1 + int nextAt)))
      else Inr None)"
  by auto
termination
  by (relation "measure (\<lambda>(src, sAt). nat (int (length src) - sAt))") auto

definition redact_email_find_first :: "bytes \<Rightarrow> int option go" where
  "redact_email_find_first src =
     redact_find_first_from src
       (case index_byte (CHR ''@'') src of None \<Rightarrow> -1 | Some i \<Rightarrow> int i)"

function find_start_loop :: "bytes \<Rightarrow> int \<Rightarrow> int \<Rightarrow> int go" where
  "find_start_loop src limitStart i =
     (if i \<ge> limitStart then
        go_bind (go_index src i) (\<lambda>c.
        if valid_address_char c then find_start_loop src limitStart (i - 1) else Inr i)
      else Inr i)"
  by auto
termination
  by (relation "measure (\<lambda>(src, l, i). nat (i - l + 1))") auto

definition redact_find_email_start :: "bytes \<Rightarrow> int \<Rightarrow> int \<Rightarrow> int option go" where
  "redact_find_email_start src atIndex limitStart =
     go_bind (find_start_loop src limitStart (atIndex - 1)) (\<lambda>i.
       if i \<ge> 0 then
         go_bind (go_index src i) (\<lambda>c. Inr (if c = CHR ''/'' then None else Some (i + 1)))
       else Inr (Some (i + 1)))"

definition redact_email_check_number :: "bytes \<Rightarrow> bool" where
  "redact_email_check_number s \<longleftrightarrow> length s \<ge> 2 \<and> is_digit (hd s) \<and> is_digit (last s)"

text \<open>The first loop of \<open>redactFindEmailEnd\<close>: \<open>NotAddress\<close> is its \<open>return -1\<close>.\<close>

datatype dot_search = NotAddress | NoDot | DotAt int

function find_dot :: "bytes \<Rightarrow> int \<Rightarrow> dot_search go" where
  "find_dot src i =
     (if i < int (length src) then
        go_bind (go_index src i) (\<lambda>c.
        if \<not> valid_address_char c then Inr NotAddress
        else if c = CHR ''.'' then Inr (DotAt i)
        else find_dot src (i + 1))
      else Inr NoDot)"
  by auto
termination
  by (relation "measure (\<lambda>(src, i). nat (int (length src) - i))") auto

function find_end_loop :: "bytes \<Rightarrow> int \<Rightarrow> int go" where
  "find_end_loop src i =
     (if i < int (length src) then
        go_bind (go_index src i) (\<lambda>c.
        if valid_address_char c then find_end_loop src (i + 1) else Inr i)
      else Inr i)"
  by auto
termination
  by (relation "measure (\<lambda>(src, i). nat (int (length src) - i))") auto

declare redact_find_first_from.simps [simp del] find_start_loop.simps [simp del]
  find_dot.simps [simp del] find_end_loop.simps [simp del]

definition redact_find_email_end :: "bytes \<Rightarrow> int \<Rightarrow> int option go" where
  "redact_find_email_end src atIndex =
     go_bind (find_dot src (atIndex + 1)) (\<lambda>d.
       case d of
         NotAddress \<Rightarrow> Inr None
       | NoDot \<Rightarrow>
           go_bind (go_slice src (atIndex + 1) (int (length src))) (\<lambda>t.
             Inr (if redact_email_check_number t then None else Some (int (length src))))
       | DotAt dotIndex \<Rightarrow>
           if dotIndex = int (length src) - 1 then Inr (Some (int (length src)))
           else go_bind (go_index src (dotIndex + 1)) (\<lambda>c.
             if \<not> valid_word_char c then Inr None
             else go_bind (find_end_loop src (dotIndex + 2)) (\<lambda>endIndex.
               go_bind (go_slice src (atIndex + 1) endIndex) (\<lambda>t.
                 Inr (if redact_email_check_number t then None else Some endIndex)))))"

definition redact_find_email_boundary :: "bytes \<Rightarrow> int \<Rightarrow> int \<Rightarrow> (int \<times> int) option go" where
  "redact_find_email_boundary src atIndex limitStart =
     go_bind (redact_find_email_start src atIndex limitStart) (\<lambda>s.
       case s of
         None \<Rightarrow> Inr None
       | Some emailStart \<Rightarrow>
           go_bind (redact_find_email_end src atIndex) (\<lambda>e.
             Inr (map_option (\<lambda>emailEnd. (emailStart, emailEnd)) e)))"

section \<open>Redacting\<close>

definition finish_redact :: "bytes \<Rightarrow> int \<Rightarrow> bytes \<Rightarrow> nat \<Rightarrow> (bytes \<times> nat) go" where
  "finish_redact src sCopied dst numRedacted =
     go_bind (go_slice src sCopied (int (length src))) (\<lambda>t. Inr (dst @ t, numRedacted))"

text \<open>One pass of the loop body up to the search for the next \<open>@\<close>: the new \<open>sAt\<close>, \<open>sCopied\<close>,
  \<open>dst\<close> and \<open>numRedacted\<close>.\<close>

definition redact_step :: "bytes \<Rightarrow> int \<Rightarrow> int \<Rightarrow> bytes \<Rightarrow> nat \<Rightarrow> (int \<times> int \<times> bytes \<times> nat) go" where
  "redact_step src sAt sCopied dst numRedacted =
     go_bind (words_around src sAt) (\<lambda>w.
       if w then
         go_bind (redact_find_email_boundary src sAt sCopied) (\<lambda>b.
           case b of
             None \<Rightarrow> Inr (sAt + 1, sCopied, dst, numRedacted)
           | Some (emailStart, emailEnd) \<Rightarrow>
               go_bind (go_slice src sCopied emailStart) (\<lambda>t.
                 Inr (emailEnd, emailEnd, dst @ t @ ''REDACTED'', numRedacted + 1)))
       else Inr (sAt + 1, sCopied, dst, numRedacted))"

text \<open>The loop; the fuel is a bound on the number of \<open>@\<close> signs, see the totality lemma.\<close>

fun redact_loop :: "nat \<Rightarrow> bytes \<Rightarrow> int \<Rightarrow> int \<Rightarrow> bytes \<Rightarrow> nat \<Rightarrow> (bytes \<times> nat) go option" where
  "redact_loop 0 src sAt sCopied dst n = None"
| "redact_loop (Suc fuel) src sAt sCopied dst n =
     (if sAt < int (length src) - 1 then
        (case redact_step src sAt sCopied dst n of
           Inl p \<Rightarrow> Some (Inl p)
         | Inr (sAt', sCopied', dst', n') \<Rightarrow>
             if sAt' > int (length src) - 1 then Some (finish_redact src sCopied' dst' n')
             else (case go_slice src sAt' (int (length src)) of
                     Inl p \<Rightarrow> Some (Inl p)
                   | Inr rest \<Rightarrow>
                       (case index_byte (CHR ''@'') rest of
                          None \<Rightarrow> Some (finish_redact src sCopied' dst' n')
                        | Some nextAt \<Rightarrow> redact_loop fuel src (sAt' + int nextAt) sCopied' dst' n')))
      else Some (finish_redact src sCopied dst n))"

definition redact_email1 :: "bytes \<Rightarrow> int \<Rightarrow> (bytes \<times> nat) go option" where
  "redact_email1 src start = redact_loop (length src + 1) src start 0 [] 0"

definition redact_email :: "bytes \<Rightarrow> bytes go option" where
  "redact_email src =
     (case redact_email_find_first src of
        Inl p \<Rightarrow> Some (Inl p)
      | Inr None \<Rightarrow> Some (Inr src)
      | Inr (Some first) \<Rightarrow> map_option (\<lambda>r. go_bind r (\<lambda>(dest, _). Inr dest)) (redact_email1 src first))"

section \<open>What is redacted\<close>

fun redact_ranges :: "bytes \<Rightarrow> nat \<Rightarrow> (nat \<times> nat) list \<Rightarrow> bytes" where
  "redact_ranges src i [] = drop i src"
| "redact_ranges src i ((s, e) # rs) =
     take (s - i) (drop i src) @ ''REDACTED'' @ redact_ranges src e rs"

text \<open>A range is an address: one \<open>@\<close> between word characters, address characters elsewhere.\<close>

definition address_at :: "bytes \<Rightarrow> nat \<Rightarrow> nat \<Rightarrow> nat \<Rightarrow> bool" where
  "address_at src s p e \<longleftrightarrow>
     s \<le> p \<and> 0 < p \<and> p + 1 < e \<and> e \<le> length src \<and> src ! p = CHR ''@'' \<and>
     valid_word_char (src ! (p - 1)) \<and> valid_word_char (src ! (p + 1)) \<and>
     (\<forall>i. s \<le> i \<and> i < e \<and> i \<noteq> p \<longrightarrow> valid_address_char (src ! i))"

definition address_range :: "bytes \<Rightarrow> nat \<Rightarrow> nat \<Rightarrow> bool" where
  "address_range src s e \<longleftrightarrow> (\<exists>p < length src. address_at src s p e)"

fun ranges_ok :: "bytes \<Rightarrow> nat \<Rightarrow> (nat \<times> nat) list \<Rightarrow> bool" where
  "ranges_ok src i [] \<longleftrightarrow> i \<le> length src"
| "ranges_ok src i ((s, e) # rs) \<longleftrightarrow> i \<le> s \<and> s < e \<and> address_range src s e \<and> ranges_ok src e rs"

text \<open>A candidate that is left alone: no boundary was found for it.\<close>

definition skipped :: "bytes \<Rightarrow> nat \<Rightarrow> bool" where
  "skipped src p \<longleftrightarrow>
     words_around src (int p) = Inr False \<or>
     (\<exists>l \<le> p. redact_find_email_boundary src (int p) (int l) = Inr None)"

fun in_ranges :: "nat \<Rightarrow> (nat \<times> nat) list \<Rightarrow> bool" where
  "in_ranges p [] \<longleftrightarrow> False"
| "in_ranges p ((s, e) # rs) \<longleftrightarrow> (s \<le> p \<and> p < e) \<or> in_ranges p rs"

subsection \<open>The searches stay inside the string\<close>

lemma words_around_ok:
  assumes "p + 1 < length src"
  shows "words_around src (int p) =
     Inr (0 < p \<and> valid_word_char (src ! (p - 1)) \<and> valid_word_char (src ! (p + 1)))"
  using assms by (auto simp: words_around_def go_index_def nat_diff_distrib nat_add_distrib)

lemma find_start_loop_ok:
  assumes "0 \<le> limit" and "i < int (length src)" and "limit - 1 \<le> i"
  shows "\<exists>j. find_start_loop src limit i = Inr j \<and> limit - 1 \<le> j \<and> j \<le> i \<and>
     (\<forall>k. j < int k \<and> int k \<le> i \<longrightarrow> valid_address_char (src ! k))"
  using assms
proof (induction src limit i rule: find_start_loop.induct)
  case (1 src limit i)
  show ?case
  proof (cases "i \<ge> limit \<and> valid_address_char (src ! nat i)")
    case True
    then have idx: "go_index src i = Inr (src ! nat i)" using 1(2-4) by (simp add: go_index_def)
    obtain j where j: "find_start_loop src limit (i - 1) = Inr j" "limit - 1 \<le> j" "j \<le> i - 1"
      "\<forall>k. j < int k \<and> int k \<le> i - 1 \<longrightarrow> valid_address_char (src ! k)"
      using 1(1)[OF _ idx] True 1(2-4) by auto
    have "\<forall>k. j < int k \<and> int k \<le> i \<longrightarrow> valid_address_char (src ! k)"
    proof (intro allI impI)
      fix k assume k: "j < int k \<and> int k \<le> i"
      show "valid_address_char (src ! k)"
        using k j(4) True by (cases "int k = i") auto
    qed
    moreover have "find_start_loop src limit i = Inr j"
      using True idx j(1) by (subst find_start_loop.simps) simp
    ultimately show ?thesis using j by auto
  next
    case False
    then have "find_start_loop src limit i = Inr i"
      using 1(2-4) by (subst find_start_loop.simps) (auto simp: go_index_def)
    then show ?thesis using 1(2-4) by auto
  qed
qed

lemma find_email_start_ok:
  assumes "l \<le> p" and "p < length src"
  shows "\<exists>r. redact_find_email_start src (int p) (int l) = Inr r \<and>
     (\<forall>s. r = Some s \<longrightarrow> int l \<le> s \<and> s \<le> int p \<and>
        (\<forall>k. s \<le> int k \<and> k < p \<longrightarrow> valid_address_char (src ! k)))"
proof -
  obtain j where j: "find_start_loop src (int l) (int p - 1) = Inr j" "int l - 1 \<le> j" "j \<le> int p - 1"
    "\<forall>k. j < int k \<and> int k \<le> int p - 1 \<longrightarrow> valid_address_char (src ! k)"
    using find_start_loop_ok[of "int l" "int p - 1" src] assms by auto
  have "0 \<le> j \<Longrightarrow> go_index src j = Inr (src ! nat j)" using j assms by (simp add: go_index_def)
  then show ?thesis using j by (auto simp: redact_find_email_start_def)
qed

lemma find_dot_ok:
  assumes "0 \<le> i"
  shows "\<exists>d. find_dot src i = Inr d \<and>
     (d = NoDot \<longrightarrow> (\<forall>k. i \<le> int k \<and> k < length src \<longrightarrow> valid_address_char (src ! k))) \<and>
     (\<forall>j. d = DotAt j \<longrightarrow> i \<le> j \<and> j < int (length src) \<and>
        (\<forall>k. i \<le> int k \<and> int k \<le> j \<longrightarrow> valid_address_char (src ! k)))"
  using assms
proof (induction src i rule: find_dot.induct)
  case (1 src i)
  show ?case
  proof (cases "i < int (length src)")
    case False
    then show ?thesis by (subst find_dot.simps) auto
  next
    case True
    then have idx: "go_index src i = Inr (src ! nat i)" using 1(2) by (simp add: go_index_def)
    show ?thesis
    proof (cases "valid_address_char (src ! nat i) \<and> src ! nat i \<noteq> CHR ''.''")
      case False
      have "k = nat i" if "i \<le> int k" "int k \<le> i" for k using that by simp
      then show ?thesis using False True idx 1(2) by (subst find_dot.simps) auto
    next
      case v: True
      have k: "valid_address_char (src ! k)" if "i = int k" for k using that v by simp
      have split: "i = int k \<or> i + 1 \<le> int k" if "i \<le> int k" for k using that by linarith
      obtain d where d: "find_dot src (i + 1) = Inr d"
        "d = NoDot \<longrightarrow> (\<forall>k. i + 1 \<le> int k \<and> k < length src \<longrightarrow> valid_address_char (src ! k))"
        "\<forall>j. d = DotAt j \<longrightarrow> i + 1 \<le> j \<and> j < int (length src) \<and>
           (\<forall>k. i + 1 \<le> int k \<and> int k \<le> j \<longrightarrow> valid_address_char (src ! k))"
        using 1(1)[OF True idx] v 1(2) by auto
      have "find_dot src i = Inr d"
        using True idx v d(1) by (subst find_dot.simps) simp
      moreover have "d = NoDot \<longrightarrow> (\<forall>k. i \<le> int k \<and> k < length src \<longrightarrow> valid_address_char (src ! k))"
        using d(2) k split by blast
      moreover have "\<forall>j. d = DotAt j \<longrightarrow> i \<le> j \<and> j < int (length src) \<and>
           (\<forall>k. i \<le> int k \<and> int k \<le> j \<longrightarrow> valid_address_char (src ! k))"
        using d(3) k split by force
      ultimately show ?thesis by blast
    qed
  qed
qed

lemma find_end_loop_ok:
  assumes "0 \<le> i" and "i \<le> int (length src)"
  shows "\<exists>e. find_end_loop src i = Inr e \<and> i \<le> e \<and> e \<le> int (length src) \<and>
     (\<forall>k. i \<le> int k \<and> int k < e \<longrightarrow> valid_address_char (src ! k))"
  using assms
proof (induction src i rule: find_end_loop.induct)
  case (1 src i)
  show ?case
  proof (cases "i < int (length src) \<and> valid_address_char (src ! nat i)")
    case False
    then show ?thesis using 1(2,3) by (subst find_end_loop.simps) (auto simp: go_index_def)
  next
    case True
    then have idx: "go_index src i = Inr (src ! nat i)" using 1(2) by (simp add: go_index_def)
    obtain e where e: "find_end_loop src (i + 1) = Inr e" "i + 1 \<le> e" "e \<le> int (length src)"
      "\<forall>k. i + 1 \<le> int k \<and> int k < e \<longrightarrow> valid_address_char (src ! k)"
      using 1(1)[OF _ idx] True 1(2) by auto
    have "find_end_loop src i = Inr e"
      using True idx e(1) by (subst find_end_loop.simps) simp
    moreover have "\<forall>k. i \<le> int k \<and> int k < e \<longrightarrow> valid_address_char (src ! k)"
    proof (intro allI impI)
      fix k assume k: "i \<le> int k \<and> int k < e"
      show "valid_address_char (src ! k)" using k e(4) True by (cases "int k = i") auto
    qed
    ultimately show ?thesis using e by auto
  qed
qed

lemma find_email_end_ok:
  assumes "p + 1 < length src"
  shows "\<exists>r. redact_find_email_end src (int p) = Inr r \<and>
     (\<forall>e. r = Some e \<longrightarrow> int p + 1 < e \<and> e \<le> int (length src) \<and>
        (\<forall>k. p < k \<and> int k < e \<longrightarrow> valid_address_char (src ! k)))"
proof -
  obtain d where d: "find_dot src (int p + 1) = Inr d"
    "d = NoDot \<longrightarrow> (\<forall>k. int p + 1 \<le> int k \<and> k < length src \<longrightarrow> valid_address_char (src ! k))"
    "\<forall>j. d = DotAt j \<longrightarrow> int p + 1 \<le> j \<and> j < int (length src) \<and>
        (\<forall>k. int p + 1 \<le> int k \<and> int k \<le> j \<longrightarrow> valid_address_char (src ! k))"
    using find_dot_ok[of "int p + 1" src] by auto
  show ?thesis
  proof (cases d)
    case NotAddress
    then show ?thesis using d by (simp add: redact_find_email_end_def)
  next
    case NoDot
    have "go_slice src (int p + 1) (int (length src)) = Inr (drop (p + 1) src)"
      using assms go_slice_nat[of "p + 1" "length src" src] by (simp add: ac_simps)
    then show ?thesis using d NoDot assms by (auto simp: redact_find_email_end_def)
  next
    case (DotAt j)
    then have j: "int p + 1 \<le> j" "j < int (length src)"
      "\<forall>k. int p + 1 \<le> int k \<and> int k \<le> j \<longrightarrow> valid_address_char (src ! k)"
      using d(3) by auto
    show ?thesis
    proof (cases "j = int (length src) - 1")
      case True
      then show ?thesis using d(1) DotAt j assms by (auto simp: redact_find_email_end_def)
    next
      case False
      then have idx: "go_index src (j + 1) = Inr (src ! nat (j + 1))"
        using j by (simp add: go_index_def)
      show ?thesis
      proof (cases "valid_word_char (src ! nat (j + 1))")
        case False
        then show ?thesis using d(1) DotAt \<open>j \<noteq> _\<close> idx by (simp add: redact_find_email_end_def)
      next
        case w: True
        obtain e where e: "find_end_loop src (j + 2) = Inr e" "j + 2 \<le> e" "e \<le> int (length src)"
          "\<forall>k. j + 2 \<le> int k \<and> int k < e \<longrightarrow> valid_address_char (src ! k)"
          using find_end_loop_ok[of "j + 2" src] j False by auto
        have sl: "\<exists>t. go_slice src (int p + 1) e = Inr t"
          using j e by (auto simp: go_slice_def)
        have "valid_address_char (src ! k)" if "p < k" "int k < e" for k
        proof -
          consider "int k \<le> j" | "int k = j + 1" | "j + 2 \<le> int k" by linarith
          then show ?thesis
          proof cases
            case 1
            then show ?thesis using j(3) that by simp
          next
            case 2
            then have "nat (j + 1) = k" by linarith
            then show ?thesis using w by (simp add: valid_address_char_def)
          next
            case 3
            then show ?thesis using e(4) that by simp
          qed
        qed
        then show ?thesis using d(1) DotAt False idx w e sl j
          by (auto simp: redact_find_email_end_def)
      qed
    qed
  qed
qed

lemma boundary_ok:
  assumes "l \<le> p" and "p + 1 < length src"
  shows "\<exists>r. redact_find_email_boundary src (int p) (int l) = Inr r \<and>
     (\<forall>s e. r = Some (s, e) \<longrightarrow> int l \<le> s \<and> s \<le> int p \<and> int p + 1 < e \<and> e \<le> int (length src) \<and>
        (\<forall>k. s \<le> int k \<and> int k < e \<and> k \<noteq> p \<longrightarrow> valid_address_char (src ! k)))"
proof -
  obtain rs where rs: "redact_find_email_start src (int p) (int l) = Inr rs"
    "\<forall>s. rs = Some s \<longrightarrow> int l \<le> s \<and> s \<le> int p \<and>
        (\<forall>k. s \<le> int k \<and> k < p \<longrightarrow> valid_address_char (src ! k))"
    using find_email_start_ok[OF assms(1), of src] assms(2) by auto
  obtain re where re: "redact_find_email_end src (int p) = Inr re"
    "\<forall>e. re = Some e \<longrightarrow> int p + 1 < e \<and> e \<le> int (length src) \<and>
        (\<forall>k. p < k \<and> int k < e \<longrightarrow> valid_address_char (src ! k))"
    using find_email_end_ok[OF assms(2)] by auto
  show ?thesis
    using rs re by (cases rs; cases re) (auto simp: redact_find_email_boundary_def nat_neq_iff)
qed


declare index_byte_None [simp del]

section \<open>The whole pass\<close>

definition redacts :: "bytes \<Rightarrow> nat \<Rightarrow> nat \<Rightarrow> (nat \<times> nat) list \<Rightarrow> bool" where
  "redacts src p c rs \<longleftrightarrow>
     ranges_ok src c rs \<and>
     (\<forall>q. p \<le> q \<and> q + 1 < length src \<and> src ! q = CHR ''@'' \<longrightarrow> in_ranges q rs \<or> skipped src q)"

lemma finish_redact_ok:
  "c \<le> length src \<Longrightarrow> finish_redact src (int c) dst n = Inr (dst @ drop c src, n)"
  by (simp add: finish_redact_def)

text \<open>The end of a loop pass, at a position past the candidate.\<close>

lemma redact_next:
  assumes IH: "\<And>k. p' + k < length src \<Longrightarrow> src ! (p' + k) = CHR ''@'' \<Longrightarrow>
       \<exists>rs. redact_loop fuel src (int (p' + k)) (int c) dst n =
          Some (Inr (dst @ redact_ranges src c rs, n + length rs)) \<and> redacts src (p' + k) c rs"
    and "c \<le> p'" and "p' \<le> length src"
  shows "\<exists>rs. (if int p' > int (length src) - 1 then Some (finish_redact src (int c) dst n)
             else (case go_slice src (int p') (int (length src)) of
                     Inl p \<Rightarrow> Some (Inl p)
                   | Inr rest \<Rightarrow>
                       (case index_byte (CHR ''@'') rest of
                          None \<Rightarrow> Some (finish_redact src (int c) dst n)
                        | Some nextAt \<Rightarrow> redact_loop fuel src (int p' + int nextAt) (int c) dst n)))
      = Some (Inr (dst @ redact_ranges src c rs, n + length rs)) \<and> redacts src p' c rs"
proof (cases "p' = length src")
  case True
  then have "redacts src p' c []" using assms(2) by (auto simp: redacts_def)
  then show ?thesis using True assms(2) by (intro exI[of _ "[]"]) (simp add: finish_redact_ok)
next
  case False
  then have sl: "go_slice src (int p') (int (length src)) = Inr (drop p' src)"
    using assms(3) by simp
  have le: "\<not> int p' > int (length src) - 1" using False assms(3) by linarith
  show ?thesis
  proof (cases "index_byte (CHR ''@'') (drop p' src)")
    case None
    then have no: "CHR ''@'' \<notin> set (drop p' src)" by (simp add: index_byte_None)
    have "src ! q \<noteq> CHR ''@''" if "p' \<le> q" "q + 1 < length src" for q
    proof -
      have "drop p' src ! (q - p') \<in> set (drop p' src)" using that by (intro nth_mem) simp
      then show ?thesis using no that by auto
    qed
    then have "redacts src p' c []" using assms(2,3) by (auto simp: redacts_def)
    then show ?thesis using None sl le assms
      by (intro exI[of _ "[]"]) (simp add: finish_redact_ok)
  next
    case (Some k)
    have k: "p' + k < length src" "src ! (p' + k) = CHR ''@''" "CHR ''@'' \<notin> set (take k (drop p' src))"
      using index_byte_SomeD[OF Some] by auto
    obtain rs where rs: "redact_loop fuel src (int (p' + k)) (int c) dst n =
          Some (Inr (dst @ redact_ranges src c rs, n + length rs))" "redacts src (p' + k) c rs"
      using IH[OF k(1,2)] by blast
    have "src ! q \<noteq> CHR ''@''" if "p' \<le> q" "q < p' + k" for q
    proof -
      have "take k (drop p' src) ! (q - p') \<in> set (take k (drop p' src))"
        using that k(1) by (intro nth_mem) simp
      then show ?thesis using k that by auto
    qed
    then have "redacts src p' c rs" using rs(2) unfolding redacts_def by (meson not_le)
    then show ?thesis using Some sl le rs(1) by (intro exI[of _ rs]) simp
  qed
qed

lemma redact_loop_ok:
  assumes "p < length src" and "src ! p = CHR ''@''" and "c \<le> p" and "length src - p < fuel"
  shows "\<exists>rs. redact_loop fuel src (int p) (int c) dst n =
     Some (Inr (dst @ redact_ranges src c rs, n + length rs)) \<and> redacts src p c rs"
  using assms
proof (induction fuel arbitrary: p c dst n)
  case 0
  then show ?case by simp
next
  case (Suc fuel)
  show ?case
  proof (cases "p + 1 < length src")
    case False
    then have "redacts src p c []" using Suc.prems by (auto simp: redacts_def)
    then show ?thesis using False Suc.prems
      by (intro exI[of _ "[]"]) (simp add: finish_redact_ok)
  next
    case True
    have loop: "redact_loop (Suc fuel) src (int p) (int c) dst n =
       (case redact_step src (int p) (int c) dst n of
           Inl p \<Rightarrow> Some (Inl p)
         | Inr (sAt', sCopied', dst', n') \<Rightarrow>
             if sAt' > int (length src) - 1 then Some (finish_redact src sCopied' dst' n')
             else (case go_slice src sAt' (int (length src)) of
                     Inl p \<Rightarrow> Some (Inl p)
                   | Inr rest \<Rightarrow>
                       (case index_byte (CHR ''@'') rest of
                          None \<Rightarrow> Some (finish_redact src sCopied' dst' n')
                        | Some nextAt \<Rightarrow> redact_loop fuel src (sAt' + int nextAt) sCopied' dst' n')))"
      using True by simp
    have next_at: "\<exists>rs. redact_loop fuel src (int (p' + k)) (int c') dst' n' =
          Some (Inr (dst' @ redact_ranges src c' rs, n' + length rs)) \<and> redacts src (p' + k) c' rs"
      if "p' + k < length src" "src ! (p' + k) = CHR ''@''" "p < p'" "c' \<le> p'" for p' k c' dst' n'
      using Suc.prems that by (intro Suc.IH) auto
    have skip: ?thesis
      if step: "redact_step src (int p) (int c) dst n = Inr (int (p + 1), int c, dst, n)" and "skipped src p"
    proof -
      obtain rs where rs: "(if int (p + 1) > int (length src) - 1 then Some (finish_redact src (int c) dst n)
             else (case go_slice src (int (p + 1)) (int (length src)) of
                     Inl p \<Rightarrow> Some (Inl p)
                   | Inr rest \<Rightarrow>
                       (case index_byte (CHR ''@'') rest of
                          None \<Rightarrow> Some (finish_redact src (int c) dst n)
                        | Some nextAt \<Rightarrow> redact_loop fuel src (int (p + 1) + int nextAt) (int c) dst n)))
          = Some (Inr (dst @ redact_ranges src c rs, n + length rs))" "redacts src (p + 1) c rs"
        using redact_next[of "p + 1" src fuel c dst n] next_at[of "p + 1"] Suc.prems True by auto
      have "redacts src p c rs"
        unfolding redacts_def
      proof (intro conjI allI impI)
        show "ranges_ok src c rs" using rs(2) by (simp add: redacts_def)
        fix q
        assume q: "p \<le> q \<and> q + 1 < length src \<and> src ! q = CHR ''@''"
        then have "q = p \<or> p + 1 \<le> q" by linarith
        then show "in_ranges q rs \<or> skipped src q"
          using rs(2) q \<open>skipped src p\<close> by (auto simp: redacts_def)
      qed
      then show ?thesis unfolding loop step sum.case prod.case rs(1) by blast
    qed
    show ?thesis
    proof (cases "0 < p \<and> valid_word_char (src ! (p - 1)) \<and> valid_word_char (src ! (p + 1))")
      case False
      then have w: "words_around src (int p) = Inr False" using words_around_ok[OF True] by simp
      show ?thesis by (rule skip) (auto simp: redact_step_def w skipped_def)
    next
      case ww: True
      then have w: "words_around src (int p) = Inr True" using words_around_ok[OF True] by simp
      obtain r where r: "redact_find_email_boundary src (int p) (int c) = Inr r"
        "\<forall>s e. r = Some (s, e) \<longrightarrow> int c \<le> s \<and> s \<le> int p \<and> int p + 1 < e \<and> e \<le> int (length src) \<and>
          (\<forall>k. s \<le> int k \<and> int k < e \<and> k \<noteq> p \<longrightarrow> valid_address_char (src ! k))"
        using boundary_ok[OF Suc.prems(3) True] by blast
      show ?thesis
      proof (cases r)
        case None
        then have "skipped src p" using r(1) Suc.prems(3) by (auto simp: skipped_def)
        then show ?thesis by (rule skip[rotated]) (simp add: redact_step_def w r(1) None)
      next
        case (Some se)
        define s e where "s = nat (fst se)" and "e = nat (snd se)"
        have se: "int c \<le> fst se" "fst se \<le> int p" "int p + 1 < snd se" "snd se \<le> int (length src)"
          "\<And>k. fst se \<le> int k \<Longrightarrow> int k < snd se \<Longrightarrow> k \<noteq> p \<Longrightarrow> valid_address_char (src ! k)"
          using r(2) Some by (auto simp: prod_eq_iff)
        have ints: "fst se = int s" "snd se = int e" using se by (auto simp: s_def e_def)
        have b: "c \<le> s" "s \<le> p" "p + 1 < e" "e \<le> length src"
          "\<And>k. s \<le> k \<Longrightarrow> k < e \<Longrightarrow> k \<noteq> p \<Longrightarrow> valid_address_char (src ! k)"
          using se unfolding ints by auto
        have sl: "go_slice src (int c) (int s) = Inr (take (s - c) (drop c src))"
          using b by simp
        let ?dst = "dst @ take (s - c) (drop c src) @ ''REDACTED''"
        have step: "redact_step src (int p) (int c) dst n = Inr (int e, int e, ?dst, n + 1)"
          using Some ints sl by (simp add: redact_step_def w r(1) case_prod_unfold)
        have "\<exists>rs. (if int e > int (length src) - 1 then Some (finish_redact src (int e) ?dst (n + 1))
             else (case go_slice src (int e) (int (length src)) of
                     Inl p \<Rightarrow> Some (Inl p)
                   | Inr rest \<Rightarrow>
                       (case index_byte (CHR ''@'') rest of
                          None \<Rightarrow> Some (finish_redact src (int e) ?dst (n + 1))
                        | Some nextAt \<Rightarrow> redact_loop fuel src (int e + int nextAt) (int e) ?dst (n + 1))))
          = Some (Inr (?dst @ redact_ranges src e rs, n + 1 + length rs)) \<and> redacts src e e rs"
          by (rule redact_next, rule next_at) (use b in auto)
        then obtain rs where rs: "(if int e > int (length src) - 1 then Some (finish_redact src (int e) ?dst (n + 1))
             else (case go_slice src (int e) (int (length src)) of
                     Inl p \<Rightarrow> Some (Inl p)
                   | Inr rest \<Rightarrow>
                       (case index_byte (CHR ''@'') rest of
                          None \<Rightarrow> Some (finish_redact src (int e) ?dst (n + 1))
                        | Some nextAt \<Rightarrow> redact_loop fuel src (int e + int nextAt) (int e) ?dst (n + 1))))
          = Some (Inr (?dst @ redact_ranges src e rs, n + 1 + length rs))" "redacts src e e rs"
          by blast
        have at: "address_at src s p e"
          using ww Suc.prems(2) b by (auto simp: address_at_def)
        then have "address_range src s e" using Suc.prems(1) by (auto simp: address_range_def)
        then have "redacts src p c ((s, e) # rs)"
          using rs(2) b by (auto simp: redacts_def not_less)
        then show ?thesis
          unfolding loop step sum.case prod.case rs(1) by (intro exI[of _ "(s, e) # rs"]) simp
      qed
    qed
  qed
qed

lemma find_first_from_ok:
  assumes "p < length src" and "src ! p = CHR ''@''"
  shows "\<exists>r. redact_find_first_from src (int p) = Inr r \<and>
     (\<forall>a. r = Some a \<longrightarrow> (\<exists>q. a = int q \<and> p \<le> q \<and> q < length src \<and> src ! q = CHR ''@'')) \<and>
     (\<forall>q. p \<le> q \<and> q + 1 < length src \<and> src ! q = CHR ''@'' \<and> (\<forall>a. r = Some a \<longrightarrow> int q < a) \<longrightarrow> skipped src q)"
  using assms
proof (induction "length src - p" arbitrary: p rule: less_induct)
  case less
  show ?case
  proof (cases "p + 1 < length src")
    case False
    then show ?thesis using less.prems by (subst redact_find_first_from.simps) auto
  next
    case True
    obtain w where w: "words_around src (int p) = Inr w" using words_around_ok[OF True] by blast
    show ?thesis
    proof (cases w)
      case wt: True
      then have "redact_find_first_from src (int p) = Inr (Some (int p))"
        using w True by (subst redact_find_first_from.simps) simp
      then show ?thesis using less.prems by auto
    next
      case wf: False
      then have sk: "skipped src p" using w by (simp add: skipped_def)
      have sl: "go_slice src (int p + 1) (int (length src)) = Inr (drop (p + 1) src)"
        using True go_slice_nat[of "p + 1" "length src" src] by (simp add: ac_simps)
      have cases: "q = p \<or> p + 1 \<le> q" if "p \<le> q" for q using that by linarith
      show ?thesis
      proof (cases "index_byte (CHR ''@'') (drop (p + 1) src)")
        case None
        then have no: "CHR ''@'' \<notin> set (drop (p + 1) src)" by (simp add: index_byte_None)
        have none: "src ! q \<noteq> CHR ''@''" if "p + 1 \<le> q" "q + 1 < length src" for q
        proof -
          have "drop (p + 1) src ! (q - (p + 1)) \<in> set (drop (p + 1) src)"
            using that by (intro nth_mem) simp
          then show ?thesis using no that by auto
        qed
        have "redact_find_first_from src (int p) = Inr None"
          using w wf True sl None by (subst redact_find_first_from.simps) simp
        moreover have "skipped src q" if "p \<le> q" "q + 1 < length src" "src ! q = CHR ''@''" for q
          using cases[OF that(1)] none that sk by blast
        ultimately show ?thesis by auto
      next
        case (Some k)
        have k: "p + 1 + k < length src" "src ! (p + 1 + k) = CHR ''@''"
          "CHR ''@'' \<notin> set (take k (drop (p + 1) src))"
          using index_byte_SomeD[OF Some] by auto
        have none: "src ! q \<noteq> CHR ''@''" if "p + 1 \<le> q" "q < p + 1 + k" for q
        proof -
          have "take k (drop (p + 1) src) ! (q - (p + 1)) \<in> set (take k (drop (p + 1) src))"
            using that k(1) by (intro nth_mem) simp
          then show ?thesis using k that by auto
        qed
        have shorter: "length src - (p + 1 + k) < length src - p" using True by linarith
        obtain r where r: "redact_find_first_from src (int (p + 1 + k)) = Inr r"
          "\<forall>a. r = Some a \<longrightarrow> (\<exists>q. a = int q \<and> p + 1 + k \<le> q \<and> q < length src \<and> src ! q = CHR ''@'')"
          "\<forall>q. p + 1 + k \<le> q \<and> q + 1 < length src \<and> src ! q = CHR ''@'' \<and> (\<forall>a. r = Some a \<longrightarrow> int q < a) \<longrightarrow> skipped src q"
          using less.hyps[OF shorter k(1,2)] by blast
        have "redact_find_first_from src (int p) = Inr r"
          using w wf True sl Some r(1) by (subst redact_find_first_from.simps) (simp add: ac_simps)
        moreover have "skipped src q"
          if h: "p \<le> q" "q + 1 < length src" "src ! q = CHR ''@''" "\<forall>a. r = Some a \<longrightarrow> int q < a" for q
        proof -
          consider "q = p" | "p + 1 \<le> q" "q < p + 1 + k" | "p + 1 + k \<le> q" using h(1) by linarith
          then show ?thesis
          proof cases
            case 1
            then show ?thesis using sk by simp
          next
            case 2
            then show ?thesis using none h(3) by blast
          next
            case 3
            then show ?thesis using r(3) h by blast
          qed
        qed
        moreover have "\<forall>a. r = Some a \<longrightarrow> (\<exists>q. a = int q \<and> p \<le> q \<and> q < length src \<and> src ! q = CHR ''@'')"
          using r(2) by fastforce
        ultimately show ?thesis by blast
      qed
    qed
  qed
qed

lemma redact_email_correct:
  "\<exists>rs. redact_email src = Some (Inr (redact_ranges src 0 rs)) \<and> redacts src 0 0 rs"
proof (cases "index_byte (CHR ''@'') src")
  case None
  then have no: "CHR ''@'' \<notin> set src" by (simp add: index_byte_None)
  have "redact_email_find_first src = Inr None"
  proof (cases "src = []")
    case True
    then show ?thesis using None by (simp add: redact_email_find_first_def redact_find_first_from.simps)
  next
    case False
    then have "redact_find_first_from src (- 1) = Inr None"
      using None by (subst redact_find_first_from.simps) (simp add: words_around_def)
    then show ?thesis using None by (simp add: redact_email_find_first_def)
  qed
  moreover have "redacts src 0 0 []" using no by (auto simp: redacts_def) (metis Suc_lessD nth_mem)
  ultimately show ?thesis by (intro exI[of _ "[]"]) (simp add: redact_email_def)
next
  case (Some p)
  have p: "p < length src" "src ! p = CHR ''@''" "CHR ''@'' \<notin> set (take p src)"
    using index_byte_SomeD[OF Some] by auto
  have before: "src ! q \<noteq> CHR ''@''" if "q < p" for q
    using p that by (metis in_set_conv_nth length_take min.absorb4 nth_take)
  obtain r where r: "redact_find_first_from src (int p) = Inr r"
     "\<forall>a. r = Some a \<longrightarrow> (\<exists>q. a = int q \<and> p \<le> q \<and> q < length src \<and> src ! q = CHR ''@'')"
     "\<forall>q. p \<le> q \<and> q + 1 < length src \<and> src ! q = CHR ''@'' \<and> (\<forall>a. r = Some a \<longrightarrow> int q < a) \<longrightarrow> skipped src q"
    using find_first_from_ok[OF p(1,2)] by blast
  have ff: "redact_email_find_first src = Inr r" using Some r(1) by (simp add: redact_email_find_first_def)
  show ?thesis
  proof (cases r)
    case None
    have "redacts src 0 0 []" using r(3) None before by (auto simp: redacts_def) (metis not_le)
    then show ?thesis using ff None by (intro exI[of _ "[]"]) (simp add: redact_email_def)
  next
    case (Some a)
    obtain q where q: "a = int q" "p \<le> q" "q < length src" "src ! q = CHR ''@''" using r(2) Some by blast
    have fuel: "length src - q < length src + 1" by simp
    obtain rs where rs: "redact_loop (length src + 1) src (int q) (int 0) [] 0 =
      Some (Inr ([] @ redact_ranges src 0 rs, 0 + length rs))" "redacts src q 0 rs"
      using redact_loop_ok[OF q(3,4) zero_le fuel] by blast
    have "redacts src 0 0 rs"
      unfolding redacts_def
    proof (intro conjI allI impI)
      show "ranges_ok src 0 rs" using rs(2) by (simp add: redacts_def)
      fix t
      assume t: "0 \<le> t \<and> t + 1 < length src \<and> src ! t = CHR ''@''"
      consider "t < p" | "p \<le> t" "t < q" | "q \<le> t" by linarith
      then show "in_ranges t rs \<or> skipped src t"
      proof cases
        case 1
        then show ?thesis using before t by blast
      next
        case 2
        then show ?thesis using r(3) t Some q(1) by auto
      next
        case 3
        then show ?thesis using rs(2) t by (auto simp: redacts_def)
      qed
    qed
    then show ?thesis using ff Some q(1) rs(1)
      by (intro exI[of _ rs]) (simp add: redact_email_def redact_email1_def del: redact_loop.simps)
  qed
qed


lemma redact_email_find_first_ok:
  "\<exists>r. redact_email_find_first src = Inr r \<and>
     (\<forall>a. r = Some a \<longrightarrow> (\<exists>q. a = int q \<and> q < length src \<and> src ! q = CHR ''@''))"
proof (cases "index_byte (CHR ''@'') src")
  case None
  have "redact_email_find_first src = Inr None"
  proof (cases "src = []")
    case True
    then show ?thesis using None by (simp add: redact_email_find_first_def redact_find_first_from.simps)
  next
    case False
    then have "redact_find_first_from src (- 1) = Inr None"
      using None by (subst redact_find_first_from.simps) (simp add: words_around_def)
    then show ?thesis using None by (simp add: redact_email_find_first_def)
  qed
  then show ?thesis by simp
next
  case (Some p)
  then have "p < length src" "src ! p = CHR ''@''" using index_byte_SomeD by fastforce+
  from find_first_from_ok[OF this] show ?thesis
    using Some by (auto simp: redact_email_find_first_def)
qed

lemma redact_email1_ok:
  assumes "q < length src" and "src ! q = CHR ''@''"
  shows "\<exists>rs. redact_email1 src (int q) = Some (Inr (redact_ranges src 0 rs, length rs)) \<and>
     redacts src q 0 rs"
proof -
  have fuel: "length src - q < length src + 1" by simp
  have "\<exists>rs. redact_loop (length src + 1) src (int q) (int 0) [] 0 =
      Some (Inr ([] @ redact_ranges src 0 rs, 0 + length rs)) \<and> redacts src q 0 rs"
    by (rule redact_loop_ok[OF assms zero_le fuel])
  then show ?thesis by (simp add: redact_email1_def del: redact_loop.simps)
qed

section \<open>Properties\<close>



end
