(* ===== verification/Extract_Special.thy ===== *)
theory Extract_Special
  imports Unescape Log_Record
begin

text \<open>
  The pattern extractor of \<open>transform/textractspecial/stringextractor.go\<close>. A pattern has one
  wildcard, \<open>*\<close> or a bracket class, between two literal boundaries. The byte loop that fills a
  character range never ends when the range ends at byte 255; it runs on fuel, and \<^term>\<open>None\<close>
  is that it has not returned. The table has 256 entries, so indexing it by a byte is safe.
\<close>

section \<open>Character classes\<close>

type_synonym char_table = "bool list"

text \<open>\<open>for rc := expr[i-2]; rc <= c; rc++ { table[rc] = listedValue }\<close> on bytes.\<close>

fun fill_range :: "nat \<Rightarrow> char_table \<Rightarrow> 8 word \<Rightarrow> 8 word \<Rightarrow> bool \<Rightarrow> char_table option" where
  "fill_range 0 table rc c v = None"
| "fill_range (Suc fuel) table rc c v =
     (if rc \<le> c then fill_range fuel (table[unat rc := v]) (rc + 1) c v else Some table)"

function fill_loop ::
  "nat \<Rightarrow> bytes \<Rightarrow> nat \<Rightarrow> char_table \<Rightarrow> bool \<Rightarrow> bool \<Rightarrow> char_table cfg option" where
  "fill_loop fuel expr i table rangeStarted listed =
     (if i < length expr then
        (let c = expr ! i in
         if c = CHR ''-'' then
           (if rangeStarted then Some (Inl (InvalidValue ''double hyphen''))
            else if i > 0 \<and> i < length expr - 1
            then fill_loop fuel expr (i + 1) table True listed
            else fill_loop fuel expr (i + 1) (table[code_of (CHR ''-'') := listed]) False listed)
         else if rangeStarted then
           (case fill_range fuel table (char_byte (expr ! (i - 2))) (char_byte c) listed of
              None \<Rightarrow> None
            | Some table' \<Rightarrow> fill_loop fuel expr (i + 1) table' False listed)
         else fill_loop fuel expr (i + 1) (table[code_of c := listed]) False listed)
      else Some (Inr table))"
  by auto
termination
  by (relation "measure (\<lambda>(f, expr, i, t, r, l). length expr - i)") auto

declare fill_loop.simps [simp del] fill_range.simps(2) [simp del]

definition pattern_unescaper :: unescaper where
  "pattern_unescaper = new_unescaper (CHR 0x5C)
     [(CHR ''['', CHR ''[''), (CHR '']'', CHR '']''), (CHR ''*'', CHR ''*'')]"

text \<open>A byte range has at most 256 bytes, so 257 steps decide it.\<close>

definition byte_fuel :: nat where
  "byte_fuel = 257"

definition fill_valid_chars :: "char_table \<Rightarrow> bytes \<Rightarrow> char_table cfg go option" where
  "fill_valid_chars table expression =
     (if expression = [] then Some (Inr (Inr table))
      else case go_slice expression 1 (int (length expression) - 1) of
             Inl p \<Rightarrow> Some (Inl p)
           | Inr inner \<Rightarrow>
               (case unescape_run pattern_unescaper inner of
                  Inl p \<Rightarrow> Some (Inl p)
                | Inr expr \<Rightarrow>
                    if expr = [] then Some (Inr (Inl (InvalidValue ''empty expression'')))
                    else if hd expr = CHR ''^''
                    then map_option Inr
                           (fill_loop byte_fuel (tl expr) 0 (replicate (length table) True) False False)
                    else map_option Inr
                           (fill_loop byte_fuel expr 0 (replicate (length table) False) False True)))"

section \<open>Extractors\<close>

datatype extractor_position = ExtractFromStart | ExtractFromEnd

record string_extractor =
  position :: extractor_position
  leftBound :: bytes
  rightBound :: bytes
  maxRange :: int
  validChars :: "char_table option"

text \<open>\<open>splitPattern\<close>: the left boundary, the wildcard and the right boundary.\<close>

definition split_pattern :: "bytes \<Rightarrow> bytes list cfg go" where
  "split_pattern pattern =
     go_bind (find_first_unescaped pattern_unescaper pattern (CHR ''*'')) (\<lambda>star.
       case star of
         Some i \<Rightarrow>
           go_bind (unescape_run pattern_unescaper (take i pattern)) (\<lambda>left.
           go_bind (unescape_run pattern_unescaper (drop (i + 1) pattern)) (\<lambda>right.
             Inr (Inr [left, ''*'', right])))
       | None \<Rightarrow>
           go_bind (find_first_unescaped pattern_unescaper pattern (CHR ''['')) (\<lambda>bracket.
             case bracket of
               None \<Rightarrow> Inr (Inl (InvalidValue ''no wildcard or bracket''))
             | Some bstart \<Rightarrow>
                 go_bind (unescape_run pattern_unescaper (take bstart pattern)) (\<lambda>left.
                 go_bind (find_first_unescaped pattern_unescaper (drop (bstart + 1) pattern) (CHR '']'')) (\<lambda>close.
                   case close of
                     None \<Rightarrow> Inr (Inl (InvalidValue ''bracket not closed''))
                   | Some n \<Rightarrow>
                       let bend = n + bstart + 1 in
                       go_bind (go_slice pattern (int bstart) (int bend + 1)) (\<lambda>inside.
                       go_bind (unescape_run pattern_unescaper (drop (bend + 1) pattern)) (\<lambda>right.
                         Inr (Inr [left, inside, right])))))))"

definition new_string_extractor ::
  "extractor_position \<Rightarrow> bytes list \<Rightarrow> int \<Rightarrow> string_extractor cfg go option" where
  "new_string_extractor pos parts maxR =
     (case parts of
        [left, wildcard, right] \<Rightarrow>
          if wildcard = [] then Some (Inr (Inl (InvalidValue ''patternParts[1] must not be empty'')))
          else if wildcard = ''*'' then
            Some (Inr (Inr \<lparr>position = pos, leftBound = left, rightBound = right,
                            maxRange = maxR, validChars = None\<rparr>))
          else if length wildcard < 2 \<or> hd wildcard \<noteq> CHR ''['' \<or> last wildcard \<noteq> CHR '']'' then
            Some (Inr (Inl (InvalidValue ''patternParts[1] must be * or [...]'')))
          else
            map_option (\<lambda>r. go_bind r (\<lambda>t. case t of
                Inl e \<Rightarrow> Inr (Inl e)
              | Inr table \<Rightarrow> Inr (Inr \<lparr>position = pos, leftBound = left, rightBound = right,
                                      maxRange = maxR, validChars = Some table\<rparr>)))
              (fill_valid_chars (replicate 256 False) wildcard)
      | _ \<Rightarrow> Some (Inr (Inl (InvalidValue ''must have 3 parts''))))"

definition new_string_extractor_simple ::
  "extractor_position \<Rightarrow> bytes \<Rightarrow> int \<Rightarrow> string_extractor cfg go option" where
  "new_string_extractor_simple pos pattern maxR =
     (case split_pattern pattern of
        Inl p \<Rightarrow> Some (Inl p)
      | Inr (Inl e) \<Rightarrow> Some (Inr (Inl e))
      | Inr (Inr parts) \<Rightarrow> new_string_extractor pos parts maxR)"

subsection \<open>Matching\<close>

definition valid_at :: "char_table option \<Rightarrow> char \<Rightarrow> bool go" where
  "valid_at table c =
     (case table of None \<Rightarrow> Inl IndexOutOfRange | Some t \<Rightarrow> go_index t (int (code_of c)))"

text \<open>\<open>matchValidCharsFromStart\<close>: the length of the longest valid prefix;
  \<open>matchValidCharsFromEnd\<close>: where the longest valid suffix begins.\<close>

fun match_valid_from_start :: "char_table option \<Rightarrow> bytes \<Rightarrow> nat go" where
  "match_valid_from_start table [] = Inr 0"
| "match_valid_from_start table (c # cs) =
     go_bind (valid_at table c) (\<lambda>v.
       if \<not> v then Inr 0
       else go_bind (match_valid_from_start table cs) (\<lambda>n. Inr (Suc n)))"

definition match_valid_from_end :: "char_table option \<Rightarrow> bytes \<Rightarrow> nat go" where
  "match_valid_from_end table s =
     go_bind (match_valid_from_start table (rev s)) (\<lambda>n. Inr (length s - n))"

definition is_blank :: "char \<Rightarrow> bool" where
  "is_blank c \<longleftrightarrow> code_of c \<le> 32"

definition trim_blanks :: "bytes \<Rightarrow> bytes" where
  "trim_blanks s = rev (dropWhile is_blank (rev (dropWhile is_blank s)))"

text \<open>The fail-fast test on one byte: \<open>validChars != nil && !validChars[c]\<close>.\<close>

definition fails_fast :: "char_table option \<Rightarrow> char \<Rightarrow> bool go" where
  "fails_fast table c =
     (case table of None \<Rightarrow> Inr False | Some t \<Rightarrow> go_bind (valid_at table c) (\<lambda>v. Inr (\<not> v)))"

definition extract_label_at_start ::
  "bytes \<Rightarrow> bytes \<Rightarrow> bytes \<Rightarrow> int \<Rightarrow> char_table option \<Rightarrow> (bytes \<times> bytes) go" where
  "extract_label_at_start text left right maxR table =
     (if left \<noteq> [] \<and> \<not> has_prefix text left then Inr ([], text)
      else
        let s = drop (length left) text in
        go_bind (if s = [] then Inr False else fails_fast table (hd s)) (\<lambda>ff.
        if ff then Inr ([], text)
        else
          go_bind (if int (length s) > maxR then go_slice s 0 maxR else Inr s) (\<lambda>maxS.
          if right \<noteq> [] then
            (case str_index maxS right of
               None \<Rightarrow> Inr ([], text)
             | Some iend \<Rightarrow>
                 let tag = take iend s; found = Inr (trim_blanks tag, drop (iend + length right) s) in
                 if table = None then found
                 else go_bind (match_valid_from_start table tag) (\<lambda>n.
                   if n \<noteq> length tag then Inr ([], text) else found))
          else
            go_bind (match_valid_from_start table maxS) (\<lambda>tagEnd.
              if tagEnd = 0 then Inr ([], text)
              else Inr (trim_blanks (take tagEnd s), drop tagEnd s)))))"

definition extract_label_at_end ::
  "bytes \<Rightarrow> bytes \<Rightarrow> bytes \<Rightarrow> int \<Rightarrow> char_table option \<Rightarrow> (bytes \<times> bytes) go" where
  "extract_label_at_end text left right maxR table =
     (if right \<noteq> [] \<and> \<not> has_suffix text right then Inr ([], text)
      else
        let s = take (length text - length right) text in
        go_bind (if s = [] then Inr False else fails_fast table (last s)) (\<lambda>ff.
        if ff then Inr ([], text)
        else
          let off = (if int (length s) > maxR then int (length s) - maxR else 0) in
          go_bind (go_slice s off (int (length s))) (\<lambda>maxS.
          if left \<noteq> [] then
            (case str_last_index maxS left of
               None \<Rightarrow> Inr ([], text)
             | Some i \<Rightarrow>
                 let iend = i + nat off; tag = drop (iend + length left) s;
                     found = Inr (trim_blanks tag, take iend s) in
                 if table = None then found
                 else go_bind (match_valid_from_end table tag) (\<lambda>n.
                   if n \<noteq> 0 then Inr ([], text) else found))
          else
            go_bind (match_valid_from_end table maxS) (\<lambda>n.
              let tagBeg = nat off + n in
              if tagBeg = length s then Inr ([], text)
              else Inr (trim_blanks (drop tagBeg s), take tagBeg s)))))"

definition extract_string :: "string_extractor \<Rightarrow> bytes \<Rightarrow> (bytes \<times> bytes) go" where
  "extract_string ex text =
     (case position ex of
        ExtractFromStart \<Rightarrow>
          extract_label_at_start text (leftBound ex) (rightBound ex) (maxRange ex) (validChars ex)
      | ExtractFromEnd \<Rightarrow>
          extract_label_at_end text (leftBound ex) (rightBound ex) (maxRange ex) (validChars ex))"

section \<open>What an extraction returns\<close>

definition table_ok :: "char_table option \<Rightarrow> bool" where
  "table_ok table \<longleftrightarrow> (case table of None \<Rightarrow> True | Some t \<Rightarrow> length t = 256)"

definition allowed :: "char_table option \<Rightarrow> char \<Rightarrow> bool" where
  "allowed table c \<longleftrightarrow> (case table of None \<Rightarrow> True | Some t \<Rightarrow> t ! code_of c)"

lemma valid_at_ok: "length t = 256 \<Longrightarrow> valid_at (Some t) c = Inr (allowed (Some t) c)"
  using go_index_nat[of "code_of c" t] by (simp add: valid_at_def allowed_def)

lemma match_valid_from_start_ok:
  "length t = 256 \<Longrightarrow>
     match_valid_from_start (Some t) s = Inr (length (takeWhile (allowed (Some t)) s))"
  by (induction s) (auto simp: valid_at_ok)

lemma match_valid_from_end_ok:
  "length t = 256 \<Longrightarrow>
     match_valid_from_end (Some t) s = Inr (length s - length (takeWhile (allowed (Some t)) (rev s)))"
  by (simp add: match_valid_from_end_def match_valid_from_start_ok)

lemma fails_fast_ok: "table_ok table \<Longrightarrow> fails_fast table c = Inr (\<not> allowed table c)"
  by (cases table) (auto simp: fails_fast_def table_ok_def valid_at_ok allowed_def)

text \<open>An extraction that changes the text has removed one label between the boundaries.\<close>

definition extracted_at_start :: "string_extractor \<Rightarrow> bytes \<Rightarrow> bytes \<Rightarrow> bytes \<Rightarrow> bool" where
  "extracted_at_start ex text label rest \<longleftrightarrow>
     (\<exists>tag. text = leftBound ex @ tag @ rightBound ex @ rest \<and> label = trim_blanks tag \<and>
        list_all (allowed (validChars ex)) tag \<and> int (length tag) \<le> maxRange ex)"

definition extracted_at_end :: "string_extractor \<Rightarrow> bytes \<Rightarrow> bytes \<Rightarrow> bytes \<Rightarrow> bool" where
  "extracted_at_end ex text label rest \<longleftrightarrow>
     (\<exists>tag. text = rest @ leftBound ex @ tag @ rightBound ex \<and> label = trim_blanks tag \<and>
        list_all (allowed (validChars ex)) tag \<and> int (length tag) \<le> maxRange ex)"

lemma has_prefix_drop: "has_prefix s p \<Longrightarrow> s = p @ drop (length p) s"
  by (auto simp: has_prefix_iff)

lemma has_suffix_take: "has_suffix s p \<Longrightarrow> s = take (length s - length p) s @ p"
  by (auto simp: has_suffix_iff)

lemma list_all_takeWhile [simp]: "list_all P (takeWhile P xs)"
  by (auto simp: list_all_iff dest: set_takeWhileD)

lemma takeWhile_whole: "length (takeWhile P xs) = length xs \<longleftrightarrow> list_all P xs"
proof
  assume "length (takeWhile P xs) = length xs"
  then have "takeWhile P xs = xs" by (metis append_eq_conv_conj takeWhile_dropWhile_id take_all order_refl)
  then show "list_all P xs" by (metis list_all_takeWhile)
next
  assume "list_all P xs"
  then have "takeWhile P xs = xs" by (simp add: takeWhile_eq_all_conv list_all_iff)
  then show "length (takeWhile P xs) = length xs" by (rule arg_cong)
qed

lemma extract_at_start_correct:
  assumes "table_ok (validChars ex)" and "0 \<le> maxRange ex"
    and "rightBound ex \<noteq> [] \<or> validChars ex \<noteq> None"
  shows "\<exists>label rest. extract_label_at_start text (leftBound ex) (rightBound ex) (maxRange ex)
       (validChars ex) = Inr (label, rest) \<and>
     ((label, rest) = ([], text) \<or> extracted_at_start ex text label rest)"
proof (cases "leftBound ex \<noteq> [] \<and> \<not> has_prefix text (leftBound ex)")
  case True
  then show ?thesis by (simp add: extract_label_at_start_def)
next
  case False
  define s where "s = drop (length (leftBound ex)) text"
  have tx: "text = leftBound ex @ s" using False by (auto simp: s_def dest: has_prefix_drop)
  define maxS where "maxS = (if int (length s) > maxRange ex then take (nat (maxRange ex)) s else s)"
  have maxS: "(if int (length s) > maxRange ex then go_slice s 0 (maxRange ex) else Inr s) = Inr maxS"
    using assms(2) by (auto simp: maxS_def go_slice_def)
  have short: "int (length maxS) \<le> maxRange ex" "\<exists>z. s = maxS @ z"
    using assms(2) by (auto simp: maxS_def) (metis append_take_drop_id)
  define ff where "ff = (s \<noteq> [] \<and> \<not> allowed (validChars ex) (hd s))"
  have ff: "(if s = [] then Inr False else fails_fast (validChars ex) (hd s)) = Inr ff"
    using fails_fast_ok[OF assms(1)] by (simp add: ff_def)
  note * = extract_label_at_start_def[of "text" "leftBound ex" "rightBound ex" "maxRange ex" "validChars ex",
      folded s_def, unfolded Let_def, unfolded ff, unfolded maxS]
  show ?thesis
  proof (cases ff)
    case True
    then show ?thesis unfolding * using False by simp
  next
    case nff: False
    show ?thesis
    proof (cases "rightBound ex = []")
      case True
      then obtain t where t: "validChars ex = Some t" "length t = 256"
        using assms by (auto simp: table_ok_def)
      let ?n = "length (takeWhile (allowed (Some t)) maxS)"
      have m: "match_valid_from_start (validChars ex) maxS = Inr ?n"
        using match_valid_from_start_ok[OF t(2)] t(1) by simp
      have "take ?n s = takeWhile (allowed (Some t)) maxS"
        using short(2) by (metis append_eq_conv_conj append_assoc takeWhile_dropWhile_id)
      moreover have "?n \<le> length maxS" by (rule length_takeWhile_le)
      ultimately have "extracted_at_start ex text (trim_blanks (take ?n s)) (drop ?n s)"
        unfolding extracted_at_start_def using tx True t(1) short(1) append_take_drop_id[of ?n s]
        by (intro exI[of _ "take ?n s"]) auto
      then show ?thesis unfolding * using False nff True m by auto
    next
      case right: False
      show ?thesis
      proof (cases "str_index maxS (rightBound ex)")
        case None
        then show ?thesis unfolding * using False nff right by simp
      next
        case (Some i)
        have i: "i + length (rightBound ex) \<le> length maxS"
          "maxS = take i maxS @ rightBound ex @ drop (i + length (rightBound ex)) maxS"
          using str_index_SomeD[OF Some] by auto
        obtain z where z: "s = maxS @ z" using short(2) by blast
        have tag: "take i s = take i maxS" using z i(1) by simp
        have dr: "drop (i + length (rightBound ex)) s = drop (i + length (rightBound ex)) maxS @ z"
          using z i(1) by simp
        have "take i s @ rightBound ex @ drop (i + length (rightBound ex)) s =
            (take i maxS @ rightBound ex @ drop (i + length (rightBound ex)) maxS) @ z"
          unfolding tag dr by simp
        then have "s = take i s @ rightBound ex @ drop (i + length (rightBound ex)) s"
          using i(2) z by metis
        then have found: "list_all (allowed (validChars ex)) (take i s) \<Longrightarrow>
            extracted_at_start ex text (trim_blanks (take i s)) (drop (i + length (rightBound ex)) s)"
          unfolding extracted_at_start_def using tx short(1) i(1) z
          by (intro exI[of _ "take i s"]) (auto simp: min_def)
        show ?thesis
        proof (cases "validChars ex")
          case None
          then have "list_all (allowed (validChars ex)) (take i s)" by (simp add: allowed_def list_all_iff)
          then show ?thesis unfolding * using found None False nff right Some by auto
        next
          case (Some t)
          then have t: "length t = 256" using assms(1) by (simp add: table_ok_def)
          have m: "match_valid_from_start (validChars ex) (take i s) =
            Inr (length (takeWhile (allowed (Some t)) (take i s)))"
            unfolding Some by (rule match_valid_from_start_ok[OF t])
          show ?thesis unfolding *
            using found False nff right \<open>str_index maxS _ = Some i\<close> m Some takeWhile_whole[of "allowed (Some t)" "take i s"]
            by auto
        qed
      qed
    qed
  qed
qed


lemma extract_at_end_correct:
  assumes "table_ok (validChars ex)" and "0 \<le> maxRange ex"
    and "leftBound ex \<noteq> [] \<or> validChars ex \<noteq> None"
  shows "\<exists>label rest. extract_label_at_end text (leftBound ex) (rightBound ex) (maxRange ex)
       (validChars ex) = Inr (label, rest) \<and>
     ((label, rest) = ([], text) \<or> extracted_at_end ex text label rest)"
proof (cases "rightBound ex \<noteq> [] \<and> \<not> has_suffix text (rightBound ex)")
  case True
  then show ?thesis by (simp add: extract_label_at_end_def)
next
  case False
  define s where "s = take (length text - length (rightBound ex)) text"
  have tx: "text = s @ rightBound ex" using False by (auto simp: s_def dest: has_suffix_take)
  define off where "off = (if int (length s) > maxRange ex then length s - nat (maxRange ex) else 0)"
  have off: "(if int (length s) > maxRange ex then int (length s) - maxRange ex else 0) = int off"
    using assms(2) by (auto simp: off_def of_nat_diff)
  have le: "off \<le> length s" by (simp add: off_def)
  have short: "int (length s) - int off \<le> maxRange ex" using assms(2) by (auto simp: off_def)
  have maxS: "go_slice s (int off) (int (length s)) = Inr (drop off s)"
    using le by simp
  define ff where "ff = (s \<noteq> [] \<and> \<not> allowed (validChars ex) (last s))"
  have ff: "(if s = [] then Inr False else fails_fast (validChars ex) (last s)) = Inr ff"
    using fails_fast_ok[OF assms(1)] by (simp add: ff_def)
  note * = extract_label_at_end_def[of "text" "leftBound ex" "rightBound ex" "maxRange ex" "validChars ex",
      folded s_def, unfolded Let_def, unfolded ff, unfolded off, unfolded maxS]
  show ?thesis
  proof (cases ff)
    case True
    then show ?thesis unfolding * using False by simp
  next
    case nff: False
    show ?thesis
    proof (cases "leftBound ex = []")
      case True
      then obtain t where t: "validChars ex = Some t" "length t = 256"
        using assms by (auto simp: table_ok_def)
      let ?w = "takeWhile (allowed (Some t)) (rev (drop off s))"
      define n where "n = length (drop off s) - length ?w"
      have m: "match_valid_from_end (validChars ex) (drop off s) = Inr n"
        using match_valid_from_end_ok[OF t(2)] t(1) by (simp add: n_def)
      have wl: "length ?w \<le> length s - off" using length_takeWhile_le[of _ "rev (drop off s)"] by simp
      have "drop n (drop off s) = rev (take (length ?w) (rev (drop off s)))"
        by (simp add: take_rev n_def)
      also have "\<dots> = rev ?w" by (simp add: takeWhile_eq_take[symmetric])
      finally have tag: "drop (off + n) s = rev ?w" by (simp add: add.commute)
      have "list_all (allowed (validChars ex)) (drop (off + n) s)"
        unfolding tag t(1) by (metis list_all_takeWhile list_all_rev)
      moreover have "int (length (drop (off + n) s)) \<le> maxRange ex"
        unfolding tag using wl short le by simp
      moreover have "text = take (off + n) s @ leftBound ex @ drop (off + n) s @ rightBound ex"
        using tx True by simp
      ultimately have "extracted_at_end ex text (trim_blanks (drop (off + n) s)) (take (off + n) s)"
        unfolding extracted_at_end_def by blast
      then show ?thesis unfolding * using False nff True m by auto
    next
      case left: False
      show ?thesis
      proof (cases "str_last_index (drop off s) (leftBound ex)")
        case None
        then show ?thesis unfolding * using False nff left by simp
      next
        case (Some i)
        let ?i = "i + off" and ?j = "i + off + length (leftBound ex)"
        have i: "i + length (leftBound ex) \<le> length (drop off s)"
          "drop off s = take i (drop off s) @ leftBound ex @ drop (i + length (leftBound ex)) (drop off s)"
          using str_last_index_SomeD[OF Some] by auto
        have "s = take off s @ drop off s" by simp
        also have "\<dots> = take off s @ take i (drop off s) @ leftBound ex @ drop ?j s"
          using i(2) by (simp add: ac_simps)
        also have "\<dots> = take ?i s @ leftBound ex @ drop ?j s"
          by (simp only: add.commute[of i off] take_add append_assoc)
        finally have split: "s = take ?i s @ leftBound ex @ drop ?j s" .
        then have whole: "text = take ?i s @ leftBound ex @ drop ?j s @ rightBound ex"
          using tx by (metis append_assoc)
        have "length (drop ?j s) \<le> length s - off" by simp
        then have tl: "int (length (drop ?j s)) \<le> maxRange ex" using short le by linarith
        have found: "list_all (allowed (validChars ex)) (drop ?j s) \<Longrightarrow>
            extracted_at_end ex text (trim_blanks (drop ?j s)) (take ?i s)"
          unfolding extracted_at_end_def using whole tl by blast
        show ?thesis
        proof (cases "validChars ex")
          case None
          then have "list_all (allowed (validChars ex)) (drop ?j s)" by (simp add: allowed_def list_all_iff)
          then show ?thesis unfolding * using found None False nff left Some by auto
        next
          case (Some t)
          then have t: "length t = 256" using assms(1) by (simp add: table_ok_def)
          let ?w = "takeWhile (allowed (Some t)) (rev (drop ?j s))"
          have m: "match_valid_from_end (validChars ex) (drop ?j s) =
            Inr (length (drop ?j s) - length ?w)"
            unfolding Some by (rule match_valid_from_end_ok[OF t])
          have all: "list_all (allowed (validChars ex)) (drop ?j s)" if "length (drop ?j s) - length ?w = 0"
          proof -
            have "length ?w = length (rev (drop ?j s))"
              using that length_takeWhile_le[of "allowed (Some t)" "rev (drop ?j s)"] by simp
            then show ?thesis unfolding takeWhile_whole Some by simp
          qed
          show ?thesis unfolding *
            using all found False nff left \<open>str_last_index (drop off s) _ = Some i\<close> m Some
            by auto
        qed
      qed
    qed
  qed
qed

text \<open>When there is something to extract: a label that is not empty, of allowed bytes, between the
  boundaries and within the maximal range (which counts the far boundary too).\<close>

definition fits_at_start :: "string_extractor \<Rightarrow> bytes \<Rightarrow> bool" where
  "fits_at_start ex text \<longleftrightarrow>
     (\<exists>tag rest. text = leftBound ex @ tag @ rightBound ex @ rest \<and> tag \<noteq> [] \<and>
        list_all (allowed (validChars ex)) tag \<and> int (length tag + length (rightBound ex)) \<le> maxRange ex)"

definition fits_at_end :: "string_extractor \<Rightarrow> bytes \<Rightarrow> bool" where
  "fits_at_end ex text \<longleftrightarrow>
     (\<exists>tag rest. text = rest @ leftBound ex @ tag @ rightBound ex \<and> tag \<noteq> [] \<and>
        list_all (allowed (validChars ex)) tag \<and> int (length tag + length (leftBound ex)) \<le> maxRange ex)"

lemma str_index_first: "\<exists>i. str_index (a @ p @ b) p = Some i \<and> i \<le> length a"
proof (induction a)
  case Nil
  have "has_prefix (p @ b) p" by (auto simp: has_prefix_iff)
  then show ?case by (cases "p @ b") auto
next
  case (Cons x a)
  then show ?case by auto
qed

lemma str_last_index_last:
  "\<exists>i. str_last_index (b @ p @ a) p = Some i \<and> length b \<le> i"
proof -
  obtain i where "str_index (rev a @ rev p @ rev b) (rev p) = Some i" "i \<le> length (rev a)"
    using str_index_first by blast
  then show ?thesis by (simp add: str_last_index_def)
qed

lemma extract_at_start_complete:
  assumes "table_ok (validChars ex)" and "fits_at_start ex text"
    and "rightBound ex \<noteq> [] \<or> validChars ex \<noteq> None"
    and "extract_label_at_start text (leftBound ex) (rightBound ex) (maxRange ex) (validChars ex) =
      Inr (label, rest)"
  shows "rest \<noteq> text"
proof -
  obtain tag z where z: "text = leftBound ex @ tag @ rightBound ex @ z" "tag \<noteq> []"
    "list_all (allowed (validChars ex)) tag" "int (length tag + length (rightBound ex)) \<le> maxRange ex"
    using assms(2) by (auto simp: fits_at_start_def)
  let ?s = "tag @ rightBound ex @ z"
  define m where "m = take (nat (maxRange ex) - length tag - length (rightBound ex)) z"
  have maxS: "(if int (length ?s) > maxRange ex then go_slice ?s 0 (maxRange ex) else Inr ?s) =
      Inr (tag @ rightBound ex @ m)"
    using z(4) by (auto simp: go_slice_def m_def)
  have hd: "allowed (validChars ex) (hd ?s)" using z(2,3) by (cases tag) auto
  have pre: "leftBound ex \<noteq> [] \<longrightarrow> has_prefix text (leftBound ex)" using z(1) by (auto simp: has_prefix_iff)
  have s: "drop (length (leftBound ex)) text = ?s" using z(1) by simp
  have *: "extract_label_at_start text (leftBound ex) (rightBound ex) (maxRange ex) (validChars ex) =
      (if rightBound ex \<noteq> [] then
         (case str_index (tag @ rightBound ex @ m) (rightBound ex) of
            None \<Rightarrow> Inr ([], text)
          | Some iend \<Rightarrow>
              let t = take iend ?s; found = Inr (trim_blanks t, drop (iend + length (rightBound ex)) ?s) in
              if validChars ex = None then found
              else go_bind (match_valid_from_start (validChars ex) t) (\<lambda>n.
                if n \<noteq> length t then Inr ([], text) else found))
       else go_bind (match_valid_from_start (validChars ex) (tag @ rightBound ex @ m)) (\<lambda>tagEnd.
              if tagEnd = 0 then Inr ([], text)
              else Inr (trim_blanks (take tagEnd ?s), drop tagEnd ?s)))"
    unfolding extract_label_at_start_def s Let_def using maxS pre hd fails_fast_ok[OF assms(1)] z(2) by auto
  have short: "length (drop n ?s) < length text" if "0 < n" for n using that z by (cases tag) auto
  show ?thesis
  proof (cases "rightBound ex = []")
    case True
    then obtain t where t: "validChars ex = Some t" "length t = 256"
      using assms(1,3) by (auto simp: table_ok_def)
    have "takeWhile (allowed (Some t)) (tag @ m) \<noteq> []" using z(2,3) t(1) by (cases tag) auto
    then have "rest = drop (length (takeWhile (allowed (Some t)) (tag @ m))) ?s"
      "0 < length (takeWhile (allowed (Some t)) (tag @ m))"
      using assms(4) True t unfolding * by (simp_all add: match_valid_from_start_ok)
    then show ?thesis using short by blast
  next
    case False
    obtain i where i: "str_index (tag @ rightBound ex @ m) (rightBound ex) = Some i" "i \<le> length tag"
      using str_index_first by blast
    have ti: "take i ?s = take i tag" using i(2) by simp
    have "list_all (allowed (validChars ex)) (take i tag)"
      using z(3) by (auto simp: list_all_iff dest: in_set_takeD)
    then have "match_valid_from_start (validChars ex) (take i ?s) = Inr (length (take i ?s))"
      if "validChars ex = Some t" for t
      using that assms(1) takeWhile_whole[of "allowed (validChars ex)" "take i tag"] unfolding ti
      by (auto simp: table_ok_def match_valid_from_start_ok)
    note valid = this
    have "rest = drop (i + length (rightBound ex)) ?s"
    proof (cases "validChars ex")
      case None
      then show ?thesis using assms(4) False unfolding * i(1) Let_def option.case by simp
    next
      case (Some t)
      have "extract_label_at_start text (leftBound ex) (rightBound ex) (maxRange ex) (validChars ex) =
          Inr (trim_blanks (take i ?s), drop (i + length (rightBound ex)) ?s)"
        unfolding * i(1) Let_def option.case valid[OF Some] go_bind_Inr using False Some by (simp only: if_False if_True simp_thms option.distinct)
      from trans[OF assms(4)[symmetric] this]
      have "(label, rest) = (trim_blanks (take i ?s), drop (i + length (rightBound ex)) ?s)" by (rule Inr_inject)
      then show ?thesis by (rule Pair_inject)
    qed
    moreover have "0 < i + length (rightBound ex)" using False by simp
    ultimately show ?thesis using short[of "i + length (rightBound ex)"] by (metis less_irrefl)
  qed
qed

lemma extract_at_end_complete:
  assumes "table_ok (validChars ex)" and "fits_at_end ex text"
    and "leftBound ex \<noteq> [] \<or> validChars ex \<noteq> None"
    and "extract_label_at_end text (leftBound ex) (rightBound ex) (maxRange ex) (validChars ex) =
      Inr (label, rest)"
  shows "rest \<noteq> text"
proof -
  obtain tag z where z: "text = z @ leftBound ex @ tag @ rightBound ex" "tag \<noteq> []"
    "list_all (allowed (validChars ex)) tag" "int (length tag + length (leftBound ex)) \<le> maxRange ex"
    using assms(2) by (auto simp: fits_at_end_def)
  let ?s = "z @ leftBound ex @ tag"
  define k where "k = (if int (length ?s) > maxRange ex then length ?s - nat (maxRange ex) else 0)"
  have k: "(if int (length ?s) > maxRange ex then int (length ?s) - maxRange ex else 0) = int k"
    using z(4) by (auto simp: k_def of_nat_diff)
  have kz: "k \<le> length z" using z(4) by (auto simp: k_def)
  then have maxS: "go_slice ?s (int k) (int (length ?s)) = Inr (drop k z @ leftBound ex @ tag)"
    by (simp add: go_slice_def)
  have last: "allowed (validChars ex) (last ?s)" using z(2,3) by (simp add: list_all_iff)
  have suf: "rightBound ex \<noteq> [] \<longrightarrow> has_suffix text (rightBound ex)" using z(1) by (auto simp: has_suffix_iff)
  have s: "take (length text - length (rightBound ex)) text = ?s" using z(1) by simp
  have *: "extract_label_at_end text (leftBound ex) (rightBound ex) (maxRange ex) (validChars ex) =
      (if leftBound ex \<noteq> [] then
         (case str_last_index (drop k z @ leftBound ex @ tag) (leftBound ex) of
            None \<Rightarrow> Inr ([], text)
          | Some i \<Rightarrow>
              let iend = i + nat (int k); t = drop (iend + length (leftBound ex)) ?s;
                  found = Inr (trim_blanks t, take iend ?s) in
              if validChars ex = None then found
              else go_bind (match_valid_from_end (validChars ex) t) (\<lambda>n.
                if n \<noteq> 0 then Inr ([], text) else found))
       else go_bind (match_valid_from_end (validChars ex) (drop k z @ leftBound ex @ tag)) (\<lambda>n.
              let tagBeg = nat (int k) + n in
              if tagBeg = length ?s then Inr ([], text)
              else Inr (trim_blanks (drop tagBeg ?s), take tagBeg ?s)))"
    unfolding extract_label_at_end_def s Let_def k maxS using suf last fails_fast_ok[OF assms(1)] z(2) by auto
  have short: "length (take n ?s) < length text" if "n < length ?s" for n using that z by auto
  show ?thesis
  proof (cases "leftBound ex = []")
    case True
    then obtain t where t: "validChars ex = Some t" "length t = 256"
      using assms(1,3) by (auto simp: table_ok_def)
    let ?w = "takeWhile (allowed (Some t)) (rev (drop k z @ tag))"
    have "allowed (Some t) (hd (rev (drop k z @ tag)))" "rev (drop k z @ tag) \<noteq> []"
      using z(2,3) t(1) by (auto simp: hd_rev list_all_iff)
    then have "?w \<noteq> []" by (cases "rev (drop k z @ tag)") auto
    then have w: "k + (length (drop k z @ tag) - length ?w) < length (z @ tag)" using kz z(2)
      by (cases ?w; cases tag) auto
    then have "rest = take (k + (length (drop k z @ tag) - length ?w)) ?s"
      using assms(4) True t unfolding * by (auto simp: match_valid_from_end_ok Let_def)
    then show ?thesis using w short[of "k + (length (drop k z @ tag) - length ?w)"] True by auto
  next
    case False
    obtain i where i: "str_last_index (drop k z @ leftBound ex @ tag) (leftBound ex) = Some i"
      "length (drop k z) \<le> i"
      using str_last_index_last by blast
    have il: "i + length (leftBound ex) \<le> length (drop k z @ leftBound ex @ tag)"
      using str_last_index_SomeD[OF i(1)] by blast
    let ?t = "drop (i + nat (int k) + length (leftBound ex)) ?s"
    have ti: "?t = drop (i + k - length z) tag" using i(2) kz by simp
    have "list_all (allowed (validChars ex)) (rev (drop (i + k - length z) tag))"
      using z(3) by (auto simp: list_all_iff dest: in_set_dropD)
    then have valid: "match_valid_from_end (validChars ex) ?t = Inr 0" if "validChars ex = Some t" for t
      using that assms(1) takeWhile_whole[of "allowed (validChars ex)" "rev (drop (i + k - length z) tag)"]
      unfolding ti by (auto simp: table_ok_def match_valid_from_end_ok)
    have "rest = take (i + k) ?s"
    proof (cases "validChars ex")
      case None
      then show ?thesis using assms(4) False unfolding * i(1) Let_def option.case by simp
    next
      case (Some t)
      show ?thesis using assms(4) unfolding * i(1) Let_def option.case valid[OF Some]
        using False Some by simp
    qed
    moreover have "i + k < length ?s" using il kz False by (cases "leftBound ex") auto
    ultimately show ?thesis using short[of "i + k"] by (metis less_irrefl)
  qed
qed

section \<open>What a character class means\<close>

text \<open>Byte \<open>k\<close> is listed by the first \<open>n\<close> bytes of the expression.\<close>

definition listed_at :: "bytes \<Rightarrow> nat \<Rightarrow> nat \<Rightarrow> bool" where
  "listed_at expr i k \<longleftrightarrow>
     (let range = (\<lambda>j. 0 < j \<and> j < length expr - 1 \<and> expr ! j = CHR ''-'') in
      if expr ! i = CHR ''-'' then \<not> range i \<and> k = code_of (CHR ''-'')
      else if 0 < i \<and> range (i - 1)
      then code_of (expr ! (i - 2)) \<le> k \<and> k \<le> code_of (expr ! i)
      else k = code_of (expr ! i))"

definition double_hyphen :: "bytes \<Rightarrow> bool" where
  "double_hyphen expr \<longleftrightarrow>
     (\<exists>i. 1 < i \<and> i < length expr \<and> expr ! i = CHR ''-'' \<and> expr ! (i - 1) = CHR ''-'')"

lemma fill_range_ok:
  assumes "unat c < 255" and "unat c + 1 - unat rc < fuel" and "length table = 256"
  shows "\<exists>t. fill_range fuel table rc c v = Some t \<and> length t = 256 \<and>
     (\<forall>k < 256. t ! k = (if unat rc \<le> k \<and> k \<le> unat c then v else table ! k))"
  using assms
proof (induction fuel arbitrary: rc table)
  case 0
  then show ?case by simp
next
  case (Suc fuel)
  show ?case
  proof (cases "rc \<le> c")
    case True
    then have le: "unat rc \<le> unat c" by (simp add: word_le_nat_alt)
    then have "unat rc + 1 < 2 ^ 8" using Suc.prems(1) by simp
    then have inc: "unat (rc + 1) = unat rc + 1" by (simp add: unat_plus_if_size word_size)
    have step: "unat c + 1 - unat (rc + 1) < fuel" using Suc.prems(2) le inc by linarith
    obtain t where t: "fill_range fuel (table[unat rc := v]) (rc + 1) c v = Some t" "length t = 256"
      "\<forall>k < 256. t ! k = (if unat (rc + 1) \<le> k \<and> k \<le> unat c then v else table[unat rc := v] ! k)"
      using Suc.IH[OF Suc.prems(1), of "rc + 1" "table[unat rc := v]"] Suc.prems(3) step by auto
    have "\<forall>k < 256. t ! k = (if unat rc \<le> k \<and> k \<le> unat c then v else table ! k)"
      using t(3) inc le Suc.prems(3) by (auto simp: nth_list_update)
    then show ?thesis using True t by (simp add: fill_range.simps(2))
  next
    case False
    then have "\<not> unat rc \<le> unat c" by (simp add: word_le_nat_alt)
    then show ?thesis using False Suc.prems by (auto simp: fill_range.simps(2))
  qed
qed

lemma fill_range_endless: "fill_range fuel table rc (- 1) v = None"
  by (induction fuel arbitrary: table rc) (auto simp: fill_range.simps(2))


definition range_at :: "bytes \<Rightarrow> nat \<Rightarrow> bool" where
  "range_at expr j \<longleftrightarrow> 0 < j \<and> j < length expr - 1 \<and> expr ! j = CHR ''-''"

lemma listed_at_alt:
  "listed_at expr i k \<longleftrightarrow>
     (if expr ! i = CHR ''-'' then \<not> range_at expr i \<and> k = 45
      else if 0 < i \<and> range_at expr (i - 1)
      then code_of (expr ! (i - 2)) \<le> k \<and> k \<le> code_of (expr ! i)
      else k = code_of (expr ! i))"
  by (simp add: listed_at_def range_at_def Let_def)

definition filled :: "bytes \<Rightarrow> nat \<Rightarrow> bool \<Rightarrow> char_table \<Rightarrow> bool" where
  "filled expr n listed table \<longleftrightarrow>
     length table = 256 \<and>
     (\<forall>k < 256. table ! k = (if \<exists>j < n. listed_at expr j k then listed else \<not> listed))"

lemma filled_step:
  assumes "filled expr i listed table" and "length table' = 256"
    and "\<And>k. k < 256 \<Longrightarrow> table' ! k = (if listed_at expr i k then listed else table ! k)"
  shows "filled expr (Suc i) listed table'"
  using assms by (auto simp: filled_def less_Suc_eq)

lemma unat_char_byte [simp]: "unat (char_byte c) = code_of c"
  by (simp add: char_byte_def unat_of_nat)

lemma fill_loop_correct:
  assumes "\<forall>i < length expr. code_of (expr ! i) < 255" and "i \<le> length expr"
    and "filled expr i listed table" and "rs \<longleftrightarrow> 0 < i \<and> range_at expr (i - 1)"
  shows "\<exists>r. fill_loop byte_fuel expr i table rs listed = Some r \<and>
     (case r of
        Inl _ \<Rightarrow> double_hyphen expr
      | Inr t \<Rightarrow> filled expr (length expr) listed t \<and>
          (\<forall>j. i \<le> j \<and> 1 < j \<and> j < length expr \<and> expr ! j = CHR ''-'' \<longrightarrow> expr ! (j - 1) \<noteq> CHR ''-''))"
  using assms
proof (induction "length expr - i" arbitrary: i table rs)
  case 0
  then have "i = length expr" by simp
  then show ?case using 0 by (subst fill_loop.simps) auto
next
  case (Suc n)
  have i: "i < length expr" using Suc.hyps(2) by simp
  let ?c = "expr ! i"
  have n_eq: "n = length expr - Suc i" using Suc.hyps(2) by simp
  note IH = Suc.hyps(1)[of "Suc i"]
  have later: "\<exists>r. fill_loop byte_fuel expr i table rs listed = Some r \<and>
     (case r of
        Inl _ \<Rightarrow> double_hyphen expr
      | Inr t \<Rightarrow> filled expr (length expr) listed t \<and>
          (\<forall>j. i \<le> j \<and> 1 < j \<and> j < length expr \<and> expr ! j = CHR ''-'' \<longrightarrow> expr ! (j - 1) \<noteq> CHR ''-''))"
    if go_on: "fill_loop byte_fuel expr i table rs listed = fill_loop byte_fuel expr (Suc i) t' rs' listed"
      and t': "filled expr (Suc i) listed t'" and rs': "rs' \<longleftrightarrow> range_at expr i"
      and ok: "1 < i \<Longrightarrow> ?c = CHR ''-'' \<Longrightarrow> expr ! (i - 1) \<noteq> CHR ''-''"
    for t' rs'
  proof -
    obtain r where r: "fill_loop byte_fuel expr (Suc i) t' rs' listed = Some r"
      "case r of Inl _ \<Rightarrow> double_hyphen expr
       | Inr t \<Rightarrow> filled expr (length expr) listed t \<and>
          (\<forall>j. Suc i \<le> j \<and> 1 < j \<and> j < length expr \<and> expr ! j = CHR ''-'' \<longrightarrow> expr ! (j - 1) \<noteq> CHR ''-'')"
      using IH[OF n_eq Suc.prems(1) _ t', of rs'] i rs' by auto
    have "expr ! (j - 1) \<noteq> CHR ''-''"
      if "i \<le> j" "1 < j" "j < length expr" "expr ! j = CHR ''-''"
        "\<forall>j. Suc i \<le> j \<and> 1 < j \<and> j < length expr \<and> expr ! j = CHR ''-'' \<longrightarrow> expr ! (j - 1) \<noteq> CHR ''-''" for j
      using that ok by (cases "j = i") auto
    then show ?thesis unfolding go_on r(1) using r(2) by (auto split: sum.splits)
  qed
  show ?case
  proof (cases "?c = CHR ''-''")
    case hy: True
    show ?thesis
    proof (cases rs)
      case True
      then have "double_hyphen expr"
        using hy i Suc.prems(4) unfolding double_hyphen_def range_at_def
        by (intro exI[of _ i]) auto
      then show ?thesis using True hy i by (subst fill_loop.simps) (simp add: Let_def)
    next
      case nrs: False
      have ok: "1 < i \<Longrightarrow> ?c = CHR ''-'' \<Longrightarrow> expr ! (i - 1) \<noteq> CHR ''-''"
        using nrs Suc.prems(4) i by (auto simp: range_at_def)
      show ?thesis
      proof (cases "range_at expr i")
        case True
        then have "fill_loop byte_fuel expr i table rs listed = fill_loop byte_fuel expr (Suc i) table True listed"
          using hy nrs i by (subst fill_loop.simps) (simp add: Let_def range_at_def)
        moreover have "filled expr (Suc i) listed table"
          using Suc.prems(3) hy True by (intro filled_step[OF Suc.prems(3)]) (auto simp: listed_at_alt filled_def)
        ultimately show ?thesis using ok True by (intro later) auto
      next
        case False
        then have "fill_loop byte_fuel expr i table rs listed =
            fill_loop byte_fuel expr (Suc i) (table[45 := listed]) False listed"
          using hy nrs i by (subst fill_loop.simps) (auto simp: Let_def range_at_def)
        moreover have "filled expr (Suc i) listed (table[45 := listed])"
          using Suc.prems(3) hy False
          by (intro filled_step[OF Suc.prems(3)]) (auto simp: listed_at_alt filled_def nth_list_update)
        ultimately show ?thesis using ok False by (intro later) auto
      qed
    qed
  next
    case nhy: False
    then have nr: "\<not> range_at expr i" by (simp add: range_at_def)
    show ?thesis
    proof (cases rs)
      case True
      have len: "length table = 256" using Suc.prems(3) by (simp add: filled_def)
      have c255: "code_of ?c < 255" using Suc.prems(1) i by simp
      then have steps: "code_of ?c + 1 - code_of (expr ! (i - 2)) < byte_fuel"
        by (simp add: byte_fuel_def)
      obtain t where t: "fill_range byte_fuel table (char_byte (expr ! (i - 2))) (char_byte ?c) listed = Some t"
        "length t = 256"
        "\<forall>k < 256. t ! k = (if code_of (expr ! (i - 2)) \<le> k \<and> k \<le> code_of ?c then listed else table ! k)"
        using fill_range_ok[of "char_byte ?c" "char_byte (expr ! (i - 2))" byte_fuel table listed]
          c255 len steps by (auto simp: byte_fuel_def)
      have "fill_loop byte_fuel expr i table rs listed = fill_loop byte_fuel expr (Suc i) t False listed"
        using nhy True i t(1) by (subst fill_loop.simps) (simp add: Let_def)
      moreover have "filled expr (Suc i) listed t"
        using t nhy True Suc.prems(4) by (intro filled_step[OF Suc.prems(3)]) (auto simp: listed_at_alt)
      ultimately show ?thesis using nhy nr by (intro later) auto
    next
      case False
      then have "fill_loop byte_fuel expr i table rs listed =
          fill_loop byte_fuel expr (Suc i) (table[code_of ?c := listed]) False listed"
        using nhy i by (subst fill_loop.simps) (simp add: Let_def)
      moreover have "filled expr (Suc i) listed (table[code_of ?c := listed])"
        using Suc.prems(3,4) nhy False
        by (intro filled_step[OF Suc.prems(3)]) (auto simp: listed_at_alt filled_def nth_list_update)
      ultimately show ?thesis using nhy nr by (intro later) auto
    qed
  qed
qed

lemma char_class_correct:
  assumes "\<forall>i < length expr. code_of (expr ! i) < 255"
  shows "\<exists>r. fill_loop byte_fuel expr 0 (replicate 256 (\<not> listed)) False listed = Some r \<and>
     (case r of
        Inl _ \<Rightarrow> double_hyphen expr
      | Inr t \<Rightarrow> \<not> double_hyphen expr \<and> length t = 256 \<and>
          (\<forall>k < 256. t ! k = (if \<exists>j < length expr. listed_at expr j k then listed else \<not> listed)))"
proof -
  have "filled expr 0 listed (replicate 256 (\<not> listed))" by (simp add: filled_def)
  then obtain r where r: "fill_loop byte_fuel expr 0 (replicate 256 (\<not> listed)) False listed = Some r"
     "case r of
        Inl _ \<Rightarrow> double_hyphen expr
      | Inr t \<Rightarrow> filled expr (length expr) listed t \<and>
          (\<forall>j. 0 \<le> j \<and> 1 < j \<and> j < length expr \<and> expr ! j = CHR ''-'' \<longrightarrow> expr ! (j - 1) \<noteq> CHR ''-'')"
    using fill_loop_correct[OF assms, of 0 listed "replicate 256 (\<not> listed)" False] by auto
  then show ?thesis by (auto simp: filled_def double_hyphen_def split: sum.splits)
qed

lemma unescape_pattern_id:
  "CHR 0x5C \<notin> set s \<Longrightarrow> unescape_run pattern_unescaper s = Inr s"
  by (simp add: unescape_run_correct unescape_spec_id pattern_unescaper_def new_unescaper_def)

section \<open>Properties\<close>

text \<open>
  C26: an extractor whose far boundary or character table is given never panics. It leaves the
  text alone, or removes from its end of the text exactly the boundaries and a run of allowed
  bytes within the range, returned trimmed; and it does extract whenever there is such a run.
\<close>

theorem extract_string_correct:
  assumes "table_ok (validChars ex)" and "0 \<le> maxRange ex"
    and "(if position ex = ExtractFromStart then rightBound ex else leftBound ex) \<noteq> [] \<or> validChars ex \<noteq> None"
  shows "\<exists>label rest. extract_string ex text = Inr (label, rest) \<and>
     (if position ex = ExtractFromStart
      then ((label, rest) = ([], text) \<or> extracted_at_start ex text label rest) \<and>
           (fits_at_start ex text \<longrightarrow> rest \<noteq> text)
      else ((label, rest) = ([], text) \<or> extracted_at_end ex text label rest) \<and>
           (fits_at_end ex text \<longrightarrow> rest \<noteq> text))"
proof (cases "position ex")
  case ExtractFromStart
  then have b: "rightBound ex \<noteq> [] \<or> validChars ex \<noteq> None" using assms(3) by simp
  obtain label rest where r: "extract_label_at_start text (leftBound ex) (rightBound ex) (maxRange ex)
      (validChars ex) = Inr (label, rest)"
    "(label, rest) = ([], text) \<or> extracted_at_start ex text label rest"
    using extract_at_start_correct[OF assms(1,2) b, of "text"] by blast
  then show ?thesis
    using extract_at_start_complete[OF assms(1) _ b r(1)] ExtractFromStart by (auto simp: extract_string_def)
next
  case ExtractFromEnd
  then have b: "leftBound ex \<noteq> [] \<or> validChars ex \<noteq> None" using assms(3) by simp
  obtain label rest where r: "extract_label_at_end text (leftBound ex) (rightBound ex) (maxRange ex)
      (validChars ex) = Inr (label, rest)"
    "(label, rest) = ([], text) \<or> extracted_at_end ex text label rest"
    using extract_at_end_correct[OF assms(1,2) b, of "text"] by blast
  then show ?thesis
    using extract_at_end_complete[OF assms(1) _ b r(1)] ExtractFromEnd by (auto simp: extract_string_def)
qed

theorem extract_string_correct_witness:
  "\<exists>ex. new_string_extractor_simple ExtractFromStart ''<*> '' 10 = Some (Inr (Inr ex)) \<and>
     (\<exists>label rest. extract_string ex ''<ab> text'' = Inr (label, rest) \<and> rest \<noteq> ''<ab> text'')"
proof -
  define ex where "ex = \<lparr>position = ExtractFromStart, leftBound = ''<'', rightBound = ''> '',
    maxRange = 10, validChars = None\<rparr>"
  have n: "new_string_extractor_simple ExtractFromStart ''<*> '' 10 = Some (Inr (Inr ex))"
    unfolding ex_def by code_simp
  have a: "table_ok (validChars ex)" "0 \<le> maxRange ex"
    "(if position ex = ExtractFromStart then rightBound ex else leftBound ex) \<noteq> [] \<or> validChars ex \<noteq> None"
    by (simp_all add: ex_def table_ok_def)
  have "fits_at_start ex ''<ab> text''"
    unfolding fits_at_start_def
    by (intro exI[of _ "''ab''"] exI[of _ "''text''"]) (simp add: ex_def allowed_def)
  then show ?thesis using n extract_string_correct[OF a, of "''<ab> text''"] a by (auto simp: ex_def)
qed

text \<open>
  C27: a bracket expression of bytes below 255 fills the table with exactly the bytes it lists, or
  all but those after a caret; it is rejected exactly when a hyphen follows a range hyphen.
\<close>

theorem bracket_expression_correct:
  assumes "\<forall>c \<in> set expr. code_of c < 255 \<and> c \<noteq> CHR 0x5C" and "expr \<noteq> []"
  shows "\<exists>r. fill_valid_chars (replicate 256 False) (''['' @ expr @ '']'') = Some (Inr r) \<and>
     (let negated = (hd expr = CHR ''^''); body = (if negated then tl expr else expr) in
      case r of
        Inl _ \<Rightarrow> double_hyphen body
      | Inr t \<Rightarrow> \<not> double_hyphen body \<and> length t = 256 \<and>
          (\<forall>k < 256. t ! k \<longleftrightarrow> (\<exists>j < length body. listed_at body j k) \<noteq> negated))"
proof -
  have inner: "go_slice (''['' @ expr @ '']'') 1 (int (length (''['' @ expr @ '']'')) - 1) = Inr expr"
    by (simp add: go_slice_def)
  have un: "unescape_run pattern_unescaper expr = Inr expr"
    using assms(1) by (intro unescape_pattern_id) auto
  define body where "body = (if hd expr = CHR ''^'' then tl expr else expr)"
  define listed where "listed = (hd expr \<noteq> CHR ''^'')"
  have "set body \<subseteq> set expr" using assms(2) by (cases expr) (auto simp: body_def)
  then have "\<forall>i < length body. code_of (body ! i) < 255" using assms(1) by (metis nth_mem subsetD)
  from char_class_correct[OF this, of listed]
  obtain r where r: "fill_loop byte_fuel body 0 (replicate 256 (\<not> listed)) False listed = Some r"
    "case r of Inl _ \<Rightarrow> double_hyphen body
      | Inr t \<Rightarrow> \<not> double_hyphen body \<and> length t = 256 \<and>
          (\<forall>k < 256. t ! k = (if \<exists>j < length body. listed_at body j k then listed else \<not> listed))" by blast
  have "fill_valid_chars (replicate 256 False) (''['' @ expr @ '']'') = Some (Inr r)"
    using inner un r(1) assms(2) by (auto simp: fill_valid_chars_def body_def listed_def)
  then show ?thesis
    using r(2) unfolding Let_def body_def[symmetric]
    by (intro exI[of _ r]) (auto simp: listed_def split: sum.splits)
qed

theorem bracket_expression_correct_witness:
  "\<exists>t. fill_valid_chars (replicate 256 False) ''[a-c-]'' = Some (Inr (Inr t)) \<and>
     t ! code_of (CHR ''b'') \<and> \<not> t ! code_of (CHR ''d'')"
proof -
  let ?e = "''a-c-''"
  have a: "\<forall>c \<in> set ?e. code_of c < 255 \<and> c \<noteq> CHR 0x5C" "?e \<noteq> []" by simp_all
  have h: "hd ?e \<noteq> CHR ''^''" by simp
  have d: "\<not> double_hyphen ?e"
    by (auto simp: double_hyphen_def less_Suc_eq numeral_2_eq_2 nth_Cons split: nat.splits)
  have l: "\<exists>j < length ?e. listed_at ?e j 98" "\<not> (\<exists>j < length ?e. listed_at ?e j 100)"
    by (auto simp: listed_at_def Let_def less_Suc_eq numeral_2_eq_2 nth_Cons split: nat.splits)
  obtain r where "fill_valid_chars (replicate 256 False) (''['' @ ?e @ '']'') = Some (Inr r)"
    "case r of Inl _ \<Rightarrow> double_hyphen ?e
      | Inr t \<Rightarrow> \<not> double_hyphen ?e \<and> length t = 256 \<and>
          (\<forall>k < 256. t ! k \<longleftrightarrow> (\<exists>j < length ?e. listed_at ?e j k) \<noteq> False)"
    using bracket_expression_correct[OF a] unfolding Let_def eq_False[THEN iffD2, OF h] if_False by blast
  then show ?thesis using d l by (cases r) auto
qed

text \<open>
  C40: filling a character range that ends at byte 255 never ends, with any number of steps, so
  an extractor for such a pattern is never built.
\<close>

theorem full_range_never_returns:
  "fill_range fuel table rc (- 1) v = None \<and>
   new_string_extractor_simple pos ([CHR ''['', CHR ''a'', CHR ''-'', CHR 0xFF, CHR '']'']) maxR = None"
proof
  show "fill_range fuel table rc (- 1) v = None" by (rule fill_range_endless)
  have s: "split_pattern [CHR ''['', CHR ''a'', CHR ''-'', CHR 0xFF, CHR '']''] =
      Inr (Inr [[], [CHR ''['', CHR ''a'', CHR ''-'', CHR 0xFF, CHR '']''], []])"
    by code_simp
  have u: "unescape_run pattern_unescaper [CHR ''a'', CHR ''-'', CHR 0xFF] = Inr [CHR ''a'', CHR ''-'', CHR 0xFF]"
    by (rule unescape_pattern_id) simp
  have "(255 :: 8 word) = - 1" by simp
  then have full: "fill_range n tb c 255 True = None" for n tb c using fill_range_endless by metis
  have f: "fill_loop byte_fuel [CHR ''a'', CHR ''-'', CHR 0xFF] 0 t False True = None" for t
    by (simp add: fill_loop.simps char_byte_def full)
  show "new_string_extractor_simple pos ([CHR ''['', CHR ''a'', CHR ''-'', CHR 0xFF, CHR '']'']) maxR = None"
    using s u f by (simp add: new_string_extractor_simple_def new_string_extractor_def fill_valid_chars_def go_slice_def)
qed

end
