(* ===== verification/Go_Float.thy ===== *)
theory Go_Float
  imports Prelude Complex_Main
begin

text \<open>
  The \<open>float64\<close> arithmetic the program uses: sums and products of non-negative numbers below
  \<open>2 ^ 53\<close>, rounded to 53 significant bits, ties to even (no overflow; subnormal results do not
  matter because every result is truncated to whole nanoseconds). A double is the rational it
  denotes.
\<close>

type_synonym float64 = rat

text \<open>\<open>bin_exp x\<close> is the exponent of the leading bit of \<open>x\<close>.\<close>

definition bin_exp :: "rat \<Rightarrow> int" where
  "bin_exp x = (if x \<ge> 1 then int (bit_len (nat \<lfloor>x\<rfloor>)) - 1 else - int (bit_len (nat (\<lceil>1 / x\<rceil> - 1))))"

definition round_even :: "rat \<Rightarrow> int" where
  "round_even q =
     (let f = \<lfloor>q\<rfloor>; r = q - of_int f in
      if r < 1 / 2 then f else if r > 1 / 2 then f + 1 else if even f then f else f + 1)"

definition pow2 :: "int \<Rightarrow> rat" where
  "pow2 e = (if e \<ge> 0 then 2 ^ nat e else 1 / 2 ^ nat (- e))"

definition round_double :: "rat \<Rightarrow> float64" where
  "round_double x =
     (if x = 0 then 0 else let e = bin_exp x in of_int (round_even (x * pow2 (52 - e))) * pow2 (e - 52))"

definition fadd :: "float64 \<Rightarrow> float64 \<Rightarrow> float64" where
  "fadd x y = round_double (x + y)"

definition fmul :: "float64 \<Rightarrow> float64 \<Rightarrow> float64" where
  "fmul x y = round_double (x * y)"

section \<open>Rounding errors\<close>

lemma pow2_add: "pow2 (a + b) = pow2 a * pow2 b"
proof -
  have "pow2 e = 2 powi e" for e by (auto simp: pow2_def power_int_def inverse_eq_divide power_one_over)
  then show ?thesis by (simp add: power_int_add)
qed

lemma pow2_pos [simp]: "0 < pow2 e"
  by (simp add: pow2_def)

lemma pow2_0 [simp]: "pow2 0 = 1"
  by (simp add: pow2_def)

lemma bin_exp_le: "0 < x \<Longrightarrow> pow2 (bin_exp x) \<le> x"
proof (cases "x \<ge> 1")
  case True
  then have f: "0 < nat \<lfloor>x\<rfloor>" by (simp add: zero_less_floor)
  then have b: "2 ^ (bit_len (nat \<lfloor>x\<rfloor>) - 1) \<le> nat \<lfloor>x\<rfloor>" by (rule bit_len_le_self)
  have pos: "0 < bit_len (nat \<lfloor>x\<rfloor>)" using f by (subst bit_len.simps) simp
  then have "pow2 (bin_exp x) = 2 ^ (bit_len (nat \<lfloor>x\<rfloor>) - 1)"
    using True by (simp add: bin_exp_def pow2_def nat_diff_distrib)
  also have "\<dots> = of_nat (2 ^ (bit_len (nat \<lfloor>x\<rfloor>) - 1))" by simp
  also have "\<dots> \<le> of_nat (nat \<lfloor>x\<rfloor>)" using b of_nat_le_iff by blast
  also have "\<dots> \<le> x" using True by simp
  finally show ?thesis .
next
  case False
  assume "0 < x"
  let ?n = "nat (\<lceil>1 / x\<rceil> - 1)"
  have y: "1 < 1 / x" using False \<open>0 < x\<close> by simp
  then have n: "0 < ?n" by (simp add: less_ceiling_iff)
  have "int ?n < 2 ^ bit_len ?n"
    using bit_len_less[of ?n] by (metis of_nat_less_iff of_nat_numeral of_nat_power)
  then have "\<lceil>1 / x\<rceil> \<le> 2 ^ bit_len ?n" using n by linarith
  then have "1 / x \<le> 2 ^ bit_len ?n" by (simp add: ceiling_le_iff)
  then have "1 / 2 ^ bit_len ?n \<le> x" using \<open>0 < x\<close> by (simp add: field_simps)
  then show ?thesis using False by (cases "bit_len ?n = 0") (auto simp: bin_exp_def pow2_def)
qed

lemma round_even_error: "\<bar>of_int (round_even q) - q\<bar> \<le> 1 / 2"
proof -
  have "of_int \<lfloor>q\<rfloor> \<le> q" "q < of_int \<lfloor>q\<rfloor> + 1" by linarith+
  then show ?thesis unfolding round_even_def Let_def by (auto simp: abs_le_iff)
qed

lemma round_double_error: "0 \<le> x \<Longrightarrow> \<bar>round_double x - x\<bar> \<le> x / 2 ^ 53"
proof (cases "x = 0")
  case True
  then show ?thesis by (simp add: round_double_def)
next
  case False
  assume "0 \<le> x"
  then have "0 < x" using False by simp
  let ?e = "bin_exp x" and ?q = "x * pow2 (52 - bin_exp x)"
  have one: "pow2 (52 - ?e) * pow2 (?e - 52) = 1" by (simp flip: pow2_add)
  have "round_double x - x = (of_int (round_even ?q) - ?q) * pow2 (?e - 52)"
    using False one by (simp add: round_double_def Let_def left_diff_distrib mult.assoc)
  then have "\<bar>round_double x - x\<bar> = \<bar>of_int (round_even ?q) - ?q\<bar> * pow2 (?e - 52)"
    using pow2_pos[of "?e - 52"] by (simp add: abs_mult abs_of_pos)
  also have "\<dots> \<le> 1 / 2 * pow2 (?e - 52)"
    using round_even_error[of ?q] by (intro mult_right_mono) (auto intro: less_imp_le)
  also have "\<dots> = pow2 ?e / 2 ^ 53"
    using pow2_add[of ?e "- 52"] by (simp add: pow2_def)
  also have "\<dots> \<le> x / 2 ^ 53" using bin_exp_le[OF \<open>0 < x\<close>] by (simp add: divide_right_mono)
  finally show ?thesis .
qed

lemma round_double_nonneg: "0 \<le> x \<Longrightarrow> 0 \<le> round_double x"
proof -
  assume "0 \<le> x"
  then have "\<bar>round_double x - x\<bar> \<le> x / 2 ^ 53" by (rule round_double_error)
  moreover have "x / 2 ^ 53 \<le> x" using \<open>0 \<le> x\<close> by simp
  ultimately show ?thesis by linarith
qed

text \<open>Errors add up: \<open>a\<close> stands for the exact value \<open>b\<close>.\<close>

definition near :: "rat \<Rightarrow> rat \<Rightarrow> rat \<Rightarrow> bool" where
  "near e a b \<longleftrightarrow> 0 \<le> a \<and> \<bar>a - b\<bar> \<le> e"

lemma near_round:
  assumes "near e a b" and "b \<le> m" and "e + (m + e) / 2 ^ 53 \<le> e'"
  shows "near e' (round_double a) b"
proof -
  have "0 \<le> a" using assms(1) by (simp add: near_def)
  moreover have "a \<le> m + e" using assms(1,2) by (auto simp: near_def abs_le_iff)
  then have "a / 2 ^ 53 \<le> (m + e) / 2 ^ 53" by (simp add: divide_right_mono)
  moreover have "\<bar>round_double a - a\<bar> \<le> a / 2 ^ 53" using \<open>0 \<le> a\<close> by (rule round_double_error)
  ultimately show ?thesis
    using assms(1,3) round_double_nonneg[of a] unfolding near_def abs_le_iff by linarith
qed

lemma near_fadd:
  assumes "near e a b" and "near f c d" and "b + d \<le> m" and "e + f + (m + (e + f)) / 2 ^ 53 \<le> e'"
  shows "near e' (fadd a c) (b + d)"
  unfolding fadd_def
  by (rule near_round[OF _ assms(3,4)]) (use assms in \<open>auto simp: near_def abs_le_iff\<close>)

end
