(* ===== verification/Parse_Time.thy ===== *)
theory Parse_Time
  imports Log_Record Go_Float
begin

text \<open>
  RFC 3339 timestamps: \<open>transform/tparsetime/rfc3339.go\<close> and \<open>atoi.go\<close>, with what they use of
  the standard library (\<open>time.Date\<close>, \<open>time.Parse\<close> of a zone, \<open>strconv.ParseFloat\<close>). A
  \<open>time.Location\<close> is its offset in seconds; the local zone is a parameter from wall-clock seconds
  to the offset in force. Subtracting the character 0 from a byte wraps at 8 bits, as in the
  source, so the digit functions are total on garbage.
\<close>

section \<open>Digits\<close>

definition sub_zero :: "char \<Rightarrow> int" where
  "sub_zero c = uint (char_byte c - 48)"

definition atoi2 :: "bytes \<Rightarrow> int go" where
  "atoi2 s =
     go_bind (go_index s 0) (\<lambda>c0. go_bind (go_index s 1) (\<lambda>c1.
       Inr (sub_zero c0 * 10 + sub_zero c1)))"

definition atoi4 :: "bytes \<Rightarrow> int go" where
  "atoi4 s =
     go_bind (go_index s 0) (\<lambda>c0. go_bind (go_index s 1) (\<lambda>c1.
     go_bind (go_index s 2) (\<lambda>c2. go_bind (go_index s 3) (\<lambda>c3.
       Inr (sub_zero c0 * 1000 + sub_zero c1 * 100 + sub_zero c2 * 10 + sub_zero c3)))))"

text \<open>\<open>float64(s[k]-'0') * 0.1...\<close>, and the sums of \<open>atof3\<close>, \<open>atof6\<close>, \<open>atof9\<close>.\<close>

definition frac_term :: "bytes \<Rightarrow> nat \<Rightarrow> float64" where
  "frac_term s k = fmul (of_int (sub_zero (s ! k))) (round_double (1 / 10 ^ k))"

fun atof_sum :: "bytes \<Rightarrow> nat \<Rightarrow> float64" where
  "atof_sum s 0 = 0"
| "atof_sum s (Suc n) = (if n = 0 then frac_term s 1 else fadd (atof_sum s n) (frac_term s (Suc n)))"

definition atof3 :: "bytes \<Rightarrow> float64" where "atof3 s = atof_sum s 3"
definition atof6 :: "bytes \<Rightarrow> float64" where "atof6 s = atof_sum s 6"
definition atof9 :: "bytes \<Rightarrow> float64" where "atof9 s = atof_sum s 9"

text \<open>\<open>strconv.ParseFloat\<close> of a dot and digits: the nearest double, an error without digits.\<close>

definition parse_float :: "bytes \<Rightarrow> float64 option" where
  "parse_float s =
     (if length s < 2 then None
      else Some (round_double (of_int (digits_value (tl s)) / 10 ^ (length s - 1))))"

definition split_fraction_and_timezone :: "bytes \<Rightarrow> bytes \<times> bytes" where
  "split_fraction_and_timezone s =
     (if length s > 1 \<and> hd s = CHR ''.''
      then (hd s # takeWhile is_digit (tl s), dropWhile is_digit (tl s))
      else ([], s))"

section \<open>Zones and dates\<close>

text \<open>\<open>time.Parse("Z07:00", s)\<close> and \<open>time.Parse("Z0700", s)\<close>: the offset in seconds.\<close>

definition two_digits :: "bytes \<Rightarrow> int option" where
  "two_digits s =
     (if length s = 2 \<and> list_all is_digit s then Some (digits_value s) else None)"

definition zone_offset :: "char \<Rightarrow> bytes \<Rightarrow> bytes \<Rightarrow> int option" where
  "zone_offset sign hh mm =
     (case (two_digits hh, two_digits mm) of
        (Some h, Some m) \<Rightarrow>
          if h > 24 \<or> m > 60 then None
          else if sign = CHR ''+'' then Some ((h * 60 + m) * 60)
          else if sign = CHR ''-'' then Some (- ((h * 60 + m) * 60))
          else None
      | _ \<Rightarrow> None)"

definition parse_zone :: "bool \<Rightarrow> bytes \<Rightarrow> int option" where
  "parse_zone colon s =
     (if s = ''Z'' then Some 0
      else if s \<noteq> [] \<and> hd s = CHR ''Z'' then None
      else if colon then
        (if length s = 6 \<and> s ! 3 = CHR '':'' then zone_offset (hd s) (take 2 (drop 1 s)) (drop 4 s) else None)
      else if length s = 5 then zone_offset (hd s) (take 2 (drop 1 s)) (drop 3 s) else None)"

text \<open>Days before January 1st of a year and before a month, in the proleptic Gregorian calendar
  from January 1st of year 1.\<close>

definition is_leap :: "int \<Rightarrow> bool" where
  "is_leap y \<longleftrightarrow> y mod 4 = 0 \<and> (y mod 100 \<noteq> 0 \<or> y mod 400 = 0)"

definition days_before_year :: "int \<Rightarrow> int" where
  "days_before_year y = (let n = y - 1 in 365 * n + n div 4 - n div 100 + n div 400)"

definition days_before_month :: "int list" where
  "days_before_month = [0, 31, 59, 90, 120, 151, 181, 212, 243, 273, 304, 334]"

text \<open>\<open>time.Date\<close> in UTC, in seconds since the Unix epoch; a month outside 1 to 12 is
  normalized into the year, the other values by their linearity.\<close>

definition unix_seconds :: "int \<Rightarrow> int \<Rightarrow> int \<Rightarrow> int \<Rightarrow> int \<Rightarrow> int \<Rightarrow> int" where
  "unix_seconds year month day hour minute sec =
     (let m = month - 1; y = year + m div 12; mm = m mod 12;
          days = days_before_year y + days_before_month ! nat mm
                 + (if is_leap y \<and> mm \<ge> 2 then 1 else 0) + (day - 1) in
      (days - 719162) * 86400 + hour * 3600 + minute * 60 + sec)"

definition time_date ::
  "(int \<Rightarrow> int) \<Rightarrow> int \<Rightarrow> int \<Rightarrow> int \<Rightarrow> int \<Rightarrow> int \<Rightarrow> int \<Rightarrow> int \<Rightarrow> gotime" where
  "time_date offset_at year month day hour minute sec nsec =
     (let wall = unix_seconds year month day hour minute sec + nsec div 1000000000 in
      (wall - offset_at wall) * 1000000000 + nsec mod 1000000000)"

section \<open>The parser\<close>

type_synonym zone_cache = "bytes \<Rightarrow> int option"

datatype time_error = InvalidTimestamp | InvalidFraction | InvalidTimezone

definition parse_fraction :: "bytes \<Rightarrow> float64 option" where
  "parse_fraction fracStr =
     (if fracStr = [] then Some 0
      else if length fracStr = 4 then Some (atof3 fracStr)
      else if length fracStr = 7 then Some (atof6 fracStr)
      else if length fracStr = 10 then Some (atof9 fracStr)
      else parse_float fracStr)"

definition lookup_zone :: "zone_cache \<Rightarrow> bytes \<Rightarrow> (int \<times> zone_cache) option" where
  "lookup_zone cache tzStr =
     (case cache tzStr of
        Some off \<Rightarrow> Some (off, cache)
      | None \<Rightarrow>
          (case parse_zone (str_contains tzStr '':'') tzStr of
             None \<Rightarrow> None
           | Some off \<Rightarrow> Some (off, cache(tzStr \<mapsto> off))))"

text \<open>Whether the byte at \<open>i\<close> differs from \<open>c\<close>: one operand of the format test.\<close>

definition differs_at :: "bytes \<Rightarrow> int \<Rightarrow> char \<Rightarrow> bool go" where
  "differs_at t i c = go_bind (go_index t i) (\<lambda>d. Inr (d \<noteq> c))"

fun any_differs :: "bytes \<Rightarrow> (int \<times> char) list \<Rightarrow> bool go" where
  "any_differs t [] = Inr False"
| "any_differs t ((i, c) # rest) =
     go_bind (differs_at t i c) (\<lambda>d. if d then Inr True else any_differs t rest)"

text \<open>The fields after the format test: year, month, date, hour, minute, second, rest.\<close>

definition read_fields :: "bytes \<Rightarrow> (int \<times> int \<times> int \<times> int \<times> int \<times> int \<times> bytes) go" where
  "read_fields t =
     go_bind (go_slice t 0 4) (\<lambda>s. go_bind (atoi4 s) (\<lambda>year.
     go_bind (go_slice t 5 7) (\<lambda>s. go_bind (atoi2 s) (\<lambda>month.
     go_bind (go_slice t 8 10) (\<lambda>s. go_bind (atoi2 s) (\<lambda>date.
     go_bind (go_slice t 11 13) (\<lambda>s. go_bind (atoi2 s) (\<lambda>hour.
     go_bind (go_slice t 14 16) (\<lambda>s. go_bind (atoi2 s) (\<lambda>minute.
     go_bind (go_slice t 17 19) (\<lambda>s. go_bind (atoi2 s) (\<lambda>sec.
     go_bind (go_slice t 19 (int (length t))) (\<lambda>rest.
       Inr (year, month, date, hour, minute, sec, rest))))))))))))))"

definition parse_rfc3339_timestamp ::
  "(int \<Rightarrow> int) \<Rightarrow> bytes \<Rightarrow> zone_cache \<Rightarrow> ((time_error + gotime) \<times> zone_cache) go" where
  "parse_rfc3339_timestamp local_offset t cache =
     go_bind (any_differs t [(4, CHR ''-''), (7, CHR ''-''), (10, CHR ''T''), (13, CHR '':''), (16, CHR '':'')]) (\<lambda>bad.
       if bad then Inr (Inl InvalidTimestamp, cache)
       else go_bind (read_fields t) (\<lambda>(year, month, date, hour, minute, sec, rest).
         let (fracStr, tzStr) = split_fraction_and_timezone rest in
         case parse_fraction fracStr of
           None \<Rightarrow> Inr (Inl InvalidFraction, cache)
         | Some fraction \<Rightarrow>
             let nsec = \<lfloor>fmul fraction 1000000000\<rfloor> in
             if tzStr = [] then
               Inr (Inr (time_date local_offset year month date hour minute sec nsec), cache)
             else
               (case lookup_zone cache tzStr of
                  None \<Rightarrow> Inr (Inl InvalidTimezone, cache)
                | Some (off, cache') \<Rightarrow>
                    Inr (Inr (time_date (\<lambda>_. off) year month date hour minute sec nsec), cache'))))"

section \<open>The fraction is right to a nanosecond\<close>

lemma sub_zero_digit: "is_digit c \<Longrightarrow> sub_zero c = int (code_of c) - 48 \<and> 0 \<le> sub_zero c \<and> sub_zero c \<le> 9"
proof -
  assume d: "is_digit c"
  then have le: "48 \<le> code_of c" "code_of c \<le> 57" by (auto simp: is_digit_def)
  have u: "unat (char_byte c) = code_of c" by (simp add: char_byte_def unat_of_nat)
  have "(48 :: 8 word) \<le> char_byte c" using le u by (simp add: word_le_nat_alt)
  then have "unat (char_byte c - 48) = code_of c - 48" using u by (simp add: unat_sub)
  moreover have "sub_zero c = int (unat (char_byte c - 48))" by (simp only: sub_zero_def uint_nat)
  ultimately show ?thesis using le by simp
qed

lemma digits_value_snoc: "digits_value (s @ [c]) = digits_value s * 10 + (int (code_of c) - 48)"
  by (simp add: digits_value_def)

text \<open>The value of the first \<open>n\<close> decimals of \<open>.ddd\<close>.\<close>

definition decimal :: "bytes \<Rightarrow> nat \<Rightarrow> rat" where
  "decimal s n = of_int (digits_value (take n s)) / 10 ^ n"

lemma decimal_Suc:
  assumes "n < length s" and "is_digit (s ! n)"
  shows "decimal s (Suc n) = decimal s n + of_int (sub_zero (s ! n)) / 10 ^ Suc n"
  using assms sub_zero_digit[OF assms(2)]
  by (simp add: decimal_def take_Suc_conv_app_nth digits_value_snoc field_simps)

lemma decimal_bounds:
  assumes "list_all is_digit s" and "n \<le> length s"
  shows "0 \<le> decimal s n \<and> decimal s n \<le> 1 - 1 / 10 ^ n"
  using assms(2)
proof (induction n)
  case 0
  then show ?case by (simp add: decimal_def digits_value_def)
next
  case (Suc n)
  then have d: "is_digit (s ! n)" using assms(1) by (simp add: list_all_length)
  let ?d = "rat_of_int (sub_zero (s ! n))"
  have b: "0 \<le> ?d" "?d \<le> 9" using sub_zero_digit[OF d] by auto
  have "?d / 10 ^ Suc n \<le> 9 / 10 ^ Suc n" using b by (intro divide_right_mono) auto
  moreover have "0 \<le> ?d / 10 ^ Suc n" using b by simp
  moreover have "1 / 10 ^ n = 9 / 10 ^ Suc n + (1 :: rat) / 10 ^ Suc n" by (simp add: field_simps)
  ultimately show ?case using Suc decimal_Suc[OF _ d] by simp
qed

lemma frac_term_near:
  assumes "0 < k" and "is_digit (s ! k)"
  shows "near (2 / 2 ^ 53) (frac_term s k) (of_int (sub_zero (s ! k)) / 10 ^ k)"
proof -
  let ?d = "rat_of_int (sub_zero (s ! k))" and ?c = "round_double (1 / 10 ^ k)"
  have b: "0 \<le> ?d" "?d \<le> 9" using sub_zero_digit[OF assms(2)] by auto
  have p: "(1 :: rat) / 10 ^ k \<le> 1 / 10"
    using assms(1) power_increasing[of 1 k "10 :: rat"] by (simp add: field_simps)
  have "\<bar>?c - 1 / 10 ^ k\<bar> \<le> 1 / 10 ^ k / 2 ^ 53" by (rule round_double_error) simp
  also have "\<dots> \<le> 1 / 10 / 2 ^ 53" using p by (intro divide_right_mono) auto
  finally have c: "\<bar>?c - 1 / 10 ^ k\<bar> \<le> 1 / 10 / 2 ^ 53" .
  have "?d * ?c - ?d / 10 ^ k = ?d * (?c - 1 / 10 ^ k)" by (simp add: right_diff_distrib)
  then have "\<bar>?d * ?c - ?d / 10 ^ k\<bar> = ?d * \<bar>?c - 1 / 10 ^ k\<bar>"
    using b(1) by (simp only: abs_mult abs_of_nonneg)
  also have "\<dots> \<le> 9 * (1 / 10 / 2 ^ 53)" using b c by (intro mult_mono) auto
  finally have "near (9 / 10 / 2 ^ 53) (?d * ?c) (?d / 10 ^ k)"
    using b(1) round_double_nonneg[of "1 / 10 ^ k"] by (simp add: near_def)
  moreover have "?d / 10 ^ k \<le> 9 / 10"
    using b p mult_mono[of ?d 9 "1 / 10 ^ k" "1 / 10"] by simp
  ultimately show ?thesis
    unfolding frac_term_def fmul_def by (rule near_round) simp
qed

lemma atof_sum_near:
  assumes "list_all is_digit (tl s)" and "n < length s" and "0 < n" and "n \<le> 9"
  shows "near (4 * of_nat n / 2 ^ 53) (atof_sum s n) (decimal (tl s) n)"
  using assms(2-)
proof (induction n)
  case 0
  then show ?case by simp
next
  case (Suc n)
  have nth: "s ! Suc k = tl s ! k" if "Suc k < length s" for k using that by (cases s) auto
  have d: "is_digit (s ! Suc n)" using assms(1) Suc.prems nth by (simp add: list_all_length)
  have t: "near (2 / 2 ^ 53) (frac_term s (Suc n)) (of_int (sub_zero (s ! Suc n)) / 10 ^ Suc n)"
    by (rule frac_term_near[OF _ d]) simp
  have dec: "decimal (tl s) (Suc n) = decimal (tl s) n + of_int (sub_zero (s ! Suc n)) / 10 ^ Suc n"
    using decimal_Suc[of n "tl s"] d nth Suc.prems by simp
  show ?case
  proof (cases "n = 0")
    case True
    then have "near (4 / 2 ^ 53) (frac_term s (Suc n)) (of_int (sub_zero (s ! Suc n)) / 10 ^ Suc n)"
      using t by (simp add: near_def)
    then show ?thesis using True dec by (simp add: decimal_def digits_value_def)
  next
    case False
    have "decimal (tl s) (Suc n) \<le> 1 - 1 / 10 ^ Suc n"
      using decimal_bounds[OF assms(1), of "Suc n"] Suc.prems by simp
    also have "\<dots> \<le> 1" by simp
    finally have le: "decimal (tl s) n + of_int (sub_zero (s ! Suc n)) / 10 ^ Suc n \<le> 1"
      unfolding dec .
    have n: "(of_nat n :: rat) \<le> 9" using Suc.prems by simp
    have "4 * of_nat n / 2 ^ 53 + 2 / 2 ^ 53 + (1 + (4 * of_nat n / 2 ^ 53 + 2 / 2 ^ 53)) / 2 ^ 53
          \<le> 4 * rat_of_nat (Suc n) / 2 ^ 53"
      using n by (simp add: field_simps)
    from near_fadd[OF Suc.IH t le this] show ?thesis using False Suc.prems dec by simp
  qed
qed

lemma parse_fraction_near:
  assumes "list_all is_digit ds" and "0 < length ds" and "length ds \<le> 9"
  shows "\<exists>f. parse_fraction (CHR ''.'' # ds) = Some f \<and>
     near (36 / 2 ^ 53) f (decimal ds (length ds))"
proof -
  have weaken: "near (4 * of_nat n / 2 ^ 53) a b \<Longrightarrow> n \<le> 9 \<Longrightarrow> near (36 / 2 ^ 53) a b" for n a b
  proof -
    assume a: "near (4 * of_nat n / 2 ^ 53) a b" "n \<le> 9"
    then have "4 * of_nat n / 2 ^ 53 \<le> (36 :: rat) / 2 ^ 53" by (simp add: divide_right_mono)
    with a(1) show "near (36 / 2 ^ 53) a b" by (simp add: near_def)
  qed
  have sum: "near (36 / 2 ^ 53) (atof_sum (CHR ''.'' # ds) (length ds)) (decimal ds (length ds))"
    using atof_sum_near[of "CHR ''.'' # ds" "length ds"] assms by (intro weaken) auto
  have d: "0 \<le> decimal ds (length ds)" "decimal ds (length ds) \<le> 1"
    using decimal_bounds[OF assms(1) order_refl] by (auto intro: order_trans)
  have "near (1 / 2 ^ 53) (round_double (decimal ds (length ds))) (decimal ds (length ds))"
    using d by (intro near_round[of 0 _ _ 1]) (auto simp: near_def)
  then have pf: "near (36 / 2 ^ 53) (round_double (decimal ds (length ds))) (decimal ds (length ds))"
    by (simp add: near_def)
  consider "length ds = 3" | "length ds = 6" | "length ds = 9"
    | "length ds \<noteq> 3" "length ds \<noteq> 6" "length ds \<noteq> 9" by blast
  then show ?thesis
  proof cases
    case 4
    then have "parse_fraction (CHR ''.'' # ds) = Some (round_double (decimal ds (length ds)))"
      using assms(2) by (auto simp: parse_fraction_def parse_float_def decimal_def)
    then show ?thesis using pf by blast
  qed (use sum in \<open>auto simp: parse_fraction_def atof3_def atof6_def atof9_def
      simp del: atof_sum.simps\<close>)
qed

lemma nanos_of_fraction:
  assumes "near (36 / 2 ^ 53) f (of_int v / 10 ^ n)" and "n \<le> 9" and "v \<le> 10 ^ n"
  shows "\<lfloor>fmul f 1000000000\<rfloor> \<in> {v * 10 ^ (9 - n) - 1, v * 10 ^ (9 - n)}"
proof -
  let ?x = "rat_of_int v / 10 ^ n"
  have pow: "(10 :: rat) ^ n * 10 ^ (9 - n) = 10 ^ 9" using assms(2) by (simp flip: power_add)
  have ex: "?x * 1000000000 = of_int (v * 10 ^ (9 - n))"
    using pow by (simp add: field_simps)
  have "rat_of_int v \<le> 10 ^ n" using assms(3) by (metis of_int_le_iff of_int_numeral of_int_power)
  then have x1: "?x \<le> 1" by simp
  have "f * 1000000000 - ?x * 1000000000 = (f - ?x) * 1000000000"
    by (simp only: left_diff_distrib)
  then have "\<bar>f * 1000000000 - ?x * 1000000000\<bar> = \<bar>f - ?x\<bar> * 1000000000"
    by (simp only: abs_mult abs_numeral)
  also have "\<dots> \<le> 36 / 2 ^ 53 * 1000000000"
    using assms(1) by (intro mult_right_mono) (auto simp: near_def)
  finally have "near (36 / 2 ^ 53 * 1000000000) (f * 1000000000) (?x * 1000000000)"
    using assms(1) by (simp add: near_def)
  then have "near (1 / 4) (fmul f 1000000000) (?x * 1000000000)"
    unfolding fmul_def
  proof (rule near_round)
    show "?x * 1000000000 \<le> 1000000000" 
      using mult_right_mono[OF x1, of 1000000000] by simp
  qed simp
  then have "\<bar>fmul f 1000000000 - of_int (v * 10 ^ (9 - n))\<bar> \<le> 1 / 4"
    unfolding ex near_def by simp
  then have "\<lfloor>fmul f 1000000000\<rfloor> = v * 10 ^ (9 - n) - 1 \<or> \<lfloor>fmul f 1000000000\<rfloor> = v * 10 ^ (9 - n)"
    by linarith
  then show ?thesis by blast
qed


section \<open>Well-formed timestamps\<close>

definition dig :: "nat \<Rightarrow> char" where
  "dig n = char_of (48 + n mod 10)"

definition pad2 :: "nat \<Rightarrow> bytes" where
  "pad2 n = [dig (n div 10), dig n]"

definition pad4 :: "nat \<Rightarrow> bytes" where
  "pad4 n = [dig (n div 1000), dig (n div 100), dig (n div 10), dig n]"

definition stamp :: "nat \<Rightarrow> nat \<Rightarrow> nat \<Rightarrow> nat \<Rightarrow> nat \<Rightarrow> nat \<Rightarrow> bytes \<Rightarrow> bytes" where
  "stamp y mo d h mi s rest =
     pad4 y @ ''-'' @ pad2 mo @ ''-'' @ pad2 d @ ''T'' @ pad2 h @ '':'' @ pad2 mi @ '':'' @ pad2 s @ rest"

lemma code_dig [simp]: "code_of (dig n) = 48 + n mod 10"
  by (simp add: dig_def)

lemma sub_zero_dig [simp]: "sub_zero (dig n) = int (n mod 10)"
proof -
  have "is_digit (dig n)" by (simp add: is_digit_def)
  then show ?thesis using sub_zero_digit[of "dig n"] by simp
qed

lemma dec_step: "int (n div 10) * 10 + int (n mod 10) = int n"
proof -
  have "int (n div 10 * 10 + n mod 10) = int n" by simp
  then show ?thesis by (simp only: of_nat_add of_nat_mult of_nat_numeral)
qed

lemma atoi2_pad2: "n < 100 \<Longrightarrow> atoi2 (pad2 n) = Inr (int n)"
  using dec_step[of n]
  by (simp add: atoi2_def pad2_def go_index_def)

lemma atoi4_pad4: "n < 10000 \<Longrightarrow> atoi4 (pad4 n) = Inr (int n)"
proof -
  assume n: "n < 10000"
  have "int (n div 10 div 10 div 10) * 10 + int (n div 10 div 10 mod 10) = int (n div 10 div 10)"
    "int (n div 10 div 10) * 10 + int (n div 10 mod 10) = int (n div 10)"
    "int (n div 10) * 10 + int (n mod 10) = int n"
    by (rule dec_step)+
  then show ?thesis using n by (simp add: atoi4_def pad4_def go_index_def div_mult2_eq[symmetric])
qed

lemma any_differs_stamp:
  "any_differs (stamp y mo d h mi s rest)
     [(4, CHR ''-''), (7, CHR ''-''), (10, CHR ''T''), (13, CHR '':''), (16, CHR '':'')] = Inr False"
  by (simp add: differs_at_def stamp_def pad4_def pad2_def go_index_def)

lemma go_slice_mid:
  "i = int (length a) \<Longrightarrow> j = i + int (length b) \<Longrightarrow> go_slice (a @ b @ c) i j = Inr b"
  by (simp add: go_slice_def nat_add_distrib)

lemma read_fields_stamp:
  assumes "y < 10000" and "mo < 100" and "d < 100" and "h < 100" and "mi < 100" and "s < 100"
  shows "read_fields (stamp y mo d h mi s rest) = Inr (int y, int mo, int d, int h, int mi, int s, rest)"
proof -
  let ?t = "stamp y mo d h mi s rest"
  have len: "length ?t = 19 + length rest" by (simp add: stamp_def pad4_def pad2_def)
  note defs = stamp_def pad4_def pad2_def
  have "go_slice ?t 0 4 = Inr (pad4 y)"
    using go_slice_mid[of 0 "[]" 4 "pad4 y"] by (simp add: defs)
  moreover have "go_slice ?t 5 7 = Inr (pad2 mo)"
    using go_slice_mid[of 5 "pad4 y @ ''-''" 7 "pad2 mo"] by (simp add: defs)
  moreover have "go_slice ?t 8 10 = Inr (pad2 d)"
    using go_slice_mid[of 8 "pad4 y @ ''-'' @ pad2 mo @ ''-''" 10 "pad2 d"] by (simp add: defs)
  moreover have "go_slice ?t 11 13 = Inr (pad2 h)"
    using go_slice_mid[of 11 "pad4 y @ ''-'' @ pad2 mo @ ''-'' @ pad2 d @ ''T''" 13 "pad2 h"]
    by (simp add: defs)
  moreover have "go_slice ?t 14 16 = Inr (pad2 mi)"
    using go_slice_mid[of 14 "pad4 y @ ''-'' @ pad2 mo @ ''-'' @ pad2 d @ ''T'' @ pad2 h @ '':''" 16 "pad2 mi"]
    by (simp add: defs)
  moreover have "go_slice ?t 17 19 = Inr (pad2 s)"
    using go_slice_mid[of 17 "pad4 y @ ''-'' @ pad2 mo @ ''-'' @ pad2 d @ ''T'' @ pad2 h @ '':'' @ pad2 mi @ '':''"
        19 "pad2 s"] by (simp add: defs)
  moreover have "go_slice ?t 19 (int (length ?t)) = Inr rest"
    using go_slice_mid[of 19 "pad4 y @ ''-'' @ pad2 mo @ ''-'' @ pad2 d @ ''T'' @ pad2 h @ '':'' @ pad2 mi @ '':'' @ pad2 s"
        "int (length ?t)" rest "[]"] unfolding len by (simp add: defs)
  ultimately show ?thesis using assms by (simp add: read_fields_def atoi2_pad2 atoi4_pad4)
qed

lemma split_fraction_digits:
  assumes "list_all is_digit ds" and "ds \<noteq> []" and "tz = [] \<or> \<not> is_digit (hd tz)"
  shows "split_fraction_and_timezone (CHR ''.'' # ds @ tz) = (CHR ''.'' # ds, tz)"
proof -
  have "takeWhile is_digit (ds @ tz) = ds" "dropWhile is_digit (ds @ tz) = tz"
    using assms by (auto simp: list_all_iff takeWhile_append dropWhile_append) (cases tz; simp)+
  then show ?thesis using assms(2) by (simp add: split_fraction_and_timezone_def)
qed

definition cache_ok :: "zone_cache \<Rightarrow> bool" where
  "cache_ok cache \<longleftrightarrow>
     (\<forall>tz off. cache tz = Some off \<longrightarrow> parse_zone (str_contains tz '':'') tz = Some off)"

lemma lookup_zone_ok:
  "cache_ok cache \<Longrightarrow> parse_zone (str_contains tz '':'') tz = Some off \<Longrightarrow>
     \<exists>cache'. lookup_zone cache tz = Some (off, cache') \<and> cache_ok cache'"
  by (auto simp: lookup_zone_def cache_ok_def split: option.splits)

lemma parse_zone_not_digit: "parse_zone colon tz = Some off \<Longrightarrow> tz \<noteq> [] \<and> \<not> is_digit (hd tz)"
  by (cases tz)
    (auto simp: parse_zone_def zone_offset_def is_digit_def split: if_splits option.splits)

lemma time_date_seconds:
  "0 \<le> ns \<Longrightarrow> ns < 1000000000 \<Longrightarrow>
     time_date off y mo d h mi s ns =
       (unix_seconds y mo d h mi s - off (unix_seconds y mo d h mi s)) * 1000000000 + ns"
  by (simp add: time_date_def Let_def)

lemma parse_stamp:
  assumes fields: "y < 10000" "mo < 100" "d < 100" "h < 100" "mi < 100" "s < 100"
    and ds: "list_all is_digit ds" "0 < length ds" "length ds \<le> 9"
    and tz: "parse_zone (str_contains tz '':'') tz = Some off" and cache: "cache_ok cache"
  shows "\<exists>ns cache'. parse_rfc3339_timestamp local_offset
       (stamp y mo d h mi s (CHR ''.'' # ds @ tz)) cache =
     Inr (Inr ((unix_seconds (int y) (int mo) (int d) (int h) (int mi) (int s) - off) * 1000000000 + ns),
          cache') \<and> cache_ok cache' \<and> 0 \<le> ns \<and>
     ns \<in> {digits_value ds * 10 ^ (9 - length ds) - 1, digits_value ds * 10 ^ (9 - length ds)}"
proof -
  obtain f where f: "parse_fraction (CHR ''.'' # ds) = Some f"
    "near (36 / 2 ^ 53) f (decimal ds (length ds))"
    using parse_fraction_near[OF ds] by blast
  have "decimal ds (length ds) \<le> 1 - 1 / 10 ^ length ds"
    using decimal_bounds[OF ds(1) order_refl] by blast
  then have "rat_of_int (digits_value ds) \<le> 10 ^ length ds - 1"
    by (simp add: decimal_def field_simps)
  then have "rat_of_int (digits_value ds) \<le> rat_of_int (10 ^ length ds - 1)" by simp
  then have v: "digits_value ds \<le> 10 ^ length ds - 1" by (simp only: of_int_le_iff)
  let ?N = "digits_value ds * 10 ^ (9 - length ds)"
  obtain n where fn: "\<lfloor>fmul f 1000000000\<rfloor> = n" by blast
  have n: "n \<in> {?N - 1, ?N}"
    unfolding fn[symmetric]
    using f(2) v by (intro nanos_of_fraction[OF _ ds(3)]) (auto simp: decimal_def)
  have "0 \<le> fmul f 1000000000"
    using f(2) round_double_nonneg[of "f * 1000000000"] by (simp add: near_def fmul_def)
  then have n0: "0 \<le> n" unfolding fn[symmetric] by simp
  have pow: "(10 :: int) ^ length ds * 10 ^ (9 - length ds) = 10 ^ 9"
    using ds(3) by (simp flip: power_add)
  have "?N \<le> (10 ^ length ds - 1) * 10 ^ (9 - length ds)" using v by (rule mult_right_mono) simp
  also have "\<dots> < 10 ^ 9" using pow by (simp add: left_diff_distrib)
  finally have n1: "n < 1000000000" using n by auto
  obtain cache' where c: "lookup_zone cache tz = Some (off, cache')" "cache_ok cache'"
    using lookup_zone_ok[OF cache tz] by blast
  have tzd: "tz \<noteq> []" "\<not> is_digit (hd tz)" using parse_zone_not_digit[OF tz] by auto
  have "split_fraction_and_timezone (CHR ''.'' # ds @ tz) = (CHR ''.'' # ds, tz)"
    using ds tzd by (intro split_fraction_digits) auto
  then have "parse_rfc3339_timestamp local_offset (stamp y mo d h mi s (CHR ''.'' # ds @ tz)) cache =
     Inr (Inr (time_date (\<lambda>_. off) (int y) (int mo) (int d) (int h) (int mi) (int s) n), cache')"
    using f(1) fn c(1) tzd(1)
    by (simp add: parse_rfc3339_timestamp_def any_differs_stamp read_fields_stamp[OF fields] Let_def
        del: any_differs.simps)
  then show ?thesis using n n0 n1 c(2) by (simp add: time_date_seconds)
qed

section \<open>Properties\<close>

text \<open>
  C30: a time stamp with one to nine decimals and a zone is read as the instant it denotes, or one
  nanosecond less (the decimals go through floating point and are truncated); the zone cache
  keeps answering what the zone parser answers.
\<close>

theorem rfc3339_instant:
  assumes "y < 10000" "mo < 100" "d < 100" "h < 100" "mi < 100" "s < 100"
    and "list_all is_digit ds" "0 < length ds" "length ds \<le> 9"
    and "parse_zone (str_contains tz '':'') tz = Some off" and "cache_ok cache"
  shows "\<exists>ns cache'. parse_rfc3339_timestamp local_offset (stamp y mo d h mi s (CHR ''.'' # ds @ tz)) cache =
       Inr (Inr ((unix_seconds (int y) (int mo) (int d) (int h) (int mi) (int s) - off) * 1000000000 + ns), cache') \<and>
     cache_ok cache' \<and> 0 \<le> ns \<and>
     ns \<in> {digits_value ds * 10 ^ (9 - length ds) - 1, digits_value ds * 10 ^ (9 - length ds)}"
  using parse_stamp assms by blast

theorem rfc3339_instant_witness:
  "\<exists>ns cache'. parse_rfc3339_timestamp (\<lambda>_. 0) ''2020-09-17T16:51:47.867+02:00'' Map.empty =
       Inr (Inr (1600354307 * 1000000000 + ns), cache') \<and> ns \<in> {866999999, 867000000}"
proof -
  have st: "stamp 2020 9 17 16 51 47 (CHR ''.'' # ''867'' @ ''+02:00'') = ''2020-09-17T16:51:47.867+02:00''"
    by code_simp
  have z: "parse_zone (str_contains ''+02:00'' '':'') ''+02:00'' = Some 7200" by code_simp
  have v: "digits_value ''867'' * 10 ^ (9 - length ''867'') = 867000000" by code_simp
  have u: "unix_seconds (int 2020) (int 9) (int 17) (int 16) (int 51) (int 47) - 7200 = 1600354307" by code_simp
  have d: "list_all is_digit ''867''" "0 < length ''867''" "length ''867'' \<le> 9" by code_simp+
  have c: "cache_ok Map.empty" by (simp add: cache_ok_def)
  show ?thesis
    using rfc3339_instant[of 2020 9 17 16 51 47 "''867''", OF _ _ _ _ _ _ d z c, of "\<lambda>_. 0"]
    unfolding st v u by (simp; blast)
qed

end
