(* ===== verification/Transforms.thy ===== *)
theory Transforms
  imports Template Matcher Extract_Special Redact_Email Parse_Time Utf8
begin

text \<open>
  The log transforms of \<open>transform/*\<close> and \<open>base/bsupport/logtransforms.go\<close>: their
  configurations (\<open>VerifyConfig\<close>, \<open>NewTransform\<close>) and their \<open>Transform\<close> methods. A transform is
  a value that carries its state (drop counters, time zone cache); running it returns the
  result, the transform after, the record after, and the calls to the custom counters as
  \<open>(label, length)\<close> events, in order. Field values are values: transforms that write into the
  bytes of a string (\<open>truncate\<close>) are modelled for the field they write. A Go map of a
  configuration is the list of its entries in iteration order.
\<close>

section \<open>Regular expressions\<close>

text \<open>
  \<open>regexp.Regexp\<close>, as far as it is used: the names of the captures (the whole match first,
  unnamed ones empty), the pairs of \<open>FindStringSubmatchIndex\<close>, and \<open>ReplaceAllString\<close>.
\<close>

record regexp =
  subexpNames :: "bytes list"
  findSubmatchIndex :: "bytes \<Rightarrow> (int \<times> int) list option"
  replaceAll :: "bytes \<Rightarrow> bytes \<Rightarrow> bytes"

record environment =
  compileRegexp :: "bytes \<Rightarrow> regexp option"
  localOffset :: "int \<Rightarrow> int"

section \<open>Configurations\<close>

datatype transform_config =
    AddFieldsConfig "(bytes \<times> bytes) list"
  | BlockConfig "transform_config list"
  | DelFieldsConfig "bytes list"
  | DropConfig matcher_config int bytes
  | ExtractConfig bytes bytes
  | ExtractSpecialConfig extractor_position bytes bytes int bytes
  | IfConfig matcher_config "transform_config list"
  | MapValueConfig bytes "(bytes \<times> bytes) list" bytes
  | ParseTimeConfig bytes bytes
  | RedactEmailConfig bytes bytes
  | ReplaceConfig bytes bytes bytes
  | SwitchConfig "(matcher_config \<times> transform_config list) list"
  | TruncateConfig bytes int bytes
  | UnescapeConfig bytes

text \<open>A sequence of checks: the first error is the result.\<close>

definition cfg_then :: "unit cfg go \<Rightarrow> unit cfg go \<Rightarrow> unit cfg go" where
  "cfg_then a b = go_bind a (\<lambda>r. case r of Inl e \<Rightarrow> Inr (Inl e) | Inr _ \<Rightarrow> b)"

definition fail_if :: "bool \<Rightarrow> cfg_error \<Rightarrow> unit cfg go" where
  "fail_if bad e = Inr (if bad then Inl e else Inr ())"

definition check_locator :: "log_schema \<Rightarrow> bytes \<Rightarrow> unit cfg go" where
  "check_locator s name =
     (case create_field_locator s name of Inl e \<Rightarrow> Inr (Inl e) | Inr _ \<Rightarrow> Inr (Inr ()))"

definition check_key :: "log_schema \<Rightarrow> bytes \<Rightarrow> unit cfg go" where
  "check_key s key = cfg_then (fail_if (key = []) (Unspecified ''key'')) (check_locator s key)"

fun verify_add_fields :: "log_schema \<Rightarrow> (bytes \<times> bytes) list \<Rightarrow> unit cfg go" where
  "verify_add_fields s [] = Inr (Inr ())"
| "verify_add_fields s ((dst, expr) # rest) =
     cfg_then (check_locator s dst)
       (go_bind (new_expander expr (create_template_variable_resolver s)) (\<lambda>r.
          case r of Inl e \<Rightarrow> Inr (Inl e) | Inr _ \<Rightarrow> verify_add_fields s rest))"

fun verify_keys :: "log_schema \<Rightarrow> bytes list \<Rightarrow> unit cfg go" where
  "verify_keys s [] = Inr (Inr ())"
| "verify_keys s (key # rest) = cfg_then (check_locator s key) (verify_keys s rest)"

definition verify_drop :: "log_schema \<Rightarrow> matcher_config \<Rightarrow> int \<Rightarrow> bytes \<Rightarrow> unit cfg go" where
  "verify_drop s match percentage label =
     cfg_then (fail_if (match = []) (EmptyList ''match''))
     (cfg_then (Inr (verify_matcher s match))
     (cfg_then (fail_if (percentage < 1 \<or> percentage > 100) (InvalidValue ''percentage''))
        (fail_if (label = []) (Unspecified ''metricLabel''))))"

text \<open>The loop over the capture names checks \<open>c.Key\<close> again for each of them, as the source does.\<close>

definition verify_extract :: "environment \<Rightarrow> log_schema \<Rightarrow> bytes \<Rightarrow> bytes \<Rightarrow> unit cfg go" where
  "verify_extract env s key pattern =
     cfg_then (check_key s key)
     (cfg_then (fail_if (pattern = []) (Unspecified ''pattern''))
        (case compileRegexp env pattern of
           None \<Rightarrow> Inr (Inl (InvalidValue ''pattern''))
         | Some re \<Rightarrow> verify_keys s (map (\<lambda>_. key) (subexpNames re))))"

definition verify_extract_special ::
  "log_schema \<Rightarrow> bytes \<Rightarrow> bytes \<Rightarrow> int \<Rightarrow> bytes \<Rightarrow> unit cfg go" where
  "verify_extract_special s key pattern maxLength destKey =
     cfg_then (check_key s key)
     (cfg_then (fail_if (pattern = []) (Unspecified ''pattern''))
     (cfg_then (go_bind (split_pattern pattern) (\<lambda>r. Inr (case r of Inl e \<Rightarrow> Inl e | Inr _ \<Rightarrow> Inr ())))
     (cfg_then (fail_if (maxLength \<le> 0) (InvalidValue ''maxLength''))
     (cfg_then (fail_if (destKey = []) (Unspecified ''destKey''))
        (check_locator s destKey)))))"

definition verify_map_value :: "log_schema \<Rightarrow> bytes \<Rightarrow> (bytes \<times> bytes) list \<Rightarrow> unit cfg go" where
  "verify_map_value s key mapping =
     cfg_then (check_key s key) (fail_if (mapping = []) (EmptyList ''mapping''))"

definition verify_labelled :: "log_schema \<Rightarrow> bytes \<Rightarrow> bytes \<Rightarrow> unit cfg go" where
  "verify_labelled s key label =
     cfg_then (check_key s key) (fail_if (label = []) (Unspecified ''label''))"

definition verify_replace :: "environment \<Rightarrow> log_schema \<Rightarrow> bytes \<Rightarrow> bytes \<Rightarrow> unit cfg go" where
  "verify_replace env s key pattern =
     cfg_then (check_key s key)
     (cfg_then (fail_if (pattern = []) (Unspecified ''pattern''))
        (fail_if (compileRegexp env pattern = None) (InvalidValue ''pattern'')))"

definition verify_truncate :: "log_schema \<Rightarrow> bytes \<Rightarrow> int \<Rightarrow> bytes \<Rightarrow> unit cfg go" where
  "verify_truncate s key maxLength sfx =
     cfg_then (check_key s key)
     (cfg_then (fail_if (maxLength \<le> 0) (InvalidValue ''maxLength''))
        (fail_if (sfx = []) (Unspecified ''suffix'')))"

fun verify_transform :: "environment \<Rightarrow> log_schema \<Rightarrow> transform_config \<Rightarrow> unit cfg go"
and verify_transforms :: "environment \<Rightarrow> log_schema \<Rightarrow> transform_config list \<Rightarrow> unit cfg go"
and verify_cases ::
  "environment \<Rightarrow> log_schema \<Rightarrow> (matcher_config \<times> transform_config list) list \<Rightarrow> unit cfg go" where
  "verify_transform env s (AddFieldsConfig pairs) =
     cfg_then (fail_if (pairs = []) (EmptyList ''fields'')) (verify_add_fields s pairs)"
| "verify_transform env s (BlockConfig steps) =
     cfg_then (fail_if (steps = []) (EmptyList ''steps'')) (verify_transforms env s steps)"
| "verify_transform env s (DelFieldsConfig keys) =
     cfg_then (fail_if (keys = []) (EmptyList ''keys'')) (verify_keys s keys)"
| "verify_transform env s (DropConfig match percentage label) = verify_drop s match percentage label"
| "verify_transform env s (ExtractConfig key pattern) = verify_extract env s key pattern"
| "verify_transform env s (ExtractSpecialConfig pos key pattern maxLength destKey) =
     verify_extract_special s key pattern maxLength destKey"
| "verify_transform env s (IfConfig match thens) =
     cfg_then (fail_if (match = []) (EmptyList ''match''))
     (cfg_then (Inr (verify_matcher s match))
     (cfg_then (fail_if (thens = []) (EmptyList ''then'')) (verify_transforms env s thens)))"
| "verify_transform env s (MapValueConfig key mapping def) = verify_map_value s key mapping"
| "verify_transform env s (ParseTimeConfig key label) = verify_labelled s key label"
| "verify_transform env s (RedactEmailConfig key label) = verify_labelled s key label"
| "verify_transform env s (ReplaceConfig key pattern repl) = verify_replace env s key pattern"
| "verify_transform env s (SwitchConfig cases) =
     cfg_then (fail_if (cases = []) (EmptyList ''cases'')) (verify_cases env s cases)"
| "verify_transform env s (TruncateConfig key maxLength sfx) = verify_truncate s key maxLength sfx"
| "verify_transform env s (UnescapeConfig key) = check_key s key"
| "verify_transforms env s [] = Inr (Inr ())"
| "verify_transforms env s (c # cs) = cfg_then (verify_transform env s c) (verify_transforms env s cs)"
| "verify_cases env s [] = Inr (Inr ())"
| "verify_cases env s ((match, thens) # rest) =
     cfg_then (fail_if (match = []) (EmptyList ''match''))
     (cfg_then (Inr (verify_matcher s match))
     (cfg_then (fail_if (thens = []) (EmptyList ''then''))
     (cfg_then (verify_transforms env s thens) (verify_cases env s rest))))"

section \<open>Transforms\<close>

record drop_state =
  dropMatcher :: log_matcher
  dropLabel :: bytes
  targetRate :: int
  totalMatched :: int
  totalDropped :: int

datatype transform =
    AddFields "(locator \<times> expander) list"
  | Block "transform list"
  | DelFields "locator list"
  | Drop drop_state
  | Extract locator regexp "locator list"
  | ExtractSpecial locator string_extractor locator
  | IfThen log_matcher "transform list"
  | MapValue locator "bytes \<Rightarrow> bytes option" bytes
  | ParseTime locator zone_cache bytes
  | RedactEmail locator bytes
  | Replace locator regexp bytes
  | Switch "(log_matcher \<times> transform list) list"
  | Truncate locator int bytes
  | TUnescape locator

text \<open>\<open>NewTransform\<close>: the transform and the counter labels it registers.\<close>

fun new_add_fields :: "log_schema \<Rightarrow> (bytes \<times> bytes) list \<Rightarrow> (locator \<times> expander) list go" where
  "new_add_fields s [] = Inr []"
| "new_add_fields s ((dst, expr) # rest) =
     go_bind (must_create_field_locator s dst) (\<lambda>loc.
     go_bind (new_expander expr (create_template_variable_resolver s)) (\<lambda>r.
     go_bind (must ''template'' r) (\<lambda>tpl.
     go_bind (new_add_fields s rest) (\<lambda>pairs. Inr ((loc, tpl) # pairs)))))"

fun must_locators :: "log_schema \<Rightarrow> bytes list \<Rightarrow> locator list go" where
  "must_locators s [] = Inr []"
| "must_locators s (key # keys) =
     go_bind (must_create_field_locator s key) (\<lambda>loc.
     go_bind (must_locators s keys) (\<lambda>locs. Inr (loc # locs)))"

definition new_drop :: "log_schema \<Rightarrow> matcher_config \<Rightarrow> int \<Rightarrow> bytes \<Rightarrow> (transform \<times> bytes list) go" where
  "new_drop s match percentage label =
     go_bind (new_matcher s match) (\<lambda>m.
       Inr (Drop \<lparr>dropMatcher = m, dropLabel = label, targetRate = percentage, totalMatched = 0,
                  totalDropped = 0\<rparr>,
            if percentage < 100 then [label, CHR ''!'' # label] else [label]))"

fun subexp_locators :: "log_schema \<Rightarrow> bytes list \<Rightarrow> locator list go" where
  "subexp_locators s [] = Inr []"
| "subexp_locators s (name # names) =
     go_bind (if name = [] then Inr MissingFieldLocator else must_create_field_locator s name) (\<lambda>loc.
     go_bind (subexp_locators s names) (\<lambda>locs. Inr (loc # locs)))"

definition must_compile :: "environment \<Rightarrow> bytes \<Rightarrow> regexp go" where
  "must_compile env pattern =
     (case compileRegexp env pattern of
        None \<Rightarrow> Inl (LoggerPanic ''regexp: Compile'')
      | Some re \<Rightarrow> Inr re)"

definition new_extract :: "environment \<Rightarrow> log_schema \<Rightarrow> bytes \<Rightarrow> bytes \<Rightarrow> transform go" where
  "new_extract env s key pattern =
     go_bind (must_compile env pattern) (\<lambda>re.
     go_bind (subexp_locators s (subexpNames re)) (\<lambda>locs.
     go_bind (must_create_field_locator s key) (\<lambda>loc. Inr (Extract loc re locs))))"

definition new_extract_special ::
  "log_schema \<Rightarrow> extractor_position \<Rightarrow> bytes \<Rightarrow> bytes \<Rightarrow> int \<Rightarrow> bytes \<Rightarrow> transform run" where
  "new_extract_special s pos key pattern maxLength destKey =
     run_bind (new_string_extractor_simple pos pattern maxLength) (\<lambda>r.
       Some (go_bind (must ''pattern'' r) (\<lambda>ex.
             go_bind (must_create_field_locator s key) (\<lambda>src.
             go_bind (must_create_field_locator s destKey) (\<lambda>dst.
               Inr (ExtractSpecial src ex dst))))))"

definition with_locator ::
  "log_schema \<Rightarrow> bytes \<Rightarrow> bytes list \<Rightarrow> (locator \<Rightarrow> transform) \<Rightarrow> (transform \<times> bytes list) run" where
  "with_locator s key labels mk =
     Some (go_bind (must_create_field_locator s key) (\<lambda>loc. Inr (mk loc, labels)))"

fun new_transform ::
  "environment \<Rightarrow> log_schema \<Rightarrow> transform_config \<Rightarrow> (transform \<times> bytes list) run"
and new_transforms ::
  "environment \<Rightarrow> log_schema \<Rightarrow> transform_config list \<Rightarrow> (transform list \<times> bytes list) run"
and new_cases ::
  "environment \<Rightarrow> log_schema \<Rightarrow> (matcher_config \<times> transform_config list) list \<Rightarrow>
     ((log_matcher \<times> transform list) list \<times> bytes list) run" where
  "new_transform env s (AddFieldsConfig pairs) =
     Some (go_bind (new_add_fields s pairs) (\<lambda>ps. Inr (AddFields ps, [])))"
| "new_transform env s (BlockConfig steps) =
     run_bind (new_transforms env s steps) (\<lambda>(ts, labels). Some (Inr (Block ts, labels)))"
| "new_transform env s (DelFieldsConfig keys) =
     Some (go_bind (must_locators s keys) (\<lambda>locs. Inr (DelFields locs, [])))"
| "new_transform env s (DropConfig match percentage label) = Some (new_drop s match percentage label)"
| "new_transform env s (ExtractConfig key pattern) =
     Some (go_bind (new_extract env s key pattern) (\<lambda>t. Inr (t, [])))"
| "new_transform env s (ExtractSpecialConfig pos key pattern maxLength destKey) =
     run_bind (new_extract_special s pos key pattern maxLength destKey) (\<lambda>t. Some (Inr (t, [])))"
| "new_transform env s (IfConfig match thens) =
     run_bind (Some (new_matcher s match)) (\<lambda>m.
     run_bind (new_transforms env s thens) (\<lambda>(ts, labels). Some (Inr (IfThen m ts, labels))))"
| "new_transform env s (MapValueConfig key mapping def) =
     with_locator s key [] (\<lambda>loc. MapValue loc (map_of mapping) def)"
| "new_transform env s (ParseTimeConfig key label) =
     with_locator s key [label] (\<lambda>loc. ParseTime loc Map.empty label)"
| "new_transform env s (RedactEmailConfig key label) =
     with_locator s key [label] (\<lambda>loc. RedactEmail loc label)"
| "new_transform env s (ReplaceConfig key pattern repl) =
     Some (go_bind (must_create_field_locator s key) (\<lambda>loc.
           go_bind (must_compile env pattern) (\<lambda>re. Inr (Replace loc re repl, []))))"
| "new_transform env s (SwitchConfig cases) =
     run_bind (new_cases env s cases) (\<lambda>(cs, labels). Some (Inr (Switch cs, labels)))"
| "new_transform env s (TruncateConfig key maxLength sfx) =
     with_locator s key [] (\<lambda>loc. Truncate loc maxLength sfx)"
| "new_transform env s (UnescapeConfig key) = with_locator s key [] TUnescape"
| "new_transforms env s [] = Some (Inr ([], []))"
| "new_transforms env s (c # cs) =
     run_bind (new_transform env s c) (\<lambda>(t, l1).
     run_bind (new_transforms env s cs) (\<lambda>(ts, l2). Some (Inr (t # ts, l1 @ l2))))"
| "new_cases env s [] = Some (Inr ([], []))"
| "new_cases env s ((match, thens) # rest) =
     run_bind (Some (new_matcher s match)) (\<lambda>m.
     run_bind (new_transforms env s thens) (\<lambda>(ts, l1).
     run_bind (new_cases env s rest) (\<lambda>(cs, l2). Some (Inr ((m, ts) # cs, l1 @ l2)))))"

section \<open>Running a transform\<close>

type_synonym count_event = "bytes \<times> nat"

definition set_field :: "log_record \<Rightarrow> locator \<Rightarrow> bytes \<Rightarrow> log_record go" where
  "set_field r loc v = go_bind (loc_set loc (Fields r) v) (\<lambda>fs. Inr (r\<lparr>Fields := fs\<rparr>))"

fun run_add_fields :: "(locator \<times> expander) list \<Rightarrow> log_record \<Rightarrow> log_record go" where
  "run_add_fields [] r = Inr r"
| "run_add_fields ((dst, tpl) # rest) r =
     go_bind (run_with_buffer tpl (Fields r) []) (\<lambda>(v, buf).
     go_bind (if v \<noteq> [] then set_field r dst v else Inr r) (\<lambda>r'. run_add_fields rest r'))"

fun run_del_fields :: "locator list \<Rightarrow> log_record \<Rightarrow> log_record go" where
  "run_del_fields [] r = Inr r"
| "run_del_fields (loc # locs) r =
     go_bind (loc_del loc (Fields r)) (\<lambda>fs. run_del_fields locs (r\<lparr>Fields := fs\<rparr>))"

definition run_drop ::
  "drop_state \<Rightarrow> log_record \<Rightarrow> (filter_result \<times> drop_state \<times> count_event list) go" where
  "run_drop d r =
     go_bind (match_record (dropMatcher d) r) (\<lambda>matched.
       if \<not> matched then Inr (PASS, d, [])
       else if targetRate d = 100 then Inr (DROP, d, [(dropLabel d, RawLength r)])
       else if totalMatched d > 0 \<and>
               go_quot (wrap64 (100 * totalDropped d)) (totalMatched d) < targetRate d
       then Inr (DROP, d\<lparr>totalMatched := wrap64 (totalMatched d + 1),
                         totalDropped := wrap64 (totalDropped d + 1)\<rparr>, [(dropLabel d, RawLength r)])
       else if targetRate d < 100
       then Inr (PASS, d\<lparr>totalMatched := wrap64 (totalMatched d + 1)\<rparr>,
                 [(CHR ''!'' # dropLabel d, RawLength r)])
       else Inl NilDereference)"

text \<open>The loop over the captures; \<open>i\<close> is \<open>subexpIndex\<close>.\<close>

fun set_captures ::
  "locator list \<Rightarrow> nat \<Rightarrow> (int \<times> int) list \<Rightarrow> bytes \<Rightarrow> bytes list \<Rightarrow> bytes list go" where
  "set_captures [] i sub value fs = Inr fs"
| "set_captures (loc # locs) i sub value fs =
     (if loc = MissingFieldLocator then set_captures locs (Suc i) sub value fs
      else go_bind (go_index sub (int i)) (\<lambda>(start, end').
        if start < 0 \<or> end' < 0 then set_captures locs (Suc i) sub value fs
        else go_bind (go_slice value start end') (\<lambda>v.
             go_bind (loc_set loc fs v) (\<lambda>fs'. set_captures locs (Suc i) sub value fs'))))"

definition run_extract :: "locator \<Rightarrow> regexp \<Rightarrow> locator list \<Rightarrow> log_record \<Rightarrow> log_record go" where
  "run_extract key re locs r =
     go_bind (loc_get key (Fields r)) (\<lambda>value.
       case findSubmatchIndex re value of
         None \<Rightarrow> Inr r
       | Some sub \<Rightarrow>
           go_bind (set_captures locs 0 sub value (Fields r)) (\<lambda>fs. Inr (r\<lparr>Fields := fs\<rparr>)))"

definition run_extract_special ::
  "locator \<Rightarrow> string_extractor \<Rightarrow> locator \<Rightarrow> log_record \<Rightarrow> log_record go" where
  "run_extract_special src ex dst r =
     go_bind (loc_get src (Fields r)) (\<lambda>value.
       if value = [] then Inr r
       else go_bind (extract_string ex value) (\<lambda>(extracted, remaining).
         if length remaining \<noteq> length value then
           go_bind (set_field r src remaining) (\<lambda>r'. set_field r' dst extracted)
         else Inr r))"

definition run_map_value :: "locator \<Rightarrow> (bytes \<Rightarrow> bytes option) \<Rightarrow> bytes \<Rightarrow> log_record \<Rightarrow> log_record go" where
  "run_map_value key mapping def r =
     go_bind (loc_get key (Fields r)) (\<lambda>old.
       if old = [] then Inr r
       else set_field r key (case mapping old of Some v \<Rightarrow> v | None \<Rightarrow> def))"

definition run_parse_time ::
  "environment \<Rightarrow> locator \<Rightarrow> zone_cache \<Rightarrow> bytes \<Rightarrow> log_record \<Rightarrow>
     (zone_cache \<times> log_record \<times> count_event list) go" where
  "run_parse_time env key cache label r =
     go_bind (loc_get key (Fields r)) (\<lambda>value.
       if value = [] then Inr (cache, r, [])
       else go_bind (parse_rfc3339_timestamp (localOffset env) value cache) (\<lambda>(result, cache').
         case result of
           Inl e \<Rightarrow> Inr (cache', r, [(label, RawLength r)])
         | Inr tm \<Rightarrow> Inr (cache', r\<lparr>Timestamp := tm\<rparr>, [])))"

definition run_redact_email ::
  "locator \<Rightarrow> bytes \<Rightarrow> log_record \<Rightarrow> (log_record \<times> count_event list) run" where
  "run_redact_email key label r =
     run_bind (Some (loc_get key (Fields r))) (\<lambda>value.
       if value = [] then Some (Inr (r, []))
       else run_bind (Some (redact_email_find_first value)) (\<lambda>first.
         case first of
           None \<Rightarrow> Some (Inr (r, []))
         | Some i \<Rightarrow>
             run_bind (redact_email1 value i) (\<lambda>(newValue, numRedacted).
               if numRedacted > 0
               then run_bind (Some (set_field r key newValue)) (\<lambda>r'. Some (Inr (r', [(label, RawLength r)])))
               else Some (Inr (r, [])))))"

definition run_replace :: "locator \<Rightarrow> regexp \<Rightarrow> bytes \<Rightarrow> log_record \<Rightarrow> log_record go" where
  "run_replace key re repl r =
     go_bind (loc_get key (Fields r)) (\<lambda>value.
       if value = [] then Inr r else set_field r key (replaceAll re value repl))"

text \<open>The truncation writes into the bytes of the value: \<open>trimmed\<close> is their new beginning.\<close>

definition truncate_value :: "int \<Rightarrow> bytes \<Rightarrow> bytes \<Rightarrow> bytes go" where
  "truncate_value maxLength sfx value =
     (if int (length value) > maxLength + int (length sfx) then
        go_bind (go_slice value 0 maxLength) (\<lambda>head.
        go_bind (clean_utf8 head) (\<lambda>trimmed.
          overwrite_n_truncate (trimmed @ drop (length trimmed) value) (length trimmed) sfx))
      else Inr value)"

definition run_truncate :: "locator \<Rightarrow> int \<Rightarrow> bytes \<Rightarrow> log_record \<Rightarrow> log_record go" where
  "run_truncate key maxLength sfx r =
     go_bind (loc_get key (Fields r)) (\<lambda>value.
       if int (length value) > maxLength + int (length sfx)
       then go_bind (truncate_value maxLength sfx value) (set_field r key)
       else Inr r)"

definition run_unescape :: "locator \<Rightarrow> log_record \<Rightarrow> log_record go" where
  "run_unescape key r =
     (if Unescaped r then Inr r
      else let r1 = r\<lparr>Unescaped := True\<rparr> in
        go_bind (loc_get key (Fields r1)) (\<lambda>value.
          if value = [] then Inr r1
          else case find_first syslog_unescaper value of
                 None \<Rightarrow> Inr r1
               | Some first \<Rightarrow>
                   go_bind (run_from_first syslog_unescaper value first) (set_field r1 key)))"

type_synonym step = "filter_result \<times> transform \<times> log_record \<times> count_event list"

definition passing :: "transform \<Rightarrow> log_record go \<Rightarrow> step run" where
  "passing t m = Some (go_bind m (\<lambda>r. Inr (PASS, t, r, [])))"

fun run_transform :: "environment \<Rightarrow> transform \<Rightarrow> log_record \<Rightarrow> step run"
and run_transforms ::
  "environment \<Rightarrow> transform list \<Rightarrow> log_record \<Rightarrow>
     (filter_result \<times> transform list \<times> log_record \<times> count_event list) run"
and run_cases ::
  "environment \<Rightarrow> (log_matcher \<times> transform list) list \<Rightarrow> log_record \<Rightarrow>
     (filter_result \<times> (log_matcher \<times> transform list) list \<times> log_record \<times> count_event list) run" where
  "run_transform env (AddFields pairs) r = passing (AddFields pairs) (run_add_fields pairs r)"
| "run_transform env (Block steps) r =
     run_bind (run_transforms env steps r) (\<lambda>(res, steps', r', evs). Some (Inr (res, Block steps', r', evs)))"
| "run_transform env (DelFields locs) r = passing (DelFields locs) (run_del_fields locs r)"
| "run_transform env (Drop d) r =
     Some (go_bind (run_drop d r) (\<lambda>(res, d', evs). Inr (res, Drop d', r, evs)))"
| "run_transform env (Extract key re locs) r = passing (Extract key re locs) (run_extract key re locs r)"
| "run_transform env (ExtractSpecial src ex dst) r =
     passing (ExtractSpecial src ex dst) (run_extract_special src ex dst r)"
| "run_transform env (IfThen m thens) r =
     run_bind (Some (match_record m r)) (\<lambda>matched.
       if matched
       then run_bind (run_transforms env thens r) (\<lambda>(res, thens', r', evs). Some (Inr (res, IfThen m thens', r', evs)))
       else Some (Inr (PASS, IfThen m thens, r, [])))"
| "run_transform env (MapValue key mapping def) r =
     passing (MapValue key mapping def) (run_map_value key mapping def r)"
| "run_transform env (ParseTime key cache label) r =
     Some (go_bind (run_parse_time env key cache label r) (\<lambda>(cache', r', evs).
       Inr (PASS, ParseTime key cache' label, r', evs)))"
| "run_transform env (RedactEmail key label) r =
     run_bind (run_redact_email key label r) (\<lambda>(r', evs). Some (Inr (PASS, RedactEmail key label, r', evs)))"
| "run_transform env (Replace key re repl) r = passing (Replace key re repl) (run_replace key re repl r)"
| "run_transform env (Switch cases) r =
     run_bind (run_cases env cases r) (\<lambda>(res, cases', r', evs). Some (Inr (res, Switch cases', r', evs)))"
| "run_transform env (Truncate key maxLength sfx) r =
     passing (Truncate key maxLength sfx) (run_truncate key maxLength sfx r)"
| "run_transform env (TUnescape key) r = passing (TUnescape key) (run_unescape key r)"
| "run_transforms env [] r = Some (Inr (PASS, [], r, []))"
| "run_transforms env (t # ts) r =
     run_bind (run_transform env t r) (\<lambda>(res, t', r', evs).
       if res = DROP then Some (Inr (DROP, t' # ts, r', evs))
       else run_bind (run_transforms env ts r') (\<lambda>(res', ts', r'', evs').
              Some (Inr (res', t' # ts', r'', evs @ evs'))))"
| "run_cases env [] r = Some (Inr (PASS, [], r, []))"
| "run_cases env ((m, thens) # rest) r =
     run_bind (Some (match_record m r)) (\<lambda>matched.
       if matched
       then run_bind (run_transforms env thens r) (\<lambda>(res, thens', r', evs).
              Some (Inr (res, (m, thens') # rest, r', evs)))
       else run_bind (run_cases env rest r) (\<lambda>(res, rest', r', evs).
              Some (Inr (res, (m, thens) # rest', r', evs))))"

end
