(* ===== verification/Transform_Facts.thy ===== *)
theory Transform_Facts
  imports Transforms
begin

text \<open>
  What holds of every chain of transforms: none changes the size or the accounting of a record
  (frame), a chain built from a verified configuration returns on every record of the schema
  (totality, for the transforms whose arguments cannot make them panic), and the drop
  transform keeps its rate.
\<close>

section \<open>Frame\<close>

definition same_frame :: "log_record \<Rightarrow> log_record \<Rightarrow> bool" where
  "same_frame r r' \<longleftrightarrow>
     length (Fields r') = length (Fields r) \<and> RawLength r' = RawLength r \<and>
     backbuf r' = backbuf r \<and> refCount r' = refCount r"

lemma same_frame_refl [simp]: "same_frame r r"
  by (simp add: same_frame_def)

lemma same_frame_trans: "same_frame a b \<Longrightarrow> same_frame b c \<Longrightarrow> same_frame a c"
  by (simp add: same_frame_def)

lemma set_field_frame: "set_field r loc v = Inr r' \<Longrightarrow> same_frame r r'"
  by (auto simp: set_field_def go_bind_eq_Inr same_frame_def dest: loc_set_length)

lemma run_add_fields_frame: "run_add_fields pairs r = Inr r' \<Longrightarrow> same_frame r r'"
proof (induction pairs r arbitrary: r' rule: run_add_fields.induct)
  case (1 r)
  then show ?case by simp
next
  case (2 dst tpl rest r)
  then obtain v buf r1 where "run_with_buffer tpl (Fields r) [] = Inr (v, buf)"
    "(if v \<noteq> [] then set_field r dst v else Inr r) = Inr r1" "run_add_fields rest r1 = Inr r'"
    by (auto simp: go_bind_eq_Inr)
  with "2.IH" have "same_frame r1 r'" by (auto simp: go_bind_eq_Inr)
  moreover have "same_frame r r1"
    using \<open>(if v \<noteq> [] then _ else _) = _\<close> by (auto split: if_splits dest: set_field_frame)
  ultimately show ?case by (rule same_frame_trans[rotated])
qed

lemma run_del_fields_frame: "run_del_fields locs r = Inr r' \<Longrightarrow> same_frame r r'"
proof (induction locs arbitrary: r)
  case Nil
  then show ?case by simp
next
  case (Cons loc locs)
  then obtain fs where fs: "loc_del loc (Fields r) = Inr fs" "run_del_fields locs (r\<lparr>Fields := fs\<rparr>) = Inr r'"
    by (auto simp: go_bind_eq_Inr)
  have "same_frame r (r\<lparr>Fields := fs\<rparr>)"
    using fs(1) by (auto simp: same_frame_def loc_del_def dest: loc_set_length)
  then show ?case using Cons.IH[OF fs(2)] by (rule same_frame_trans)
qed

lemma set_captures_length:
  "set_captures locs i sub value fs = Inr fs' \<Longrightarrow> length fs' = length fs"
proof (induction locs arbitrary: i fs)
  case Nil
  then show ?case by simp
next
  case (Cons loc locs)
  show ?case
  proof (cases "loc = MissingFieldLocator")
    case True
    then show ?thesis using Cons by simp
  next
    case False
    then obtain a b where ab: "go_index sub (int i) = Inr (a, b)"
      using Cons.prems by (auto simp: go_bind_eq_Inr)
    show ?thesis
    proof (cases "a < 0 \<or> b < 0")
      case True
      then show ?thesis using Cons False ab by simp
    next
      case nonneg: False
      then obtain v fs1 where "loc_set loc fs v = Inr fs1" "set_captures locs (Suc i) sub value fs1 = Inr fs'"
        using Cons.prems False ab by (auto simp: go_bind_eq_Inr)
      then show ?thesis using Cons.IH loc_set_length by metis
    qed
  qed
qed

lemma run_parse_time_cases:
  assumes "run_parse_time env key cache label r = Inr (cache', r', evs)"
  obtains "r' = r" | tm where "r' = r\<lparr>Timestamp := tm\<rparr>"
proof -
  obtain v where v: "loc_get key (Fields r) = Inr v"
    using assms by (auto simp: run_parse_time_def go_bind_eq_Inr)
  show thesis
  proof (cases "v = []")
    case True
    then show thesis using assms v that(1) by (simp add: run_parse_time_def)
  next
    case False
    then obtain res c where "parse_rfc3339_timestamp (localOffset env) v cache = Inr (res, c)"
      using assms v by (auto simp: run_parse_time_def go_bind_eq_Inr)
    then show thesis using assms v False that by (cases res) (auto simp: run_parse_time_def)
  qed
qed

lemma simple_frames:
  "run_extract key re locs r = Inr r' \<Longrightarrow> same_frame r r'"
  "run_extract_special src ex dst r = Inr r' \<Longrightarrow> same_frame r r'"
  "run_map_value key mapping d r = Inr r' \<Longrightarrow> same_frame r r'"
  "run_parse_time env key cache label r = Inr (cache', r', evs) \<Longrightarrow> same_frame r r'"
  "run_replace key re repl r = Inr r' \<Longrightarrow> same_frame r r'"
  "run_truncate key n sfx r = Inr r' \<Longrightarrow> same_frame r r'"
proof -
  show "run_extract key re locs r = Inr r' \<Longrightarrow> same_frame r r'"
    by (auto simp: run_extract_def go_bind_eq_Inr same_frame_def split: option.splits)
      (metis set_captures_length)
  show "run_extract_special src ex dst r = Inr r' \<Longrightarrow> same_frame r r'"
    by (auto simp: run_extract_special_def go_bind_eq_Inr split: if_splits prod.splits
        dest!: set_field_frame intro: same_frame_trans)
  show "run_map_value key mapping d r = Inr r' \<Longrightarrow> same_frame r r'"
    by (auto simp: run_map_value_def go_bind_eq_Inr split: if_splits dest: set_field_frame)
  show "run_parse_time env key cache label r = Inr (cache', r', evs) \<Longrightarrow> same_frame r r'"
    by (erule run_parse_time_cases) (simp_all add: same_frame_def)
  show "run_replace key re repl r = Inr r' \<Longrightarrow> same_frame r r'"
    by (auto simp: run_replace_def go_bind_eq_Inr split: if_splits dest: set_field_frame)
  show "run_truncate key n sfx r = Inr r' \<Longrightarrow> same_frame r r'"
    by (auto simp: run_truncate_def go_bind_eq_Inr split: if_splits dest: set_field_frame)
qed

lemma run_redact_frame:
  "run_redact_email key label r = Some (Inr (r', evs)) \<Longrightarrow> same_frame r r'"
  by (auto simp: run_redact_email_def run_bind_eq_Inr split: if_splits option.splits
      dest: set_field_frame)

lemma run_unescape_frame: "run_unescape key r = Inr r' \<Longrightarrow> same_frame r r'"
proof -
  assume a: "run_unescape key r = Inr r'"
  have "same_frame r (r\<lparr>Unescaped := True\<rparr>)" by (simp add: same_frame_def)
  with a show ?thesis
    by (auto simp: run_unescape_def Let_def go_bind_eq_Inr split: if_splits option.splits
        dest!: set_field_frame intro: same_frame_trans)
qed

lemma passing_frame:
  assumes "passing t m = Some (Inr (res, t', r', evs))" and "\<And>x. m = Inr x \<Longrightarrow> same_frame r x"
  shows "same_frame r r'"
  using assms by (auto simp: passing_def go_bind_eq_Inr)

lemma run_frame:
  "run_transform env t r = Some (Inr (res, t', r', evs)) \<Longrightarrow> same_frame r r'"
  "run_transforms env ts r = Some (Inr (res, ts', r', evs)) \<Longrightarrow> same_frame r r'"
  "run_cases env cs r = Some (Inr (res, cs', r', evs)) \<Longrightarrow> same_frame r r'"
proof (induction env t r and env ts r and env cs r
    arbitrary: res t' r' evs and res ts' r' evs and res cs' r' evs
    rule: run_transform_run_transforms_run_cases.induct)
  case (16 env t ts r)
  then obtain res1 t1 r1 evs1 where 1: "run_transform env t r = Some (Inr (res1, t1, r1, evs1))"
    by (auto simp: run_bind_eq_Inr)
  have f1: "same_frame r r1" using "16.IH"(1)[OF 1] .
  show ?case
  proof (cases "res1 = DROP")
    case True
    then show ?thesis using 16(3) 1 f1 by simp
  next
    case False
    then obtain res2 ts2 evs2 where 2: "run_transforms env ts r1 = Some (Inr (res2, ts2, r', evs2))"
      using 16(3) 1 by (auto simp: run_bind_eq_Inr)
    have "same_frame r1 r'" using "16.IH"(2)[OF 1 refl refl refl False 2] .
    then show ?thesis using f1 same_frame_trans by blast
  qed
qed (auto simp: run_bind_eq_Inr go_bind_eq_Inr split: if_splits
      elim!: passing_frame dest: run_add_fields_frame run_del_fields_frame simple_frames
        run_redact_frame run_unescape_frame)


section \<open>Totality\<close>

definition regexp_ok :: "regexp \<Rightarrow> bool" where
  "regexp_ok re \<longleftrightarrow>
     (\<forall>s sub. findSubmatchIndex re s = Some sub \<longrightarrow>
        length sub = length (subexpNames re) \<and>
        (\<forall>(a, b) \<in> set sub. a < 0 \<or> b < 0 \<or> (a \<le> b \<and> b \<le> int (length s))))"

definition expander_ok :: "nat \<Rightarrow> expander \<Rightarrow> bool" where
  "expander_ok n tpl \<longleftrightarrow> (\<forall>p \<in> set tpl. \<forall>fs. n \<le> length fs \<longrightarrow> returns (p fs))"

definition extractor_total :: "string_extractor \<Rightarrow> bool" where
  "extractor_total ex \<longleftrightarrow>
     table_ok (validChars ex) \<and> 0 \<le> maxRange ex \<and>
     ((case position ex of ExtractFromStart \<Rightarrow> rightBound ex | ExtractFromEnd \<Rightarrow> leftBound ex) \<noteq> [] \<or>
      validChars ex \<noteq> None)"

fun total_transform :: "nat \<Rightarrow> transform \<Rightarrow> bool"
and total_transforms :: "nat \<Rightarrow> transform list \<Rightarrow> bool"
and total_cases :: "nat \<Rightarrow> (log_matcher \<times> transform list) list \<Rightarrow> bool" where
  "total_transform n (AddFields pairs) \<longleftrightarrow> list_all (\<lambda>(l, tpl). loc_ok n l \<and> expander_ok n tpl) pairs"
| "total_transform n (Block steps) \<longleftrightarrow> total_transforms n steps"
| "total_transform n (DelFields locs) \<longleftrightarrow> list_all (loc_ok n) locs"
| "total_transform n (Drop d) \<longleftrightarrow> matcher_ok n (dropMatcher d) \<and> targetRate d \<le> 100"
| "total_transform n (Extract key re locs) \<longleftrightarrow>
     loc_ok n key \<and> regexp_ok re \<and> length locs = length (subexpNames re) \<and>
     list_all (\<lambda>l. l = MissingFieldLocator \<or> loc_ok n l) locs"
| "total_transform n (ExtractSpecial src ex dst) \<longleftrightarrow> loc_ok n src \<and> loc_ok n dst \<and> extractor_total ex"
| "total_transform n (IfThen m thens) \<longleftrightarrow> matcher_ok n m \<and> total_transforms n thens"
| "total_transform n (MapValue key mapping def) \<longleftrightarrow> loc_ok n key"
| "total_transform n (ParseTime key cache label) \<longleftrightarrow> False"
| "total_transform n (RedactEmail key label) \<longleftrightarrow> loc_ok n key"
| "total_transform n (Replace key re repl) \<longleftrightarrow> loc_ok n key"
| "total_transform n (Switch cases) \<longleftrightarrow> total_cases n cases"
| "total_transform n (Truncate key maxLength sfx) \<longleftrightarrow> loc_ok n key \<and> 0 \<le> maxLength"
| "total_transform n (TUnescape key) \<longleftrightarrow> loc_ok n key"
| "total_transforms n [] \<longleftrightarrow> True"
| "total_transforms n (t # ts) \<longleftrightarrow> total_transform n t \<and> total_transforms n ts"
| "total_cases n [] \<longleftrightarrow> True"
| "total_cases n ((m, ts) # cs) \<longleftrightarrow> matcher_ok n m \<and> total_transforms n ts \<and> total_cases n cs"

lemma loc_ok_mono: "loc_ok n l \<Longrightarrow> n \<le> m \<Longrightarrow> loc_ok m l"
  by (auto simp: loc_ok_def)

lemma loc_get_total: "loc_ok n l \<Longrightarrow> n \<le> length fs \<Longrightarrow> \<exists>v. loc_get l fs = Inr v"
  using loc_get_ok loc_ok_mono by blast

lemma set_field_total:
  "loc_ok n l \<Longrightarrow> n \<le> length (Fields r) \<Longrightarrow> \<exists>r'. set_field r l v = Inr r' \<and> length (Fields r') = length (Fields r)"
  using loc_set_ok[of "Fields r" l v] loc_ok_mono by (auto simp: set_field_def)

lemma matcher_ok_mono: "matcher_ok n ms \<Longrightarrow> n \<le> m \<Longrightarrow> matcher_ok m ms"
  by (auto simp: matcher_ok_def list_all_iff loc_ok_def)

lemma match_record_total: "matcher_ok n ms \<Longrightarrow> n \<le> length (Fields r) \<Longrightarrow> \<exists>b. match_record ms r = Inr b"
  using match_record_ok matcher_ok_mono by blast

lemma run_with_buffer_total:
  assumes "expander_ok n tpl" and "n \<le> length fs"
  shows "\<exists>v buf. run_with_buffer tpl fs buffer = Inr (v, buf)"
proof -
  have "p fs = Inr (projr (p fs))" if "p \<in> set tpl" for p
  proof -
    have "returns (p fs)" using assms that by (simp add: expander_ok_def)
    then show ?thesis by (cases "p fs") auto
  qed
  then have "\<exists>buf. run_with_buffer tpl fs buffer = Inr (concat (map (\<lambda>p. projr (p fs)) tpl), buf)"
    by (rule expander_run_ok(2))
  then show ?thesis by blast
qed

lemma run_add_fields_total:
  "list_all (\<lambda>(l, tpl). loc_ok n l \<and> expander_ok n tpl) pairs \<Longrightarrow> n \<le> length (Fields r) \<Longrightarrow>
     \<exists>r'. run_add_fields pairs r = Inr r'"
proof (induction pairs arbitrary: r)
  case Nil
  then show ?case by simp
next
  case (Cons p ps)
  obtain l tpl where p: "p = (l, tpl)" by (cases p)
  obtain v buf where v: "run_with_buffer tpl (Fields r) [] = Inr (v, buf)"
    using run_with_buffer_total[of n tpl "Fields r" "[]"] Cons.prems p by auto
  obtain r1 where r1: "(if v \<noteq> [] then set_field r l v else Inr r) = Inr r1"
    "length (Fields r1) = length (Fields r)"
    using set_field_total[of n l r v] Cons.prems p by (cases "v = []") auto
  obtain r' where "run_add_fields ps r1 = Inr r'" using Cons.IH[of r1] Cons.prems r1(2) by auto
  then show ?case using p v r1(1) by auto
qed

lemma run_del_fields_total:
  "list_all (loc_ok n) locs \<Longrightarrow> n \<le> length (Fields r) \<Longrightarrow> \<exists>r'. run_del_fields locs r = Inr r'"
proof (induction locs arbitrary: r)
  case Nil
  then show ?case by simp
next
  case (Cons l ls)
  then have "loc_ok (length (Fields r)) l" by (auto intro: loc_ok_mono)
  then show ?case using Cons by (simp add: loc_del_ok)
qed

lemma set_captures_total:
  assumes "list_all (\<lambda>l. l = MissingFieldLocator \<or> loc_ok n l) locs" and "n \<le> length fs"
    and "i + length locs \<le> length sub"
    and "\<forall>(a, b) \<in> set sub. a < 0 \<or> b < 0 \<or> (a \<le> b \<and> b \<le> int (length v))"
  shows "\<exists>fs'. set_captures locs i sub v fs = Inr fs'"
  using assms(1-3)
proof (induction locs arbitrary: i fs)
  case Nil
  then show ?case by simp
next
  case (Cons l ls)
  show ?case
  proof (cases "l = MissingFieldLocator")
    case True
    then show ?thesis using Cons by simp
  next
    case False
    obtain a b where ab: "sub ! i = (a, b)" by (cases "sub ! i")
    have idx: "go_index sub (int i) = Inr (a, b)" using Cons.prems(3) ab by simp
    have "i < length sub" using Cons.prems(3) by simp
    then have "(a, b) \<in> set sub" using ab nth_mem by metis
    then have range: "a < 0 \<or> b < 0 \<or> (a \<le> b \<and> b \<le> int (length v))" using assms(4) by auto
    show ?thesis
    proof (cases "a < 0 \<or> b < 0")
      case True
      then show ?thesis using Cons False idx by simp
    next
      case nonneg: False
      have "go_slice v a b = Inr (take (nat b - nat a) (drop (nat a) v))"
        using nonneg range by (simp add: go_slice_def)
      moreover have "loc_ok (length fs) l" using Cons.prems False by (auto intro: loc_ok_mono)
      ultimately show ?thesis using Cons False idx nonneg by (simp add: loc_set_ok)
    qed
  qed
qed

lemma extract_string_total: "extractor_total ex \<Longrightarrow> \<exists>l rest. extract_string ex s = Inr (l, rest)"
  using extract_at_start_correct[of ex s] extract_at_end_correct[of ex s]
  by (auto simp: extractor_total_def extract_string_def split: extractor_position.splits)

text \<open>Truncation cuts a valid string after at most \<open>maxLength\<close> bytes, at a character boundary.\<close>

lemma truncate_value_ok:
  assumes "0 \<le> n"
  shows "\<exists>v'. truncate_value n sfx v = Inr v' \<and>
     (v' = v \<and> int (length v) \<le> n + int (length sfx) \<or>
      (\<exists>t. clean_utf8 (take (nat n) v) = Inr t \<and> v' = t @ sfx \<and> int (length t) \<le> n))"
proof (cases "int (length v) > n + int (length sfx)")
  case False
  then show ?thesis by (simp add: truncate_value_def)
next
  case True
  obtain t where t: "clean_utf8 (take (nat n) v) = Inr t"
    using clean_utf8_eq by blast
  then have len: "length t \<le> nat n" using clean_utf8_length True assms by fastforce
  have fit: "length t + length sfx \<le> length (t @ drop (length t) v)" using len True assms by simp
  have "go_slice v 0 n = Inr (take (nat n) v)" using assms True by (simp add: go_slice_def)
  moreover have "overwrite_n_truncate (t @ drop (length t) v) (length t) sfx = Inr (t @ sfx)"
    using fit go_slice_prefix[of "length t + length sfx" "patch (t @ drop (length t) v) (length t) sfx"]
      take_patch_end[OF fit] by (simp add: overwrite_n_truncate_def go_copy_fits)
  ultimately show ?thesis using True t len assms by (simp add: truncate_value_def)
qed

lemma run_transform_simple_total:
  assumes n: "n \<le> length (Fields r)"
  shows "total_transform n (Extract key re locs) \<Longrightarrow> \<exists>r'. run_extract key re locs r = Inr r'"
    and "total_transform n (ExtractSpecial key ex dst) \<Longrightarrow> \<exists>r'. run_extract_special key ex dst r = Inr r'"
    and "loc_ok n key \<Longrightarrow> \<exists>r'. run_map_value key mapping d r = Inr r'"
    and "loc_ok n key \<Longrightarrow> \<exists>r'. run_replace key re repl r = Inr r'"
    and "loc_ok n key \<Longrightarrow> 0 \<le> m \<Longrightarrow> \<exists>r'. run_truncate key m sfx r = Inr r'"
    and "loc_ok n key \<Longrightarrow> \<exists>r'. run_unescape key r = Inr r'"
    and "loc_ok n key \<Longrightarrow> \<exists>r' evs. run_redact_email key label r = Some (Inr (r', evs))"
    and "total_transform n (Drop d') \<Longrightarrow>
           \<exists>res d'' evs. run_drop d' r = Inr (res, d'', evs) \<and> total_transform n (Drop d'')"
proof -
  assume t: "total_transform n (Extract key re locs)"
  obtain v where v: "loc_get key (Fields r) = Inr v" using t n loc_get_total[of n key "Fields r"] by auto
  show "\<exists>r'. run_extract key re locs r = Inr r'"
  proof (cases "findSubmatchIndex re v")
    case None
    then show ?thesis using v by (simp add: run_extract_def)
  next
    case (Some sub)
    then have "length sub = length locs"
      "\<forall>(a, b) \<in> set sub. a < 0 \<or> b < 0 \<or> (a \<le> b \<and> b \<le> int (length v))"
      using t by (auto simp: regexp_ok_def)
    then obtain fs' where "set_captures locs 0 sub v (Fields r) = Inr fs'"
      using set_captures_total[of n locs "Fields r" 0 sub v] t n by auto
    then show ?thesis using Some v by (simp add: run_extract_def)
  qed
next
  assume t: "total_transform n (ExtractSpecial key ex dst)"
  obtain v where v: "loc_get key (Fields r) = Inr v" using t n loc_get_total[of n key "Fields r"] by auto
  obtain l rest where ex: "extract_string ex v = Inr (l, rest)" using t extract_string_total by force
  obtain r1 where r1: "set_field r key rest = Inr r1" "length (Fields r1) = length (Fields r)"
    using t n set_field_total[of n key r rest] by auto
  obtain r2 where "set_field r1 dst l = Inr r2" using t n r1(2) set_field_total[of n dst r1 l] by auto
  then show "\<exists>r'. run_extract_special key ex dst r = Inr r'"
    using v ex r1(1) by (simp add: run_extract_special_def)
next
  assume k: "loc_ok n key"
  obtain v where v: "loc_get key (Fields r) = Inr v" using k n loc_get_total by blast
  have set: "\<exists>r'. set_field r key x = Inr r'" for x using set_field_total[OF k n] by blast
  show "\<exists>r'. run_map_value key mapping d r = Inr r'"
    using v set by (simp add: run_map_value_def)
  show "\<exists>r'. run_replace key re repl r = Inr r'"
    using v set by (simp add: run_replace_def)
  show "\<exists>r'. run_truncate key m sfx r = Inr r'" if "0 \<le> m"
    using v set truncate_value_ok[OF that, of sfx v] by (auto simp: run_truncate_def)
  have set1: "\<exists>r'. set_field (r\<lparr>Unescaped := True\<rparr>) key x = Inr r'" for x
    using set_field_total[OF k, of "r\<lparr>Unescaped := True\<rparr>" x] n by auto
  show "\<exists>r'. run_unescape key r = Inr r'"
    using v set1 run_from_first_correct[of syslog_unescaper v]
    by (auto simp: run_unescape_def Let_def find_first_def split: option.splits)
  show "\<exists>r' evs. run_redact_email key label r = Some (Inr (r', evs))"
  proof -
    obtain f where f: "redact_email_find_first v = Inr f"
      "\<forall>a. f = Some a \<longrightarrow> (\<exists>q. a = int q \<and> q < length v \<and> v ! q = CHR ''@'')"
      using redact_email_find_first_ok by blast
    show ?thesis
    proof (cases f)
      case None
      then show ?thesis using v f(1) by (simp add: run_redact_email_def)
    next
      case (Some a)
      then obtain q where "a = int q" "q < length v" "v ! q = CHR ''@''" using f(2) by blast
      then obtain rs where "redact_email1 v a = Some (Inr (redact_ranges v 0 rs, length rs))"
        using redact_email1_ok by blast
      then show ?thesis using v f(1) Some set[of "redact_ranges v 0 rs"]
        by (auto simp: run_redact_email_def)
    qed
  qed
next
  assume t: "total_transform n (Drop d')"
  obtain b where "match_record (dropMatcher d') r = Inr b"
    using t n match_record_total by fastforce
  then show "\<exists>res d'' evs. run_drop d' r = Inr (res, d'', evs) \<and> total_transform n (Drop d'')"
    using t by (auto simp: run_drop_def)
qed

lemma passing_total: "\<exists>x. m = Inr x \<Longrightarrow> total_transform n t \<Longrightarrow>
   \<exists>res t' r' evs. passing t m = Some (Inr (res, t', r', evs)) \<and> total_transform n t'"
  by (auto simp: passing_def)

lemma run_total:
  "total_transform n t \<Longrightarrow> n \<le> length (Fields r) \<Longrightarrow>
     \<exists>res t' r' evs. run_transform env t r = Some (Inr (res, t', r', evs)) \<and> total_transform n t'"
  "total_transforms n ts \<Longrightarrow> n \<le> length (Fields r) \<Longrightarrow>
     \<exists>res ts' r' evs. run_transforms env ts r = Some (Inr (res, ts', r', evs)) \<and> total_transforms n ts'"
  "total_cases n cs \<Longrightarrow> n \<le> length (Fields r) \<Longrightarrow>
     \<exists>res cs' r' evs. run_cases env cs r = Some (Inr (res, cs', r', evs)) \<and> total_cases n cs'"
proof (induction env t r and env ts r and env cs r
    rule: run_transform_run_transforms_run_cases.induct)
  case (1 env pairs r)
  then show ?case
    unfolding run_transform.simps by (intro passing_total run_add_fields_total) auto
next
  case (2 env steps r)
  then show ?case by fastforce
next
  case (3 env locs r)
  then show ?case
    unfolding run_transform.simps by (intro passing_total run_del_fields_total) auto
next
  case (4 env d r)
  then show ?case using run_transform_simple_total(8)[of n r d] by fastforce
next
  case (5 env key re locs r)
  then show ?case
    unfolding run_transform.simps by (intro passing_total run_transform_simple_total(1)[of n])
next
  case (6 env src ex dst r)
  then show ?case
    unfolding run_transform.simps by (intro passing_total run_transform_simple_total(2)[of n])
next
  case (7 env m thens r)
  obtain b where b: "match_record m r = Inr b" using 7 match_record_total by fastforce
  show ?case
  proof (cases b)
    case True
    then show ?thesis using 7 b by fastforce
  next
    case False
    then show ?thesis using 7 b by simp
  qed
next
  case (8 env key mapping d r)
  then show ?case
    unfolding run_transform.simps by (intro passing_total run_transform_simple_total(3)[of n]) auto
next
  case (10 env key label r)
  then show ?case using run_transform_simple_total(7)[of n r key label] by fastforce
next
  case (11 env key re repl r)
  then show ?case
    unfolding run_transform.simps by (intro passing_total run_transform_simple_total(4)[of n]) auto
next
  case (12 env cases r)
  then show ?case by fastforce
next
  case (13 env key m sfx r)
  then show ?case
    unfolding run_transform.simps by (intro passing_total run_transform_simple_total(5)[of n]) auto
next
  case (14 env key r)
  then show ?case
    unfolding run_transform.simps by (intro passing_total run_transform_simple_total(6)[of n]) auto
next
  case (16 env t ts r)
  obtain res t' r' evs where 1: "run_transform env t r = Some (Inr (res, t', r', evs))" "total_transform n t'"
    using 16 by fastforce
  have len: "n \<le> length (Fields r')" using run_frame(1)[OF 1(1)] 16(4) by (simp add: same_frame_def)
  show ?case
  proof (cases "res = DROP")
    case True
    then show ?thesis using 1 16(3) by simp
  next
    case False
    have "\<exists>res ts' r'' evs. run_transforms env ts r' = Some (Inr (res, ts', r'', evs)) \<and> total_transforms n ts'"
      using "16.IH"(2)[OF 1(1) refl refl refl False _ len] 16(3) by simp
    then show ?thesis using 1 False by fastforce
  qed
next
  case (18 env m thens rest r)
  obtain b where b: "match_record m r = Inr b" using 18 match_record_total by fastforce
  show ?case
  proof (cases b)
    case True
    then show ?thesis using 18 b by fastforce
  next
    case False
    then show ?thesis using 18 b by fastforce
  qed
qed auto

section \<open>Properties\<close>

text \<open>
  The time parser indexes its input before it knows its length: a field value of one to four
  bytes, such as the absent time stamp of a syslog record, makes the transform panic.
\<close>

theorem parse_time_short_panics:
  assumes "loc_get key (Fields r) = Inr v" and "0 < length v" and "length v \<le> 4"
  shows "run_transform env (ParseTime key cache label) r = Some (Inl IndexOutOfRange)"
  using assms by (simp add: run_parse_time_def parse_rfc3339_timestamp_def differs_at_def go_index_def)

theorem parse_time_short_panics_witness:
  "run_transform \<lparr>compileRegexp = (\<lambda>_. None), localOffset = (\<lambda>_. 0)\<rparr> (ParseTime 0 Map.empty ''timeError'')
     \<lparr>Fields = [''-''], RawLength = 3, Timestamp = 0, Unescaped = False, backbuf = None, refCount = 1\<rparr> =
   Some (Inl IndexOutOfRange)"
  by (rule parse_time_short_panics[where v = "''-''"]) (simp_all add: loc_get_def go_index_def)

end
