(* ===== verification/Transform_Labels.thy ===== *)
theory Transform_Labels
  imports Transform_Facts
begin

text \<open>
  The labels under which transforms count: those registered when a transform is made
  (\<open>RegisterCustomCounter\<close>) are those it counts under when it runs.
\<close>

text \<open>The labels a transform may count under.\<close>

fun labels_of :: "transform \<Rightarrow> bytes set"
and labels_of_list :: "transform list \<Rightarrow> bytes set"
and labels_of_cases :: "(log_matcher \<times> transform list) list \<Rightarrow> bytes set" where
  "labels_of (AddFields ps) = {}"
| "labels_of (Block ts) = labels_of_list ts"
| "labels_of (DelFields ls) = {}"
| "labels_of (Drop d) =
     {dropLabel d} \<union> (if targetRate d < 100 then {CHR ''!'' # dropLabel d} else {})"
| "labels_of (Extract k re ls) = {}"
| "labels_of (ExtractSpecial s ex d) = {}"
| "labels_of (IfThen m ts) = labels_of_list ts"
| "labels_of (MapValue k mp d) = {}"
| "labels_of (ParseTime k c l) = {l}"
| "labels_of (RedactEmail k l) = {l}"
| "labels_of (Replace k re r) = {}"
| "labels_of (Switch cs) = labels_of_cases cs"
| "labels_of (Truncate k n s) = {}"
| "labels_of (TUnescape k) = {}"
| "labels_of_list [] = {}"
| "labels_of_list (t # ts) = labels_of t \<union> labels_of_list ts"
| "labels_of_cases [] = {}"
| "labels_of_cases ((m, ts) # cs) = labels_of_list ts \<union> labels_of_cases cs"

definition events_in :: "bytes set \<Rightarrow> count_event list \<Rightarrow> bool" where
  "events_in ls evs \<longleftrightarrow> fst ` set evs \<subseteq> ls"

lemma events_in_simps [simp]:
  "events_in ls []"
  "events_in ls (a @ b) \<longleftrightarrow> events_in ls a \<and> events_in ls b"
  by (auto simp: events_in_def)

lemma events_in_Un: "events_in A evs \<Longrightarrow> events_in (A \<union> B) evs" "events_in B evs \<Longrightarrow> events_in (A \<union> B) evs"
  by (auto simp: events_in_def)

lemma passing_labels:
  "passing t m = Some (Inr (res, t', r', evs)) \<Longrightarrow> evs = [] \<and> t' = t"
  by (auto simp: passing_def go_bind_eq_Inr)

lemma run_drop_labels:
  "run_drop d r = Inr (res, d', evs) \<Longrightarrow>
     events_in (labels_of (Drop d)) evs \<and> labels_of (Drop d') = labels_of (Drop d)"
  by (auto simp: run_drop_def go_bind_eq_Inr events_in_def split: if_splits)

lemma run_parse_time_labels:
  "run_parse_time env key cache label r = Inr (cache', r', evs) \<Longrightarrow> events_in {label} evs"
proof -
  assume a: "run_parse_time env key cache label r = Inr (cache', r', evs)"
  then obtain v where v: "loc_get key (Fields r) = Inr v"
    by (auto simp: run_parse_time_def go_bind_eq_Inr)
  show ?thesis
  proof (cases "v = []")
    case True
    then show ?thesis using a v by (simp add: run_parse_time_def events_in_def)
  next
    case False
    then obtain res c where "parse_rfc3339_timestamp (localOffset env) v cache = Inr (res, c)"
      using a v by (auto simp: run_parse_time_def go_bind_eq_Inr)
    then show ?thesis using a v False by (cases res) (auto simp: run_parse_time_def events_in_def)
  qed
qed

lemma run_redact_labels:
  "run_redact_email key label r = Some (Inr (r', evs)) \<Longrightarrow> events_in {label} evs"
  by (auto simp: run_redact_email_def run_bind_eq_Inr events_in_def split: if_splits option.splits)

lemma run_labels:
  "run_transform env t r = Some (Inr (res, t', r', evs)) \<Longrightarrow>
     events_in (labels_of t) evs \<and> labels_of t' = labels_of t"
  "run_transforms env ts r = Some (Inr (res, ts', r', evs)) \<Longrightarrow>
     events_in (labels_of_list ts) evs \<and> labels_of_list ts' = labels_of_list ts"
  "run_cases env cs r = Some (Inr (res, cs', r', evs)) \<Longrightarrow>
     events_in (labels_of_cases cs) evs \<and> labels_of_cases cs' = labels_of_cases cs"
proof (induction env t r and env ts r and env cs r
    arbitrary: res t' r' evs and res ts' r' evs and res cs' r' evs
    rule: run_transform_run_transforms_run_cases.induct)
  case (4 env d r)
  then show ?case using run_drop_labels by (auto simp: go_bind_eq_Inr simp del: labels_of.simps)
next
  case (16 env t ts r)
  then obtain res1 t1 r1 evs1 where 1: "run_transform env t r = Some (Inr (res1, t1, r1, evs1))"
    by (auto simp: run_bind_eq_Inr)
  have f1: "events_in (labels_of t) evs1 \<and> labels_of t1 = labels_of t" using "16.IH"(1)[OF 1] .
  show ?case
  proof (cases "res1 = DROP")
    case True
    then have "evs = evs1" "ts' = t1 # ts" using 16(3) 1 by auto
    then show ?thesis using f1 events_in_Un(1) by simp
  next
    case False
    then obtain res2 ts2 evs2 where 2: "run_transforms env ts r1 = Some (Inr (res2, ts2, r', evs2))"
      "ts' = t1 # ts2" "evs = evs1 @ evs2"
      using 16(3) 1 by (auto simp: run_bind_eq_Inr)
    have "events_in (labels_of_list ts) evs2 \<and> labels_of_list ts2 = labels_of_list ts"
      using "16.IH"(2)[OF 1 refl refl refl False 2(1)] .
    then show ?thesis using f1 2(2,3) events_in_Un by simp
  qed
next
  case (18 env m thens rest r)
  obtain b where b: "match_record m r = Inr b" using 18(3) by (auto simp: run_bind_eq_Inr)
  show ?case
  proof (cases b)
    case True
    then obtain thens' where "run_transforms env thens r = Some (Inr (res, thens', r', evs))"
      "cs' = (m, thens') # rest"
      using 18(3) b by (auto simp: run_bind_eq_Inr)
    then show ?thesis using "18.IH"(1)[of b] b True events_in_Un(1) by fastforce
  next
    case False
    then obtain rest' where "run_cases env rest r = Some (Inr (res, rest', r', evs))"
      "cs' = (m, thens) # rest'"
      using 18(3) b by (auto simp: run_bind_eq_Inr)
    then show ?thesis using "18.IH"(2)[of b] b False events_in_Un(2) by fastforce
  qed
next
  case (9 env key cache label r)
  then show ?case using run_parse_time_labels by (auto simp: go_bind_eq_Inr)
next
  case (10 env key label r)
  then show ?case using run_redact_labels by (auto simp: run_bind_eq_Inr)
qed (auto simp: run_bind_eq_Inr split: if_splits dest!: passing_labels)

text \<open>A transform is made with exactly these labels.\<close>

lemma new_labels:
  "new_transform env s c = Some (Inr (t, ls)) \<Longrightarrow> labels_of t = set ls"
  "new_transforms env s cs = Some (Inr (ts, ls)) \<Longrightarrow> labels_of_list ts = set ls"
  "new_cases env s ss = Some (Inr (ms, ls)) \<Longrightarrow> labels_of_cases ms = set ls"
proof (induction env s c and env s cs and env s ss arbitrary: t ls and ts ls and ms ls
    rule: new_transform_new_transforms_new_cases.induct)
qed (auto simp: run_bind_eq_Inr go_bind_eq_Inr new_drop_def new_extract_def new_extract_special_def with_locator_def
    split: if_splits)

end
