(* ===== verification/Transform_Build.thy ===== *)
theory Transform_Build
  imports Transform_Facts
begin

text \<open>
  From a configuration to a running chain: what \<open>VerifyConfig\<close> accepts, \<open>NewTransform\<close> builds,
  and the chain it builds returns on every record of the schema. The three things that
  \<open>VerifyConfig\<close> lets through although they panic later are excluded by \<open>buildable\<close>: capture
  names outside the schema, bracket patterns and boundaries that the extractor rejects, and
  time stamps.
\<close>

section \<open>Checks\<close>

lemma case_cfg_eq:
  "(case r of Inl e \<Rightarrow> Inr (Inl e) | Inr x \<Rightarrow> f x) = Inr (Inr y) \<longleftrightarrow>
     (\<exists>x. r = Inr x \<and> f x = Inr (Inr y))"
  by (cases r) auto

lemma cfg_then_ok: "cfg_then a b = Inr (Inr ()) \<longleftrightarrow> a = Inr (Inr ()) \<and> b = Inr (Inr ())"
  by (auto simp: cfg_then_def go_bind_eq_Inr case_cfg_eq)

lemma fail_if_ok: "fail_if bad e = Inr (Inr ()) \<longleftrightarrow> \<not> bad"
  by (simp add: fail_if_def)

lemma check_locator_ok: "check_locator s name = Inr (Inr ()) \<longleftrightarrow> (\<exists>loc. create_field_locator s name = Inr loc)"
  by (auto simp: check_locator_def split: sum.splits)

lemma check_key_ok: "check_key s key = Inr (Inr ()) \<longleftrightarrow> key \<noteq> [] \<and> (\<exists>loc. create_field_locator s key = Inr loc)"
  by (auto simp: check_key_def cfg_then_ok fail_if_ok check_locator_ok)

lemmas checks = cfg_then_ok fail_if_ok check_locator_ok check_key_ok

abbreviation schema_size :: "log_schema \<Rightarrow> nat" where
  "schema_size s \<equiv> length (fieldNames s)"

lemma must_create_ok:
  "create_field_locator s name = Inr loc \<Longrightarrow>
     must_create_field_locator s name = Inr loc \<and> loc_ok (schema_size s) loc"
  by (simp add: must_create_field_locator_def create_field_locator_ok)

section \<open>Templates\<close>

lemma resolver_ok:
  "create_template_variable_resolver s name = Inr p \<Longrightarrow> schema_size s \<le> length fs \<Longrightarrow> returns (p fs)"
  using create_field_locator_ok[of s name] loc_get_total[of "schema_size s" _ fs]
  by (auto simp: create_template_variable_resolver_def returns_iff split: sum.splits)

lemma solver_ok:
  assumes "create_variable_expression_solver p a b = Inr q" and "\<And>fs. n \<le> length fs \<Longrightarrow> returns (p fs)"
    and "n \<le> length fs"
  shows "returns (q fs)"
proof -
  obtain x where "p fs = Inr x" using assms(2)[OF assms(3)] by (auto simp: returns_iff)
  then show ?thesis using assms(1)
    by (auto simp: create_variable_expression_solver_def go_bind_eq_Inr substring_correct)
qed

lemma expander_ok_Cons:
  "(\<And>fs. n \<le> length fs \<Longrightarrow> returns (p fs)) \<Longrightarrow> expander_ok n ps \<Longrightarrow> expander_ok n (p # ps)"
  by (simp add: expander_ok_def)

lemma make_providers_ok:
  "make_providers (create_template_variable_resolver s) parts = Inr (Inr tpl) \<Longrightarrow>
     expander_ok (schema_size s) tpl"
proof (induction parts arbitrary: tpl)
  case Nil
  then show ?case by (simp add: expander_ok_def)
next
  case (Cons p ps)
  obtain c0 where c0: "go_index p 0 = Inr c0" using Cons.prems by (auto simp: go_bind_eq_Inr)
  have go_on: "expander_ok (schema_size s) tpl"
    if "go_bind (make_providers (create_template_variable_resolver s) ps) (\<lambda>r.
          case r of Inl e \<Rightarrow> Inr (Inl e) | Inr providers \<Rightarrow> Inr (Inr (q # providers))) = Inr (Inr tpl)"
      and "\<And>fs. schema_size s \<le> length fs \<Longrightarrow> returns (q fs)" for q
    using that Cons.IH by (auto simp: go_bind_eq_Inr case_cfg_eq intro!: expander_ok_Cons)
  show ?case
  proof (cases "c0 = CHR ''$''")
    case False
    then show ?thesis using Cons.prems c0 by (intro go_on[of "\<lambda>_. Inr p"]) (auto simp: Let_def)
  next
    case True
    then obtain c1 where c1: "go_index p 1 = Inr c1"
      using Cons.prems c0 by (auto simp: go_bind_eq_Inr Let_def)
    show ?thesis
    proof (cases "c1 = CHR ''{'' \<and> last p = CHR ''}''")
      case False
      then obtain q where q: "create_template_variable_resolver s (tl p) = Inr q"
        using Cons.prems c0 c1 True by (auto simp: Let_def split: sum.splits)
      then show ?thesis using Cons.prems c0 c1 True False resolver_ok[OF q]
        by (intro go_on[of q]) (auto simp: Let_def)
    next
      case brace: True
      then obtain vexpr where v: "go_slice p 2 (int (length p) - 1) = Inr vexpr"
        using Cons.prems c0 c1 True by (auto simp: Let_def go_bind_eq_Inr)
      then obtain name a b where m: "match_variable_expression vexpr = Some (name, a, b)"
        using Cons.prems c0 c1 True brace by (auto simp: Let_def split: option.splits)
      then obtain q where q: "create_template_variable_resolver s name = Inr q"
        using Cons.prems c0 c1 True brace v by (auto simp: Let_def split: sum.splits)
      then obtain q' where q': "create_variable_expression_solver q a b = Inr q'"
        using Cons.prems c0 c1 True brace v m by (auto simp: Let_def go_bind_eq_Inr)
      have "returns (q' fs)" if "schema_size s \<le> length fs" for fs
        using solver_ok[OF q' resolver_ok[OF q]] that by blast
      then show ?thesis using Cons.prems c0 c1 True brace v m q q'
        by (intro go_on[of q']) (auto simp: Let_def)
    qed
  qed
qed

lemma new_expander_ok:
  "new_expander t (create_template_variable_resolver s) = Inr (Inr tpl) \<Longrightarrow> expander_ok (schema_size s) tpl"
  by (auto simp: new_expander_def Let_def go_bind_eq_Inr case_cfg_eq split: if_splits intro: make_providers_ok)

section \<open>Building\<close>

definition capture_names_ok :: "environment \<Rightarrow> log_schema \<Rightarrow> bytes \<Rightarrow> bool" where
  "capture_names_ok env s pattern \<longleftrightarrow>
     (case compileRegexp env pattern of
        None \<Rightarrow> True
      | Some re \<Rightarrow> regexp_ok re \<and> list_all (\<lambda>n. n = [] \<or> n \<in> set (fieldNames s)) (subexpNames re))"

definition special_pattern_ok :: "extractor_position \<Rightarrow> bytes \<Rightarrow> int \<Rightarrow> bool" where
  "special_pattern_ok pos pattern maxLength \<longleftrightarrow>
     (case new_string_extractor_simple pos pattern maxLength of
        Some (Inr (Inr ex)) \<Rightarrow> extractor_total ex
      | _ \<Rightarrow> False)"

fun buildable :: "environment \<Rightarrow> log_schema \<Rightarrow> transform_config \<Rightarrow> bool"
and all_buildable :: "environment \<Rightarrow> log_schema \<Rightarrow> transform_config list \<Rightarrow> bool"
and cases_buildable :: "environment \<Rightarrow> log_schema \<Rightarrow> (matcher_config \<times> transform_config list) list \<Rightarrow> bool"
where
  "buildable env s (AddFieldsConfig pairs) \<longleftrightarrow> True"
| "buildable env s (BlockConfig steps) \<longleftrightarrow> all_buildable env s steps"
| "buildable env s (DelFieldsConfig keys) \<longleftrightarrow> True"
| "buildable env s (DropConfig match p label) \<longleftrightarrow> True"
| "buildable env s (ExtractConfig key pattern) \<longleftrightarrow> capture_names_ok env s pattern"
| "buildable env s (ExtractSpecialConfig pos key pattern n dest) \<longleftrightarrow> special_pattern_ok pos pattern n"
| "buildable env s (IfConfig match thens) \<longleftrightarrow> all_buildable env s thens"
| "buildable env s (MapValueConfig key mapping d) \<longleftrightarrow> True"
| "buildable env s (ParseTimeConfig key label) \<longleftrightarrow> False"
| "buildable env s (RedactEmailConfig key label) \<longleftrightarrow> True"
| "buildable env s (ReplaceConfig key pattern repl) \<longleftrightarrow> True"
| "buildable env s (SwitchConfig cases) \<longleftrightarrow> cases_buildable env s cases"
| "buildable env s (TruncateConfig key n sfx) \<longleftrightarrow> True"
| "buildable env s (UnescapeConfig key) \<longleftrightarrow> True"
| "all_buildable env s [] \<longleftrightarrow> True"
| "all_buildable env s (c # cs) \<longleftrightarrow> buildable env s c \<and> all_buildable env s cs"
| "cases_buildable env s [] \<longleftrightarrow> True"
| "cases_buildable env s ((m, ts) # cs) \<longleftrightarrow> all_buildable env s ts \<and> cases_buildable env s cs"

lemma new_add_fields_ok:
  "verify_add_fields s pairs = Inr (Inr ()) \<Longrightarrow>
     \<exists>ps. new_add_fields s pairs = Inr ps \<and>
       list_all (\<lambda>(l, tpl). loc_ok (schema_size s) l \<and> expander_ok (schema_size s) tpl) ps"
proof (induction pairs)
  case Nil
  then show ?case by simp
next
  case (Cons p pairs)
  obtain dst expr where p: "p = (dst, expr)" by (cases p)
  obtain loc where loc: "create_field_locator s dst = Inr loc" using Cons.prems p by (auto simp: checks)
  obtain tpl where tpl: "new_expander expr (create_template_variable_resolver s) = Inr (Inr tpl)"
    "verify_add_fields s pairs = Inr (Inr ())"
    using Cons.prems p by (auto simp: checks go_bind_eq_Inr case_cfg_eq)
  show ?case
    using Cons.IH[OF tpl(2)] p tpl(1) must_create_ok[OF loc] new_expander_ok[OF tpl(1)] by auto
qed

lemma must_locators_ok:
  "verify_keys s keys = Inr (Inr ()) \<Longrightarrow>
     \<exists>locs. must_locators s keys = Inr locs \<and> list_all (loc_ok (schema_size s)) locs"
  by (induction keys) (auto simp: checks dest!: must_create_ok)

lemma subexp_locators_ok:
  "list_all (\<lambda>n. n = [] \<or> n \<in> set (fieldNames s)) names \<Longrightarrow>
     \<exists>locs. subexp_locators s names = Inr locs \<and> length locs = length names \<and>
       list_all (\<lambda>l. l = MissingFieldLocator \<or> loc_ok (schema_size s) l) locs"
proof (induction names)
  case Nil
  then show ?case by simp
next
  case (Cons name names)
  have "\<exists>l. (if name = [] then Inr MissingFieldLocator else must_create_field_locator s name) = Inr l \<and>
      (l = MissingFieldLocator \<or> loc_ok (schema_size s) l)"
    using Cons.prems create_field_locator_defined[of s name] by (auto dest: must_create_ok)
  then show ?case using Cons by auto
qed

lemma verified_matcher:
  assumes "verify_matcher s match = Inr ()" and "distinct (fieldNames s)"
  shows "\<exists>ms. new_matcher s match = Inr ms \<and> matcher_ok (schema_size s) ms"
proof -
  define r where "r = \<lparr>Fields = fieldNames s, RawLength = 0, Timestamp = 0, Unescaped = False,
    backbuf = None, refCount = 0\<rparr>"
  have "schema_size s \<le> length (Fields r)" by (simp add: r_def)
  from new_matcher_ok[OF assms this] show ?thesis by blast
qed

lemma with_locator_ok:
  "create_field_locator s key = Inr loc \<Longrightarrow>
     with_locator s key labels mk = Some (Inr (mk loc, labels)) \<and> loc_ok (schema_size s) loc"
  using must_create_ok by (simp add: with_locator_def)

lemma build_total:
  assumes "distinct (fieldNames s)"
  shows "verify_transform env s c = Inr (Inr ()) \<Longrightarrow> buildable env s c \<Longrightarrow>
      \<exists>t ls. new_transform env s c = Some (Inr (t, ls)) \<and> total_transform (schema_size s) t"
    and "verify_transforms env s cs = Inr (Inr ()) \<Longrightarrow> all_buildable env s cs \<Longrightarrow>
      \<exists>ts ls. new_transforms env s cs = Some (Inr (ts, ls)) \<and> total_transforms (schema_size s) ts"
    and "verify_cases env s ss = Inr (Inr ()) \<Longrightarrow> cases_buildable env s ss \<Longrightarrow>
      \<exists>ms ls. new_cases env s ss = Some (Inr (ms, ls)) \<and> total_cases (schema_size s) ms"
  using assms
proof (induction env s c and env s cs and env s ss
    rule: verify_transform_verify_transforms_verify_cases.induct)
  case (1 env s pairs)
  then show ?case using new_add_fields_ok[of s pairs] by (auto simp: checks)
next
  case (2 env s steps)
  then show ?case by (fastforce simp: checks)
next
  case (3 env s keys)
  then show ?case using must_locators_ok[of s keys] by (auto simp: checks)
next
  case (4 env s match p label)
  then show ?case using verified_matcher[of s match]
    by (auto simp: checks verify_drop_def new_drop_def)
next
  case (5 env s key pattern)
  then obtain loc re where k: "create_field_locator s key = Inr loc" "compileRegexp env pattern = Some re"
    by (auto simp: checks verify_extract_def split: option.splits)
  then have re: "regexp_ok re" "list_all (\<lambda>n. n = [] \<or> n \<in> set (fieldNames s)) (subexpNames re)"
    using 5 by (auto simp: capture_names_ok_def)
  show ?case using subexp_locators_ok[OF re(2)] re(1) k must_create_ok[OF k(1)]
    by (auto simp: new_extract_def must_compile_def)
next
  case (6 env s pos key pattern n dest)
  then obtain l1 l2 where l: "create_field_locator s key = Inr l1" "create_field_locator s dest = Inr l2"
    by (auto simp: checks verify_extract_special_def)
  obtain ex where "new_string_extractor_simple pos pattern n = Some (Inr (Inr ex))" "extractor_total ex"
    using 6 by (auto simp: special_pattern_ok_def split: option.splits sum.splits)
  then show ?case using must_create_ok[OF l(1)] must_create_ok[OF l(2)]
    by (simp add: new_extract_special_def)
next
  case (7 env s match thens)
  then show ?case using verified_matcher[of s match] by (fastforce simp: checks)
next
  case (8 env s key mapping d)
  then obtain loc where "create_field_locator s key = Inr loc" by (auto simp: checks verify_map_value_def)
  then show ?case by (auto dest!: with_locator_ok)
next
  case (9 env s key label)
  then show ?case by simp
next
  case (10 env s key label)
  then obtain loc where "create_field_locator s key = Inr loc" by (auto simp: checks verify_labelled_def)
  then show ?case by (auto dest!: with_locator_ok)
next
  case (11 env s key pattern repl)
  then obtain loc re where "create_field_locator s key = Inr loc" "compileRegexp env pattern = Some re"
    by (auto simp: checks verify_replace_def)
  then show ?case by (auto simp: must_compile_def dest!: must_create_ok)
next
  case (12 env s cases)
  then show ?case by (fastforce simp: checks)
next
  case (13 env s key n sfx)
  then obtain loc where "create_field_locator s key = Inr loc" "0 < n" by (auto simp: checks verify_truncate_def)
  then show ?case by (auto dest!: with_locator_ok)
next
  case (14 env s key)
  then obtain loc where "create_field_locator s key = Inr loc" by (auto simp: checks)
  then show ?case by (auto dest!: with_locator_ok)
next
  case (15 env s)
  then show ?case by simp
next
  case (16 env s c cs)
  then show ?case by (fastforce simp: checks)
next
  case (17 env s)
  then show ?case by simp
next
  case (18 env s match thens rest)
  then show ?case using verified_matcher[of s match] by (fastforce simp: checks)
qed

section \<open>The rate of the drop transform\<close>

text \<open>\<open>d\<close> of \<open>m\<close> matched records dropped at a rate of \<open>p\<close> percent: less than one record off.\<close>

definition rate_ok :: "drop_state \<Rightarrow> bool" where
  "rate_ok d \<longleftrightarrow>
     0 \<le> totalDropped d \<and> totalDropped d \<le> totalMatched d \<and>
     targetRate d * totalMatched d - targetRate d \<le> 100 * totalDropped d \<and>
     100 * totalDropped d < targetRate d * totalMatched d + 100"

lemma quot_less_iff:
  assumes "0 \<le> a" and "0 < b"
  shows "go_quot a b < c \<longleftrightarrow> a < c * b"
proof -
  have "c \<le> a div b \<longleftrightarrow> c * b \<le> a"
  proof
    assume "c \<le> a div b"
    then have "c * b \<le> a div b * b" using assms(2) by (intro mult_right_mono) auto
    also have "\<dots> \<le> a" using div_mult_mod_eq[of a b] pos_mod_sign[OF assms(2), of a] by linarith
    finally show "c * b \<le> a" .
  next
    assume "c * b \<le> a"
    then have "(c * b) div b \<le> a div b" using assms(2) by (rule zdiv_mono1)
    then show "c \<le> a div b" using assms(2) by simp
  qed
  then show ?thesis using assms by (simp add: go_quot_nonneg not_le[symmetric] del: not_le)
qed

lemma run_drop_rate:
  assumes "run_drop d r = Inr (res, d', evs)" and "rate_ok d" and "1 \<le> targetRate d" and "targetRate d < 100"
    and "totalMatched d < 2 ^ 56"
  shows "rate_ok d' \<and> targetRate d' = targetRate d \<and> dropMatcher d' = dropMatcher d \<and>
     totalMatched d' \<le> totalMatched d + 1"
proof -
  have b: "0 \<le> totalDropped d" "totalDropped d \<le> totalMatched d" using assms(2) by (auto simp: rate_ok_def)
  have w: "wrap64 (100 * totalDropped d) = 100 * totalDropped d"
    "wrap64 (totalMatched d + 1) = totalMatched d + 1" "wrap64 (totalDropped d + 1) = totalDropped d + 1"
    using b assms(5) by (auto intro!: wrap64_id)
  obtain mt where mt: "match_record (dropMatcher d) r = Inr mt"
    using assms(1) by (auto simp: run_drop_def go_bind_eq_Inr)
  consider "\<not> mt" | "mt" "totalMatched d > 0" "100 * totalDropped d < targetRate d * totalMatched d"
    | "mt" "totalMatched d \<le> 0 \<or> \<not> 100 * totalDropped d < targetRate d * totalMatched d" by linarith
  then show ?thesis
  proof cases
    case 1
    then show ?thesis using assms mt by (simp add: run_drop_def)
  next
    case 2
    have "go_quot (100 * totalDropped d) (totalMatched d) < targetRate d"
      using 2 b by (simp add: quot_less_iff)
    then have "d' = d\<lparr>totalMatched := totalMatched d + 1, totalDropped := totalDropped d + 1\<rparr>"
      using assms(1,4) mt 2 w by (simp add: run_drop_def)
    then show ?thesis using 2 assms(2-4) by (auto simp: rate_ok_def algebra_simps)
  next
    case 3
    have "\<not> (totalMatched d > 0 \<and> go_quot (100 * totalDropped d) (totalMatched d) < targetRate d)"
      using 3 b by (auto simp: quot_less_iff)
    then have d': "d' = d\<lparr>totalMatched := totalMatched d + 1\<rparr>"
      using assms(1,4) mt 3 w by (auto simp: run_drop_def)
    have "targetRate d * totalMatched d \<le> 100 * totalDropped d"
    proof (cases "totalMatched d \<le> 0")
      case True
      then have "totalMatched d = 0" using b by linarith
      then show ?thesis using b by simp
    next
      case False
      then show ?thesis using 3 by linarith
    qed
    then show ?thesis using d' assms(2-4) by (auto simp: rate_ok_def algebra_simps)
  qed
qed

text \<open>A drop transform over a stream of records: the records that pass.\<close>

fun run_drops :: "drop_state \<Rightarrow> log_record list \<Rightarrow> (drop_state \<times> log_record list) go" where
  "run_drops d [] = Inr (d, [])"
| "run_drops d (r # rs) =
     go_bind (run_drop d r) (\<lambda>(res, d', evs).
     go_bind (run_drops d' rs) (\<lambda>(d'', kept).
       Inr (d'', if res = DROP then kept else r # kept)))"

lemma run_drops_rate:
  assumes "run_drops d rs = Inr (d', kept)" and "rate_ok d" and "1 \<le> targetRate d" and "targetRate d < 100"
    and "totalMatched d + int (length rs) < 2 ^ 56"
  shows "rate_ok d' \<and> targetRate d' = targetRate d"
  using assms
proof (induction rs arbitrary: d kept)
  case Nil
  then show ?case by simp
next
  case (Cons r rs)
  obtain res d1 evs kept1 where 1: "run_drop d r = Inr (res, d1, evs)" "run_drops d1 rs = Inr (d', kept1)"
    using Cons.prems(1) by (auto simp: go_bind_eq_Inr)
  have "rate_ok d1 \<and> targetRate d1 = targetRate d \<and> dropMatcher d1 = dropMatcher d \<and>
     totalMatched d1 \<le> totalMatched d + 1"
    using Cons.prems by (intro run_drop_rate[OF 1(1)]) auto
  then show ?case using Cons.IH[OF 1(2)] Cons.prems by auto
qed

subsection \<open>How many records a drop transform drops\<close>

definition matches :: "drop_state \<Rightarrow> log_record \<Rightarrow> bool" where
  "matches d r \<longleftrightarrow> match_record (dropMatcher d) r = Inr True"

lemma run_drop_counts:
  assumes "matcher_ok n (dropMatcher d)" and "n \<le> length (Fields r)"
    and "rate_ok d" and "1 \<le> targetRate d" and "targetRate d < 100" and "totalMatched d < 2 ^ 56"
  shows "\<exists>res d' evs. run_drop d r = Inr (res, d', evs) \<and>
     totalMatched d' = totalMatched d + (if matches d r then 1 else 0) \<and>
     totalDropped d' = totalDropped d + (if res = DROP then 1 else 0) \<and> (res = DROP \<longrightarrow> matches d r)"
proof -
  have b: "0 \<le> totalDropped d" "totalDropped d \<le> totalMatched d" using assms(3) by (auto simp: rate_ok_def)
  have w: "wrap64 (totalMatched d + 1) = totalMatched d + 1" "wrap64 (totalDropped d + 1) = totalDropped d + 1"
    using b assms(6) by (auto intro!: wrap64_id)
  obtain mt where mt: "match_record (dropMatcher d) r = Inr mt"
    using match_record_total[OF assms(1,2)] by blast
  show ?thesis using mt w assms(5) by (cases mt) (auto simp: run_drop_def matches_def)
qed

lemma run_drops_counts:
  assumes "matcher_ok n (dropMatcher d)" and "\<forall>r \<in> set rs. n \<le> length (Fields r)"
    and "rate_ok d" and "1 \<le> targetRate d" and "targetRate d < 100"
    and "totalMatched d + int (length rs) < 2 ^ 56"
  shows "\<exists>d' kept. run_drops d rs = Inr (d', kept) \<and>
     totalMatched d' = totalMatched d + int (length (filter (matches d) rs)) \<and>
     totalDropped d' = totalDropped d + (int (length rs) - int (length kept)) \<and>
     filter (\<lambda>r. \<not> matches d r) kept = filter (\<lambda>r. \<not> matches d r) rs"
  using assms
proof (induction rs arbitrary: d)
  case Nil
  then show ?case by simp
next
  case (Cons r rs)
  obtain res d1 evs where 1: "run_drop d r = Inr (res, d1, evs)"
    "totalMatched d1 = totalMatched d + (if matches d r then 1 else 0)"
    "totalDropped d1 = totalDropped d + (if res = DROP then 1 else 0)" "res = DROP \<longrightarrow> matches d r"
    using run_drop_counts[OF Cons.prems(1) _ Cons.prems(3-5)] Cons.prems(2,6) by fastforce
  have keep: "rate_ok d1" "targetRate d1 = targetRate d" "dropMatcher d1 = dropMatcher d"
    using run_drop_rate[OF 1(1) Cons.prems(3-5)] Cons.prems(6) by auto
  have m: "matches d1 = matches d" using keep(3) by (simp add: matches_def fun_eq_iff)
  have "totalMatched d1 + int (length rs) < 2 ^ 56" using 1(2) Cons.prems(6) by (auto split: if_splits)
  then obtain d' kept where 2: "run_drops d1 rs = Inr (d', kept)"
    "totalMatched d' = totalMatched d1 + int (length (filter (matches d) rs))"
    "totalDropped d' = totalDropped d1 + (int (length rs) - int (length kept))"
    "filter (\<lambda>r. \<not> matches d r) kept = filter (\<lambda>r. \<not> matches d r) rs"
    using Cons.IH[of d1] Cons.prems keep unfolding m by auto
  then show ?case using 1 by (cases "res = DROP") auto
qed

subsection \<open>A chain over a stream of records\<close>

fun run_chain ::
  "environment \<Rightarrow> transform list \<Rightarrow> log_record list \<Rightarrow>
     (transform list \<times> (filter_result \<times> log_record) list) run" where
  "run_chain env ts [] = Some (Inr (ts, []))"
| "run_chain env ts (r # rs) =
     run_bind (run_transforms env ts r) (\<lambda>(res, ts1, r1, evs).
     run_bind (run_chain env ts1 rs) (\<lambda>(ts2, out). Some (Inr (ts2, (res, r1) # out))))"

lemma run_chain_total:
  assumes "total_transforms n ts" and "\<forall>r \<in> set rs. n \<le> length (Fields r)"
  shows "\<exists>ts' out. run_chain env ts rs = Some (Inr (ts', out)) \<and> total_transforms n ts' \<and>
     list_all2 same_frame rs (map snd out)"
  using assms
proof (induction rs arbitrary: ts)
  case Nil
  then show ?case by simp
next
  case (Cons r rs)
  have len: "n \<le> length (Fields r)" using Cons.prems(2) by simp
  obtain res ts1 r1 evs where 1: "run_transforms env ts r = Some (Inr (res, ts1, r1, evs))"
    "total_transforms n ts1"
    using run_total(2)[OF Cons.prems(1) len] by blast
  obtain ts2 out where "run_chain env ts1 rs = Some (Inr (ts2, out))" "total_transforms n ts2"
    "list_all2 same_frame rs (map snd out)"
    using Cons.IH[OF 1(2)] Cons.prems(2) by auto
  then show ?case using 1 run_frame(2)[OF 1(1)] by auto
qed

section \<open>Properties\<close>



text \<open>
  C29: a drop transform with a rate below 100 percent keeps every record that does not match, and
  of those that match, counted from its creation, it drops the configured percentage up to less
  than one record more and at most one record less.
\<close>

theorem drop_rate:
  assumes "matcher_ok n (dropMatcher d)" and "\<forall>r \<in> set rs. n \<le> length (Fields r)"
    and "totalMatched d = 0" and "totalDropped d = 0" and "1 \<le> targetRate d" and "targetRate d < 100"
    and "length rs < 2 ^ 56"
  shows "\<exists>d' kept. run_drops d rs = Inr (d', kept) \<and>
     filter (\<lambda>r. \<not> matches d r) kept = filter (\<lambda>r. \<not> matches d r) rs \<and>
     (let matched = int (length (filter (matches d) rs)); dropped = int (length rs) - int (length kept) in
      targetRate d * matched - targetRate d \<le> 100 * dropped \<and>
      100 * dropped < targetRate d * matched + 100)"
proof -
  have r: "rate_ok d" using assms(3-5) by (simp add: rate_ok_def)
  have "int (length rs) < int (2 ^ 56)" using assms(7) by (simp only: of_nat_less_iff)
  then have l: "totalMatched d + int (length rs) < 2 ^ 56" using assms(3) by simp
  obtain d' kept where k: "run_drops d rs = Inr (d', kept)"
    "totalMatched d' = int (length (filter (matches d) rs))"
    "totalDropped d' = int (length rs) - int (length kept)"
    "filter (\<lambda>r. \<not> matches d r) kept = filter (\<lambda>r. \<not> matches d r) rs"
    using run_drops_counts[OF assms(1,2) r assms(5,6) l] assms(3,4) by auto
  have "rate_ok d' \<and> targetRate d' = targetRate d" by (rule run_drops_rate[OF k(1) r assms(5,6) l])
  then show ?thesis using k by (auto simp: rate_ok_def Let_def)
qed

theorem drop_rate_witness:
  "\<exists>d rs d' kept. run_drops d rs = Inr (d', kept) \<and> length rs = 4 \<and> targetRate d = 50 \<and>
     150 \<le> 100 * (4 - int (length kept)) \<and> 100 * (4 - int (length kept)) < 300"
proof -
  define d where "d = \<lparr>dropMatcher = [], dropLabel = ''d'', targetRate = 50, totalMatched = 0, totalDropped = 0\<rparr>"
  define rs where "rs = replicate 4 \<lparr>Fields = [], RawLength = 0, Timestamp = 0, Unescaped = False,
    backbuf = None, refCount = 1\<rparr>"
  have a: "matcher_ok 0 (dropMatcher d)" "\<forall>r \<in> set rs. 0 \<le> length (Fields r)" "totalMatched d = 0"
    "totalDropped d = 0" "1 \<le> targetRate d" "targetRate d < 100" "length rs < 2 ^ 56"
    by (simp_all add: d_def rs_def matcher_ok_def)
  have "filter (matches d) rs = rs" by (simp add: rs_def matches_def d_def)
  then obtain d' kept where "run_drops d rs = Inr (d', kept)"
    "150 \<le> 100 * (4 - int (length kept))" "100 * (4 - int (length kept)) < 300"
    using drop_rate[OF a] by (auto simp: Let_def d_def rs_def)
  then show ?thesis
    by (intro exI[of _ d] exI[of _ rs] exI[of _ d'] exI[of _ kept]) (simp add: d_def rs_def)
qed

end
