(* ===== verification/Syslog.thy ===== *)
theory Syslog
  imports Allocator Counters Utf8
begin

text \<open>
  The RFC 5424 parser: \<open>input/syslogparser/syslogparser.go\<close> and \<open>input/syslogprotocol\<close>. Parsing
  allocates a record, cuts the fields out of the input, counts the record as passed or
  dropped, and releases a malformed one. Log messages are not modelled.
\<close>

section \<open>Protocol tables\<close>

definition FacilityNames :: "bytes list" where
  "FacilityNames =
     [''kern'', ''user'', ''mail'', ''daemon'', ''auth'', ''syslog'', ''lpr'', ''news'', ''uucp'', ''cron'',
      ''authpriv'', ''ftp'', ''ntp'', ''audit'', ''alert'', ''clock'', ''local0'', ''local1'', ''local2'',
      ''local3'', ''local4'', ''local5'', ''local6'', ''local7'']"

definition SeverityNames :: "bytes list" where
  "SeverityNames = [''emerg'', ''alert'', ''crit'', ''err'', ''warn'', ''notice'', ''info'', ''debug'']"

definition SeverityToLog4jLevel :: "bytes list" where
  "SeverityToLog4jLevel = [''off'', ''fatal'', ''crit'', ''error'', ''warn'', ''notice'', ''info'', ''debug'']"

definition rfc5424_names :: "bytes list" where
  "rfc5424_names = [''facility'', ''level'', ''time'', ''host'', ''app'', ''pid'', ''source'', ''extradata'', ''log'']"

definition RFC5424Schema :: "log_schema go" where
  "RFC5424Schema = must_new_log_schema rfc5424_names"

text \<open>\<open>TestRecordStart\<close>; the loop over \<open>i = 2, 3\<close> is written out.\<close>

definition ends_pri :: "bytes \<Rightarrow> nat \<Rightarrow> bool" where
  "ends_pri s i \<longleftrightarrow> s ! (i + 1) = CHR ''1'' \<and> s ! (i + 2) = CHR '' ''"

definition test_record_start :: "bytes \<Rightarrow> bool" where
  "test_record_start s =
     (if length s < 32 then False
      else if s ! 0 \<noteq> CHR ''<'' then False
      else if \<not> is_digit (s ! 1) then False
      else if s ! 2 = CHR ''>'' then ends_pri s 2
      else if \<not> is_digit (s ! 2) then False
      else if s ! 3 = CHR ''>'' then ends_pri s 3
      else if \<not> is_digit (s ! 3) then False
      else s ! 4 = CHR ''>'' \<and> ends_pri s 4)"

section \<open>The parser\<close>

definition InputLogMaxMessageBytes :: nat where
  "InputLogMaxMessageBytes = 1024 * 1024"

definition InputLogMaxRecordBytes :: nat where
  "InputLogMaxRecordBytes = InputLogMaxMessageBytes + 256"

record syslog_parser =
  levelMapping :: "bytes list"
  fieldFacility :: locator
  fieldLevel :: locator
  fieldLog :: locator
  restFields :: "locator list"

definition rest_names :: "bytes list" where
  "rest_names = [''time'', ''host'', ''app'', ''pid'', ''source'', ''extradata'']"

text \<open>\<open>NewParser\<close> also registers the counter \<open>overflow\<close>.\<close>

definition new_syslog_parser ::
  "log_schema \<Rightarrow> bytes list \<Rightarrow> input_counters \<Rightarrow> (syslog_parser \<times> input_counters) cfg" where
  "new_syslog_parser s mapping counters =
     (if mapping \<noteq> [] \<and> length mapping \<noteq> 8 then Inl (InvalidValue ''level mapping should have 8 elements'')
      else case create_field_locator s ''facility'' of
        Inl e \<Rightarrow> Inl e
      | Inr locFacility \<Rightarrow>
          (case create_field_locator s ''level'' of
             Inl e \<Rightarrow> Inl e
           | Inr locLevel \<Rightarrow>
               (case create_field_locators s rest_names of
                  Inl e \<Rightarrow> Inl e
                | Inr locRest \<Rightarrow>
                    (case create_field_locator s ''log'' of
                       Inl e \<Rightarrow> Inl e
                     | Inr locLog \<Rightarrow>
                         Inr (\<lparr>levelMapping = (if mapping = [] then SeverityNames else mapping),
                               fieldFacility = locFacility, fieldLevel = locLevel, fieldLog = locLog,
                               restFields = locRest\<rparr>,
                              counters\<lparr>customHost :=
                                snd (register_custom_counter (customHost counters) ''overflow'')\<rparr>)))))"

definition next_field_by_space :: "bytes \<Rightarrow> (bytes \<times> bytes) option" where
  "next_field_by_space s =
     (case index_byte (CHR '' '') s of
        None \<Rightarrow> None
      | Some n \<Rightarrow> Some (take n s, drop (n + 1) s))"

text \<open>What the checks of \<open>Parse\<close> find: a malformed record, or the fields and the message.\<close>

fun set_rest_fields :: "locator list \<Rightarrow> bytes list \<Rightarrow> bytes \<Rightarrow> (bytes list \<times> bytes) option go" where
  "set_rest_fields [] fs remaining = Inr (Some (fs, remaining))"
| "set_rest_fields (loc # locs) fs remaining =
     (case next_field_by_space remaining of
        None \<Rightarrow> Inr None
      | Some (val, next) \<Rightarrow>
          go_bind (loc_set loc fs val) (\<lambda>fs'. set_rest_fields locs fs' next))"

definition parse_header :: "syslog_parser \<Rightarrow> bytes list \<Rightarrow> bytes \<Rightarrow> (bytes list \<times> bytes) option go" where
  "parse_header p fs input =
     (if length input < 32 \<or> hd input \<noteq> CHR ''<'' then Inr None
      else case next_field_by_space input of
        None \<Rightarrow> Inr None
      | Some (val, next) \<Rightarrow>
          go_bind (go_slice val (int (length val) - 2) (int (length val))) (\<lambda>tail.
          if tail \<noteq> ''>1'' then Inr None
          else go_bind (go_slice val 1 (int (length val) - 2)) (\<lambda>pri.
            case strconv_atoi pri of
              None \<Rightarrow> Inr None
            | Some priVal \<Rightarrow>
                let facility = priVal div 8 in
                if facility < 0 \<or> facility \<ge> int (length FacilityNames) then Inr None
                else go_bind (go_index FacilityNames facility) (\<lambda>facilityName.
                  go_bind (loc_set (fieldFacility p) fs facilityName) (\<lambda>fs1.
                  go_bind (go_index (levelMapping p) (priVal mod 8)) (\<lambda>severityName.
                  go_bind (loc_set (fieldLevel p) fs1 severityName) (\<lambda>fs2.
                    set_rest_fields (restFields p) fs2 next)))))))"

definition on_malformed ::
  "log_allocator \<Rightarrow> input_counters \<Rightarrow> log_record \<Rightarrow> (log_allocator \<times> input_counters) go" where
  "on_malformed alloc counters r =
     go_bind (release alloc r) (\<lambda>(r', alloc'). Inr (alloc', count_record_drop counters r))"

definition on_overflow :: "input_counters \<Rightarrow> bytes \<Rightarrow> input_counters go" where
  "on_overflow counters rawLog =
     go_bind (count_host (customHost counters) ''overflow'' (length rawLog)) (\<lambda>host.
       Inr (counters\<lparr>customHost := host\<rparr>))"

text \<open>The message field: cut at the limit, and cleaned at its end when the whole record is at the
  limit of the input.\<close>

definition limit_message :: "nat \<Rightarrow> bytes \<Rightarrow> bytes go" where
  "limit_message rawLength remaining =
     (let cut = take InputLogMaxMessageBytes remaining in
      if rawLength \<ge> InputLogMaxRecordBytes then clean_utf8 cut else Inr cut)"

definition parse_syslog ::
  "nat option \<Rightarrow> nat option \<Rightarrow> syslog_parser \<Rightarrow> log_allocator \<Rightarrow> input_counters \<Rightarrow> bytes \<Rightarrow> gotime \<Rightarrow>
     (log_record option \<times> log_allocator \<times> input_counters) go" where
  "parse_syslog c1 c2 p alloc counters input timestamp =
     go_bind (new_record c1 c2 alloc input) (\<lambda>(r0, s, alloc1).
     let r = r0\<lparr>RawLength := length input, Timestamp := timestamp\<rparr> in
     go_bind (parse_header p (Fields r) s) (\<lambda>parsed.
       case parsed of
         None \<Rightarrow>
           go_bind (on_malformed alloc1 counters r) (\<lambda>(alloc2, counters'). Inr (None, alloc2, counters'))
       | Some (fs, remaining) \<Rightarrow>
           go_bind (if length remaining > InputLogMaxMessageBytes then on_overflow counters input
                    else Inr counters) (\<lambda>counters1.
           go_bind (limit_message (RawLength r) remaining) (\<lambda>msg.
           go_bind (loc_set (fieldLog p) fs msg) (\<lambda>fs'.
             let r' = r\<lparr>Fields := fs', Unescaped := (CHR 0x0A \<in> set msg)\<rparr> in
             Inr (Some r', alloc1, count_record_pass counters1 r'))))))"

section \<open>Well-formed parsers\<close>

definition parser_ok :: "nat \<Rightarrow> syslog_parser \<Rightarrow> bool" where
  "parser_ok n p \<longleftrightarrow>
     length (levelMapping p) = 8 \<and> loc_ok n (fieldFacility p) \<and> loc_ok n (fieldLevel p) \<and>
     loc_ok n (fieldLog p) \<and> list_all (loc_ok n) (restFields p)"

lemma length_FacilityNames [simp]: "length FacilityNames = 24"
  by (simp add: FacilityNames_def)

lemma new_syslog_parser_ok:
  "new_syslog_parser s mapping c = Inr (p, c') \<Longrightarrow>
     parser_ok (length (fieldNames s)) p \<and> customHost c' ''overflow'' \<noteq> None"
  using create_field_locator_ok create_field_locators_ok
  by (fastforce simp: new_syslog_parser_def parser_ok_def SeverityNames_def register_custom_counter_def
      split: if_splits sum.splits option.splits)

section \<open>When parsing returns\<close>

lemma next_field_some:
  "next_field_by_space s = Some (v, next) \<Longrightarrow> s = v @ CHR '' '' # next \<and> CHR '' '' \<notin> set v"
  by (auto simp: next_field_by_space_def split: option.splits dest: index_byte_split index_byte_SomeD)

lemma next_field_append:
  "CHR '' '' \<notin> set v \<Longrightarrow> next_field_by_space (v @ CHR '' '' # next) = Some (v, next)"
  by (simp add: next_field_by_space_def index_byte_unique)

lemma set_rest_fields_ok:
  "list_all (loc_ok (length fs)) locs \<Longrightarrow>
     \<exists>r. set_rest_fields locs fs remaining = Inr r \<and>
       (\<forall>fs' m. r = Some (fs', m) \<longrightarrow> length fs' = length fs \<and> length m \<le> length remaining)"
proof (induction locs arbitrary: fs remaining)
  case Nil
  then show ?case by simp
next
  case (Cons loc locs)
  show ?case
  proof (cases "next_field_by_space remaining")
    case None
    then show ?thesis by simp
  next
    case (Some vn)
    obtain v n where vn: "vn = (v, n)" by (cases vn)
    have "remaining = v @ CHR '' '' # n" using next_field_some Some vn by blast
    then have "length n \<le> length remaining" by simp
    moreover have "loc_set loc fs v = Inr (fs[nat loc := v])" using Cons.prems by (simp add: loc_set_ok)
    moreover obtain r where "set_rest_fields locs (fs[nat loc := v]) n = Inr r"
      "\<forall>fs' m. r = Some (fs', m) \<longrightarrow> length fs' = length fs \<and> length m \<le> length n"
      using Cons.IH[of "fs[nat loc := v]" n] Cons.prems by auto
    ultimately show ?thesis using Some vn by fastforce
  qed
qed

text \<open>The one input that panics: a first field of a single byte.\<close>

definition bare_bracket :: "bytes \<Rightarrow> bool" where
  "bare_bracket s \<longleftrightarrow> length s \<ge> 32 \<and> has_prefix s ''< ''"

lemma parse_header_panics:
  assumes "bare_bracket s"
  shows "parse_header p fs s = Inl SliceBounds"
proof -
  obtain t where s: "s = ''<'' @ CHR '' '' # t" using assms by (auto simp: bare_bracket_def has_prefix_iff)
  have "next_field_by_space s = Some (''<'', t)" unfolding s by (rule next_field_append) simp
  moreover have "length s \<ge> 32" using assms by (simp add: bare_bracket_def)
  ultimately show ?thesis using s by (simp add: parse_header_def)
qed

lemma parse_header_ok:
  assumes "parser_ok (length fs) p" and "\<not> bare_bracket s"
  shows "\<exists>r. parse_header p fs s = Inr r \<and>
     (\<forall>fs' m. r = Some (fs', m) \<longrightarrow> length fs' = length fs \<and> length m \<le> length s)"
proof (cases "length s < 32 \<or> hd s \<noteq> CHR ''<'' \<or> next_field_by_space s = None")
  case True
  then show ?thesis by (auto simp: parse_header_def)
next
  case False
  then obtain v n where vn: "next_field_by_space s = Some (v, n)" by auto
  then have s: "s = v @ CHR '' '' # n" "CHR '' '' \<notin> set v" using next_field_some by auto
  have v2: "length v \<ge> 2"
  proof (rule ccontr)
    assume "\<not> length v \<ge> 2"
    then have "v = [] \<or> (\<exists>c. v = [c])" by (cases v; cases "tl v") auto
    then have "has_prefix s ''< ''"
      using False s by (auto simp: has_prefix_iff)
    then show False using assms(2) False by (simp add: bare_bracket_def)
  qed
  then have tl: "\<exists>t. go_slice v (int (length v) - 2) (int (length v)) = Inr t" by (simp add: go_slice_def)
  then obtain t where t: "go_slice v (int (length v) - 2) (int (length v)) = Inr t" by blast
  show ?thesis
  proof (cases "t = ''>1''")
    case wrong: False
    then show ?thesis using vn t by (auto simp: parse_header_def)
  next
    case one: True
    have "length v \<noteq> 2"
    proof
      assume l2: "length v = 2"
      then have "t = v" using t by (simp add: go_slice_def)
      then show False using one False s by auto
    qed
    then obtain pri where pri: "go_slice v 1 (int (length v) - 2) = Inr pri"
      using v2 by (auto simp: go_slice_def)
    show ?thesis
    proof (cases "strconv_atoi pri")
      case None
      then show ?thesis using vn t pri by (auto simp: parse_header_def)
    next
      case (Some x)
      show ?thesis
      proof (cases "x div 8 < 0 \<or> x div 8 \<ge> 24")
        case True
        then show ?thesis using vn t pri Some by (auto simp: parse_header_def Let_def)
      next
        case inb: False
        obtain f where f: "go_index FacilityNames (x div 8) = Inr f" using inb by (auto simp: go_index_def)
        obtain sv where sv: "go_index (levelMapping p) (x mod 8) = Inr sv"
          using assms(1) by (auto simp: go_index_def parser_ok_def)
        let ?fs = "(fs[nat (fieldFacility p) := f])[nat (fieldLevel p) := sv]"
        have ls: "loc_set (fieldFacility p) fs f = Inr (fs[nat (fieldFacility p) := f])"
          "loc_set (fieldLevel p) (fs[nat (fieldFacility p) := f]) sv = Inr ?fs"
          using assms(1) by (auto simp: parser_ok_def loc_set_ok)
        obtain r where "set_rest_fields (restFields p) ?fs n = Inr r"
          "\<forall>fs' m. r = Some (fs', m) \<longrightarrow> length fs' = length ?fs \<and> length m \<le> length n"
          using set_rest_fields_ok[of ?fs "restFields p" n] assms(1) by (auto simp: parser_ok_def)
        moreover have "length n \<le> length s" using s by simp
        ultimately show ?thesis using vn t pri Some inb f sv ls False one
          by (auto simp: parse_header_def Let_def intro: order_trans)
      qed
    qed
  qed
qed

lemma test_record_start_safe: "test_record_start s \<Longrightarrow> \<not> bare_bracket s"
proof
  assume a: "test_record_start s" "bare_bracket s"
  then obtain t where "s = CHR ''<'' # CHR '' '' # t" by (auto simp: bare_bracket_def has_prefix_iff)
  then show False using a(1) by (auto simp: test_record_start_def is_digit_def split: if_splits)
qed

definition counters_ready :: "input_counters \<Rightarrow> bool" where
  "counters_ready c \<longleftrightarrow> customHost c ''overflow'' \<noteq> None"

text \<open>Exactly one of the two input counters is increased, by the length of the input.\<close>

definition counted_pass :: "input_counters \<Rightarrow> nat \<Rightarrow> input_counters \<Rightarrow> bool" where
  "counted_pass c n c' \<longleftrightarrow>
     unwrittenValue (passedCount c') = unwrittenValue (passedCount c) + 1 \<and>
     unwrittenValue (passedLength c') = unwrittenValue (passedLength c) + word_of_nat n \<and>
     droppedCount c' = droppedCount c \<and> droppedLength c' = droppedLength c"

definition counted_drop :: "input_counters \<Rightarrow> nat \<Rightarrow> input_counters \<Rightarrow> bool" where
  "counted_drop c n c' \<longleftrightarrow>
     unwrittenValue (droppedCount c') = unwrittenValue (droppedCount c) + 1 \<and>
     unwrittenValue (droppedLength c') = unwrittenValue (droppedLength c) + word_of_nat n \<and>
     passedCount c' = passedCount c \<and> passedLength c' = passedLength c"

lemma parse_syslog_ok:
  assumes "allocator_ok alloc" and "0 < initialRefCount alloc" and "parser_ok (allocFields alloc) p"
    and "counters_ready c" and "length input < 2 ^ 31" and "\<not> bare_bracket input"
  shows "\<exists>res alloc' c'. parse_syslog c1 c2 p alloc c input ts = Inr (res, alloc', c') \<and>
     allocator_ok alloc' \<and> counters_ready c' \<and>
     initialRefCount alloc' = initialRefCount alloc \<and> allocFields alloc' = allocFields alloc \<and>
     (case res of
        None \<Rightarrow> counted_drop c (length input) c'
      | Some r \<Rightarrow> counted_pass c (length input) c' \<and> in_use alloc' r \<and> RawLength r = length input \<and>
          Timestamp r = ts \<and> refCount r = initialRefCount alloc \<and>
          (\<exists>msg. loc_get (fieldLog p) (Fields r) = Inr msg \<and> length msg \<le> InputLogMaxMessageBytes \<and>
             Unescaped r = (CHR 0x0A \<in> set msg)))"
proof -
  obtain r0 alloc1 where new: "new_record c1 c2 alloc input = Inr (r0, input, alloc1)"
    "allocator_ok alloc1" "in_use alloc1 r0" "Fields r0 = replicate (allocFields alloc) []"
    "refCount r0 = initialRefCount alloc" "initialRefCount alloc1 = initialRefCount alloc"
    "allocFields alloc1 = allocFields alloc"
    using new_record_correct[OF assms(1,5), of c1 c2] by blast
  define r where "r = r0\<lparr>RawLength := length input, Timestamp := ts\<rparr>"
  have r: "Fields r = replicate (allocFields alloc) []" "in_use alloc1 r" "refCount r = initialRefCount alloc"
    "RawLength r = length input" "Timestamp r = ts"
    using new by (auto simp: r_def in_use_def)
  obtain h where h: "parse_header p (Fields r) input = Inr h"
    "\<forall>fs' m. h = Some (fs', m) \<longrightarrow> length fs' = length (Fields r) \<and> length m \<le> length input"
    using parse_header_ok[of "Fields r" p input] assms(3,6) r(1) by auto
  note * = parse_syslog_def[of c1 c2 p alloc c input ts, unfolded new(1) go_bind_Inr prod.case Let_def,
      folded r_def, unfolded h(1) go_bind_Inr]
  show ?thesis
  proof (cases h)
    case None
    have "\<exists>r' alloc2. release alloc1 r = Inr (r', alloc2) \<and> allocator_ok alloc2 \<and>
        initialRefCount alloc2 = initialRefCount alloc \<and> allocFields alloc2 = allocFields alloc"
    proof (cases "refCount r = 1")
      case True
      from release_last[OF new(2) r(2) True] show ?thesis using new(6,7) by auto
    next
      case False
      then have "refCount r > 1" using r(3) assms(2) by simp
      from release_keeps[OF new(2) r(2) this] show ?thesis using new(2,6,7) by auto
    qed
    then show ?thesis unfolding *
      using None assms(4) r(4)
      by (auto simp: on_malformed_def counted_drop_def counters_ready_def count_record_drop_def add_value_def)
  next
    case (Some fm)
    obtain fs m where fm: "fm = (fs, m)" by (cases fm)
    then have len: "length fs = allocFields alloc" using h(2) Some r(1) by simp
    obtain c2 where c2: "(if length m > InputLogMaxMessageBytes then on_overflow c input else Inr c) = Inr c2"
      "counters_ready c2" "passedCount c2 = passedCount c" "passedLength c2 = passedLength c"
      "droppedCount c2 = droppedCount c" "droppedLength c2 = droppedLength c"
    proof (cases "length m > InputLogMaxMessageBytes")
      case True
      then show ?thesis using assms(4) that
        by (auto simp: on_overflow_def count_host_def counters_ready_def split: option.splits)
    next
      case False
      then show ?thesis using assms(4) that by simp
    qed
    obtain msg where msg: "limit_message (RawLength r) m = Inr msg" "length msg \<le> InputLogMaxMessageBytes"
    proof -
      let ?cut = "take InputLogMaxMessageBytes m"
      have cl: "length ?cut \<le> InputLogMaxMessageBytes" by simp
      obtain w where w: "clean_utf8 ?cut = Inr w" using clean_utf8_eq by blast
      then have "length w \<le> length ?cut" by (rule clean_utf8_length)
      then have wl: "length w \<le> InputLogMaxMessageBytes" using cl by (rule order_trans)
      show thesis
      proof (cases "RawLength r \<ge> InputLogMaxRecordBytes")
        case True
        then have "limit_message (RawLength r) m = Inr w" using w by (simp add: limit_message_def)
        then show ?thesis using wl that by blast
      next
        case False
        then have "limit_message (RawLength r) m = Inr ?cut" by (simp add: limit_message_def)
        then show ?thesis using cl that by blast
      qed
    qed
    have lo: "loc_ok (length fs) (fieldLog p)" using assms(3) len by (simp add: parser_ok_def)
    have ls: "loc_set (fieldLog p) fs msg = Inr (fs[nat (fieldLog p) := msg])"
      by (rule loc_set_ok[OF lo])
    have lg: "loc_get (fieldLog p) (fs[nat (fieldLog p) := msg]) = Inr msg"
      using loc_set_get[OF ls, of "fieldLog p"] by simp
    show ?thesis unfolding *
      using Some fm c2 msg ls lg r new(2,6,7) len
      by (simp add: counted_pass_def count_record_pass_def add_value_def counters_ready_def in_use_def)
  qed
qed


section \<open>Well-formed lines\<close>

definition syslog_line :: "bytes \<Rightarrow> bytes list \<Rightarrow> bytes \<Rightarrow> bytes" where
  "syslog_line pri vals msg = ''<'' @ pri @ ''>1'' @ '' '' @ concat (map (\<lambda>v. v @ '' '') vals) @ msg"

fun set_all :: "locator list \<Rightarrow> bytes list \<Rightarrow> bytes list \<Rightarrow> bytes list" where
  "set_all (l # ls) (v # vs) fs = set_all ls vs (fs[nat l := v])"
| "set_all ls vs fs = fs"

lemma set_rest_fields_tokens:
  assumes "length vals = length locs" and "list_all (loc_ok (length fs)) locs"
    and "list_all (\<lambda>v. CHR '' '' \<notin> set v) vals"
  shows "set_rest_fields locs fs (concat (map (\<lambda>v. v @ '' '') vals) @ msg) =
     Inr (Some (set_all locs vals fs, msg))"
  using assms
proof (induction locs vals fs rule: set_all.induct)
  case (1 l ls v vs fs)
  have "next_field_by_space (v @ CHR '' '' # (concat (map (\<lambda>v. v @ '' '') vs) @ msg)) =
      Some (v, concat (map (\<lambda>v. v @ '' '') vs) @ msg)"
    using 1 by (intro next_field_append) simp
  then show ?case using 1 by (simp add: loc_set_ok)
qed auto

lemma parse_header_line:
  assumes "parser_ok (length fs) p" and "strconv_atoi pri = Some (8 * int fac + int sev)"
    and "fac < 24" and "sev < 8" and "CHR '' '' \<notin> set pri"
    and "length vals = length (restFields p)" and "list_all (\<lambda>v. CHR '' '' \<notin> set v) vals"
    and "length (syslog_line pri vals msg) \<ge> 32"
  shows "parse_header p fs (syslog_line pri vals msg) =
     Inr (Some (set_all (restFields p) vals
       ((fs[nat (fieldFacility p) := FacilityNames ! fac])[nat (fieldLevel p) := levelMapping p ! sev]), msg))"
proof -
  let ?v = "''<'' @ pri @ ''>1''" and ?rest = "concat (map (\<lambda>v. v @ '' '') vals) @ msg"
  have "next_field_by_space (?v @ CHR '' '' # ?rest) = Some (?v, ?rest)"
    using assms(5) by (intro next_field_append) simp
  then have nf: "next_field_by_space (syslog_line pri vals msg) = Some (?v, ?rest)"
    by (simp add: syslog_line_def)
  have hd: "hd (syslog_line pri vals msg) = CHR ''<''" by (simp add: syslog_line_def)
  have tl: "go_slice ?v (int (length ?v) - 2) (int (length ?v)) = Inr ''>1''"
    by (simp add: go_slice_def nat_add_distrib)
  have pr: "go_slice ?v 1 (int (length ?v) - 2) = Inr pri"
    by (simp add: go_slice_def nat_add_distrib)
  have fa: "(8 * int fac + int sev) div 8 = int fac" "(8 * int fac + int sev) mod 8 = int sev"
    using assms(4) by auto
  have idx: "go_index FacilityNames (int fac) = Inr (FacilityNames ! fac)"
    "go_index (levelMapping p) (int sev) = Inr (levelMapping p ! sev)"
    using assms(1,3,4) by (auto simp: parser_ok_def)
  let ?fs = "(fs[nat (fieldFacility p) := FacilityNames ! fac])[nat (fieldLevel p) := levelMapping p ! sev]"
  have ls: "loc_set (fieldFacility p) fs (FacilityNames ! fac) = Inr (fs[nat (fieldFacility p) := FacilityNames ! fac])"
    "loc_set (fieldLevel p) (fs[nat (fieldFacility p) := FacilityNames ! fac]) (levelMapping p ! sev) = Inr ?fs"
    using assms(1) by (auto simp: parser_ok_def loc_set_ok)
  have rest: "set_rest_fields (restFields p) ?fs ?rest = Inr (Some (set_all (restFields p) vals ?fs, msg))"
    using assms(1,6,7) by (intro set_rest_fields_tokens) (auto simp: parser_ok_def)
  have nlen: "\<not> (length (syslog_line pri vals msg) < 32 \<or> hd (syslog_line pri vals msg) \<noteq> CHR ''<'')"
    using assms(8) hd by simp
  have nf0: "\<not> (int fac < 0 \<or> int (length FacilityNames) \<le> int fac)" using assms(3) by simp
  show ?thesis
    unfolding parse_header_def if_not_P[OF nlen] nf option.case prod.case tl go_bind_Inr pr assms(2)
      Let_def fa if_not_P[OF nf0] idx ls rest
    by simp
qed

lemma line_not_bare: "\<not> bare_bracket (syslog_line pri vals msg)" if "CHR '' '' \<notin> set pri"
proof
  assume "bare_bracket (syslog_line pri vals msg)"
  then have "take 2 (syslog_line pri vals msg) = ''< ''"
    by (simp add: bare_bracket_def has_prefix_def numeral_2_eq_2)
  then show False using that by (cases pri) (auto simp: syslog_line_def)
qed

text \<open>A complete line through the parser of the RFC 5424 schema: every field is where its name says.\<close>

lemma rfc5424_parser:
  assumes "new_syslog_parser \<lparr>fieldNames = rfc5424_names, maxFields = n\<rparr> mapping c = Inr (p, c')"
  shows "fieldFacility p = 0" "fieldLevel p = 1" "restFields p = [2, 3, 4, 5, 6, 7]" "fieldLog p = 8"
    "levelMapping p = (if mapping = [] then SeverityNames else mapping)"
  using assms
  by (auto simp: new_syslog_parser_def rfc5424_names_def rest_names_def create_field_locator_def
      split: if_splits)

lemma rfc5424_fields:
  assumes "length vals = 6" and "9 \<le> n"
  shows "(set_all [2, 3, 4, 5, 6, 7] vals (((replicate n [])[0 := a])[1 := b]))[8 := msg] =
     [a, b] @ vals @ [msg] @ replicate (n - 9) []"
proof -
  obtain v1 v2 v3 v4 v5 v6 where v: "vals = [v1, v2, v3, v4, v5, v6]"
    using assms(1) by (auto simp: length_Suc_conv numeral_eq_Suc)
  obtain k where k: "n = 9 + k" using assms(2) le_Suc_ex by blast
  have "replicate n ([] :: bytes) = [[], [], [], [], [], [], [], [], []] @ replicate (n - 9) []"
    unfolding k replicate_add by (simp add: numeral_eq_Suc)
  then show ?thesis unfolding v by (simp add: list_update_append)
qed

lemma parse_syslog_line:
  assumes p: "new_syslog_parser \<lparr>fieldNames = rfc5424_names, maxFields = n\<rparr> mapping c0 = Inr (p, c0')"
    and alloc: "allocator_ok alloc" "allocFields alloc = n" "9 \<le> n"
    and pri: "strconv_atoi pri = Some (8 * int fac + int sev)" "fac < 24" "sev < 8" "CHR '' '' \<notin> set pri"
    and vals: "length vals = 6" "list_all (\<lambda>v. CHR '' '' \<notin> set v) vals"
    and len: "32 \<le> length (syslog_line pri vals msg)" "length (syslog_line pri vals msg) < InputLogMaxRecordBytes"
      "length msg \<le> InputLogMaxMessageBytes"
  shows "\<exists>r alloc' c'. parse_syslog c1 c2 p alloc c (syslog_line pri vals msg) ts = Inr (Some r, alloc', c') \<and>
     Fields r = [FacilityNames ! fac, (if mapping = [] then SeverityNames else mapping) ! sev] @ vals @ [msg] @
       replicate (n - 9) [] \<and>
     RawLength r = length (syslog_line pri vals msg) \<and> Timestamp r = ts \<and>
     Unescaped r = (CHR 0x0A \<in> set msg) \<and> refCount r = initialRefCount alloc"
proof -
  let ?line = "syslog_line pri vals msg"
  have locs: "fieldFacility p = 0" "fieldLevel p = 1" "restFields p = [2, 3, 4, 5, 6, 7]" "fieldLog p = 8"
    "levelMapping p = (if mapping = [] then SeverityNames else mapping)"
    using rfc5424_parser[OF p] by auto
  have "length ?line < 2 ^ 31"
    using len(2) by (simp add: InputLogMaxRecordBytes_def InputLogMaxMessageBytes_def)
  then obtain r0 alloc1 where new: "new_record c1 c2 alloc ?line = Inr (r0, ?line, alloc1)"
    "Fields r0 = replicate n []" "refCount r0 = initialRefCount alloc"
    using new_record_correct[OF alloc(1), of ?line c1 c2] alloc(2) by blast
  have pok: "parser_ok (length (Fields r0)) p"
    using new_syslog_parser_ok[OF p] alloc(3) new(2) locs
    by (auto simp: parser_ok_def loc_ok_def)
  let ?fs = "set_all (restFields p) vals
     (((Fields r0)[nat (fieldFacility p) := FacilityNames ! fac])[nat (fieldLevel p) := levelMapping p ! sev])"
  have hdr: "parse_header p (Fields r0) ?line = Inr (Some (?fs, msg))"
    using vals locs(3) len(1) by (intro parse_header_line[OF pok pri]) auto
  have lenfs: "length (set_all ls vs fs) = length fs" for ls vs fs
    by (induction ls vs fs rule: set_all.induct) auto
  have msg: "limit_message (length ?line) msg = Inr msg"
    using len(2,3) by (simp add: limit_message_def)
  have set: "loc_set 8 ?fs msg = Inr (?fs[8 := msg])"
    using alloc(3) new(2) lenfs by (simp add: loc_set_def)
  have fin: "?fs[8 := msg] = [FacilityNames ! fac, levelMapping p ! sev] @ vals @ [msg] @ replicate (n - 9) []"
    unfolding new(2) locs(1-3) using rfc5424_fields[OF vals(1) alloc(3)] by simp
  have no: "\<not> InputLogMaxMessageBytes < length msg" using len(3) by simp
  show ?thesis
    unfolding parse_syslog_def new(1) go_bind_Inr prod.case Let_def
    using hdr msg set fin no locs(4,5) new(3) by simp
qed

section \<open>Properties\<close>

text \<open>
  C10: a well-formed line is parsed into the record it was written from: facility and severity
  by name, the six header values and the message each in its field, the other fields blank.
\<close>

theorem syslog_line_parsed:
  assumes "new_syslog_parser \<lparr>fieldNames = rfc5424_names, maxFields = n\<rparr> mapping c0 = Inr (p, c0')"
    and "allocator_ok alloc" "allocFields alloc = n" "9 \<le> n"
    and "strconv_atoi pri = Some (8 * int fac + int sev)" "fac < 24" "sev < 8" "CHR '' '' \<notin> set pri"
    and "length vals = 6" "list_all (\<lambda>v. CHR '' '' \<notin> set v) vals"
    and "32 \<le> length (syslog_line pri vals msg)" "length (syslog_line pri vals msg) < InputLogMaxRecordBytes"
      "length msg \<le> InputLogMaxMessageBytes"
  shows "\<exists>r alloc' c'. parse_syslog c1 c2 p alloc c (syslog_line pri vals msg) ts = Inr (Some r, alloc', c') \<and>
     Fields r = [FacilityNames ! fac, (if mapping = [] then SeverityNames else mapping) ! sev] @ vals @ [msg] @
       replicate (n - 9) [] \<and>
     RawLength r = length (syslog_line pri vals msg) \<and> Timestamp r = ts \<and>
     Unescaped r = (CHR 0x0A \<in> set msg) \<and> refCount r = initialRefCount alloc"
  by (rule parse_syslog_line[OF assms])

theorem syslog_line_parsed_witness:
  "\<exists>p c r alloc' c'. new_syslog_parser \<lparr>fieldNames = rfc5424_names, maxFields = 10\<rparr> [] new_input_counters = Inr (p, c) \<and>
     parse_syslog None None p (new_log_allocator \<lparr>fieldNames = rfc5424_names, maxFields = 10\<rparr> 1) c
       ''<163>1 2019-08-15T15:50:46Z web7 nginx 12 access - hi there'' 5 = Inr (Some r, alloc', c') \<and>
     Fields r = [''local4'', ''err'', ''2019-08-15T15:50:46Z'', ''web7'', ''nginx'', ''12'', ''access'', ''-'', ''hi there'', []]"
proof -
  let ?s = "\<lparr>fieldNames = rfc5424_names, maxFields = 10\<rparr>"
  let ?vals = "[''2019-08-15T15:50:46Z'', ''web7'', ''nginx'', ''12'', ''access'', ''-'']"
  obtain p c where p: "new_syslog_parser ?s [] new_input_counters = Inr (p, c)"
    by (auto simp: new_syslog_parser_def rfc5424_names_def rest_names_def create_field_locator_def)
  have l: "syslog_line ''163'' ?vals ''hi there'' = ''<163>1 2019-08-15T15:50:46Z web7 nginx 12 access - hi there''"
    by (simp add: syslog_line_def)
  have a: "allocFields (new_log_allocator ?s 1) = 10" "(9 :: nat) \<le> 10"
    by (simp_all add: new_log_allocator_def)
  have pri: "strconv_atoi ''163'' = Some (8 * int 20 + int 3)" "(20 :: nat) < 24" "(3 :: nat) < 8" "CHR '' '' \<notin> set ''163''"
    by (code_simp, simp_all)
  have v: "length ?vals = 6" "list_all (\<lambda>v. CHR '' '' \<notin> set v) ?vals" by simp_all
  have len: "32 \<le> length (syslog_line ''163'' ?vals ''hi there'')"
    "length (syslog_line ''163'' ?vals ''hi there'') < InputLogMaxRecordBytes"
    "length ''hi there'' \<le> InputLogMaxMessageBytes"
    unfolding l by (simp_all add: InputLogMaxRecordBytes_def InputLogMaxMessageBytes_def)
  have n: "FacilityNames ! 20 = ''local4''" "SeverityNames ! 3 = ''err''"
    by (simp_all add: FacilityNames_def SeverityNames_def)
  obtain r alloc' c' where "parse_syslog None None p (new_log_allocator ?s 1) c
      (syslog_line ''163'' ?vals ''hi there'') 5 = Inr (Some r, alloc', c')"
    "Fields r = [FacilityNames ! 20, SeverityNames ! 3] @ ?vals @ [''hi there''] @ replicate (10 - 9) []"
    using syslog_line_parsed[OF p allocator_ok_new a pri v len, of None None c 5] by auto
  then show ?thesis using p unfolding l n by auto
qed



end
