(* ===== verification/Multiline.thy ===== *)
theory Multiline
  imports Syslog
begin

text \<open>
  The multi-line reader of \<open>input/tcplistener/multilinereader.go\<close>. A call to the input reader is
  the block of bytes it returns; consumed records are returned in order. The test of a record's
  first line is a parameter (\<open>TestRecordStart\<close> in the program). The reader is refined to an
  abstract one over lines, which shows that records do not depend on how the stream is cut into
  blocks.
\<close>

section \<open>The reader\<close>

record mlr =
  buffer :: bytes
  offsetSearch :: nat
  offsetAppend :: nat
  softRecordLimit :: nat

abbreviation newline :: char where
  "newline \<equiv> CHR 0x0A"

definition new_mlr :: "nat \<Rightarrow> nat \<Rightarrow> mlr" where
  "new_mlr minBufferSize softLimit =
     \<lparr>buffer = replicate (max minBufferSize (softLimit * 3)) (CHR 0x00), offsetSearch = 0,
      offsetAppend = 0, softRecordLimit = softLimit\<rparr>"

text \<open>The loop of \<open>processBuffer\<close> over \<open>buffer[:bufferEnd]\<close>: the records consumed, and the
  final \<open>recordStart\<close> and \<open>searchStart\<close>.\<close>

function process_loop ::
  "(bytes \<Rightarrow> bool) \<Rightarrow> bytes \<Rightarrow> nat \<Rightarrow> nat \<Rightarrow> bytes list \<times> nat \<times> nat" where
  "process_loop test buf recordStart searchStart =
     (case index_byte newline (drop searchStart buf) of
        None \<Rightarrow> ([], recordStart, searchStart)
      | Some nextEndRel \<Rightarrow>
          let nextEnd = nextEndRel + searchStart;
              nextLine = take (nextEnd - searchStart) (drop searchStart buf) in
          if searchStart > 0 \<and> searchStart < nextEnd \<and> test nextLine
          then let prevRecord = take (searchStart - 1 - recordStart) (drop recordStart buf);
                   (recs, rs, ss) = process_loop test buf searchStart (nextEnd + 1) in
               (prevRecord # recs, rs, ss)
          else process_loop test buf recordStart (nextEnd + 1))"
  by auto
termination
  by (relation "measure (\<lambda>(test, buf, r, s). length buf - s)")
    (auto dest: index_byte_SomeD)

declare process_loop.simps [simp del]

text \<open>\<open>copy(mlr.buffer, tail)\<close>: the buffer keeps its length.\<close>

definition relocate :: "bytes \<Rightarrow> bytes \<Rightarrow> bytes" where
  "relocate buf tail = patch buf 0 tail"

definition check_overflow :: "(bytes \<Rightarrow> bool) \<Rightarrow> mlr \<Rightarrow> bytes list \<times> mlr" where
  "check_overflow test m =
     (if length (buffer m) - offsetAppend m \<ge> softRecordLimit m then ([], m)
      else
        let buf = take (offsetAppend m) (buffer m);
            searchStart = offsetSearch m;
            nextRecord = drop searchStart buf;
            prevRecord = take (searchStart - 1) buf;
            recs = (if searchStart > 0 \<and> test nextRecord
                    then (if test prevRecord then [prevRecord, nextRecord] else [nextRecord])
                    else if test buf then [buf] else []) in
        (recs, m\<lparr>offsetAppend := 0, offsetSearch := 0\<rparr>))"

definition process_buffer :: "(bytes \<Rightarrow> bool) \<Rightarrow> mlr \<Rightarrow> nat \<Rightarrow> bytes list \<times> mlr" where
  "process_buffer test m bufferEnd =
     (let buf = take bufferEnd (buffer m);
          (recs, recordStart, searchStart) = process_loop test buf 0 (offsetSearch m);
          m1 = (if recordStart > 0
                then m\<lparr>buffer := relocate (buffer m) (drop recordStart buf),
                       offsetAppend := length (drop recordStart buf),
                       offsetSearch := searchStart - recordStart\<rparr>
                else m\<lparr>offsetAppend := bufferEnd, offsetSearch := searchStart\<rparr>);
          (recs', m2) = check_overflow test m1 in
      (recs @ recs', m2))"

text \<open>\<open>Read\<close>, when the input delivers the bytes of \<open>block\<close> (no more than there is room for).\<close>

definition mlr_read :: "(bytes \<Rightarrow> bool) \<Rightarrow> mlr \<Rightarrow> bytes \<Rightarrow> bytes list \<times> mlr" where
  "mlr_read test m block =
     (let n = min (length block) (length (buffer m) - offsetAppend m);
          m1 = m\<lparr>buffer := patch (buffer m) (offsetAppend m) (take n block)\<rparr> in
      if n > 0 then process_buffer test m1 (n + offsetAppend m1) else ([], m1))"

definition mlr_flush :: "(bytes \<Rightarrow> bool) \<Rightarrow> mlr \<Rightarrow> bytes list \<times> mlr" where
  "mlr_flush test m =
     (let buf = take (offsetAppend m) (buffer m) in
      case last_index_byte newline buf of
        None \<Rightarrow> ([], m)
      | Some n \<Rightarrow>
          let r = take n buf; rest = drop (n + 1) buf in
          (if r \<noteq> [] \<and> test r then [r] else [],
           m\<lparr>buffer := relocate (buffer m) rest, offsetAppend := length rest, offsetSearch := 0\<rparr>))"

definition mlr_flush_all :: "(bytes \<Rightarrow> bool) \<Rightarrow> mlr \<Rightarrow> bytes list \<times> mlr" where
  "mlr_flush_all test m =
     (let buf = take (offsetAppend m) (buffer m);
          r = (if buf \<noteq> [] \<and> last buf = newline then butlast buf else buf) in
      (if buf \<noteq> [] \<and> test r then [r] else [], m\<lparr>offsetAppend := 0, offsetSearch := 0\<rparr>))"

declare index_byte_None [simp del] last_index_byte_None [simp del]

section \<open>Bounds\<close>

definition mlr_ok :: "mlr \<Rightarrow> bool" where
  "mlr_ok m \<longleftrightarrow>
     offsetSearch m \<le> offsetAppend m \<and>
     offsetAppend m + softRecordLimit m \<le> length (buffer m)"

definition pending :: "mlr \<Rightarrow> bytes" where
  "pending m = take (offsetAppend m) (buffer m)"

lemma mlr_ok_new: "mlr_ok (new_mlr n k)"
  by (simp add: mlr_ok_def new_mlr_def)

lemma process_loop_bounds:
  assumes "process_loop test buf r s = (recs, r', s')" and "r \<le> s" and "s \<le> length buf"
  shows "r \<le> r' \<and> r' \<le> s' \<and> s \<le> s' \<and> s' \<le> length buf \<and> newline \<notin> set (drop s' buf)"
  using assms
proof (induction test buf r s arbitrary: recs rule: process_loop.induct)
  case (1 test buf r s)
  show ?case
  proof (cases "index_byte newline (drop s buf)")
    case None
    then have "recs = []" "r' = r" "s' = s" using 1(3) by (subst (asm) process_loop.simps, simp)+
    moreover have "newline \<notin> set (drop s buf)" using None by (simp add: index_byte_None)
    ultimately show ?thesis using 1(4,5) by simp
  next
    case (Some n)
    then have n: "n + s < length buf" using index_byte_SomeD[OF Some] by (simp add: less_diff_conv)
    let ?line = "take (n + s - s) (drop s buf)"
    show ?thesis
    proof (cases "s > 0 \<and> s < n + s \<and> test ?line")
      case True
      obtain recs1 where "process_loop test buf s (n + s + 1) = (recs1, r', s')"
        using 1(3) Some True by (subst (asm) process_loop.simps) (auto simp: Let_def split: prod.splits)
      from 1(1)[OF Some refl refl True refl this] show ?thesis using n 1(4) by simp
    next
      case False
      have "process_loop test buf r (n + s + 1) = (recs, r', s')"
        using 1(3) Some False by (subst (asm) process_loop.simps) (auto simp: Let_def)
      from 1(2)[OF Some refl refl False this] show ?thesis using n 1(4) by simp
    qed
  qed
qed

lemma check_overflow_ok:
  assumes "check_overflow test m = (recs, m')" and "offsetSearch m \<le> offsetAppend m"
    and "softRecordLimit m \<le> length (buffer m)" and "offsetAppend m \<le> length (buffer m)"
  shows "mlr_ok m' \<and> length (buffer m') = length (buffer m) \<and> softRecordLimit m' = softRecordLimit m"
  using assms by (auto simp: check_overflow_def mlr_ok_def Let_def split: if_splits)

lemma process_buffer_ok:
  assumes "process_buffer test m e = (recs, m')" and "offsetSearch m \<le> e" and "e \<le> length (buffer m)"
    and "softRecordLimit m \<le> length (buffer m)"
  shows "mlr_ok m' \<and> length (buffer m') = length (buffer m) \<and> softRecordLimit m' = softRecordLimit m"
proof -
  let ?buf = "take e (buffer m)"
  obtain rs r s where loop: "process_loop test ?buf 0 (offsetSearch m) = (rs, r, s)"
    by (cases "process_loop test ?buf 0 (offsetSearch m)") auto
  have b: "r \<le> s" "s \<le> e" using process_loop_bounds[OF loop] assms(2,3) by auto
  define m1 where "m1 = (if r > 0
                then m\<lparr>buffer := relocate (buffer m) (drop r ?buf), offsetAppend := length (drop r ?buf),
                       offsetSearch := s - r\<rparr>
                else m\<lparr>offsetAppend := e, offsetSearch := s\<rparr>)"
  obtain recs2 where co: "check_overflow test m1 = (recs2, m')"
    using assms(1) loop by (auto simp: process_buffer_def m1_def Let_def split: prod.splits)
  have "length (buffer m1) = length (buffer m)" "softRecordLimit m1 = softRecordLimit m"
    using b assms(3) by (auto simp: m1_def relocate_def)
  moreover have "offsetSearch m1 \<le> offsetAppend m1" "offsetAppend m1 \<le> length (buffer m)"
    using b assms(3) by (auto simp: m1_def)
  ultimately show ?thesis using check_overflow_ok[OF co] assms(4) by simp
qed

text \<open>After every operation there is room for another record of the soft limit.\<close>

lemma mlr_read_ok:
  assumes "mlr_ok m" and "mlr_read test m block = (recs, m')"
  shows "mlr_ok m' \<and> length (buffer m') = length (buffer m) \<and> softRecordLimit m' = softRecordLimit m"
proof -
  let ?n = "min (length block) (length (buffer m) - offsetAppend m)"
  let ?m = "m\<lparr>buffer := patch (buffer m) (offsetAppend m) (take ?n block)\<rparr>"
  have len: "length (buffer ?m) = length (buffer m)"
    using assms(1) by (auto simp: mlr_ok_def intro!: length_patch)
  show ?thesis
  proof (cases "?n > 0")
    case True
    then have "process_buffer test ?m (?n + offsetAppend m) = (recs, m')"
      using assms(2) by (simp add: mlr_read_def Let_def)
    then have "mlr_ok m' \<and> length (buffer m') = length (buffer ?m) \<and> softRecordLimit m' = softRecordLimit ?m"
      using assms(1) len by (intro process_buffer_ok) (auto simp: mlr_ok_def)
    then show ?thesis unfolding len by simp
  next
    case False
    then have "m' = ?m" using assms(2) unfolding mlr_read_def Let_def if_not_P[OF False] by simp
    then show ?thesis using assms(1) len by (simp add: mlr_ok_def)
  qed
qed

lemma mlr_flush_ok:
  assumes "mlr_ok m" and "mlr_flush test m = (recs, m')"
  shows "mlr_ok m' \<and> length (buffer m') = length (buffer m) \<and> softRecordLimit m' = softRecordLimit m"
proof (cases "last_index_byte newline (take (offsetAppend m) (buffer m))")
  case None
  then show ?thesis using assms by (simp add: mlr_flush_def Let_def)
next
  case (Some n)
  then have m': "m' = m\<lparr>buffer := relocate (buffer m) (drop (n + 1) (take (offsetAppend m) (buffer m))),
      offsetAppend := length (drop (n + 1) (take (offsetAppend m) (buffer m))), offsetSearch := 0\<rparr>"
    using assms(2) by (auto simp: mlr_flush_def Let_def)
  show ?thesis using assms(1) by (auto simp: m' mlr_ok_def relocate_def)
qed

lemma mlr_flush_all_ok:
  "mlr_ok m \<Longrightarrow> mlr_flush_all test m = (recs, m') \<Longrightarrow>
     mlr_ok m' \<and> pending m' = [] \<and> length (buffer m') = length (buffer m) \<and>
     softRecordLimit m' = softRecordLimit m"
  by (auto simp: mlr_flush_all_def Let_def mlr_ok_def pending_def)


section \<open>The abstract reader\<close>

text \<open>The lines of the record being collected, and an unfinished line.\<close>

definition join_lines :: "bytes list \<Rightarrow> bytes" where
  "join_lines ls = concat (map (\<lambda>l. l @ [newline]) ls)"

fun split_lines :: "bytes \<Rightarrow> bytes list \<times> bytes" where
  "split_lines [] = ([], [])"
| "split_lines (c # cs) =
     (let (ls, t) = split_lines cs in
      if c = newline then ([] # ls, t)
      else case ls of [] \<Rightarrow> ([], c # t) | l # ls' \<Rightarrow> ((c # l) # ls', t))"

text \<open>A new record starts at a line that passes the test, when there are lines before it.\<close>

fun feed :: "(bytes \<Rightarrow> bool) \<Rightarrow> bytes list \<Rightarrow> bytes list \<Rightarrow> bytes list \<times> bytes list" where
  "feed test cur [] = ([], cur)"
| "feed test cur (l # ls) =
     (if cur \<noteq> [] \<and> l \<noteq> [] \<and> test l
      then let (rs, c) = feed test [l] ls in (butlast (join_lines cur) # rs, c)
      else feed test (cur @ [l]) ls)"

lemma join_lines_simps [simp]:
  "join_lines [] = []"
  "join_lines (l # ls) = l @ newline # join_lines ls"
  "join_lines (as @ bs) = join_lines as @ join_lines bs"
  by (simp_all add: join_lines_def)

lemma join_lines_eq_Nil [simp]: "join_lines ls = [] \<longleftrightarrow> ls = []"
  by (cases ls) auto

lemma split_lines_join:
  "list_all (\<lambda>l. newline \<notin> set l) ls \<Longrightarrow> newline \<notin> set t \<Longrightarrow> split_lines (join_lines ls @ t) = (ls, t)"
proof (induction ls)
  case Nil
  then show ?case by (induction t) auto
next
  case (Cons l ls)
  have "newline \<notin> set x \<Longrightarrow> split_lines (x @ newline # join_lines ls @ t) = (x # ls, t)" for x
    using Cons by (induction x) auto
  then show ?case using Cons.prems by simp
qed

lemma split_lines_spec:
  "split_lines s = (ls, t) \<Longrightarrow>
     s = join_lines ls @ t \<and> newline \<notin> set t \<and> list_all (\<lambda>l. newline \<notin> set l) ls"
proof (induction s arbitrary: ls t)
  case Nil
  then show ?case by simp
next
  case (Cons c s)
  obtain ls1 t1 where 1: "split_lines s = (ls1, t1)" by (cases "split_lines s")
  then show ?case using Cons.IH[OF 1] Cons.prems
    by (auto simp: Let_def split: if_splits list.splits)
qed

lemma split_lines_append:
  assumes "split_lines a = (l1, t1)" and "split_lines (t1 @ b) = (l2, t2)"
  shows "split_lines (a @ b) = (l1 @ l2, t2)"
proof -
  have 1: "a = join_lines l1 @ t1" "list_all (\<lambda>l. newline \<notin> set l) l1"
    using split_lines_spec[OF assms(1)] by auto
  have 2: "t1 @ b = join_lines l2 @ t2" "newline \<notin> set t2" "list_all (\<lambda>l. newline \<notin> set l) l2"
    using split_lines_spec[OF assms(2)] by auto
  have "a @ b = join_lines (l1 @ l2) @ t2" using 1(1) 2(1) by (metis append_assoc join_lines_simps(3))
  then show ?thesis using split_lines_join[of "l1 @ l2" t2] 1(2) 2(2,3) by simp
qed

lemma feed_append:
  "feed test cur (as @ bs) =
     (let (r1, c1) = feed test cur as; (r2, c2) = feed test c1 bs in (r1 @ r2, c2))"
  by (induction test cur as rule: feed.induct) (auto simp: Let_def split: prod.splits)

text \<open>Nothing is lost: records and what is left, each record with the newline after it, are
  the lines.\<close>

lemma butlast_join: "ls \<noteq> [] \<Longrightarrow> butlast (join_lines ls) @ [newline] = join_lines ls"
proof (induction ls rule: rev_induct)
  case (snoc x xs)
  have "join_lines (xs @ [x]) = (join_lines xs @ x) @ [newline]" by simp
  then show ?case by (simp only: butlast_snoc)
qed simp

lemma feed_bytes:
  "feed test cur ls = (rs, c) \<Longrightarrow> join_lines rs @ join_lines c = join_lines cur @ join_lines ls"
proof (induction test cur ls arbitrary: rs rule: feed.induct)
  case (1 test cur)
  then show ?case by simp
next
  case (2 test cur l ls)
  show ?case
  proof (cases "cur \<noteq> [] \<and> l \<noteq> [] \<and> test l")
    case True
    then obtain rs1 where 1: "feed test [l] ls = (rs1, c)" "rs = butlast (join_lines cur) # rs1"
      using "2.prems" by (auto simp: Let_def split: prod.splits)
    have "join_lines rs1 @ join_lines c = join_lines [l] @ join_lines ls" using "2.IH"(1)[OF True 1(1)] .
    then show ?thesis using 1(2) butlast_join[of cur] True by simp
  next
    case False
    then have "feed test (cur @ [l]) ls = (rs, c)" using "2.prems" by auto
    then show ?thesis using "2.IH"(2)[OF False] by simp
  qed
qed

lemma feed_cur_nonempty: "feed test cur ls = (rs, c) \<Longrightarrow> c = [] \<longleftrightarrow> cur = [] \<and> ls = []"
proof (induction test cur ls arbitrary: rs rule: feed.induct)
  case (1 test cur)
  then show ?case by simp
next
  case (2 test cur l ls)
  show ?case
  proof (cases "cur \<noteq> [] \<and> l \<noteq> [] \<and> test l")
    case True
    then obtain rs1 where "feed test [l] ls = (rs1, c)"
      using "2.prems" by (auto simp: Let_def split: prod.splits)
    then show ?thesis using "2.IH"(1)[OF True] by simp
  next
    case False
    then have "feed test (cur @ [l]) ls = (rs, c)" using "2.prems" by auto
    then show ?thesis using "2.IH"(2)[OF False] by simp
  qed
qed

section \<open>Refinement\<close>

lemma process_loop_feed:
  assumes "buf = pre @ join_lines cur @ join_lines ls @ t" and "newline \<notin> set t"
    and "list_all (\<lambda>l. newline \<notin> set l) ls" and "cur = [] \<Longrightarrow> pre = []"
    and "feed test cur ls = (rs, c)"
  shows "\<exists>pre'. buf = pre' @ join_lines c @ t \<and> (c = [] \<longrightarrow> pre' = []) \<and> (rs = [] \<longrightarrow> pre' = pre) \<and>
     (rs \<noteq> [] \<longrightarrow> pre' \<noteq> []) \<and>
     process_loop test buf (length pre) (length (pre @ join_lines cur)) =
       (rs, length pre', length (pre' @ join_lines c))"
  using assms
proof (induction ls arbitrary: pre cur rs)
  case Nil
  then have "index_byte newline (drop (length (pre @ join_lines cur)) buf) = None" by (simp add: index_byte_None)
  then show ?case using Nil by (subst process_loop.simps) auto
next
  case (Cons l ls)
  let ?s = "length (pre @ join_lines cur)"
  have dr: "drop ?s buf = l @ newline # join_lines ls @ t" using Cons.prems(1) by simp
  have ib: "index_byte newline (drop ?s buf) = Some (length l)"
    unfolding dr using Cons.prems(3) by (intro index_byte_unique) simp
  have line: "take (length l + ?s - ?s) (drop ?s buf) = l" unfolding dr by simp
  have pos: "?s > 0 \<longleftrightarrow> cur \<noteq> []" using Cons.prems(4) by auto
  have pos2: "?s < length l + ?s \<longleftrightarrow> l \<noteq> []" by simp
  show ?case
  proof (cases "cur \<noteq> [] \<and> l \<noteq> [] \<and> test l")
    case True
    then obtain rs1 where f1: "feed test [l] ls = (rs1, c)" "rs = butlast (join_lines cur) # rs1"
      using Cons.prems(5) by (auto simp: Let_def split: prod.splits)
    have prev: "take (?s - 1 - length pre) (drop (length pre) buf) = butlast (join_lines cur)"
      using Cons.prems(1) True by (simp add: butlast_conv_take)
    have "buf = (pre @ join_lines cur) @ join_lines [l] @ join_lines ls @ t" using Cons.prems(1) by simp
    from Cons.IH[OF this Cons.prems(2) _ _ f1(1)] Cons.prems(3)
    obtain pre' where p: "buf = pre' @ join_lines c @ t" "c = [] \<longrightarrow> pre' = []"
      "rs1 = [] \<longrightarrow> pre' = pre @ join_lines cur" "rs1 \<noteq> [] \<longrightarrow> pre' \<noteq> []"
      "process_loop test buf ?s (length ((pre @ join_lines cur) @ join_lines [l])) =
        (rs1, length pre', length (pre' @ join_lines c))" by auto
    have ne: "pre' \<noteq> []" using p(3,4) True by (cases "rs1 = []") auto
    have next_s: "length l + ?s + 1 = length ((pre @ join_lines cur) @ join_lines [l])" by simp
    have cond: "?s > 0 \<and> ?s < length l + ?s \<and> test (take (length l + ?s - ?s) (drop ?s buf))"
      unfolding line using True pos pos2 by blast
    have "process_loop test buf (length pre) ?s = (rs, length pre', length (pre' @ join_lines c))"
      apply (subst process_loop.simps)
      unfolding ib option.case Let_def if_P[OF cond] next_s p(5) prod.case prev f1(2)
      by (rule refl)
    then show ?thesis using p(1,2) ne f1(2) by blast
  next
    case False
    then have f1: "feed test (cur @ [l]) ls = (rs, c)" using Cons.prems(5) by auto
    have "buf = pre @ join_lines (cur @ [l]) @ join_lines ls @ t" using Cons.prems(1) by simp
    from Cons.IH[OF this Cons.prems(2) _ _ f1] Cons.prems(3)
    obtain pre' where p: "buf = pre' @ join_lines c @ t" "c = [] \<longrightarrow> pre' = []"
      "rs = [] \<longrightarrow> pre' = pre" "rs \<noteq> [] \<longrightarrow> pre' \<noteq> []"
      "process_loop test buf (length pre) (length (pre @ join_lines (cur @ [l]))) =
        (rs, length pre', length (pre' @ join_lines c))" by auto
    have next_s: "length l + ?s + 1 = length (pre @ join_lines (cur @ [l]))" by simp
    have cond: "\<not> (?s > 0 \<and> ?s < length l + ?s \<and> test (take (length l + ?s - ?s) (drop ?s buf)))"
      unfolding line using False pos pos2 by blast
    have "process_loop test buf (length pre) ?s = (rs, length pre', length (pre' @ join_lines c))"
      apply (subst process_loop.simps)
      unfolding ib option.case Let_def if_not_P[OF cond] next_s p(5)
      by (rule refl)
    then show ?thesis using p(1-4) by blast
  qed
qed

definition represents :: "mlr \<Rightarrow> bytes list \<Rightarrow> bytes \<Rightarrow> bool" where
  "represents m cur t \<longleftrightarrow>
     mlr_ok m \<and> pending m = join_lines cur @ t \<and> offsetSearch m = length (join_lines cur) \<and>
     newline \<notin> set t"

lemma represents_new: "represents (new_mlr n k) [] []"
  by (simp add: represents_def mlr_ok_new pending_def) (simp add: new_mlr_def)

lemma patch_take: "n \<le> length b \<Longrightarrow> take (n + length x) (patch b n x) = take n b @ x"
  by (simp add: patch_def)

lemma mlr_read_refines:
  assumes rep: "represents m cur t" and room: "length (pending m) + length block \<le> length (buffer m)"
    and split: "split_lines (t @ block) = (ls, t')" and feed: "feed test cur ls = (rs, c)"
    and fits: "length (join_lines c @ t') + softRecordLimit m \<le> length (buffer m)"
  shows "\<exists>m'. mlr_read test m block = (rs, m') \<and> represents m' c t' \<and>
     length (buffer m') = length (buffer m) \<and> softRecordLimit m' = softRecordLimit m"
proof -
  have ok: "mlr_ok m" and off: "offsetSearch m = length (join_lines cur)" and nt: "newline \<notin> set t"
    and pend: "pending m = join_lines cur @ t"
    using rep by (auto simp: represents_def)
  have oa: "offsetAppend m \<le> length (buffer m)" using ok by (simp add: mlr_ok_def)
  then have lp: "length (pending m) = offsetAppend m" by (simp add: pending_def)
  have n: "min (length block) (length (buffer m) - offsetAppend m) = length block"
    using room lp by linarith
  define m1 where "m1 = m\<lparr>buffer := patch (buffer m) (offsetAppend m) block\<rparr>"
  have len1: "length (buffer m1) = length (buffer m)" using room lp by (simp add: m1_def)
  have sp: "t @ block = join_lines ls @ t'" "newline \<notin> set t'" "list_all (\<lambda>l. newline \<notin> set l) ls"
    using split_lines_spec[OF split] by auto
  show ?thesis
  proof (cases "block = []")
    case True
    then have "split_lines (t @ block) = ([], t)" using split_lines_join[of "[]" t] nt by simp
    then have "ls = []" "t' = t" "rs = []" "c = cur" using split feed by auto
    moreover have "mlr_read test m block = ([], m)" using True by (simp add: mlr_read_def)
    ultimately show ?thesis using rep by simp
  next
    case False
    let ?e = "length block + offsetAppend m1"
    have e: "take ?e (buffer m1) = pending m @ block"
      using patch_take[OF oa, of block] by (simp add: m1_def pending_def add.commute)
    then have buf: "take ?e (buffer m1) = [] @ join_lines cur @ join_lines ls @ t'"
      using pend sp(1) by simp
    from process_loop_feed[OF buf sp(2,3) _ feed]
    obtain pre' where p: "take ?e (buffer m1) = pre' @ join_lines c @ t'" "c = [] \<longrightarrow> pre' = []"
      "rs = [] \<longrightarrow> pre' = []" "rs \<noteq> [] \<longrightarrow> pre' \<noteq> []"
      "process_loop test (take ?e (buffer m1)) 0 (length (join_lines cur)) =
        (rs, length pre', length (pre' @ join_lines c))" by auto
    define m2 where "m2 = (if length pre' > 0
                then m1\<lparr>buffer := relocate (buffer m1) (join_lines c @ t'),
                       offsetAppend := length (join_lines c @ t'),
                       offsetSearch := length (join_lines c)\<rparr>
                else m1\<lparr>offsetAppend := ?e, offsetSearch := length (join_lines c)\<rparr>)"
    have le: "?e \<le> length (buffer m1)" using room lp len1 by (simp add: m1_def)
    have elen: "?e = length pre' + length (join_lines c @ t')"
      using arg_cong[OF p(1), of length] le by simp
    have m2: "length (buffer m2) = length (buffer m)" "softRecordLimit m2 = softRecordLimit m"
      "offsetAppend m2 = length (join_lines c @ t')" "offsetSearch m2 = length (join_lines c)"
      "pending m2 = join_lines c @ t'"
      using len1 le elen p(1) by (auto simp: m2_def m1_def relocate_def pending_def patch_def)
    have co: "check_overflow test m2 = ([], m2)"
    proof -
      have "softRecordLimit m2 \<le> length (buffer m2) - offsetAppend m2" using fits m2(1-3) by linarith
      then show ?thesis by (simp add: check_overflow_def)
    qed
    have m2_eq: "(if length pre' > 0
        then m1\<lparr>buffer := relocate (buffer m1) (drop (length pre') (take ?e (buffer m1))),
                offsetAppend := length (drop (length pre') (take ?e (buffer m1))),
                offsetSearch := length (pre' @ join_lines c) - length pre'\<rparr>
        else m1\<lparr>offsetAppend := ?e, offsetSearch := length (pre' @ join_lines c)\<rparr>) = m2"
      unfolding p(1) m2_def by simp
    have off1: "offsetSearch m1 = length (join_lines cur)" using off by (simp add: m1_def)
    have pb: "process_buffer test m1 ?e = (rs, m2)"
      unfolding process_buffer_def Let_def off1 p(5) prod.case m2_eq co by simp
    have "mlr_read test m block = (rs, m2)"
      using False n pb by (simp add: mlr_read_def Let_def m1_def)
    moreover have "represents m2 c t'"
      using m2 fits sp(2) by (simp add: represents_def mlr_ok_def)
    ultimately show ?thesis using m2(1,2) by blast
  qed
qed


section \<open>Streams\<close>

fun mlr_reads :: "(bytes \<Rightarrow> bool) \<Rightarrow> mlr \<Rightarrow> bytes list \<Rightarrow> bytes list \<times> mlr" where
  "mlr_reads test m [] = ([], m)"
| "mlr_reads test m (b # bs) =
     (let (r1, m1) = mlr_read test m b; (r2, m2) = mlr_reads test m1 bs in (r1 @ r2, m2))"

text \<open>No block is larger than the room, and no record outgrows the buffer: \<open>cap\<close> bytes of which
  \<open>soft\<close> stay free.\<close>

fun fits :: "(bytes \<Rightarrow> bool) \<Rightarrow> nat \<Rightarrow> nat \<Rightarrow> bytes list \<Rightarrow> bytes \<Rightarrow> bytes list \<Rightarrow> bool" where
  "fits test cap soft cur t [] = True"
| "fits test cap soft cur t (b # bs) =
     (let (ls, t') = split_lines (t @ b); (rs, c) = feed test cur ls in
      length (join_lines cur @ t @ b) \<le> cap \<and> length (join_lines c @ t') + soft \<le> cap \<and>
      fits test cap soft c t' bs)"

definition read_spec :: "(bytes \<Rightarrow> bool) \<Rightarrow> bytes list \<Rightarrow> bytes \<Rightarrow> bytes list \<times> bytes list \<times> bytes" where
  "read_spec test cur s =
     (let (ls, t) = split_lines s; (rs, c) = feed test cur ls in (rs, c, t))"

lemma read_spec_append:
  assumes "read_spec test cur a = (r1, c1, t1)" and "read_spec test c1 (t1 @ b) = (r2, c2, t2)"
  shows "read_spec test cur (a @ b) = (r1 @ r2, c2, t2)"
proof -
  obtain l1 where 1: "split_lines a = (l1, t1)" "feed test cur l1 = (r1, c1)"
    using assms(1) by (auto simp: read_spec_def Let_def split: prod.splits)
  obtain l2 where 2: "split_lines (t1 @ b) = (l2, t2)" "feed test c1 l2 = (r2, c2)"
    using assms(2) by (auto simp: read_spec_def Let_def split: prod.splits)
  show ?thesis using split_lines_append[OF 1(1) 2(1)] feed_append[of test cur l1 l2] 1(2) 2(2)
    by (simp add: read_spec_def)
qed

lemma mlr_reads_refines:
  assumes "represents m cur t" and "fits test (length (buffer m)) (softRecordLimit m) cur t bs"
    and "read_spec test cur (t @ concat bs) = (rs, c, t')"
  shows "\<exists>m'. mlr_reads test m bs = (rs, m') \<and> represents m' c t'"
  using assms
proof (induction bs arbitrary: m cur t rs)
  case Nil
  then have "newline \<notin> set t" by (simp add: represents_def)
  then have "split_lines t = ([], t)" using split_lines_join[of "[]" t] by simp
  then show ?case using Nil by (simp add: read_spec_def)
next
  case (Cons b bs)
  obtain ls t1 where sp: "split_lines (t @ b) = (ls, t1)" by (cases "split_lines (t @ b)")
  obtain r1 c1 where fd: "feed test cur ls = (r1, c1)" by (cases "feed test cur ls")
  have f: "length (join_lines cur @ t @ b) \<le> length (buffer m)"
    "length (join_lines c1 @ t1) + softRecordLimit m \<le> length (buffer m)"
    "fits test (length (buffer m)) (softRecordLimit m) c1 t1 bs"
    using Cons.prems(2) sp fd by (simp_all add: Let_def)
  have "length (pending m) + length b \<le> length (buffer m)"
    using f(1) Cons.prems(1) by (simp add: represents_def)
  from mlr_read_refines[OF Cons.prems(1) this sp fd f(2)]
  obtain m1 where m1: "mlr_read test m b = (r1, m1)" "represents m1 c1 t1"
    "length (buffer m1) = length (buffer m)" "softRecordLimit m1 = softRecordLimit m" by blast
  obtain r2 c2 t2 where rs: "read_spec test c1 (t1 @ concat bs) = (r2, c2, t2)"
    by (cases "read_spec test c1 (t1 @ concat bs)") auto
  have "read_spec test cur (t @ b) = (r1, c1, t1)" using sp fd by (simp add: read_spec_def)
  from read_spec_append[OF this rs] have eqs: "rs = r1 @ r2" "c = c2" "t' = t2" using Cons.prems(3) by auto
  have fits1: "fits test (length (buffer m1)) (softRecordLimit m1) c1 t1 bs" using f(3) m1(3,4) by simp
  from Cons.IH[OF m1(2) fits1 rs[folded eqs(2,3)]]
  obtain m2 where "mlr_reads test m1 bs = (r2, m2)" "represents m2 c t'" by blast
  then show ?case using m1(1) eqs(1) by auto
qed

lemma read_spec_bytes:
  "read_spec test [] s = (rs, c, t) \<Longrightarrow> join_lines rs @ join_lines c @ t = s"
proof -
  assume a: "read_spec test [] s = (rs, c, t)"
  then obtain ls where ls: "split_lines s = (ls, t)" "feed test [] ls = (rs, c)"
    by (auto simp: read_spec_def Let_def split: prod.splits)
  have "s = join_lines ls @ t" using split_lines_spec[OF ls(1)] by blast
  moreover have "join_lines rs @ join_lines c = join_lines ls" using feed_bytes[OF ls(2)] by simp
  ultimately show ?thesis by (metis append_assoc)
qed

text \<open>Every record but the first begins with a line that passes the test.\<close>

lemma feed_starts:
  "feed test cur ls = (rs, c) \<Longrightarrow> list_all (\<lambda>l. newline \<notin> set l) ls \<Longrightarrow>
     list_all (\<lambda>r. \<exists>l. l \<noteq> [] \<and> test l \<and> (r = l \<or> has_prefix r (l @ [newline]))) (tl rs)"
proof (induction test cur ls arbitrary: rs rule: feed.induct)
  case (1 test cur)
  then show ?case by simp
next
  case (2 test cur l ls)
  show ?case
  proof (cases "cur \<noteq> [] \<and> l \<noteq> [] \<and> test l")
    case False
    then have "feed test (cur @ [l]) ls = (rs, c)" using "2.prems" by auto
    then show ?thesis using "2.IH"(2)[OF False] "2.prems"(2) by simp
  next
    case True
    then obtain rs1 where 1: "feed test [l] ls = (rs1, c)" "rs = butlast (join_lines cur) # rs1"
      using "2.prems" by (auto simp: Let_def split: prod.splits)
    have tl: "list_all (\<lambda>r. \<exists>l. l \<noteq> [] \<and> test l \<and> (r = l \<or> has_prefix r (l @ [newline]))) (tl rs1)"
      using "2.IH"(1)[OF True 1(1)] "2.prems"(2) by simp
    have first: "feed test (l # cs) ls' = (rs', c') \<Longrightarrow> rs' \<noteq> [] \<Longrightarrow>
        \<exists>cs'. hd rs' = butlast (join_lines (l # cs'))" for cs ls' rs' c'
      by (induction ls' arbitrary: cs rs') (auto simp: Let_def split: if_splits prod.splits, blast?)
    show ?thesis
    proof (cases rs1)
      case Nil
      then show ?thesis using 1(2) by simp
    next
      case (Cons r rs2)
      obtain cs' where "r = butlast (join_lines (l # cs'))" using first[of "[]" ls rs1 c] 1(1) Cons by auto
      moreover have "butlast (join_lines (l # cs')) = (if cs' = [] then l else l @ newline # butlast (join_lines cs'))"
        by (simp add: butlast_append)
      ultimately have "r = l \<or> has_prefix r (l @ [newline])" by (auto simp: has_prefix_iff split: if_splits)
      then show ?thesis using tl True Cons 1(2) by auto
    qed
  qed
qed

section \<open>Any sequence of calls\<close>

datatype reader_call = CallRead bytes | CallFlush | CallFlushAll

definition reader_step :: "(bytes \<Rightarrow> bool) \<Rightarrow> mlr \<Rightarrow> reader_call \<Rightarrow> bytes list \<times> mlr" where
  "reader_step test m call =
     (case call of
        CallRead block \<Rightarrow> mlr_read test m block
      | CallFlush \<Rightarrow> mlr_flush test m
      | CallFlushAll \<Rightarrow> mlr_flush_all test m)"

fun reader_calls :: "(bytes \<Rightarrow> bool) \<Rightarrow> mlr \<Rightarrow> reader_call list \<Rightarrow> bytes list \<times> mlr" where
  "reader_calls test m [] = ([], m)"
| "reader_calls test m (c # cs) =
     (let (r1, m1) = reader_step test m c; (r2, m2) = reader_calls test m1 cs in (r1 @ r2, m2))"

lemma reader_step_ok:
  "mlr_ok m \<Longrightarrow> reader_step test m c = (recs, m') \<Longrightarrow>
     mlr_ok m' \<and> length (buffer m') = length (buffer m) \<and> softRecordLimit m' = softRecordLimit m"
proof (cases c)
  case (CallRead block)
  then show "mlr_ok m \<Longrightarrow> reader_step test m c = (recs, m') \<Longrightarrow> ?thesis"
    using mlr_read_ok[of m test block recs m'] by (simp add: reader_step_def)
next
  case CallFlush
  then show "mlr_ok m \<Longrightarrow> reader_step test m c = (recs, m') \<Longrightarrow> ?thesis"
    using mlr_flush_ok[of m test recs m'] by (simp add: reader_step_def)
next
  case CallFlushAll
  then show "mlr_ok m \<Longrightarrow> reader_step test m c = (recs, m') \<Longrightarrow> ?thesis"
    using mlr_flush_all_ok[of m test recs m'] by (simp add: reader_step_def)
qed

lemma reader_calls_ok:
  "mlr_ok m \<Longrightarrow> reader_calls test m cs = (recs, m') \<Longrightarrow>
     mlr_ok m' \<and> length (buffer m') = length (buffer m) \<and> softRecordLimit m' = softRecordLimit m"
proof (induction cs arbitrary: m recs)
  case Nil
  then show ?case by simp
next
  case (Cons c cs)
  obtain r1 m1 where 1: "reader_step test m c = (r1, m1)" by (cases "reader_step test m c")
  obtain r2 where 2: "reader_calls test m1 cs = (r2, m')"
    using Cons.prems(2) 1 by (auto simp: Let_def split: prod.splits)
  show ?case using reader_step_ok[OF Cons.prems(1) 1] Cons.IH[OF _ 2] by auto
qed

section \<open>Properties\<close>

text \<open>
  C2: however a stream is cut into blocks, as long as no record outgrows the buffer, the reader
  returns the records of the whole stream: the lines grouped from each record start to the next.
  No byte is lost, reordered or made up, and every record but the first begins with a line that
  passes the test.
\<close>

theorem records_of_stream:
  assumes "fits test (length (buffer (new_mlr cap soft))) soft [] [] blocks"
    and "read_spec test [] (concat blocks) = (recs, lines, rest)"
  shows "\<exists>m'. mlr_reads test (new_mlr cap soft) blocks = (recs, m') \<and>
     pending m' = join_lines lines @ rest \<and>
     join_lines recs @ join_lines lines @ rest = concat blocks \<and>
     list_all (\<lambda>r. \<exists>l. l \<noteq> [] \<and> test l \<and> (r = l \<or> has_prefix r (l @ [newline]))) (tl recs)"
proof -
  have soft: "softRecordLimit (new_mlr cap soft) = soft" by (simp add: new_mlr_def)
  obtain m' where m': "mlr_reads test (new_mlr cap soft) blocks = (recs, m')" "represents m' lines rest"
    using mlr_reads_refines[OF represents_new, of test cap soft blocks recs lines rest] assms soft by auto
  obtain ls where ls: "split_lines (concat blocks) = (ls, rest)" "feed test [] ls = (recs, lines)"
    using assms(2) by (auto simp: read_spec_def Let_def split: prod.splits)
  show ?thesis
    using m' read_spec_bytes[OF assms(2)] feed_starts[OF ls(2)] split_lines_spec[OF ls(1)]
    by (auto simp: represents_def)
qed

theorem records_of_stream_witness:
  "\<exists>m'. mlr_reads (\<lambda>l. hd l = CHR ''<'') (new_mlr 0 100) [[CHR ''<'', CHR ''a'', newline, CHR ''b''], [newline, CHR ''<'', newline]] =
     ([[CHR ''<'', CHR ''a'', newline, CHR ''b'']], m') \<and> pending m' = [CHR ''<'', newline]"
proof -
  let ?t = "\<lambda>l :: bytes. hd l = CHR ''<''"
  let ?bs = "[[CHR ''<'', CHR ''a'', newline, CHR ''b''], [newline, CHR ''<'', newline]]"
  have f: "fits ?t (length (buffer (new_mlr 0 100))) 100 [] [] ?bs" by (simp add: new_mlr_def)
  have r: "read_spec ?t [] (concat ?bs) = ([[CHR ''<'', CHR ''a'', newline, CHR ''b'']], [[CHR ''<'']], [])"
    by (simp add: read_spec_def)
  from records_of_stream[OF f r] show ?thesis by auto
qed

text \<open>
  C31: whatever arrives and whenever it is flushed, the offsets stay within the buffer, and there
  is always room for one more record of the soft limit.
\<close>

theorem reader_room:
  "reader_calls test (new_mlr cap soft) calls = (recs, m) \<Longrightarrow>
     offsetSearch m \<le> offsetAppend m \<and> offsetAppend m + soft \<le> length (buffer m) \<and>
     length (buffer m) = max cap (soft * 3)"
  using reader_calls_ok[OF mlr_ok_new, of test cap soft calls recs m]
  by (simp add: mlr_ok_def new_mlr_def)

theorem reader_room_witness:
  "\<exists>recs m. reader_calls (\<lambda>l. hd l = CHR ''<'') (new_mlr 0 2) [CallRead ''<ab<cd'', CallFlush] = (recs, m) \<and>
     offsetAppend m + 2 \<le> 6"
proof -
  obtain recs m where "reader_calls (\<lambda>l. hd l = CHR ''<'') (new_mlr 0 2) [CallRead ''<ab<cd'', CallFlush] = (recs, m)"
    by (cases "reader_calls (\<lambda>l. hd l = CHR ''<'') (new_mlr 0 2) [CallRead ''<ab<cd'', CallFlush]")
  with reader_room[OF this] show ?thesis by auto
qed

end
