(* ===== verification/Receiver.thy ===== *)
theory Receiver
  imports Multiline Transform_Build Transform_Labels
begin

text \<open>
  From a connection to batches of parsed records: \<open>input/sysloginput/compositeparser.go\<close> (parser
  and extraction transforms), \<open>base/bsupport/logparsingreceiver.go\<close> (batching),
  \<open>input/tcplistener/tcplinelistener.go\<close> (the loop of \<open>runConnection\<close>) and
  \<open>util/netconnwrapper.go\<close> (deadlines). The receiver relies on any \<open>LogParser\<close> that keeps the
  contract of the locale below; the composite syslog parser is shown to keep it.
\<close>

section \<open>Counting the events of transforms\<close>

fun apply_events :: "counter_host \<Rightarrow> count_event list \<Rightarrow> counter_host go" where
  "apply_events host [] = Inr host"
| "apply_events host ((label, len) # evs) =
     go_bind (count_host host label len) (\<lambda>host'. apply_events host' evs)"

lemma apply_events_ok:
  assumes "events_in ls evs" and "\<forall>l \<in> ls. host l \<noteq> None"
  shows "\<exists>host'. apply_events host evs = Inr host' \<and> dom host' = dom host"
  using assms
proof (induction evs arbitrary: host)
  case Nil
  then show ?case by simp
next
  case (Cons e evs)
  obtain l n where e: "e = (l, n)" by (cases e)
  then obtain c where c: "host l = Some c" using Cons.prems by (auto simp: events_in_def)
  let ?h = "host(l \<mapsto> count_record c n)"
  have "events_in ls evs" using Cons.prems(1) by (simp add: events_in_def)
  moreover have "\<forall>l \<in> ls. ?h l \<noteq> None" using Cons.prems(2) by auto
  ultimately obtain host' where "apply_events ?h evs = Inr host'" "dom host' = dom ?h"
    using Cons.IH by blast
  then show ?case using e c by (auto simp: count_host_def)
qed

section \<open>The composite parser\<close>

record composite_state =
  csAllocator :: log_allocator
  csCounters :: input_counters
  csExtractions :: "transform list"

text \<open>\<open>Parse\<close>. The choices of \<open>sync.Pool\<close> are a function of the allocator.\<close>

definition composite_parse ::
  "environment \<Rightarrow> (log_allocator \<Rightarrow> nat option \<times> nat option) \<Rightarrow> syslog_parser \<Rightarrow>
     composite_state \<Rightarrow> bytes \<Rightarrow> gotime \<Rightarrow> (log_record option \<times> composite_state) run" where
  "composite_parse env pick p st input timestamp =
     (let (c1, c2) = pick (csAllocator st) in
      run_bind (Some (parse_syslog c1 c2 p (csAllocator st) (csCounters st) input timestamp))
        (\<lambda>(parsed, alloc, counters).
        let st1 = st\<lparr>csAllocator := alloc, csCounters := counters\<rparr> in
        case parsed of
          None \<Rightarrow> Some (Inr (None, st1))
        | Some r \<Rightarrow>
            run_bind (run_transforms env (csExtractions st) r) (\<lambda>(res, ts, r', evs).
            run_bind (Some (apply_events (customHost counters) evs)) (\<lambda>host.
              let st2 = st1\<lparr>csCounters := (counters\<lparr>customHost := host\<rparr>), csExtractions := ts\<rparr> in
              if res = DROP
              then run_bind (Some (release alloc r')) (\<lambda>(_, alloc'). Some (Inr (None, (st2\<lparr>csAllocator := alloc'\<rparr>))))
              else Some (Inr (Some r', st2))))))"

section \<open>What the receiver expects of a parser\<close>

locale log_parser =
  fixes parse :: "'p \<Rightarrow> bytes \<Rightarrow> gotime \<Rightarrow> (log_record option \<times> 'p) run"
    and inv :: "'p \<Rightarrow> bool"
    and good :: "bytes \<Rightarrow> bool"
  assumes parse_ok: "inv p \<Longrightarrow> good s \<Longrightarrow>
     \<exists>res p'. parse p s ts = Some (Inr (res, p')) \<and> inv p' \<and> (\<forall>r. res = Some r \<longrightarrow> RawLength r = length s)"

text \<open>The calls to the downstream sink.\<close>

datatype sink_event = SendBatch "log_record list" | SinkTick | SinkClose

record 'p parsing_sink =
  sinkParser :: 'p
  bufferedLogs :: "log_record list"
  bufferedBytes :: nat
  sinkNow :: gotime

definition new_parsing_sink :: "'p \<Rightarrow> gotime \<Rightarrow> 'p parsing_sink" where
  "new_parsing_sink p now =
     \<lparr>sinkParser = p, bufferedLogs = [], bufferedBytes = 0, sinkNow = now\<rparr>"

definition send_buffer :: "'p parsing_sink \<Rightarrow> sink_event list \<times> 'p parsing_sink" where
  "send_buffer s = ([SendBatch (bufferedLogs s)], s\<lparr>bufferedLogs := [], bufferedBytes := 0\<rparr>)"

definition sink_accept ::
  "('p \<Rightarrow> bytes \<Rightarrow> gotime \<Rightarrow> (log_record option \<times> 'p) run) \<Rightarrow> 'p parsing_sink \<Rightarrow> bytes \<Rightarrow>
     (sink_event list \<times> 'p parsing_sink) run" where
  "sink_accept parse s line =
     run_bind (parse (sinkParser s) line (sinkNow s)) (\<lambda>(res, p').
       let s1 = s\<lparr>sinkParser := p'\<rparr> in
       case res of
         None \<Rightarrow> Some (Inr ([], s1))
       | Some r \<Rightarrow>
           let s2 = s1\<lparr>bufferedLogs := bufferedLogs s1 @ [r],
                       bufferedBytes := bufferedBytes s1 + RawLength r\<rparr> in
           if bufferedBytes s2 \<ge> IntermediateBufferMaxTotalBytes \<or>
              length (bufferedLogs s2) \<ge> IntermediateBufferMaxNumLogs
           then Some (Inr (send_buffer s2))
           else Some (Inr ([], s2)))"

definition sink_flush :: "'p parsing_sink \<Rightarrow> gotime \<Rightarrow> sink_event list \<times> 'p parsing_sink" where
  "sink_flush s now =
     (let s1 = s\<lparr>sinkNow := now\<rparr>;
          (evs, s2) = (if bufferedLogs s1 \<noteq> [] then send_buffer s1 else ([], s1)) in
      (evs @ [SinkTick], s2))"

definition sink_close :: "'p parsing_sink \<Rightarrow> sink_event list" where
  "sink_close s = [SinkClose]"

fun sink_accept_all ::
  "('p \<Rightarrow> bytes \<Rightarrow> gotime \<Rightarrow> (log_record option \<times> 'p) run) \<Rightarrow> 'p parsing_sink \<Rightarrow> bytes list \<Rightarrow>
     (sink_event list \<times> 'p parsing_sink) run" where
  "sink_accept_all parse s [] = Some (Inr ([], s))"
| "sink_accept_all parse s (l # ls) =
     run_bind (sink_accept parse s l) (\<lambda>(evs, s1).
     run_bind (sink_accept_all parse s1 ls) (\<lambda>(evs', s2). Some (Inr (evs @ evs', s2))))"

section \<open>Connections\<close>

text \<open>The result of one \<open>Read\<close> of the connection: the bytes, the error, the read deadline after
  it, and the time of a flush that follows it.\<close>

datatype read_error = NoError | TimeoutError | OtherError

record read_result =
  readBlock :: bytes
  readError :: read_error
  readDeadline :: gotime
  readNow :: gotime

record 'p connection =
  connReader :: mlr
  connSink :: "'p parsing_sink"
  prevDeadline :: gotime

definition conn_flush ::
  "('p \<Rightarrow> bytes \<Rightarrow> gotime \<Rightarrow> (log_record option \<times> 'p) run) \<Rightarrow> (bytes \<Rightarrow> bool) \<Rightarrow>
     'p connection \<Rightarrow> gotime \<Rightarrow> (sink_event list \<times> 'p connection) run" where
  "conn_flush parse test c now =
     (let (recs, m) = mlr_flush test (connReader c) in
      run_bind (sink_accept_all parse (connSink c) recs) (\<lambda>(evs, s).
        let (evs', s') = sink_flush s now in
        Some (Inr (evs @ evs', c\<lparr>connReader := m, connSink := s'\<rparr>))))"

text \<open>One round of the loop of \<open>runConnection\<close>; the boolean tells whether it goes on.\<close>

definition conn_step ::
  "('p \<Rightarrow> bytes \<Rightarrow> gotime \<Rightarrow> (log_record option \<times> 'p) run) \<Rightarrow> (bytes \<Rightarrow> bool) \<Rightarrow>
     'p connection \<Rightarrow> read_result \<Rightarrow> (sink_event list \<times> 'p connection \<times> bool) run" where
  "conn_step parse test c r =
     (let (recs, m) = mlr_read test (connReader c) (readBlock r) in
      run_bind (sink_accept_all parse (connSink c) recs) (\<lambda>(evs, s).
        let c1 = c\<lparr>connReader := m, connSink := s\<rparr> in
        case readError r of
          NoError \<Rightarrow>
            if prevDeadline c1 = zero_time
            then Some (Inr (evs, c1\<lparr>prevDeadline := readDeadline r\<rparr>, True))
            else if readDeadline r \<noteq> prevDeadline c1
            then run_bind (conn_flush parse test c1 (readNow r)) (\<lambda>(evs', c2).
                   Some (Inr (evs @ evs', c2\<lparr>prevDeadline := readDeadline r\<rparr>, True)))
            else Some (Inr (evs, c1, True))
        | TimeoutError \<Rightarrow>
            run_bind (conn_flush parse test c1 (readNow r)) (\<lambda>(evs', c2).
              Some (Inr (evs @ evs', c2, True)))
        | OtherError \<Rightarrow>
            (let (recs', m') = mlr_flush_all test (connReader c1) in
             run_bind (sink_accept_all parse (connSink c1) recs') (\<lambda>(evs', s').
               Some (Inr (evs @ evs', c1\<lparr>connReader := m', connSink := s'\<rparr>, False))))))"

text \<open>The loop, with the final \<open>Flush\<close> and the deferred \<open>Close\<close>; \<open>now\<close> is the time of the last
  flush. A connection still open at the end of the list of reads has no final result.\<close>

fun conn_run ::
  "('p \<Rightarrow> bytes \<Rightarrow> gotime \<Rightarrow> (log_record option \<times> 'p) run) \<Rightarrow> (bytes \<Rightarrow> bool) \<Rightarrow>
     'p connection \<Rightarrow> read_result list \<Rightarrow> (sink_event list \<times> 'p connection \<times> bool) run" where
  "conn_run parse test c [] = Some (Inr ([], c, True))"
| "conn_run parse test c (r # rs) =
     run_bind (conn_step parse test c r) (\<lambda>(evs, c1, going).
       if going then run_bind (conn_run parse test c1 rs) (\<lambda>(evs', c2, g). Some (Inr (evs @ evs', c2, g)))
       else let (evs', s') = sink_flush (connSink c1) (readNow r) in
            Some (Inr (evs @ evs' @ sink_close s', c1\<lparr>connSink := s'\<rparr>, False)))"

section \<open>Deadlines\<close>

record net_conn =
  timeoutMin :: int
  timeoutMax :: int
  netDeadline :: gotime

definition wrap_net_conn :: "int \<Rightarrow> net_conn" where
  "wrap_net_conn timeout = \<lparr>timeoutMin = timeout, timeoutMax = timeout * 2, netDeadline = zero_time\<rparr>"

text \<open>Before an operation at time \<open>now\<close> (\<open>Read\<close> and \<open>Write\<close> are alike): the deadline is renewed
  when less than the minimum is left.\<close>

definition renew_deadline :: "net_conn \<Rightarrow> gotime \<Rightarrow> net_conn" where
  "renew_deadline cw now =
     (if timeoutMin cw > 0 \<and> netDeadline cw - now < timeoutMin cw
      then cw\<lparr>netDeadline := now + timeoutMax cw\<rparr> else cw)"

lemma renew_deadline_bounds:
  assumes "0 < t" and "cw = wrap_net_conn t \<or> (timeoutMin cw = t \<and> timeoutMax cw = t * 2 \<and> netDeadline cw \<le> prev + t * 2)"
    and "prev \<le> now" and "zero_time \<le> now"
  shows "now + t \<le> netDeadline (renew_deadline cw now) \<and> netDeadline (renew_deadline cw now) \<le> now + t * 2"
  using assms by (auto simp: renew_deadline_def wrap_net_conn_def)


section \<open>Batches\<close>

fun batches :: "sink_event list \<Rightarrow> log_record list list" where
  "batches [] = []"
| "batches (SendBatch b # evs) = b # batches evs"
| "batches (e # evs) = batches evs"

lemma batches_append [simp]: "batches (a @ b) = batches a @ batches b"
  by (induction a rule: batches.induct) auto

definition sent :: "sink_event list \<Rightarrow> log_record list" where
  "sent evs = concat (batches evs)"

lemma sent_simps [simp]:
  "sent [] = []" "sent (a @ evs) = sent a @ sent evs" "sent (SendBatch b # evs) = b @ sent evs"
  "sent (SinkTick # evs) = sent evs" "sent (SinkClose # evs) = sent evs"
  by (simp_all add: sent_def)

text \<open>The buffer stays below both limits, and no batch is empty or larger than the limit.\<close>

definition sink_ok :: "'p parsing_sink \<Rightarrow> bool" where
  "sink_ok s \<longleftrightarrow>
     length (bufferedLogs s) < IntermediateBufferMaxNumLogs \<and>
     bufferedBytes s < IntermediateBufferMaxTotalBytes \<and>
     bufferedBytes s = sum_list (map RawLength (bufferedLogs s))"

definition batch_ok :: "log_record list \<Rightarrow> bool" where
  "batch_ok b \<longleftrightarrow> b \<noteq> [] \<and> length b \<le> IntermediateBufferMaxNumLogs"

lemma sink_ok_new: "sink_ok (new_parsing_sink p now)"
  by (simp add: sink_ok_def new_parsing_sink_def IntermediateBufferMaxNumLogs_def
      IntermediateBufferMaxTotalBytes_def)

lemma sink_ok_empty:
  "bufferedLogs s = [] \<Longrightarrow> bufferedBytes s = 0 \<Longrightarrow> sink_ok s"
  by (simp add: sink_ok_def IntermediateBufferMaxNumLogs_def IntermediateBufferMaxTotalBytes_def)

lemma sink_accept_result:
  assumes "sink_ok s" and "parse (sinkParser s) line (sinkNow s) = Some (Inr (res, p'))"
  shows "\<exists>evs s'. sink_accept parse s line = Some (Inr (evs, s')) \<and> sink_ok s' \<and>
     sinkParser s' = p' \<and> sinkNow s' = sinkNow s \<and> list_all batch_ok (batches evs) \<and>
     sent evs @ bufferedLogs s' = bufferedLogs s @ (case res of None \<Rightarrow> [] | Some r \<Rightarrow> [r])"
proof (cases res)
  case None
  then show ?thesis using assms by (simp add: sink_accept_def sink_ok_def)
next
  case (Some r)
  define s2 where "s2 = s\<lparr>sinkParser := p', bufferedLogs := bufferedLogs s @ [r],
    bufferedBytes := bufferedBytes s + RawLength r\<rparr>"
  have s2: "length (bufferedLogs s2) = length (bufferedLogs s) + 1"
    "bufferedBytes s2 = sum_list (map RawLength (bufferedLogs s2))"
    using assms(1) by (auto simp: s2_def sink_ok_def)
  have acc: "sink_accept parse s line =
      (if bufferedBytes s2 \<ge> IntermediateBufferMaxTotalBytes \<or>
          length (bufferedLogs s2) \<ge> IntermediateBufferMaxNumLogs
       then Some (Inr (send_buffer s2)) else Some (Inr ([], s2)))"
    using Some assms(2) by (simp add: sink_accept_def Let_def s2_def)
  show ?thesis
  proof (cases "bufferedBytes s2 \<ge> IntermediateBufferMaxTotalBytes \<or>
      length (bufferedLogs s2) \<ge> IntermediateBufferMaxNumLogs")
    case True
    have "batch_ok (bufferedLogs s2)"
      using assms(1) by (auto simp: batch_ok_def s2_def sink_ok_def)
    moreover have "sink_ok (s2\<lparr>bufferedLogs := [], bufferedBytes := 0\<rparr>)" by (rule sink_ok_empty) simp_all
    ultimately show ?thesis using True acc Some by (simp add: send_buffer_def) (simp add: s2_def)
  next
    case False
    then have "sink_ok s2" using s2 by (simp add: sink_ok_def)
    then show ?thesis using False acc Some by (simp add: s2_def)
  qed
qed

lemma sink_flush_result:
  assumes "sink_ok s" and "sink_flush s now = (evs, s')"
  shows "sink_ok s' \<and> bufferedLogs s' = [] \<and> sinkParser s' = sinkParser s \<and>
     list_all batch_ok (batches evs) \<and> sent evs = bufferedLogs s"
  using assms
  by (auto simp: sink_flush_def send_buffer_def Let_def batch_ok_def intro!: sink_ok_empty split: if_splits)
    (auto simp: sink_ok_def)

text \<open>A parser that remembers what it returned.\<close>

definition logged ::
  "('p \<Rightarrow> bytes \<Rightarrow> gotime \<Rightarrow> (log_record option \<times> 'p) run) \<Rightarrow>
     'p \<times> log_record list \<Rightarrow> bytes \<Rightarrow> gotime \<Rightarrow> (log_record option \<times> 'p \<times> log_record list) run" where
  "logged parse ph line ts =
     run_bind (parse (fst ph) line ts) (\<lambda>(res, p').
       Some (Inr (res, p', snd ph @ (case res of None \<Rightarrow> [] | Some r \<Rightarrow> [r]))))"

text \<open>What has been sent and what is buffered is what the parser returned.\<close>

definition history_ok :: "log_record list \<Rightarrow> ('p \<times> log_record list) parsing_sink \<Rightarrow> bool" where
  "history_ok out s \<longleftrightarrow> sink_ok s \<and> out @ bufferedLogs s = snd (sinkParser s)"

lemma sink_accept_history:
  assumes "history_ok out s" and "sink_accept (logged parse) s line = Some (Inr (evs, s'))"
  shows "history_ok (out @ sent evs) s' \<and> list_all batch_ok (batches evs)"
proof -
  obtain res p' h' where "logged parse (sinkParser s) line (sinkNow s) = Some (Inr (res, p', h'))"
    using assms(2) by (auto simp: sink_accept_def run_bind_eq_Inr)
  moreover from this have "h' = snd (sinkParser s) @ (case res of None \<Rightarrow> [] | Some r \<Rightarrow> [r])"
    by (auto simp: logged_def run_bind_eq_Inr)
  ultimately show ?thesis
    using sink_accept_result[of s "logged parse" line res "(p', h')"] assms
    by (auto simp: history_ok_def)
qed

lemma sink_accept_all_history:
  assumes "history_ok out s" and "sink_accept_all (logged parse) s lines = Some (Inr (evs, s'))"
  shows "history_ok (out @ sent evs) s' \<and> list_all batch_ok (batches evs)"
  using assms
proof (induction lines arbitrary: out s evs)
  case Nil
  then show ?case by simp
next
  case (Cons l ls)
  obtain e1 s1 where 1: "sink_accept (logged parse) s l = Some (Inr (e1, s1))"
    using Cons.prems(2) by (auto simp: run_bind_eq_Inr)
  obtain e2 where 2: "sink_accept_all (logged parse) s1 ls = Some (Inr (e2, s'))" "evs = e1 @ e2"
    using Cons.prems(2) 1 by (auto simp: run_bind_eq_Inr)
  show ?case
    using sink_accept_history[OF Cons.prems(1) 1] Cons.IH[OF _ 2(1), of "out @ sent e1"] 2(2) by simp
qed

lemma conn_flush_history:
  assumes "history_ok out (connSink c)" and "conn_flush (logged parse) test c now = Some (Inr (evs, c'))"
  shows "history_ok (out @ sent evs) (connSink c') \<and> list_all batch_ok (batches evs)"
proof -
  obtain recs m where m: "mlr_flush test (connReader c) = (recs, m)" by (cases "mlr_flush test (connReader c)")
  obtain e1 s1 where 1: "sink_accept_all (logged parse) (connSink c) recs = Some (Inr (e1, s1))"
    using assms(2) m by (auto simp: conn_flush_def run_bind_eq_Inr)
  obtain e2 s2 where 2: "sink_flush s1 now = (e2, s2)" by (cases "sink_flush s1 now")
  have "evs = e1 @ e2" "connSink c' = s2" using assms(2) m 1 2 by (auto simp: conn_flush_def)
  then show ?thesis
    using sink_accept_all_history[OF assms(1) 1] sink_flush_result[OF _ 2]
    by (auto simp: history_ok_def)
qed

lemma conn_step_history:
  assumes "history_ok out (connSink c)" and "conn_step (logged parse) test c r = Some (Inr (evs, c', going))"
  shows "history_ok (out @ sent evs) (connSink c') \<and> list_all batch_ok (batches evs)"
proof -
  obtain recs m where m: "mlr_read test (connReader c) (readBlock r) = (recs, m)"
    by (cases "mlr_read test (connReader c) (readBlock r)")
  obtain e1 s1 where 1: "sink_accept_all (logged parse) (connSink c) recs = Some (Inr (e1, s1))"
    using assms(2) m by (auto simp: conn_step_def run_bind_eq_Inr)
  let ?c1 = "c\<lparr>connReader := m, connSink := s1\<rparr>"
  note h1 = sink_accept_all_history[OF assms(1) 1]
  have flushed: "history_ok (out @ sent (e1 @ e2)) (connSink c2) \<and> list_all batch_ok (batches (e1 @ e2))"
    if "conn_flush (logged parse) test ?c1 (readNow r) = Some (Inr (e2, c2))" for e2 c2
    using conn_flush_history[OF _ that, of "out @ sent e1"] h1 by simp
  show ?thesis
  proof (cases "readError r")
    case NoError
    then show ?thesis using assms(2) m 1 h1
      by (auto simp: conn_step_def Let_def run_bind_eq_Inr split: if_splits dest!: flushed)
  next
    case TimeoutError
    then show ?thesis using assms(2) m 1
      by (auto simp: conn_step_def Let_def run_bind_eq_Inr dest!: flushed)
  next
    case OtherError
    obtain recs' m' where m': "mlr_flush_all test m = (recs', m')" by (cases "mlr_flush_all test m")
    obtain e2 s2 where 2: "sink_accept_all (logged parse) s1 recs' = Some (Inr (e2, s2))"
      using assms(2) m 1 OtherError m' by (auto simp: conn_step_def Let_def run_bind_eq_Inr)
    have "evs = e1 @ e2" "connSink c' = s2"
      using assms(2) m 1 OtherError m' 2 by (auto simp: conn_step_def Let_def)
    then show ?thesis using sink_accept_all_history[OF _ 2, of "out @ sent e1"] h1 by simp
  qed
qed

lemma conn_run_history:
  assumes "history_ok out (connSink c)" and "conn_run (logged parse) test c rs = Some (Inr (evs, c', g))"
  shows "history_ok (out @ sent evs) (connSink c') \<and> list_all batch_ok (batches evs) \<and>
     (\<not> g \<longrightarrow> bufferedLogs (connSink c') = [] \<and> evs \<noteq> [] \<and> last evs = SinkClose)"
  using assms
proof (induction rs arbitrary: out c evs)
  case Nil
  then show ?case by simp
next
  case (Cons r rs)
  obtain e1 c1 going where 1: "conn_step (logged parse) test c r = Some (Inr (e1, c1, going))"
    using Cons.prems(2) by (auto simp: run_bind_eq_Inr)
  note h1 = conn_step_history[OF Cons.prems(1) 1]
  show ?case
  proof (cases going)
    case True
    then obtain e2 where 2: "conn_run (logged parse) test c1 rs = Some (Inr (e2, c', g))" "evs = e1 @ e2"
      using Cons.prems(2) 1 by (auto simp: run_bind_eq_Inr)
    show ?thesis using Cons.IH[OF conjunct1[OF h1] 2(1)] h1 2(2) by auto
  next
    case False
    obtain e2 s2 where 2: "sink_flush (connSink c1) (readNow r) = (e2, s2)"
      by (cases "sink_flush (connSink c1) (readNow r)")
    have r: "evs = e1 @ e2 @ [SinkClose]" "connSink c' = s2" "\<not> g"
      using Cons.prems(2) 1 False 2 by (auto simp: sink_close_def)
    show ?thesis using h1 sink_flush_result[OF _ 2] r by (auto simp: history_ok_def)
  qed
qed

section \<open>Receivers never lose a good line\<close>

context log_parser
begin

lemma accept_total:
  assumes "sink_ok s" and "inv (sinkParser s)" and "good line"
  shows "\<exists>evs s'. sink_accept parse s line = Some (Inr (evs, s')) \<and> sink_ok s' \<and> inv (sinkParser s') \<and>
     list_all batch_ok (batches evs)"
  using parse_ok[OF assms(2,3), of "sinkNow s"] sink_accept_result[OF assms(1), of parse line] by metis

lemma accept_all_total:
  assumes "sink_ok s" and "inv (sinkParser s)" and "list_all good lines"
  shows "\<exists>evs s'. sink_accept_all parse s lines = Some (Inr (evs, s')) \<and> sink_ok s' \<and>
     inv (sinkParser s') \<and> list_all batch_ok (batches evs)"
  using assms
proof (induction lines arbitrary: s)
  case Nil
  then show ?case by simp
next
  case (Cons l ls)
  obtain e1 s1 where 1: "sink_accept parse s l = Some (Inr (e1, s1))" "sink_ok s1" "inv (sinkParser s1)"
    "list_all batch_ok (batches e1)"
    using accept_total[OF Cons.prems(1,2), of l] Cons.prems(3) by auto
  obtain e2 s2 where "sink_accept_all parse s1 ls = Some (Inr (e2, s2))" "sink_ok s2" "inv (sinkParser s2)"
    "list_all batch_ok (batches e2)"
    using Cons.IH[of s1, OF 1(2,3)] Cons.prems(3) by auto
  then show ?case using 1 by simp
qed

end

definition composite_ok :: "syslog_parser \<Rightarrow> composite_state \<Rightarrow> bool" where
  "composite_ok p st \<longleftrightarrow>
     allocator_ok (csAllocator st) \<and> 0 < initialRefCount (csAllocator st) \<and>
     parser_ok (allocFields (csAllocator st)) p \<and> counters_ready (csCounters st) \<and>
     total_transforms (allocFields (csAllocator st)) (csExtractions st) \<and>
     (\<forall>l \<in> labels_of_list (csExtractions st). customHost (csCounters st) l \<noteq> None)"

definition good_line :: "bytes \<Rightarrow> bool" where
  "good_line s \<longleftrightarrow> length s < 2 ^ 31 \<and> \<not> bare_bracket s"

lemma release_total:
  assumes "allocator_ok alloc" and "in_use alloc r" and "0 < refCount r"
  shows "\<exists>r' alloc'. release alloc r = Inr (r', alloc') \<and> allocator_ok alloc' \<and>
     initialRefCount alloc' = initialRefCount alloc \<and> allocFields alloc' = allocFields alloc"
proof (cases "refCount r = 1")
  case True
  from release_last[OF assms(1,2) True] show ?thesis by blast
next
  case False
  then show ?thesis using release_keeps[OF assms(1,2)] assms(1,3) by auto
qed


lemma parse_syslog_host:
  "parse_syslog c1 c2 p alloc c input ts = Inr (res, alloc', c') \<Longrightarrow>
     dom (customHost c') = dom (customHost c)"
  by (fastforce simp: parse_syslog_def Let_def go_bind_eq_Inr on_malformed_def on_overflow_def
      count_host_def count_record_drop_def count_record_pass_def split: option.splits if_splits)

text \<open>Once parsed, a record goes through the extractions, which return and keep its length.\<close>

lemma extractions_ok:
  assumes "total_transforms n ts" and "n = length (Fields r)"
    and "\<forall>l \<in> labels_of_list ts. host l \<noteq> None"
  shows "\<exists>res ts' r' evs host'. run_transforms env ts r = Some (Inr (res, ts', r', evs)) \<and>
     total_transforms n ts' \<and> same_frame r r' \<and> labels_of_list ts' = labels_of_list ts \<and>
     apply_events host evs = Inr host' \<and> dom host' = dom host"
proof -
  obtain res ts' r' evs where run: "run_transforms env ts r = Some (Inr (res, ts', r', evs))"
    "total_transforms n ts'"
    using run_total(2)[OF assms(1), of r env] assms(2) by auto
  from run_labels(2)[OF run(1)] have l: "events_in (labels_of_list ts) evs" "labels_of_list ts' = labels_of_list ts"
    by simp_all
  obtain host' where "apply_events host evs = Inr host'" "dom host' = dom host"
    using apply_events_ok[OF l(1) assms(3)] by blast
  then show ?thesis using run run_frame(2)[OF run(1)] l(2) by blast
qed

lemma in_use_frame: "in_use alloc r \<Longrightarrow> same_frame r r' \<Longrightarrow> in_use alloc r'"
  by (simp add: in_use_def same_frame_def)

lemma composite_parse_contract:
  assumes ok: "composite_ok p st" and line: "good_line s"
  shows "\<exists>res st'. composite_parse env pick p st s ts = Some (Inr (res, st')) \<and> composite_ok p st' \<and>
     (\<forall>r. res = Some r \<longrightarrow> RawLength r = length s)"
proof -
  obtain c1 c2 where pick: "pick (csAllocator st) = (c1, c2)" by (cases "pick (csAllocator st)")
  note st = ok[unfolded composite_ok_def]
  obtain parsed alloc c where p:
    "parse_syslog c1 c2 p (csAllocator st) (csCounters st) s ts = Inr (parsed, alloc, c)"
    "allocator_ok alloc" "counters_ready c" "initialRefCount alloc = initialRefCount (csAllocator st)"
    "allocFields alloc = allocFields (csAllocator st)"
    "\<forall>r. parsed = Some r \<longrightarrow> in_use alloc r \<and> RawLength r = length s \<and> refCount r = initialRefCount alloc"
    using parse_syslog_ok[of "csAllocator st" p "csCounters st" s c1 c2 ts] st line
    unfolding good_line_def by (auto split: option.splits)
  have host: "dom (customHost c) = dom (customHost (csCounters st))" using parse_syslog_host[OF p(1)] .
  let ?ls = "labels_of_list (csExtractions st)"
  have labels: "\<forall>l \<in> ?ls. customHost c l \<noteq> None" using st host by (auto simp: dom_def set_eq_iff)
  show ?thesis
  proof (cases parsed)
    case None
    then show ?thesis using pick p st labels by (simp add: composite_parse_def composite_ok_def)
  next
    case (Some r)
    have r: "in_use alloc r" "RawLength r = length s" "refCount r = initialRefCount alloc"
      using p(6) Some by auto
    have n: "allocFields (csAllocator st) = length (Fields r)" using r(1) p(5) by (simp add: in_use_def)
    obtain res tr r' evs host' where x:
      "run_transforms env (csExtractions st) r = Some (Inr (res, tr, r', evs))"
      "total_transforms (allocFields (csAllocator st)) tr" "same_frame r r'"
      "labels_of_list tr = ?ls" "apply_events (customHost c) evs = Inr host'" "dom host' = dom (customHost c)"
      using extractions_ok[OF _ n labels, of env] st by blast
    have after: "\<forall>l \<in> labels_of_list tr. host' l \<noteq> None" "host' ''overflow'' \<noteq> None"
      using x(4,6) labels p(3) by (auto simp: counters_ready_def dom_def set_eq_iff)
    obtain r2 alloc2 where rel: "release alloc r' = Inr (r2, alloc2)" "allocator_ok alloc2"
      "initialRefCount alloc2 = initialRefCount alloc" "allocFields alloc2 = allocFields alloc"
      using release_total[OF p(2) in_use_frame[OF r(1) x(3)]] x(3) r(3) st p(4)
      by (auto simp: same_frame_def)
    have len: "RawLength r' = length s" using x(3) r(2) by (simp add: same_frame_def)
    note run = composite_parse_def[of env pick p st s ts, unfolded pick prod.case Let_def p(1)
        run_bind_simps Some option.case x(1) x(5)]
    show ?thesis unfolding run
      using pick p Some x rel after len st
      by (cases "res = DROP") (simp_all add: composite_ok_def counters_ready_def)
  qed
qed

interpretation composite: log_parser "composite_parse env pick p" "composite_ok p" good_line
  for env pick p
  by unfold_locales (rule composite_parse_contract)

section \<open>An untested first record\<close>

text \<open>The reader passes the first record of a connection on without testing its first line.\<close>

lemma first_record_untested:
  assumes "newline \<notin> set s" and "newline \<notin> set l" and "l \<noteq> []" and "test l"
    and "length s + length l + 2 + soft \<le> cap"
  shows "\<exists>m. mlr_read test (new_mlr cap soft) (s @ newline # l @ [newline]) = ([s], m)"
proof -
  let ?m = "new_mlr cap soft" and ?block = "s @ newline # l @ [newline]"
  have b: "length s + length l + 2 + soft \<le> length (buffer ?m)" "softRecordLimit ?m = soft" "pending ?m = []"
    using assms(5) by (auto simp: new_mlr_def pending_def)
  have "split_lines (join_lines [s, l] @ []) = ([s, l], [])"
    using assms(1,2) by (intro split_lines_join) auto
  then have sp: "split_lines ([] @ ?block) = ([s, l], [])" by simp
  have fd: "feed test [] [s, l] = ([s], [l])" using assms(3,4) by (simp add: butlast_append)
  show ?thesis
    using mlr_read_refines[OF represents_new _ sp fd, of cap soft] b by auto
qed

lemma composite_parse_bare:
  assumes "composite_ok p st" and "bare_bracket s" and "length s < 2 ^ 31"
  shows "composite_parse env pick p st s ts = Some (Inl SliceBounds)"
proof -
  obtain c1 c2 where pick: "pick (csAllocator st) = (c1, c2)" by (cases "pick (csAllocator st)")
  obtain r0 alloc1 where "new_record c1 c2 (csAllocator st) s = Inr (r0, s, alloc1)"
    using new_record_correct[OF _ assms(3), of "csAllocator st" c1 c2] assms(1)
    by (auto simp: composite_ok_def)
  then have "parse_syslog c1 c2 p (csAllocator st) (csCounters st) s ts = Inl SliceBounds"
    using parse_header_panics[OF assms(2)] by (simp add: parse_syslog_def Let_def)
  then show ?thesis using pick by (simp add: composite_parse_def)
qed

section \<open>Properties\<close>

text \<open>
  C5: when a connection has ended, the records sent downstream are exactly those the parser
  returned, in their order; none is left in the buffer, no batch is empty or over the limit of
  records, and the last call is the close.
\<close>

theorem connection_delivers:
  assumes "connSink c = new_parsing_sink (p, []) now"
    and "conn_run (logged parse) test c reads = Some (Inr (evs, c', False))"
  shows "sent evs = snd (sinkParser (connSink c')) \<and> bufferedLogs (connSink c') = [] \<and>
     list_all batch_ok (batches evs) \<and> last evs = SinkClose"
proof -
  have "history_ok [] (connSink c)"
    unfolding history_ok_def assms(1) using sink_ok_new by (auto simp: new_parsing_sink_def)
  from conn_run_history[OF this assms(2)] show ?thesis by (auto simp: history_ok_def)
qed

theorem connection_delivers_witness:
  "\<exists>evs c'. conn_run (logged (\<lambda>(u :: unit) line ts. Some (Inr (Some \<lparr>Fields = [line], RawLength = length line,
        Timestamp = ts, Unescaped = False, backbuf = None, refCount = 1\<rparr>, u)))) (\<lambda>l. hd l = CHR ''<'')
      \<lparr>connReader = new_mlr 0 10, connSink = new_parsing_sink ((), []) 5, prevDeadline = 0\<rparr>
      [\<lparr>readBlock = ''<ab'', readError = OtherError, readDeadline = 0, readNow = 7\<rparr>] = Some (Inr (evs, c', False)) \<and>
     sent evs = snd (sinkParser (connSink c'))"
proof -
  let ?parse = "\<lambda>(u :: unit) line ts. Some (Inr (Some \<lparr>Fields = [line], RawLength = length line,
        Timestamp = ts, Unescaped = False, backbuf = None, refCount = 1\<rparr>, u)) :: (log_record option \<times> unit) run"
  let ?c = "\<lparr>connReader = new_mlr 0 10, connSink = new_parsing_sink ((), []) 5, prevDeadline = 0\<rparr>"
  let ?reads = "[\<lparr>readBlock = ''<ab'', readError = OtherError, readDeadline = 0, readNow = 7\<rparr>]"
  have tot: "\<exists>x. sink_accept_all (logged ?parse) s ls = Some (Inr x)" for s ls
  proof (induction ls arbitrary: s)
    case (Cons l ls)
    have "\<exists>y. sink_accept (logged ?parse) s l = Some (Inr y)"
      by (simp add: sink_accept_def logged_def Let_def)
    then obtain e1 s1 where 1: "sink_accept (logged ?parse) s l = Some (Inr (e1, s1))" by auto
    obtain e2 s2 where "sink_accept_all (logged ?parse) s1 ls = Some (Inr (e2, s2))" using Cons.IH[of s1] by auto
    then show ?case using 1 by simp
  qed simp
  obtain r1 m1 where 1: "mlr_read (\<lambda>l. hd l = CHR ''<'') (new_mlr 0 10) ''<ab'' = (r1, m1)"
    by (cases "mlr_read (\<lambda>l. hd l = CHR ''<'') (new_mlr 0 10) ''<ab''")
  obtain r2 m2 where 2: "mlr_flush_all (\<lambda>l. hd l = CHR ''<'') m1 = (r2, m2)"
    by (cases "mlr_flush_all (\<lambda>l. hd l = CHR ''<'') m1")
  obtain e1 s1 where 3: "sink_accept_all (logged ?parse) (new_parsing_sink ((), []) 5) r1 = Some (Inr (e1, s1))"
    using tot[of "new_parsing_sink ((), []) 5" r1] by auto
  obtain e2 s2 where 4: "sink_accept_all (logged ?parse) s1 r2 = Some (Inr (e2, s2))" using tot[of s1 r2] by auto
  have "\<exists>evs c'. conn_run (logged ?parse) (\<lambda>l. hd l = CHR ''<'') ?c ?reads = Some (Inr (evs, c', False))"
    using 1 2 3 4 by (auto simp: conn_step_def Let_def split: prod.splits)
  then show ?thesis using connection_delivers[of ?c "()" 5 ?parse "\<lambda>l. hd l = CHR ''<''" ?reads] by auto
qed



text \<open>
  The first record of a connection reaches the parser untested, so one line that begins with
  a bracket and a space, followed by the first line of another record, ends the process.
\<close>

theorem first_line_crashes:
  assumes "composite_ok p (sinkParser s)" and "bare_bracket line" and "newline \<notin> set line"
    and "test_record_start next_line" and "newline \<notin> set next_line"
    and "length line + length next_line + 2 + soft \<le> cap" and "cap < 2 ^ 31"
  shows "conn_step (composite_parse env pick p) test_record_start
     \<lparr>connReader = new_mlr cap soft, connSink = s, prevDeadline = d\<rparr>
     \<lparr>readBlock = line @ newline # next_line @ [newline], readError = e, readDeadline = d', readNow = now\<rparr> =
   Some (Inl SliceBounds)"
proof -
  have "next_line \<noteq> []" using assms(4) by (auto simp: test_record_start_def)
  then obtain m where m: "mlr_read test_record_start (new_mlr cap soft) (line @ newline # next_line @ [newline]) = ([line], m)"
    using first_record_untested[of line next_line test_record_start soft cap] assms(3-6) by blast
  have "length line < 2 ^ 31" using assms(6,7) by simp
  from composite_parse_bare[OF assms(1,2) this]
  have "sink_accept_all (composite_parse env pick p) s [line] = Some (Inl SliceBounds)"
    by (simp add: sink_accept_def)
  then show ?thesis using m by (simp add: conn_step_def)
qed

theorem first_line_crashes_witness:
  "\<exists>p st. conn_step (composite_parse \<lparr>compileRegexp = (\<lambda>_. None), localOffset = (\<lambda>_. 0)\<rparr> (\<lambda>_. (None, None)) p)
     test_record_start
     \<lparr>connReader = new_mlr 4096 1024, connSink = new_parsing_sink st 5, prevDeadline = 0\<rparr>
     \<lparr>readBlock = ''< this is not a log record at all'' @ newline # ''<13>1 2020-09-17T16:51:47Z h a p s - hi'' @ [newline],
      readError = NoError, readDeadline = 0, readNow = 7\<rparr> = Some (Inl SliceBounds)"
proof -
  let ?s = "\<lparr>fieldNames = rfc5424_names, maxFields = 9\<rparr>"
  obtain p c where p: "new_syslog_parser ?s [] new_input_counters = Inr (p, c)"
    by (auto simp: new_syslog_parser_def rfc5424_names_def rest_names_def create_field_locator_def)
  let ?a = "new_log_allocator ?s 1"
  let ?st = "\<lparr>csAllocator = ?a, csCounters = c, csExtractions = []\<rparr>"
  have n: "length (fieldNames ?s) = maxFields ?s" by (simp add: rfc5424_names_def)
  have ok: "composite_ok p (sinkParser (new_parsing_sink ?st 5))"
    using new_syslog_parser_ok[OF p] allocator_ok_new[of ?s 1] unfolding n
    by (simp add: composite_ok_def new_log_allocator_def counters_ready_def new_parsing_sink_def)
  have b: "bare_bracket ''< this is not a log record at all''"
    "newline \<notin> set ''< this is not a log record at all''"
    by (simp_all add: bare_bracket_def has_prefix_def)
  have t: "test_record_start ''<13>1 2020-09-17T16:51:47Z h a p s - hi''"
    "newline \<notin> set ''<13>1 2020-09-17T16:51:47Z h a p s - hi''"
    by (simp_all add: test_record_start_def is_digit_def ends_pri_def)
  have l: "length ''< this is not a log record at all'' + length ''<13>1 2020-09-17T16:51:47Z h a p s - hi'' + 2 + 1024 \<le> 4096"
    "(4096 :: nat) < 2 ^ 31" by simp_all
  show ?thesis using first_line_crashes[OF ok b t l] by blast
qed

end
