(* ===== verification/Chunk_Store.thy ===== *)
theory Chunk_Store
  imports Log_Record "HOL-Library.AList"
begin

text \<open>
  Chunks on disk: \<open>buffer/hybridbuffer/chunkoperator.go\<close> (loading, unloading, removing and
  scanning of chunk files, with the gauges that account for them), \<open>chunkmanager.go\<close> (the counters
  on top), and the file functions of \<open>util/files.go\<close> they use. A directory is an association list
  from file names to contents, in the order the operating system lists it. Whether a system call
  succeeds is an argument of each operation: a write may fail before or after writing some bytes,
  or write fewer bytes than asked without an error. The gauges are 64-bit in the code; they count
  files and bytes that exist and are integers here. The locale \<open>chunk_storage\<close> is what the buffer
  relies on: unloading and loading keep the payload of every chunk.
\<close>

section \<open>Files\<close>

type_synonym file_dir = "(bytes \<times> bytes) list"

datatype write_io = WriteFull | WriteOpenError | WriteError nat | WriteShort nat

definition read_file_at :: "bool \<Rightarrow> file_dir \<Rightarrow> bytes \<Rightarrow> bytes option" where
  "read_file_at io dir name = (if io then map_of dir name else None)"

text \<open>The size of an existing file.\<close>

definition stat_file_at :: "bool \<Rightarrow> file_dir \<Rightarrow> bytes \<Rightarrow> nat option" where
  "stat_file_at io dir name = (if io then map_option length (map_of dir name) else None)"

definition unlink_file_at :: "bool \<Rightarrow> file_dir \<Rightarrow> bytes \<Rightarrow> file_dir option" where
  "unlink_file_at io dir name = (if io \<and> map_of dir name \<noteq> None then Some (AList.delete name dir) else None)"

text \<open>The new directory and whether an error is returned: a short count is not an error.\<close>

fun write_file_at :: "write_io \<Rightarrow> file_dir \<Rightarrow> bytes \<Rightarrow> bytes \<Rightarrow> file_dir \<times> bool" where
  "write_file_at WriteFull dir name data = (AList.update name data dir, True)"
| "write_file_at WriteOpenError dir name data = (dir, False)"
| "write_file_at (WriteError n) dir name data = (AList.update name (take n data) dir, False)"
| "write_file_at (WriteShort n) dir name data = (AList.update name (take n data) dir, True)"

section \<open>The chunk operator\<close>

record chunk_operator =
  maybeDir :: "file_dir option"
  matchChunkID :: "bytes \<Rightarrow> bool"
  persistentChunks :: int
  persistentChunkBytes :: int
  ioErrorsTotal :: int
  maxTotalBytes :: int

text \<open>The argument is the result of \<open>os.Open\<close>.\<close>

definition new_chunk_operator :: "file_dir option \<Rightarrow> (bytes \<Rightarrow> bool) \<Rightarrow> int \<Rightarrow> chunk_operator" where
  "new_chunk_operator opened match maxBytes =
     \<lparr>maybeDir = opened, matchChunkID = match, persistentChunks = 0, persistentChunkBytes = 0,
      ioErrorsTotal = (if opened = None then 1 else 0), maxTotalBytes = maxBytes\<rparr>"

definition has_dir :: "chunk_operator \<Rightarrow> bool" where
  "has_dir op = (maybeDir op \<noteq> None)"

definition io_error :: "chunk_operator \<Rightarrow> chunk_operator" where
  "io_error op = op\<lparr>ioErrorsTotal := ioErrorsTotal op + 1\<rparr>"

text \<open>Whether seeking and listing succeed are arguments.\<close>

definition count_existing_chunks :: "bool \<Rightarrow> bool \<Rightarrow> chunk_operator \<Rightarrow> nat \<times> chunk_operator" where
  "count_existing_chunks seekOk readOk op =
     (case maybeDir op of
        None \<Rightarrow> (0, op)
      | Some dir \<Rightarrow>
          if \<not> seekOk then (0, io_error op)
          else if \<not> readOk then (0, io_error op)
          else (length (filter (matchChunkID op) (map fst dir)), op))"

definition idFileName :: bytes where
  "idFileName = ''.id''"

definition scan_existing_chunks :: "bool \<Rightarrow> bool \<Rightarrow> chunk_operator \<Rightarrow> log_chunk list \<times> chunk_operator" where
  "scan_existing_chunks seekOk readOk op =
     (case maybeDir op of
        None \<Rightarrow> ([], op)
      | Some dir \<Rightarrow>
          let op1 = (if seekOk then op else io_error op) in
          if \<not> readOk then ([], io_error op1)
          else (map (\<lambda>fn. \<lparr>chunk_id = fn, chunk_data = None, chunk_saved = True\<rparr>)
                  (filter (\<lambda>fn. fn \<noteq> idFileName \<and> matchChunkID op1 fn) (sort (map fst dir))), op1))"

text \<open>\<open>LoadChunk\<close> and \<open>UnloadChunk\<close>: the chunk as the call leaves it, the result, the operator.\<close>

definition load_chunk :: "bool \<Rightarrow> log_chunk \<Rightarrow> chunk_operator \<Rightarrow> log_chunk \<times> bool \<times> chunk_operator" where
  "load_chunk io c op =
     (if chunk_data c \<noteq> None then (c, True, op)
      else if \<not> chunk_saved c then (c, False, op)
      else case maybeDir op of
             None \<Rightarrow> (c, False, op)
           | Some dir \<Rightarrow>
               (case read_file_at io dir (chunk_id c) of
                  None \<Rightarrow> (c, False, io_error op)
                | Some data \<Rightarrow> (c\<lparr>chunk_data := Some data\<rparr>, True, op)))"

definition unload_chunk :: "write_io \<Rightarrow> log_chunk \<Rightarrow> chunk_operator \<Rightarrow> log_chunk \<times> bool \<times> chunk_operator" where
  "unload_chunk io c op =
     (if chunk_saved c then (c, True, op)
      else case chunk_data c of
             None \<Rightarrow> (c, False, op)
           | Some data \<Rightarrow>
               (case maybeDir op of
                  None \<Rightarrow> (c, False, op)
                | Some dir \<Rightarrow>
                    if persistentChunkBytes op + int (length data) > maxTotalBytes op then (c, False, op)
                    else
                      let (dir', ok) = write_file_at io dir (chunk_id c) data in
                      if \<not> ok then (c, False, io_error (op\<lparr>maybeDir := Some dir'\<rparr>))
                      else (c\<lparr>chunk_data := None, chunk_saved := True\<rparr>, True,
                            op\<lparr>maybeDir := Some dir', persistentChunks := persistentChunks op + 1,
                               persistentChunkBytes := persistentChunkBytes op + int (length data)\<rparr>)))"

definition forget_chunk :: "log_chunk \<Rightarrow> chunk_operator \<Rightarrow> chunk_operator" where
  "forget_chunk c op =
     op\<lparr>persistentChunks := persistentChunks op - 1,
        persistentChunkBytes := persistentChunkBytes op - int (data_len c)\<rparr>"

definition remove_chunk :: "bool \<Rightarrow> log_chunk \<Rightarrow> chunk_operator \<Rightarrow> chunk_operator" where
  "remove_chunk io c op =
     (if \<not> chunk_saved c then op
      else case maybeDir op of
             None \<Rightarrow> op
           | Some dir \<Rightarrow>
               (case unlink_file_at io dir (chunk_id c) of
                  None \<Rightarrow> io_error op
                | Some dir' \<Rightarrow> forget_chunk c (op\<lparr>maybeDir := Some dir'\<rparr>)))"

definition op_chunk_dropped :: "log_chunk \<Rightarrow> chunk_operator \<Rightarrow> chunk_operator" where
  "op_chunk_dropped c op = (if \<not> chunk_saved c then op else forget_chunk c op)"

definition op_chunk_recovered :: "bool \<Rightarrow> log_chunk \<Rightarrow> chunk_operator \<Rightarrow> chunk_operator" where
  "op_chunk_recovered io c op =
     (let op1 = op\<lparr>persistentChunks := persistentChunks op + 1\<rparr> in
      case maybeDir op1 of
        None \<Rightarrow> op1
      | Some dir \<Rightarrow>
          (case stat_file_at io dir (chunk_id c) of
             None \<Rightarrow> io_error op1
           | Some n \<Rightarrow> op1\<lparr>persistentChunkBytes := persistentChunkBytes op1 + int n\<rparr>))"

section \<open>The chunk manager\<close>

record chunk_manager =
  operator :: chunk_operator
  sendAllAtEnd :: bool
  pendingChunkCount :: int
  inputTransient :: int
  inputPersistent :: int
  consumedTotal :: int
  leftoverTotal :: int
  droppedTotal :: int

definition new_chunk_manager :: "chunk_operator \<Rightarrow> bool \<Rightarrow> chunk_manager" where
  "new_chunk_manager op sendAll =
     \<lparr>operator = op, sendAllAtEnd = (sendAll \<or> \<not> has_dir op), pendingChunkCount = 0, inputTransient = 0,
      inputPersistent = 0, consumedTotal = 0, leftoverTotal = 0, droppedTotal = 0\<rparr>"

definition on_chunk_dropped :: "log_chunk \<Rightarrow> chunk_manager \<Rightarrow> chunk_manager" where
  "on_chunk_dropped c man =
     man\<lparr>operator := op_chunk_dropped c (operator man), pendingChunkCount := pendingChunkCount man - 1,
         droppedTotal := droppedTotal man + 1\<rparr>"

definition load_or_drop_chunk :: "bool \<Rightarrow> log_chunk \<Rightarrow> chunk_manager \<Rightarrow> log_chunk \<times> bool \<times> chunk_manager" where
  "load_or_drop_chunk io c man =
     (let (c', ok, op') = load_chunk io c (operator man); man' = man\<lparr>operator := op'\<rparr> in
      (c', ok, if ok then man' else on_chunk_dropped c' man'))"

definition unload_or_drop_chunk :: "write_io \<Rightarrow> log_chunk \<Rightarrow> chunk_manager \<Rightarrow> log_chunk \<times> bool \<times> chunk_manager" where
  "unload_or_drop_chunk io c man =
     (let (c', ok, op') = unload_chunk io c (operator man); man' = man\<lparr>operator := op'\<rparr> in
      (c', ok, if ok then man' else on_chunk_dropped c' man'))"

definition on_chunk_input :: "bool \<Rightarrow> chunk_manager \<Rightarrow> chunk_manager" where
  "on_chunk_input loaded man =
     (let man' = man\<lparr>pendingChunkCount := pendingChunkCount man + 1\<rparr> in
      if loaded then man'\<lparr>inputTransient := inputTransient man' + 1\<rparr>
      else man'\<lparr>inputPersistent := inputPersistent man' + 1\<rparr>)"

definition on_chunk_input_recovered :: "bool \<Rightarrow> log_chunk \<Rightarrow> chunk_manager \<Rightarrow> chunk_manager" where
  "on_chunk_input_recovered io c man =
     man\<lparr>operator := op_chunk_recovered io c (operator man), pendingChunkCount := pendingChunkCount man + 1,
         inputPersistent := inputPersistent man + 1\<rparr>"

definition on_chunk_consumed :: "bool \<Rightarrow> log_chunk \<Rightarrow> chunk_manager \<Rightarrow> chunk_manager" where
  "on_chunk_consumed io c man =
     man\<lparr>operator := remove_chunk io c (operator man), pendingChunkCount := pendingChunkCount man - 1,
         consumedTotal := consumedTotal man + 1\<rparr>"

text \<open>The result of unloading a leftover is ignored.\<close>

definition on_chunk_leftover :: "write_io \<Rightarrow> log_chunk \<Rightarrow> chunk_manager \<Rightarrow> chunk_manager" where
  "on_chunk_leftover io c man =
     man\<lparr>operator := snd (snd (unload_chunk io c (operator man))), pendingChunkCount := pendingChunkCount man - 1,
         leftoverTotal := leftoverTotal man + 1\<rparr>"

definition on_chunk_corrupted :: "bool \<Rightarrow> log_chunk \<Rightarrow> chunk_manager \<Rightarrow> chunk_manager" where
  "on_chunk_corrupted io c man =
     man\<lparr>operator := remove_chunk io c (operator man), pendingChunkCount := pendingChunkCount man - 1,
         droppedTotal := droppedTotal man + 1\<rparr>"

text \<open>Closing counts the files that remain.\<close>

definition close_manager :: "bool \<Rightarrow> bool \<Rightarrow> bool \<Rightarrow> chunk_manager \<Rightarrow> nat \<times> chunk_manager" where
  "close_manager seekOk readOk closeOk man =
     (let (n, op) = count_existing_chunks seekOk readOk (operator man) in
      (n, man\<lparr>operator := (if has_dir op \<and> \<not> closeOk then io_error op else op)\<rparr>))"

section \<open>What a chunk stands for\<close>

text \<open>
  A chunk stands for the payload \<open>d\<close> when its data, where it is loaded, is \<open>d\<close>, and its file,
  where it is saved, holds \<open>d\<close>; one of the two must be there.
\<close>

definition chunk_file :: "chunk_operator \<Rightarrow> bytes \<Rightarrow> bytes option" where
  "chunk_file op name = Option.bind (maybeDir op) (\<lambda>dir. map_of dir name)"

definition op_intact :: "chunk_operator \<Rightarrow> log_chunk \<Rightarrow> bytes \<Rightarrow> bool" where
  "op_intact op c d =
     ((case chunk_data c of None \<Rightarrow> chunk_saved c | Some data \<Rightarrow> data = d) \<and>
      (chunk_saved c \<longrightarrow> chunk_file op (chunk_id c) = Some d))"

fun full_write :: "write_io \<Rightarrow> bool" where
  "full_write (WriteShort n) = False"
| "full_write _ = True"

locale chunk_storage =
  fixes intact :: "'s \<Rightarrow> log_chunk \<Rightarrow> bytes \<Rightarrow> bool"
    and load :: "'r \<Rightarrow> log_chunk \<Rightarrow> 's \<Rightarrow> log_chunk \<times> bool \<times> 's"
    and unload :: "'w \<Rightarrow> log_chunk \<Rightarrow> 's \<Rightarrow> log_chunk \<times> bool \<times> 's"
    and remove :: "'r \<Rightarrow> log_chunk \<Rightarrow> 's \<Rightarrow> 's"
    and reliable :: "'w \<Rightarrow> bool"
  assumes load_keeps: "load r c st = (c', ok, st') \<Longrightarrow> intact st x d \<Longrightarrow> intact st' x d"
    and load_id: "load r c st = (c', ok, st') \<Longrightarrow> chunk_id c' = chunk_id c"
    and load_same: "load r c st = (c', True, st') \<Longrightarrow> intact st c d \<Longrightarrow> intact st' c' d \<and> chunk_data c' = Some d"
    and unload_keeps: "unload io c st = (c', ok, st') \<Longrightarrow> intact st x d \<Longrightarrow> chunk_id x \<noteq> chunk_id c \<Longrightarrow> intact st' x d"
    and unload_id: "unload io c st = (c', ok, st') \<Longrightarrow> chunk_id c' = chunk_id c"
    and unload_same: "unload io c st = (c', True, st') \<Longrightarrow> reliable io \<Longrightarrow> intact st c d \<Longrightarrow> intact st' c' d \<and> chunk_saved c'"
    and remove_keeps: "intact st x d \<Longrightarrow> chunk_id x \<noteq> chunk_id c \<Longrightarrow> intact (remove r c st) x d"
begin

text \<open>The same for a collection of chunks, each standing for what \<open>f\<close> gives for its ID.\<close>

lemma load_all:
  "load r c st = (c', ok, st') \<Longrightarrow> \<forall>x \<in> X. intact st x (f (chunk_id x)) \<Longrightarrow> \<forall>x \<in> X. intact st' x (f (chunk_id x))"
  using load_keeps by blast

lemma unload_all:
  "unload io c st = (c', ok, st') \<Longrightarrow> \<forall>x \<in> X. intact st x (f (chunk_id x)) \<Longrightarrow> chunk_id c \<notin> chunk_id ` X \<Longrightarrow>
    \<forall>x \<in> X. intact st' x (f (chunk_id x))"
  using unload_keeps by (metis image_eqI)

lemma remove_all:
  "\<forall>x \<in> X. intact st x (f (chunk_id x)) \<Longrightarrow> chunk_id c \<notin> chunk_id ` X \<Longrightarrow>
    \<forall>x \<in> X. intact (remove r c st) x (f (chunk_id x))"
  using remove_keeps by (metis image_eqI)

text \<open>A chunk unloaded, and loaded again after other chunks came and went, has its data back.\<close>

lemma unload_load:
  assumes "unload w c st = (c1, True, st1)" and "reliable w" and "intact st c d"
    and "unload w' x st1 = (x', ok, st2)" and "chunk_id x \<noteq> chunk_id c"
    and "load r c1 (remove r' x' st2) = (c2, True, st3)"
  shows "chunk_data c2 = Some d \<and> chunk_id c2 = chunk_id c"
proof -
  have i: "intact st1 c1 d" "chunk_id c1 = chunk_id c" using unload_same[OF assms(1-3)] unload_id[OF assms(1)] by auto
  then have "intact st2 c1 d" using unload_keeps[OF assms(4)] assms(5) by metis
  then have "intact (remove r' x' st2) c1 d" using remove_keeps unload_id[OF assms(4)] assms(5) i(2) by metis
  then show ?thesis using load_same[OF assms(6)] load_id[OF assms(6)] i(2) by auto
qed

end

subsection \<open>The operator and the manager implement it\<close>

lemma chunk_file_simps [simp]:
  "chunk_file (io_error op) name = chunk_file op name"
  "chunk_file (forget_chunk c op) name = chunk_file op name"
  "chunk_file (op\<lparr>persistentChunks := n\<rparr>) name = chunk_file op name"
  "chunk_file (op\<lparr>persistentChunkBytes := m\<rparr>) name = chunk_file op name"
  by (simp_all add: chunk_file_def io_error_def forget_chunk_def)

lemma op_intact_mono:
  "op_intact op x d \<Longrightarrow> (chunk_saved x \<Longrightarrow> chunk_file op' (chunk_id x) = chunk_file op (chunk_id x)) \<Longrightarrow> op_intact op' x d"
  by (auto simp: op_intact_def)

lemma load_chunk_facts:
  assumes "load_chunk io c op = (c', ok, op')"
  shows "chunk_id c' = chunk_id c \<and> chunk_file op' name = chunk_file op name"
    and "ok \<Longrightarrow> op_intact op c d \<Longrightarrow> op_intact op c' d \<and> chunk_data c' = Some d"
  using assms
  by (auto simp: load_chunk_def op_intact_def chunk_file_def read_file_at_def io_error_def
      split: if_splits option.splits)

lemma write_file_at_other:
  "write_file_at io dir name data = (dir', ok) \<Longrightarrow> x \<noteq> name \<Longrightarrow> map_of dir' x = map_of dir x"
  by (cases io) (auto simp: update_conv')

lemma write_file_at_same:
  "write_file_at io dir name data = (dir', True) \<Longrightarrow> full_write io \<Longrightarrow> map_of dir' name = Some data"
  by (cases io) (auto simp: update_conv')

lemma unload_chunk_other:
  assumes "unload_chunk io c op = (c', ok, op')"
  shows "chunk_id c' = chunk_id c" and "x \<noteq> chunk_id c \<Longrightarrow> chunk_file op' x = chunk_file op x"
  using assms
  by (auto simp: unload_chunk_def chunk_file_def io_error_def Let_def write_file_at_other
      split: if_splits option.splits prod.splits)

lemma unload_chunk_same:
  assumes "unload_chunk io c op = (c', True, op')" and "full_write io" and "op_intact op c d"
  shows "op_intact op' c' d \<and> chunk_saved c'"
  using assms
  by (auto simp: unload_chunk_def op_intact_def chunk_file_def Let_def write_file_at_same
      split: if_splits option.splits prod.splits)

lemma remove_chunk_other: "x \<noteq> chunk_id c \<Longrightarrow> chunk_file (remove_chunk io c op) x = chunk_file op x"
proof (cases "maybeDir op")
  case (Some dir)
  assume "x \<noteq> chunk_id c"
  then show ?thesis using Some
    by (auto simp: remove_chunk_def unlink_file_at_def chunk_file_def io_error_def forget_chunk_def
        delete_conv' split: option.splits)
qed (simp add: remove_chunk_def)

interpretation disk: chunk_storage op_intact load_chunk unload_chunk remove_chunk full_write
proof
  fix io c st c' ok st' x d
  assume l: "load_chunk io c st = (c', ok, st')"
  show "op_intact st x d \<Longrightarrow> op_intact st' x d"
    using load_chunk_facts(1)[OF l] by (rule_tac op_intact_mono) auto
  show "chunk_id c' = chunk_id c" using load_chunk_facts(1)[OF l] by simp
next
  fix io c st c' st' d
  assume "load_chunk io c st = (c', True, st')" "op_intact st c d"
  then show "op_intact st' c' d \<and> chunk_data c' = Some d"
    using load_chunk_facts[of io c st c' True st'] op_intact_mono by blast
next
  fix io c st c' ok st' x d
  assume u: "unload_chunk io c st = (c', ok, st')"
  show "op_intact st x d \<Longrightarrow> chunk_id x \<noteq> chunk_id c \<Longrightarrow> op_intact st' x d"
    using unload_chunk_other(2)[OF u] by (rule_tac op_intact_mono) auto
  show "chunk_id c' = chunk_id c" using unload_chunk_other(1)[OF u] .
next
  fix io c st c' st' d
  assume "unload_chunk io c st = (c', True, st')" "full_write io" "op_intact st c d"
  then show "op_intact st' c' d \<and> chunk_saved c'" by (rule unload_chunk_same)
next
  fix st :: chunk_operator and x c :: log_chunk and d io
  assume "op_intact st x d" "chunk_id x \<noteq> chunk_id c"
  then show "op_intact (remove_chunk io c st) x d"
    by (rule_tac op_intact_mono) (auto simp: remove_chunk_other)
qed

definition man_intact :: "chunk_manager \<Rightarrow> log_chunk \<Rightarrow> bytes \<Rightarrow> bool" where
  "man_intact man = op_intact (operator man)"

lemma op_intact_dropped [simp]: "op_intact (op_chunk_dropped c op) x d = op_intact op x d"
  by (simp add: op_chunk_dropped_def op_intact_def)

interpretation managed: chunk_storage man_intact load_or_drop_chunk unload_or_drop_chunk on_chunk_consumed full_write
  by unfold_locales
    (auto simp: load_or_drop_chunk_def unload_or_drop_chunk_def on_chunk_dropped_def on_chunk_consumed_def
      man_intact_def Let_def
      dest: disk.load_keeps disk.load_id disk.load_same disk.unload_keeps disk.unload_id disk.unload_same
      intro: disk.remove_keeps split: prod.splits if_splits)

end
