(* ===== verification/Hybrid_Buffer.thy ===== *)
theory Hybrid_Buffer
  imports Chunk_Store
begin

text \<open>
  The hybrid buffer: \<open>buffer/hybridbuffer/bufferer.go\<close> (accepting chunks into the persistent
  queue, unloading them while the output is slow, recovery and shutdown) and
  \<open>outputfeeder.go\<close> (the goroutine that loads chunks for the consumers and saves everything at
  the end). The callers of \<open>Accept\<close> and \<open>Destroy\<close>, the feeder and the consumers interleave;
  \<open>buffer_step\<close> gives the state after an event, which names the outcome of the system calls. A
  consumer takes chunks from the output channel, reports each one it took as consumed or as left
  over, and finishes holding none, which is what the forwarding client keeps
  (theory \<open>Client_Session\<close>). The chunks held by all consumers are one list. The logs at the end of
  the record are what happened so far, for the theorems; the code does not read them.
\<close>

definition BufferMaxNumChunksInQueue :: nat where
  "BufferMaxNumChunksInQueue = 500000"

definition BufferMaxNumChunksInMemory :: nat where
  "BufferMaxNumChunksInMemory = 500"

section \<open>State\<close>

text \<open>The variable \<open>lastInputChunk\<close> of \<open>Run\<close> starts as the zero value.\<close>

definition zero_chunk :: log_chunk where
  "zero_chunk = \<lparr>chunk_id = [], chunk_data = None, chunk_saved = False\<rparr>"

text \<open>
  Where the feeder stands; \<open>FeederOffer\<close> has the chunk as read from the queue and as loaded.
\<close>

datatype feeder_pc =
    FeederLoop
  | FeederOffer log_chunk log_chunk
  | SavingInput log_chunk
  | SavingLast log_chunk
  | SavingOutput
  | WaitConsumers
  | FeederStopped

record bufferer =
  chunkMan :: chunk_manager
  bufInput :: "log_chunk list"
  bufInputClosed :: bool
  bufStopSignal :: bool
  queuedTransient :: int
  queuedPersistent :: int
  bufOutput :: "log_chunk list"
  bufOutputClosed :: bool
  feederPc :: feeder_pc
  consumerCount :: nat
  consumerHand :: "log_chunk list"
  acceptedLog :: "(bytes \<times> bytes) list"
  deliveredLog :: "log_chunk list"
  consumedLog :: "log_chunk list"
  leftLog :: "log_chunk list"
  savedLog :: "log_chunk list"
  lostLog :: "log_chunk list"
  shortWrites :: bool

definition new_bufferer :: "file_dir option \<Rightarrow> (bytes \<Rightarrow> bool) \<Rightarrow> int \<Rightarrow> bool \<Rightarrow> bufferer" where
  "new_bufferer opened match maxBytes sendAll =
     \<lparr>chunkMan = new_chunk_manager (new_chunk_operator opened match maxBytes) sendAll,
      bufInput = [], bufInputClosed = False, bufStopSignal = False, queuedTransient = 0,
      queuedPersistent = 0, bufOutput = [], bufOutputClosed = False, feederPc = FeederLoop,
      consumerCount = 0, consumerHand = [], acceptedLog = [], deliveredLog = [], consumedLog = [],
      leftLog = [], savedLog = [], lostLog = [], shortWrites = False\<rparr>"

section \<open>Recovery and input\<close>

text \<open>
  \<open>recoverExistingChunks\<close>; \<open>statOk\<close> tells for which files \<open>StatFileAt\<close> succeeds. The log gets the
  file with its content.
\<close>

fun recover_loop :: "(bytes \<Rightarrow> bool) \<Rightarrow> log_chunk list \<Rightarrow> bufferer \<Rightarrow> bufferer" where
  "recover_loop statOk [] b = b"
| "recover_loop statOk (c # cs) b =
     (if length (bufInput b) < BufferMaxNumChunksInQueue
      then recover_loop statOk cs
        (b\<lparr>bufInput := bufInput b @ [c],
           chunkMan := on_chunk_input_recovered (statOk (chunk_id c)) c (chunkMan b),
           queuedPersistent := queuedPersistent b + 1,
           acceptedLog := acceptedLog b @ [(chunk_id c, the (chunk_file (operator (chunkMan b)) (chunk_id c)))]\<rparr>)
      else b)"

definition recover_existing_chunks :: "bool \<Rightarrow> bool \<Rightarrow> (bytes \<Rightarrow> bool) \<Rightarrow> bufferer \<Rightarrow> bufferer" where
  "recover_existing_chunks seekOk readOk statOk b =
     (let (cs, op) = scan_existing_chunks seekOk readOk (operator (chunkMan b))
      in recover_loop statOk cs (b\<lparr>chunkMan := chunkMan b\<lparr>operator := op\<rparr>\<rparr>))"

text \<open>
  \<open>Accept\<close>. Sending on the closed channel would panic, whether or not there is a default branch.
\<close>

definition enqueue :: "log_chunk \<Rightarrow> bufferer \<Rightarrow> bufferer go" where
  "enqueue c b =
     (if bufInputClosed b then Inl SendOnClosedChannel
      else if length (bufInput b) < BufferMaxNumChunksInQueue then
        Inr (if chunk_data c \<noteq> None
             then b\<lparr>bufInput := bufInput b @ [c], queuedTransient := queuedTransient b + 1\<rparr>
             else b\<lparr>bufInput := bufInput b @ [c], queuedPersistent := queuedPersistent b + 1\<rparr>)
      else Inr (b\<lparr>chunkMan := on_chunk_dropped c (chunkMan b), lostLog := lostLog b @ [c]\<rparr>))"

definition mark_short :: "write_io \<Rightarrow> bufferer \<Rightarrow> bufferer" where
  "mark_short io b = b\<lparr>shortWrites := (shortWrites b \<or> \<not> full_write io)\<rparr>"

definition buf_accept :: "write_io \<Rightarrow> log_chunk \<Rightarrow> bufferer \<Rightarrow> bufferer go" where
  "buf_accept io c b0 =
     (let b = mark_short io (b0\<lparr>acceptedLog := acceptedLog b0 @ [(chunk_id c, the (chunk_data c))]\<rparr>) in
      if length (bufOutput b) \<ge> BufferMaxNumChunksInMemory div 2 then
        (let (c', ok, man) = unload_or_drop_chunk io c (on_chunk_input False (chunkMan b)) in
         if ok then enqueue c' (b\<lparr>chunkMan := man\<rparr>)
         else Inr (b\<lparr>chunkMan := man, lostLog := lostLog b @ [c']\<rparr>))
      else enqueue c (b\<lparr>chunkMan := on_chunk_input True (chunkMan b)\<rparr>))"

section \<open>The feeder\<close>

text \<open>Closing the output and signalling it; the saving of what is left follows.\<close>

definition begin_cleanup :: "log_chunk \<Rightarrow> bufferer \<Rightarrow> bufferer" where
  "begin_cleanup lastInputChunk b = b\<lparr>bufOutputClosed := True, feederPc := SavingInput lastInputChunk\<rparr>"

text \<open>One round of the main loop up to the \<open>select\<close> of \<open>loadToOutput\<close>.\<close>

definition feeder_take :: "bool \<Rightarrow> bool \<Rightarrow> bufferer \<Rightarrow> bufferer option" where
  "feeder_take readOk unlinkOk b =
     (case bufInput b of
        [] \<Rightarrow> if bufInputClosed b then Some (begin_cleanup zero_chunk b) else None
      | c # cs \<Rightarrow>
          let b1 = (if chunk_data c \<noteq> None
                    then b\<lparr>bufInput := cs, queuedTransient := queuedTransient b - 1\<rparr>
                    else b\<lparr>bufInput := cs, queuedPersistent := queuedPersistent b - 1\<rparr>);
              (c', ok, man) = load_or_drop_chunk readOk c (chunkMan b1) in
          if \<not> ok then Some (b1\<lparr>chunkMan := man, lostLog := lostLog b1 @ [c']\<rparr>)
          else if data_len c' = 0
          then Some (b1\<lparr>chunkMan := on_chunk_corrupted unlinkOk c' man, lostLog := lostLog b1 @ [c']\<rparr>)
          else Some (b1\<lparr>chunkMan := man, feederPc := FeederOffer c c'\<rparr>))"

definition feeder_offer :: "log_chunk \<Rightarrow> bufferer \<Rightarrow> bufferer option" where
  "feeder_offer c b =
     (if length (bufOutput b) < BufferMaxNumChunksInMemory
      then Some (b\<lparr>bufOutput := bufOutput b @ [c], feederPc := FeederLoop\<rparr>) else None)"

definition feeder_abort :: "log_chunk \<Rightarrow> bufferer \<Rightarrow> bufferer option" where
  "feeder_abort orig b = (if bufStopSignal b then Some (begin_cleanup orig b) else None)"

text \<open>\<open>saveEverything\<close>: the input queue, the chunk in hand, the output queue.\<close>

definition save_chunk :: "write_io \<Rightarrow> log_chunk \<Rightarrow> bufferer \<Rightarrow> bufferer" where
  "save_chunk io c b0 =
     (let b = mark_short io b0; (c', ok, man) = unload_or_drop_chunk io c (chunkMan b) in
      if ok then b\<lparr>chunkMan := man, savedLog := savedLog b @ [c']\<rparr>
      else b\<lparr>chunkMan := man, lostLog := lostLog b @ [c']\<rparr>)"

definition save_input :: "write_io \<Rightarrow> log_chunk \<Rightarrow> bufferer \<Rightarrow> bufferer option" where
  "save_input io lastInputChunk b =
     (case bufInput b of
        [] \<Rightarrow> if bufInputClosed b then Some (b\<lparr>feederPc := SavingLast lastInputChunk\<rparr>) else None
      | c # cs \<Rightarrow> Some (save_chunk io c (b\<lparr>bufInput := cs\<rparr>)))"

definition save_last :: "write_io \<Rightarrow> log_chunk \<Rightarrow> bufferer \<Rightarrow> bufferer" where
  "save_last io lastInputChunk b =
     (if chunk_id lastInputChunk \<noteq> [] then save_chunk io lastInputChunk (b\<lparr>feederPc := SavingOutput\<rparr>)
      else b\<lparr>feederPc := SavingOutput\<rparr>)"

definition save_output :: "write_io \<Rightarrow> bufferer \<Rightarrow> bufferer" where
  "save_output io b =
     (case bufOutput b of
        [] \<Rightarrow> b\<lparr>feederPc := WaitConsumers\<rparr>
      | c # cs \<Rightarrow> save_chunk io c (b\<lparr>bufOutput := cs\<rparr>))"

definition feeder_end :: "bool \<Rightarrow> bool \<Rightarrow> bool \<Rightarrow> bufferer \<Rightarrow> bufferer option" where
  "feeder_end seekOk readOk closeOk b =
     (if consumerCount b = 0
      then Some (b\<lparr>chunkMan := snd (close_manager seekOk readOk closeOk (chunkMan b)), feederPc := FeederStopped\<rparr>)
      else None)"

datatype feeder_event =
    Take bool bool | Offer | Abort | Save write_io | EndWait bool bool bool

definition feeder_step :: "feeder_event \<Rightarrow> bufferer \<Rightarrow> bufferer option" where
  "feeder_step ev b =
     (case (feederPc b, ev) of
        (FeederLoop, Take readOk unlinkOk) \<Rightarrow> feeder_take readOk unlinkOk b
      | (FeederOffer orig c, Offer) \<Rightarrow> feeder_offer c b
      | (FeederOffer orig c, Abort) \<Rightarrow> feeder_abort orig b
      | (SavingInput l, Save io) \<Rightarrow> save_input io l b
      | (SavingLast l, Save io) \<Rightarrow> Some (save_last io l b)
      | (SavingOutput, Save io) \<Rightarrow> Some (save_output io b)
      | (WaitConsumers, EndWait seekOk readOk closeOk) \<Rightarrow> feeder_end seekOk readOk closeOk b
      | _ \<Rightarrow> None)"

section \<open>The whole buffer\<close>

datatype buffer_event =
    Accept write_io log_chunk
  | CloseInputChannel
  | SignalInputClosed
  | Feeder feeder_event
  | RegisterConsumer
  | ConsumerTake
  | ChunkConsumed bool log_chunk
  | ChunkLeft write_io log_chunk
  | ConsumerFinished

text \<open>
  \<open>Destroy\<close> closes the input channel and then signals \<open>inputClosed\<close>; \<open>Accept\<close> is not called after
  it has begun. The chunks given to \<open>Accept\<close> come from a chunk maker: they have data and are not
  saved.
\<close>

fun buffer_step :: "buffer_event \<Rightarrow> bufferer \<Rightarrow> bufferer option" where
  "buffer_step (Accept io c) b =
     (if chunk_data c = None \<or> chunk_saved c then None
      else case buf_accept io c b of Inl p \<Rightarrow> None | Inr b' \<Rightarrow> Some b')"
| "buffer_step CloseInputChannel b = (if bufInputClosed b then None else Some (b\<lparr>bufInputClosed := True\<rparr>))"
| "buffer_step SignalInputClosed b = (if bufInputClosed b then Some (b\<lparr>bufStopSignal := True\<rparr>) else None)"
| "buffer_step (Feeder ev) b = feeder_step ev b"
| "buffer_step RegisterConsumer b =
     (if feederPc b = FeederLoop then Some (b\<lparr>consumerCount := consumerCount b + 1\<rparr>) else None)"
| "buffer_step ConsumerTake b =
     (case bufOutput b of
        [] \<Rightarrow> None
      | c # cs \<Rightarrow>
          if consumerCount b = 0 then None
          else Some (b\<lparr>bufOutput := cs, consumerHand := consumerHand b @ [c], deliveredLog := deliveredLog b @ [c]\<rparr>))"
| "buffer_step (ChunkConsumed unlinkOk c) b =
     (if c \<in> set (consumerHand b)
      then Some (b\<lparr>consumerHand := remove1 c (consumerHand b), consumedLog := consumedLog b @ [c],
                   chunkMan := on_chunk_consumed unlinkOk c (chunkMan b)\<rparr>)
      else None)"
| "buffer_step (ChunkLeft io c) b =
     (if c \<in> set (consumerHand b)
      then let (c', ok, op) = unload_chunk io c (operator (chunkMan b));
               b1 = (mark_short io b)\<lparr>consumerHand := remove1 c (consumerHand b),
                       chunkMan := on_chunk_leftover io c (chunkMan b)\<rparr> in
           Some (if ok then b1\<lparr>leftLog := leftLog b1 @ [c']\<rparr> else b1\<lparr>lostLog := lostLog b1 @ [c']\<rparr>)
      else None)"
| "buffer_step ConsumerFinished b =
     (if 0 < consumerCount b \<and> (consumerCount b = 1 \<longrightarrow> consumerHand b = [])
      then Some (b\<lparr>consumerCount := consumerCount b - 1\<rparr>) else None)"

fun buffer_run :: "buffer_event list \<Rightarrow> bufferer \<Rightarrow> bufferer option" where
  "buffer_run [] b = Some b"
| "buffer_run (ev # evs) b = Option.bind (buffer_step ev b) (buffer_run evs)"

text \<open>
  The states of a buffer that was created on a directory, started, and then used. A directory has
  no two entries of the same name.
\<close>

inductive buffer_reachable :: "file_dir option \<Rightarrow> bufferer \<Rightarrow> bool" for opened where
  start: "(\<And>dir. opened = Some dir \<Longrightarrow> distinct (map fst dir)) \<Longrightarrow>
     buffer_reachable opened
       (recover_existing_chunks seekOk readOk statOk (new_bufferer opened match maxBytes sendAll))"
| step: "buffer_reachable opened b \<Longrightarrow> buffer_step ev b = Some b' \<Longrightarrow> buffer_reachable opened b'"

section \<open>Where the chunks are\<close>

fun hand :: "feeder_pc \<Rightarrow> log_chunk list" where
  "hand (FeederOffer orig c) = [c]"
| "hand (SavingInput l) = (if chunk_id l = [] then [] else [l])"
| "hand (SavingLast l) = (if chunk_id l = [] then [] else [l])"
| "hand _ = []"

definition buffered :: "bufferer \<Rightarrow> log_chunk list" where
  "buffered b = bufInput b @ hand (feederPc b) @ bufOutput b @ consumerHand b"

definition settled :: "bufferer \<Rightarrow> log_chunk list" where
  "settled b = consumedLog b @ leftLog b @ savedLog b @ lostLog b"

abbreviation accepted_ids :: "bufferer \<Rightarrow> bytes list" where
  "accepted_ids b \<equiv> map fst (acceptedLog b)"

fun pc_shape :: "feeder_pc \<Rightarrow> bufferer \<Rightarrow> bool" where
  "pc_shape FeederLoop b = True"
| "pc_shape (FeederOffer orig c) b = (chunk_id c = chunk_id orig)"
| "pc_shape (SavingInput l) b = bufInputClosed b"
| "pc_shape (SavingLast l) b = (bufInputClosed b \<and> bufInput b = [])"
| "pc_shape SavingOutput b = (bufInputClosed b \<and> bufInput b = [])"
| "pc_shape WaitConsumers b = (bufInputClosed b \<and> bufInput b = [] \<and> bufOutput b = [])"
| "pc_shape FeederStopped b = (bufInputClosed b \<and> bufInput b = [] \<and> bufOutput b = [] \<and> consumerCount b = 0)"

definition shape_ok :: "bufferer \<Rightarrow> bool" where
  "shape_ok b =
     (pc_shape (feederPc b) b \<and> (bufStopSignal b \<longrightarrow> bufInputClosed b) \<and>
      (consumerCount b = 0 \<longrightarrow> consumerHand b = []) \<and>
      length (bufInput b) \<le> BufferMaxNumChunksInQueue \<and> length (bufOutput b) \<le> BufferMaxNumChunksInMemory)"

definition places :: "bufferer \<Rightarrow> bytes multiset" where
  "places b = mset (map chunk_id (settled b @ buffered b))"

definition passage :: "bufferer \<Rightarrow> bytes list" where
  "passage b = map chunk_id (deliveredLog b @ bufOutput b @ hand (feederPc b) @ bufInput b)"

definition account_ok :: "bufferer \<Rightarrow> bool" where
  "account_ok b = (mset (accepted_ids b) = places b)"

definition pending_ok :: "bufferer \<Rightarrow> bool" where
  "pending_ok b = (pendingChunkCount (chunkMan b) = int (length (buffered b) + length (savedLog b)))"

definition order_ok :: "bufferer \<Rightarrow> bool" where
  "order_ok b = subseq (passage b) (accepted_ids b)"

lemmas place_defs = places_def passage_def settled_def buffered_def

subsection \<open>The effect of each step\<close>

lemma pending_simps [simp]:
  "pendingChunkCount (on_chunk_dropped c man) = pendingChunkCount man - 1"
  "pendingChunkCount (on_chunk_input l man) = pendingChunkCount man + 1"
  "pendingChunkCount (on_chunk_input_recovered s c man) = pendingChunkCount man + 1"
  "pendingChunkCount (on_chunk_consumed u c man) = pendingChunkCount man - 1"
  "pendingChunkCount (on_chunk_leftover w c man) = pendingChunkCount man - 1"
  "pendingChunkCount (on_chunk_corrupted u c man) = pendingChunkCount man - 1"
  by (simp_all add: on_chunk_dropped_def on_chunk_input_def on_chunk_input_recovered_def
      on_chunk_consumed_def on_chunk_leftover_def on_chunk_corrupted_def Let_def)

lemma pending_load:
  "load_or_drop_chunk r c man = (c', ok, man') \<Longrightarrow>
    pendingChunkCount man' = (if ok then pendingChunkCount man else pendingChunkCount man - 1)"
  by (auto simp: load_or_drop_chunk_def Let_def split: prod.splits if_splits)

lemma pending_unload:
  "unload_or_drop_chunk w c man = (c', ok, man') \<Longrightarrow>
    pendingChunkCount man' = (if ok then pendingChunkCount man else pendingChunkCount man - 1)"
  by (auto simp: unload_or_drop_chunk_def Let_def split: prod.splits if_splits)

lemma feeder_take_cases:
  assumes "feeder_take r u b = Some b'"
  obtains (closed) "bufInput b = []" "bufInputClosed b" "b' = begin_cleanup zero_chunk b"
    | (unreadable) c cs c' man qt qp where "bufInput b = c # cs"
      "load_or_drop_chunk r c (chunkMan b) = (c', False, man)"
      "b' = b\<lparr>bufInput := cs, queuedTransient := qt, queuedPersistent := qp, chunkMan := man,
              lostLog := lostLog b @ [c']\<rparr>"
    | (corrupted) c cs c' man qt qp where "bufInput b = c # cs"
      "load_or_drop_chunk r c (chunkMan b) = (c', True, man)"
      "b' = b\<lparr>bufInput := cs, queuedTransient := qt, queuedPersistent := qp,
              chunkMan := on_chunk_corrupted u c' man, lostLog := lostLog b @ [c']\<rparr>"
    | (loaded) c cs c' man qt qp where "bufInput b = c # cs"
      "load_or_drop_chunk r c (chunkMan b) = (c', True, man)" "data_len c' \<noteq> 0"
      "b' = b\<lparr>bufInput := cs, queuedTransient := qt, queuedPersistent := qp, chunkMan := man,
              feederPc := FeederOffer c c'\<rparr>"
proof (cases "bufInput b")
  case Nil
  then show ?thesis using assms closed by (simp add: feeder_take_def split: if_splits)
next
  case (Cons c cs)
  obtain c' ok man where l: "load_or_drop_chunk r c (chunkMan b) = (c', ok, man)" by (metis prod_cases3)
  define qt where "qt = (if chunk_data c \<noteq> None then queuedTransient b - 1 else queuedTransient b)"
  define qp where "qp = (if chunk_data c \<noteq> None then queuedPersistent b else queuedPersistent b - 1)"
  have b': "b' = (if \<not> ok then b\<lparr>bufInput := cs, queuedTransient := qt, queuedPersistent := qp, chunkMan := man,
              lostLog := lostLog b @ [c']\<rparr>
       else if data_len c' = 0 then b\<lparr>bufInput := cs, queuedTransient := qt, queuedPersistent := qp,
              chunkMan := on_chunk_corrupted u c' man, lostLog := lostLog b @ [c']\<rparr>
       else b\<lparr>bufInput := cs, queuedTransient := qt, queuedPersistent := qp, chunkMan := man,
              feederPc := FeederOffer c c'\<rparr>)"
    using assms Cons l by (cases "chunk_data c") (auto simp: feeder_take_def Let_def qt_def qp_def split: if_splits)
  show ?thesis
  proof (cases ok)
    case False
    then show ?thesis using unreadable[OF Cons, of c' man qp qt] l b' by simp
  next
    case True
    show ?thesis
    proof (cases "data_len c' = 0")
      case z: True
      then show ?thesis using corrupted[OF Cons, of c' man qp qt] l b' True by simp
    next
      case False
      then show ?thesis using loaded[OF Cons, of c' man qp qt] l b' True by simp
    qed
  qed
qed

lemma save_chunk_cases:
  obtains (saved) c' man where "unload_or_drop_chunk w c (chunkMan b) = (c', True, man)"
      "save_chunk w c b = b\<lparr>shortWrites := (shortWrites b \<or> \<not> full_write w), chunkMan := man,
                            savedLog := savedLog b @ [c']\<rparr>"
    | (lost) c' man where "unload_or_drop_chunk w c (chunkMan b) = (c', False, man)"
      "save_chunk w c b = b\<lparr>shortWrites := (shortWrites b \<or> \<not> full_write w), chunkMan := man,
                            lostLog := lostLog b @ [c']\<rparr>"
proof -
  obtain c' ok man where u: "unload_or_drop_chunk w c (chunkMan b) = (c', ok, man)" by (metis prod_cases3)
  then show ?thesis using saved[of c' man] lost[of c' man]
    by (cases ok) (simp_all add: save_chunk_def mark_short_def)
qed

lemma buf_accept_cases:
  assumes "buf_accept w c b = Inr b'"
  obtains (queued) c' man qt qp where "\<not> bufInputClosed b" "length (bufInput b) < BufferMaxNumChunksInQueue"
      "c' = c \<and> man = on_chunk_input True (chunkMan b) \<or>
       unload_or_drop_chunk w c (on_chunk_input False (chunkMan b)) = (c', True, man)"
      "b' = b\<lparr>acceptedLog := acceptedLog b @ [(chunk_id c, the (chunk_data c))],
              shortWrites := (shortWrites b \<or> \<not> full_write w), chunkMan := man,
              bufInput := bufInput b @ [c'], queuedTransient := qt, queuedPersistent := qp\<rparr>"
    | (overflow) c' man where "\<not> bufInputClosed b"
      "c' = c \<and> man = on_chunk_input True (chunkMan b) \<or>
       unload_or_drop_chunk w c (on_chunk_input False (chunkMan b)) = (c', True, man)"
      "b' = b\<lparr>acceptedLog := acceptedLog b @ [(chunk_id c, the (chunk_data c))],
              shortWrites := (shortWrites b \<or> \<not> full_write w), chunkMan := on_chunk_dropped c' man,
              lostLog := lostLog b @ [c']\<rparr>"
    | (failed) c' man where
      "unload_or_drop_chunk w c (on_chunk_input False (chunkMan b)) = (c', False, man)"
      "b' = b\<lparr>acceptedLog := acceptedLog b @ [(chunk_id c, the (chunk_data c))],
              shortWrites := (shortWrites b \<or> \<not> full_write w), chunkMan := man, lostLog := lostLog b @ [c']\<rparr>"
proof -
  define b0 where "b0 = b\<lparr>acceptedLog := acceptedLog b @ [(chunk_id c, the (chunk_data c))],
              shortWrites := (shortWrites b \<or> \<not> full_write w)\<rparr>"
  have enq: thesis if e: "enqueue c' (b0\<lparr>chunkMan := man\<rparr>) = Inr b'"
      and m: "c' = c \<and> man = on_chunk_input True (chunkMan b) \<or>
       unload_or_drop_chunk w c (on_chunk_input False (chunkMan b)) = (c', True, man)" for c' man
  proof (cases "length (bufInput b) < BufferMaxNumChunksInQueue")
    case True
    define qt where "qt = (if chunk_data c' \<noteq> None then queuedTransient b + 1 else queuedTransient b)"
    define qp where "qp = (if chunk_data c' \<noteq> None then queuedPersistent b else queuedPersistent b + 1)"
    have "\<not> bufInputClosed b" "b' = b0\<lparr>chunkMan := man, bufInput := bufInput b @ [c'],
        queuedTransient := qt, queuedPersistent := qp\<rparr>"
      using e True by (cases "chunk_data c'"; auto simp: enqueue_def b0_def qt_def qp_def split: if_splits)+
    then show thesis using queued[OF _ True m, of qp qt] by (simp add: b0_def)
  next
    case False
    then have "\<not> bufInputClosed b" "b' = b0\<lparr>chunkMan := on_chunk_dropped c' man, lostLog := lostLog b @ [c']\<rparr>"
      using e by (auto simp: enqueue_def b0_def split: if_splits)
    then show thesis using overflow[OF _ m] by (simp add: b0_def)
  qed
  have b0: "mark_short w (b\<lparr>acceptedLog := acceptedLog b @ [(chunk_id c, the (chunk_data c))]\<rparr>) = b0"
    by (simp add: mark_short_def b0_def)
  show thesis
  proof (cases "BufferMaxNumChunksInMemory div 2 \<le> length (bufOutput b)")
    case True
    obtain c' ok man where u: "unload_or_drop_chunk w c (on_chunk_input False (chunkMan b)) = (c', ok, man)"
      by (metis prod_cases3)
    then show thesis using assms True enq[of c' man] failed[of c' man]
      by (cases ok) (simp_all add: buf_accept_def b0 Let_def, simp_all add: b0_def)
  next
    case False
    then show thesis using assms enq[of c "on_chunk_input True (chunkMan b)"]
      by (simp add: buf_accept_def b0 Let_def) (simp add: b0_def)
  qed
qed

section \<open>Every step keeps the account\<close>

definition ids_clean :: "bufferer \<Rightarrow> bool" where
  "ids_clean b = ([] \<notin> set (accepted_ids b))"

definition books_ok :: "bufferer \<Rightarrow> bool" where
  "books_ok b = (shape_ok b \<and> order_ok b \<and> (ids_clean b \<longrightarrow> account_ok b \<and> pending_ok b))"

lemma books_move:
  assumes "books_ok b" and "shape_ok b'" and "accepted_ids b' = accepted_ids b @ ks"
    and "subseq (passage b') (passage b @ ks)"
    and "ids_clean b \<Longrightarrow> places b' = places b + mset ks"
    and "ids_clean b \<Longrightarrow> pendingChunkCount (chunkMan b') - pendingChunkCount (chunkMan b) =
      int (length (buffered b') + length (savedLog b')) - int (length (buffered b) + length (savedLog b))"
  shows "books_ok b'"
proof -
  have "subseq (passage b @ ks) (accepted_ids b @ ks)"
    using assms(1) by (simp add: books_ok_def order_ok_def)
  then have "order_ok b'" using assms(3,4) unfolding order_ok_def by (metis subseq_order.order_trans)
  moreover have "ids_clean b' \<Longrightarrow> ids_clean b" using assms(3) by (auto simp: ids_clean_def)
  ultimately show ?thesis
    using assms by (auto simp: books_ok_def account_ok_def pending_ok_def)
qed

lemma shape_of: "books_ok b \<Longrightarrow> shape_ok b"
  by (simp add: books_ok_def)

lemma subseq_extend: "subseq xs (xs @ ys)"
  by (simp add: prefix_imp_subseq)

lemma subseq_mid: "subseq (xs @ ys) (xs @ c # ys)"
  by (induction xs) auto

text \<open>Moves after which the feeder stands where it stood.\<close>

lemma pc_shape_same:
  "pc_shape pc b \<Longrightarrow> bufInputClosed b' = bufInputClosed b \<Longrightarrow> (bufInputClosed b \<Longrightarrow> bufInput b = [] \<Longrightarrow> bufInput b' = []) \<Longrightarrow>
    (bufOutput b = [] \<Longrightarrow> bufOutput b' = []) \<Longrightarrow> consumerCount b' = consumerCount b \<Longrightarrow> pc_shape pc b'"
  by (cases pc) auto

lemma books_accept:
  assumes "buf_accept w c b = Inr b'" and "books_ok b"
  shows "books_ok b'"
  using assms(1)
proof (cases rule: buf_accept_cases)
  case (queued c' man qt qp)
  have e: "chunk_id c' = chunk_id c" "pendingChunkCount man = pendingChunkCount (chunkMan b) + 1"
    using queued(3) by (auto dest: managed.unload_id pending_unload)
  have "pc_shape (feederPc b) b'"
    by (rule pc_shape_same[of _ b]) (use shape_of[OF assms(2)] queued(1) in \<open>auto simp: queued(4) shape_ok_def\<close>)
  then have "shape_ok b'" using shape_of[OF assms(2)] queued(1,2) by (simp add: queued(4) shape_ok_def)
  then show ?thesis
    by (rule books_move[OF assms(2), where ks = "[chunk_id c]"]) (simp_all add: queued(4) place_defs e)
next
  case (overflow c' man)
  have e: "chunk_id c' = chunk_id c" "pendingChunkCount man = pendingChunkCount (chunkMan b) + 1"
    using overflow(2) by (auto dest: managed.unload_id pending_unload)
  have "pc_shape (feederPc b) b'"
    by (rule pc_shape_same[of _ b]) (use shape_of[OF assms(2)] in \<open>auto simp: overflow(3) shape_ok_def\<close>)
  then have "shape_ok b'" using shape_of[OF assms(2)] by (simp add: overflow(3) shape_ok_def)
  then show ?thesis
    by (rule books_move[OF assms(2), where ks = "[chunk_id c]"])
      (simp_all add: overflow(3) place_defs e subseq_extend[of "_ @ _ @ _ @ _", simplified])
next
  case (failed c' man)
  have e: "chunk_id c' = chunk_id c" "pendingChunkCount man = pendingChunkCount (chunkMan b)"
    using failed(1) by (auto dest: managed.unload_id pending_unload)
  have "pc_shape (feederPc b) b'"
    by (rule pc_shape_same[of _ b]) (use shape_of[OF assms(2)] in \<open>auto simp: failed(2) shape_ok_def\<close>)
  then have "shape_ok b'" using shape_of[OF assms(2)] by (simp add: failed(2) shape_ok_def)
  then show ?thesis
    by (rule books_move[OF assms(2), where ks = "[chunk_id c]"])
      (simp_all add: failed(2) place_defs e subseq_extend[of "_ @ _ @ _ @ _", simplified])
qed

lemma books_take:
  assumes "feeder_take r u b = Some b'" and "books_ok b" and pc: "feederPc b = FeederLoop"
  shows "books_ok b'"
  using assms(1)
proof (cases rule: feeder_take_cases)
  case closed
  have "shape_ok b'" using shape_of[OF assms(2)] closed(1,2) by (simp add: closed(3) begin_cleanup_def shape_ok_def)
  then show ?thesis
    by (rule books_move[OF assms(2), where ks = "[]"])
      (simp_all add: closed begin_cleanup_def zero_chunk_def place_defs pc)
next
  case (unreadable c cs c' man qt qp)
  have e: "chunk_id c' = chunk_id c" "pendingChunkCount man = pendingChunkCount (chunkMan b) - 1"
    using unreadable(2) by (auto dest: managed.load_id pending_load)
  have "shape_ok b'" using shape_of[OF assms(2)] unreadable(1) pc by (simp add: unreadable(3) shape_ok_def)
  then show ?thesis
    by (rule books_move[OF assms(2), where ks = "[]"])
      (simp_all add: unreadable(1,3) place_defs pc e subseq_mid[of "_ @ _", simplified])
next
  case (corrupted c cs c' man qt qp)
  have e: "chunk_id c' = chunk_id c" "pendingChunkCount man = pendingChunkCount (chunkMan b)"
    using corrupted(2) by (auto dest: managed.load_id pending_load)
  have "shape_ok b'" using shape_of[OF assms(2)] corrupted(1) pc by (simp add: corrupted(3) shape_ok_def)
  then show ?thesis
    by (rule books_move[OF assms(2), where ks = "[]"])
      (simp_all add: corrupted(1,3) place_defs pc e subseq_mid[of "_ @ _", simplified])
next
  case (loaded c cs c' man qt qp)
  have e: "chunk_id c' = chunk_id c" "pendingChunkCount man = pendingChunkCount (chunkMan b)"
    using loaded(2) by (auto dest: managed.load_id pending_load)
  have "shape_ok b'" using shape_of[OF assms(2)] loaded(1) pc e by (simp add: loaded(4) shape_ok_def)
  then show ?thesis
    by (rule books_move[OF assms(2), where ks = "[]"])
      (simp_all add: loaded(1,4) place_defs pc e)
qed

lemma books_offer:
  assumes "feeder_offer c b = Some b'" and "books_ok b" and pc: "feederPc b = FeederOffer orig c"
  shows "books_ok b'"
proof -
  have b': "b' = b\<lparr>bufOutput := bufOutput b @ [c], feederPc := FeederLoop\<rparr>"
    "length (bufOutput b) < BufferMaxNumChunksInMemory"
    using assms(1) by (auto simp: feeder_offer_def split: if_splits)
  have "shape_ok b'" using shape_of[OF assms(2)] pc b'(2) by (simp add: b'(1) shape_ok_def)
  then show ?thesis
    by (rule books_move[OF assms(2), where ks = "[]"]) (simp_all add: b'(1) place_defs pc)
qed

lemma clean_hand:
  assumes "books_ok b" and "ids_clean b" and "c \<in> set (settled b @ buffered b)"
  shows "chunk_id c \<noteq> []"
proof -
  have "mset (accepted_ids b) = mset (map chunk_id (settled b @ buffered b))"
    using assms(1,2) by (simp add: books_ok_def account_ok_def places_def)
  then have "set (accepted_ids b) = chunk_id ` set (settled b @ buffered b)"
    by (metis mset_eq_setD set_map)
  then show ?thesis using assms(2,3) unfolding ids_clean_def by (metis imageI)
qed

lemma books_abort:
  assumes "feeder_abort orig b = Some b'" and "books_ok b" and pc: "feederPc b = FeederOffer orig c"
  shows "books_ok b'"
proof -
  have b': "b' = begin_cleanup orig b" "bufStopSignal b"
    using assms(1) by (auto simp: feeder_abort_def split: if_splits)
  have e: "chunk_id c = chunk_id orig" using shape_of[OF assms(2)] pc by (simp add: shape_ok_def)
  have ne: "chunk_id c \<noteq> []" if "ids_clean b"
    using clean_hand[OF assms(2) that, of c] pc by (simp add: buffered_def)
  have "shape_ok b'" using shape_of[OF assms(2)] pc b'(2) by (simp add: b'(1) begin_cleanup_def shape_ok_def)
  then show ?thesis
    by (rule books_move[OF assms(2), where ks = "[]"])
      (use ne in \<open>auto simp: b'(1) begin_cleanup_def place_defs pc e subseq_mid[of "_ @ _", simplified]\<close>)
qed

text \<open>Saving a chunk that has just been taken from its place.\<close>

lemma books_save:
  assumes "books_ok b" and "shape_ok b1"
    and "acceptedLog b1 = acceptedLog b" "chunkMan b1 = chunkMan b" "settled b1 = settled b" "savedLog b1 = savedLog b"
    and "mset (buffered b) = mset (buffered b1) + {#c#}"
    and "subseq (passage b1) (passage b)"
  shows "books_ok (save_chunk w c b1)"
proof -
  have sz: "length (buffered b) = length (buffered b1) + 1"
    using assms(7) by (metis size_add_mset size_mset union_mset_add_mset_right add.right_neutral Suc_eq_plus1)
  have pl: "places b = mset (map chunk_id (settled b1)) + mset (map chunk_id (buffered b1)) + {#chunk_id c#}"
    using assms(5,7) by (simp add: places_def)
  show ?thesis
  proof (cases rule: save_chunk_cases[of w c b1])
    case (saved c' man)
    have e: "chunk_id c' = chunk_id c" "pendingChunkCount man = pendingChunkCount (chunkMan b)"
      using saved(1) assms(4) by (auto dest: managed.unload_id pending_unload)
    have sh: "shape_ok (save_chunk w c b1)"
      using assms(2) unfolding saved(2) shape_ok_def by (auto intro: pc_shape_same[of _ b1])
    show ?thesis
      by (rule books_move[OF assms(1) sh, where ks = "[]"])
        (use assms(3,4,6,8) e sz pl in \<open>simp_all add: saved(2) buffered_def places_def settled_def passage_def\<close>)
  next
    case (lost c' man)
    have e: "chunk_id c' = chunk_id c" "pendingChunkCount man = pendingChunkCount (chunkMan b) - 1"
      using lost(1) assms(4) by (auto dest: managed.unload_id pending_unload)
    have sh: "shape_ok (save_chunk w c b1)"
      using assms(2) unfolding lost(2) shape_ok_def by (auto intro: pc_shape_same[of _ b1])
    show ?thesis
      by (rule books_move[OF assms(1) sh, where ks = "[]"])
        (use assms(3,4,6,8) e sz pl in \<open>simp_all add: lost(2) buffered_def places_def settled_def passage_def\<close>)
  qed
qed

lemma books_save_input:
  assumes "save_input w l b = Some b'" and "books_ok b" and pc: "feederPc b = SavingInput l"
  shows "books_ok b'"
proof (cases "bufInput b")
  case Nil
  then have b': "b' = b\<lparr>feederPc := SavingLast l\<rparr>" using assms(1) by (auto simp: save_input_def split: if_splits)
  have "shape_ok b'" using shape_of[OF assms(2)] pc Nil by (simp add: b' shape_ok_def)
  then show ?thesis
    by (rule books_move[OF assms(2), where ks = "[]"]) (simp_all add: b' place_defs pc)
next
  case (Cons c cs)
  then have b': "b' = save_chunk w c (b\<lparr>bufInput := cs\<rparr>)" using assms(1) by (simp add: save_input_def)
  have "shape_ok (b\<lparr>bufInput := cs\<rparr>)" using shape_of[OF assms(2)] pc Cons by (simp add: shape_ok_def)
  then show ?thesis unfolding b'
    by (rule books_save[OF assms(2)]) (simp_all add: Cons place_defs pc subseq_mid[of "_ @ _ @ _", simplified])
qed

lemma books_save_last:
  assumes "books_ok b" and pc: "feederPc b = SavingLast l"
  shows "books_ok (save_last w l b)"
proof -
  have sh: "shape_ok (b\<lparr>feederPc := SavingOutput\<rparr>)" using shape_of[OF assms(1)] pc by (simp add: shape_ok_def)
  show ?thesis
  proof (cases "chunk_id l = []")
    case True
    have "books_ok (b\<lparr>feederPc := SavingOutput\<rparr>)"
      by (rule books_move[OF assms(1) sh, where ks = "[]"]) (simp_all add: place_defs pc True)
    then show ?thesis by (simp add: save_last_def True)
  next
    case False
    have "books_ok (save_chunk w l (b\<lparr>feederPc := SavingOutput\<rparr>))"
      by (rule books_save[OF assms(1) sh]) (simp_all add: place_defs pc False subseq_mid[of "_ @ _", simplified])
    then show ?thesis by (simp add: save_last_def False)
  qed
qed

lemma books_save_output:
  assumes "books_ok b" and pc: "feederPc b = SavingOutput"
  shows "books_ok (save_output w b)"
proof (cases "bufOutput b")
  case Nil
  have "shape_ok (b\<lparr>feederPc := WaitConsumers\<rparr>)" using shape_of[OF assms(1)] pc Nil by (simp add: shape_ok_def)
  then have "books_ok (b\<lparr>feederPc := WaitConsumers\<rparr>)"
    by (rule books_move[OF assms(1), where ks = "[]"]) (simp_all add: place_defs pc Nil)
  then show ?thesis by (simp add: save_output_def Nil)
next
  case (Cons c cs)
  have "shape_ok (b\<lparr>bufOutput := cs\<rparr>)" using shape_of[OF assms(1)] pc Cons by (simp add: shape_ok_def)
  then have "books_ok (save_chunk w c (b\<lparr>bufOutput := cs\<rparr>))"
    by (rule books_save[OF assms(1)]) (simp_all add: Cons place_defs pc subseq_mid[of "_", simplified])
  then show ?thesis by (simp add: save_output_def Cons)
qed

lemma books_end:
  assumes "feeder_end s r c b = Some b'" and "books_ok b" and pc: "feederPc b = WaitConsumers"
  shows "books_ok b'"
proof -
  define man where "man = snd (close_manager s r c (chunkMan b))"
  have b': "b' = b\<lparr>chunkMan := man, feederPc := FeederStopped\<rparr>" "consumerCount b = 0"
    using assms(1) by (auto simp: feeder_end_def man_def split: if_splits)
  have e: "pendingChunkCount man = pendingChunkCount (chunkMan b)"
    by (simp add: man_def close_manager_def split: prod.splits)
  have "shape_ok b'" using shape_of[OF assms(2)] pc b'(2) by (simp add: b'(1) shape_ok_def)
  then show ?thesis
    by (rule books_move[OF assms(2), where ks = "[]"]) (simp_all add: b'(1) place_defs pc e)
qed

lemma books_feeder:
  assumes "feeder_step ev b = Some b'" and "books_ok b"
  shows "books_ok b'"
proof (cases "feederPc b")
  case FeederLoop
  then obtain r u where "feeder_take r u b = Some b'"
    using assms(1) by (cases ev) (auto simp: feeder_step_def)
  then show ?thesis using books_take assms(2) FeederLoop by blast
next
  case (FeederOffer orig c)
  then have "feeder_offer c b = Some b' \<or> feeder_abort orig b = Some b'"
    using assms(1) by (cases ev) (auto simp: feeder_step_def)
  then show ?thesis using books_offer books_abort assms(2) FeederOffer by blast
next
  case (SavingInput l)
  then obtain w where "save_input w l b = Some b'"
    using assms(1) by (cases ev) (auto simp: feeder_step_def)
  then show ?thesis using books_save_input assms(2) SavingInput by blast
next
  case (SavingLast l)
  then show ?thesis using assms books_save_last by (cases ev) (auto simp: feeder_step_def)
next
  case SavingOutput
  then show ?thesis using assms books_save_output by (cases ev) (auto simp: feeder_step_def)
next
  case WaitConsumers
  then obtain s r c where "feeder_end s r c b = Some b'"
    using assms(1) by (cases ev) (auto simp: feeder_step_def)
  then show ?thesis using books_end assms(2) WaitConsumers by blast
next
  case FeederStopped
  then show ?thesis using assms(1) by (cases ev) (auto simp: feeder_step_def)
qed

lemma ids_remove1_hand:
  assumes "c \<in> set cs"
  shows "image_mset chunk_id (mset cs) = add_mset (chunk_id c) (image_mset chunk_id (mset (remove1 c cs)))"
  using assms by (metis image_mset_add_mset insert_DiffM mset_remove1 set_mset_mset)

lemma length_remove1_hand: "c \<in> set cs \<Longrightarrow> length cs = length (remove1 c cs) + 1"
  by (metis One_nat_def Suc_pred add.commute length_pos_if_in_set length_remove1 plus_1_eq_Suc)

lemma books_consumed:
  assumes "buffer_step (ChunkConsumed u c) b = Some b'" and "books_ok b"
  shows "books_ok b'"
proof -
  have c: "c \<in> set (consumerHand b)" and b': "b' = b\<lparr>consumerHand := remove1 c (consumerHand b),
      consumedLog := consumedLog b @ [c], chunkMan := on_chunk_consumed u c (chunkMan b)\<rparr>"
    using assms(1) by (auto split: if_splits)
  have "pc_shape (feederPc b) b'" using shape_of[OF assms(2)]
    by (rule_tac pc_shape_same[of _ b]) (simp_all add: b' shape_ok_def)
  then have "shape_ok b'" using shape_of[OF assms(2)] c by (auto simp: b' shape_ok_def)
  then show ?thesis using length_remove1_hand[OF c] ids_remove1_hand[OF c]
    by (intro books_move[OF assms(2), where ks = "[]"]) (simp_all add: b' place_defs)
qed

lemma books_left:
  assumes "buffer_step (ChunkLeft w c) b = Some b'" and "books_ok b"
  shows "books_ok b'"
proof -
  have c: "c \<in> set (consumerHand b)" using assms(1) by (auto split: if_splits)
  obtain c' ok op where u: "unload_chunk w c (operator (chunkMan b)) = (c', ok, op)" by (metis prod_cases3)
  then have id: "chunk_id c' = chunk_id c" by (rule disk.unload_id)
  define ll where "ll = (if ok then leftLog b @ [c'] else leftLog b)"
  define lo where "lo = (if ok then lostLog b else lostLog b @ [c'])"
  have b': "b' = b\<lparr>shortWrites := (shortWrites b \<or> \<not> full_write w), consumerHand := remove1 c (consumerHand b),
      chunkMan := on_chunk_leftover w c (chunkMan b), leftLog := ll, lostLog := lo\<rparr>"
    using assms(1) c u by (cases ok) (auto simp: mark_short_def ll_def lo_def)
  have lm: "mset (map chunk_id ll) + mset (map chunk_id lo) =
      mset (map chunk_id (leftLog b)) + mset (map chunk_id (lostLog b)) + {#chunk_id c#}"
    using id by (simp add: ll_def lo_def)
  have "pc_shape (feederPc b) b'" using shape_of[OF assms(2)]
    by (rule_tac pc_shape_same[of _ b]) (simp_all add: b' shape_ok_def)
  then have "shape_ok b'" using shape_of[OF assms(2)] c by (auto simp: b' shape_ok_def)
  then show ?thesis using length_remove1_hand[OF c] ids_remove1_hand[OF c] lm
    by (intro books_move[OF assms(2), where ks = "[]"]) (simp_all add: b' place_defs)
qed

lemma books_consumer_take:
  assumes "buffer_step ConsumerTake b = Some b'" and "books_ok b"
  shows "books_ok b'"
proof -
  obtain c cs where q: "bufOutput b = c # cs" "consumerCount b \<noteq> 0" and b': "b' = b\<lparr>bufOutput := cs,
      consumerHand := consumerHand b @ [c], deliveredLog := deliveredLog b @ [c]\<rparr>"
    using assms(1) by (auto split: list.splits if_splits)
  have "pc_shape (feederPc b) b'" using shape_of[OF assms(2)] q
    by (rule_tac pc_shape_same[of _ b]) (simp_all add: b' shape_ok_def)
  then have "shape_ok b'" using shape_of[OF assms(2)] q by (simp add: b' shape_ok_def)
  then show ?thesis
    by (rule books_move[OF assms(2), where ks = "[]"]) (simp_all add: b' place_defs q)
qed

lemma books_step:
  assumes "buffer_step ev b = Some b'" and "books_ok b"
  shows "books_ok b'"
proof (cases ev)
  case (Accept w c)
  then show ?thesis using assms books_accept by (auto split: if_splits sum.splits)
next
  case CloseInputChannel
  then have b': "b' = b\<lparr>bufInputClosed := True\<rparr>" using assms(1) by (auto split: if_splits)
  have "pc_shape (feederPc b) b'" using shape_of[OF assms(2)]
    by (cases "feederPc b") (simp_all add: b' shape_ok_def)
  then have "shape_ok b'" using shape_of[OF assms(2)] by (simp add: b' shape_ok_def)
  then show ?thesis by (rule books_move[OF assms(2), where ks = "[]"]) (simp_all add: b' place_defs)
next
  case SignalInputClosed
  then have b': "b' = b\<lparr>bufStopSignal := True\<rparr>" "bufInputClosed b" using assms(1) by (auto split: if_splits)
  have "pc_shape (feederPc b) b'" using shape_of[OF assms(2)]
    by (rule_tac pc_shape_same[of _ b]) (simp_all add: b' shape_ok_def)
  then have "shape_ok b'" using shape_of[OF assms(2)] b'(2) by (simp add: b'(1) shape_ok_def)
  then show ?thesis by (rule books_move[OF assms(2), where ks = "[]"]) (simp_all add: b'(1) place_defs)
next
  case RegisterConsumer
  then have b': "b' = b\<lparr>consumerCount := consumerCount b + 1\<rparr>" "feederPc b = FeederLoop"
    using assms(1) by (auto split: if_splits)
  have "shape_ok b'" using shape_of[OF assms(2)] b'(2) by (simp add: b'(1) shape_ok_def)
  then show ?thesis by (rule books_move[OF assms(2), where ks = "[]"]) (simp_all add: b'(1) place_defs)
next
  case ConsumerFinished
  then have b': "b' = b\<lparr>consumerCount := consumerCount b - 1\<rparr>"
    "0 < consumerCount b" "consumerCount b = 1 \<longrightarrow> consumerHand b = []"
    using assms(1) by (auto split: if_splits)
  have "pc_shape (feederPc b) b'" using shape_of[OF assms(2)] b'(2)
    by (cases "feederPc b") (simp_all add: b'(1) shape_ok_def)
  then have "shape_ok b'" using shape_of[OF assms(2)] b'(2,3) by (auto simp: b'(1) shape_ok_def)
  then show ?thesis by (rule books_move[OF assms(2), where ks = "[]"]) (simp_all add: b'(1) place_defs)
qed (use assms books_feeder books_consumer_take books_consumed books_left in
    \<open>simp_all del: buffer_step.simps(6-8)\<close>)

lemma books_recover_loop: "books_ok b \<Longrightarrow> feederPc b = FeederLoop \<Longrightarrow> books_ok (recover_loop s cs b)"
proof (induction s cs b rule: recover_loop.induct)
  case (2 s c cs b)
  show ?case
  proof (cases "length (bufInput b) < BufferMaxNumChunksInQueue")
    case True
    let ?b = "b\<lparr>bufInput := bufInput b @ [c], chunkMan := on_chunk_input_recovered (s (chunk_id c)) c (chunkMan b),
           queuedPersistent := queuedPersistent b + 1,
           acceptedLog := acceptedLog b @ [(chunk_id c, the (chunk_file (operator (chunkMan b)) (chunk_id c)))]\<rparr>"
    have "shape_ok ?b" using shape_of[OF 2(2)] 2(3) True by (simp add: shape_ok_def)
    then have "books_ok ?b"
      by (rule books_move[OF 2(2), where ks = "[chunk_id c]"]) (simp_all add: place_defs)
    then show ?thesis using 2(1)[OF True] 2(3) True by simp
  qed (use 2 in simp)
qed simp

lemma books_new: "books_ok (new_bufferer opened match maxBytes sendAll)"
  by (simp add: books_ok_def shape_ok_def order_ok_def account_ok_def pending_ok_def place_defs
      new_bufferer_def new_chunk_manager_def)

lemma books_start: "books_ok (recover_existing_chunks s r st (new_bufferer opened match maxBytes sendAll))"
proof -
  let ?b = "new_bufferer opened match maxBytes sendAll"
  have "books_ok (?b\<lparr>chunkMan := chunkMan ?b\<lparr>operator := op\<rparr>\<rparr>)" for op
    by (rule books_move[OF books_new, where ks = "[]"])
      (use shape_of[OF books_new] in \<open>simp_all add: place_defs shape_ok_def new_bufferer_def\<close>)
  moreover have "feederPc (?b\<lparr>chunkMan := m\<rparr>) = FeederLoop" for m by (simp add: new_bufferer_def)
  ultimately show ?thesis
    by (simp add: recover_existing_chunks_def books_recover_loop split: prod.splits)
qed

lemma books_reachable: "buffer_reachable opened b \<Longrightarrow> books_ok b"
  by (induction rule: buffer_reachable.induct) (auto intro: books_start books_step)

section \<open>Every step keeps the payloads\<close>

definition content :: "bufferer \<Rightarrow> bytes \<Rightarrow> bytes" where
  "content b k = the (map_of (acceptedLog b) k)"

text \<open>The chunks that must still stand for their payload; the second holds loaded data.\<close>

fun originals :: "feeder_pc \<Rightarrow> log_chunk list" where
  "originals (FeederOffer orig c) = [orig]"
| "originals _ = []"

fun offered :: "feeder_pc \<Rightarrow> log_chunk list" where
  "offered (FeederOffer orig c) = [c]"
| "offered _ = []"

definition stock :: "bufferer \<Rightarrow> log_chunk list" where
  "stock b = leftLog b @ savedLog b @ buffered b @ originals (feederPc b)"

definition loaded_chunks :: "bufferer \<Rightarrow> log_chunk list" where
  "loaded_chunks b = deliveredLog b @ bufOutput b @ offered (feederPc b)"

definition payload_ok :: "bufferer \<Rightarrow> bool" where
  "payload_ok b =
     ((\<forall>c \<in> set (stock b). man_intact (chunkMan b) c (content b (chunk_id c))) \<and>
      (\<forall>c \<in> set (loaded_chunks b). chunk_data c = Some (content b (chunk_id c))) \<and>
      (\<forall>c \<in> set (savedLog b @ leftLog b). chunk_saved c))"

definition good :: "bufferer \<Rightarrow> bool" where
  "good b = (\<not> shortWrites b \<and> distinct (accepted_ids b) \<and> ids_clean b)"

lemma distinct_places:
  assumes "books_ok b" and "good b"
  shows "distinct (map chunk_id (settled b @ buffered b))"
    and "set (accepted_ids b) = chunk_id ` set (settled b @ buffered b)"
proof -
  have m: "mset (accepted_ids b) = mset (map chunk_id (settled b @ buffered b))"
    using assms by (simp add: books_ok_def account_ok_def places_def good_def)
  then show "distinct (map chunk_id (settled b @ buffered b))"
    using assms(2) unfolding good_def by (metis mset_eq_imp_distinct_iff)
  show "set (accepted_ids b) = chunk_id ` set (settled b @ buffered b)"
    using m by (metis mset_eq_setD set_map)
qed

lemma subseq_set: "subseq xs ys \<Longrightarrow> set xs \<subseteq> set ys"
  by (auto dest: list_emb_set)

lemma stock_ids:
  assumes "books_ok b" and "good b" and "c \<in> set (stock b) \<union> set (loaded_chunks b)"
  shows "chunk_id c \<in> set (accepted_ids b)"
proof -
  have "chunk_id ` set (deliveredLog b) \<subseteq> set (accepted_ids b)"
  proof -
    have "set (passage b) \<subseteq> set (accepted_ids b)"
      using assms(1) subseq_set unfolding books_ok_def order_ok_def by blast
    then show ?thesis by (simp add: passage_def)
  qed
  moreover have "chunk_id c \<in> chunk_id ` set (settled b @ buffered b)" if "c \<in> set (originals (feederPc b))"
    using that assms(1) by (cases "feederPc b") (auto simp: books_ok_def shape_ok_def buffered_def)
  moreover have "set (offered (feederPc b)) \<subseteq> set (buffered b)"
    by (cases "feederPc b") (auto simp: buffered_def)
  moreover have "set (leftLog b) \<union> set (savedLog b) \<subseteq> set (settled b)" by (auto simp: settled_def)
  moreover have "set (bufOutput b) \<subseteq> set (buffered b)" by (auto simp: buffered_def)
  ultimately show ?thesis
    using assms(3) distinct_places(2)[OF assms(1,2)] unfolding stock_def loaded_chunks_def by auto
qed

lemma content_grows:
  assumes "acceptedLog b' = acceptedLog b @ new" and "k \<in> set (accepted_ids b)"
  shows "content b' k = content b k"
proof -
  obtain d where "map_of (acceptedLog b) k = Some d" using assms(2) by (metis map_of_eq_None_iff not_Some_eq set_map)
  then show ?thesis by (simp add: content_def assms(1) map_of_append map_add_dom_app_simps map_add_Some_iff domIff)
qed

lemma content_new:
  assumes "acceptedLog b' = acceptedLog b @ [(k, d)]" and "distinct (accepted_ids b')"
  shows "content b' k = d"
proof -
  have "map_of (acceptedLog b) k = None" using assms by (auto simp: map_of_eq_None_iff)
  then show ?thesis by (simp add: content_def assms(1) map_add_def)
qed

text \<open>
  A step: what was in stock and still is stays intact, as the manager keeps it; a chunk that is
  new in stock or newly loaded is given with its payload.
\<close>

lemma payload_move:
  assumes p: "payload_ok b" and books: "books_ok b" and good: "good b'"
    and log: "acceptedLog b' = acceptedLog b @ new" and short: "shortWrites b \<Longrightarrow> shortWrites b'"
    and st: "\<And>c. c \<in> set (stock b') \<Longrightarrow>
      (c \<in> set (stock b) \<and> (\<forall>d. man_intact (chunkMan b) c d \<longrightarrow> man_intact (chunkMan b') c d)) \<or>
      man_intact (chunkMan b') c (content b' (chunk_id c))"
    and ld: "\<And>c. c \<in> set (loaded_chunks b') \<Longrightarrow>
      c \<in> set (loaded_chunks b) \<or> chunk_data c = Some (content b' (chunk_id c))"
    and sv: "\<And>c. c \<in> set (savedLog b' @ leftLog b') \<Longrightarrow> c \<in> set (savedLog b @ leftLog b) \<or> chunk_saved c"
  shows "payload_ok b'"
proof -
  have gb: "good b" using good log short by (auto simp: good_def ids_clean_def)
  have same: "content b' (chunk_id c) = content b (chunk_id c)" if "c \<in> set (stock b) \<union> set (loaded_chunks b)" for c
    using content_grows[OF log stock_ids[OF books gb that]] .
  have "man_intact (chunkMan b') c (content b' (chunk_id c))" if "c \<in> set (stock b')" for c
    using st[OF that] p same by (auto simp: payload_ok_def)
  moreover have "chunk_data c = Some (content b' (chunk_id c))" if "c \<in> set (loaded_chunks b')" for c
    using ld[OF that] p same by (auto simp: payload_ok_def)
  moreover have "chunk_saved c" if "c \<in> set (savedLog b' @ leftLog b')" for c
    using sv[OF that] p by (auto simp: payload_ok_def)
  ultimately show ?thesis unfolding payload_ok_def by blast
qed

lemma op_intact_file: "chunk_file op' = chunk_file op \<Longrightarrow> op_intact op' = op_intact op"
  by (simp add: op_intact_def fun_eq_iff)

lemma chunk_file_io [simp]: "chunk_file (io_error op) = chunk_file op"
  by (rule ext) simp

lemma man_intact_close [simp]: "man_intact (snd (close_manager s r e man)) = man_intact man"
proof -
  have "chunk_file (snd (count_existing_chunks s r op)) = chunk_file op" for op
    by (auto simp: count_existing_chunks_def fun_eq_iff split: option.split)
  moreover obtain n op where "count_existing_chunks s r (operator man) = (n, op)" by fastforce
  ultimately have "chunk_file op = chunk_file (operator man)" by (metis snd_conv)
  moreover have "operator (snd (close_manager s r e man)) = (if has_dir op \<and> \<not> e then io_error op else op)"
    using \<open>count_existing_chunks s r (operator man) = (n, op)\<close> by (simp add: close_manager_def)
  ultimately have "chunk_file (operator (snd (close_manager s r e man))) = chunk_file (operator man)"
    using chunk_file_io by simp
  then show ?thesis unfolding man_intact_def by (rule op_intact_file)
qed

lemma man_intact_simps [simp]:
  "man_intact (on_chunk_dropped c man) x d = man_intact man x d"
  "man_intact (on_chunk_input l man) x d = man_intact man x d"
  by (simp_all add: man_intact_def on_chunk_dropped_def on_chunk_input_def Let_def)

lemma corrupted_keeps:
  "man_intact man x d \<Longrightarrow> chunk_id x \<noteq> chunk_id c \<Longrightarrow> man_intact (on_chunk_corrupted u c man) x d"
  by (simp add: man_intact_def on_chunk_corrupted_def disk.remove_keeps)

lemma leftover_manager:
  "unload_chunk w c (operator man) = (c', ok, op) \<Longrightarrow> man_intact (on_chunk_leftover w c man) = op_intact op"
  by (simp add: man_intact_def on_chunk_leftover_def)

lemma input_intact:
  "unload_or_drop_chunk w c (on_chunk_input l man) = (c', ok, man') \<Longrightarrow> man_intact man x d \<Longrightarrow>
    chunk_id x \<noteq> chunk_id c \<Longrightarrow> man_intact man' x d"
  using managed.unload_keeps[of w c "on_chunk_input l man" c' ok man' x d] by simp

lemma payload_accept:
  assumes "buf_accept w c b = Inr b'" and "payload_ok b" and "books_ok b" and good: "good b'"
    and data: "chunk_data c \<noteq> None" "\<not> chunk_saved c"
  shows "payload_ok b'"
  using assms(1)
proof (cases rule: buf_accept_cases)
  case (queued c' man qt qp)
  have gb: "good b" and fresh: "chunk_id c \<notin> set (accepted_ids b)" and w: "full_write w"
    using good by (auto simp: queued(4) good_def ids_clean_def)
  have d: "content b' (chunk_id c) = the (chunk_data c)"
    by (rule content_new) (use good in \<open>simp_all add: queued(4) good_def\<close>)
  have c: "man_intact (on_chunk_input l (chunkMan b)) c (the (chunk_data c))" for l
    using data by (auto simp: man_intact_def op_intact_def)
  have new: "chunk_id c' = chunk_id c" "man_intact man c' (content b' (chunk_id c'))"
    using queued(3) c managed.unload_id managed.unload_same[OF _ w c] d by auto
  have keep: "man_intact man x e" if "x \<in> set (stock b)" "man_intact (chunkMan b) x e" for x e
  proof -
    have "chunk_id x \<noteq> chunk_id c" using stock_ids[OF assms(3) gb, of x] that(1) fresh by (metis UnI1)
    then show ?thesis using queued(3) that(2) input_intact by auto
  qed
  show ?thesis
  proof (rule payload_move[OF assms(2,3) good])
    fix x assume "x \<in> set (stock b')"
    then have "x = c' \<or> x \<in> set (stock b)" by (auto simp: queued(4) stock_def buffered_def)
    then show "(x \<in> set (stock b) \<and> (\<forall>d. man_intact (chunkMan b) x d \<longrightarrow> man_intact (chunkMan b') x d)) \<or>
        man_intact (chunkMan b') x (content b' (chunk_id x))"
      using new keep by (auto simp: queued(4))
  qed (auto simp: queued(4) loaded_chunks_def)
next
  case (overflow c' man)
  have gb: "good b" and fresh: "chunk_id c \<notin> set (accepted_ids b)"
    using good by (auto simp: overflow(3) good_def ids_clean_def)
  have keep: "man_intact man x e" if "x \<in> set (stock b)" "man_intact (chunkMan b) x e" for x e
  proof -
    have "chunk_id x \<noteq> chunk_id c" using stock_ids[OF assms(3) gb, of x] that(1) fresh by (metis UnI1)
    then show ?thesis using overflow(2) that(2) input_intact by auto
  qed
  show ?thesis
    by (rule payload_move[OF assms(2,3) good])
      (use keep in \<open>auto simp: overflow(3) loaded_chunks_def stock_def buffered_def\<close>)
next
  case (failed c' man)
  have gb: "good b" and fresh: "chunk_id c \<notin> set (accepted_ids b)"
    using good by (auto simp: failed(2) good_def ids_clean_def)
  have keep: "man_intact man x e" if "x \<in> set (stock b)" "man_intact (chunkMan b) x e" for x e
  proof -
    have "chunk_id x \<noteq> chunk_id c" using stock_ids[OF assms(3) gb, of x] that(1) fresh by (metis UnI1)
    then show ?thesis using failed(1) that(2) input_intact by auto
  qed
  show ?thesis
    by (rule payload_move[OF assms(2,3) good])
      (use keep in \<open>auto simp: failed(2) loaded_chunks_def stock_def buffered_def\<close>)
qed

lemma payload_take:
  assumes "feeder_take r u b = Some b'" and "payload_ok b" and "books_ok b" and good: "good b'"
    and pc: "feederPc b = FeederLoop"
  shows "payload_ok b'"
  using assms(1)
proof (cases rule: feeder_take_cases)
  case closed
  show ?thesis
    by (rule payload_move[OF assms(2,3) good])
      (auto simp: closed(3) begin_cleanup_def zero_chunk_def stock_def buffered_def loaded_chunks_def pc)
next
  case (unreadable c cs c' man qt qp)
  have keep: "\<forall>x d. man_intact (chunkMan b) x d \<longrightarrow> man_intact man x d"
    using managed.load_keeps[OF unreadable(2)] by blast
  show ?thesis
    by (rule payload_move[OF assms(2,3) good])
      (use keep in \<open>auto simp: unreadable(1,3) stock_def buffered_def loaded_chunks_def pc\<close>)
next
  case (corrupted c cs c' man qt qp)
  have gb: "good b" using good by (simp add: corrupted(3) good_def ids_clean_def)
  have id: "chunk_id c' = chunk_id c" using managed.load_id[OF corrupted(2)] .
  have "chunk_id c \<notin> chunk_id ` set (leftLog b @ savedLog b @ cs @ bufOutput b @ consumerHand b)"
    using distinct_places(1)[OF assms(3) gb] by (simp add: corrupted(1) buffered_def settled_def image_Un)
  moreover have "set (stock b') = set (leftLog b @ savedLog b @ cs @ bufOutput b @ consumerHand b)"
    by (simp add: corrupted(3) stock_def buffered_def pc)
  ultimately have other: "chunk_id x \<noteq> chunk_id c" if "x \<in> set (stock b')" for x
    using that by (metis imageI)
  have keep: "man_intact (chunkMan b') x d" if "x \<in> set (stock b')" "man_intact (chunkMan b) x d" for x d
    using corrupted_keeps[OF managed.load_keeps[OF corrupted(2) that(2)], of c' u] other[OF that(1)] id
    by (simp add: corrupted(3))
  have sub: "set (stock b') \<subseteq> set (stock b)"
    by (auto simp: corrupted(1,3) stock_def buffered_def pc)
  show ?thesis
    by (rule payload_move[OF assms(2,3) good])
      (use keep sub in \<open>blast | simp add: corrupted(3) loaded_chunks_def pc\<close>)+
next
  case (loaded c cs c' man qt qp)
  have id: "chunk_id c' = chunk_id c" using managed.load_id[OF loaded(2)] .
  have "man_intact (chunkMan b) c (content b (chunk_id c))"
    using assms(2) by (simp add: payload_ok_def stock_def buffered_def loaded(1))
  from managed.load_same[OF loaded(2) this]
  have new: "man_intact man c' (content b (chunk_id c'))" "chunk_data c' = Some (content b (chunk_id c'))"
    by (simp_all add: id)
  have ct: "content b' = content b" by (simp add: content_def loaded(4) fun_eq_iff)
  show ?thesis
  proof (rule payload_move[OF assms(2,3) good])
    fix x assume "x \<in> set (stock b')"
    then have "x = c' \<or> x \<in> set (stock b)" by (auto simp: loaded(1,4) stock_def buffered_def pc)
    then show "(x \<in> set (stock b) \<and> (\<forall>d. man_intact (chunkMan b) x d \<longrightarrow> man_intact (chunkMan b') x d)) \<or>
        man_intact (chunkMan b') x (content b' (chunk_id x))"
      using new(1) ct managed.load_keeps[OF loaded(2)] by (auto simp: loaded(4))
  qed (use new(2) ct in \<open>auto simp: loaded(4) loaded_chunks_def pc\<close>)
qed

text \<open>Saving a chunk with the payload it stands for, taken from its place.\<close>

lemma payload_save:
  assumes "payload_ok b" and "books_ok b" and good: "good (save_chunk w c b1)"
    and "acceptedLog b1 = acceptedLog b" "chunkMan b1 = chunkMan b" "shortWrites b1 = shortWrites b"
      "savedLog b1 = savedLog b" "leftLog b1 = leftLog b"
    and "c \<in> set (stock b)"
    and "\<And>x. x \<in> set (stock b1) \<Longrightarrow> x \<in> set (stock b) \<and> chunk_id x \<noteq> chunk_id c"
    and "set (loaded_chunks b1) \<subseteq> set (loaded_chunks b)"
  shows "payload_ok (save_chunk w c b1)"
proof (cases rule: save_chunk_cases[of w c b1])
  case (saved c' man)
  have w: "full_write w" using good by (auto simp: saved(2) good_def)
  have u: "unload_or_drop_chunk w c (chunkMan b) = (c', True, man)" using saved(1) assms(5) by simp
  have ct: "content (save_chunk w c b1) = content b" by (simp add: content_def saved(2) assms(4) fun_eq_iff)
  have "man_intact (chunkMan b) c (content b (chunk_id c))" using assms(1,9) by (simp add: payload_ok_def)
  from managed.unload_same[OF u w this] managed.unload_id[OF u]
  have new: "man_intact man c' (content b (chunk_id c'))" "chunk_saved c'" by simp_all
  show ?thesis
  proof (rule payload_move[OF assms(1,2) good])
    fix x assume "x \<in> set (stock (save_chunk w c b1))"
    then have "x = c' \<or> x \<in> set (stock b1)" by (auto simp: saved(2) stock_def buffered_def)
    then show "(x \<in> set (stock b) \<and> (\<forall>d. man_intact (chunkMan b) x d \<longrightarrow> man_intact (chunkMan (save_chunk w c b1)) x d)) \<or>
        man_intact (chunkMan (save_chunk w c b1)) x (content (save_chunk w c b1) (chunk_id x))"
      using new(1) ct assms(10) managed.unload_keeps[OF u] by (auto simp: saved(2))
  qed (use assms(4,6-8,11) new(2) in \<open>auto simp: saved(2) loaded_chunks_def\<close>)
next
  case (lost c' man)
  have u: "unload_or_drop_chunk w c (chunkMan b) = (c', False, man)" using lost(1) assms(5) by simp
  have st: "stock (save_chunk w c b1) = stock b1" by (simp add: lost(2) stock_def buffered_def)
  show ?thesis
    by (rule payload_move[OF assms(1,2) good])
      (use assms(4,6-8,10,11) managed.unload_keeps[OF u] in \<open>auto simp: st\<close>,
       (use assms(4,6-8,10,11) in \<open>auto simp: lost(2) loaded_chunks_def\<close>)?)
qed

lemma good_same:
  "good b' \<Longrightarrow> acceptedLog b' = acceptedLog b \<Longrightarrow> shortWrites b' = shortWrites b \<Longrightarrow> good b"
  by (simp add: good_def ids_clean_def)

lemma payload_offer:
  assumes "feeder_offer c b = Some b'" and "payload_ok b" and "books_ok b" and good: "good b'"
    and pc: "feederPc b = FeederOffer orig c"
  shows "payload_ok b'"
proof -
  have b': "b' = b\<lparr>bufOutput := bufOutput b @ [c], feederPc := FeederLoop\<rparr>"
    using assms(1) by (auto simp: feeder_offer_def split: if_splits)
  show ?thesis
    by (rule payload_move[OF assms(2,3) good])
      (auto simp: b' stock_def buffered_def loaded_chunks_def pc)
qed

lemma payload_abort:
  assumes "feeder_abort orig b = Some b'" and "payload_ok b" and "books_ok b" and good: "good b'"
    and pc: "feederPc b = FeederOffer orig c"
  shows "payload_ok b'"
proof -
  have b': "b' = begin_cleanup orig b"
    using assms(1) by (auto simp: feeder_abort_def split: if_splits)
  show ?thesis
    by (rule payload_move[OF assms(2,3) good])
      (auto simp: b' begin_cleanup_def stock_def buffered_def loaded_chunks_def pc split: if_splits)
qed

text \<open>A chunk of the buffer has an ID that no other chunk in stock has.\<close>

lemma buffered_unique:
  assumes "books_ok b" and "good b"
    and "mset (buffered b) = add_mset c rest" and "x \<in># rest \<or> x \<in> set (leftLog b @ savedLog b)"
  shows "chunk_id x \<noteq> chunk_id c"
proof -
  have "distinct (map chunk_id (settled b @ buffered b))" using distinct_places(1)[OF assms(1,2)] .
  then have d: "distinct (map chunk_id (buffered b))"
      "chunk_id ` set (settled b) \<inter> chunk_id ` set (buffered b) = {}" by simp_all
  have "mset (map chunk_id (buffered b)) = add_mset (chunk_id c) (image_mset chunk_id rest)"
    using assms(3) by simp
  moreover obtain ks where ks: "mset ks = image_mset chunk_id rest" using ex_mset by blast
  ultimately have "mset (map chunk_id (buffered b)) = mset (chunk_id c # ks)" by simp
  then have "distinct (chunk_id c # ks)" using d(1) by (metis mset_eq_imp_distinct_iff)
  then have "chunk_id c \<notin># image_mset chunk_id rest" using ks by (metis distinct.simps(2) set_mset_mset)
  moreover have "c \<in> set (buffered b)" using assms(3) by (metis union_single_eq_member set_mset_mset)
  moreover have "set (leftLog b @ savedLog b) \<subseteq> set (settled b)" by (auto simp: settled_def)
  ultimately show ?thesis using assms(4) d(2) by (metis disjoint_iff image_eqI set_image_mset subsetD)
qed

lemma good_save: "good (save_chunk w c b1) \<Longrightarrow> good b1"
  by (rule save_chunk_cases[of w c b1]) (auto simp: good_def ids_clean_def)

lemma payload_save_buffered:
  assumes "payload_ok b" and "books_ok b" and good: "good (save_chunk w c b1)"
    and "acceptedLog b1 = acceptedLog b" "chunkMan b1 = chunkMan b" "shortWrites b1 = shortWrites b"
      "savedLog b1 = savedLog b" "leftLog b1 = leftLog b" "originals (feederPc b1) = []"
    and "mset (buffered b) = add_mset c (mset (buffered b1))"
    and "set (loaded_chunks b1) \<subseteq> set (loaded_chunks b)"
  shows "payload_ok (save_chunk w c b1)"
proof (rule payload_save[OF assms(1,2) good])
  have gb: "good b" using good_save[OF good] assms(4,6) by (simp add: good_def ids_clean_def)
  have "c \<in> set (buffered b)" using assms(10) by (metis union_single_eq_member set_mset_mset)
  then show "c \<in> set (stock b)" by (simp add: stock_def)
  fix x assume x: "x \<in> set (stock b1)"
  then have xs: "x \<in> set (buffered b1) \<or> x \<in> set (leftLog b @ savedLog b)"
    using assms(7-9) by (auto simp: stock_def)
  have "set (buffered b1) \<subseteq> set (buffered b)" using assms(10) by (metis set_mset_mset set_mset_add_mset_insert subset_insertI)
  then show "x \<in> set (stock b) \<and> chunk_id x \<noteq> chunk_id c"
    using xs buffered_unique[OF assms(2) gb assms(10), of x] by (auto simp: stock_def)
qed (use assms in simp_all)

lemma payload_save_input:
  assumes "save_input w l b = Some b'" and "payload_ok b" and "books_ok b" and good: "good b'"
    and pc: "feederPc b = SavingInput l"
  shows "payload_ok b'"
proof (cases "bufInput b")
  case Nil
  then have b': "b' = b\<lparr>feederPc := SavingLast l\<rparr>" using assms(1) by (auto simp: save_input_def split: if_splits)
  show ?thesis
    by (rule payload_move[OF assms(2,3) good]) (auto simp: b' stock_def buffered_def loaded_chunks_def pc)
next
  case (Cons c cs)
  then have b': "b' = save_chunk w c (b\<lparr>bufInput := cs\<rparr>)" using assms(1) by (simp add: save_input_def)
  show ?thesis using good unfolding b'
    by (rule payload_save_buffered[OF assms(2,3)]) (simp_all add: Cons buffered_def loaded_chunks_def pc)
qed

lemma payload_save_last:
  assumes "payload_ok b" and "books_ok b" and good: "good (save_last w l b)"
    and pc: "feederPc b = SavingLast l"
  shows "payload_ok (save_last w l b)"
proof (cases "chunk_id l = []")
  case True
  then have e: "save_last w l b = b\<lparr>feederPc := SavingOutput\<rparr>" by (simp add: save_last_def)
  show ?thesis
    by (rule payload_move[OF assms(1,2) good]) (auto simp: e stock_def buffered_def loaded_chunks_def pc)
next
  case False
  then have e: "save_last w l b = save_chunk w l (b\<lparr>feederPc := SavingOutput\<rparr>)" by (simp add: save_last_def)
  show ?thesis using good unfolding e
    by (rule payload_save_buffered[OF assms(1,2)]) (simp_all add: buffered_def loaded_chunks_def pc False)
qed

lemma payload_save_output:
  assumes "payload_ok b" and "books_ok b" and good: "good (save_output w b)"
    and pc: "feederPc b = SavingOutput"
  shows "payload_ok (save_output w b)"
proof (cases "bufOutput b")
  case Nil
  then have e: "save_output w b = b\<lparr>feederPc := WaitConsumers\<rparr>" by (simp add: save_output_def)
  show ?thesis
    by (rule payload_move[OF assms(1,2) good]) (simp_all add: e stock_def buffered_def loaded_chunks_def pc)
next
  case (Cons c cs)
  then have e: "save_output w b = save_chunk w c (b\<lparr>bufOutput := cs\<rparr>)" by (simp add: save_output_def)
  have "set (loaded_chunks (b\<lparr>bufOutput := cs\<rparr>)) \<subseteq> set (loaded_chunks b)"
    using Cons by (auto simp: loaded_chunks_def)
  then show ?thesis using good unfolding e
    by (intro payload_save_buffered[OF assms(1,2)]) (simp_all add: Cons buffered_def pc)
qed

lemma payload_end:
  assumes "feeder_end s r c b = Some b'" and "payload_ok b" and "books_ok b" and good: "good b'"
    and pc: "feederPc b = WaitConsumers"
  shows "payload_ok b'"
proof -
  have b': "b' = b\<lparr>chunkMan := snd (close_manager s r c (chunkMan b)), feederPc := FeederStopped\<rparr>"
    using assms(1) by (auto simp: feeder_end_def split: if_splits)
  show ?thesis
    by (rule payload_move[OF assms(2,3) good]) (simp_all add: b' stock_def buffered_def loaded_chunks_def pc)
qed

lemma payload_feeder:
  assumes "feeder_step ev b = Some b'" and "payload_ok b" and "books_ok b" and "good b'"
  shows "payload_ok b'"
proof (cases "feederPc b")
  case FeederLoop
  then obtain r u where "feeder_take r u b = Some b'"
    using assms(1) by (cases ev) (auto simp: feeder_step_def)
  then show ?thesis using payload_take assms(2-4) FeederLoop by blast
next
  case (FeederOffer orig c)
  then have "feeder_offer c b = Some b' \<or> feeder_abort orig b = Some b'"
    using assms(1) by (cases ev) (auto simp: feeder_step_def)
  then show ?thesis using payload_offer payload_abort assms(2-4) FeederOffer by blast
next
  case (SavingInput l)
  then obtain w where "save_input w l b = Some b'"
    using assms(1) by (cases ev) (auto simp: feeder_step_def)
  then show ?thesis using payload_save_input assms(2-4) SavingInput by blast
next
  case (SavingLast l)
  then show ?thesis using assms payload_save_last by (cases ev) (auto simp: feeder_step_def)
next
  case SavingOutput
  then show ?thesis using assms payload_save_output by (cases ev) (auto simp: feeder_step_def)
next
  case WaitConsumers
  then obtain s r c where "feeder_end s r c b = Some b'"
    using assms(1) by (cases ev) (auto simp: feeder_step_def)
  then show ?thesis using payload_end assms(2-4) WaitConsumers by blast
next
  case FeederStopped
  then show ?thesis using assms(1) by (cases ev) (auto simp: feeder_step_def)
qed

lemma hand_mset:
  assumes "c \<in> set (consumerHand b)"
  shows "mset (buffered b) = add_mset c (mset (buffered (b\<lparr>consumerHand := remove1 c (consumerHand b)\<rparr>)))"
  using assms by (simp add: buffered_def)

lemma originals_unique:
  assumes "books_ok b" and "good b" and "x \<in> set (originals (feederPc b))" and "c \<in> set (consumerHand b)"
  shows "chunk_id x \<noteq> chunk_id c"
proof -
  obtain y where pc: "feederPc b = FeederOffer x y"
    using assms(3) by (cases "feederPc b") auto
  then have "chunk_id y = chunk_id x" using assms(1) by (simp add: books_ok_def shape_ok_def)
  moreover have "chunk_id y \<noteq> chunk_id c"
    by (rule buffered_unique[OF assms(1,2) hand_mset[OF assms(4)]]) (simp add: buffered_def pc)
  ultimately show ?thesis by simp
qed

lemma hand_stock_unique:
  assumes "books_ok b" and "good b" and "c \<in> set (consumerHand b)"
    and "x \<in> set (stock (b\<lparr>consumerHand := remove1 c (consumerHand b)\<rparr>))"
  shows "x \<in> set (stock b) \<and> chunk_id x \<noteq> chunk_id c"
proof
  show "x \<in> set (stock b)" using assms(4) by (auto simp: stock_def buffered_def dest: subsetD[OF set_remove1_subset])
  show "chunk_id x \<noteq> chunk_id c"
    using assms(4) buffered_unique[OF assms(1,2) hand_mset[OF assms(3)], of x]
      originals_unique[OF assms(1,2) _ assms(3), of x]
    by (auto simp: stock_def)
qed

lemma payload_consumed:
  assumes "buffer_step (ChunkConsumed u c) b = Some b'" and "payload_ok b" and "books_ok b" and good: "good b'"
  shows "payload_ok b'"
proof -
  have c: "c \<in> set (consumerHand b)" and b': "b' = b\<lparr>consumerHand := remove1 c (consumerHand b),
      consumedLog := consumedLog b @ [c], chunkMan := on_chunk_consumed u c (chunkMan b)\<rparr>"
    using assms(1) by (auto split: if_splits)
  have gb: "good b" using good by (simp add: b' good_def ids_clean_def)
  have "stock b' = stock (b\<lparr>consumerHand := remove1 c (consumerHand b)\<rparr>)"
    by (simp add: b' stock_def buffered_def)
  then have other: "x \<in> set (stock b) \<and> chunk_id x \<noteq> chunk_id c" if "x \<in> set (stock b')" for x
    using hand_stock_unique[OF assms(3) gb c] that by simp
  show ?thesis
  proof (rule payload_move[OF assms(2,3) good])
    fix x assume "x \<in> set (stock b')"
    from other[OF this] show "(x \<in> set (stock b) \<and> (\<forall>d. man_intact (chunkMan b) x d \<longrightarrow> man_intact (chunkMan b') x d)) \<or>
        man_intact (chunkMan b') x (content b' (chunk_id x))"
      using managed.remove_keeps[of "chunkMan b" x _ c u] by (simp add: b')
  qed (simp_all add: b' loaded_chunks_def)
qed

lemma payload_left:
  assumes "buffer_step (ChunkLeft w c) b = Some b'" and "payload_ok b" and "books_ok b" and good: "good b'"
  shows "payload_ok b'"
proof -
  have c: "c \<in> set (consumerHand b)" using assms(1) by (auto split: if_splits)
  obtain c' ok op where u: "unload_chunk w c (operator (chunkMan b)) = (c', ok, op)" by (metis prod_cases3)
  define ll where "ll = (if ok then leftLog b @ [c'] else leftLog b)"
  define lo where "lo = (if ok then lostLog b else lostLog b @ [c'])"
  have b': "b' = b\<lparr>shortWrites := (shortWrites b \<or> \<not> full_write w), consumerHand := remove1 c (consumerHand b),
      chunkMan := on_chunk_leftover w c (chunkMan b), leftLog := ll, lostLog := lo\<rparr>"
    using assms(1) c u by (cases ok) (auto simp: mark_short_def ll_def lo_def)
  have gb: "good b" and w: "full_write w" using good by (auto simp: b' good_def ids_clean_def)
  have man: "man_intact (chunkMan b') = op_intact op" using leftover_manager[OF u] by (simp add: b')
  have ct: "content b' = content b" by (simp add: content_def b' fun_eq_iff)
  have "op_intact (operator (chunkMan b)) c (content b (chunk_id c))"
    using assms(2) c by (auto simp: payload_ok_def stock_def buffered_def man_intact_def)
  then have new: "op_intact op c' (content b (chunk_id c')) \<and> chunk_saved c'" if ok
    using disk.unload_same[of w c "operator (chunkMan b)" c' op] disk.unload_id[OF u] u that w by simp
  have st: "set (stock b') \<subseteq> set (stock (b\<lparr>consumerHand := remove1 c (consumerHand b)\<rparr>)) \<union> (if ok then {c'} else {})"
    by (auto simp: b' stock_def buffered_def ll_def)
  show ?thesis
  proof (rule payload_move[OF assms(2,3) good])
    fix x assume "x \<in> set (stock b')"
    then consider "ok" "x = c'" | "x \<in> set (stock (b\<lparr>consumerHand := remove1 c (consumerHand b)\<rparr>))"
      using st by (auto split: if_splits)
    then show "(x \<in> set (stock b) \<and> (\<forall>d. man_intact (chunkMan b) x d \<longrightarrow> man_intact (chunkMan b') x d)) \<or>
        man_intact (chunkMan b') x (content b' (chunk_id x))"
    proof cases
      case 1
      then show ?thesis using new man ct by simp
    next
      case 2
      from hand_stock_unique[OF assms(3) gb c 2] show ?thesis
        using disk.unload_keeps[OF u, of x] man by (simp add: man_intact_def)
    qed
  next
    fix x assume "x \<in> set (savedLog b' @ leftLog b')"
    then show "x \<in> set (savedLog b @ leftLog b) \<or> chunk_saved x"
      using new by (auto simp: b' ll_def split: if_splits)
  qed (simp_all add: b' loaded_chunks_def)
qed

lemma payload_consumer_take:
  assumes "buffer_step ConsumerTake b = Some b'" and "payload_ok b" and "books_ok b" and good: "good b'"
  shows "payload_ok b'"
proof -
  obtain c cs where q: "bufOutput b = c # cs" and b': "b' = b\<lparr>bufOutput := cs,
      consumerHand := consumerHand b @ [c], deliveredLog := deliveredLog b @ [c]\<rparr>"
    using assms(1) by (auto split: list.splits if_splits)
  show ?thesis
    by (rule payload_move[OF assms(2,3) good])
      (auto simp: b' q stock_def buffered_def loaded_chunks_def)
qed

lemma payload_step:
  assumes "buffer_step ev b = Some b'" and "payload_ok b" and "books_ok b" and good: "good b'"
  shows "payload_ok b'"
proof (cases ev)
  case (Accept w c)
  then show ?thesis using assms payload_accept by (auto split: if_splits sum.splits)
next
  case CloseInputChannel
  then have b': "b' = b\<lparr>bufInputClosed := True\<rparr>" using assms(1) by (auto split: if_splits)
  show ?thesis by (rule payload_move[OF assms(2,3) good]) (simp_all add: b' stock_def buffered_def loaded_chunks_def)
next
  case SignalInputClosed
  then have b': "b' = b\<lparr>bufStopSignal := True\<rparr>" using assms(1) by (auto split: if_splits)
  show ?thesis by (rule payload_move[OF assms(2,3) good]) (simp_all add: b' stock_def buffered_def loaded_chunks_def)
next
  case RegisterConsumer
  then have b': "b' = b\<lparr>consumerCount := consumerCount b + 1\<rparr>" using assms(1) by (auto split: if_splits)
  show ?thesis by (rule payload_move[OF assms(2,3) good]) (simp_all add: b' stock_def buffered_def loaded_chunks_def)
next
  case ConsumerFinished
  then have b': "b' = b\<lparr>consumerCount := consumerCount b - 1\<rparr>" using assms(1) by (auto split: if_splits)
  show ?thesis by (rule payload_move[OF assms(2,3) good]) (simp_all add: b' stock_def buffered_def loaded_chunks_def)
next
  case (Feeder e)
  then show ?thesis using assms payload_feeder by simp
next
  case ConsumerTake
  then show ?thesis using assms payload_consumer_take by blast
next
  case (ChunkConsumed u c)
  then show ?thesis using assms payload_consumed by blast
next
  case (ChunkLeft w c)
  then show ?thesis using assms payload_left by blast
qed

lemma save_chunk_log:
  "acceptedLog (save_chunk w c b) = acceptedLog b" "shortWrites b \<Longrightarrow> shortWrites (save_chunk w c b)"
  by (rule save_chunk_cases[of w c b]; simp)+

lemma feeder_log:
  "feeder_step ev b = Some b' \<Longrightarrow> acceptedLog b' = acceptedLog b \<and> (shortWrites b \<longrightarrow> shortWrites b')"
proof -
  assume a: "feeder_step ev b = Some b'"
  have "acceptedLog b' = acceptedLog b \<and> (shortWrites b \<longrightarrow> shortWrites b')" if "feeder_take r u b = Some b'" for r u
    using that by (rule feeder_take_cases) (simp_all add: begin_cleanup_def)
  then show ?thesis using a
    by (cases "feederPc b"; cases ev)
      (auto simp: feeder_step_def feeder_offer_def feeder_abort_def begin_cleanup_def save_input_def save_last_def
        save_output_def feeder_end_def save_chunk_log split: if_splits list.splits)
qed

lemma buffer_log:
  assumes "buffer_step ev b = Some b'"
  shows "(\<exists>new. acceptedLog b' = acceptedLog b @ new) \<and> (shortWrites b \<longrightarrow> shortWrites b')"
proof (cases ev)
  case (Accept w c)
  then have "buf_accept w c b = Inr b'" using assms by (auto split: if_splits sum.splits)
  then show ?thesis by (rule buf_accept_cases) auto
next
  case (Feeder e)
  then show ?thesis using assms feeder_log by (metis append_Nil2 buffer_step.simps(4))
qed (use assms in \<open>auto simp: Let_def mark_short_def split: if_splits list.splits prod.splits\<close>)

lemma good_back: "buffer_step ev b = Some b' \<Longrightarrow> good b' \<Longrightarrow> good b"
  using buffer_log[of ev b b'] by (auto simp: good_def ids_clean_def)

subsection \<open>Recovery\<close>

lemma chunk_file_recovered [simp]: "chunk_file (op_chunk_recovered s c op) = chunk_file op"
proof (rule ext)
  fix name
  show "chunk_file (op_chunk_recovered s c op) name = chunk_file op name"
  proof (cases "maybeDir op")
    case (Some dir)
    then show ?thesis
      by (cases "stat_file_at s dir (chunk_id c)")
        (simp_all add: op_chunk_recovered_def chunk_file_def io_error_def)
  qed (simp add: op_chunk_recovered_def chunk_file_def)
qed

lemma man_intact_recovered [simp]: "man_intact (on_chunk_input_recovered s c man) = man_intact man"
  by (simp add: man_intact_def on_chunk_input_recovered_def op_intact_file[OF chunk_file_recovered])

definition recoverable :: "chunk_manager \<Rightarrow> log_chunk \<Rightarrow> bool" where
  "recoverable man c =
     (chunk_data c = None \<and> chunk_saved c \<and> chunk_file (operator man) (chunk_id c) \<noteq> None)"

lemma recoverable_intact:
  assumes "recoverable man c"
  shows "man_intact man c (the (chunk_file (operator man) (chunk_id c)))"
  using assms unfolding recoverable_def man_intact_def op_intact_def by (metis option.exhaust_sel option.simps(4))

lemma recoverable_recovered [simp]: "recoverable (on_chunk_input_recovered s c man) x = recoverable man x"
  by (simp add: recoverable_def on_chunk_input_recovered_def)

lemma recover_loop_log:
  "\<exists>new. acceptedLog (recover_loop s cs b) = acceptedLog b @ new \<and> shortWrites (recover_loop s cs b) = shortWrites b"
  by (induction s cs b rule: recover_loop.induct) auto

lemma payload_recover_loop:
  "payload_ok b \<Longrightarrow> books_ok b \<Longrightarrow> feederPc b = FeederLoop \<Longrightarrow> \<forall>c \<in> set cs. recoverable (chunkMan b) c \<Longrightarrow>
    good (recover_loop s cs b) \<Longrightarrow> payload_ok (recover_loop s cs b)"
proof (induction s cs b rule: recover_loop.induct)
  case (2 s c cs b)
  show ?case
  proof (cases "length (bufInput b) < BufferMaxNumChunksInQueue")
    case True
    let ?d = "the (chunk_file (operator (chunkMan b)) (chunk_id c))"
    let ?b = "b\<lparr>bufInput := bufInput b @ [c], chunkMan := on_chunk_input_recovered (s (chunk_id c)) c (chunkMan b),
           queuedPersistent := queuedPersistent b + 1, acceptedLog := acceptedLog b @ [(chunk_id c, ?d)]\<rparr>"
    have books: "books_ok ?b"
      using books_recover_loop[OF 2(3,4), of s "[c]"] True by simp
    have g: "good ?b"
    proof -
      obtain new where "acceptedLog (recover_loop s cs ?b) = acceptedLog ?b @ new"
        "shortWrites (recover_loop s cs ?b) = shortWrites ?b" using recover_loop_log by blast
      moreover have "good (recover_loop s cs ?b)" using 2(6) True by simp
      ultimately show ?thesis unfolding good_def ids_clean_def by simp
    qed
    have ct: "content ?b (chunk_id c) = ?d"
      by (rule content_new) (use g in \<open>simp_all add: good_def\<close>)
    have i: "man_intact (chunkMan b) c ?d" using 2(5) recoverable_intact by simp
    have "payload_ok ?b"
    proof (rule payload_move[OF 2(2,3) g])
      fix x assume "x \<in> set (stock ?b)"
      then have "x = c \<or> x \<in> set (stock b)" by (auto simp: stock_def buffered_def)
      then show "(x \<in> set (stock b) \<and> (\<forall>d. man_intact (chunkMan b) x d \<longrightarrow> man_intact (chunkMan ?b) x d)) \<or>
        man_intact (chunkMan ?b) x (content ?b (chunk_id x))"
        using i ct by auto
    qed (simp_all add: loaded_chunks_def)
    then show ?thesis using 2(1)[OF True _ books] 2(4-6) True by simp
  qed (use 2 in simp)
qed simp

lemma scan_recoverable:
  assumes "scan_existing_chunks s r op = (cs, op')"
  shows "chunk_file op' = chunk_file op \<and> (\<forall>c \<in> set cs. recoverable (man\<lparr>operator := op'\<rparr>) c)"
proof -
  have f: "chunk_file op' = chunk_file op"
    using assms by (auto simp: scan_existing_chunks_def Let_def split: option.splits if_splits)
  have "recoverable (man\<lparr>operator := op'\<rparr>) c" if c_in: "c \<in> set cs" for c
  proof -
    obtain dir where "maybeDir op = Some dir"
      and "cs = map (\<lambda>fn. \<lparr>chunk_id = fn, chunk_data = None, chunk_saved = True\<rparr>)
         (filter (\<lambda>fn. fn \<noteq> idFileName \<and> matchChunkID op' fn) (sort (map fst dir)))"
      using assms c_in by (auto simp: scan_existing_chunks_def Let_def split: option.splits if_splits)
    then have d: "maybeDir op = Some dir" "chunk_id c \<in> set (map fst dir)"
      and c: "chunk_data c = None" "chunk_saved c" using c_in by (auto simp: image_iff intro: rev_bexI)
    then have "chunk_file op (chunk_id c) \<noteq> None" by (simp add: chunk_file_def map_of_eq_None_iff)
    then show ?thesis using c f by (simp add: recoverable_def)
  qed
  then show ?thesis using f by blast
qed

lemma payload_start:
  assumes "good (recover_existing_chunks s r st (new_bufferer opened match maxBytes sendAll))"
  shows "payload_ok (recover_existing_chunks s r st (new_bufferer opened match maxBytes sendAll))"
proof -
  let ?b = "new_bufferer opened match maxBytes sendAll"
  obtain cs op where sc: "scan_existing_chunks s r (operator (chunkMan ?b)) = (cs, op)" by fastforce
  let ?b1 = "?b\<lparr>chunkMan := chunkMan ?b\<lparr>operator := op\<rparr>\<rparr>"
  have e: "recover_existing_chunks s r st ?b = recover_loop st cs ?b1"
    by (simp add: recover_existing_chunks_def sc)
  have "payload_ok ?b1"
    by (simp add: payload_ok_def stock_def buffered_def loaded_chunks_def new_bufferer_def)
  moreover have "books_ok ?b1"
    by (rule books_move[OF books_new, where ks = "[]"])
      (use shape_of[OF books_new] in \<open>simp_all add: place_defs shape_ok_def new_bufferer_def\<close>)
  moreover have "feederPc ?b1 = FeederLoop" by (simp add: new_bufferer_def)
  moreover have "\<forall>c \<in> set cs. recoverable (chunkMan ?b1) c"
    using scan_recoverable[OF sc, of "chunkMan ?b"] by simp
  ultimately show ?thesis using payload_recover_loop assms unfolding e by blast
qed

lemma payload_reachable: "buffer_reachable opened b \<Longrightarrow> good b \<Longrightarrow> payload_ok b"
proof (induction rule: buffer_reachable.induct)
  case (start seekOk readOk statOk match maxBytes sendAll)
  then show ?case using payload_start by blast
next
  case (step b ev b')
  then show ?case using payload_step books_reachable good_back by blast
qed

lemma buffer_run_reachable:
  "buffer_run evs b = Some b' \<Longrightarrow> buffer_reachable opened b \<Longrightarrow> buffer_reachable opened b'"
proof (induction evs arbitrary: b)
  case (Cons ev evs)
  then obtain b1 where "buffer_step ev b = Some b1" "buffer_run evs b1 = Some b'"
    by (auto simp: bind_eq_Some_conv)
  then show ?case using Cons buffer_reachable.step by blast
qed simp

lemma subseq_pairs:
  assumes "subseq ks (map fst al)" and "distinct (map fst al)"
  shows "subseq (map (\<lambda>k. (k, the (map_of al k))) ks) al"
proof -
  have "(fst x, the (map_of al (fst x))) = x" if "x \<in> set al" for x
  proof (cases x)
    case (Pair k d)
    then have "map_of al k = Some d" using that assms(2) by (simp add: map_of_is_SomeI)
    then show ?thesis using Pair by simp
  qed
  then have "map (\<lambda>k. (k, the (map_of al k))) (map fst al) = al"
    unfolding map_map comp_def by (rule map_idI)
  then show ?thesis using subseq_map[OF assms(1), of "\<lambda>k. (k, the (map_of al k))"] by simp
qed

lemma log_content:
  assumes "distinct (accepted_ids b)" and "k \<in> set (accepted_ids b)"
  shows "(k, content b k) \<in> set (acceptedLog b)"
  using assms unfolding content_def by (metis list.set_map map_of_eq_None_iff map_of_SomeD option.exhaust_sel)

section \<open>Restart\<close>

definition dir_of :: "bufferer \<Rightarrow> file_dir" where
  "dir_of b = (case maybeDir (operator (chunkMan b)) of None \<Rightarrow> [] | Some dir \<Rightarrow> dir)"

lemma recover_loop_all:
  "length (bufInput b) + length cs \<le> BufferMaxNumChunksInQueue \<Longrightarrow>
    acceptedLog (recover_loop s cs b) =
      acceptedLog b @ map (\<lambda>c. (chunk_id c, the (chunk_file (operator (chunkMan b)) (chunk_id c)))) cs"
proof (induction s cs b rule: recover_loop.induct)
  case (2 s c cs b)
  then show ?case by (simp add: on_chunk_input_recovered_def)
qed simp

lemma recovered_log:
  assumes "length dir \<le> BufferMaxNumChunksInQueue"
  shows "acceptedLog (recover_existing_chunks True True s (new_bufferer (Some dir) match maxBytes sendAll)) =
    map (\<lambda>fn. (fn, the (map_of dir fn))) (filter (\<lambda>fn. fn \<noteq> idFileName \<and> match fn) (sort (map fst dir)))"
proof -
  let ?names = "filter (\<lambda>fn. fn \<noteq> idFileName \<and> match fn) (sort (map fst dir))"
  have "length ?names \<le> length (sort (map fst dir))" by (rule length_filter_le)
  then have l: "length ?names \<le> BufferMaxNumChunksInQueue" using assms by simp
  show ?thesis
    using l recover_loop_all[of _ "map (\<lambda>fn. \<lparr>chunk_id = fn, chunk_data = None, chunk_saved = True\<rparr>) ?names" s]
    by (simp add: recover_existing_chunks_def scan_existing_chunks_def new_bufferer_def new_chunk_manager_def
        new_chunk_operator_def chunk_file_def)
qed

section \<open>Properties\<close>


definition fresh_chunk :: "bytes \<Rightarrow> log_chunk" where
  "fresh_chunk k = \<lparr>chunk_id = k, chunk_data = Some k, chunk_saved = False\<rparr>"

definition sample_dir :: file_dir where
  "sample_dir = [(''a.ff'', ''old'')]"

definition sample_start :: bufferer where
  "sample_start = recover_existing_chunks True True (\<lambda>_. True) (new_bufferer (Some sample_dir) (\<lambda>_. True) 1000 False)"

definition sample_use :: "buffer_event list" where
  "sample_use =
     [RegisterConsumer, Accept WriteFull (fresh_chunk ''b.ff''), Accept WriteFull (fresh_chunk ''c.ff''),
      Feeder (Take True True), Feeder Offer, Feeder (Take True True), Feeder Offer, ConsumerTake, ConsumerTake]"

lemmas sample_defs = sample_start_def sample_dir_def sample_use_def fresh_chunk_def
  recover_existing_chunks_def scan_existing_chunks_def new_bufferer_def new_chunk_manager_def
  new_chunk_operator_def idFileName_def on_chunk_input_recovered_def op_chunk_recovered_def stat_file_at_def
  chunk_file_def buf_accept_def enqueue_def mark_short_def on_chunk_input_def feeder_step_def feeder_take_def
  load_or_drop_chunk_def load_chunk_def read_file_at_def feeder_offer_def feeder_abort_def begin_cleanup_def
  BufferMaxNumChunksInQueue_def BufferMaxNumChunksInMemory_def data_len_def on_chunk_consumed_def
  remove_chunk_def unlink_file_at_def forget_chunk_def unload_chunk_def on_chunk_leftover_def save_input_def
  save_last_def save_output_def save_chunk_def unload_or_drop_chunk_def feeder_end_def close_manager_def
  count_existing_chunks_def has_dir_def zero_chunk_def

lemma sample_reachable: "buffer_reachable (Some sample_dir) sample_start"
  unfolding sample_start_def by (rule buffer_reachable.start) (simp add: sample_dir_def)

lemma sample_used:
  "\<exists>b. buffer_run sample_use sample_start = Some b \<and> \<not> shortWrites b \<and>
     acceptedLog b = [(''a.ff'', ''old''), (''b.ff'', ''b.ff''), (''c.ff'', ''c.ff'')] \<and>
     length (deliveredLog b) = 2"
  by (simp add: sample_defs)


text \<open>
  Every chunk is settled at shutdown. Under the same conditions, when the feeder has stopped,
  each chunk recovered or accepted was, once, reported as consumed, saved as a left-over or saved
  from a queue, or lost with an error; the files of the saved ones hold their data, so that the
  next start of the buffer on this directory recovers them.
\<close>

lemma saved_and_settled:
  assumes "buffer_reachable opened b" and "\<not> shortWrites b" and "feederPc b = FeederStopped"
    and "distinct (accepted_ids b)" and "[] \<notin> set (accepted_ids b)"
    and "length (dir_of b) \<le> BufferMaxNumChunksInQueue"
    and "\<forall>c \<in> set (leftLog b @ savedLog b). chunk_id c \<noteq> idFileName \<and> match (chunk_id c)"
  shows "mset (accepted_ids b) = mset (map chunk_id (consumedLog b @ leftLog b @ savedLog b @ lostLog b)) \<and>
    (\<forall>c \<in> set (leftLog b @ savedLog b).
       (chunk_id c, content b (chunk_id c)) \<in> set (acceptedLog b) \<and>
       (chunk_id c, content b (chunk_id c)) \<in> set (acceptedLog
          (recover_existing_chunks True True statOk (new_bufferer (Some (dir_of b)) match maxBytes sendAll))))"
proof
  have g: "good b" using assms(2,4,5) by (simp add: good_def ids_clean_def)
  have books: "books_ok b" using books_reachable[OF assms(1)] .
  have "buffered b = []" using shape_of[OF books] assms(3) by (simp add: shape_ok_def buffered_def)
  then show "mset (accepted_ids b) = mset (map chunk_id (consumedLog b @ leftLog b @ savedLog b @ lostLog b))"
    using books g by (simp add: books_ok_def good_def account_ok_def places_def settled_def)
  have p: "payload_ok b" using payload_reachable[OF assms(1) g] .
  show "\<forall>c \<in> set (leftLog b @ savedLog b).
       (chunk_id c, content b (chunk_id c)) \<in> set (acceptedLog b) \<and>
       (chunk_id c, content b (chunk_id c)) \<in> set (acceptedLog
          (recover_existing_chunks True True statOk (new_bufferer (Some (dir_of b)) match maxBytes sendAll)))"
  proof
    fix c assume c: "c \<in> set (leftLog b @ savedLog b)"
    then have st: "c \<in> set (stock b)" and sv: "chunk_saved c"
      using p by (auto simp: stock_def payload_ok_def)
    have "op_intact (operator (chunkMan b)) c (content b (chunk_id c))"
      using p st by (simp add: payload_ok_def man_intact_def)
    then have "chunk_file (operator (chunkMan b)) (chunk_id c) = Some (content b (chunk_id c))"
      using sv by (simp add: op_intact_def)
    then have f: "map_of (dir_of b) (chunk_id c) = Some (content b (chunk_id c))"
      by (auto simp: chunk_file_def dir_of_def bind_eq_Some_conv)
    then have "chunk_id c \<in> set (map fst (dir_of b))" by (metis map_of_SomeD image_eqI fst_conv list.set_map)
    then have "(chunk_id c, content b (chunk_id c)) \<in> set (map (\<lambda>fn. (fn, the (map_of (dir_of b) fn)))
        (filter (\<lambda>fn. fn \<noteq> idFileName \<and> match fn) (sort (map fst (dir_of b)))))"
      using bspec[OF assms(7) c] f by (simp add: image_iff)
    moreover have "(chunk_id c, content b (chunk_id c)) \<in> set (acceptedLog b)"
      using log_content[OF assms(4)] stock_ids[OF books g, of c] st by blast
    ultimately show "(chunk_id c, content b (chunk_id c)) \<in> set (acceptedLog b) \<and>
       (chunk_id c, content b (chunk_id c)) \<in> set (acceptedLog
          (recover_existing_chunks True True statOk (new_bufferer (Some (dir_of b)) match maxBytes sendAll)))"
      unfolding recovered_log[OF assms(6)] by blast
  qed
qed

text \<open>
  C34: The gauge of pending chunks, on which the shutdown waits, counts exactly the chunks between
  their acceptance and their end: those in the two queues, in the hand of the feeder and of the
  consumers, and those saved from the queues at the end; and the queues stay within their capacity.
\<close>

theorem pending_gauge:
  assumes "buffer_reachable opened b" and "[] \<notin> set (accepted_ids b)"
  shows "pendingChunkCount (chunkMan b) = int (length (buffered b) + length (savedLog b)) \<and>
    length (bufInput b) \<le> BufferMaxNumChunksInQueue \<and> length (bufOutput b) \<le> BufferMaxNumChunksInMemory"
  using books_reachable[OF assms(1)] assms(2)
  by (simp add: books_ok_def ids_clean_def pending_ok_def shape_ok_def)

theorem pending_gauge_witness:
  "\<exists>b. buffer_run sample_use sample_start = Some b \<and>
     pendingChunkCount (chunkMan b) = int (length (buffered b) + length (savedLog b))"
proof -
  obtain b where b: "buffer_run sample_use sample_start = Some b"
     "acceptedLog b = [(''a.ff'', ''old''), (''b.ff'', ''b.ff''), (''c.ff'', ''c.ff'')]" using sample_used by blast
  then show ?thesis
    using pending_gauge[OF buffer_run_reachable[OF b(1) sample_reachable]] by simp
qed

end
