(* ===== verification/Queue_Dirs.thy ===== *)
theory Queue_Dirs
  imports Chunk_Store
begin

text \<open>
  The queue directories of the hybrid buffer: \<open>buffer/hybridbuffer/queuedirs.go\<close> (the directory of
  a buffer ID, and the scan of the root directory for buffers with chunks left from before) and the
  check of the configuration in \<open>config.go\<close>. The root directory is an association list from entry
  names to entries; an entry has the mode \<open>stat\<close> reports, the content of its \<open>.id\<close> file, the
  extended attribute older versions used for the ID, and its files. The hash (MD5 in hexadecimal)
  is a parameter.
\<close>

unbundle bit_operations_syntax

record dir_entry =
  entry_mode :: "32 word"
  entry_id_file :: "bytes option"
  entry_xattr :: "bytes option"
  entry_files :: "file_dir option"

type_synonym root_dir = "(bytes \<times> dir_entry) list"

section \<open>The directory of a buffer\<close>

definition queueDirHashLength :: nat where
  "queueDirHashLength = 8"

definition sanitize_dir_name :: "bytes \<Rightarrow> bytes" where
  "sanitize_dir_name name = map (\<lambda>c. if c = CHR 0x00 \<or> c = CHR ''/'' then CHR ''_'' else c) name"

text \<open>
  The name of the directory below the root; a non-empty ID is assumed, since with an empty one the
  root itself is the queue directory.
\<close>

definition queue_dir_name :: "(bytes \<Rightarrow> bytes) \<Rightarrow> bytes \<Rightarrow> bytes" where
  "queue_dir_name md5hex bufferID =
     (let hash = md5hex bufferID
      in sanitize_dir_name bufferID @ ''.'' @ drop (length hash - queueDirHashLength) hash)"

text \<open>\<open>S_IFDIR\<close> and the permissions \<open>0o755\<close> that \<open>MkdirAll\<close> asks for, less those the process masks out.\<close>

definition new_dir_mode :: "32 word \<Rightarrow> 32 word" where
  "new_dir_mode umask = (0x4000 OR (0x1ED AND NOT umask))"

text \<open>Whether the directory can be made and the \<open>.id\<close> file written are arguments; failures are logged.\<close>

definition make_buffer_queue_dir ::
  "(bytes \<Rightarrow> bytes) \<Rightarrow> 32 word \<Rightarrow> bool \<Rightarrow> bool \<Rightarrow> bytes \<Rightarrow> root_dir \<Rightarrow> root_dir" where
  "make_buffer_queue_dir md5hex umask mkdirOk writeOk bufferID root =
     (let name = queue_dir_name md5hex bufferID;
          root1 = (if map_of root name = None \<and> mkdirOk
                   then AList.update name
                     \<lparr>entry_mode = new_dir_mode umask, entry_id_file = None, entry_xattr = None,
                      entry_files = Some []\<rparr> root
                   else root)
      in case map_of root1 name of
           None \<Rightarrow> root1
         | Some e \<Rightarrow> if writeOk then AList.update name (e\<lparr>entry_id_file := Some bufferID\<rparr>) root1 else root1)"

section \<open>Listing the buffers that have chunks\<close>

text \<open>
  \<open>unix.DT_DIR\<close> is the type number of a directory entry, 4, not a bit of \<open>st_mode\<close>; the code tests
  the mode against it.
\<close>

definition DT_DIR :: "32 word" where
  "DT_DIR = 4"

definition entry_buffer_id :: "dir_entry \<Rightarrow> bytes option" where
  "entry_buffer_id e = (case entry_id_file e of Some s \<Rightarrow> Some s | None \<Rightarrow> entry_xattr e)"

definition list_entry :: "(bytes \<Rightarrow> bool) \<Rightarrow> dir_entry \<Rightarrow> bytes option" where
  "list_entry isChunk e =
     (if entry_mode e AND DT_DIR = 0 then None
      else case entry_buffer_id e of
             None \<Rightarrow> None
           | Some idBytes \<Rightarrow>
               if idBytes = [] then None
               else
                 let (numChunks, op) =
                   count_existing_chunks True True (new_chunk_operator (entry_files e) isChunk 0) in
                 if numChunks > 0 then Some idBytes else None)"

text \<open>
  The root may not exist or not be readable; for an entry that cannot be examined \<open>statOk\<close> is false.
\<close>

definition list_buffer_queue_ids ::
  "(bytes \<Rightarrow> bool) \<Rightarrow> (bytes \<Rightarrow> bool) \<Rightarrow> root_dir option \<Rightarrow> bytes list" where
  "list_buffer_queue_ids isChunk statOk opened =
     (case opened of
        None \<Rightarrow> []
      | Some root \<Rightarrow>
          List.map_filter
            (\<lambda>name. if \<not> statOk name then None else Option.bind (map_of root name) (list_entry isChunk))
            (sort (map fst root)))"

section \<open>Configuration\<close>

record hybrid_config =
  RootPath :: bytes
  MaxBufSize :: "64 word"

definition verify_hybrid_config :: "hybrid_config \<Rightarrow> unit cfg" where
  "verify_hybrid_config cfg =
     (if RootPath cfg = [] then Inl (Unspecified ''.rootPath'')
      else if MaxBufSize cfg = 0 then Inl (Unspecified ''.maxBufSize'')
      else Inr ())"

section \<open>What is listed\<close>

lemma length_sanitize [simp]: "length (sanitize_dir_name name) = length name"
  by (simp add: sanitize_dir_name_def)

lemma sanitize_clean: "CHR ''/'' \<notin> set (sanitize_dir_name name) \<and> CHR 0x00 \<notin> set (sanitize_dir_name name)"
  by (auto simp: sanitize_dir_name_def)

lemma sanitize_id: "CHR ''/'' \<notin> set name \<Longrightarrow> CHR 0x00 \<notin> set name \<Longrightarrow> sanitize_dir_name name = name"
  unfolding sanitize_dir_name_def by (rule map_idI) auto

text \<open>The mode test depends on one permission bit only, that of reading by others.\<close>

lemma new_dir_mode_test: "new_dir_mode umask AND DT_DIR = 0 \<longleftrightarrow> bit umask 2"
proof -
  have d: "DT_DIR = push_bit 2 1" by (simp add: DT_DIR_def)
  have "bit (0x1ED :: 32 word) 2" "\<not> bit (0x4000 :: 32 word) 2" by simp_all
  then have "bit (new_dir_mode umask) 2 = (\<not> bit umask 2)"
    by (simp add: new_dir_mode_def bit_or_iff bit_and_iff bit_not_iff)
  moreover have "x AND DT_DIR = 0 \<longleftrightarrow> \<not> bit x 2" for x :: "32 word"
    by (simp add: DT_DIR_def and_exp_eq_0_iff_not_bit[of x 2, simplified])
  ultimately show ?thesis by blast
qed

lemma set_map_filter_Some: "set (List.map_filter f xs) = {y. \<exists>x \<in> set xs. f x = Some y}"
  by (induction xs) (auto simp: map_filter_simps split: option.splits)

lemma set_list_ids:
  "set (list_buffer_queue_ids isChunk (\<lambda>_. True) (Some root)) =
     {i. \<exists>name e. map_of root name = Some e \<and> list_entry isChunk e = Some i}"
proof -
  have "map_of root name = Some e \<Longrightarrow> name \<in> set (map fst root)" for name e
    by (metis map_of_SomeD image_eqI fst_conv list.set_map)
  then show ?thesis
    by (auto simp: list_buffer_queue_ids_def set_map_filter_Some bind_eq_Some_conv) blast+
qed

section \<open>Properties\<close>

text \<open>
  C35: Finding the queues of the last run. A buffer directory that has been made for an ID and holds
  at least one chunk file is listed at the next start exactly if the process's umask lets others
  read: the scan tests the mode of the directory against a directory-entry type instead of the
  directory bit. With a umask of 027 no queue is ever found again.
\<close>

theorem queue_found_iff:
  assumes "bufferID \<noteq> []" and "map_of root (queue_dir_name md5hex bufferID) = None"
    and "\<exists>fn \<in> set (map fst fs). isChunk fn"
    and "\<forall>name e. map_of root name = Some e \<longrightarrow> list_entry isChunk e \<noteq> Some bufferID"
  shows "bufferID \<in> set (list_buffer_queue_ids isChunk (\<lambda>_. True)
      (Some (AList.map_entry (queue_dir_name md5hex bufferID) (\<lambda>e. e\<lparr>entry_files := Some fs\<rparr>)
        (make_buffer_queue_dir md5hex umask True True bufferID root)))) \<longleftrightarrow> \<not> bit umask 2"
proof -
  let ?n = "queue_dir_name md5hex bufferID"
  let ?e = "\<lparr>entry_mode = new_dir_mode umask, entry_id_file = Some bufferID, entry_xattr = None, entry_files = Some fs\<rparr>"
  let ?root = "AList.map_entry ?n (\<lambda>e. e\<lparr>entry_files := Some fs\<rparr>) (make_buffer_queue_dir md5hex umask True True bufferID root)"
  have m: "map_of ?root name = (if name = ?n then Some ?e else map_of root name)" for name
    using assms(2) by (simp add: make_buffer_queue_dir_def Let_def map_of_map_entry update_conv')
  have "filter isChunk (map fst fs) \<noteq> []" using assms(3) by (simp add: filter_empty_conv)
  then have "list_entry isChunk ?e = (if bit umask 2 then None else Some bufferID)"
    using assms(1) new_dir_mode_test[of umask]
    by (auto simp: filter_map list_entry_def entry_buffer_id_def count_existing_chunks_def new_chunk_operator_def)
  then show ?thesis
    unfolding set_list_ids using assms(4) m by auto
qed

theorem queue_found_iff_witness:
  "''vmA'' \<notin> set (list_buffer_queue_ids (\<lambda>_. True) (\<lambda>_. True)
      (Some (AList.map_entry (queue_dir_name (\<lambda>_. ''0123456789abcdef'') ''vmA'') (\<lambda>e. e\<lparr>entry_files := Some [(''1.ff'', [])]\<rparr>)
        (make_buffer_queue_dir (\<lambda>_. ''0123456789abcdef'') 0x17 True True ''vmA'' []))))"
  by (subst queue_found_iff) (simp_all)

end
