(* ===== verification/Msgpack.thy ===== *)
theory Msgpack
  imports Prelude
begin

text \<open>
  The MessagePack encoders of \<open>output/fastmsgpack\<close> and the event time of
  \<open>output/fluentdforward/eventtime.go\<close>: functions that write at a position of a buffer of fixed
  length and return the next position. An index beyond the buffer panics; \<open>copy\<close> cuts the source
  short. The type codes are those the MessagePack specification assigns. The second half is a
  decoder written from that specification, for the subset that is used, against which the encoders
  and the serializer are proved.
\<close>

unbundle bit_operations_syntax

section \<open>Encoders\<close>

definition byte_of :: "nat \<Rightarrow> char" where
  "byte_of n = char_of (n mod 256)"

text \<open>\<open>byte(code) | byte(n)\<close>.\<close>

definition byte_or :: "nat \<Rightarrow> nat \<Rightarrow> char" where
  "byte_or code n = char_of (unat ((word_of_nat code :: 8 word) OR word_of_nat n))"

type_synonym cursor = "bytes \<times> nat"

definition put :: "char \<Rightarrow> cursor \<Rightarrow> cursor go" where
  "put c = (\<lambda>(buffer, pos). go_bind (go_set buffer pos c) (\<lambda>buffer. Inr (buffer, pos + 1)))"

definition write2 :: "nat \<Rightarrow> cursor \<Rightarrow> cursor go" where
  "write2 n cur = go_bind (put (byte_of (n div 2 ^ 8)) cur) (put (byte_of n))"

definition write4 :: "nat \<Rightarrow> cursor \<Rightarrow> cursor go" where
  "write4 n cur =
     go_bind (put (byte_of (n div 2 ^ 24)) cur) (\<lambda>cur.
     go_bind (put (byte_of (n div 2 ^ 16)) cur) (\<lambda>cur.
     go_bind (put (byte_of (n div 2 ^ 8)) cur) (put (byte_of n))))"

definition copy_bytes :: "bytes \<Rightarrow> cursor \<Rightarrow> cursor go" where
  "copy_bytes src = (\<lambda>(buffer, pos).
     go_bind (go_copy buffer pos src) (\<lambda>(buffer, n). Inr (buffer, pos + n)))"

text \<open>Headers: the \<open>uint16\<close> and \<open>uint32\<close> conversions are in \<open>write2\<close> and \<open>write4\<close>.\<close>

definition encode_array_len4 :: "nat \<Rightarrow> cursor \<Rightarrow> cursor go" where
  "encode_array_len4 n = put (byte_or 0x90 n)"

definition encode_map_len4 :: "nat \<Rightarrow> cursor \<Rightarrow> cursor go" where
  "encode_map_len4 n = put (byte_or 0x80 n)"

definition encode_map_len16 :: "nat \<Rightarrow> cursor \<Rightarrow> cursor go" where
  "encode_map_len16 n cur = go_bind (put (byte_of 0xDE) cur) (write2 n)"

definition encode_string_len4 :: "nat \<Rightarrow> cursor \<Rightarrow> cursor go" where
  "encode_string_len4 n = put (byte_or 0xA0 n)"

definition encode_string_len16 :: "nat \<Rightarrow> cursor \<Rightarrow> cursor go" where
  "encode_string_len16 n cur = go_bind (put (byte_of 0xDA) cur) (write2 n)"

definition encode_string_len32 :: "nat \<Rightarrow> cursor \<Rightarrow> cursor go" where
  "encode_string_len32 n cur = go_bind (put (byte_of 0xDB) cur) (write4 n)"

definition encode_string4 :: "bytes \<Rightarrow> cursor \<Rightarrow> cursor go" where
  "encode_string4 s cur = go_bind (encode_string_len4 (length s) cur) (copy_bytes s)"

definition encode_string16 :: "bytes \<Rightarrow> cursor \<Rightarrow> cursor go" where
  "encode_string16 s cur = go_bind (encode_string_len16 (length s) cur) (copy_bytes s)"

definition encode_string32 :: "bytes \<Rightarrow> cursor \<Rightarrow> cursor go" where
  "encode_string32 s cur = go_bind (encode_string_len32 (length s) cur) (copy_bytes s)"

definition reserve_len4 :: "nat \<Rightarrow> nat" where
  "reserve_len4 pos = pos + 1"

definition reserve_len16 :: "nat \<Rightarrow> nat" where
  "reserve_len16 pos = pos + 3"

definition encode_ext_header8 :: "nat \<Rightarrow> cursor \<Rightarrow> cursor go" where
  "encode_ext_header8 typeID cur = go_bind (put (byte_of 0xD7) cur) (put (byte_of typeID))"

text \<open>
  Seconds and nanoseconds of an instant given in nanoseconds since the epoch; the seconds are
  converted to 32 bits.
\<close>

definition encode_event_time :: "int \<Rightarrow> cursor \<Rightarrow> cursor go" where
  "encode_event_time t cur =
     go_bind (encode_ext_header8 0 cur) (\<lambda>cur.
     go_bind (write4 (nat (t div 1000000000 mod 2 ^ 32)) cur) (write4 (nat (t mod 1000000000))))"

section \<open>What an encoder writes\<close>

text \<open>\<open>emits enc w\<close>: with room for it, the encoder writes the bytes \<open>w\<close> and advances past them.\<close>

definition emits :: "(cursor \<Rightarrow> cursor go) \<Rightarrow> bytes \<Rightarrow> bool" where
  "emits enc w =
     (\<forall>b pos. pos + length w \<le> length b \<longrightarrow> enc (b, pos) = Inr (patch b pos w, pos + length w))"

named_theorems emits_intros "what the encoders write"

lemma emitsD: "emits enc w \<Longrightarrow> pos + length w \<le> length b \<Longrightarrow> enc (b, pos) = Inr (patch b pos w, pos + length w)"
  by (simp add: emits_def)

lemma emits_put [emits_intros]: "emits (put c) [c]"
  by (simp add: emits_def put_def go_set_patch)

lemma emits_copy [emits_intros]: "emits (copy_bytes s) s"
  by (simp add: emits_def copy_bytes_def go_copy_fits)

lemma emits_seq:
  assumes "emits e1 w1" and "emits e2 w2"
  shows "emits (\<lambda>cur. go_bind (e1 cur) e2) (w1 @ w2)"
  unfolding emits_def
proof (intro allI impI)
  fix b :: bytes and pos
  assume fits: "pos + length (w1 @ w2) \<le> length b"
  have "e1 (b, pos) = Inr (patch b pos w1, pos + length w1)"
    using fits by (intro emitsD[OF assms(1)]) simp
  moreover have "e2 (patch b pos w1, pos + length w1) =
      Inr (patch (patch b pos w1) (pos + length w1) w2, pos + length w1 + length w2)"
    using fits by (intro emitsD[OF assms(2)]) simp
  ultimately show "go_bind (e1 (b, pos)) e2 = Inr (patch b pos (w1 @ w2), pos + length (w1 @ w2))"
    using fits by (simp add: patch_patch)
qed

lemma emits_nil [emits_intros]: "emits Inr []"
  by (simp add: emits_def)

definition be2 :: "nat \<Rightarrow> bytes" where
  "be2 n = [byte_of (n div 2 ^ 8), byte_of n]"

definition be4 :: "nat \<Rightarrow> bytes" where
  "be4 n = [byte_of (n div 2 ^ 24), byte_of (n div 2 ^ 16), byte_of (n div 2 ^ 8), byte_of n]"

lemma emits_write2 [emits_intros]: "emits (write2 n) (be2 n)"
  using emits_seq[OF emits_put emits_put] by (simp add: write2_def[abs_def] be2_def)

lemma emits_write4 [emits_intros]: "emits (write4 n) (be4 n)"
  using emits_seq[OF emits_put emits_seq[OF emits_put emits_seq[OF emits_put emits_put]]]
  by (simp add: write4_def[abs_def] be4_def)

definition str4 :: "bytes \<Rightarrow> bytes" where "str4 s = byte_or 0xA0 (length s) # s"
definition str16 :: "bytes \<Rightarrow> bytes" where "str16 s = byte_of 0xDA # be2 (length s) @ s"
definition str32 :: "bytes \<Rightarrow> bytes" where "str32 s = byte_of 0xDB # be4 (length s) @ s"

lemma emits_header16: "emits (\<lambda>cur. go_bind (put c cur) (write2 n)) (c # be2 n)"
  using emits_seq[OF emits_put emits_write2] by simp

lemma emits_header32: "emits (\<lambda>cur. go_bind (put c cur) (write4 n)) (c # be4 n)"
  using emits_seq[OF emits_put emits_write4] by simp

lemma emits_string4 [emits_intros]: "emits (encode_string4 s) (str4 s)"
  using emits_seq[OF emits_put emits_copy]
  by (simp add: encode_string4_def[abs_def] encode_string_len4_def str4_def)

lemma emits_string16 [emits_intros]: "emits (encode_string16 s) (str16 s)"
  using emits_seq[OF emits_header16 emits_copy]
  by (simp add: encode_string16_def[abs_def] encode_string_len16_def str16_def)

lemma emits_string32 [emits_intros]: "emits (encode_string32 s) (str32 s)"
  using emits_seq[OF emits_header32 emits_copy]
  by (simp add: encode_string32_def[abs_def] encode_string_len32_def str32_def)

lemma emits_array_len4 [emits_intros]: "emits (encode_array_len4 n) [byte_or 0x90 n]"
  by (simp add: encode_array_len4_def emits_put)

lemma emits_map_len4 [emits_intros]: "emits (encode_map_len4 n) [byte_or 0x80 n]"
  by (simp add: encode_map_len4_def emits_put)

lemma emits_map_len16 [emits_intros]: "emits (encode_map_len16 n) (byte_of 0xDE # be2 n)"
  using emits_header16 by (simp add: encode_map_len16_def[abs_def])

definition event_time :: "int \<Rightarrow> bytes" where
  "event_time t = byte_of 0xD7 # byte_of 0 # be4 (nat (t div 1000000000 mod 2 ^ 32)) @ be4 (nat (t mod 1000000000))"

lemma emits_event_time [emits_intros]: "emits (encode_event_time t) (event_time t)"
  using emits_seq[OF emits_seq[OF emits_put emits_put] emits_seq[OF emits_write4 emits_write4]]
  by (simp add: encode_event_time_def[abs_def] encode_ext_header8_def[abs_def] event_time_def)

section \<open>A decoder\<close>

text \<open>
  Strings, arrays, maps and the extension type 0 of 8 bytes (seconds and nanoseconds), from the
  MessagePack specification. The first argument bounds the nesting.
\<close>

datatype msg = MStr bytes | MArr "msg list" | MMap "(msg \<times> msg) list" | MTime nat nat

definition of_be :: "bytes \<Rightarrow> nat" where
  "of_be bs = foldl (\<lambda>n c. n * 256 + of_char c) 0 bs"

definition take_str :: "nat \<Rightarrow> bytes \<Rightarrow> (msg \<times> bytes) option" where
  "take_str n bs = (if n \<le> length bs then Some (MStr (take n bs), drop n bs) else None)"

fun dec_list :: "(bytes \<Rightarrow> (msg \<times> bytes) option) \<Rightarrow> nat \<Rightarrow> bytes \<Rightarrow> (msg list \<times> bytes) option" where
  "dec_list d 0 bs = Some ([], bs)"
| "dec_list d (Suc n) bs =
     Option.bind (d bs) (\<lambda>(x, bs). Option.bind (dec_list d n bs) (\<lambda>(xs, bs). Some (x # xs, bs)))"

fun dec_pairs :: "(bytes \<Rightarrow> (msg \<times> bytes) option) \<Rightarrow> nat \<Rightarrow> bytes \<Rightarrow> ((msg \<times> msg) list \<times> bytes) option" where
  "dec_pairs d 0 bs = Some ([], bs)"
| "dec_pairs d (Suc n) bs =
     Option.bind (d bs) (\<lambda>(k, bs). Option.bind (d bs) (\<lambda>(v, bs).
     Option.bind (dec_pairs d n bs) (\<lambda>(xs, bs). Some ((k, v) # xs, bs))))"

definition wrap :: "('a \<Rightarrow> msg) \<Rightarrow> ('a \<times> bytes) option \<Rightarrow> (msg \<times> bytes) option" where
  "wrap f r = map_option (\<lambda>(x, bs). (f x, bs)) r"

fun decode :: "nat \<Rightarrow> bytes \<Rightarrow> (msg \<times> bytes) option" where
  "decode 0 bs = None"
| "decode (Suc depth) [] = None"
| "decode (Suc depth) (c # bs) =
     (let t = of_char c :: nat in
      if 0x80 \<le> t \<and> t < 0x90 then wrap MMap (dec_pairs (decode depth) (t - 0x80) bs)
      else if 0x90 \<le> t \<and> t < 0xA0 then wrap MArr (dec_list (decode depth) (t - 0x90) bs)
      else if 0xA0 \<le> t \<and> t < 0xC0 then take_str (t - 0xA0) bs
      else if t = 0xDA then
        (if 2 \<le> length bs then take_str (of_be (take 2 bs)) (drop 2 bs) else None)
      else if t = 0xDB then
        (if 4 \<le> length bs then take_str (of_be (take 4 bs)) (drop 4 bs) else None)
      else if t = 0xDE then
        (if 2 \<le> length bs then wrap MMap (dec_pairs (decode depth) (of_be (take 2 bs)) (drop 2 bs)) else None)
      else if t = 0xD7 then
        (if 9 \<le> length bs \<and> of_char (hd bs) = (0::nat)
         then Some (MTime (of_be (take 4 (tl bs))) (of_be (take 4 (drop 5 bs))), drop 9 bs) else None)
      else None)"

section \<open>The decoder reads what the encoders write\<close>

definition denotes :: "nat \<Rightarrow> bytes \<Rightarrow> msg \<Rightarrow> bool" where
  "denotes depth w v = (\<forall>rest. decode depth (w @ rest) = Some (v, rest))"

lemma of_char_byte_of [simp]: "(of_char (byte_of n) :: nat) = n mod 256"
  by (simp add: byte_of_def)

lemma of_char_byte_or:
  assumes "n < 16" and "code \<in> {0x80, 0x90, 0xA0}"
  shows "(of_char (byte_or code n) :: nat) = code + n"
proof -
  have "\<forall>m\<in>set [0..<16]. \<forall>c\<in>{0x80, 0x90, 0xA0}. (of_char (byte_or c m) :: nat) = c + m"
    by (simp add: upt_rec byte_or_def)
  moreover have "n \<in> set [0..<16]" using assms(1) by simp
  ultimately show ?thesis using assms(2) by blast
qed

lemma of_be_be2: "of_be (be2 n) = n mod 65536"
proof -
  have "n div 256 mod 256 * 256 + n mod 256 = n mod (256 * 256)"
    using mod_mult2_eq[of n 256 256] by simp
  then show ?thesis by (simp add: of_be_def be2_def)
qed

lemma of_be_be4: "of_be (be4 n) = n mod 2 ^ 32"
proof -
  have 1: "n mod 2 ^ 32 = n div 2 ^ 8 mod 2 ^ 24 * 256 + n mod 256"
    using mod_mult2_eq[of n "2 ^ 8" "2 ^ 24"] by simp
  have 2: "n div 2 ^ 8 mod 2 ^ 24 = n div 2 ^ 16 mod 2 ^ 16 * 256 + n div 2 ^ 8 mod 256"
    using mod_mult2_eq[of "n div 2 ^ 8" "2 ^ 8" "2 ^ 16"] by (simp add: div_mult2_eq[symmetric])
  have 3: "n div 2 ^ 16 mod 2 ^ 16 = n div 2 ^ 24 mod 256 * 256 + n div 2 ^ 16 mod 256"
    using mod_mult2_eq[of "n div 2 ^ 16" "2 ^ 8" "2 ^ 8"] by (simp add: div_mult2_eq[symmetric])
  show ?thesis unfolding 1 2 3 by (simp add: of_be_def be4_def)
qed

lemma length_be [simp]: "length (be2 n) = 2" "length (be4 n) = 4"
  by (simp_all add: be2_def be4_def)

lemma decode_str4: "length s < 16 \<Longrightarrow> denotes (Suc k) (str4 s) (MStr s)"
  by (simp add: denotes_def str4_def of_char_byte_or take_str_def Let_def)

lemma decode_str16: "length s < 65536 \<Longrightarrow> denotes (Suc k) (str16 s) (MStr s)"
  by (simp add: denotes_def str16_def take_str_def Let_def of_be_be2)

lemma decode_str32: "length s < 2 ^ 32 \<Longrightarrow> denotes (Suc k) (str32 s) (MStr s)"
  by (simp add: denotes_def str32_def take_str_def Let_def of_be_be4)

lemma decode_ext8:
  assumes "length a = 4" and "length b = 4"
  shows "decode (Suc k) (byte_of 0xD7 # byte_of 0 # a @ b @ rest) = Some (MTime (of_be a) (of_be b), rest)"
proof -
  have "drop 5 (byte_of 0 # a @ b @ rest) = b @ rest" "drop 9 (byte_of 0 # a @ b @ rest) = rest"
    using assms by (simp_all add: drop_Cons')
  then show ?thesis using assms by (simp add: Let_def)
qed

lemma decode_event_time:
  "denotes (Suc k) (event_time t) (MTime (nat (t div 1000000000 mod 2 ^ 32)) (nat (t mod 1000000000)))"
proof -
  have n: "nat (t mod 1000000000) mod 2 ^ 32 = nat (t mod 1000000000)"
  proof (rule mod_less)
    have "t mod 1000000000 < 1000000000" by simp
    then show "nat (t mod 1000000000) < 2 ^ 32" by simp
  qed
  have s: "nat (t div 1000000000 mod 2 ^ 32) mod 2 ^ 32 = nat (t div 1000000000 mod 2 ^ 32)"
    by (rule mod_less) (simp add: nat_less_iff)
  have "decode (Suc k) (event_time t @ rest) = Some (MTime (nat (t div 1000000000 mod 2 ^ 32)) (nat (t mod 1000000000)), rest)" for rest
    unfolding event_time_def append_Cons append_assoc
    by (subst decode_ext8) (simp_all only: length_be of_be_be4 n s)
  then show ?thesis by (simp add: denotes_def)
qed

lemma dec_list_denotes:
  "list_all2 (denotes k) ws vs \<Longrightarrow> dec_list (decode k) (length ws) (concat ws @ rest) = Some (vs, rest)"
  by (induction ws vs rule: list_all2_induct) (simp_all add: denotes_def)

lemma dec_pairs_denotes:
  "list_all2 (\<lambda>w (x, y). denotes k (fst w) x \<and> denotes k (snd w) y) ws vs \<Longrightarrow>
    dec_pairs (decode k) (length ws) (concat (map (\<lambda>w. fst w @ snd w) ws) @ rest) = Some (vs, rest)"
proof (induction ws vs rule: list_all2_induct)
  case (Cons w ws v vs)
  then show ?case by (cases v) (simp add: denotes_def)
qed simp

lemma decode_map4:
  assumes "length ws < 16" and "list_all2 (\<lambda>w (x, y). denotes k (fst w) x \<and> denotes k (snd w) y) ws vs"
  shows "denotes (Suc k) (byte_or 0x80 (length ws) # concat (map (\<lambda>w. fst w @ snd w) ws)) (MMap vs)"
  using dec_pairs_denotes[OF assms(2)] assms(1)
  by (simp add: denotes_def of_char_byte_or wrap_def Let_def)

lemma decode_map16:
  assumes "length ws < 65536" and "list_all2 (\<lambda>w (x, y). denotes k (fst w) x \<and> denotes k (snd w) y) ws vs"
  shows "denotes (Suc k) (byte_of 0xDE # be2 (length ws) @ concat (map (\<lambda>w. fst w @ snd w) ws)) (MMap vs)"
  using dec_pairs_denotes[OF assms(2)] assms(1)
  by (simp add: denotes_def wrap_def Let_def of_be_be2)

lemma decode_array4:
  assumes "length ws < 16" and "list_all2 (denotes k) ws vs"
  shows "denotes (Suc k) (byte_or 0x90 (length ws) # concat ws) (MArr vs)"
  using dec_list_denotes[OF assms(2)] assms(1)
  by (simp add: denotes_def of_char_byte_or wrap_def Let_def)

end
