(* ===== verification/Rewriters.thy ===== *)
theory Rewriters
  imports Unescape Log_Record
begin

text \<open>
  Field rewriters, which write the value of a field during serialization: \<open>rewrite/rcopy\<close>,
  \<open>rewrite/rinline\<close>, \<open>rewrite/runescape\<close>, and their construction and verification in
  \<open>base/bsupport/logrewrites.go\<close>. The interface \<open>LogRewriter\<close> of \<open>base/logrewriter.go\<close> is the locale
  \<open>log_rewriter\<close>: a rewriter writes at most the length it announced.
\<close>

section \<open>Configuration and construction\<close>

datatype rewriter_config = CopyConfig | InlineConfig bytes | UnescapeConfig

datatype rewriter =
    CopyRewriter
  | InlineRewriter bytes bytes locator rewriter
  | UnescapeRewriter

definition new_copy_rewriter :: "rewriter option \<Rightarrow> rewriter go" where
  "new_copy_rewriter next_rw =
     (if next_rw \<noteq> None then Inl (LoggerPanic ''copy must be the last rewriter'') else Inr CopyRewriter)"

definition new_unescape_rewriter :: "rewriter option \<Rightarrow> rewriter go" where
  "new_unescape_rewriter next_rw =
     (if next_rw \<noteq> None then Inl (LoggerPanic ''unescape must be the last rewriter'') else Inr UnescapeRewriter)"

definition verify_copy :: "bool \<Rightarrow> unit cfg" where
  "verify_copy hasNext = (if hasNext then Inl (InvalidValue ''copy must be the last rewriter'') else Inr ())"

definition verify_unescape :: "bool \<Rightarrow> unit cfg" where
  "verify_unescape hasNext = (if hasNext then Inl (InvalidValue ''unescape must be the last rewriter'') else Inr ())"

fun new_rewriter :: "rewriter_config \<Rightarrow> log_schema \<Rightarrow> rewriter option \<Rightarrow> rewriter go" where
  "new_rewriter CopyConfig schema next_rw = new_copy_rewriter next_rw"
| "new_rewriter (InlineConfig field) schema next_rw =
     (case next_rw of
        None \<Rightarrow> Inl (LoggerPanic ''inline cannot be the last rewriter'')
      | Some rw \<Rightarrow>
          go_bind (must_create_field_locator schema field) (\<lambda>loc.
          go_bind (loc_name loc schema) (\<lambda>name. Inr (InlineRewriter (name @ ''='') '' '' loc rw))))"
| "new_rewriter UnescapeConfig schema next_rw = new_unescape_rewriter next_rw"

fun verify_rewriter :: "rewriter_config \<Rightarrow> log_schema \<Rightarrow> bool \<Rightarrow> unit cfg" where
  "verify_rewriter CopyConfig schema hasNext = verify_copy hasNext"
| "verify_rewriter (InlineConfig field) schema hasNext =
     (if \<not> hasNext then Inl (InvalidValue ''inline cannot be the last rewriter'')
      else if field = [] then Inl (Unspecified ''.field'')
      else case create_field_locator schema field of Inl e \<Rightarrow> Inl e | Inr loc \<Rightarrow> Inr ())"
| "verify_rewriter UnescapeConfig schema hasNext = verify_unescape hasNext"

text \<open>The loop runs from the last configuration to the first; no configuration gives \<open>nil\<close>.\<close>

fun new_rewriters_from_config :: "log_schema \<Rightarrow> rewriter_config list \<Rightarrow> rewriter option go" where
  "new_rewriters_from_config schema [] = Inr None"
| "new_rewriters_from_config schema (c # cs) =
     go_bind (new_rewriters_from_config schema cs) (\<lambda>next_rw.
     go_bind (new_rewriter c schema next_rw) (\<lambda>rw. Inr (Some rw)))"

fun verify_rewriter_configs :: "log_schema \<Rightarrow> rewriter_config list \<Rightarrow> unit cfg" where
  "verify_rewriter_configs schema [] = Inr ()"
| "verify_rewriter_configs schema (c # cs) =
     (case verify_rewriter c schema (cs \<noteq> []) of
        Inl e \<Rightarrow> Inl e
      | Inr _ \<Rightarrow> verify_rewriter_configs schema cs)"

section \<open>Rewriting\<close>

fun max_field_length :: "rewriter \<Rightarrow> bytes \<Rightarrow> log_record \<Rightarrow> nat go" where
  "max_field_length CopyRewriter v r = Inr (length v)"
| "max_field_length (InlineRewriter header separator loc next_rw) v r =
     go_bind (loc_get loc (Fields r)) (\<lambda>fieldValue.
     go_bind (max_field_length next_rw v r) (\<lambda>n.
       Inr (if fieldValue \<noteq> [] then length header + length fieldValue + length separator + n else n)))"
| "max_field_length UnescapeRewriter v r = Inr (length v)"

text \<open>
  \<open>WriteFieldBody\<close> on the rest of the buffer: the new rest, the length written, and the record,
  whose unescaped mark a rewriter may set. \<open>buffer[end:]\<close> never fails since \<open>copy\<close> stays within.
\<close>

definition in_rest :: "nat \<Rightarrow> (bytes \<Rightarrow> (bytes \<times> nat \<times> log_record) go) \<Rightarrow> bytes \<Rightarrow> (bytes \<times> nat \<times> log_record) go" where
  "in_rest i f buf = go_bind (f (drop i buf)) (\<lambda>(rest, n, r). Inr (take i buf @ rest, i + n, r))"

definition write_copied :: "bytes \<Rightarrow> log_record \<Rightarrow> bytes \<Rightarrow> (bytes \<times> nat \<times> log_record) go" where
  "write_copied v r buf = go_bind (go_copy buf 0 v) (\<lambda>(buf, n). Inr (buf, n, r))"

definition write_unescaped :: "bytes \<Rightarrow> log_record \<Rightarrow> bytes \<Rightarrow> (bytes \<times> nat \<times> log_record) go" where
  "write_unescaped v r buf =
     (if Unescaped r then go_bind (go_copy buf 0 v) (\<lambda>(buf, n). Inr (buf, n, r))
      else let r' = r\<lparr>Unescaped := True\<rparr> in
        case find_first syslog_unescaper v of
          None \<Rightarrow> go_bind (go_copy buf 0 v) (\<lambda>(buf, n). Inr (buf, n, r'))
        | Some first \<Rightarrow> go_bind (run_to_buffer syslog_unescaper v first buf) (\<lambda>(buf, n). Inr (buf, n, r')))"

fun write_field_body :: "rewriter \<Rightarrow> bytes \<Rightarrow> log_record \<Rightarrow> bytes \<Rightarrow> (bytes \<times> nat \<times> log_record) go" where
  "write_field_body CopyRewriter v r buf = write_copied v r buf"
| "write_field_body (InlineRewriter header separator loc next_rw) v r buf =
     go_bind (loc_get loc (Fields r)) (\<lambda>fieldValue.
       if fieldValue \<noteq> [] then
         go_bind (go_copy buf 0 header) (\<lambda>(buf, n1).
         go_bind (go_copy buf n1 fieldValue) (\<lambda>(buf, n2).
         go_bind (go_copy buf (n1 + n2) separator) (\<lambda>(buf, n3).
           in_rest (n1 + n2 + n3) (write_field_body next_rw v r) buf)))
       else write_field_body next_rw v r buf)"
| "write_field_body UnescapeRewriter v r buf = write_unescaped v r buf"

lemmas rewriter_defs [simp] = new_copy_rewriter_def new_unescape_rewriter_def verify_copy_def
  verify_unescape_def write_copied_def write_unescaped_def

section \<open>The contract of a rewriter\<close>

locale log_rewriter =
  fixes valid :: "'w \<Rightarrow> log_record \<Rightarrow> bool"
    and max_len :: "'w \<Rightarrow> bytes \<Rightarrow> log_record \<Rightarrow> nat go"
    and write_body :: "'w \<Rightarrow> bytes \<Rightarrow> log_record \<Rightarrow> bytes \<Rightarrow> (bytes \<times> nat \<times> log_record) go"
    and limit :: "'w \<Rightarrow> bytes \<Rightarrow> log_record \<Rightarrow> nat"
    and body :: "'w \<Rightarrow> bytes \<Rightarrow> log_record \<Rightarrow> bytes"
    and after :: "'w \<Rightarrow> log_record \<Rightarrow> log_record"
  assumes announces: "valid w r \<Longrightarrow> max_len w v r = Inr (limit w v r)"
    and bounded: "valid w r \<Longrightarrow> length (body w v r) \<le> limit w v r"
    and writes: "valid w r \<Longrightarrow> limit w v r \<le> length buf \<Longrightarrow>
      write_body w v r buf = Inr (patch buf 0 (body w v r), length (body w v r), after w r)"
    and keeps: "Fields (after w r) = Fields r \<and> Timestamp (after w r) = Timestamp r"

text \<open>What each rewriter writes, and the record it leaves.\<close>

fun rewriter_valid :: "rewriter \<Rightarrow> log_record \<Rightarrow> bool" where
  "rewriter_valid (InlineRewriter header separator loc next_rw) r =
     (loc_ok (length (Fields r)) loc \<and> rewriter_valid next_rw r)"
| "rewriter_valid _ r = True"

definition inlined :: "bytes \<Rightarrow> bytes \<Rightarrow> locator \<Rightarrow> log_record \<Rightarrow> bytes" where
  "inlined header separator loc r =
     (let v = Fields r ! nat loc in if v = [] then [] else header @ v @ separator)"

fun rewriter_limit :: "rewriter \<Rightarrow> bytes \<Rightarrow> log_record \<Rightarrow> nat" where
  "rewriter_limit (InlineRewriter header separator loc next_rw) v r =
     length (inlined header separator loc r) + rewriter_limit next_rw v r"
| "rewriter_limit _ v r = length v"

fun rewritten :: "rewriter \<Rightarrow> bytes \<Rightarrow> log_record \<Rightarrow> bytes" where
  "rewritten CopyRewriter v r = v"
| "rewritten (InlineRewriter header separator loc next_rw) v r =
     inlined header separator loc r @ rewritten next_rw v r"
| "rewritten UnescapeRewriter v r = (if Unescaped r then v else unescape_spec syslog_unescaper v)"

fun after_rewrite :: "rewriter \<Rightarrow> log_record \<Rightarrow> log_record" where
  "after_rewrite CopyRewriter r = r"
| "after_rewrite (InlineRewriter header separator loc next_rw) r = after_rewrite next_rw r"
| "after_rewrite UnescapeRewriter r = r\<lparr>Unescaped := True\<rparr>"

lemma max_field_length_ok: "rewriter_valid w r \<Longrightarrow> max_field_length w v r = Inr (rewriter_limit w v r)"
  by (induction w) (simp_all add: loc_get_ok inlined_def Let_def)

lemma rewritten_bounded: "length (rewritten w v r) \<le> rewriter_limit w v r"
  by (induction w) (simp_all add: unescape_spec_length)

lemma patch_drop: "i + length xs \<le> length b \<Longrightarrow> take i b @ patch (drop i b) 0 xs = patch b i xs"
  by (simp add: patch_def add.commute)

lemma in_rest_patch:
  assumes "f (drop i b) = Inr (patch (drop i b) 0 xs, length xs, r')" and "i + length xs \<le> length b"
  shows "in_rest i f b = Inr (patch b i xs, i + length xs, r')"
  using assms by (simp add: in_rest_def patch_drop)

lemma write_copy: "length v \<le> length buf \<Longrightarrow> go_copy buf 0 v = Inr (patch buf 0 v, length v)"
  using go_copy_fits[of 0 v buf] by simp

lemma write_field_body_ok:
  "rewriter_valid w r \<Longrightarrow> rewriter_limit w v r \<le> length buf \<Longrightarrow>
    write_field_body w v r buf =
      Inr (patch buf 0 (rewritten w v r), length (rewritten w v r), after_rewrite w r)"
proof (induction w arbitrary: buf)
  case CopyRewriter
  then show ?case by (simp add: write_copy)
next
  case UnescapeRewriter
  show ?case
  proof (cases "find_first syslog_unescaper v")
    case None
    then have "unescape_spec syslog_unescaper v = v"
      by (simp add: find_first_def unescape_spec_id)
    then show ?thesis using UnescapeRewriter None by (simp add: write_copy)
  next
    case (Some first)
    then show ?thesis using UnescapeRewriter run_to_buffer_correct[OF Some, of buf] by (simp add: write_copy)
  qed
next
  case (InlineRewriter header separator loc w)
  let ?v = "Fields r ! nat loc"
  have loc: "loc_get loc (Fields r) = Inr ?v" using InlineRewriter(2) by (simp add: loc_get_ok)
  show ?case
  proof (cases "?v = []")
    case True
    then show ?thesis using InlineRewriter loc by (simp add: inlined_def)
  next
    case False
    let ?pre = "header @ ?v @ separator"
    let ?b = "patch buf 0 ?pre"
    have room: "length ?pre + rewriter_limit w v r \<le> length buf"
      using InlineRewriter(3) False by (simp add: inlined_def)
    have c1: "go_copy buf 0 header = Inr (patch buf 0 header, length header)"
      using room by (simp add: write_copy)
    have c2: "go_copy (patch buf 0 header) (length header) ?v = Inr (patch buf 0 (header @ ?v), length ?v)"
      using room go_copy_fits[of "length header" ?v "patch buf 0 header"] patch_patch[of 0 header ?v buf]
      by simp
    have c3: "go_copy (patch buf 0 (header @ ?v)) (length header + length ?v) separator =
        Inr (?b, length separator)"
      using room go_copy_fits[of "length header + length ?v" separator "patch buf 0 (header @ ?v)"]
        patch_patch[of 0 "header @ ?v" separator buf] by simp
    have "write_field_body w v r (drop (length ?pre) ?b) =
        Inr (patch (drop (length ?pre) ?b) 0 (rewritten w v r), length (rewritten w v r), after_rewrite w r)"
      using InlineRewriter room by (intro InlineRewriter.IH) simp_all
    then have "in_rest (length ?pre) (write_field_body w v r) ?b =
        Inr (patch ?b (length ?pre) (rewritten w v r), length ?pre + length (rewritten w v r), after_rewrite w r)"
      using room rewritten_bounded[of w v r] by (intro in_rest_patch) simp_all
    moreover have "patch ?b (length ?pre) (rewritten w v r) = patch buf 0 (?pre @ rewritten w v r)"
      using room rewritten_bounded[of w v r] patch_patch[of 0 ?pre "rewritten w v r" buf] by simp
    ultimately show ?thesis using loc False c1 c2 c3 by (simp add: inlined_def add.assoc)
  qed
qed

lemma after_rewrite_keeps: "Fields (after_rewrite w r) = Fields r \<and> Timestamp (after_rewrite w r) = Timestamp r"
  by (induction w) simp_all

interpretation rw: log_rewriter rewriter_valid max_field_length write_field_body rewriter_limit rewritten after_rewrite
  by unfold_locales
    (simp_all add: max_field_length_ok rewritten_bounded write_field_body_ok after_rewrite_keeps)

section \<open>Verified configurations\<close>

text \<open>A verified list of configurations builds a chain that is valid for the records of the schema.\<close>

lemma verified_rewriters:
  "verify_rewriter_configs schema cs = Inr () \<Longrightarrow> cs \<noteq> [] \<Longrightarrow>
    \<exists>rw. new_rewriters_from_config schema cs = Inr (Some rw) \<and>
      (\<forall>r. length (fieldNames schema) \<le> length (Fields r) \<longrightarrow> rewriter_valid rw r)"
proof (induction cs)
  case (Cons c cs)
  have v: "verify_rewriter c schema (cs \<noteq> []) = Inr ()" "verify_rewriter_configs schema cs = Inr ()"
    using Cons(2) by (auto split: sum.splits)
  show ?case
  proof (cases "cs = []")
    case True
    then show ?thesis using v(1) by (cases c) auto
  next
    case False
    obtain rw where rw: "new_rewriters_from_config schema cs = Inr (Some rw)"
      "\<forall>r. length (fieldNames schema) \<le> length (Fields r) \<longrightarrow> rewriter_valid rw r"
      using Cons(1)[OF v(2) False] by blast
    obtain field where c: "c = InlineConfig field" using v(1) False by (cases c) (auto split: if_splits)
    obtain loc where loc: "create_field_locator schema field = Inr loc"
      using v(1) False unfolding c by (auto split: if_splits sum.splits)
    from create_field_locator_ok[OF this] have "loc_ok (length (fieldNames schema)) loc" "loc_name loc schema = Inr field"
      by auto
    then show ?thesis using rw loc by (auto simp: c must_create_field_locator_def loc_ok_def)
  qed
qed simp

end
