(* ===== verification/Event_Serializer.thy ===== *)
theory Event_Serializer
  imports Msgpack Rewriters Syslog
begin

text \<open>
  The fluentd serializer, \<open>output/fluentdforward/eventserializer.go\<close>: a record becomes the
  MessagePack array of its time and a map of its fields, with the environment fields in a nested
  map. The serializer keeps one buffer, reused for every record. The four slices that are indexed
  in parallel have one length by construction and are zipped here.
\<close>

record serialization_config =
  environmentFields :: "bytes list"
  hiddenFields :: "bytes list"
  rewriteFields :: "(bytes \<times> rewriter_config list) list"

text \<open>One entry per field of the schema: masked, its serialized key, its rewriter.\<close>

type_synonym field_slot = "bool \<times> bytes \<times> rewriter option"

record event_serializer =
  fieldSlots :: "field_slot list"
  envFields :: "(locator \<times> bytes) list"
  eventBuffer :: bytes

section \<open>Construction\<close>

definition encode_string :: "bytes \<Rightarrow> cursor \<Rightarrow> cursor go" where
  "encode_string s =
     (if length s < 16 then encode_string4 s
      else if length s < 65536 then encode_string16 s
      else encode_string32 s)"

definition serialize_string :: "bytes \<Rightarrow> bytes go" where
  "serialize_string key =
     go_bind (encode_string key (replicate (5 + length key) (CHR 0x00), 0)) (\<lambda>(buf, e). go_slice buf 0 (int e))"

fun map_go :: "('a \<Rightarrow> 'b go) \<Rightarrow> 'a list \<Rightarrow> 'b list go" where
  "map_go f [] = Inr []"
| "map_go f (x # xs) = go_bind (f x) (\<lambda>y. go_bind (map_go f xs) (\<lambda>ys. Inr (y # ys)))"

definition new_field_slot :: "log_schema \<Rightarrow> serialization_config \<Rightarrow> bytes \<Rightarrow> field_slot go" where
  "new_field_slot schema config name =
     (let masked = (name \<in> set (environmentFields config) \<or> name \<in> set (hiddenFields config)) in
      go_bind (case map_of (rewriteFields config) name of
          None \<Rightarrow> Inr None
        | Some cs \<Rightarrow> new_rewriters_from_config schema cs) (\<lambda>rw.
      go_bind (serialize_string name) (\<lambda>key. Inr (masked, key, rw))))"

definition new_event_serializer :: "log_schema \<Rightarrow> serialization_config \<Rightarrow> event_serializer cfg go" where
  "new_event_serializer schema config =
     (case create_field_locators schema (environmentFields config) of
        Inl e \<Rightarrow> Inr (Inl e)
      | Inr locs \<Rightarrow>
          go_bind (map_go (new_field_slot schema config) (fieldNames schema)) (\<lambda>slots.
          go_bind (map_go serialize_string (environmentFields config)) (\<lambda>keys.
            Inr (Inr \<lparr>fieldSlots = slots, envFields = zip locs keys,
                      eventBuffer = replicate (2 * InputLogMaxRecordBytes) (CHR 0x00)\<rparr>))))"

definition must_new_event_serializer :: "log_schema \<Rightarrow> serialization_config \<Rightarrow> event_serializer go" where
  "must_new_event_serializer schema config =
     go_bind (new_event_serializer schema config) (must ''failed to create FluentdForwardEventSerializer'')"

section \<open>Serializing a record\<close>

text \<open>
  A field with a rewriter, through the interface: the header with the announced length, the body
  on the rest of the buffer, and the header again where the length is another.
\<close>

definition encode_rewritten ::
  "(bytes \<Rightarrow> log_record \<Rightarrow> nat go) \<Rightarrow> (bytes \<Rightarrow> log_record \<Rightarrow> bytes \<Rightarrow> (bytes \<times> nat \<times> log_record) go) \<Rightarrow>
   bytes \<Rightarrow> log_record \<Rightarrow> cursor \<Rightarrow> (cursor \<times> log_record) go" where
  "encode_rewritten maxFieldLength writeFieldBody value r cur =
     go_bind (maxFieldLength value r) (\<lambda>maxLength.
     let header = (\<lambda>n. if maxLength < 65536 then encode_string_len16 n else encode_string_len32 n) in
     go_bind (header maxLength cur) (\<lambda>(buf1, pos1).
     go_bind (in_rest pos1 (writeFieldBody value r) buf1) (\<lambda>(buf2, pos2, r').
     let actualLength = pos2 - pos1 in
     go_bind (if actualLength \<noteq> maxLength then header actualLength (buf2, snd cur) else Inr (buf2, pos1))
       (\<lambda>(buf3, _). Inr ((buf3, pos1 + actualLength), r')))))"

fun encode_fields :: "(field_slot \<times> bytes) list \<Rightarrow> log_record \<Rightarrow> cursor \<Rightarrow> nat \<Rightarrow> (cursor \<times> nat \<times> log_record) go" where
  "encode_fields [] r cur n = Inr (cur, n, r)"
| "encode_fields (((masked, key, rw), value) # rest) r cur n =
     (if masked \<or> value = [] then encode_fields rest r cur n
      else go_bind (copy_bytes key cur) (\<lambda>cur.
           case rw of
             None \<Rightarrow> go_bind (encode_string value cur) (\<lambda>cur. encode_fields rest r cur (n + 1))
           | Some headRewriter \<Rightarrow>
               go_bind (encode_rewritten (max_field_length headRewriter) (write_field_body headRewriter) value r cur)
                 (\<lambda>(cur, r). encode_fields rest r cur (n + 1))))"

fun encode_env :: "(locator \<times> bytes) list \<Rightarrow> bytes list \<Rightarrow> cursor \<Rightarrow> cursor go" where
  "encode_env [] fs cur = Inr cur"
| "encode_env ((loc, key) # rest) fs cur =
     go_bind (copy_bytes key cur) (\<lambda>cur.
     go_bind (loc_get loc fs) (\<lambda>value.
     go_bind (encode_string value cur) (encode_env rest fs)))"

text \<open>The length of a map of up to \<open>n\<close> entries uses one byte below 16 and three otherwise.\<close>

definition encode_map_len :: "nat \<Rightarrow> nat \<Rightarrow> cursor \<Rightarrow> cursor go" where
  "encode_map_len n actual = (if n < 16 then encode_map_len4 actual else encode_map_len16 actual)"

definition encode_record :: "event_serializer \<Rightarrow> log_record \<Rightarrow> bytes \<Rightarrow> (cursor \<times> log_record) go" where
  "encode_record ser r buffer =
     go_bind (go_slice (Fields r) 0 (int (length (fieldSlots ser)))) (\<lambda>fs.
     go_bind (encode_array_len4 2 (buffer, 0)) (\<lambda>cur.
     go_bind (encode_event_time (Timestamp r) cur) (\<lambda>(buffer, reserved).
     let numFields = length fs + 1;
         position = (if numFields < 16 then reserve_len4 reserved else reserve_len16 reserved) in
     go_bind (encode_fields (zip (fieldSlots ser) fs) r (buffer, position) 1) (\<lambda>((buffer, position), rootMapSize, r).
     go_bind (encode_map_len numFields rootMapSize (buffer, reserved)) (\<lambda>(buffer, _).
     go_bind (encode_string4 ''environment'' (buffer, position)) (\<lambda>cur.
     go_bind (encode_map_len (length (envFields ser)) (length (envFields ser)) cur) (\<lambda>cur.
     go_bind (encode_env (envFields ser) fs cur) (\<lambda>(buffer, position).
       Inr ((buffer, if position = length buffer then 0 else position), r)))))))))"

definition serialize_record :: "event_serializer \<Rightarrow> log_record \<Rightarrow> (bytes \<times> event_serializer \<times> log_record) go" where
  "serialize_record ser r =
     go_bind (encode_record ser r (eventBuffer ser)) (\<lambda>((buffer, n), r).
     go_bind (go_slice buffer 0 (int n)) (\<lambda>stream. Inr (stream, ser\<lparr>eventBuffer := buffer\<rparr>, r)))"

section \<open>The bytes written\<close>

definition str_block :: "bytes \<Rightarrow> bytes" where
  "str_block s = (if length s < 16 then str4 s else if length s < 65536 then str16 s else str32 s)"

lemma emits_string: "emits (encode_string s) (str_block s)"
  by (simp add: encode_string_def str_block_def emits_intros)

lemma decode_str_block: "length s < 2 ^ 32 \<Longrightarrow> denotes (Suc k) (str_block s) (MStr s)"
  by (simp add: str_block_def decode_str4 decode_str16 decode_str32)

lemma length_str_block: "length s < length (str_block s)" "length (str_block s) \<le> 5 + length s"
  by (simp_all add: str_block_def str4_def str16_def str32_def)

lemma serialize_string_ok: "serialize_string key = Inr (str_block key)"
proof -
  let ?b = "replicate (5 + length key) (CHR 0x00)"
  have l: "0 + length (str_block key) \<le> length ?b" using length_str_block(2)[of key] by simp
  have "encode_string key (?b, 0) = Inr (patch ?b 0 (str_block key), 0 + length (str_block key))"
    by (rule emitsD[OF emits_string l])
  moreover have "go_slice (patch ?b 0 (str_block key)) 0 (int (length (str_block key))) = Inr (str_block key)"
    using l by (subst go_slice_prefix) (simp_all add: patch_def)
  ultimately show ?thesis by (simp add: serialize_string_def)
qed

lemma map_go_Inr: "(\<And>x. x \<in> set xs \<Longrightarrow> f x = Inr (g x)) \<Longrightarrow> map_go f xs = Inr (map g xs)"
  by (induction xs) simp_all

lemma patch_hole:
  assumes "i + h + length w \<le> length b" and "length hd_bytes = h"
  shows "patch (patch b (i + h) w) i hd_bytes = patch b i (hd_bytes @ w)"
proof -
  have "patch b (i + h) w = patch b i (take h (drop i b) @ w)"
  proof -
    have "take (i + h) b = take i b @ take h (drop i b)" by (rule take_add)
    moreover have "length (take h (drop i b)) = h" using assms by simp
    ultimately show ?thesis unfolding patch_def by (simp add: add.assoc)
  qed
  then show ?thesis
    using patch_overwrite[of i "take h (drop i b)" w b hd_bytes] assms by (simp add: min_absorb2)
qed

text \<open>A rewritten string, its header chosen by the announced length.\<close>

definition long_header :: "nat \<Rightarrow> nat \<Rightarrow> bytes" where
  "long_header mx n = (if mx < 65536 then byte_of 0xDA # be2 n else byte_of 0xDB # be4 n)"

lemma emits_long_header:
  "emits (if mx < 65536 then encode_string_len16 n else encode_string_len32 n) (long_header mx n)"
  using emits_header16 emits_header32
  by (simp add: encode_string_len16_def[abs_def] encode_string_len32_def[abs_def] long_header_def)

lemma length_long_header: "length (long_header mx n) = (if mx < 65536 then 3 else 5)"
  by (simp add: long_header_def)

context log_rewriter begin

definition rewritten_block :: "'w \<Rightarrow> bytes \<Rightarrow> log_record \<Rightarrow> bytes" where
  "rewritten_block w v r = long_header (limit w v r) (length (body w v r)) @ body w v r"

definition rewritten_room :: "'w \<Rightarrow> bytes \<Rightarrow> log_record \<Rightarrow> nat" where
  "rewritten_room w v r = (if limit w v r < 65536 then 3 else 5) + limit w v r"

lemma block_in_room: "valid w r \<Longrightarrow> length (rewritten_block w v r) \<le> rewritten_room w v r"
  using bounded[of w r v] by (simp add: rewritten_block_def rewritten_room_def length_long_header)

lemma encode_rewritten_ok:
  assumes "valid w r" and "pos + rewritten_room w v r \<le> length b"
  shows "encode_rewritten (max_len w) (write_body w) v r (b, pos) =
    Inr ((patch b pos (rewritten_block w v r), pos + length (rewritten_block w v r)), after w r)"
proof -
  define m where "m = limit w v r"
  define bd where "bd = body w v r"
  define h :: nat where "h = (if m < 65536 then 3 else 5)"
  define H where "H n = (if m < 65536 then encode_string_len16 n else encode_string_len32 n)" for n
  have emH: "emits (H n) (long_header m n)" for n unfolding H_def by (rule emits_long_header)
  have hl: "length (long_header m k) = h" for k by (simp add: length_long_header h_def)
  have n: "length bd \<le> m" unfolding bd_def m_def by (rule bounded[OF assms(1)])
  have room: "pos + h + m \<le> length b" using assms(2) by (simp add: rewritten_room_def h_def m_def)
  define b1 where "b1 = patch b pos (long_header m m)"
  have lb1: "length b1 = length b" using room hl by (simp add: b1_def)
  have h1: "H m (b, pos) = Inr (b1, pos + h)"
    using emitsD[OF emH, of pos m b] room hl by (simp add: b1_def)
  have "write_body w v r (drop (pos + h) b1) = Inr (patch (drop (pos + h) b1) 0 bd, length bd, after w r)"
    unfolding bd_def by (rule writes[OF assms(1)]) (use room lb1 in \<open>simp add: m_def\<close>)
  then have w: "in_rest (pos + h) (write_body w v r) b1 = Inr (patch b1 (pos + h) bd, pos + h + length bd, after w r)"
    by (rule in_rest_patch) (use room n lb1 in simp)
  define b2 where "b2 = patch b pos (long_header m m @ bd)"
  have b2: "patch b1 (pos + h) bd = b2"
    using patch_patch[of pos "long_header m m" bd b] room hl n by (simp add: b1_def b2_def)
  have h2: "H (length bd) (b2, pos) = Inr (patch b pos (long_header m (length bd) @ bd), pos + h)"
  proof -
    have "H (length bd) (b2, pos) = Inr (patch b2 pos (long_header m (length bd)), pos + h)"
      using emitsD[OF emH, of pos "length bd" b2] room hl n by (simp add: b2_def)
    then show ?thesis
      using patch_overwrite[of pos "long_header m m" bd b "long_header m (length bd)"] room hl n by (simp add: b2_def)
  qed
  have "encode_rewritten (max_len w) (write_body w) v r (b, pos) =
      go_bind (if length bd \<noteq> m then H (length bd) (b2, pos) else Inr (b2, pos + h))
       (\<lambda>(buf3, _). Inr ((buf3, pos + h + length bd), after w r))"
    using h1 w announces[OF assms(1), of v]
    by (simp add: encode_rewritten_def Let_def H_def m_def b2 cong: if_cong)
  also have "\<dots> = Inr ((patch b pos (long_header m (length bd) @ bd), pos + h + length bd), after w r)"
    using h2 by (cases "length bd = m") (simp_all add: b2_def)
  finally show ?thesis using hl by (simp add: rewritten_block_def m_def bd_def add.assoc)
qed

end

lemma decode_long:
  assumes "length s \<le> mx" and "mx < 2 ^ 32"
  shows "denotes (Suc k) (long_header mx (length s) @ s) (MStr s)"
  using assms decode_str16[of s k] decode_str32[of s k]
  by (simp add: long_header_def str16_def str32_def)

section \<open>The bytes of all fields\<close>

text \<open>
  The room that is enough for the fields: keys, headers of at most five bytes, and the announced
  lengths; and the key and value blocks written.
\<close>

fun fields_room :: "(field_slot \<times> bytes) list \<Rightarrow> log_record \<Rightarrow> nat" where
  "fields_room [] r = 0"
| "fields_room (((masked, key, rw), value) # rest) r =
     (if masked \<or> value = [] then fields_room rest r
      else case rw of
             None \<Rightarrow> length key + 5 + length value + fields_room rest r
           | Some w \<Rightarrow> length key + 5 + rewriter_limit w value r + fields_room rest (after_rewrite w r))"

fun field_blocks :: "(field_slot \<times> bytes) list \<Rightarrow> log_record \<Rightarrow> (bytes \<times> bytes) list" where
  "field_blocks [] r = []"
| "field_blocks (((masked, key, rw), value) # rest) r =
     (if masked \<or> value = [] then field_blocks rest r
      else case rw of
             None \<Rightarrow> (key, str_block value) # field_blocks rest r
           | Some w \<Rightarrow> (key, rw.rewritten_block w value r) # field_blocks rest (after_rewrite w r))"

fun after_fields :: "(field_slot \<times> bytes) list \<Rightarrow> log_record \<Rightarrow> log_record" where
  "after_fields [] r = r"
| "after_fields (((masked, key, rw), value) # rest) r =
     (if masked \<or> value = [] then after_fields rest r
      else case rw of None \<Rightarrow> after_fields rest r | Some w \<Rightarrow> after_fields rest (after_rewrite w r))"

definition pair_bytes :: "(bytes \<times> bytes) list \<Rightarrow> bytes" where
  "pair_bytes ws = concat (map (\<lambda>w. fst w @ snd w) ws)"

definition slots_valid :: "(field_slot \<times> bytes) list \<Rightarrow> nat \<Rightarrow> bool" where
  "slots_valid l n = (\<forall>masked key w value r. ((masked, key, Some w), value) \<in> set l \<longrightarrow> n \<le> length (Fields r) \<longrightarrow> rewriter_valid w r)"

lemma after_rewrite_Fields [simp]: "Fields (after_rewrite w r) = Fields r"
  by (simp add: after_rewrite_keeps)

lemma rewritten_block_room: "rewriter_valid w r \<Longrightarrow> length (rw.rewritten_block w v r) \<le> 5 + rewriter_limit w v r"
  using rw.block_in_room[of w r v] by (auto simp: rw.rewritten_room_def split: if_splits)

lemma slots_valid_Cons: "slots_valid (x # l) n \<Longrightarrow> slots_valid l n"
  by (auto simp: slots_valid_def)

lemma field_blocks_room:
  "slots_valid l n \<Longrightarrow> n \<le> length (Fields r) \<Longrightarrow> length (pair_bytes (field_blocks l r)) \<le> fields_room l r"
proof (induction l r rule: field_blocks.induct)
  case (2 masked key rw "value" rest r)
  have v: "slots_valid rest n" using 2(4) by (rule slots_valid_Cons)
  show ?case
  proof (cases "masked \<or> value = []")
    case True
    then show ?thesis using 2(1)[OF True v 2(5)] by simp
  next
    case False
    show ?thesis
    proof (cases rw)
      case None
      then show ?thesis using 2(2)[OF False None v 2(5)] False length_str_block(2)[of "value"]
        by (simp add: pair_bytes_def)
    next
      case (Some w)
      have "rewriter_valid w r" using 2(4,5) Some unfolding slots_valid_def by (metis list.set_intros(1))
      then show ?thesis using 2(3)[OF False Some v] 2(5) False Some rewritten_block_room[of w r "value"]
        by (simp add: pair_bytes_def)
    qed
  qed
qed (simp add: pair_bytes_def)

lemma copy_bytes_at: "pos + length s \<le> length b \<Longrightarrow> copy_bytes s (b, pos) = Inr (patch b pos s, pos + length s)"
  by (rule emitsD[OF emits_copy])

lemma encode_fields_ok:
  "slots_valid l k \<Longrightarrow> k \<le> length (Fields r) \<Longrightarrow> pos + fields_room l r \<le> length b \<Longrightarrow>
    encode_fields l r (b, pos) n =
      Inr ((patch b pos (pair_bytes (field_blocks l r)), pos + length (pair_bytes (field_blocks l r))),
           n + length (field_blocks l r), after_fields l r)"
proof (induction l r arbitrary: b pos n rule: field_blocks.induct)
  case (2 masked key rw "value" rest r)
  have v: "slots_valid rest k" using 2(4) by (rule slots_valid_Cons)
  show ?case
  proof (cases "masked \<or> value = []")
    case True
    then show ?thesis using 2(1)[OF True v 2(5)] 2(6) by simp
  next
    case False
    let ?b1 = "patch b pos key" and ?p1 = "pos + length key"
    have room1: "pos + length key \<le> length b" using 2(6) False by (auto split: option.splits)
    show ?thesis
    proof (cases rw)
      case None
      let ?w = "str_block value" and ?ws = "pair_bytes (field_blocks rest r)"
      have lw: "length ?w \<le> 5 + length value" by (rule length_str_block)
      have room: "?p1 + length ?w + fields_room rest r \<le> length b" using 2(6) False None lw by simp
      have lws: "length ?ws \<le> fields_room rest r" using field_blocks_room[OF v 2(5)] .
      have e: "encode_string value (?b1, ?p1) = Inr (patch ?b1 ?p1 ?w, ?p1 + length ?w)"
        using room room1 by (intro emitsD[OF emits_string]) simp
      have p: "patch ?b1 ?p1 ?w = patch b pos (key @ ?w)" using room by (simp add: patch_patch)
      have ih: "encode_fields rest r (patch b pos (key @ ?w), ?p1 + length ?w) (n + 1) =
          Inr ((patch (patch b pos (key @ ?w)) (?p1 + length ?w) ?ws, ?p1 + length ?w + length ?ws),
            n + 1 + length (field_blocks rest r), after_fields rest r)"
        using room by (intro 2(2)[OF False None v 2(5)]) simp
      have "patch (patch b pos (key @ ?w)) (pos + length (key @ ?w)) ?ws = patch b pos ((key @ ?w) @ ?ws)"
        using room lws by (intro patch_patch) simp
      then show ?thesis using False None copy_bytes_at[OF room1] e p ih
        by (simp add: pair_bytes_def add.assoc)
    next
      case (Some w)
      let ?w = "rw.rewritten_block w value r" and ?r = "after_rewrite w r"
      let ?ws = "pair_bytes (field_blocks rest ?r)"
      have rv: "rewriter_valid w r" using 2(4,5) Some unfolding slots_valid_def by (metis list.set_intros(1))
      have lw: "length ?w \<le> 5 + rewriter_limit w value r" by (rule rewritten_block_room[OF rv])
      have room: "?p1 + length ?w + fields_room rest ?r \<le> length b" using 2(6) False Some lw by simp
      have lws: "length ?ws \<le> fields_room rest ?r" using field_blocks_room[OF v, of ?r] 2(5) by simp
      have "?p1 + rw.rewritten_room w value r \<le> length ?b1"
        using 2(6) False Some room1 by (auto simp: rw.rewritten_room_def)
      from rw.encode_rewritten_ok[OF rv this]
      have e: "encode_rewritten (max_field_length w) (write_field_body w) value r (?b1, ?p1) =
          Inr ((patch ?b1 ?p1 ?w, ?p1 + length ?w), ?r)" .
      have p: "patch ?b1 ?p1 ?w = patch b pos (key @ ?w)" using room by (simp add: patch_patch)
      have ih: "encode_fields rest ?r (patch b pos (key @ ?w), ?p1 + length ?w) (n + 1) =
          Inr ((patch (patch b pos (key @ ?w)) (?p1 + length ?w) ?ws, ?p1 + length ?w + length ?ws),
            n + 1 + length (field_blocks rest ?r), after_fields rest ?r)"
        using room 2(5) by (intro 2(3)[OF False Some v]) simp_all
      have "patch (patch b pos (key @ ?w)) (pos + length (key @ ?w)) ?ws = patch b pos ((key @ ?w) @ ?ws)"
        using room lws by (intro patch_patch) simp
      then show ?thesis using False Some copy_bytes_at[OF room1] e p ih
        by (simp add: pair_bytes_def add.assoc)
    qed
  qed
qed (simp add: pair_bytes_def)

fun env_blocks :: "(locator \<times> bytes) list \<Rightarrow> bytes list \<Rightarrow> (bytes \<times> bytes) list" where
  "env_blocks [] fs = []"
| "env_blocks ((loc, key) # rest) fs = (key, str_block (fs ! nat loc)) # env_blocks rest fs"

lemma emits_env:
  "list_all (\<lambda>(loc, key). loc_ok (length fs) loc) envs \<Longrightarrow> emits (encode_env envs fs) (pair_bytes (env_blocks envs fs))"
proof (induction envs)
  case Nil
  have "encode_env [] fs = Inr" by (rule ext) simp
  then show ?case by (simp add: pair_bytes_def emits_nil)
next
  case (Cons env rest)
  obtain loc key where env: "env = (loc, key)" by fastforce
  have "loc_get loc fs = Inr (fs ! nat loc)" using Cons(2) env by (simp add: loc_get_ok)
  then have e: "encode_env ((loc, key) # rest) fs =
      (\<lambda>cur. go_bind (copy_bytes key cur) (\<lambda>cur. go_bind (encode_string (fs ! nat loc) cur) (encode_env rest fs)))"
    by (intro ext) simp
  have ih: "emits (encode_env rest fs) (pair_bytes (env_blocks rest fs))"
    using Cons by simp
  show ?case
    unfolding env e using emits_seq[OF emits_copy[of key] emits_seq[OF emits_string[of "fs ! nat loc"] ih]]
    by (simp add: pair_bytes_def)
qed

definition map_header :: "nat \<Rightarrow> nat \<Rightarrow> bytes" where
  "map_header n actual = (if n < 16 then [byte_or 0x80 actual] else byte_of 0xDE # be2 actual)"

lemma emits_map_len: "emits (encode_map_len n actual) (map_header n actual)"
  by (simp add: encode_map_len_def map_header_def emits_intros)

lemma length_map_header: "length (map_header n actual) = (if n < 16 then 1 else 3)"
  by (simp add: map_header_def)

definition record_bytes :: "event_serializer \<Rightarrow> log_record \<Rightarrow> bytes" where
  "record_bytes ser r =
     (let fs = take (length (fieldSlots ser)) (Fields r);
          ws = field_blocks (zip (fieldSlots ser) fs) r;
          es = env_blocks (envFields ser) fs
      in [byte_or 0x90 2] @ event_time (Timestamp r) @ map_header (length fs + 1) (1 + length ws) @ pair_bytes ws @
         str4 ''environment'' @ map_header (length (envFields ser)) (length (envFields ser)) @ pair_bytes es)"

definition record_room :: "event_serializer \<Rightarrow> log_record \<Rightarrow> nat" where
  "record_room ser r =
     (let fs = take (length (fieldSlots ser)) (Fields r)
      in 29 + fields_room (zip (fieldSlots ser) fs) r + length (pair_bytes (env_blocks (envFields ser) fs)))"

lemma length_event_time: "length (event_time t) = 10"
  by (simp add: event_time_def)

lemma length_str4: "length (str4 s) = 1 + length s"
  by (simp add: str4_def)

text \<open>The sections of the record compose; the length of the map is filled in afterwards.\<close>

lemma encode_record_ok:
  assumes ln: "length (fieldSlots ser) \<le> length (Fields r)"
    and sv: "slots_valid (zip (fieldSlots ser) (take (length (fieldSlots ser)) (Fields r))) (length (fieldSlots ser))"
    and ev: "list_all (\<lambda>(loc, key). loc_ok (length (fieldSlots ser)) loc) (envFields ser)"
    and room: "record_room ser r < length b"
  shows "encode_record ser r b = Inr ((patch b 0 (record_bytes ser r), length (record_bytes ser r)),
      after_fields (zip (fieldSlots ser) (take (length (fieldSlots ser)) (Fields r))) r)
    \<and> length (record_bytes ser r) \<le> record_room ser r"
proof -
  define fs where "fs = take (length (fieldSlots ser)) (Fields r)"
  define l where "l = zip (fieldSlots ser) fs"
  define W where "W = pair_bytes (field_blocks l r)"
  define n where "n = 1 + length (field_blocks l r)"
  define E where "E = pair_bytes (env_blocks (envFields ser) fs)"
  define A where "A = byte_or 0x90 2 # event_time (Timestamp r)"
  define H where "H = map_header (length fs + 1) n"
  define h where "h = length H"
  define T where "T = str4 ''environment'' @ map_header (length (envFields ser)) (length (envFields ser)) @ E"
  have lfs: "length fs = length (fieldSlots ser)" using ln by (simp add: fs_def)
  have lA: "length A = 11" by (simp add: A_def length_event_time)
  have lH: "h = (if length fs + 1 < 16 then 1 else 3)" by (simp add: h_def H_def length_map_header)
  have lT: "length T \<le> 15 + length E" by (simp add: T_def length_str4 length_map_header)
  have rm: "29 + fields_room l r + length E < length b"
    using room by (simp add: record_room_def Let_def fs_def l_def E_def)
  have v: "slots_valid l (length (fieldSlots ser))" using sv by (simp add: l_def fs_def)
  have lW: "length W \<le> fields_room l r" unfolding W_def by (rule field_blocks_room[OF v ln])
  have R: "record_bytes ser r = A @ H @ W @ T"
    by (simp add: record_bytes_def Let_def A_def H_def W_def T_def E_def n_def l_def fs_def)
  have fit: "11 + h + length W + length T \<le> 29 + fields_room l r + length E"
    using lW lT lH by simp
  have 0: "go_slice (Fields r) 0 (int (length (fieldSlots ser))) = Inr fs"
    using ln by (simp add: fs_def)
  have 1: "go_bind (encode_array_len4 2 (b, 0)) (encode_event_time (Timestamp r)) = Inr (patch b 0 A, 11)"
    using emitsD[OF emits_seq[OF emits_array_len4[of 2] emits_event_time[of "Timestamp r"]], of 0 b] rm
    by (simp add: A_def length_event_time)
  let ?b1 = "patch b 0 A"
  have l1: "length ?b1 = length b" using rm lA by simp
  have 2: "encode_fields l r (?b1, 11 + h) 1 =
      Inr ((patch ?b1 (11 + h) W, 11 + h + length W), n, after_fields l r)"
    unfolding W_def n_def using rm lH l1 by (intro encode_fields_ok[OF v ln]) simp
  have 3: "encode_map_len (length fs + 1) n (patch ?b1 (11 + h) W, 11) = Inr (patch b 0 (A @ H @ W), 11 + h)"
  proof -
    have "encode_map_len (length fs + 1) n (patch ?b1 (11 + h) W, 11) =
        Inr (patch (patch ?b1 (11 + h) W) 11 H, 11 + length H)"
      unfolding H_def by (rule emitsD[OF emits_map_len]) (use rm lW lH l1 in \<open>simp add: length_map_header\<close>)
    moreover have "patch (patch ?b1 (11 + h) W) 11 H = patch ?b1 11 (H @ W)"
      using rm lW lH l1 by (intro patch_hole) (simp_all add: h_def)
    moreover have "patch ?b1 (0 + length A) (H @ W) = patch b 0 (A @ H @ W)"
      using rm lW lH lA by (intro patch_patch) (simp add: h_def)
    ultimately show ?thesis using lA by (simp add: h_def)
  qed
  let ?b2 = "patch b 0 (A @ H @ W)" and ?p2 = "11 + h + length W"
  have l2: "length ?b2 = length b" using rm lW lH lA by (simp add: h_def)
  have el: "list_all (\<lambda>(loc, key). loc_ok (length fs) loc) (envFields ser)" using ev lfs by simp
  have 4: "go_bind (encode_string4 ''environment'' (?b2, ?p2)) (\<lambda>cur.
      go_bind (encode_map_len (length (envFields ser)) (length (envFields ser)) cur) (encode_env (envFields ser) fs)) =
      Inr (patch ?b2 ?p2 T, ?p2 + length T)"
  proof -
    have "emits (\<lambda>cur. go_bind (encode_string4 ''environment'' cur) (\<lambda>cur.
      go_bind (encode_map_len (length (envFields ser)) (length (envFields ser)) cur) (encode_env (envFields ser) fs))) T"
      unfolding T_def E_def by (rule emits_seq[OF emits_string4 emits_seq[OF emits_map_len emits_env[OF el]]])
    from emitsD[OF this, of ?p2 ?b2] show ?thesis using rm fit l2 by simp
  qed
  have 5: "patch ?b2 ?p2 T = patch b 0 (record_bytes ser r)"
  proof -
    have "patch ?b2 (0 + length (A @ H @ W)) T = patch b 0 ((A @ H @ W) @ T)"
      using rm fit lA by (intro patch_patch) (simp add: h_def)
    then show ?thesis using lA by (simp add: R h_def add.assoc)
  qed
  have len: "length (record_bytes ser r) = ?p2 + length T" using lA by (simp add: R h_def)
  have pos: "(if length fs + 1 < 16 then reserve_len4 11 else reserve_len16 11) = 11 + h"
    by (simp add: lH reserve_len4_def reserve_len16_def)
  have lb: "length (patch b 0 (record_bytes ser r)) = length b" using rm fit len by simp
  have ne: "?p2 + length T \<noteq> length b" using rm fit by simp
  have enc: "encode_record ser r b =
      go_bind (go_bind (encode_array_len4 2 (b, 0)) (encode_event_time (Timestamp r))) (\<lambda>(buffer, reserved).
      go_bind (encode_fields l r (buffer, if length fs + 1 < 16 then reserve_len4 reserved else reserve_len16 reserved) 1)
        (\<lambda>((buffer, position), rootMapSize, r).
      go_bind (encode_map_len (length fs + 1) rootMapSize (buffer, reserved)) (\<lambda>(buffer, _).
      go_bind (go_bind (encode_string4 ''environment'' (buffer, position)) (\<lambda>cur.
        go_bind (encode_map_len (length (envFields ser)) (length (envFields ser)) cur) (encode_env (envFields ser) fs)))
        (\<lambda>(buffer, position). Inr ((buffer, if position = length buffer then 0 else position), r)))))"
    by (simp add: encode_record_def 0 go_bind_def l_def Let_def split: sum.split prod.split)
  have "encode_record ser r b = Inr ((patch b 0 (record_bytes ser r), length (record_bytes ser r)), after_fields l r)"
    unfolding enc 1 go_bind_Inr prod.case pos 2 3 4 5 using lb len ne by simp
  moreover have "record_room ser r = 29 + fields_room l r + length E"
    by (simp add: record_room_def Let_def fs_def l_def E_def)
  ultimately show ?thesis using fit len by (simp add: l_def fs_def)
qed

section \<open>What the serialized record says\<close>

text \<open>
  The content of an event in terms of the configuration: the value of a field by name, what a
  chain of rewriters makes of a value (the mark \<open>u\<close> tells whether the record counts as unescaped),
  and the visible non-empty fields in the order of the schema.
\<close>

definition field_value :: "log_schema \<Rightarrow> bytes list \<Rightarrow> bytes \<Rightarrow> bytes" where
  "field_value schema fs name =
     (case index_byte name (fieldNames schema) of None \<Rightarrow> [] | Some i \<Rightarrow> fs ! i)"

fun chain_value :: "log_schema \<Rightarrow> bytes list \<Rightarrow> bool \<Rightarrow> rewriter_config list \<Rightarrow> bytes \<Rightarrow> bytes" where
  "chain_value schema fs u [] v = v"
| "chain_value schema fs u (CopyConfig # cs) v = v"
| "chain_value schema fs u (UnescapeConfig # cs) v = (if u then v else unescape_spec syslog_unescaper v)"
| "chain_value schema fs u (InlineConfig f # cs) v =
     (let fv = field_value schema fs f
      in (if fv = [] then [] else f @ ''='' @ fv @ '' '') @ chain_value schema fs u cs v)"

definition chain_of :: "serialization_config \<Rightarrow> bytes \<Rightarrow> rewriter_config list" where
  "chain_of config name = (case map_of (rewriteFields config) name of None \<Rightarrow> [] | Some cs \<Rightarrow> cs)"

definition hidden :: "serialization_config \<Rightarrow> bytes \<Rightarrow> bool" where
  "hidden config name = (name \<in> set (environmentFields config) \<or> name \<in> set (hiddenFields config))"

fun event_fields ::
  "log_schema \<Rightarrow> serialization_config \<Rightarrow> bytes list \<Rightarrow> bool \<Rightarrow> (bytes \<times> bytes) list \<Rightarrow> (bytes \<times> bytes) list" where
  "event_fields schema config fs u [] = []"
| "event_fields schema config fs u ((name, v) # rest) =
     (if hidden config name \<or> v = [] then event_fields schema config fs u rest
      else (name, chain_value schema fs u (chain_of config name) v) #
           event_fields schema config fs (u \<or> UnescapeConfig \<in> set (chain_of config name)) rest)"

definition str_pair :: "bytes \<times> bytes \<Rightarrow> msg \<times> msg" where
  "str_pair kv = (MStr (fst kv), MStr (snd kv))"

lemma str_pair_pair [simp]: "str_pair (a, b) = (MStr a, MStr b)"
  by (simp add: str_pair_def)

definition event_message :: "log_schema \<Rightarrow> serialization_config \<Rightarrow> log_record \<Rightarrow> msg" where
  "event_message schema config r =
     MArr [MTime (nat (Timestamp r div 1000000000 mod 2 ^ 32)) (nat (Timestamp r mod 1000000000)),
           MMap (map str_pair (event_fields schema config (Fields r) (Unescaped r) (zip (fieldNames schema) (Fields r))) @
             [(MStr ''environment'',
               MMap (map (\<lambda>name. str_pair (name, field_value schema (Fields r) name)) (environmentFields config)))])]"

text \<open>A verified configuration: rewriter chains that verify, environment fields of the schema.\<close>

definition serialization_ok :: "log_schema \<Rightarrow> serialization_config \<Rightarrow> bool" where
  "serialization_ok schema config =
     ((\<forall>(name, cs) \<in> set (rewriteFields config). verify_rewriter_configs schema cs = Inr ()) \<and>
      set (environmentFields config) \<subseteq> set (fieldNames schema))"

definition built_chain :: "log_schema \<Rightarrow> serialization_config \<Rightarrow> bytes \<Rightarrow> rewriter option" where
  "built_chain schema config name =
     (case new_rewriters_from_config schema (chain_of config name) of Inr rw \<Rightarrow> rw | Inl p \<Rightarrow> None)"

lemma chain_verified:
  assumes "serialization_ok schema config"
  shows "verify_rewriter_configs schema (chain_of config name) = Inr ()"
proof (cases "map_of (rewriteFields config) name")
  case (Some cs)
  then have "(name, cs) \<in> set (rewriteFields config)" by (rule map_of_SomeD)
  then show ?thesis using assms Some unfolding serialization_ok_def chain_of_def by auto
qed (simp add: chain_of_def)

text \<open>What a verified chain builds rewrites as the configuration says.\<close>

lemma built_rewrites:
  "verify_rewriter_configs schema cs = Inr () \<Longrightarrow> cs \<noteq> [] \<Longrightarrow>
    \<exists>rw. new_rewriters_from_config schema cs = Inr (Some rw) \<and>
      (\<forall>r v. length (fieldNames schema) \<le> length (Fields r) \<longrightarrow> rewriter_valid rw r \<and>
        rewritten rw v r = chain_value schema (Fields r) (Unescaped r) cs v) \<and>
      (\<forall>r. after_rewrite rw r = r\<lparr>Unescaped := (Unescaped r \<or> UnescapeConfig \<in> set cs)\<rparr>)"
proof (induction cs)
  case (Cons c cs)
  have v: "verify_rewriter c schema (cs \<noteq> []) = Inr ()" "verify_rewriter_configs schema cs = Inr ()"
    using Cons(2) by (auto split: sum.splits)
  show ?case
  proof (cases "cs = []")
    case True
    then show ?thesis using v(1) by (cases c) auto
  next
    case False
    obtain rw where rw: "new_rewriters_from_config schema cs = Inr (Some rw)"
      "\<And>r v. length (fieldNames schema) \<le> length (Fields r) \<Longrightarrow> rewriter_valid rw r \<and>
        rewritten rw v r = chain_value schema (Fields r) (Unescaped r) cs v"
      "\<And>r. after_rewrite rw r = r\<lparr>Unescaped := (Unescaped r \<or> UnescapeConfig \<in> set cs)\<rparr>"
      using Cons(1)[OF v(2) False] by blast
    obtain field where c: "c = InlineConfig field" using v(1) False by (cases c) (auto split: if_splits)
    obtain loc where loc: "create_field_locator schema field = Inr loc"
      using v(1) False unfolding c by (auto split: if_splits sum.splits)
    then obtain i where i: "index_byte field (fieldNames schema) = Some i" "loc = int i"
      by (auto simp: create_field_locator_def split: option.splits)
    from create_field_locator_ok[OF loc]
    have ok: "loc_ok (length (fieldNames schema)) loc" "loc_name loc schema = Inr field" by auto
    have "new_rewriters_from_config schema (c # cs) = Inr (Some (InlineRewriter (field @ ''='') '' '' loc rw))"
      using rw(1) loc ok(2) by (simp add: c must_create_field_locator_def)
    moreover have "inlined (field @ ''='') '' '' loc r =
        (let fv = field_value schema (Fields r) field in if fv = [] then [] else field @ ''='' @ fv @ '' '')" for r
      using i by (simp add: inlined_def field_value_def Let_def)
    ultimately show ?thesis using rw(2,3) ok(1) by (auto simp: c loc_ok_def Let_def)
  qed
qed simp

lemma new_event_serializer_ok:
  assumes "serialization_ok schema config"
  shows "\<exists>locs. create_field_locators schema (environmentFields config) = Inr locs \<and>
    new_event_serializer schema config = Inr (Inr
      \<lparr>fieldSlots = map (\<lambda>name. (hidden config name, str_block name, built_chain schema config name)) (fieldNames schema),
       envFields = zip locs (map str_block (environmentFields config)),
       eventBuffer = replicate (2 * InputLogMaxRecordBytes) (CHR 0x00)\<rparr>)"
proof -
  have "\<exists>locs. create_field_locators schema names = Inr locs" if "set names \<subseteq> set (fieldNames schema)" for names
    using that
  proof (induction names)
    case (Cons name names)
    then obtain locs where "create_field_locators schema names = Inr locs" by auto
    moreover obtain loc where "create_field_locator schema name = Inr loc"
      using Cons.prems create_field_locator_defined[of schema name] by auto
    ultimately show ?case by simp
  qed simp
  then obtain locs where locs: "create_field_locators schema (environmentFields config) = Inr locs"
    using assms unfolding serialization_ok_def by blast
  have slot: "new_field_slot schema config name = Inr (hidden config name, str_block name, built_chain schema config name)" for name
  proof -
    obtain rw where rw: "new_rewriters_from_config schema (chain_of config name) = Inr rw"
      using built_rewrites[OF chain_verified[OF assms, of name]] by (cases "chain_of config name = []") auto
    have "(case map_of (rewriteFields config) name of None \<Rightarrow> Inr None
        | Some cs \<Rightarrow> new_rewriters_from_config schema cs) = new_rewriters_from_config schema (chain_of config name)"
      by (simp add: chain_of_def split: option.split)
    then show ?thesis using rw by (simp add: new_field_slot_def serialize_string_ok built_chain_def hidden_def Let_def)
  qed
  show ?thesis
    using locs by (simp add: new_event_serializer_def map_go_Inr[OF slot] map_go_Inr[OF serialize_string_ok])
qed

text \<open>The blocks of the fields denote what the configuration says.\<close>

lemma field_blocks_denote:
  assumes "serialization_ok schema config" and "length (fieldNames schema) \<le> length fs"
  shows "Fields r = fs \<Longrightarrow>
    fields_room (map (\<lambda>(name, v). ((hidden config name, str_block name, built_chain schema config name), v)) nvs) r < 2 ^ 32 \<Longrightarrow>
    list_all2 (\<lambda>w (x, y). denotes (Suc k) (fst w) x \<and> denotes (Suc k) (snd w) y)
      (field_blocks (map (\<lambda>(name, v). ((hidden config name, str_block name, built_chain schema config name), v)) nvs) r)
      (map str_pair (event_fields schema config fs (Unescaped r) nvs))"
proof (induction nvs arbitrary: r)
  case (Cons nv nvs)
  obtain name v where nv: "nv = (name, v)" by fastforce
  show ?case
  proof (cases "hidden config name \<or> v = []")
    case True
    then show ?thesis using Cons nv by simp
  next
    case False
    have vr: "verify_rewriter_configs schema (chain_of config name) = Inr ()" by (rule chain_verified[OF assms(1)])
    have nm: "denotes (Suc k) (str_block name) (MStr name)" if "length (str_block name) < 2 ^ 32"
      using that length_str_block(1)[of name] by (intro decode_str_block) simp
    show ?thesis
    proof (cases "chain_of config name = []")
      case True
      then have b: "built_chain schema config name = None" by (simp add: built_chain_def)
      have lv: "length v < 2 ^ 32" "length (str_block name) < 2 ^ 32" using Cons.prems(2) False nv b by simp_all
      then show ?thesis using Cons False nv b True nm decode_str_block[OF lv(1), of k] by simp
    next
      case ne: False
      obtain rw where rw: "new_rewriters_from_config schema (chain_of config name) = Inr (Some rw)"
        "rewriter_valid rw r" "rewritten rw v r = chain_value schema fs (Unescaped r) (chain_of config name) v"
        "after_rewrite rw r = r\<lparr>Unescaped := (Unescaped r \<or> UnescapeConfig \<in> set (chain_of config name))\<rparr>"
        using built_rewrites[OF vr ne] assms(2) Cons.prems(1) by blast
      have b: "built_chain schema config name = Some rw" by (simp add: built_chain_def rw(1))
      have lv: "rewriter_limit rw v r < 2 ^ 32" "length (str_block name) < 2 ^ 32"
        using Cons.prems(2) False nv b by simp_all
      have "denotes (Suc k) (rw.rewritten_block rw v r) (MStr (rewritten rw v r))"
        unfolding rw.rewritten_block_def by (rule decode_long[OF rewritten_bounded lv(1)])
      moreover have "list_all2 (\<lambda>w (x, y). denotes (Suc k) (fst w) x \<and> denotes (Suc k) (snd w) y)
        (field_blocks (map (\<lambda>(name, v). ((hidden config name, str_block name, built_chain schema config name), v)) nvs) (after_rewrite rw r))
        (map str_pair (event_fields schema config fs (Unescaped (after_rewrite rw r)) nvs))"
        using Cons.prems False nv b by (intro Cons.IH) simp_all
      ultimately show ?thesis using False nv b nm[OF lv(2)] rw(3,4) by simp
    qed
  qed
qed simp

lemma env_blocks_denote:
  "create_field_locators schema names = Inr locs \<Longrightarrow> length (pair_bytes (env_blocks (zip locs (map str_block names)) fs)) < 2 ^ 32 \<Longrightarrow>
    list_all2 (\<lambda>w (x, y). denotes (Suc k) (fst w) x \<and> denotes (Suc k) (snd w) y)
      (env_blocks (zip locs (map str_block names)) fs)
      (map (\<lambda>name. str_pair (name, field_value schema fs name)) names)"
proof (induction names arbitrary: locs)
  case (Cons name names)
  then obtain loc locs' where l: "create_field_locator schema name = Inr loc" "create_field_locators schema names = Inr locs'"
    "locs = loc # locs'" by (auto split: sum.splits)
  then obtain i where i: "index_byte name (fieldNames schema) = Some i" "loc = int i"
    by (auto simp: create_field_locator_def split: option.splits)
  have sz: "length (str_block name) + length (str_block (fs ! i)) +
      length (pair_bytes (env_blocks (zip locs' (map str_block names)) fs)) < 2 ^ 32"
    using Cons(3) l(3) i(2) by (simp add: pair_bytes_def)
  have "length name < 2 ^ 32" "length (fs ! i) < 2 ^ 32"
    using sz length_str_block(1)[of name] length_str_block(1)[of "fs ! i"] by linarith+
  then show ?case using Cons(1)[OF l(2)] sz l(3) i decode_str_block
    by (simp add: field_value_def)
qed simp

lemma field_value_take:
  "length (fieldNames schema) \<le> n \<Longrightarrow> field_value schema (take n fs) name = field_value schema fs name"
  by (auto simp: field_value_def split: option.split dest: index_byte_SomeD)

lemma length_field_blocks: "length (field_blocks l r) \<le> length l"
  by (induction l r rule: field_blocks.induct) (auto split: option.split)

lemma length_env_blocks: "length (env_blocks envs fs) = length envs"
  by (induction envs fs rule: env_blocks.induct) simp_all

lemma map_header_denotes:
  assumes "list_all2 (\<lambda>w (x, y). denotes k (fst w) x \<and> denotes k (snd w) y) ws vs"
    and "length ws \<le> n" and "n < 65536"
  shows "denotes (Suc k) (map_header n (length ws) @ pair_bytes ws) (MMap vs)"
  using decode_map4[OF _ assms(1)] decode_map16[OF _ assms(1)] assms(2,3)
  by (auto simp: map_header_def pair_bytes_def)

text \<open>The message of the bytes, given what the parts denote.\<close>

lemma record_bytes_denotes:
  assumes f: "list_all2 (\<lambda>w (x, y). denotes 2 (fst w) x \<and> denotes 2 (snd w) y) ws vs"
    and e: "list_all2 (\<lambda>w (x, y). denotes 1 (fst w) x \<and> denotes 1 (snd w) y) es us"
    and "length ws + 1 \<le> n" and "n < 65536" and "length es < 65536"
  shows "denotes 4 ([byte_or 0x90 2] @ event_time t @ map_header n (1 + length ws) @ pair_bytes ws @
      str4 ''environment'' @ map_header (length es) (length es) @ pair_bytes es)
    (MArr [MTime (nat (t div 1000000000 mod 2 ^ 32)) (nat (t mod 1000000000)),
           MMap (vs @ [(MStr ''environment'', MMap us)])])"
proof -
  have env: "denotes 2 (map_header (length es) (length es) @ pair_bytes es) (MMap us)"
    using map_header_denotes[OF e, of "length es"] assms(5) by (simp add: numeral_2_eq_2)
  have name: "denotes 2 (str4 ''environment'') (MStr ''environment'')"
    using decode_str4[of "''environment''" 1] by (simp add: numeral_2_eq_2)
  have "list_all2 (\<lambda>w (x, y). denotes 2 (fst w) x \<and> denotes 2 (snd w) y)
      (ws @ [(str4 ''environment'', map_header (length es) (length es) @ pair_bytes es)])
      (vs @ [(MStr ''environment'', MMap us)])"
    using f env name by (intro list_all2_appendI) simp_all
  from map_header_denotes[OF this, of n]
  have m: "denotes 3 (map_header n (1 + length ws) @ pair_bytes ws @ str4 ''environment'' @
      map_header (length es) (length es) @ pair_bytes es) (MMap (vs @ [(MStr ''environment'', MMap us)]))"
    using assms(3,4) by (simp add: pair_bytes_def numeral_3_eq_3 numeral_2_eq_2)
  have t: "denotes 3 (event_time t) (MTime (nat (t div 1000000000 mod 2 ^ 32)) (nat (t mod 1000000000)))"
    using decode_event_time[of 2 t] by (simp add: numeral_3_eq_3)
  have "denotes (Suc 3) (byte_or 0x90 (length [event_time t, map_header n (1 + length ws) @ pair_bytes ws @
      str4 ''environment'' @ map_header (length es) (length es) @ pair_bytes es]) #
      concat [event_time t, map_header n (1 + length ws) @ pair_bytes ws @
      str4 ''environment'' @ map_header (length es) (length es) @ pair_bytes es])
    (MArr [MTime (nat (t div 1000000000 mod 2 ^ 32)) (nat (t mod 1000000000)),
           MMap (vs @ [(MStr ''environment'', MMap us)])])"
    by (rule decode_array4) (use m t in simp_all)
  then show ?thesis by (simp add: numeral_2_eq_2)
qed

text \<open>Serializing into the buffer that is kept between records.\<close>

lemma serialize_record_ok:
  assumes "length (fieldSlots ser) \<le> length (Fields r)"
    and "slots_valid (zip (fieldSlots ser) (take (length (fieldSlots ser)) (Fields r))) (length (fieldSlots ser))"
    and "list_all (\<lambda>(loc, key). loc_ok (length (fieldSlots ser)) loc) (envFields ser)"
    and "record_room ser r < length (eventBuffer ser)"
  shows "serialize_record ser r = Inr (record_bytes ser r,
      ser\<lparr>eventBuffer := patch (eventBuffer ser) 0 (record_bytes ser r)\<rparr>,
      after_fields (zip (fieldSlots ser) (take (length (fieldSlots ser)) (Fields r))) r)
    \<and> length (record_bytes ser r) \<le> length (eventBuffer ser)"
proof -
  have enc: "encode_record ser r (eventBuffer ser) =
      Inr ((patch (eventBuffer ser) 0 (record_bytes ser r), length (record_bytes ser r)),
        after_fields (zip (fieldSlots ser) (take (length (fieldSlots ser)) (Fields r))) r)"
    and len: "length (record_bytes ser r) \<le> length (eventBuffer ser)"
    using encode_record_ok[OF assms] assms(4) by simp_all
  have "go_slice (patch (eventBuffer ser) 0 (record_bytes ser r)) 0 (int (length (record_bytes ser r))) = Inr (record_bytes ser r)"
    using len by (subst go_slice_prefix) (simp_all add: patch_def)
  then show ?thesis using enc len by (simp add: serialize_record_def)
qed

text \<open>The serializer of a verified configuration meets those conditions.\<close>

lemma built_serializer:
  assumes "serialization_ok schema config" and "new_event_serializer schema config = Inr (Inr ser)"
  shows "length (fieldSlots ser) = length (fieldNames schema) \<and> length (eventBuffer ser) = 2 * InputLogMaxRecordBytes \<and>
    slots_valid (zip (fieldSlots ser) fs) (length (fieldNames schema)) \<and>
    list_all (\<lambda>(loc, key). loc_ok (length (fieldNames schema)) loc) (envFields ser)"
proof -
  obtain locs where locs: "create_field_locators schema (environmentFields config) = Inr locs"
    and ser: "fieldSlots ser = map (\<lambda>name. (hidden config name, str_block name, built_chain schema config name)) (fieldNames schema)"
      "envFields ser = zip locs (map str_block (environmentFields config))"
      "eventBuffer ser = replicate (2 * InputLogMaxRecordBytes) (CHR 0x00)"
    using new_event_serializer_ok[OF assms(1)] assms(2) by auto
  have bl: "built_chain schema config name = Some w \<Longrightarrow> length (fieldNames schema) \<le> length (Fields r') \<Longrightarrow> rewriter_valid w r'"
    for name w r'
    using built_rewrites[OF chain_verified[OF assms(1), of name]]
    by (cases "chain_of config name = []") (auto simp: built_chain_def)
  have "slots_valid (zip (fieldSlots ser) fs) (length (fieldNames schema))"
    unfolding slots_valid_def ser using bl by (auto dest!: set_zip_leftD)
  moreover have "list_all (\<lambda>(loc, key). loc_ok (length (fieldNames schema)) loc) (envFields ser)"
    using create_field_locators_ok[OF locs] unfolding ser list_all_iff by (auto dest: set_zip_leftD)
  ultimately show ?thesis using ser by simp
qed

lemma zip_take_length: "zip xs (take (length xs) ys) = zip xs ys"
proof -
  have "zip xs (take (length xs) ys) = take (length xs) (zip xs ys)" by (simp add: take_zip)
  then show ?thesis by simp
qed

text \<open>What the bytes of a record say.\<close>

lemma record_bytes_event:
  assumes "serialization_ok schema config" and "new_event_serializer schema config = Inr (Inr ser)"
    and "length (fieldNames schema) \<le> length (Fields r)" and "length (fieldNames schema) < 65535"
    and "length (environmentFields config) < 65536" and "record_room ser r < 2 ^ 32"
  shows "decode 4 (record_bytes ser r) = Some (event_message schema config r, [])"
proof -
  let ?n = "length (fieldNames schema)"
  let ?slot = "\<lambda>name. (hidden config name, str_block name, built_chain schema config name)"
  obtain locs where locs: "create_field_locators schema (environmentFields config) = Inr locs"
    and ser: "fieldSlots ser = map ?slot (fieldNames schema)"
      "envFields ser = zip locs (map str_block (environmentFields config))"
    using new_event_serializer_ok[OF assms(1)] assms(2) by auto
  define fs where "fs = take ?n (Fields r)"
  define l where "l = zip (fieldSlots ser) fs"
  define ws where "ws = field_blocks l r"
  define es where "es = env_blocks (envFields ser) fs"
  have l: "l = map (\<lambda>(name, v). (?slot name, v)) (zip (fieldNames schema) (Fields r))"
    by (simp add: l_def ser zip_map1 case_prod_unfold fs_def zip_take_length)
  have rs: "record_room ser r = 29 + fields_room l r + length (pair_bytes es)"
    by (simp add: record_room_def Let_def l_def fs_def es_def ser)
  have "list_all2 (\<lambda>w (x, y). denotes 2 (fst w) x \<and> denotes 2 (snd w) y) ws
      (map str_pair (event_fields schema config (Fields r) (Unescaped r) (zip (fieldNames schema) (Fields r))))"
    unfolding ws_def l using field_blocks_denote[OF assms(1,3), of r _ 1] rs assms(6)
    by (simp add: numeral_2_eq_2 l)
  moreover have "list_all2 (\<lambda>w (x, y). denotes 1 (fst w) x \<and> denotes 1 (snd w) y) es
      (map (\<lambda>name. str_pair (name, field_value schema (Fields r) name)) (environmentFields config))"
    using env_blocks_denote[OF locs, of fs 0] rs assms(6)
    by (simp add: es_def ser fs_def field_value_take)
  moreover have "length ws + 1 \<le> ?n + 1" using length_field_blocks[of l r] assms(3) by (simp add: ws_def l)
  moreover have es: "length es = length (environmentFields config)"
    using create_field_locators_ok[OF locs] by (simp add: es_def length_env_blocks ser)
  ultimately have "denotes 4 ([byte_or 0x90 2] @ event_time (Timestamp r) @ map_header (?n + 1) (1 + length ws) @ pair_bytes ws @
    str4 ''environment'' @ map_header (length es) (length es) @ pair_bytes es) (event_message schema config r)"
    unfolding event_message_def using assms(4,5) by (intro record_bytes_denotes) simp_all
  moreover have "record_bytes ser r = [byte_or 0x90 2] @ event_time (Timestamp r) @ map_header (?n + 1) (1 + length ws) @ pair_bytes ws @
    str4 ''environment'' @ map_header (length es) (length es) @ pair_bytes es"
    using assms(3) es create_field_locators_ok[OF locs]
    by (simp add: record_bytes_def Let_def ws_def es_def l_def fs_def ser)
  ultimately show ?thesis unfolding denotes_def by (metis append_Nil2)
qed

text \<open>Serializing a record changes nothing of it but the mark.\<close>

lemma after_rewrite_marks: "\<exists>u. after_rewrite w r = r\<lparr>Unescaped := u\<rparr>"
proof (induction w)
  case CopyRewriter
  show ?case by (intro exI[of _ "Unescaped r"]) simp
qed auto

lemma after_fields_keeps: "\<exists>u. after_fields l r = r\<lparr>Unescaped := u\<rparr>"
proof (induction l r rule: after_fields.induct)
  case (1 r)
  show ?case by (intro exI[of _ "Unescaped r"]) simp
next
  case (2 masked key rw v rest r)
  then show ?case
  proof (cases "masked \<or> v = [] \<or> rw = None")
    case False
    then obtain w where w: "rw = Some w" by auto
    obtain u where "after_rewrite w r = r\<lparr>Unescaped := u\<rparr>" using after_rewrite_marks by blast
    then show ?thesis using 2(3)[OF _ w] False w by auto
  qed (auto split: option.split)
qed

section \<open>Properties\<close>

text \<open>
  C12: What the upstream reads is what the record says. For a verified configuration with fewer
  than 65535 fields and a record that fits the buffer of the serializer, whatever earlier records
  have left in the buffer, serializing returns without panic, and a MessagePack decoder reads the
  bytes as the array of the record's time, in seconds and nanoseconds, and the map of its visible
  non-empty fields, rewritten as configured, with the environment fields nested; nothing is left
  over.
\<close>

theorem event_roundtrip:
  assumes "serialization_ok schema config" and "new_event_serializer schema config = Inr (Inr ser)"
    and "length (fieldNames schema) \<le> length (Fields r)" and "length (fieldNames schema) < 65535"
    and "length (environmentFields config) < 65536"
    and "length buf = 2 * InputLogMaxRecordBytes" and "record_room ser r < length buf"
  shows "\<exists>stream ser' r'. serialize_record (ser\<lparr>eventBuffer := buf\<rparr>) r = Inr (stream, ser', r') \<and>
    decode 4 stream = Some (event_message schema config r, []) \<and>
    length (eventBuffer ser') = length buf \<and> Fields r' = Fields r"
proof -
  define s where "s = ser\<lparr>eventBuffer := buf\<rparr>"
  have same: "record_bytes s r = record_bytes ser r" "record_room s r = record_room ser r"
    "fieldSlots s = fieldSlots ser" "envFields s = envFields ser" "eventBuffer s = buf"
    by (simp_all add: s_def record_bytes_def record_room_def)
  have b: "length (fieldSlots s) = length (fieldNames schema)"
    "slots_valid (zip (fieldSlots s) (take (length (fieldNames schema)) (Fields r))) (length (fieldNames schema))"
    "list_all (\<lambda>(loc, key). loc_ok (length (fieldNames schema)) loc) (envFields s)"
    using built_serializer[OF assms(1,2)] same by simp_all
  let ?after = "after_fields (zip (fieldSlots s) (take (length (fieldSlots s)) (Fields r))) r"
  have ser: "serialize_record s r = Inr (record_bytes s r, s\<lparr>eventBuffer := patch buf 0 (record_bytes s r)\<rparr>, ?after)"
    and len: "length (record_bytes s r) \<le> length buf"
    using serialize_record_ok[of s r] b assms(3,7) same by simp_all
  have "record_room ser r < 2 ^ 32"
    using assms(6,7) by (simp add: InputLogMaxRecordBytes_def InputLogMaxMessageBytes_def)
  then have "decode 4 (record_bytes s r) = Some (event_message schema config r, [])"
    using record_bytes_event[OF assms(1-5)] same by simp
  moreover have "Fields ?after = Fields r" using after_fields_keeps by (metis log_record.select_convs(1) log_record.surjective log_record.update_convs(4))
  moreover have "length (patch buf 0 (record_bytes s r)) = length buf" using len by simp
  ultimately show ?thesis using ser unfolding s_def[symmetric] by simp
qed

definition sample_schema :: log_schema where
  "sample_schema = \<lparr>fieldNames = [''log'', ''host''], maxFields = 2\<rparr>"

definition sample_config :: serialization_config where
  "sample_config = \<lparr>environmentFields = [''host''], hiddenFields = [], rewriteFields = [(''log'', [UnescapeConfig])]\<rparr>"

definition sample_record :: log_record where
  "sample_record = \<lparr>Fields = [''a'' @ [CHR 0x5C] @ ''nb'', ''vm''], RawLength = 10, Timestamp = 1000000005,
     Unescaped = False, backbuf = None, refCount = 1\<rparr>"

lemma sample_message:
  "event_message sample_schema sample_config sample_record =
     MArr [MTime 1 5, MMap [(MStr ''log'', MStr (''a'' @ [CHR 0x0A] @ ''b'')),
       (MStr ''environment'', MMap [(MStr ''host'', MStr ''vm'')])]]"
  by (simp add: event_message_def sample_schema_def sample_config_def sample_record_def hidden_def chain_of_def
      field_value_def)

theorem event_roundtrip_witness:
  "\<exists>ser stream ser' r'. new_event_serializer sample_schema sample_config = Inr (Inr ser) \<and>
     serialize_record ser sample_record = Inr (stream, ser', r') \<and>
     decode 4 stream = Some (MArr [MTime 1 5, MMap [(MStr ''log'', MStr (''a'' @ [CHR 0x0A] @ ''b'')),
       (MStr ''environment'', MMap [(MStr ''host'', MStr ''vm'')])]], [])"
proof -
  have ok: "serialization_ok sample_schema sample_config"
    by (simp add: serialization_ok_def sample_schema_def sample_config_def)
  obtain locs where locs: "create_field_locators sample_schema (environmentFields sample_config) = Inr locs"
    and new: "new_event_serializer sample_schema sample_config = Inr (Inr
      \<lparr>fieldSlots = map (\<lambda>name. (hidden sample_config name, str_block name, built_chain sample_schema sample_config name)) (fieldNames sample_schema),
       envFields = zip locs (map str_block (environmentFields sample_config)),
       eventBuffer = replicate (2 * InputLogMaxRecordBytes) (CHR 0x00)\<rparr>)" (is "_ = Inr (Inr ?ser)")
    using new_event_serializer_ok[OF ok] by blast
  have l: "locs = [1]"
    using locs by (simp add: sample_schema_def sample_config_def create_field_locator_def)
  have room: "record_room ?ser sample_record < length (eventBuffer ?ser)"
    by (simp add: l record_room_def Let_def sample_schema_def sample_config_def sample_record_def hidden_def chain_of_def
        built_chain_def pair_bytes_def str_block_def str4_def InputLogMaxRecordBytes_def InputLogMaxMessageBytes_def)
  have "?ser\<lparr>eventBuffer := eventBuffer ?ser\<rparr> = ?ser" by simp
  then show ?thesis
    using event_roundtrip[OF ok new, of sample_record "eventBuffer ?ser"] room new sample_message
    by (auto simp: sample_schema_def sample_config_def sample_record_def)
qed

end
