(* ===== verification/Client_Session.thy ===== *)
theory Client_Session
  imports Log_Record
begin

text \<open>
  The forwarding client of \<open>output/baseoutput\<close>: \<open>clientworker.go\<close> (the loop that opens
  connections and saves what is left) and \<open>clientsession.go\<close> (the sender and the acknowledger
  goroutines of one connection). Both goroutines, the network and the owner of the input channel
  interleave, so the client is a transition system: every branch of every \<open>select\<close>, every
  result of a network call and every time-out is an event, and \<open>client_step\<close> gives the state
  after an event, or \<^term>\<open>None\<close> where the event cannot happen. The theorems hold for every
  interleaving. The map of pending chunks is a list with one entry per ID, its iteration order
  being irrelevant because the leftovers are sorted. The last branch of \<open>collectLeftovers\<close>,
  where the acknowledger does not end a minute after its connection has been closed (logged as a
  bug by the code), is modelled up to the loss it causes and marked in \<open>brokenStop\<close>.
\<close>

section \<open>State\<close>

text \<open>\<open>ForwarderMaxPendingChunksForAck\<close>, the capacity of \<open>ackerChan\<close>.\<close>

definition ForwarderMaxPendingChunksForAck :: nat where
  "ForwarderMaxPendingChunksForAck = 10"

datatype reconnect_policy = ReconnectWithDelay | Reconnect | NoReconnect

datatype acknowledger_ending = WaitPendingChunks | EndImmediately

text \<open>
  Where the sending goroutine stands. A stage names the loop a call to \<open>sendChunk\<close> returns to;
  the list in the two waiting positions is \<open>fromPrevious\<close> of \<open>collectLeftovers\<close>.
\<close>

datatype stage = Recovery | Normal

datatype main_pc =
    AtLoop stage
  | Sending stage log_chunk
  | QueueingForAck stage log_chunk
  | Pinging
  | WaitSoftStop "log_chunk list" reconnect_policy
  | WaitHardStop "log_chunk list" reconnect_policy
  | SessionDone "log_chunk list" reconnect_policy

datatype acker_pc = AckerWaitChunk | AckerWaitAck log_chunk | AckerGone

record client_session =
  leftoverChan :: "log_chunk list"
  lastChunk :: "log_chunk option"
  ackerChan :: "log_chunk list"
  ackerChanClosed :: bool
  ackerAbort :: bool
  ackerEnded :: bool
  unacked :: "log_chunk list option"
  connAborted :: bool
  pendingChunks :: "log_chunk list"
  mainPc :: main_pc
  ackerPc :: acker_pc

definition new_client_session :: "log_chunk list \<Rightarrow> client_session" where
  "new_client_session leftovers =
     \<lparr>leftoverChan = leftovers, lastChunk = None, ackerChan = [], ackerChanClosed = False,
      ackerAbort = False, ackerEnded = False, unacked = None, connAborted = False,
      pendingChunks = [], mainPc = AtLoop Recovery, ackerPc = AckerWaitChunk\<rparr>"

text \<open>
  The worker, with the calls it has made so far: the chunks received from the input channel, sent
  without error, passed to \<open>onChunkAcked\<close> and to \<open>onChunkLeft\<close>, and how often \<open>onFinished\<close>
  was called.
\<close>

datatype worker_pc =
    Connecting "log_chunk list"
  | InSession client_session
  | RetryWait "log_chunk list"
  | Saving "log_chunk list"
  | WorkerStopped

record client_worker =
  inputQueue :: "log_chunk list"
  inputChannelClosed :: bool
  inputClosed :: bool
  maxDuration :: int
  takenChunks :: "log_chunk list"
  sentChunks :: "log_chunk list"
  consumedChunks :: "log_chunk list"
  leftChunks :: "log_chunk list"
  finishedCalls :: nat
  brokenStop :: bool
  workerPc :: worker_pc

definition new_client_worker :: "int \<Rightarrow> client_worker" where
  "new_client_worker duration =
     \<lparr>inputQueue = [], inputChannelClosed = False, inputClosed = False, maxDuration = duration,
      takenChunks = [], sentChunks = [], consumedChunks = [], leftChunks = [], finishedCalls = 0,
      brokenStop = False, workerPc = Connecting []\<rparr>"

section \<open>The sending goroutine\<close>

text \<open>\<open>newLeftoverChannel\<close>: sorted, and every ID equal to the previous one skipped.\<close>

fun skip_duplicates :: "bytes \<Rightarrow> log_chunk list \<Rightarrow> log_chunk list" where
  "skip_duplicates lastChunkID [] = []"
| "skip_duplicates lastChunkID (c # cs) =
     (if chunk_id c = lastChunkID then skip_duplicates lastChunkID cs
      else c # skip_duplicates (chunk_id c) cs)"

definition new_leftover_channel :: "log_chunk list \<Rightarrow> log_chunk list" where
  "new_leftover_channel chunks = skip_duplicates [] (sort_key chunk_id chunks)"

text \<open>
  \<open>collectLeftovers\<close>, cut where it waits: closing the channels, the hard stop after a soft one,
  and the merge once the acknowledger has ended (or the wait has timed out).
\<close>

definition stop_acker_hard :: "log_chunk list \<Rightarrow> reconnect_policy \<Rightarrow> client_session \<Rightarrow> client_session" where
  "stop_acker_hard fromPrevious retry s =
     s\<lparr>ackerAbort := True, connAborted := True, mainPc := WaitHardStop fromPrevious retry\<rparr>"

definition collect_leftovers ::
  "stage \<Rightarrow> acknowledger_ending \<Rightarrow> reconnect_policy \<Rightarrow> client_session \<Rightarrow> client_session" where
  "collect_leftovers st ending retry s =
     (let fromPrevious = (case st of Recovery \<Rightarrow> leftoverChan s | Normal \<Rightarrow> []);
          s1 = s\<lparr>leftoverChan := (case st of Recovery \<Rightarrow> [] | Normal \<Rightarrow> leftoverChan s),
                 ackerChanClosed := True\<rparr>
      in case ending of
           WaitPendingChunks \<Rightarrow> s1\<lparr>mainPc := WaitSoftStop fromPrevious retry\<rparr>
         | EndImmediately \<Rightarrow> stop_acker_hard fromPrevious retry s1)"

definition gather_leftovers :: "log_chunk list \<Rightarrow> reconnect_policy \<Rightarrow> client_session \<Rightarrow> client_session" where
  "gather_leftovers fromPrevious retry s =
     (let fromAckerPending = (case unacked s of None \<Rightarrow> [] | Some l \<Rightarrow> l);
          inproc = (case lastChunk s of None \<Rightarrow> [] | Some c \<Rightarrow> [c])
      in s\<lparr>ackerChan := [],
           mainPc := SessionDone
             (new_leftover_channel (fromPrevious @ ackerChan s @ fromAckerPending @ inproc)) retry\<rparr>)"

datatype main_event =
    StopSeen | LeftoverTaken | NoLeftover
  | InputTaken | InputEnd | MaxDurationReached | SignalUsr1 | PingTime
  | PingResult bool | SendResult bool | Queued | AckerEndSeen
  | SoftStopped | SoftStopTimeout | HardStopped | HardStopTimeout

text \<open>
  The \<open>select\<close> of \<open>resendLeftovers\<close>; \<open>default\<close> is taken only when no other branch is ready. The
  leftover channel is never closed at this point.
\<close>

fun resend_leftovers :: "main_event \<Rightarrow> client_worker \<Rightarrow> client_session \<Rightarrow> (client_worker \<times> client_session) option" where
  "resend_leftovers StopSeen w s =
     (if inputClosed w then Some (w, collect_leftovers Recovery EndImmediately NoReconnect s) else None)"
| "resend_leftovers LeftoverTaken w s =
     (case leftoverChan s of
        [] \<Rightarrow> None
      | c # cs \<Rightarrow> Some (w, s\<lparr>leftoverChan := cs, lastChunk := Some c, mainPc := Sending Recovery c\<rparr>))"
| "resend_leftovers NoLeftover w s =
     (if \<not> inputClosed w \<and> leftoverChan s = [] then Some (w, s\<lparr>mainPc := AtLoop Normal\<rparr>) else None)"
| "resend_leftovers _ w s = None"

text \<open>The \<open>select\<close> of \<open>processInput\<close>. A ping is due only while no chunk arrives.\<close>

fun process_input :: "main_event \<Rightarrow> client_worker \<Rightarrow> client_session \<Rightarrow> (client_worker \<times> client_session) option" where
  "process_input InputTaken w s =
     (case inputQueue w of
        [] \<Rightarrow> None
      | c # cs \<Rightarrow> Some (w\<lparr>inputQueue := cs, takenChunks := takenChunks w @ [c]\<rparr>,
                        s\<lparr>lastChunk := Some c, mainPc := Sending Normal c\<rparr>))"
| "process_input InputEnd w s =
     (if inputQueue w = [] \<and> inputChannelClosed w
      then Some (w, collect_leftovers Normal EndImmediately NoReconnect s) else None)"
| "process_input MaxDurationReached w s =
     (if 0 < maxDuration w then Some (w, collect_leftovers Normal WaitPendingChunks Reconnect s) else None)"
| "process_input SignalUsr1 w s = Some (w, collect_leftovers Normal WaitPendingChunks Reconnect s)"
| "process_input PingTime w s =
     (if inputQueue w = [] \<and> \<not> inputChannelClosed w then Some (w, s\<lparr>mainPc := Pinging\<rparr>) else None)"
| "process_input _ w s = None"

text \<open>
  \<open>sendChunk\<close>: the result of \<open>conn.SendChunk\<close> (an error aborts the connection), then the
  \<open>select\<close> that hands the chunk to the acknowledger. A call may still succeed after the connection has been
  aborted: the result of a socket may have been on its way, and the Datadog client has nothing to close.
\<close>

definition send_result :: "bool \<Rightarrow> stage \<Rightarrow> log_chunk \<Rightarrow> client_worker \<Rightarrow> client_session \<Rightarrow>
    (client_worker \<times> client_session) option" where
  "send_result ok st c w s =
     (if ok then
        Some (w\<lparr>sentChunks := sentChunks w @ [c]\<rparr>, s\<lparr>mainPc := QueueingForAck st c\<rparr>)
      else Some (w, collect_leftovers st EndImmediately ReconnectWithDelay (s\<lparr>connAborted := True\<rparr>)))"

fun queue_for_ack :: "main_event \<Rightarrow> stage \<Rightarrow> log_chunk \<Rightarrow> client_worker \<Rightarrow> client_session \<Rightarrow>
    (client_worker \<times> client_session) option" where
  "queue_for_ack Queued st c w s =
     (if length (ackerChan s) < ForwarderMaxPendingChunksForAck
      then Some (w, s\<lparr>ackerChan := ackerChan s @ [c], lastChunk := None, mainPc := AtLoop st\<rparr>)
      else None)"
| "queue_for_ack StopSeen st c w s =
     (if inputClosed w then Some (w, collect_leftovers st EndImmediately NoReconnect s) else None)"
| "queue_for_ack AckerEndSeen st c w s =
     (if ackerEnded s then Some (w, collect_leftovers st EndImmediately ReconnectWithDelay s) else None)"
| "queue_for_ack _ st c w s = None"

text \<open>\<open>sendPing\<close> and the continuation in \<open>processInput\<close>.\<close>

definition send_ping :: "bool \<Rightarrow> client_worker \<Rightarrow> client_session \<Rightarrow> (client_worker \<times> client_session) option" where
  "send_ping ok w s =
     (if ok then Some (w, s\<lparr>mainPc := AtLoop Normal\<rparr>)
      else Some (w, collect_leftovers Normal EndImmediately ReconnectWithDelay (s\<lparr>connAborted := True\<rparr>)))"

text \<open>The two waits of \<open>collectLeftovers\<close>.\<close>

fun wait_soft_stop :: "main_event \<Rightarrow> log_chunk list \<Rightarrow> reconnect_policy \<Rightarrow> client_worker \<Rightarrow> client_session \<Rightarrow>
    (client_worker \<times> client_session) option" where
  "wait_soft_stop SoftStopped prev retry w s =
     (if ackerEnded s then Some (w, stop_acker_hard prev retry s) else None)"
| "wait_soft_stop SoftStopTimeout prev retry w s = Some (w, stop_acker_hard prev retry s)"
| "wait_soft_stop _ prev retry w s = None"

fun wait_hard_stop :: "main_event \<Rightarrow> log_chunk list \<Rightarrow> reconnect_policy \<Rightarrow> client_worker \<Rightarrow> client_session \<Rightarrow>
    (client_worker \<times> client_session) option" where
  "wait_hard_stop HardStopped prev retry w s =
     (if ackerEnded s then Some (w, gather_leftovers prev retry s) else None)"
| "wait_hard_stop HardStopTimeout prev retry w s =
     (if ackerEnded s then None else Some (w\<lparr>brokenStop := True\<rparr>, gather_leftovers prev retry s))"
| "wait_hard_stop _ prev retry w s = None"

definition main_step :: "main_event \<Rightarrow> client_worker \<Rightarrow> client_session \<Rightarrow> (client_worker \<times> client_session) option" where
  "main_step ev w s =
     (case mainPc s of
        AtLoop Recovery \<Rightarrow> resend_leftovers ev w s
      | AtLoop Normal \<Rightarrow> process_input ev w s
      | Sending st c \<Rightarrow> (case ev of SendResult ok \<Rightarrow> send_result ok st c w s | _ \<Rightarrow> None)
      | QueueingForAck st c \<Rightarrow> queue_for_ack ev st c w s
      | Pinging \<Rightarrow> (case ev of PingResult ok \<Rightarrow> send_ping ok w s | _ \<Rightarrow> None)
      | WaitSoftStop prev retry \<Rightarrow> wait_soft_stop ev prev retry w s
      | WaitHardStop prev retry \<Rightarrow> wait_hard_stop ev prev retry w s
      | SessionDone l retry \<Rightarrow> None)"

section \<open>The acknowledger goroutine\<close>

text \<open>
  \<open>AckRead None\<close> is an error of \<open>ReadChunkAck\<close> (after which the connection is aborted),
  \<open>AckRead (Some id)\<close> a response, whose ID is empty where the protocol has none.
\<close>

datatype acker_event = ChunkReceived | ChanClosed | AbortSeen | AckRead "bytes option"

definition put_pending :: "log_chunk \<Rightarrow> log_chunk list \<Rightarrow> log_chunk list" where
  "put_pending c ps = c # filter (\<lambda>d. chunk_id d \<noteq> chunk_id c) ps"

definition delete_pending :: "bytes \<Rightarrow> log_chunk list \<Rightarrow> log_chunk list" where
  "delete_pending k ps = filter (\<lambda>d. chunk_id d \<noteq> k) ps"

text \<open>The deferred function.\<close>

definition acker_end :: "client_session \<Rightarrow> client_session" where
  "acker_end s = s\<lparr>unacked := Some (pendingChunks s), ackerEnded := True, ackerPc := AckerGone\<rparr>"

definition ack_chunk :: "log_chunk \<Rightarrow> client_worker \<Rightarrow> client_session \<Rightarrow> client_worker \<times> client_session" where
  "ack_chunk c w s =
     (w\<lparr>consumedChunks := consumedChunks w @ [c]\<rparr>,
      s\<lparr>pendingChunks := delete_pending (chunk_id c) (pendingChunks s), ackerPc := AckerWaitChunk\<rparr>)"

definition read_ack :: "bytes option \<Rightarrow> log_chunk \<Rightarrow> client_worker \<Rightarrow> client_session \<Rightarrow>
    (client_worker \<times> client_session) option" where
  "read_ack reply nextChunk w s =
     (case reply of
        None \<Rightarrow> Some (w, acker_end (s\<lparr>connAborted := True\<rparr>))
      | Some ackedChunkID \<Rightarrow>
          if ackedChunkID = [] then Some (ack_chunk nextChunk w s)
          else (case find (\<lambda>d. chunk_id d = ackedChunkID) (pendingChunks s) of
                  None \<Rightarrow> Some (w, s\<lparr>ackerPc := AckerWaitChunk\<rparr>)
                | Some c \<Rightarrow> Some (ack_chunk c w s)))"

fun acker_select :: "acker_event \<Rightarrow> client_worker \<Rightarrow> client_session \<Rightarrow> (client_worker \<times> client_session) option" where
  "acker_select ChunkReceived w s =
     (case ackerChan s of
        [] \<Rightarrow> None
      | c # cs \<Rightarrow> Some (w, s\<lparr>ackerChan := cs, pendingChunks := put_pending c (pendingChunks s),
                            ackerPc := AckerWaitAck c\<rparr>))"
| "acker_select ChanClosed w s =
     (if ackerChan s = [] \<and> ackerChanClosed s then Some (w, acker_end s) else None)"
| "acker_select AbortSeen w s = (if ackerAbort s then Some (w, acker_end s) else None)"
| "acker_select _ w s = None"

definition acker_step :: "acker_event \<Rightarrow> client_worker \<Rightarrow> client_session \<Rightarrow> (client_worker \<times> client_session) option" where
  "acker_step ev w s =
     (case ackerPc s of
        AckerWaitChunk \<Rightarrow> acker_select ev w s
      | AckerWaitAck c \<Rightarrow> (case ev of AckRead reply \<Rightarrow> read_ack reply c w s | _ \<Rightarrow> None)
      | AckerGone \<Rightarrow> None)"

section \<open>The worker\<close>

text \<open>
  \<open>runSession\<close> up to the session, the loop of \<open>run\<close> with its retry policies, and the saving of
  the leftovers. The environment feeds and closes the input channel and signals the stop, on
  which the handler given to \<open>inputClosed.Next\<close> aborts the active session.
\<close>

datatype worker_event =
    StopBeforeConnect | ConnectFailed | Connected | SessionEnd
  | RetryStop | RetryTimeout | LeftoverSaved | Finish

definition next_attempt :: "log_chunk list \<Rightarrow> reconnect_policy \<Rightarrow> worker_pc" where
  "next_attempt leftovers retry =
     (case retry of
        NoReconnect \<Rightarrow> Saving leftovers
      | ReconnectWithDelay \<Rightarrow> RetryWait leftovers
      | Reconnect \<Rightarrow> Connecting leftovers)"

fun run_session :: "worker_event \<Rightarrow> log_chunk list \<Rightarrow> client_worker \<Rightarrow> client_worker option" where
  "run_session StopBeforeConnect leftovers w =
     (if inputClosed w then Some (w\<lparr>workerPc := next_attempt leftovers NoReconnect\<rparr>) else None)"
| "run_session ConnectFailed leftovers w =
     Some (w\<lparr>workerPc := next_attempt leftovers ReconnectWithDelay\<rparr>)"
| "run_session Connected leftovers w = Some (w\<lparr>workerPc := InSession (new_client_session leftovers)\<rparr>)"
| "run_session _ leftovers w = None"

fun retry_wait :: "worker_event \<Rightarrow> log_chunk list \<Rightarrow> client_worker \<Rightarrow> client_worker option" where
  "retry_wait RetryStop leftovers w =
     (if inputClosed w then Some (w\<lparr>workerPc := Saving leftovers\<rparr>) else None)"
| "retry_wait RetryTimeout leftovers w =
     (if inputClosed w then None else Some (w\<lparr>workerPc := Connecting leftovers\<rparr>))"
| "retry_wait _ leftovers w = None"

fun save_leftovers :: "worker_event \<Rightarrow> log_chunk list \<Rightarrow> client_worker \<Rightarrow> client_worker option" where
  "save_leftovers LeftoverSaved (c # cs) w =
     Some (w\<lparr>leftChunks := leftChunks w @ [c], workerPc := Saving cs\<rparr>)"
| "save_leftovers Finish [] w =
     Some (w\<lparr>finishedCalls := finishedCalls w + 1, workerPc := WorkerStopped\<rparr>)"
| "save_leftovers _ _ w = None"

definition worker_step :: "worker_event \<Rightarrow> client_worker \<Rightarrow> client_worker option" where
  "worker_step ev w =
     (case workerPc w of
        Connecting leftovers \<Rightarrow> run_session ev leftovers w
      | InSession s \<Rightarrow> (case (ev, mainPc s) of
            (SessionEnd, SessionDone leftovers retry) \<Rightarrow> Some (w\<lparr>workerPc := next_attempt leftovers retry\<rparr>)
          | _ \<Rightarrow> None)
      | RetryWait leftovers \<Rightarrow> retry_wait ev leftovers w
      | Saving leftovers \<Rightarrow> save_leftovers ev leftovers w
      | WorkerStopped \<Rightarrow> None)"

datatype client_event =
    Main main_event | Acker acker_event | Worker worker_event
  | Feed log_chunk | CloseInput | StopRequest | AbortOnStop

definition in_session ::
  "(client_worker \<Rightarrow> client_session \<Rightarrow> (client_worker \<times> client_session) option) \<Rightarrow> client_worker \<Rightarrow> client_worker option" where
  "in_session f w =
     (case workerPc w of
        InSession s \<Rightarrow> map_option (\<lambda>(w', s'). w'\<lparr>workerPc := InSession s'\<rparr>) (f w s)
      | _ \<Rightarrow> None)"

definition abort_session :: "client_worker \<Rightarrow> client_session \<Rightarrow> (client_worker \<times> client_session) option" where
  "abort_session w s = (if inputClosed w \<and> \<not> connAborted s then Some (w, s\<lparr>connAborted := True\<rparr>) else None)"

fun client_step :: "client_event \<Rightarrow> client_worker \<Rightarrow> client_worker option" where
  "client_step (Main ev) w = in_session (main_step ev) w"
| "client_step (Acker ev) w = in_session (acker_step ev) w"
| "client_step (Worker ev) w = worker_step ev w"
| "client_step (Feed c) w =
     (if inputChannelClosed w then None else Some (w\<lparr>inputQueue := inputQueue w @ [c]\<rparr>))"
| "client_step CloseInput w = (if inputChannelClosed w then None else Some (w\<lparr>inputChannelClosed := True\<rparr>))"
| "client_step StopRequest w = (if inputClosed w then None else Some (w\<lparr>inputClosed := True\<rparr>))"
| "client_step AbortOnStop w = in_session abort_session w"

fun client_run :: "client_event list \<Rightarrow> client_worker \<Rightarrow> client_worker option" where
  "client_run [] w = Some w"
| "client_run (ev # evs) w = Option.bind (client_step ev w) (client_run evs)"

inductive client_reachable :: "int \<Rightarrow> client_worker \<Rightarrow> bool" for duration where
  start: "client_reachable duration (new_client_worker duration)"
| step: "client_reachable duration w \<Longrightarrow> client_step ev w = Some w' \<Longrightarrow> client_reachable duration w'"

section \<open>The leftovers of a session\<close>

lemma set_skip_duplicates: "chunk_id ` set (skip_duplicates k cs) \<subseteq> chunk_id ` set cs"
  by (induction k cs rule: skip_duplicates.induct) auto

lemma skip_duplicates_sorted:
  assumes "sorted (map chunk_id cs)" and "\<forall>c \<in> set cs. k \<le> chunk_id c"
  shows "sorted_wrt (<) (map chunk_id (skip_duplicates k cs)) \<and>
    (\<forall>c \<in> set (skip_duplicates k cs). k < chunk_id c) \<and>
    chunk_id ` set (skip_duplicates k cs) = chunk_id ` set cs - {k}"
  using assms
proof (induction k cs rule: skip_duplicates.induct)
  case (2 k c cs)
  show ?case
  proof (cases "chunk_id c = k")
    case True
    then show ?thesis using 2 by auto
  next
    case False
    then have "k < chunk_id c" using 2 by auto
    moreover have "sorted_wrt (<) (map chunk_id (skip_duplicates (chunk_id c) cs)) \<and>
      (\<forall>d \<in> set (skip_duplicates (chunk_id c) cs). chunk_id c < chunk_id d) \<and>
      chunk_id ` set (skip_duplicates (chunk_id c) cs) = chunk_id ` set cs - {chunk_id c}"
      using 2 False by simp
    moreover have le: "\<forall>d \<in> set cs. chunk_id c \<le> chunk_id d" using 2 by simp
    moreover have "k \<notin> chunk_id ` set cs" using le \<open>k < chunk_id c\<close> by (metis imageE leD)
    moreover have "\<forall>d \<in> set (skip_duplicates (chunk_id c) cs). k < chunk_id d"
      using \<open>k < chunk_id c\<close> calculation(2) by (meson less_trans)
    ultimately show ?thesis using False by (auto simp: insert_Diff_if order_le_less)
  qed
qed simp

lemma skip_duplicates_id:
  "distinct (map chunk_id cs) \<Longrightarrow> k \<notin> chunk_id ` set cs \<Longrightarrow> skip_duplicates k cs = cs"
  by (induction cs arbitrary: k) auto

lemma mset_new_leftover_channel:
  assumes "distinct (map chunk_id cs)" and "[] \<notin> chunk_id ` set cs"
  shows "mset (new_leftover_channel cs) = mset cs"
proof -
  have "distinct (map chunk_id (sort_key chunk_id cs))"
    using assms(1) by (metis mset_map mset_sort mset_eq_imp_distinct_iff)
  then show ?thesis using assms by (simp add: new_leftover_channel_def skip_duplicates_id)
qed

section \<open>The state of a session\<close>

text \<open>
  What every session satisfies, whatever the interleaving: the positions of the two goroutines
  determine which of the fields are set.
\<close>

fun main_ok :: "main_pc \<Rightarrow> client_worker \<Rightarrow> client_session \<Rightarrow> bool" where
  "main_ok (AtLoop st) w s =
     (lastChunk s = None \<and> \<not> ackerChanClosed s \<and> (st = Normal \<longrightarrow> leftoverChan s = []))"
| "main_ok (Sending st c) w s =
     (lastChunk s = Some c \<and> \<not> ackerChanClosed s \<and> (st = Normal \<longrightarrow> leftoverChan s = []))"
| "main_ok (QueueingForAck st c) w s =
     (lastChunk s = Some c \<and> c \<in> set (sentChunks w) \<and> \<not> ackerChanClosed s \<and>
      (st = Normal \<longrightarrow> leftoverChan s = []))"
| "main_ok Pinging w s = (lastChunk s = None \<and> \<not> ackerChanClosed s \<and> leftoverChan s = [])"
| "main_ok (WaitSoftStop prev retry) w s = (ackerChanClosed s \<and> leftoverChan s = [])"
| "main_ok (WaitHardStop prev retry) w s =
     (ackerChanClosed s \<and> ackerAbort s \<and> connAborted s \<and> leftoverChan s = [])"
| "main_ok (SessionDone l retry) w s =
     (ackerChanClosed s \<and> ackerAbort s \<and> connAborted s \<and> (ackerEnded s \<or> brokenStop w))"

fun acker_ok :: "acker_pc \<Rightarrow> bool \<Rightarrow> log_chunk list option \<Rightarrow> log_chunk list \<Rightarrow> bool" where
  "acker_ok AckerWaitChunk ended un ps = (\<not> ended \<and> un = None)"
| "acker_ok (AckerWaitAck c) ended un ps = (\<not> ended \<and> un = None \<and> c \<in> set ps)"
| "acker_ok AckerGone ended un ps = (ended \<and> un = Some ps)"

definition session_ok :: "client_worker \<Rightarrow> client_session \<Rightarrow> bool" where
  "session_ok w s =
     (main_ok (mainPc s) w s \<and> acker_ok (ackerPc s) (ackerEnded s) (unacked s) (pendingChunks s) \<and>
      distinct (map chunk_id (pendingChunks s)) \<and> length (ackerChan s) \<le> ForwarderMaxPendingChunksForAck \<and>
      set (ackerChan s) \<union> set (pendingChunks s) \<subseteq> set (sentChunks w))"

text \<open>The chunks a session holds, each place once.\<close>

definition held :: "client_session \<Rightarrow> log_chunk list" where
  "held s = ackerChan s @ pendingChunks s @ (case lastChunk s of None \<Rightarrow> [] | Some c \<Rightarrow> [c])"

fun flight :: "main_pc \<Rightarrow> client_session \<Rightarrow> log_chunk list" where
  "flight (WaitSoftStop prev retry) s = prev @ held s"
| "flight (WaitHardStop prev retry) s = prev @ held s"
| "flight (SessionDone l retry) s = l"
| "flight (AtLoop st) s = leftoverChan s @ held s"
| "flight (Sending st c) s = leftoverChan s @ held s"
| "flight (QueueingForAck st c) s = leftoverChan s @ held s"
| "flight Pinging s = leftoverChan s @ held s"

definition in_flight :: "client_session \<Rightarrow> log_chunk list" where
  "in_flight s = flight (mainPc s) s"

lemma session_ok_new: "session_ok w (new_client_session leftovers)"
  by (simp add: session_ok_def new_client_session_def)

lemma in_flight_new: "in_flight (new_client_session leftovers) = leftovers"
  by (simp add: in_flight_def held_def new_client_session_def)

lemmas collect_defs = collect_leftovers_def stop_acker_hard_def Let_def

lemma collect_leftovers_facts [simp]:
  "ackerChan (collect_leftovers st ending retry s) = ackerChan s"
  "pendingChunks (collect_leftovers st ending retry s) = pendingChunks s"
  "lastChunk (collect_leftovers st ending retry s) = lastChunk s"
  "ackerPc (collect_leftovers st ending retry s) = ackerPc s"
  "ackerEnded (collect_leftovers st ending retry s) = ackerEnded s"
  "unacked (collect_leftovers st ending retry s) = unacked s"
  "ackerChanClosed (collect_leftovers st ending retry s)"
  by (cases ending; cases st; simp add: collect_defs)+

lemma collect_leftovers_main:
  assumes "st = Normal \<longrightarrow> leftoverChan s = []"
  shows "main_ok (mainPc (collect_leftovers st ending retry s)) w (collect_leftovers st ending retry s)"
    and "in_flight (collect_leftovers st ending retry s) = leftoverChan s @ held s"
  using assms by (cases st; cases ending; simp add: collect_defs in_flight_def held_def)+

lemma session_ok_collect:
  assumes "session_ok w s" and "st = Normal \<longrightarrow> leftoverChan s = []"
  shows "session_ok w (collect_leftovers st ending retry s)"
  using assms by (simp add: session_ok_def collect_leftovers_main)

section \<open>Every step keeps the session well formed and its chunks accounted for\<close>

definition ids_ok :: "client_worker \<Rightarrow> bool" where
  "ids_ok w = (distinct (map chunk_id (takenChunks w)) \<and> [] \<notin> chunk_id ` set (takenChunks w))"

definition accounted :: "client_worker \<Rightarrow> log_chunk list \<Rightarrow> bool" where
  "accounted w fl =
     (mset (takenChunks w) = mset (consumedChunks w) + mset (leftChunks w) + mset fl)"

lemma accounted_ids:
  assumes "accounted w fl" and "ids_ok w"
  shows "distinct (map chunk_id fl)" and "[] \<notin> chunk_id ` set fl"
proof -
  have eq: "mset (takenChunks w) = mset (consumedChunks w @ leftChunks w @ fl)"
    using assms(1) by (simp add: accounted_def)
  then have "mset (map chunk_id (takenChunks w)) = mset (map chunk_id (consumedChunks w @ leftChunks w @ fl))"
    by simp
  then have "distinct (map chunk_id (consumedChunks w @ leftChunks w @ fl))"
    using assms(2) unfolding ids_ok_def by (metis mset_eq_imp_distinct_iff)
  then show "distinct (map chunk_id fl)" by simp
  have "set fl \<subseteq> set (takenChunks w)" using eq mset_eq_setD by fastforce
  then show "[] \<notin> chunk_id ` set fl" using assms(2) unfolding ids_ok_def by blast
qed

text \<open>A step that takes nothing from the input and reports nothing moves chunks only.\<close>

definition same_account :: "client_worker \<Rightarrow> client_worker \<Rightarrow> bool" where
  "same_account w w' =
     (takenChunks w' = takenChunks w \<and> consumedChunks w' = consumedChunks w \<and>
      leftChunks w' = leftChunks w \<and> set (sentChunks w) \<subseteq> set (sentChunks w') \<and>
      finishedCalls w' = finishedCalls w \<and> (brokenStop w \<longrightarrow> brokenStop w'))"

definition moves :: "client_worker \<Rightarrow> client_session \<Rightarrow> client_worker \<times> client_session \<Rightarrow> bool" where
  "moves w s res =
     (session_ok (fst res) (snd res) \<and> same_account w (fst res) \<and>
      mset (in_flight (snd res)) = mset (in_flight s))"

lemma moves_collect:
  assumes "session_ok w s" and "st = Normal \<longrightarrow> leftoverChan s = []"
    and "in_flight s0 = leftoverChan s @ held s"
  shows "moves w s0 (w, collect_leftovers st ending retry s)"
  using assms session_ok_collect[OF assms(1,2)] collect_leftovers_main(2)[OF assms(2)]
  by (simp add: moves_def same_account_def)

lemma resend_moves:
  assumes "resend_leftovers ev w s = Some res" and "session_ok w s" and "mainPc s = AtLoop Recovery"
  shows "moves w s res"
proof (cases ev)
  case StopSeen
  then show ?thesis using assms by (auto split: if_splits simp: in_flight_def intro!: moves_collect)
next
  case LeftoverTaken
  then show ?thesis using assms
    by (auto simp: moves_def same_account_def session_ok_def in_flight_def held_def split: list.splits)
next
  case NoLeftover
  then show ?thesis using assms
    by (auto simp: moves_def same_account_def session_ok_def in_flight_def held_def split: if_splits)
qed (use assms in simp_all)

lemma process_input_moves:
  assumes "process_input ev w s = Some res" and "session_ok w s" and "mainPc s = AtLoop Normal"
    and "ev \<noteq> InputTaken"
  shows "moves w s res"
proof -
  have n: "leftoverChan s = []" using assms(2,3) by (simp add: session_ok_def)
  show ?thesis
  proof (cases ev)
    case PingTime
    then show ?thesis using assms
      by (auto simp: moves_def same_account_def session_ok_def in_flight_def held_def split: if_splits)
  qed (use assms n in \<open>auto split: if_splits simp: in_flight_def intro!: moves_collect\<close>)
qed

lemma process_input_takes:
  assumes "process_input InputTaken w s = Some (w', s')" and "session_ok w s" and "mainPc s = AtLoop Normal"
  shows "\<exists>c cs. inputQueue w = c # cs \<and>
    w' = w\<lparr>inputQueue := cs, takenChunks := takenChunks w @ [c]\<rparr> \<and> session_ok w' s' \<and>
    mset (in_flight s') = mset (in_flight s) + {#c#}"
  using assms by (auto simp: session_ok_def in_flight_def held_def split: list.splits)

lemma send_result_moves:
  assumes "send_result ok st c w s = Some res" and "session_ok w s" and "mainPc s = Sending st c"
  shows "moves w s res"
proof (cases ok)
  case True
  then show ?thesis using assms
    by (auto simp: send_result_def moves_def same_account_def session_ok_def in_flight_def held_def split: if_splits)
next
  case False
  have "session_ok w (s\<lparr>connAborted := True\<rparr>)"
    using assms(2,3) by (simp add: session_ok_def)
  then show ?thesis using assms False
    by (auto simp: send_result_def session_ok_def in_flight_def held_def intro!: moves_collect)
qed

lemma queue_for_ack_moves:
  assumes "queue_for_ack ev st c w s = Some res" and "session_ok w s" and "mainPc s = QueueingForAck st c"
  shows "moves w s res"
proof (cases "ev = Queued")
  case True
  then show ?thesis using assms
    by (auto simp: moves_def same_account_def session_ok_def in_flight_def held_def split: if_splits)
next
  case False
  have "st = Normal \<longrightarrow> leftoverChan s = []" using assms(2,3) by (simp add: session_ok_def)
  then show ?thesis using assms False
    by (cases ev) (auto split: if_splits simp: in_flight_def intro!: moves_collect)
qed

lemma send_ping_moves:
  assumes "send_ping ok w s = Some res" and "session_ok w s" and "mainPc s = Pinging"
  shows "moves w s res"
proof (cases ok)
  case True
  then show ?thesis using assms
    by (auto simp: send_ping_def moves_def same_account_def session_ok_def in_flight_def held_def split: if_splits)
next
  case False
  have "session_ok w (s\<lparr>connAborted := True\<rparr>)" "leftoverChan s = []"
    using assms(2,3) by (simp_all add: session_ok_def)
  then show ?thesis using assms False
    by (auto simp: send_ping_def session_ok_def in_flight_def held_def intro!: moves_collect)
qed

lemma wait_soft_stop_moves:
  assumes "wait_soft_stop ev prev retry w s = Some res" and "session_ok w s"
    and "mainPc s = WaitSoftStop prev retry"
  shows "moves w s res"
  using assms
  by (cases ev)
    (auto simp: moves_def same_account_def session_ok_def in_flight_def held_def stop_acker_hard_def split: if_splits)

lemma gather_moves:
  assumes "session_ok w s" and "mainPc s = WaitHardStop prev retry" and "ackerEnded s"
    and "distinct (map chunk_id (in_flight s))" and "[] \<notin> chunk_id ` set (in_flight s)"
  shows "mset (in_flight (gather_leftovers prev retry s)) = mset (in_flight s)"
proof -
  have "unacked s = Some (pendingChunks s)"
    using assms(1,3) by (cases "ackerPc s") (simp_all add: session_ok_def)
  then have "in_flight (gather_leftovers prev retry s) = new_leftover_channel (in_flight s)"
    using assms(2) by (simp add: in_flight_def gather_leftovers_def held_def Let_def)
  then show ?thesis using assms(4,5) by (simp add: mset_new_leftover_channel)
qed

lemma session_ok_gather:
  assumes "session_ok w s" and "mainPc s = WaitHardStop prev retry" and "ackerEnded s \<or> brokenStop w"
  shows "session_ok w (gather_leftovers prev retry s)"
  using assms by (simp add: session_ok_def gather_leftovers_def Let_def)

lemma wait_hard_stop_accounts:
  assumes "wait_hard_stop ev prev retry w s = Some (w', s')" and "session_ok w s"
    and "mainPc s = WaitHardStop prev retry"
  shows "session_ok w' s' \<and> same_account w w' \<and>
    (\<not> brokenStop w' \<and> distinct (map chunk_id (in_flight s)) \<and> [] \<notin> chunk_id ` set (in_flight s) \<longrightarrow>
      mset (in_flight s') = mset (in_flight s))"
proof (cases "ev = HardStopped")
  case True
  then show ?thesis using assms session_ok_gather[OF assms(2,3)] gather_moves[OF assms(2,3)]
    by (auto simp: same_account_def split: if_splits)
next
  case False
  then have "s' = gather_leftovers prev retry s" "w' = w\<lparr>brokenStop := True\<rparr>"
    using assms(1) by (cases ev; simp split: if_splits)+
  moreover have "session_ok (w\<lparr>brokenStop := True\<rparr>) s"
    using assms(2,3) by (simp add: session_ok_def)
  ultimately show ?thesis using session_ok_gather[of w' s prev retry] assms(3)
    by (simp add: same_account_def)
qed

fun unsent_part :: "main_pc \<Rightarrow> client_session \<Rightarrow> log_chunk list" where
  "unsent_part (WaitSoftStop prev retry) s = prev"
| "unsent_part (WaitHardStop prev retry) s = prev"
| "unsent_part _ s = leftoverChan s"

lemma in_flight_unsent:
  assumes "session_ok w s" and "\<not> brokenStop w" and "\<not> ackerEnded s"
  shows "in_flight s = unsent_part (mainPc s) s @ held s"
  using assms by (cases "mainPc s") (simp_all add: in_flight_def session_ok_def)

lemma session_ok_sent:
  "session_ok w s \<Longrightarrow> set (sentChunks w) \<subseteq> set (sentChunks w') \<Longrightarrow> (brokenStop w \<Longrightarrow> brokenStop w') \<Longrightarrow>
    session_ok w' s"
  by (cases "mainPc s") (auto simp: session_ok_def)

lemma delete_pending_mset:
  assumes "distinct (map chunk_id ps)" and "c \<in> set ps"
  shows "mset ps = mset (delete_pending (chunk_id c) ps) + {#c#}"
  using assms
proof (induction ps)
  case (Cons d ps)
  show ?case
  proof (cases "d = c")
    case True
    then have "filter (\<lambda>e. chunk_id e \<noteq> chunk_id c) ps = ps"
      using Cons.prems(1) by (intro filter_True) (metis distinct.simps(2) image_eqI list.map(2) list.set_map)
    then show ?thesis using True by (simp add: delete_pending_def)
  next
    case False
    then have "chunk_id d \<noteq> chunk_id c" using Cons.prems by (metis distinct.simps(2) image_eqI list.map(2) list.set_map set_ConsD)
    then show ?thesis using Cons False by (simp add: delete_pending_def)
  qed
qed simp

lemma put_pending_mset:
  assumes "chunk_id c \<notin> chunk_id ` set ps"
  shows "put_pending c ps = c # ps"
proof -
  have "filter (\<lambda>d. chunk_id d \<noteq> chunk_id c) ps = ps" using assms by (intro filter_True) (metis image_eqI)
  then show ?thesis by (simp add: put_pending_def)
qed

text \<open>What a step of the acknowledger does to a session: at most one chunk leaves it, reported.\<close>

definition acker_effect :: "client_worker \<Rightarrow> client_session \<Rightarrow> client_worker \<Rightarrow> client_session \<Rightarrow> log_chunk list \<Rightarrow> bool" where
  "acker_effect w s w' s' done_chunks =
     (session_ok w' s' \<and> w' = w\<lparr>consumedChunks := consumedChunks w @ done_chunks\<rparr> \<and>
      set done_chunks \<subseteq> set (sentChunks w) \<and> mainPc s' = mainPc s \<and>
      unsent_part (mainPc s') s' = unsent_part (mainPc s) s \<and>
      (distinct (map chunk_id (held s)) \<longrightarrow> mset (held s) = mset (held s') + mset done_chunks))"

lemma main_ok_acker:
  assumes "main_ok (mainPc s) w s" and "\<not> ackerEnded s"
    and "mainPc s' = mainPc s" "leftoverChan s' = leftoverChan s" "lastChunk s' = lastChunk s"
      "ackerChanClosed s' = ackerChanClosed s" "ackerAbort s' = ackerAbort s" "connAborted s \<longrightarrow> connAborted s'"
      "sentChunks w' = sentChunks w" "brokenStop w' = brokenStop w"
  shows "main_ok (mainPc s') w' s'"
  using assms by (cases "mainPc s") auto

lemma acker_end_effect:
  assumes "session_ok w s" and "ackerPc s \<noteq> AckerGone"
  shows "acker_effect w s w (acker_end (s\<lparr>connAborted := b \<or> connAborted s\<rparr>)) []"
proof -
  have n: "\<not> ackerEnded s" using assms by (cases "ackerPc s") (auto simp: session_ok_def)
  have "main_ok (mainPc s) w (acker_end (s\<lparr>connAborted := b \<or> connAborted s\<rparr>))"
    using main_ok_acker[of s w "acker_end (s\<lparr>connAborted := b \<or> connAborted s\<rparr>)" w] assms(1) n
    by (simp add: session_ok_def acker_end_def)
  then show ?thesis using assms(1)
    by (cases "mainPc s") (simp_all add: acker_effect_def session_ok_def acker_end_def held_def)
qed

lemma ack_chunk_effect:
  assumes "session_ok w s" and "ackerPc s = AckerWaitAck c0" and "c \<in> set (pendingChunks s)"
    and "ack_chunk c w s = (w', s')"
  shows "acker_effect w s w' s' [c]"
proof -
  have n: "\<not> ackerEnded s" using assms by (simp add: session_ok_def)
  have ws: "w' = w\<lparr>consumedChunks := consumedChunks w @ [c]\<rparr>"
    "s' = s\<lparr>pendingChunks := delete_pending (chunk_id c) (pendingChunks s), ackerPc := AckerWaitChunk\<rparr>"
    using assms(4) by (auto simp: ack_chunk_def)
  have m: "main_ok (mainPc s') w' s'"
    using main_ok_acker[of s w s' w'] assms(1) n by (simp add: session_ok_def ws)
  have d: "distinct (map chunk_id (pendingChunks s))" "set (pendingChunks s) \<subseteq> set (sentChunks w)"
    using assms(1) by (auto simp: session_ok_def)
  have "distinct (map chunk_id (delete_pending (chunk_id c) (pendingChunks s)))"
    using d(1) by (simp add: delete_pending_def distinct_map_filter)
  moreover have "set (delete_pending (chunk_id c) (pendingChunks s)) \<subseteq> set (sentChunks w)"
    using d(2) by (auto simp: delete_pending_def)
  ultimately have "session_ok w' s'"
    using assms(1,2) m n by (simp add: session_ok_def ws)
  moreover have "mset (held s) = mset (held s') + {#c#}"
    using delete_pending_mset[OF d(1) assms(3)] by (simp add: held_def ws)
  moreover have "unsent_part (mainPc s') s' = unsent_part (mainPc s) s"
    by (cases "mainPc s") (simp_all add: ws)
  ultimately show ?thesis using d(2) assms(3) by (auto simp: acker_effect_def ws)
qed

lemma read_ack_effect:
  assumes "read_ack reply c w s = Some (w', s')" and "session_ok w s" and "ackerPc s = AckerWaitAck c"
  shows "\<exists>done_chunks. acker_effect w s w' s' done_chunks"
proof (cases reply)
  case None
  then have "w' = w" "s' = acker_end (s\<lparr>connAborted := True\<rparr>)" using assms(1) by (auto simp: read_ack_def)
  then show ?thesis using acker_end_effect[OF assms(2), of True] assms(3) by auto
next
  case (Some k)
  have c: "c \<in> set (pendingChunks s)" using assms(2,3) by (simp add: session_ok_def)
  show ?thesis
  proof (cases "k = []")
    case True
    then have "ack_chunk c w s = (w', s')" using assms(1) Some by (simp add: read_ack_def)
    then show ?thesis using ack_chunk_effect[OF assms(2,3) c] by auto
  next
    case False
    show ?thesis
    proof (cases "find (\<lambda>d. chunk_id d = k) (pendingChunks s)")
      case None
      then have ws: "w' = w" "s' = s\<lparr>ackerPc := AckerWaitChunk\<rparr>"
        using assms(1) Some False by (auto simp: read_ack_def)
      have "main_ok (mainPc s') w s'"
        using main_ok_acker[of s w s' w] assms(2,3) by (simp add: session_ok_def ws)
      then have "acker_effect w s w' s' []"
        using assms(2,3) by (cases "mainPc s") (simp_all add: acker_effect_def session_ok_def held_def ws)
      then show ?thesis by blast
    next
      case (Some d)
      then have "d \<in> set (pendingChunks s)" by (auto simp: find_Some_iff)
      moreover have "ack_chunk d w s = (w', s')"
        using assms(1) \<open>reply = Some k\<close> Some False by (simp add: read_ack_def)
      ultimately show ?thesis using ack_chunk_effect[OF assms(2,3)] by blast
    qed
  qed
qed

lemma chunk_received_effect:
  assumes "acker_select ChunkReceived w s = Some (w', s')" and "session_ok w s" and "ackerPc s = AckerWaitChunk"
  shows "acker_effect w s w' s' []"
proof -
  obtain c cs where q: "ackerChan s = c # cs" and ws: "w' = w"
    "s' = s\<lparr>ackerChan := cs, pendingChunks := put_pending c (pendingChunks s), ackerPc := AckerWaitAck c\<rparr>"
    using assms(1) by (auto split: list.splits)
  have "main_ok (mainPc s') w s'"
    using main_ok_acker[of s w s' w] assms(2,3) by (simp add: session_ok_def ws)
  moreover have "distinct (map chunk_id (put_pending c (pendingChunks s)))"
    using assms(2) by (auto simp: session_ok_def put_pending_def distinct_map_filter)
  moreover have "set (put_pending c (pendingChunks s)) \<subseteq> set (sentChunks w)"
    using assms(2) q by (auto simp: session_ok_def put_pending_def)
  ultimately have "session_ok w' s'"
    using assms(2,3) q by (auto simp: session_ok_def ws put_pending_def)
  moreover have "mset (held s) = mset (held s')" if "distinct (map chunk_id (held s))"
  proof -
    have "chunk_id c \<notin> chunk_id ` set (pendingChunks s)" using that q by (auto simp: held_def)
    then show ?thesis using q by (simp add: held_def ws put_pending_mset)
  qed
  moreover have "unsent_part (mainPc s') s' = unsent_part (mainPc s) s"
    by (cases "mainPc s") (simp_all add: ws)
  ultimately show ?thesis by (simp add: acker_effect_def ws)
qed

lemma acker_step_effect:
  assumes "acker_step ev w s = Some (w', s')" and "session_ok w s"
  shows "\<exists>done_chunks. acker_effect w s w' s' done_chunks"
proof (cases "ackerPc s")
  case AckerWaitChunk
  have *: "s\<lparr>connAborted := False \<or> connAborted s\<rparr> = s" by simp
  show ?thesis
  proof (cases ev)
    case ChunkReceived
    then have "acker_select ChunkReceived w s = Some (w', s')"
      using assms(1) AckerWaitChunk by (simp add: acker_step_def)
    then show ?thesis using chunk_received_effect[OF _ assms(2) AckerWaitChunk] by blast
  qed (use assms AckerWaitChunk acker_end_effect[OF assms(2), of False] * in
        \<open>auto simp: acker_step_def split: if_splits\<close>)
next
  case (AckerWaitAck c)
  then show ?thesis using assms read_ack_effect
    by (auto simp: acker_step_def split: acker_event.splits)
next
  case AckerGone
  then show ?thesis using assms(1) by (simp add: acker_step_def)
qed

section \<open>Every step keeps the worker's account\<close>

fun worker_flight :: "worker_pc \<Rightarrow> log_chunk list" where
  "worker_flight (Connecting l) = l"
| "worker_flight (InSession s) = in_flight s"
| "worker_flight (RetryWait l) = l"
| "worker_flight (Saving l) = l"
| "worker_flight WorkerStopped = []"

fun pc_ok :: "worker_pc \<Rightarrow> client_worker \<Rightarrow> bool" where
  "pc_ok (InSession s) w = session_ok w s"
| "pc_ok _ w = True"

definition client_inv :: "client_worker \<Rightarrow> bool" where
  "client_inv w =
     (pc_ok (workerPc w) w \<and> set (consumedChunks w) \<subseteq> set (sentChunks w) \<and>
      finishedCalls w = (if workerPc w = WorkerStopped then 1 else 0) \<and>
      (\<not> brokenStop w \<and> ids_ok w \<longrightarrow> accounted w (worker_flight (workerPc w))))"

lemma client_inv_new: "client_inv (new_client_worker duration)"
  by (simp add: client_inv_def new_client_worker_def accounted_def)

text \<open>A step of the sending goroutine takes one chunk, or moves chunks.\<close>

lemma main_step_cases:
  assumes "main_step ev w s = Some (w', s')" and "session_ok w s"
  obtains (takes) c cs where "inputQueue w = c # cs" "ev = InputTaken" "mainPc s = AtLoop Normal"
      "w' = w\<lparr>inputQueue := cs, takenChunks := takenChunks w @ [c]\<rparr>" "session_ok w' s'"
      "mset (in_flight s') = mset (in_flight s) + {#c#}"
    | (moves) "session_ok w' s'" "same_account w w'"
      "\<not> brokenStop w' \<and> distinct (map chunk_id (in_flight s)) \<and> [] \<notin> chunk_id ` set (in_flight s) \<longrightarrow>
        mset (in_flight s') = mset (in_flight s)"
proof (cases "mainPc s")
  case (AtLoop st)
  show ?thesis
  proof (cases st)
    case Recovery
    then have "moves w s (w', s')"
      using assms AtLoop resend_moves[of ev w s "(w', s')"] by (simp add: main_step_def)
    then show ?thesis using moves by (simp add: moves_def)
  next
    case Normal
    then have p: "process_input ev w s = Some (w', s')" "mainPc s = AtLoop Normal"
      using assms AtLoop by (simp_all add: main_step_def)
    show ?thesis
    proof (cases "ev = InputTaken")
      case True
      then show ?thesis using process_input_takes[of w s w' s'] p assms(2) takes by auto
    next
      case False
      then have "moves w s (w', s')" using process_input_moves[OF p(1) assms(2) p(2)] by simp
      then show ?thesis using moves by (simp add: moves_def)
    qed
  qed
next
  case (Sending st c)
  then have "moves w s (w', s')"
    using assms send_result_moves by (auto simp: main_step_def split: main_event.splits)
  then show ?thesis using moves by (simp add: moves_def)
next
  case (QueueingForAck st c)
  then have "moves w s (w', s')"
    using assms queue_for_ack_moves by (simp add: main_step_def)
  then show ?thesis using moves by (simp add: moves_def)
next
  case Pinging
  then have "moves w s (w', s')"
    using assms send_ping_moves by (auto simp: main_step_def split: main_event.splits)
  then show ?thesis using moves by (simp add: moves_def)
next
  case (WaitSoftStop prev retry)
  then have "moves w s (w', s')"
    using assms wait_soft_stop_moves by (simp add: main_step_def)
  then show ?thesis using moves by (simp add: moves_def)
next
  case (WaitHardStop prev retry)
  then have "wait_hard_stop ev prev retry w s = Some (w', s')"
    using assms(1) by (simp add: main_step_def)
  from wait_hard_stop_accounts[OF this assms(2) WaitHardStop] show ?thesis using moves by simp
next
  case (SessionDone l retry)
  then show ?thesis using assms(1) by (simp add: main_step_def)
qed

lemma ids_ok_prefix: "takenChunks w' = takenChunks w @ cs \<Longrightarrow> ids_ok w' \<Longrightarrow> ids_ok w"
  by (auto simp: ids_ok_def)

lemma client_inv_main:
  assumes "main_step ev w s = Some (w', s')" and "client_inv w" and "workerPc w = InSession s"
  shows "client_inv (w'\<lparr>workerPc := InSession s'\<rparr>)"
proof -
  have s: "session_ok w s" and c: "set (consumedChunks w) \<subseteq> set (sentChunks w)" and f: "finishedCalls w = 0"
    and a: "\<not> brokenStop w \<and> ids_ok w \<longrightarrow> accounted w (in_flight s)"
    using assms(2,3) by (auto simp: client_inv_def)
  have ok: "session_ok (w'\<lparr>workerPc := InSession s'\<rparr>) s'" if "session_ok w' s'"
    using that by (rule session_ok_sent) simp_all
  show ?thesis
  proof (rule main_step_cases[OF assms(1) s])
    fix d ds
    assume t: "inputQueue w = d # ds" "w' = w\<lparr>inputQueue := ds, takenChunks := takenChunks w @ [d]\<rparr>"
      "session_ok w' s'" "mset (in_flight s') = mset (in_flight s) + {#d#}"
    have "ids_ok w'\<Longrightarrow> ids_ok w" using ids_ok_prefix[of w' w "[d]"] by (simp add: t)
    moreover have "ids_ok (w'\<lparr>workerPc := InSession s'\<rparr>) = ids_ok w'" by (simp add: ids_ok_def)
    ultimately show ?thesis using ok[OF t(3)] c f a t(2,4)
      by (auto simp: client_inv_def accounted_def)
  next
    assume m: "session_ok w' s'" "same_account w w'"
      "\<not> brokenStop w' \<and> distinct (map chunk_id (in_flight s)) \<and> [] \<notin> chunk_id ` set (in_flight s) \<longrightarrow>
        mset (in_flight s') = mset (in_flight s)"
    have "accounted w' (in_flight s')" if "\<not> brokenStop w'" "ids_ok w'"
    proof -
      have i: "ids_ok w" "\<not> brokenStop w" using that m(2) by (auto simp: same_account_def ids_ok_def)
      then have "accounted w (in_flight s)" using a by blast
      moreover from this have "mset (in_flight s') = mset (in_flight s)"
        using accounted_ids[OF _ i(1)] m(3) that(1) by blast
      ultimately show ?thesis using m(2) by (simp add: accounted_def same_account_def)
    qed
    then show ?thesis using ok[OF m(1)] c f m(2)
      by (auto simp: client_inv_def accounted_def same_account_def ids_ok_def)
  qed
qed

lemma client_inv_acker:
  assumes "acker_step ev w s = Some (w', s')" and "client_inv w" and "workerPc w = InSession s"
  shows "client_inv (w'\<lparr>workerPc := InSession s'\<rparr>)"
proof -
  have s: "session_ok w s" and c: "set (consumedChunks w) \<subseteq> set (sentChunks w)" and f: "finishedCalls w = 0"
    and a: "\<not> brokenStop w \<and> ids_ok w \<longrightarrow> accounted w (in_flight s)"
    using assms(2,3) by (auto simp: client_inv_def)
  obtain ds where e: "acker_effect w s w' s' ds" using acker_step_effect[OF assms(1) s] by blast
  then have w': "w' = w\<lparr>consumedChunks := consumedChunks w @ ds\<rparr>" and ok: "session_ok w' s'"
    and sub: "set ds \<subseteq> set (sentChunks w)" by (auto simp: acker_effect_def)
  have n: "\<not> ackerEnded s"
    using assms(1) s by (cases "ackerPc s") (auto simp: acker_step_def session_ok_def)
  have "accounted w' (in_flight s')" if b: "\<not> brokenStop w'" and i: "ids_ok w'"
  proof -
    have i': "ids_ok w" "\<not> brokenStop w" using b i by (auto simp: w' ids_ok_def)
    then have acc: "accounted w (in_flight s)" using a by blast
    have fl: "in_flight s = unsent_part (mainPc s) s @ held s"
      using in_flight_unsent[OF s i'(2) n] .
    moreover have "in_flight s' = unsent_part (mainPc s) s @ held s'"
      using e fl n s i'(2) by (cases "mainPc s") (auto simp: acker_effect_def in_flight_def session_ok_def)
    moreover have "mset (held s) = mset (held s') + mset ds"
      using e accounted_ids(1)[OF acc i'(1)] fl by (simp add: acker_effect_def)
    ultimately show ?thesis using acc by (simp add: accounted_def w')
  qed
  moreover have "session_ok (w'\<lparr>workerPc := InSession s'\<rparr>) s'"
    using ok by (rule session_ok_sent) simp_all
  ultimately show ?thesis using c f sub
    by (auto simp: client_inv_def accounted_def ids_ok_def w')
qed

lemma client_inv_worker:
  assumes "worker_step ev w = Some w'" and "client_inv w"
  shows "client_inv w'"
proof (cases "workerPc w")
  case (Connecting l)
  then show ?thesis using assms
    by (cases ev) (auto simp: worker_step_def client_inv_def accounted_def ids_ok_def next_attempt_def
        session_ok_new in_flight_new split: if_splits)
next
  case (InSession s)
  then obtain l retry where "mainPc s = SessionDone l retry" "w' = w\<lparr>workerPc := next_attempt l retry\<rparr>"
    using assms(1) by (auto simp: worker_step_def split: worker_event.splits main_pc.splits)
  then show ?thesis using assms(2) InSession
    by (cases retry) (auto simp: client_inv_def accounted_def ids_ok_def next_attempt_def in_flight_def)
next
  case (RetryWait l)
  then show ?thesis using assms
    by (cases ev) (auto simp: worker_step_def client_inv_def accounted_def ids_ok_def split: if_splits)
next
  case (Saving l)
  then show ?thesis using assms
    by (cases ev; cases l) (auto simp: worker_step_def client_inv_def accounted_def ids_ok_def)
qed (use assms in \<open>simp add: worker_step_def\<close>)

lemma client_inv_abort:
  assumes "abort_session w s = Some (w', s')" and "client_inv w" and "workerPc w = InSession s"
  shows "client_inv (w'\<lparr>workerPc := InSession s'\<rparr>)"
  using assms
  by (cases "mainPc s")
    (auto simp: abort_session_def client_inv_def accounted_def ids_ok_def session_ok_def in_flight_def held_def
      split: if_splits)

lemma pc_ok_same:
  "pc_ok pc w \<Longrightarrow> sentChunks w' = sentChunks w \<Longrightarrow> brokenStop w' = brokenStop w \<Longrightarrow> pc_ok pc w'"
  using session_ok_sent by (cases pc) auto

lemma client_inv_step:
  assumes "client_step ev w = Some w'" and "client_inv w"
  shows "client_inv w'"
proof (cases ev)
  case (Main e)
  then obtain s w1 s1 where "workerPc w = InSession s" "main_step e w s = Some (w1, s1)"
    "w' = w1\<lparr>workerPc := InSession s1\<rparr>"
    using assms(1) by (auto simp: in_session_def split: worker_pc.splits)
  then show ?thesis using client_inv_main assms(2) by blast
next
  case (Acker e)
  then obtain s w1 s1 where "workerPc w = InSession s" "acker_step e w s = Some (w1, s1)"
    "w' = w1\<lparr>workerPc := InSession s1\<rparr>"
    using assms(1) by (auto simp: in_session_def split: worker_pc.splits)
  then show ?thesis using client_inv_acker assms(2) by blast
next
  case (Worker e)
  then show ?thesis using assms client_inv_worker by simp
next
  case AbortOnStop
  then obtain s w1 s1 where "workerPc w = InSession s" "abort_session w s = Some (w1, s1)"
    "w' = w1\<lparr>workerPc := InSession s1\<rparr>"
    using assms(1) by (auto simp: in_session_def split: worker_pc.splits)
  then show ?thesis using client_inv_abort assms(2) by blast
qed (use assms pc_ok_same in \<open>auto simp: client_inv_def accounted_def ids_ok_def split: if_splits\<close>)

lemma client_reachable_inv: "client_reachable duration w \<Longrightarrow> client_inv w"
  by (induction rule: client_reachable.induct) (auto intro: client_inv_new client_inv_step)

lemma client_run_reachable:
  "client_run evs w = Some w' \<Longrightarrow> client_reachable duration w \<Longrightarrow> client_reachable duration w'"
proof (induction evs arbitrary: w)
  case (Cons ev evs)
  then obtain w1 where "client_step ev w = Some w1" "client_run evs w1 = Some w'"
    by (auto simp: bind_eq_Some_conv)
  then show ?case using Cons client_reachable.step by blast
qed simp

section \<open>Stopping\<close>

text \<open>
  Once the input channel is closed and the stop is signalled, every event of the client lowers a
  weight, so the client cannot run for ever; and until it has stopped some event is possible.
  A chunk weighs more the further it is from the leftovers that are saved at the end.
\<close>

definition acker_flags :: "client_session \<Rightarrow> nat" where
  "acker_flags s =
     (case ackerPc s of AckerWaitAck c \<Rightarrow> 2 | AckerWaitChunk \<Rightarrow> 1 | AckerGone \<Rightarrow> 0) +
     (if connAborted s then 0 else 1)"

definition acker_weight :: "nat \<Rightarrow> client_session \<Rightarrow> nat" where
  "acker_weight p s = (p + 2) * length (ackerChan s) + p * length (pendingChunks s) + acker_flags s"

definition last_weight :: "client_session \<Rightarrow> nat" where
  "last_weight s = (case lastChunk s of None \<Rightarrow> 0 | Some c \<Rightarrow> 1)"

fun stage_weight :: "stage \<Rightarrow> client_session \<Rightarrow> nat" where
  "stage_weight Recovery s = 6 + 8 * length (leftoverChan s) + acker_weight 2 s"
| "stage_weight Normal s = 13 + acker_weight 8 s"

fun stage_step :: "stage \<Rightarrow> nat" where
  "stage_step Recovery = 6"
| "stage_step Normal = 13"

fun policy_weight :: "reconnect_policy \<Rightarrow> nat \<Rightarrow> nat" where
  "policy_weight Reconnect n = 10 + 8 * n"
| "policy_weight _ n = 3 + n"

fun policy_factor :: "reconnect_policy \<Rightarrow> nat" where
  "policy_factor Reconnect = 8"
| "policy_factor _ = 2"

fun main_weight :: "main_pc \<Rightarrow> client_session \<Rightarrow> nat" where
  "main_weight (AtLoop st) s = stage_weight st s"
| "main_weight (Sending st c) s = stage_weight st s + stage_step st + 1"
| "main_weight (QueueingForAck st c) s = stage_weight st s + stage_step st"
| "main_weight Pinging s = stage_weight Normal s + 1"
| "main_weight (WaitSoftStop prev r) s =
     2 + policy_weight r (length prev + last_weight s) + acker_weight (policy_factor r) s"
| "main_weight (WaitHardStop prev r) s =
     1 + policy_weight r (length prev + last_weight s) + acker_weight (policy_factor r) s"
| "main_weight (SessionDone l r) s = policy_weight r (length l) + acker_weight 0 s"

fun worker_weight :: "worker_pc \<Rightarrow> nat" where
  "worker_weight (Connecting l) = 9 + 8 * length l"
| "worker_weight (InSession s) = main_weight (mainPc s) s"
| "worker_weight (RetryWait l) = 2 + length l"
| "worker_weight (Saving l) = 1 + length l"
| "worker_weight WorkerStopped = 0"

definition client_weight :: "client_worker \<Rightarrow> nat" where
  "client_weight w = 15 * length (inputQueue w) + worker_weight (workerPc w)"

definition stopping :: "client_worker \<Rightarrow> bool" where
  "stopping w = (inputClosed w \<and> inputChannelClosed w)"

lemma length_skip_duplicates: "length (skip_duplicates k cs) \<le> length cs"
  by (induction k cs rule: skip_duplicates.induct) auto

lemma length_new_leftover_channel: "length (new_leftover_channel cs) \<le> length cs"
  unfolding new_leftover_channel_def by (metis length_skip_duplicates length_sort)

lemmas weight_defs = acker_weight_def acker_flags_def last_weight_def

lemma collect_weight:
  assumes "ending = WaitPendingChunks \<longleftrightarrow> r = Reconnect" and "st = Normal \<longrightarrow> leftoverChan s = []"
    and "st = Recovery \<longrightarrow> r \<noteq> Reconnect" and "r = Reconnect \<longrightarrow> lastChunk s = None"
  shows "main_weight (mainPc (collect_leftovers st ending r s)) (collect_leftovers st ending r s) < stage_weight st s + (case lastChunk s of None \<Rightarrow> 0 | Some c \<Rightarrow> 1)"
  using assms
  by (cases st; cases ending; cases r; cases "lastChunk s"; cases "ackerPc s")
    (simp_all add: collect_defs weight_defs)

lemma gather_weight:
  assumes "session_ok w s" and "mainPc s = WaitHardStop prev r"
  shows "main_weight (mainPc (gather_leftovers prev r s)) (gather_leftovers prev r s) < main_weight (mainPc s) s"
proof -
  let ?l = "prev @ ackerChan s @ (case unacked s of None \<Rightarrow> [] | Some l \<Rightarrow> l) @
    (case lastChunk s of None \<Rightarrow> [] | Some c \<Rightarrow> [c])"
  have "length (case unacked s of None \<Rightarrow> [] | Some l \<Rightarrow> l) \<le> length (pendingChunks s)"
    using assms(1) by (cases "ackerPc s") (auto simp: session_ok_def)
  then have "length (new_leftover_channel ?l) \<le>
      length prev + length (ackerChan s) + length (pendingChunks s) + last_weight s"
    using length_new_leftover_channel[of ?l] by (simp add: last_weight_def split: option.splits)
  then show ?thesis using assms(2)
    by (cases r) (simp_all add: gather_leftovers_def Let_def acker_weight_def acker_flags_def)
qed

lemma main_step_weight:
  assumes "main_step ev w s = Some (w', s')" and ok: "session_ok w s" and "stopping w"
  shows "15 * length (inputQueue w') + main_weight (mainPc s') s' <
         15 * length (inputQueue w) + main_weight (mainPc s) s \<and> stopping w'"
proof (cases "mainPc s")
  case (AtLoop st)
  have l: "lastChunk s = None" "st = Normal \<longrightarrow> leftoverChan s = []"
    using ok AtLoop by (simp_all add: session_ok_def)
  show ?thesis
  proof (cases st)
    case Recovery
    show ?thesis
    proof (cases ev)
      case StopSeen
      then show ?thesis using assms AtLoop Recovery l collect_weight[of EndImmediately NoReconnect Recovery s]
        by (auto simp: main_step_def split: if_splits)
    next
      case LeftoverTaken
      then show ?thesis using assms AtLoop Recovery
        by (auto simp: main_step_def weight_defs split: list.splits)
    qed (use assms AtLoop Recovery in \<open>auto simp: main_step_def stopping_def split: if_splits\<close>)
  next
    case Normal
    show ?thesis
    proof (cases ev)
      case InputTaken
      then show ?thesis using assms AtLoop Normal
        by (auto simp: main_step_def stopping_def weight_defs split: list.splits)
    next
      case InputEnd
      then show ?thesis using assms AtLoop Normal l collect_weight[of EndImmediately NoReconnect Normal s]
        by (auto simp: main_step_def split: if_splits)
    next
      case MaxDurationReached
      then show ?thesis using assms AtLoop Normal l collect_weight[of WaitPendingChunks Reconnect Normal s]
        by (auto simp: main_step_def split: if_splits)
    next
      case SignalUsr1
      then show ?thesis using assms AtLoop Normal l collect_weight[of WaitPendingChunks Reconnect Normal s]
        by (auto simp: main_step_def split: if_splits)
    qed (use assms AtLoop Normal in \<open>auto simp: main_step_def stopping_def split: if_splits\<close>)
  qed
next
  case (Sending st c)
  let ?s = "s\<lparr>connAborted := True\<rparr>"
  have l: "lastChunk s = Some c" "st = Normal \<longrightarrow> leftoverChan s = []"
    using ok Sending by (simp_all add: session_ok_def)
  obtain b where ev: "ev = SendResult b" using assms(1) Sending by (cases ev) (auto simp: main_step_def)
  have "stage_weight st ?s \<le> stage_weight st s" by (cases st) (simp_all add: weight_defs)
  then show ?thesis
    using assms Sending l ev collect_weight[of EndImmediately ReconnectWithDelay st ?s]
    by (cases st) (auto simp: main_step_def send_result_def stopping_def weight_defs split: if_splits)
next
  case (QueueingForAck st c)
  have l: "lastChunk s = Some c" "st = Normal \<longrightarrow> leftoverChan s = []"
    using ok QueueingForAck by (simp_all add: session_ok_def)
  have p: "0 < stage_step st" by (cases st) simp_all
  show ?thesis
  proof (cases "ev = Queued")
    case True
    then show ?thesis using assms QueueingForAck
      by (cases st) (auto simp: main_step_def weight_defs split: if_splits)
  next
    case False
    then show ?thesis
      using assms QueueingForAck l p collect_weight[of EndImmediately NoReconnect st s]
        collect_weight[of EndImmediately ReconnectWithDelay st s]
      by (cases ev) (auto simp: main_step_def split: if_splits)
  qed
next
  case Pinging
  let ?s = "s\<lparr>connAborted := True\<rparr>"
  have l: "lastChunk s = None" "leftoverChan s = []" using ok Pinging by (simp_all add: session_ok_def)
  obtain b where ev: "ev = PingResult b" using assms(1) Pinging by (cases ev) (auto simp: main_step_def)
  have "stage_weight Normal ?s \<le> stage_weight Normal s" by (simp add: weight_defs)
  then show ?thesis
    using assms Pinging l ev collect_weight[of EndImmediately ReconnectWithDelay Normal ?s]
    by (auto simp: main_step_def send_ping_def stopping_def weight_defs split: if_splits)
next
  case (WaitSoftStop prev r)
  then show ?thesis using assms
    by (cases ev; cases r) (auto simp: main_step_def stop_acker_hard_def weight_defs split: if_splits)
next
  case (WaitHardStop prev r)
  then show ?thesis using assms gather_weight[OF ok WaitHardStop]
    by (cases ev) (auto simp: main_step_def stopping_def split: if_splits)
next
  case (SessionDone l r)
  then show ?thesis using assms(1) by (simp add: main_step_def)
qed

definition acker_lighter :: "client_session \<Rightarrow> client_session \<Rightarrow> bool" where
  "acker_lighter s' s =
     (mainPc s' = mainPc s \<and> leftoverChan s' = leftoverChan s \<and> lastChunk s' = lastChunk s \<and>
      (\<forall>p. acker_weight p s' < acker_weight p s))"

lemma lighter_main_weight:
  assumes "acker_lighter s' s"
  shows "main_weight (mainPc s') s' < main_weight (mainPc s) s"
proof -
  have stage: "stage_weight st s' < stage_weight st s" for st
    using assms by (cases st) (simp_all add: acker_lighter_def)
  have "main_weight pc s' < main_weight pc s" for pc
    using assms stage by (cases pc) (simp_all add: acker_lighter_def last_weight_def)
  then show ?thesis using assms by (simp add: acker_lighter_def)
qed

lemma length_put_pending: "length (put_pending c ps) \<le> Suc (length ps)"
  by (simp add: put_pending_def)

lemma length_delete_pending: "length (delete_pending k ps) \<le> length ps"
  by (simp add: delete_pending_def)

lemma acker_step_lighter:
  assumes "acker_step ev w s = Some (w', s')"
  shows "acker_lighter s' s \<and> inputQueue w' = inputQueue w \<and> inputClosed w' = inputClosed w \<and>
    inputChannelClosed w' = inputChannelClosed w"
proof (cases "ackerPc s")
  case AckerWaitChunk
  show ?thesis
  proof (cases ev)
    case ChunkReceived
    then obtain c cs where q: "ackerChan s = c # cs" and ws: "w' = w"
      "s' = s\<lparr>ackerChan := cs, pendingChunks := put_pending c (pendingChunks s), ackerPc := AckerWaitAck c\<rparr>"
      using assms AckerWaitChunk by (auto simp: acker_step_def split: list.splits)
    have "acker_weight p s' < acker_weight p s" for p
      using AckerWaitChunk q mult_le_mono2[OF length_put_pending[of c "pendingChunks s"], of p]
      by (simp add: ws weight_defs algebra_simps)
    then show ?thesis by (simp add: acker_lighter_def ws)
  qed (use assms AckerWaitChunk in
      \<open>auto simp: acker_step_def acker_end_def acker_lighter_def weight_defs split: if_splits\<close>)
next
  case (AckerWaitAck c)
  then obtain reply where r: "read_ack reply c w s = Some (w', s')"
    using assms by (auto simp: acker_step_def split: acker_event.splits)
  have ack: "acker_lighter s' s \<and> inputQueue w' = inputQueue w \<and> inputClosed w' = inputClosed w \<and>
    inputChannelClosed w' = inputChannelClosed w" if "ack_chunk d w s = (w', s')" for d
  proof -
    have "p * length (delete_pending (chunk_id d) (pendingChunks s)) \<le> p * length (pendingChunks s)" for p
      by (intro mult_le_mono2 length_delete_pending)
    then show ?thesis using that AckerWaitAck
      by (auto simp: ack_chunk_def acker_lighter_def weight_defs algebra_simps le_imp_less_Suc intro!: add_le_less_mono)
  qed
  show ?thesis
  proof (cases reply)
    case None
    then show ?thesis using r AckerWaitAck
      by (auto simp: read_ack_def acker_end_def acker_lighter_def weight_defs)
  next
    case (Some k)
    then show ?thesis using r AckerWaitAck ack
      by (auto simp: read_ack_def acker_lighter_def weight_defs split: if_splits option.splits)
  qed
next
  case AckerGone
  then show ?thesis using assms by (simp add: acker_step_def)
qed

lemma worker_step_weight:
  assumes "worker_step ev w = Some w'" and "stopping w"
  shows "client_weight w' < client_weight w \<and> stopping w'"
proof (cases "workerPc w")
  case (Connecting l)
  then show ?thesis using assms
    by (cases ev) (auto simp: worker_step_def client_weight_def stopping_def next_attempt_def
        new_client_session_def weight_defs split: if_splits)
next
  case (InSession s)
  then obtain l retry where "mainPc s = SessionDone l retry" "w' = w\<lparr>workerPc := next_attempt l retry\<rparr>"
    using assms(1) by (auto simp: worker_step_def split: worker_event.splits main_pc.splits)
  then show ?thesis using assms(2) InSession
    by (cases retry) (auto simp: client_weight_def stopping_def next_attempt_def)
next
  case (RetryWait l)
  then show ?thesis using assms
    by (cases ev) (auto simp: worker_step_def client_weight_def stopping_def split: if_splits)
next
  case (Saving l)
  then show ?thesis using assms
    by (cases ev; cases l) (auto simp: worker_step_def client_weight_def stopping_def)
qed (use assms in \<open>simp add: worker_step_def\<close>)

lemma client_step_weight:
  assumes "client_step ev w = Some w'" and "client_inv w" and "stopping w"
  shows "client_weight w' < client_weight w \<and> stopping w'"
proof (cases ev)
  case (Main e)
  then obtain s w1 s1 where i: "workerPc w = InSession s" "main_step e w s = Some (w1, s1)"
    "w' = w1\<lparr>workerPc := InSession s1\<rparr>"
    using assms(1) by (auto simp: in_session_def split: worker_pc.splits)
  moreover have "session_ok w s" using assms(2) i(1) by (simp add: client_inv_def)
  ultimately show ?thesis using main_step_weight[of e w s w1 s1] assms(3)
    by (simp add: client_weight_def stopping_def)
next
  case (Acker e)
  then obtain s w1 s1 where i: "workerPc w = InSession s" "acker_step e w s = Some (w1, s1)"
    "w' = w1\<lparr>workerPc := InSession s1\<rparr>"
    using assms(1) by (auto simp: in_session_def split: worker_pc.splits)
  then show ?thesis using acker_step_lighter[OF i(2)] lighter_main_weight[of s1 s] assms(3)
    by (simp add: client_weight_def stopping_def)
next
  case (Worker e)
  then show ?thesis using assms worker_step_weight by simp
next
  case AbortOnStop
  then obtain s w1 s1 where i: "workerPc w = InSession s" "abort_session w s = Some (w1, s1)"
    "w' = w1\<lparr>workerPc := InSession s1\<rparr>"
    using assms(1) by (auto simp: in_session_def split: worker_pc.splits)
  then have "acker_lighter s1 s \<and> w1 = w"
    by (auto simp: abort_session_def acker_lighter_def weight_defs split: if_splits)
  then show ?thesis using i lighter_main_weight[of s1 s] assms(3)
    by (simp add: client_weight_def stopping_def)
qed (use assms in \<open>auto simp: stopping_def\<close>)

lemma client_run_weight:
  "client_run evs w = Some w' \<Longrightarrow> client_inv w \<Longrightarrow> stopping w \<Longrightarrow>
    length evs + client_weight w' \<le> client_weight w \<and> client_inv w' \<and> stopping w'"
proof (induction evs arbitrary: w)
  case (Cons ev evs)
  then obtain w1 where s: "client_step ev w = Some w1" and r: "client_run evs w1 = Some w'"
    by (auto simp: bind_eq_Some_conv)
  show ?case
    using Cons.IH[OF r client_inv_step[OF s Cons.prems(2)]] client_step_weight[OF s Cons.prems(2,3)]
    by simp
qed simp

lemma main_progress:
  assumes "session_ok w s" and "stopping w"
  shows "(\<exists>ev. main_step ev w s \<noteq> None) \<or> (\<exists>l retry. mainPc s = SessionDone l retry)"
proof (cases "mainPc s")
  case (AtLoop st)
  then show ?thesis
  proof (cases st)
    case Recovery
    then have "main_step StopSeen w s \<noteq> None" using AtLoop assms(2) by (simp add: main_step_def stopping_def)
    then show ?thesis by blast
  next
    case Normal
    then have "main_step (if inputQueue w = [] then InputEnd else InputTaken) w s \<noteq> None"
      using AtLoop assms(2) by (cases "inputQueue w") (simp_all add: main_step_def stopping_def)
    then show ?thesis by blast
  qed
next
  case (Sending st c)
  then have "main_step (SendResult False) w s \<noteq> None" by (simp add: main_step_def send_result_def)
  then show ?thesis by blast
next
  case (QueueingForAck st c)
  then have "main_step StopSeen w s \<noteq> None" using assms(2) by (simp add: main_step_def stopping_def)
  then show ?thesis by blast
next
  case Pinging
  then have "main_step (PingResult False) w s \<noteq> None" by (simp add: main_step_def send_ping_def)
  then show ?thesis by blast
next
  case (WaitSoftStop prev r)
  then have "main_step SoftStopTimeout w s \<noteq> None" by (simp add: main_step_def)
  then show ?thesis by blast
next
  case (WaitHardStop prev r)
  then have "main_step (if ackerEnded s then HardStopped else HardStopTimeout) w s \<noteq> None"
    by (simp add: main_step_def)
  then show ?thesis by blast
qed blast

lemma client_progress:
  assumes "client_inv w" and "stopping w" and "workerPc w \<noteq> WorkerStopped"
  shows "\<exists>ev. client_step ev w \<noteq> None"
proof (cases "workerPc w")
  case (Connecting l)
  then have "client_step (Worker Connected) w \<noteq> None" by (simp add: worker_step_def)
  then show ?thesis by blast
next
  case (InSession s)
  then have "session_ok w s" using assms(1) by (simp add: client_inv_def)
  from main_progress[OF this assms(2)] show ?thesis
  proof
    assume "\<exists>ev. main_step ev w s \<noteq> None"
    then obtain ev where "main_step ev w s \<noteq> None" by blast
    then have "client_step (Main ev) w \<noteq> None" using InSession by (simp add: in_session_def)
    then show ?thesis by blast
  next
    assume "\<exists>l retry. mainPc s = SessionDone l retry"
    then have "client_step (Worker SessionEnd) w \<noteq> None" using InSession by (auto simp: worker_step_def)
    then show ?thesis by blast
  qed
next
  case (RetryWait l)
  then have "client_step (Worker RetryStop) w \<noteq> None" using assms(2) by (simp add: worker_step_def stopping_def)
  then show ?thesis by blast
next
  case (Saving l)
  then have "client_step (Worker (if l = [] then Finish else LeftoverSaved)) w \<noteq> None"
    by (cases l) (simp_all add: worker_step_def)
  then show ?thesis by blast
qed (use assms in simp)

section \<open>Properties\<close>

text \<open>
  C20: Every chunk accounted for. Whatever the network, the time-outs and the interleaving of the
  sender and the acknowledger, as long as the chunks received have different non-empty IDs and no
  acknowledger outlives its hard stop: when the worker has stopped, every chunk it received from
  its input has been passed to exactly one of OnChunkConsumed and OnChunkLeftover, once, and
  OnFinished has been called once.
\<close>

theorem client_contract:
  assumes "client_reachable duration w" and "workerPc w = WorkerStopped" and "\<not> brokenStop w"
    and "distinct (map chunk_id (takenChunks w))" and "[] \<notin> chunk_id ` set (takenChunks w)"
  shows "mset (takenChunks w) = mset (consumedChunks w) + mset (leftChunks w) \<and> finishedCalls w = 1"
proof -
  have "ids_ok w" using assms(4,5) by (simp add: ids_ok_def)
  then show ?thesis using client_reachable_inv[OF assms(1)] assms(2,3)
    by (simp add: client_inv_def accounted_def)
qed

definition sample_chunk :: "bytes \<Rightarrow> log_chunk" where
  "sample_chunk k = \<lparr>chunk_id = k, chunk_data = Some k, chunk_saved = False\<rparr>"

definition sample_events :: "client_event list" where
  "sample_events =
     [Feed (sample_chunk ''a''), Feed (sample_chunk ''b''), Worker Connected, Main NoLeftover,
      Main InputTaken, Main (SendResult True), Main Queued, Acker ChunkReceived,
      Main InputTaken, Main (SendResult True), StopRequest, CloseInput, Acker (AckRead (Some ''a'')),
      AbortOnStop, Main Queued, Acker ChunkReceived, Acker (AckRead None), Main InputEnd,
      Main HardStopped, Worker SessionEnd, Worker LeftoverSaved, Worker Finish]"

lemma sample_run:
  "\<exists>w. client_run sample_events (new_client_worker 0) = Some w \<and> workerPc w = WorkerStopped \<and> \<not> brokenStop w \<and>
     takenChunks w = [sample_chunk ''a'', sample_chunk ''b''] \<and> consumedChunks w = [sample_chunk ''a''] \<and>
     leftChunks w = [sample_chunk ''b'']"
  by (simp add: sample_events_def sample_chunk_def new_client_worker_def worker_step_def in_session_def
      new_client_session_def main_step_def acker_step_def send_result_def read_ack_def ack_chunk_def
      put_pending_def delete_pending_def abort_session_def collect_leftovers_def stop_acker_hard_def
      acker_end_def gather_leftovers_def new_leftover_channel_def next_attempt_def
      ForwarderMaxPendingChunksForAck_def)

theorem client_contract_witness:
  "\<exists>w. client_run sample_events (new_client_worker 0) = Some w \<and>
     mset (takenChunks w) = mset (consumedChunks w) + mset (leftChunks w) \<and> finishedCalls w = 1"
proof -
  obtain w where w: "client_run sample_events (new_client_worker 0) = Some w" "workerPc w = WorkerStopped"
    "\<not> brokenStop w" "takenChunks w = [sample_chunk ''a'', sample_chunk ''b'']"
    using sample_run by blast
  have "client_reachable 0 w" using client_run_reachable[OF w(1) client_reachable.start] .
  then show ?thesis using w client_contract[of 0 w] by (simp add: sample_chunk_def)
qed

text \<open>
  C24: The client stops. Once the stop is signalled and the input channel is closed, there is a
  bound on the number of further events, whatever the network does, and as long as the worker has
  not stopped another event is possible: no deadlock and no endless loop of reconnections.
\<close>

theorem client_stops:
  assumes "client_reachable duration w" and "inputClosed w" and "inputChannelClosed w"
  shows "\<exists>n. \<forall>evs w'. client_run evs w = Some w' \<longrightarrow>
    length evs \<le> n \<and> (workerPc w' = WorkerStopped \<or> (\<exists>ev. client_step ev w' \<noteq> None))"
proof (intro exI[where x = "client_weight w"] allI impI)
  fix evs w'
  assume run: "client_run evs w = Some w'"
  have "client_inv w" "stopping w"
    using client_reachable_inv[OF assms(1)] assms(2,3) by (simp_all add: stopping_def)
  from client_run_weight[OF run this] show
    "length evs \<le> client_weight w \<and> (workerPc w' = WorkerStopped \<or> (\<exists>ev. client_step ev w' \<noteq> None))"
    using client_progress[of w'] by auto
qed

theorem client_stops_witness:
  "\<exists>w n. client_run [Feed (sample_chunk ''a''), StopRequest, CloseInput] (new_client_worker 5) = Some w \<and>
     (\<forall>evs w'. client_run evs w = Some w' \<longrightarrow>
       length evs \<le> n \<and> (workerPc w' = WorkerStopped \<or> (\<exists>ev. client_step ev w' \<noteq> None)))"
proof -
  obtain w where w: "client_run [Feed (sample_chunk ''a''), StopRequest, CloseInput] (new_client_worker 5) = Some w"
    "inputClosed w" "inputChannelClosed w" by (simp add: new_client_worker_def)
  have "client_reachable 5 w" using client_run_reachable[OF w(1) client_reachable.start] .
  then show ?thesis using w client_stops[of 5 w] by blast
qed

text \<open>
  C33: The positions of the two goroutines fix the shape of the session: in every reachable state
  the chunk in hand is exactly the one being sent, at most ten chunks wait for the acknowledger,
  the acknowledger has ended exactly when it has published what it had pending, the pending chunks
  have different IDs, and only chunks that were sent wait for or got an acknowledgement.
\<close>

theorem session_well_formed:
  assumes "client_reachable duration w" and "workerPc w = InSession s"
  shows "session_ok w s \<and> set (consumedChunks w) \<subseteq> set (sentChunks w)"
  using client_reachable_inv[OF assms(1)] assms(2) by (simp add: client_inv_def)

theorem session_well_formed_witness:
  "\<exists>w s. client_run (take 9 sample_events) (new_client_worker 0) = Some w \<and> workerPc w = InSession s \<and>
     session_ok w s \<and> set (consumedChunks w) \<subseteq> set (sentChunks w)"
proof -
  obtain w s where w: "client_run (take 9 sample_events) (new_client_worker 0) = Some w" "workerPc w = InSession s"
    by (simp add: sample_events_def sample_chunk_def new_client_worker_def worker_step_def in_session_def
      new_client_session_def main_step_def acker_step_def send_result_def put_pending_def
      ForwarderMaxPendingChunksForAck_def)
  have "client_reachable 0 w" using client_run_reachable[OF w(1) client_reachable.start] .
  then show ?thesis using w session_well_formed[of 0 w s] by blast
qed

text \<open>
  The leftovers of a session are strictly sorted by ID, so without duplicates, and hold the
  IDs of all chunks given except the empty one, which is dropped.
\<close>

theorem new_leftover_channel_correct:
  "sorted_wrt (<) (map chunk_id (new_leftover_channel chunks)) \<and>
   chunk_id ` set (new_leftover_channel chunks) = chunk_id ` set chunks - {[]}"
proof -
  have "sorted (map chunk_id (sort_key chunk_id chunks))" by simp
  moreover have "\<forall>c \<in> set (sort_key chunk_id chunks). [] \<le> chunk_id c" by simp
  ultimately show ?thesis
    using skip_duplicates_sorted[of "sort_key chunk_id chunks" "[]"] by (simp add: new_leftover_channel_def)
qed

end
