(* ===== verification/Chunk_Ids.thy ===== *)
theory Chunk_Ids
  imports Chunk_Store "HOL-Library.Char_ord" "HOL-Library.List_Lexorder"
begin

text \<open>
  Names of chunks: \<open>output/shared/chunkidgen.go\<close>. An ID is the time in nanoseconds, a sequence
  number and the suffix of the output, printed by \<open>fmt.Sprintf\<close> with fixed widths. Chunks left on
  disk are recovered in the order of their names, so the names have to grow. The mutex makes each
  call atomic; the clock is an argument of the call.
\<close>

section \<open>Printing decimals of a fixed width\<close>

definition digit :: "nat \<Rightarrow> char" where
  "digit n = char_of (48 + n mod 10)"

text \<open>The last \<open>w\<close> decimal digits of a number.\<close>

fun dec_digits :: "nat \<Rightarrow> nat \<Rightarrow> bytes" where
  "dec_digits 0 n = []"
| "dec_digits (Suc w) n = dec_digits w (n div 10) @ [digit n]"

fun num_digits :: "nat \<Rightarrow> nat" where
  "num_digits n = (if n < 10 then 1 else Suc (num_digits (n div 10)))"

declare num_digits.simps [simp del]

text \<open>The verb \<open>%0wd\<close>: the sign counts for the width.\<close>

definition fmt_padded :: "nat \<Rightarrow> int \<Rightarrow> bytes" where
  "fmt_padded w i =
     (if i < 0 then CHR ''-'' # dec_digits (max (w - 1) (num_digits (nat (- i)))) (nat (- i))
      else dec_digits (max w (num_digits (nat i))) (nat i))"

section \<open>The generator\<close>

definition wrap32 :: "int \<Rightarrow> int" where
  "wrap32 i = (i + 2 ^ 31) mod 2 ^ 32 - 2 ^ 31"

record chunk_id_generator =
  epochNano :: int
  sequence :: int
  idSuffix :: bytes

definition new_chunk_id_generator :: "bytes \<Rightarrow> chunk_id_generator" where
  "new_chunk_id_generator suf = \<lparr>epochNano = 0, sequence = 0, idSuffix = suf\<rparr>"

definition generate :: "gotime \<Rightarrow> chunk_id_generator \<Rightarrow> bytes \<times> chunk_id_generator" where
  "generate now g =
     (let g = (if epochNano g < now then g\<lparr>epochNano := now, sequence := 0\<rparr>
               else g\<lparr>sequence := wrap32 (sequence g + 1)\<rparr>) in
      (fmt_padded 19 now @ ''-'' @ fmt_padded 8 (sequence g) @ idSuffix g, g))"

text \<open>The IDs of successive calls.\<close>

fun generate_all :: "gotime list \<Rightarrow> chunk_id_generator \<Rightarrow> bytes list" where
  "generate_all [] g = []"
| "generate_all (now # clock) g = (let (k, g) = generate now g in k # generate_all clock g)"

section \<open>Order of fixed-width decimals\<close>

lemma length_dec_digits [simp]: "length (dec_digits w n) = w"
  by (induction w arbitrary: n) simp_all

lemma append_less_append:
  fixes a b c d :: bytes
  shows "length a = length b \<Longrightarrow> a < b \<Longrightarrow> a @ c < b @ d"
proof (induction a arbitrary: b)
  case (Cons x a)
  then show ?case by (cases b) auto
qed simp

lemma append_less_same:
  fixes a c d :: bytes
  shows "c < d \<Longrightarrow> a @ c < a @ d"
  by (induction a) auto

lemma digit_less: "m mod 10 < n mod 10 \<Longrightarrow> digit m < digit n"
proof -
  assume l: "m mod 10 < n mod 10"
  have "48 + k mod 10 < 256" for k :: nat using mod_less_divisor[of 10 k] by linarith
  then have "of_char (digit k) = 48 + k mod 10" for k :: nat
    unfolding digit_def by (subst of_char_of) simp
  then show ?thesis using l unfolding less_char_def by simp
qed

lemma dec_digits_less: "m < n \<Longrightarrow> n < 10 ^ w \<Longrightarrow> dec_digits w m < dec_digits w n"
proof (induction w arbitrary: m n)
  case (Suc w)
  have up: "n div 10 < 10 ^ w" using Suc(3) by (simp add: less_mult_imp_div_less mult.commute)
  show ?case
  proof (cases "m div 10 = n div 10")
    case True
    have "m mod 10 < n mod 10" using Suc(2) True by (metis add_less_cancel_left mult_div_mod_eq)
    then show ?thesis by (simp add: True append_less_same digit_less)
  next
    case False
    then have "m div 10 < n div 10" using div_le_mono[of m n 10] Suc(2) by linarith
    from Suc(1)[OF this up] show ?thesis by (simp add: append_less_append)
  qed
qed simp

lemma num_digits_le: "0 < w \<Longrightarrow> n < 10 ^ w \<Longrightarrow> num_digits n \<le> w"
proof (induction n arbitrary: w rule: num_digits.induct)
  case (1 n)
  show ?case
  proof (cases "n < 10")
    case True
    then show ?thesis using 1(2) by (simp add: num_digits.simps)
  next
    case False
    obtain v where w: "w = Suc v" using 1(2) by (cases w) auto
    have "v \<noteq> 0" using 1(3) False w by (cases v) auto
    moreover have "n div 10 < 10 ^ v" using 1(3) w by (simp add: less_mult_imp_div_less mult.commute)
    ultimately show ?thesis using 1(1)[OF False, of v] False w by (subst num_digits.simps) simp
  qed
qed

lemma fmt_padded_nat: "0 < w \<Longrightarrow> n < 10 ^ w \<Longrightarrow> fmt_padded w (int n) = dec_digits w n"
  using num_digits_le[of w n] by (simp add: fmt_padded_def max_absorb1)

section \<open>IDs grow while the clock does not go back\<close>

definition current_id :: "chunk_id_generator \<Rightarrow> bytes" where
  "current_id g = dec_digits 19 (nat (epochNano g)) @ ''-'' @ dec_digits 8 (nat (sequence g)) @ idSuffix g"

definition generator_ok :: "nat \<Rightarrow> chunk_id_generator \<Rightarrow> bool" where
  "generator_ok left g \<longleftrightarrow> 0 \<le> epochNano g \<and> epochNano g < 10 ^ 19 \<and> 0 \<le> sequence g \<and>
     sequence g + int left < 10 ^ 8"

lemma wrap32_small: "0 \<le> i \<Longrightarrow> i < 2 ^ 31 \<Longrightarrow> wrap32 i = i"
  by (simp add: wrap32_def)

lemma generate_grows:
  assumes "generator_ok (Suc n) g" and "epochNano g \<le> now" and "now < 10 ^ 19"
  shows "generate now g = (k, g') \<Longrightarrow> k = current_id g' \<and> current_id g < k \<and> generator_ok n g' \<and>
    epochNano g' = now \<and> idSuffix g' = idSuffix g"
proof -
  assume e: "generate now g = (k, g')"
  have s: "0 \<le> sequence g" "sequence g + 1 + int n < 10 ^ 8" "0 \<le> epochNano g"
    using assms(1) by (simp_all add: generator_ok_def)
  have w: "wrap32 (sequence g + 1) = sequence g + 1" using s by (intro wrap32_small) auto
  have p19: "fmt_padded 19 now = dec_digits 19 (nat now)"
    using fmt_padded_nat[of 19 "nat now"] assms s by simp
  show ?thesis
  proof (cases "epochNano g < now")
    case True
    have g': "g' = g\<lparr>epochNano := now, sequence := 0\<rparr>" and
      k: "k = fmt_padded 19 now @ ''-'' @ fmt_padded 8 0 @ idSuffix g"
      using e True by (auto simp: generate_def Let_def)
    have p8: "fmt_padded 8 0 = dec_digits 8 0" using fmt_padded_nat[of 8 0] by simp
    have "dec_digits 19 (nat (epochNano g)) < dec_digits 19 (nat now)"
      using True s assms(3) by (intro dec_digits_less) auto
    then have "current_id g < k" unfolding current_id_def k p19 by (intro append_less_append) simp_all
    then show ?thesis using s assms True by (simp add: g' k p19 p8 current_id_def generator_ok_def)
  next
    case False
    then have now: "now = epochNano g" using assms(2) by simp
    have g': "g' = g\<lparr>sequence := sequence g + 1\<rparr>" and
      k: "k = fmt_padded 19 now @ ''-'' @ fmt_padded 8 (sequence g + 1) @ idSuffix g"
      using e False w by (auto simp: generate_def Let_def)
    have p8: "fmt_padded 8 (sequence g + 1) = dec_digits 8 (nat (sequence g + 1))"
      using fmt_padded_nat[of 8 "nat (sequence g + 1)"] s by simp
    have "dec_digits 8 (nat (sequence g)) < dec_digits 8 (nat (sequence g + 1))"
      using s by (intro dec_digits_less) auto
    then have "current_id g < k" unfolding current_id_def k p19[unfolded now] p8 now
      by (intro append_less_same append_less_append) simp_all
    then show ?thesis using s assms now p19[unfolded now] by (simp add: g' k p8 current_id_def generator_ok_def)
  qed
qed

lemma generate_all_grows:
  "generator_ok (length clock) g \<Longrightarrow> sorted (epochNano g # clock) \<Longrightarrow> list_all (\<lambda>t. t < 10 ^ 19) clock \<Longrightarrow>
    sorted_wrt (<) (current_id g # generate_all clock g)"
proof (induction clock arbitrary: g)
  case (Cons now clock)
  obtain k g' where e: "generate now g = (k, g')" by (metis surj_pair)
  have f: "k = current_id g' \<and> current_id g < k \<and> generator_ok (length clock) g' \<and> epochNano g' = now \<and>
      idSuffix g' = idSuffix g"
    using Cons(2-4) by (intro generate_grows[OF _ _ _ e]) simp_all
  have "sorted_wrt (<) (current_id g' # generate_all clock g')" using Cons f by simp
  then show ?case using f by (auto simp: e)
qed simp

text \<open>Every ID ends with the suffix, and none is the name of the ID file.\<close>

lemma generated_names:
  "k \<in> set (generate_all clock g) \<Longrightarrow> has_suffix k (idSuffix g) \<and> k \<noteq> idFileName"
proof (induction clock arbitrary: g)
  case (Cons now clock)
  obtain k' g' where e: "generate now g = (k', g')" by (metis surj_pair)
  have g': "idSuffix g' = idSuffix g" using e by (auto simp: generate_def Let_def split: if_splits)
  have k': "k' = fmt_padded 19 now @ ''-'' @ fmt_padded 8 (sequence g') @ idSuffix g"
    using e by (auto simp: generate_def Let_def split: if_splits)
  have "18 \<le> length (fmt_padded 19 now)" by (simp add: fmt_padded_def le_max_iff_disj)
  then have "18 \<le> length k'" unfolding k' by simp
  then have "k' \<noteq> idFileName" by (auto simp: idFileName_def)
  moreover have "has_suffix k' (idSuffix g)" unfolding k' has_suffix_def by simp
  ultimately show ?case using Cons(1)[of g'] Cons(2) g' by (auto simp: e)
qed simp

text \<open>The clock going back to a time that has been used repeats an ID.\<close>

lemma clock_back_repeats:
  "\<not> distinct (generate_all [50, 50, 100, 50] (new_chunk_id_generator ''.ff''))"
  by (simp add: generate_def new_chunk_id_generator_def Let_def wrap32_def)

section \<open>Property\<close>

text \<open>
  C15: While the clock does not go back, the IDs of the chunks made by one output grow in the order
  of file names, so no ID is used twice, and scanning a directory that holds chunks with these names
  returns them in the order they were made. (At most 10^8 - 1 IDs are considered.)
\<close>

theorem chunk_ids_increase:
  assumes "sorted clock" and "list_all (\<lambda>t. 0 \<le> t \<and> t < 2 ^ 63) clock" and "length clock < 10 ^ 8"
    and "ids = generate_all clock (new_chunk_id_generator suf)"
  shows "sorted_wrt (<) ids \<and> distinct ids \<and>
    (\<forall>dir op. maybeDir op = Some dir \<longrightarrow> mset (map fst dir) = mset ids \<longrightarrow>
       matchChunkID op = (\<lambda>k. has_suffix k suf) \<longrightarrow>
       map chunk_id (fst (scan_existing_chunks True True op)) = ids)"
proof -
  have "sorted_wrt (<) (current_id (new_chunk_id_generator suf) # ids)"
    unfolding assms(4) using assms(1-3)
    by (intro generate_all_grows) (auto simp: new_chunk_id_generator_def generator_ok_def list_all_iff)
  then have s: "sorted_wrt (<) ids" by simp
  have n: "has_suffix k suf \<and> k \<noteq> idFileName" if "k \<in> set ids" for k
    using generated_names[of k clock "new_chunk_id_generator suf"] that assms(4)
    by (simp add: new_chunk_id_generator_def)
  have "map chunk_id (fst (scan_existing_chunks True True op)) = ids"
    if d: "maybeDir op = Some dir" and m: "mset (map fst dir) = mset ids"
      and p: "matchChunkID op = (\<lambda>k. has_suffix k suf)" for dir op
  proof -
    have "sort (map fst dir) = ids"
      using properties_for_sort[OF m[symmetric]] s strict_sorted_imp_sorted by blast
    then show ?thesis using n by (simp add: scan_existing_chunks_def d p comp_def filter_id_conv)
  qed
  then show ?thesis using s strict_sorted_iff by blast
qed

theorem chunk_ids_increase_witness:
  "generate_all [50, 50, 100] (new_chunk_id_generator ''.ff'') =
     [''0000000000000000050-00000000.ff'', ''0000000000000000050-00000001.ff'',
      ''0000000000000000100-00000000.ff''] \<and>
   distinct (generate_all [50, 50, 100] (new_chunk_id_generator ''.ff''))"
proof
  show "generate_all [50, 50, 100] (new_chunk_id_generator ''.ff'') =
     [''0000000000000000050-00000000.ff'', ''0000000000000000050-00000001.ff'',
      ''0000000000000000100-00000000.ff'']" by code_simp
  show "distinct (generate_all [50, 50, 100] (new_chunk_id_generator ''.ff''))"
    using chunk_ids_increase[of "[50, 50, 100]", OF _ _ _ refl] by simp
qed

end
