(* ===== verification/Chunk_Maker.thy ===== *)
theory Chunk_Maker
  imports Chunk_Ids
begin

text \<open>
  Packing serialized records into chunks: \<open>output/shared/messagepacker.go\<close> and
  \<open>chunkfactory.go\<close>, with the chunk formats of \<open>output/fluentdforward/chunk.go\<close>,
  \<open>chunkencoder.go\<close> and \<open>output/datadog/chunk.go\<close>. The interface \<open>Chunker\<close> is a table of
  functions, the type \<open>'c chunker\<close>. The chunks of a factory write to one shared
  \<open>bytes.Buffer\<close>, which is passed to every operation and returned; such a buffer never fails.
  The gzip and MessagePack libraries are parameters (\<open>'z gzip\<close>, \<open>mp_lib\<close>). The locale
  \<open>chunk_format\<close> is the contract of a format, from which the packer's promise follows: every
  stream written ends up once, in order, in one chunk, and chunks respect the limits.
\<close>

section \<open>Interfaces\<close>

record 'c chunker =
  newChunkFunc :: "bytes \<Rightarrow> bytes \<Rightarrow> ('c \<times> bytes) go"
  canAppendData :: "'c \<Rightarrow> nat \<Rightarrow> bool"
  writeData :: "bytes \<Rightarrow> 'c \<Rightarrow> bytes \<Rightarrow> 'c \<times> bytes \<times> bool"
  finalizeChunk :: "'c \<Rightarrow> bytes \<Rightarrow> log_chunk option \<times> 'c \<times> bytes"

text \<open>
  A compressor: opening may fail; writing and closing give the new state, the bytes written to the
  underlying buffer and whether there is no error.
\<close>

record 'z gzip =
  gzOpen :: "'z option"
  gzWrite :: "'z \<Rightarrow> bytes \<Rightarrow> 'z \<times> bytes \<times> bool"
  gzClose :: "'z \<Rightarrow> 'z \<times> bytes \<times> bool"

text \<open>The encoder of the MessagePack library; \<^term>\<open>None\<close> is an error.\<close>

record mp_lib =
  mpArrayLen :: "nat \<Rightarrow> bytes option"
  mpString :: "bytes \<Rightarrow> bytes option"
  mpBytes :: "bytes \<Rightarrow> bytes option"
  mpOption :: "nat \<Rightarrow> bytes \<Rightarrow> bytes \<Rightarrow> bytes option"

section \<open>The message packer\<close>

record 'c message_packer =
  currentChunk :: "'c option"
  chunkBuffer :: bytes
  idGenerator :: chunk_id_generator

definition new_message_packer :: "bytes \<Rightarrow> 'c message_packer" where
  "new_message_packer suf =
     \<lparr>currentChunk = None, chunkBuffer = [], idGenerator = new_chunk_id_generator suf\<rparr>"

definition new_chunk :: "'c chunker \<Rightarrow> gotime \<Rightarrow> 'c message_packer \<Rightarrow> ('c \<times> 'c message_packer) go" where
  "new_chunk vt now p =
     (let (k, g) = generate now (idGenerator p) in
      go_bind (newChunkFunc vt k (chunkBuffer p)) (\<lambda>(c, buf).
        Inr (c, p\<lparr>chunkBuffer := buf, idGenerator := g\<rparr>)))"

definition flush_buffer :: "'c chunker \<Rightarrow> 'c message_packer \<Rightarrow> log_chunk option \<times> 'c message_packer" where
  "flush_buffer vt p =
     (case currentChunk p of
        None \<Rightarrow> (None, p)
      | Some c \<Rightarrow>
          (case finalizeChunk vt c (chunkBuffer p) of
             (None, c, buf) \<Rightarrow> (None, p\<lparr>currentChunk := Some c, chunkBuffer := buf\<rparr>)
           | (Some r, c, buf) \<Rightarrow> (Some r, p\<lparr>currentChunk := None, chunkBuffer := buf\<rparr>)))"

text \<open>An error of the chunk's \<open>Write\<close> is only logged.\<close>

definition write_stream ::
  "'c chunker \<Rightarrow> gotime \<Rightarrow> bytes \<Rightarrow> 'c message_packer \<Rightarrow> (log_chunk option \<times> 'c message_packer) go" where
  "write_stream vt now stream p =
     (let (previous, p) = (case currentChunk p of
            None \<Rightarrow> (None, p)
          | Some c \<Rightarrow> if canAppendData vt c (length stream) then (None, p) else flush_buffer vt p) in
      go_bind (case currentChunk p of Some c \<Rightarrow> Inr (c, p) | None \<Rightarrow> new_chunk vt now p) (\<lambda>(c, p).
        let (c, buf, ok) = writeData vt stream c (chunkBuffer p) in
        Inr (previous, p\<lparr>currentChunk := Some c, chunkBuffer := buf\<rparr>)))"

datatype maker_call = WriteStream gotime bytes | FlushBuffer

definition maker_call_step ::
  "'c chunker \<Rightarrow> maker_call \<Rightarrow> 'c message_packer \<Rightarrow> (log_chunk option \<times> 'c message_packer) go" where
  "maker_call_step vt e p =
     (case e of WriteStream now s \<Rightarrow> write_stream vt now s p | FlushBuffer \<Rightarrow> Inr (flush_buffer vt p))"

fun maker_run ::
  "'c chunker \<Rightarrow> maker_call list \<Rightarrow> 'c message_packer \<Rightarrow> (log_chunk list \<times> 'c message_packer) go" where
  "maker_run vt [] p = Inr ([], p)"
| "maker_run vt (e # es) p =
     go_bind (maker_call_step vt e p) (\<lambda>(out, p).
     go_bind (maker_run vt es p) (\<lambda>(outs, p). Inr ((case out of None \<Rightarrow> outs | Some r \<Rightarrow> r # outs), p)))"

section \<open>Fluentd chunks\<close>

record chunk_encoder =
  encTag :: bytes
  encAsArray :: bool

text \<open>The encoder's own buffer is empty between calls: it is reset at the end of each.\<close>

definition encode_chunk ::
  "mp_lib \<Rightarrow> chunk_encoder \<Rightarrow> bytes \<Rightarrow> bytes \<Rightarrow> nat \<Rightarrow> bool \<Rightarrow> bytes option" where
  "encode_chunk mp enc data k numRecords isCompressed =
     Option.bind (mpArrayLen mp 3) (\<lambda>root.
     Option.bind (mpString mp (encTag enc)) (\<lambda>tag.
     Option.bind (if encAsArray enc
                  then Option.bind (mpArrayLen mp numRecords) (\<lambda>n. Some (n @ data))
                  else mpBytes mp data) (\<lambda>events.
     Option.bind (mpOption mp numRecords k (if isCompressed then ''gzip'' else [])) (\<lambda>opt.
       Some (root @ tag @ events @ opt)))))"

record 'z ff_chunk =
  ffId :: bytes
  ffRecords :: nat
  ffBytes :: nat
  ffMaxRecords :: nat
  ffMaxBytes :: nat
  ffCompressor :: "'z option"
  ffEncoder :: "chunk_encoder option"

definition ff_new ::
  "'z gzip \<Rightarrow> bool \<Rightarrow> chunk_encoder option \<Rightarrow> nat \<Rightarrow> nat \<Rightarrow> bytes \<Rightarrow> bytes \<Rightarrow> ('z ff_chunk \<times> bytes) go" where
  "ff_new gz compress enc maxRecords maxBytes k buf =
     Inr (\<lparr>ffId = k, ffRecords = 0, ffBytes = 0, ffMaxRecords = maxRecords, ffMaxBytes = maxBytes,
           ffCompressor = (if compress then gzOpen gz else None), ffEncoder = enc\<rparr>, buf)"

definition ff_write :: "'z gzip \<Rightarrow> bytes \<Rightarrow> 'z ff_chunk \<Rightarrow> bytes \<Rightarrow> 'z ff_chunk \<times> bytes \<times> bool" where
  "ff_write gz data c buf =
     (let (z, out, ok) = (case ffCompressor c of
            Some z \<Rightarrow> (case gzWrite gz z data of (z, out, ok) \<Rightarrow> (Some z, out, ok))
          | None \<Rightarrow> (None, data, True));
          c = c\<lparr>ffCompressor := z\<rparr> in
      (if ok then c\<lparr>ffRecords := ffRecords c + 1, ffBytes := ffBytes c + length data\<rparr> else c,
       buf @ out, ok))"

text \<open>Failing to close the compressor leaves the buffer; any other result resets it.\<close>

definition ff_finalize ::
  "'z gzip \<Rightarrow> mp_lib \<Rightarrow> 'z ff_chunk \<Rightarrow> bytes \<Rightarrow> log_chunk option \<times> 'z ff_chunk \<times> bytes" where
  "ff_finalize gz mp c buf =
     (let (z, out, ok) = (case ffCompressor c of
            Some z \<Rightarrow> (case gzClose gz z of (z, out, ok) \<Rightarrow> (Some z, out, ok))
          | None \<Rightarrow> (None, [], True));
          c = c\<lparr>ffCompressor := z\<rparr>;
          buf = buf @ out in
      if \<not> ok then (None, c, buf)
      else (map_option (\<lambda>data. \<lparr>chunk_id = ffId c, chunk_data = Some data, chunk_saved = False\<rparr>)
              (case ffEncoder c of
                 Some enc \<Rightarrow> encode_chunk mp enc buf (ffId c) (ffRecords c) (ffCompressor c \<noteq> None)
               | None \<Rightarrow> Some buf),
            c, []))"

definition ff_can_append :: "'z ff_chunk \<Rightarrow> nat \<Rightarrow> bool" where
  "ff_can_append c n =
     (\<not> (0 < ffMaxRecords c \<and> ffMaxRecords c \<le> ffRecords c) \<and>
      \<not> (0 < ffMaxBytes c \<and> ffMaxBytes c < ffBytes c + n))"

definition ff_chunker ::
  "'z gzip \<Rightarrow> mp_lib \<Rightarrow> bool \<Rightarrow> chunk_encoder option \<Rightarrow> nat \<Rightarrow> nat \<Rightarrow> 'z ff_chunk chunker" where
  "ff_chunker gz mp compress enc maxRecords maxBytes =
     \<lparr>newChunkFunc = ff_new gz compress enc maxRecords maxBytes, canAppendData = ff_can_append,
      writeData = ff_write gz, finalizeChunk = ff_finalize gz mp\<rparr>"

section \<open>Datadog chunks\<close>

record 'z dd_chunk =
  ddId :: bytes
  ddRecords :: nat
  ddBytes :: nat
  ddMaxRecords :: nat
  ddMaxBytes :: nat
  ddCompressor :: "'z option"

definition dd_new :: "'z gzip \<Rightarrow> nat \<Rightarrow> nat \<Rightarrow> bytes \<Rightarrow> bytes \<Rightarrow> ('z dd_chunk \<times> bytes) go" where
  "dd_new gz maxRecords maxBytes k buf =
     (case gzOpen gz of
        None \<Rightarrow> Inl NilDereference
      | Some z \<Rightarrow>
          (case gzWrite gz z ''['' of (z, out, ok) \<Rightarrow>
             Inr (\<lparr>ddId = k, ddRecords = 0, ddBytes = (if ok then 1 else 0), ddMaxRecords = maxRecords,
                   ddMaxBytes = maxBytes, ddCompressor = Some z\<rparr>, buf @ out)))"

text \<open>Writing to the compressor, or directly to the buffer.\<close>

definition dd_put :: "'z gzip \<Rightarrow> bytes \<Rightarrow> 'z dd_chunk \<Rightarrow> bytes \<Rightarrow> 'z dd_chunk \<times> bytes \<times> bool" where
  "dd_put gz data c buf =
     (case ddCompressor c of
        Some z \<Rightarrow> (case gzWrite gz z data of (z, out, ok) \<Rightarrow> (c\<lparr>ddCompressor := Some z\<rparr>, buf @ out, ok))
      | None \<Rightarrow> (c, buf @ data, True))"

definition dd_write :: "'z gzip \<Rightarrow> bytes \<Rightarrow> 'z dd_chunk \<Rightarrow> bytes \<Rightarrow> 'z dd_chunk \<times> bytes \<times> bool" where
  "dd_write gz data c buf =
     (let (c, buf, ok) = (if ddRecords c \<noteq> 0 then dd_put gz '','' c buf else (c, buf, True)) in
      if \<not> ok then (c, buf, False)
      else (case dd_put gz data c buf of (c, buf, ok) \<Rightarrow>
              (if ok then c\<lparr>ddRecords := ddRecords c + 1, ddBytes := ddBytes c + (1 + length data)\<rparr> else c,
               buf, ok)))"

definition dd_finalize :: "'z gzip \<Rightarrow> 'z dd_chunk \<Rightarrow> bytes \<Rightarrow> log_chunk option \<times> 'z dd_chunk \<times> bytes" where
  "dd_finalize gz c buf =
     (case dd_put gz '']'' c buf of (c, buf, ok) \<Rightarrow>
        if \<not> ok then (None, c, buf)
        else
          let (z, out, ok) = (case ddCompressor c of
                Some z \<Rightarrow> (case gzClose gz z of (z, out, ok) \<Rightarrow> (Some z, out, ok))
              | None \<Rightarrow> (None, [], True));
              c = c\<lparr>ddCompressor := z\<rparr>;
              buf = buf @ out in
          if \<not> ok then (None, c, buf)
          else (Some \<lparr>chunk_id = ddId c, chunk_data = Some buf, chunk_saved = False\<rparr>,
                c\<lparr>ddBytes := ddBytes c + 1\<rparr>, []))"

definition dd_can_append :: "'z dd_chunk \<Rightarrow> nat \<Rightarrow> bool" where
  "dd_can_append c n =
     (\<not> (0 < ddMaxRecords c \<and> ddMaxRecords c \<le> ddRecords c) \<and>
      \<not> (0 < ddMaxBytes c \<and> ddMaxBytes c < ddBytes c + n + 1))"

definition dd_chunker :: "'z gzip \<Rightarrow> nat \<Rightarrow> nat \<Rightarrow> 'z dd_chunk chunker" where
  "dd_chunker gz maxRecords maxBytes =
     \<lparr>newChunkFunc = dd_new gz maxRecords maxBytes, canAppendData = dd_can_append,
      writeData = dd_write gz, finalizeChunk = dd_finalize gz\<rparr>"

section \<open>The contract of a chunk format\<close>

text \<open>
  \<open>ready\<close> is what the format relies on. \<open>holds c buf k ss\<close>: the chunk \<open>c\<close> with the buffer is named
  \<open>k\<close> and holds the streams \<open>ss\<close>; \<open>packs r ss\<close>: the finished chunk \<open>r\<close> carries \<open>ss\<close>.
\<close>

locale chunk_format =
  fixes vt :: "'c chunker"
    and ready :: bool
    and holds :: "'c \<Rightarrow> bytes \<Rightarrow> bytes \<Rightarrow> bytes list \<Rightarrow> bool"
    and packs :: "log_chunk \<Rightarrow> bytes list \<Rightarrow> bool"
    and within :: "bytes list \<Rightarrow> bool"
  assumes opens: "ready \<Longrightarrow> \<exists>c buf. newChunkFunc vt k [] = Inr (c, buf) \<and> holds c buf k []"
    and writes: "ready \<Longrightarrow> holds c buf k ss \<Longrightarrow>
      \<exists>c' buf'. writeData vt s c buf = (c', buf', True) \<and> holds c' buf' k (ss @ [s])"
    and finalizes: "ready \<Longrightarrow> holds c buf k ss \<Longrightarrow>
      \<exists>r c'. finalizeChunk vt c buf = (Some r, c', []) \<and> chunk_id r = k \<and> chunk_saved r = False \<and> packs r ss"
    and limits: "holds c buf k ss \<Longrightarrow> canAppendData vt c (length s) \<Longrightarrow> within (ss @ [s])"

definition fits :: "(bytes list \<Rightarrow> bool) \<Rightarrow> bytes list \<Rightarrow> bool" where
  "fits within ss \<longleftrightarrow> ss \<noteq> [] \<and> (length ss = 1 \<or> within ss)"

fun streams_of :: "maker_call list \<Rightarrow> bytes list" where
  "streams_of [] = []"
| "streams_of (WriteStream _ s # es) = s # streams_of es"
| "streams_of (FlushBuffer # es) = streams_of es"

fun clock_of :: "maker_call list \<Rightarrow> gotime list" where
  "clock_of [] = []"
| "clock_of (WriteStream now _ # es) = now # clock_of es"
| "clock_of (FlushBuffer # es) = clock_of es"

lemma generate_all_append:
  "\<exists>g'. \<forall>more. generate_all (clock @ more) g = generate_all clock g @ generate_all more g'"
proof (induction clock arbitrary: g)
  case (Cons now clock)
  show ?case using Cons[of "snd (generate now g)"] by (auto simp: case_prod_beta)
qed auto

context chunk_format
begin

text \<open>The packer's state after the streams \<open>ss\<close> of the current chunk.\<close>

definition packing :: "'c message_packer \<Rightarrow> bytes list \<Rightarrow> bytes list \<Rightarrow> bool" where
  "packing p cur ss \<longleftrightarrow>
     (case currentChunk p of
        None \<Rightarrow> chunkBuffer p = [] \<and> ss = [] \<and> cur = []
      | Some c \<Rightarrow> (\<exists>k. holds c (chunkBuffer p) k ss \<and> cur = [k] \<and> fits within ss))"

lemma flush_packing:
  assumes "ready" and "packing p cur ss"
  shows "\<exists>out p'. flush_buffer vt p = (out, p') \<and> packing p' [] [] \<and> idGenerator p' = idGenerator p \<and>
    currentChunk p' = None \<and>
    (case out of None \<Rightarrow> ss = [] \<and> cur = [] | Some r \<Rightarrow> cur = [chunk_id r] \<and> packs r ss \<and> fits within ss)"
proof (cases "currentChunk p")
  case None
  then show ?thesis using assms(2) by (simp add: flush_buffer_def packing_def)
next
  case (Some c)
  then obtain k where k: "holds c (chunkBuffer p) k ss" "cur = [k]" "fits within ss"
    using assms(2) by (auto simp: packing_def)
  obtain r c' where r: "finalizeChunk vt c (chunkBuffer p) = (Some r, c', [])" "chunk_id r = k" "packs r ss"
    using finalizes[OF assms(1) k(1)] by blast
  then show ?thesis using Some k by (simp add: flush_buffer_def packing_def)
qed

lemma start_packing:
  assumes "ready" and "packing p [] []" and "currentChunk p = None" and "generate now (idGenerator p) = (k, g)"
  shows "\<exists>c buf. new_chunk vt now p = Inr (c, p\<lparr>chunkBuffer := buf, idGenerator := g\<rparr>) \<and> holds c buf k []"
proof -
  have "chunkBuffer p = []" using assms(2,3) by (simp add: packing_def)
  with opens[OF assms(1), of k] show ?thesis using assms(4) by (auto simp: new_chunk_def)
qed

text \<open>One call: a chunk may come out, and the rest stays.\<close>

lemma write_packing:
  assumes "ready" and "packing p cur ss"
  shows "\<exists>out p' cur' ss'. write_stream vt now s p = Inr (out, p') \<and> packing p' cur' ss' \<and>
    (case out of None \<Rightarrow> ss' = ss @ [s] | Some r \<Rightarrow> cur = [chunk_id r] \<and> packs r ss \<and> fits within ss \<and> ss' = [s]) \<and>
    ((out = None \<and> cur \<noteq> [] \<and> cur' = cur \<and> idGenerator p' = idGenerator p) \<or>
     ((out \<noteq> None \<or> cur = []) \<and> cur' = [fst (generate now (idGenerator p))] \<and>
       idGenerator p' = snd (generate now (idGenerator p))))"
proof -
  obtain k g where g: "generate now (idGenerator p) = (k, g)" by (metis surj_pair)
  show ?thesis
  proof (cases "\<exists>c. currentChunk p = Some c \<and> canAppendData vt c (length s)")
    case True
    then obtain c where c: "currentChunk p = Some c" "canAppendData vt c (length s)" by blast
    obtain k' where k: "holds c (chunkBuffer p) k' ss" "cur = [k']" "fits within ss"
      using assms(2) c by (auto simp: packing_def)
    obtain c' buf' where w: "writeData vt s c (chunkBuffer p) = (c', buf', True)" "holds c' buf' k' (ss @ [s])"
      using writes[OF assms(1) k(1)] by blast
    have "fits within (ss @ [s])" using limits[OF k(1) c(2)] by (simp add: fits_def)
    then show ?thesis using c w k by (simp add: write_stream_def packing_def)
  next
    case False
    define q where "q = (case currentChunk p of None \<Rightarrow> (None, p) | Some c \<Rightarrow> flush_buffer vt p)"
    obtain out p1 where f: "q = (out, p1)" "packing p1 [] []" "idGenerator p1 = idGenerator p" "currentChunk p1 = None"
      "case out of None \<Rightarrow> ss = [] \<and> cur = [] | Some r \<Rightarrow> cur = [chunk_id r] \<and> packs r ss \<and> fits within ss"
      using flush_packing[OF assms] assms(2) by (auto simp: q_def packing_def flush_buffer_def split: option.splits)
    obtain c buf where n: "new_chunk vt now p1 = Inr (c, p1\<lparr>chunkBuffer := buf, idGenerator := g\<rparr>)" "holds c buf k []"
      using start_packing[OF assms(1) f(2,4), of now k g] f(3) g by auto
    obtain c' buf' where w: "writeData vt s c buf = (c', buf', True)" "holds c' buf' k ([] @ [s])"
      using writes[OF assms(1) n(2)] by blast
    have "(case currentChunk p of None \<Rightarrow> (None, p)
        | Some c \<Rightarrow> if canAppendData vt c (length s) then (None, p) else flush_buffer vt p) = (out, p1)"
      using False f(1) by (auto simp: q_def split: option.splits)
    then have "write_stream vt now s p = Inr (out, p1\<lparr>chunkBuffer := buf', idGenerator := g, currentChunk := Some c'\<rparr>)"
      by (simp add: write_stream_def f(4) n(1) w(1))
    then show ?thesis using f w g by (auto simp: packing_def fits_def split: option.splits)
  qed
qed

end

context chunk_format
begin

lemma run_packing:
  "ready \<Longrightarrow> packing p cur ss \<Longrightarrow>
    \<exists>outs p' parts rest cur' clock. maker_run vt es p = Inr (outs, p') \<and> packing p' cur' rest \<and>
      list_all2 packs outs parts \<and> list_all (fits within) parts \<and>
      concat parts @ rest = ss @ streams_of es \<and>
      map chunk_id outs @ cur' = cur @ generate_all clock (idGenerator p) \<and> subseq clock (clock_of es)"
proof (induction es arbitrary: p cur ss)
  case Nil
  then show ?case
    by (intro exI[of _ "[]"] exI[of _ p] exI[of _ "[]"] exI[of _ ss] exI[of _ cur] exI[of _ "[]"]) auto
next
  case (Cons e es)
  show ?case
  proof (cases e)
    case (WriteStream now s)
    obtain out p1 cur1 ss1 where w: "write_stream vt now s p = Inr (out, p1)" "packing p1 cur1 ss1"
      "case out of None \<Rightarrow> ss1 = ss @ [s] | Some r \<Rightarrow> cur = [chunk_id r] \<and> packs r ss \<and> fits within ss \<and> ss1 = [s]"
      "(out = None \<and> cur \<noteq> [] \<and> cur1 = cur \<and> idGenerator p1 = idGenerator p) \<or>
        ((out \<noteq> None \<or> cur = []) \<and> cur1 = [fst (generate now (idGenerator p))] \<and>
          idGenerator p1 = snd (generate now (idGenerator p)))"
      using write_packing[OF Cons(2,3), of now s] by (elim exE conjE) (rule that)
    obtain outs p' parts rest cur' clock where r: "maker_run vt es p1 = Inr (outs, p')" "packing p' cur' rest"
      "list_all2 packs outs parts" "list_all (fits within) parts" "concat parts @ rest = ss1 @ streams_of es"
      "map chunk_id outs @ cur' = cur1 @ generate_all clock (idGenerator p1)" "subseq clock (clock_of es)"
      using Cons(1)[OF Cons(2) w(2)] by blast
    have run: "maker_run vt (e # es) p = Inr ((case out of None \<Rightarrow> outs | Some r \<Rightarrow> r # outs), p')"
      by (simp add: WriteStream maker_call_step_def w(1) r(1))
    obtain clock' where t: "cur1 @ generate_all clock (idGenerator p1) =
        (if out = None then cur else []) @ generate_all clock' (idGenerator p)" "subseq clock' (clock_of (e # es))"
    proof (cases "out = None \<and> cur \<noteq> []")
      case True
      then show ?thesis using that[of clock] w(4) r(7) WriteStream by auto
    next
      case False
      then show ?thesis using that[of "now # clock"] w(4) r(7) WriteStream by (auto simp: case_prod_beta)
    qed
    show ?thesis
    proof (cases out)
      case None
      have a: "maker_run vt (e # es) p = Inr (outs, p')" using run None by simp
      have b: "concat parts @ rest = ss @ streams_of (e # es)" using r(5) w(3) None WriteStream by simp
      have c: "map chunk_id outs @ cur' = cur @ generate_all clock' (idGenerator p)" using r(6) t(1) None by simp
      show ?thesis by (intro exI conjI) (fact a r(2) r(3) r(4) b c t(2))+
    next
      case (Some d)
      have a: "maker_run vt (e # es) p = Inr (d # outs, p')" using run Some by simp
      have b: "concat (ss # parts) @ rest = ss @ streams_of (e # es)" using r(5) w(3) Some WriteStream by simp
      have c: "map chunk_id (d # outs) @ cur' = cur @ generate_all clock' (idGenerator p)"
        using r(6) t(1) w(3) Some by simp
      have l: "list_all2 packs (d # outs) (ss # parts)" "list_all (fits within) (ss # parts)"
        using r(3,4) w(3) Some by simp_all
      show ?thesis by (intro exI conjI) (fact a r(2) l b c t(2))+
    qed
  next
    case FlushBuffer
    obtain out p1 where w: "flush_buffer vt p = (out, p1)" "packing p1 [] []" "idGenerator p1 = idGenerator p"
      "case out of None \<Rightarrow> ss = [] \<and> cur = [] | Some r \<Rightarrow> cur = [chunk_id r] \<and> packs r ss \<and> fits within ss"
      using flush_packing[OF Cons(2,3)] by blast
    obtain outs p' parts rest cur' clock where r: "maker_run vt es p1 = Inr (outs, p')" "packing p' cur' rest"
      "list_all2 packs outs parts" "list_all (fits within) parts" "concat parts @ rest = streams_of es"
      "map chunk_id outs @ cur' = generate_all clock (idGenerator p)" "subseq clock (clock_of es)"
      using Cons(1)[OF Cons(2) w(2)] w(3) by auto
    have run: "maker_run vt (e # es) p = Inr ((case out of None \<Rightarrow> outs | Some r \<Rightarrow> r # outs), p')"
      by (simp add: FlushBuffer maker_call_step_def w(1) r(1))
    show ?thesis
    proof (cases out)
      case None
      have a: "maker_run vt (e # es) p = Inr (outs, p')" using run None by simp
      have b: "concat parts @ rest = ss @ streams_of (e # es)" using r(5) w(4) None FlushBuffer by simp
      have c: "map chunk_id outs @ cur' = cur @ generate_all clock (idGenerator p)" using r(6) w(4) None by simp
      have s: "subseq clock (clock_of (e # es))" using r(7) FlushBuffer by simp
      show ?thesis by (intro exI conjI) (fact a r(2) r(3) r(4) b c s)+
    next
      case (Some d)
      have a: "maker_run vt (e # es) p = Inr (d # outs, p')" using run Some by simp
      have b: "concat (ss # parts) @ rest = ss @ streams_of (e # es)" using r(5) FlushBuffer by simp
      have c: "map chunk_id (d # outs) @ cur' = cur @ generate_all clock (idGenerator p)"
        using r(6) w(4) Some by simp
      have l: "list_all2 packs (d # outs) (ss # parts)" "list_all (fits within) (ss # parts)"
        using r(3,4) w(4) Some by simp_all
      have s: "subseq clock (clock_of (e # es))" using r(7) FlushBuffer by simp
      show ?thesis by (intro exI conjI) (fact a r(2) l b c s)+
    qed
  qed
qed

text \<open>From a new packer, ending with a flush: nothing stays behind.\<close>

lemma new_packing: "packing (new_message_packer suf) [] []"
  by (simp add: packing_def new_message_packer_def)

lemma packing_flushed:
  "ready \<Longrightarrow> packing p cur ss \<Longrightarrow> flush_buffer vt p = (None, p') \<Longrightarrow> ss = []"
  using flush_packing[of p cur ss] by auto

lemma maker_run_append:
  "maker_run vt (es @ fs) p =
    go_bind (maker_run vt es p) (\<lambda>(a, p). go_bind (maker_run vt fs p) (\<lambda>(b, p). Inr (a @ b, p)))"
  by (induction es arbitrary: p)
    (auto simp: go_bind_def maker_call_step_def split: sum.splits option.splits maker_call.splits)

lemma all_packed:
  assumes "ready"
  shows "\<exists>outs p' parts clock. maker_run vt (es @ [FlushBuffer]) (new_message_packer suf) = Inr (outs, p') \<and>
    list_all2 packs outs parts \<and> concat parts = streams_of es \<and> list_all (fits within) parts \<and>
    map chunk_id outs = generate_all clock (new_chunk_id_generator suf) \<and> subseq clock (clock_of es)"
proof -
  obtain outs p parts rest cur clock where r: "maker_run vt es (new_message_packer suf) = Inr (outs, p)"
    "packing p cur rest" "list_all2 packs outs parts" "list_all (fits within) parts"
    "concat parts @ rest = streams_of es" "map chunk_id outs @ cur = generate_all clock (new_chunk_id_generator suf)"
    "subseq clock (clock_of es)"
    using run_packing[OF assms new_packing] by (fastforce simp: new_message_packer_def)
  obtain out p' where f: "flush_buffer vt p = (out, p')"
    "case out of None \<Rightarrow> rest = [] \<and> cur = [] | Some r \<Rightarrow> cur = [chunk_id r] \<and> packs r rest \<and> fits within rest"
    using flush_packing[OF assms r(2)] by blast
  have run: "maker_run vt (es @ [FlushBuffer]) (new_message_packer suf) =
      Inr (outs @ (case out of None \<Rightarrow> [] | Some c \<Rightarrow> [c]), p')"
    by (simp add: maker_run_append r(1) f(1) maker_call_step_def split: option.split)
  show ?thesis
  proof (cases out)
    case None
    then show ?thesis using run r f by auto
  next
    case (Some c)
    have "list_all2 packs (outs @ [c]) (parts @ [rest])" using r(3) f(2) Some by (simp add: list_all2_appendI)
    then show ?thesis using run r f(2) Some
      by (intro exI[of _ "outs @ [c]"] exI[of _ p'] exI[of _ "parts @ [rest]"] exI[of _ clock]) simp
  qed
qed

end

section \<open>The libraries\<close>

text \<open>Writing several pieces to a compressor: its state, what it has written out, no error.\<close>

fun gz_feed :: "'z gzip \<Rightarrow> 'z \<Rightarrow> bytes list \<Rightarrow> 'z \<times> bytes \<times> bool" where
  "gz_feed gz z [] = (z, [], True)"
| "gz_feed gz z (d # ds) =
     (case gzWrite gz z d of (z1, out1, ok1) \<Rightarrow>
      case gz_feed gz z1 ds of (z2, out2, ok2) \<Rightarrow> (z2, out1 @ out2, ok1 \<and> ok2))"

lemma gz_feed_append:
  "gz_feed gz z (ds @ es) =
    (case gz_feed gz z ds of (z1, out1, ok1) \<Rightarrow>
     case gz_feed gz z1 es of (z2, out2, ok2) \<Rightarrow> (z2, out1 @ out2, ok1 \<and> ok2))"
  by (induction ds arbitrary: z) (auto split: prod.split)

text \<open>
  What is documented of gzip: a writer at a valid level opens; into a buffer, writing and closing
  give no error; what \<open>gunzip\<close> reads from the output is what was written.
\<close>

definition gzip_ok :: "'z gzip \<Rightarrow> (bytes \<Rightarrow> bytes option) \<Rightarrow> bool" where
  "gzip_ok gz gunzip \<longleftrightarrow>
     (\<exists>z0. gzOpen gz = Some z0 \<and>
       (\<forall>ds. case gz_feed gz z0 ds of (z, out, ok) \<Rightarrow>
          case gzClose gz z of (z', tail, ok') \<Rightarrow> ok \<and> ok' \<and> gunzip (out @ tail) = Some (concat ds)))"

text \<open>The state of a compressor that has been given \<open>ds\<close>, and its output so far.\<close>

definition gz_given :: "'z gzip \<Rightarrow> bytes list \<Rightarrow> 'z \<Rightarrow> bytes \<Rightarrow> bool" where
  "gz_given gz ds z out \<longleftrightarrow> (\<exists>z0. gzOpen gz = Some z0 \<and> gz_feed gz z0 ds = (z, out, True))"

lemma gz_given_Nil: "gzOpen gz = Some z \<Longrightarrow> gz_given gz [] z []"
  by (simp add: gz_given_def)

lemma gz_given_write:
  assumes "gzip_ok gz gunzip" and "gz_given gz ds z out"
  shows "\<exists>z' out'. gzWrite gz z d = (z', out', True) \<and> gz_given gz (ds @ [d]) z' (out @ out')"
proof -
  obtain z0 where z: "gzOpen gz = Some z0" "gz_feed gz z0 ds = (z, out, True)"
    using assms(2) by (auto simp: gz_given_def)
  obtain z' out' ok where w: "gzWrite gz z d = (z', out', ok)" by (metis surj_pair)
  have f: "gz_feed gz z0 (ds @ [d]) = (z', out @ out', ok)" by (simp add: gz_feed_append z w)
  have "ok"
    using assms(1) z(1) f unfolding gzip_ok_def by (metis (no_types, lifting) case_prod_conv option.inject surj_pair)
  then show ?thesis using w f z(1) by (simp add: gz_given_def)
qed

lemma gz_given_close:
  assumes "gzip_ok gz gunzip" and "gz_given gz ds z out"
  shows "\<exists>z' tail. gzClose gz z = (z', tail, True) \<and> gunzip (out @ tail) = Some (concat ds)"
proof -
  obtain z0 where z: "gzOpen gz = Some z0" "gz_feed gz z0 ds = (z, out, True)"
    using assms(2) by (auto simp: gz_given_def)
  obtain z' tail ok where c: "gzClose gz z = (z', tail, ok)" by (metis surj_pair)
  have "case gz_feed gz z0 ds of (z, out, ok) \<Rightarrow>
      case gzClose gz z of (z', tail, ok') \<Rightarrow> ok \<and> ok' \<and> gunzip (out @ tail) = Some (concat ds)"
    using assms(1) z(1) unfolding gzip_ok_def by auto
  then show ?thesis using z(2) c by simp
qed

lemma gzip_ok_opens: "gzip_ok gz gunzip \<Longrightarrow> \<exists>z. gzOpen gz = Some z"
  by (auto simp: gzip_ok_def)

text \<open>The MessagePack encoder does not fail on what it is given here.\<close>

definition mp_ok :: "mp_lib \<Rightarrow> bool" where
  "mp_ok mp \<longleftrightarrow> (\<forall>n. mpArrayLen mp n \<noteq> None) \<and> (\<forall>s. mpString mp s \<noteq> None) \<and>
     (\<forall>s. mpBytes mp s \<noteq> None) \<and> (\<forall>n k z. mpOption mp n k z \<noteq> None)"

section \<open>Fluentd chunks hold what was written\<close>

definition ff_holds ::
  "'z gzip \<Rightarrow> bool \<Rightarrow> chunk_encoder option \<Rightarrow> nat \<Rightarrow> nat \<Rightarrow> 'z ff_chunk \<Rightarrow> bytes \<Rightarrow> bytes \<Rightarrow> bytes list \<Rightarrow> bool" where
  "ff_holds gz compress enc maxRecords maxBytes c buf k ss \<longleftrightarrow>
     ffId c = k \<and> ffRecords c = length ss \<and> ffBytes c = sum_list (map length ss) \<and>
     ffMaxRecords c = maxRecords \<and> ffMaxBytes c = maxBytes \<and> ffEncoder c = enc \<and>
     (if compress then \<exists>z. ffCompressor c = Some z \<and> gz_given gz ss z buf
      else ffCompressor c = None \<and> buf = concat ss)"

text \<open>
  The request of the Forward protocol: tag, events, options. The events are the streams, or their
  compression; in Forward mode the array of the events, otherwise one binary.
\<close>

definition ff_request :: "mp_lib \<Rightarrow> chunk_encoder option \<Rightarrow> bytes \<Rightarrow> bytes \<Rightarrow> nat \<Rightarrow> bool \<Rightarrow> bytes" where
  "ff_request mp enc body k n z =
     (case enc of None \<Rightarrow> body
      | Some e \<Rightarrow> the (mpArrayLen mp 3) @ the (mpString mp (encTag e)) @
          (if encAsArray e then the (mpArrayLen mp n) @ body else the (mpBytes mp body)) @
          the (mpOption mp n k (if z then ''gzip'' else [])))"

definition ff_packs ::
  "mp_lib \<Rightarrow> (bytes \<Rightarrow> bytes option) \<Rightarrow> bool \<Rightarrow> chunk_encoder option \<Rightarrow> log_chunk \<Rightarrow> bytes list \<Rightarrow> bool" where
  "ff_packs mp gunzip compress enc r ss \<longleftrightarrow>
     (\<exists>body. (if compress then gunzip body = Some (concat ss) else body = concat ss) \<and>
        chunk_data r = Some (ff_request mp enc body (chunk_id r) (length ss) compress))"

definition ff_within :: "nat \<Rightarrow> nat \<Rightarrow> bytes list \<Rightarrow> bool" where
  "ff_within maxRecords maxBytes ss \<longleftrightarrow>
     (0 < maxRecords \<longrightarrow> length ss \<le> maxRecords) \<and> (0 < maxBytes \<longrightarrow> length (concat ss) \<le> maxBytes)"

lemma encode_chunk_ok:
  assumes "mp_ok mp"
  shows "encode_chunk mp e data k n z =
    Some (the (mpArrayLen mp 3) @ the (mpString mp (encTag e)) @
      (if encAsArray e then the (mpArrayLen mp n) @ data else the (mpBytes mp data)) @
      the (mpOption mp n k (if z then ''gzip'' else [])))"
proof -
  let ?z = "if z then ''gzip'' else []"
  obtain a b c d f where "mpArrayLen mp 3 = Some a" "mpArrayLen mp n = Some b" "mpString mp (encTag e) = Some c"
    "mpBytes mp data = Some d" "mpOption mp n k ?z = Some f"
    using assms unfolding mp_ok_def not_None_eq by metis
  then show ?thesis by (simp only: encode_chunk_def) simp
qed

lemma ff_opens:
  assumes "gzip_ok gz gunzip"
  shows "\<exists>c buf. ff_new gz compress enc mr mb k [] = Inr (c, buf) \<and> ff_holds gz compress enc mr mb c buf k []"
  using gzip_ok_opens[OF assms] by (auto simp: ff_new_def ff_holds_def gz_given_Nil)

lemma ff_writes:
  assumes "gzip_ok gz gunzip" and "ff_holds gz compress enc mr mb c buf k ss"
  shows "\<exists>c' buf'. ff_write gz s c buf = (c', buf', True) \<and> ff_holds gz compress enc mr mb c' buf' k (ss @ [s])"
proof (cases compress)
  case True
  then obtain z where z: "ffCompressor c = Some z" "gz_given gz ss z buf" using assms(2) by (auto simp: ff_holds_def)
  obtain z' out where "gzWrite gz z s = (z', out, True)" "gz_given gz (ss @ [s]) z' (buf @ out)"
    using gz_given_write[OF assms(1) z(2)] by blast
  then show ?thesis using assms(2) z(1) True by (simp add: ff_write_def ff_holds_def)
next
  case False
  then show ?thesis using assms(2) by (simp add: ff_write_def ff_holds_def)
qed

lemma ff_encoded:
  "mp_ok mp \<Longrightarrow> (case enc of Some e \<Rightarrow> encode_chunk mp e data k n z | None \<Rightarrow> Some data) = Some (ff_request mp enc data k n z)"
  by (cases enc) (simp_all add: encode_chunk_ok ff_request_def)

lemma ff_packs_request:
  "chunk_data r = Some (ff_request mp enc body (chunk_id r) (length ss) compress) \<Longrightarrow>
    (if compress then gunzip body = Some (concat ss) else body = concat ss) \<Longrightarrow> ff_packs mp gunzip compress enc r ss"
  unfolding ff_packs_def by blast

lemma ff_finalizes:
  assumes "gzip_ok gz gunzip" and "mp_ok mp" and "ff_holds gz compress enc mr mb c buf k ss"
  shows "\<exists>r c'. ff_finalize gz mp c buf = (Some r, c', []) \<and> chunk_id r = k \<and> chunk_saved r = False \<and>
    ff_packs mp gunzip compress enc r ss"
proof -
  obtain z' tail where t: "(case ffCompressor c of
        Some z \<Rightarrow> (case gzClose gz z of (z, out, ok) \<Rightarrow> (Some z, out, ok)) | None \<Rightarrow> (None, [], True)) = (z', tail, True)"
    "(z' \<noteq> None) = compress" "if compress then gunzip (buf @ tail) = Some (concat ss) else buf @ tail = concat ss"
  proof (cases compress)
    case True
    then obtain z where z: "ffCompressor c = Some z" "gz_given gz ss z buf" using assms(3) by (auto simp: ff_holds_def)
    from gz_given_close[OF assms(1) z(2)] show ?thesis using that z(1) True by auto
  next
    case False
    then show ?thesis using that[of None "[]"] assms(3) by (simp add: ff_holds_def)
  qed
  let ?r = "\<lparr>chunk_id = k, chunk_data = Some (ff_request mp enc (buf @ tail) k (length ss) compress), chunk_saved = False\<rparr>"
  have "ff_finalize gz mp c buf = (Some ?r, c\<lparr>ffCompressor := z'\<rparr>, [])"
    using assms(3) t(2) by (simp add: ff_finalize_def t(1) ff_holds_def ff_encoded[OF assms(2)])
  moreover have "ff_packs mp gunzip compress enc ?r ss" using t(3) by (intro ff_packs_request) simp_all
  ultimately show ?thesis by auto
qed

lemma ff_limits:
  "ff_holds gz compress enc mr mb c buf k ss \<Longrightarrow> ff_can_append c (length s) \<Longrightarrow> ff_within mr mb (ss @ [s])"
  by (auto simp: ff_holds_def ff_can_append_def ff_within_def length_concat)

interpretation ff: chunk_format "ff_chunker gz mp compress enc mr mb" "gzip_ok gz gunzip \<and> mp_ok mp"
    "ff_holds gz compress enc mr mb" "ff_packs mp gunzip compress enc" "ff_within mr mb"
  for gz :: "'z gzip" and gunzip mp compress enc mr mb
  by unfold_locales
    (simp_all only: ff_chunker_def chunker.simps, (blast intro: ff_opens ff_writes ff_finalizes ff_limits)+)

section \<open>Datadog chunks hold what was written\<close>

text \<open>The JSON array of the records, and the pieces it is written in.\<close>

definition json_array :: "bytes list \<Rightarrow> bytes" where
  "json_array ss = ''['' @ str_join '','' ss @ '']''"

definition dd_pieces :: "bytes list \<Rightarrow> bytes list" where
  "dd_pieces ss = ''['' # (case ss of [] \<Rightarrow> [] | s # t \<Rightarrow> s # concat (map (\<lambda>s. ['','', s]) t))"

lemma dd_pieces_snoc: "dd_pieces (ss @ [s]) = dd_pieces ss @ (if ss = [] then [s] else ['','', s])"
  by (cases ss) (simp_all add: dd_pieces_def)

lemma str_join_pieces: "s @ concat (concat (map (\<lambda>s. [sep, s]) t)) = str_join sep (s # t)"
  by (induction t arbitrary: s) simp_all

lemma concat_dd_pieces: "concat (dd_pieces ss) @ '']'' = json_array ss"
  by (cases ss) (simp_all add: dd_pieces_def json_array_def str_join_pieces[of _ "'',''"])

lemma length_str_join:
  "ss \<noteq> [] \<Longrightarrow> length (str_join [c] ss) + 1 = length (concat ss) + length ss"
  by (induction ss rule: induct_list012) simp_all

definition dd_holds ::
  "'z gzip \<Rightarrow> nat \<Rightarrow> nat \<Rightarrow> 'z dd_chunk \<Rightarrow> bytes \<Rightarrow> bytes \<Rightarrow> bytes list \<Rightarrow> bool" where
  "dd_holds gz maxRecords maxBytes c buf k ss \<longleftrightarrow>
     ddId c = k \<and> ddRecords c = length ss \<and> ddBytes c = 1 + length ss + length (concat ss) \<and>
     ddMaxRecords c = maxRecords \<and> ddMaxBytes c = maxBytes \<and>
     (\<exists>z. ddCompressor c = Some z \<and> gz_given gz (dd_pieces ss) z buf)"

definition dd_packs :: "(bytes \<Rightarrow> bytes option) \<Rightarrow> log_chunk \<Rightarrow> bytes list \<Rightarrow> bool" where
  "dd_packs gunzip r ss \<longleftrightarrow> (\<exists>data. chunk_data r = Some data \<and> gunzip data = Some (json_array ss))"

definition dd_within :: "nat \<Rightarrow> nat \<Rightarrow> bytes list \<Rightarrow> bool" where
  "dd_within maxRecords maxBytes ss \<longleftrightarrow>
     (0 < maxRecords \<longrightarrow> length ss \<le> maxRecords) \<and> (0 < maxBytes \<longrightarrow> length (json_array ss) \<le> maxBytes)"

text \<open>One write to the compressor of a chunk.\<close>

lemma dd_put_given:
  assumes "gzip_ok gz gunzip" and "ddCompressor c = Some z" and "gz_given gz ds z buf"
  shows "\<exists>z' buf'. dd_put gz d c buf = (c\<lparr>ddCompressor := Some z'\<rparr>, buf', True) \<and> gz_given gz (ds @ [d]) z' buf'"
  using gz_given_write[OF assms(1,3), of d] assms(2) by (auto simp: dd_put_def)

lemma dd_opens:
  assumes "gzip_ok gz gunzip"
  shows "\<exists>c buf. dd_new gz mr mb k [] = Inr (c, buf) \<and> dd_holds gz mr mb c buf k []"
proof -
  obtain z where z: "gzOpen gz = Some z" using gzip_ok_opens[OF assms] by blast
  obtain z' out where "gzWrite gz z ''['' = (z', out, True)" "gz_given gz ([] @ [''['']) z' ([] @ out)"
    using gz_given_write[OF assms gz_given_Nil[OF z]] by blast
  then show ?thesis using z by (simp add: dd_new_def dd_holds_def dd_pieces_def)
qed

lemma dd_writes:
  assumes "gzip_ok gz gunzip" and "dd_holds gz mr mb c buf k ss"
  shows "\<exists>c' buf'. dd_write gz s c buf = (c', buf', True) \<and> dd_holds gz mr mb c' buf' k (ss @ [s])"
proof -
  obtain z where z: "ddCompressor c = Some z" "gz_given gz (dd_pieces ss) z buf" using assms(2) by (auto simp: dd_holds_def)
  obtain z1 b1 where w1: "(if ddRecords c \<noteq> 0 then dd_put gz '','' c buf else (c, buf, True)) =
      (c\<lparr>ddCompressor := Some z1\<rparr>, b1, True)"
    "gz_given gz (dd_pieces ss @ (if ss = [] then [] else ['',''])) z1 b1"
  proof (cases "ss = []")
    case True
    then show ?thesis using that[of z buf] z assms(2) by (cases c) (simp add: dd_holds_def)
  next
    case False
    then show ?thesis using that dd_put_given[OF assms(1) z, of "'',''"] assms(2) by (auto simp: dd_holds_def)
  qed
  obtain z2 b2 where w2: "dd_put gz s (c\<lparr>ddCompressor := Some z1\<rparr>) b1 = (c\<lparr>ddCompressor := Some z2\<rparr>, b2, True)"
    "gz_given gz ((dd_pieces ss @ (if ss = [] then [] else ['',''])) @ [s]) z2 b2"
    using dd_put_given[OF assms(1) _ w1(2), of "c\<lparr>ddCompressor := Some z1\<rparr>" s] by auto
  have "(dd_pieces ss @ (if ss = [] then [] else ['',''])) @ [s] = dd_pieces (ss @ [s])"
    by (simp add: dd_pieces_snoc)
  then show ?thesis using assms(2) w2 unfolding dd_write_def w1(1) by (simp add: dd_holds_def)
qed

lemma dd_finalizes:
  assumes "gzip_ok gz gunzip" and "dd_holds gz mr mb c buf k ss"
  shows "\<exists>r c'. dd_finalize gz c buf = (Some r, c', []) \<and> chunk_id r = k \<and> chunk_saved r = False \<and> dd_packs gunzip r ss"
proof -
  obtain z where z: "ddCompressor c = Some z" "gz_given gz (dd_pieces ss) z buf" using assms(2) by (auto simp: dd_holds_def)
  obtain z1 b1 where w: "dd_put gz '']'' c buf = (c\<lparr>ddCompressor := Some z1\<rparr>, b1, True)" "gz_given gz (dd_pieces ss @ ['']'']) z1 b1"
    using dd_put_given[OF assms(1) z] by blast
  obtain z2 tail where t: "gzClose gz z1 = (z2, tail, True)" "gunzip (b1 @ tail) = Some (concat (dd_pieces ss @ ['']'']))"
    using gz_given_close[OF assms(1) w(2)] by blast
  have "dd_finalize gz c buf =
      (Some \<lparr>chunk_id = k, chunk_data = Some (b1 @ tail), chunk_saved = False\<rparr>,
       c\<lparr>ddCompressor := Some z2, ddBytes := ddBytes c + 1\<rparr>, [])"
    using assms(2) by (simp add: dd_finalize_def w(1) t(1) dd_holds_def)
  then show ?thesis using t(2) by (auto simp: dd_packs_def concat_dd_pieces)
qed

lemma dd_limits:
  assumes "dd_holds gz mr mb c buf k ss" and "dd_can_append c (length s)"
  shows "dd_within mr mb (ss @ [s])"
proof -
  have "length (json_array (ss @ [s])) = ddBytes c + length s + 1"
    using assms(1) length_str_join[of "ss @ [s]" "CHR '',''"] by (simp add: dd_holds_def json_array_def)
  then show ?thesis using assms by (auto simp: dd_holds_def dd_can_append_def dd_within_def)
qed

interpretation dd: chunk_format "dd_chunker gz mr mb" "gzip_ok gz gunzip"
    "dd_holds gz mr mb" "dd_packs gunzip" "dd_within mr mb"
  for gz :: "'z gzip" and gunzip mr mb
  by unfold_locales
    (simp_all only: dd_chunker_def chunker.simps, (blast intro: dd_opens dd_writes dd_finalizes dd_limits)+)

section \<open>The chunk makers of the outputs\<close>

text \<open>\<open>output/fluentdforward/config.go\<close> and \<open>output/datadog/config.go\<close>: limits, suffixes, modes.\<close>

datatype message_mode = ModeForward | ModePackedForward | ModeCompressedPackedForward | ModeOther bytes

definition ffChunkMaxSizeBytes :: nat where
  "ffChunkMaxSizeBytes = 7 * 1024 * 1024"

definition ffChunkMaxRecords :: nat where
  "ffChunkMaxRecords = 0"

definition ffChunkIDSuffix :: bytes where
  "ffChunkIDSuffix = ''.ff''"

definition ddChunkMaxSizeBytes :: nat where
  "ddChunkMaxSizeBytes = 5 * 1024 * 1024"

definition ddChunkMaxRecords :: nat where
  "ddChunkMaxRecords = 1000"

definition ddChunkIDSuffix :: bytes where
  "ddChunkIDSuffix = ''.dd''"

text \<open>An unsupported mode ends the program.\<close>

definition ff_new_chunk_maker ::
  "'z gzip \<Rightarrow> mp_lib \<Rightarrow> message_mode \<Rightarrow> bytes \<Rightarrow> ('z ff_chunk chunker \<times> 'z ff_chunk message_packer) go" where
  "ff_new_chunk_maker gz mp mode tag =
     (let maker = (\<lambda>compress asArray.
            (ff_chunker gz mp compress (Some \<lparr>encTag = tag, encAsArray = asArray\<rparr>) ffChunkMaxRecords ffChunkMaxSizeBytes,
             new_message_packer ffChunkIDSuffix)) in
      case mode of
        ModeForward \<Rightarrow> Inr (maker False True)
      | ModePackedForward \<Rightarrow> Inr (maker False False)
      | ModeCompressedPackedForward \<Rightarrow> Inr (maker True False)
      | ModeOther _ \<Rightarrow> Inl (LoggerPanic ''unsupported message mode''))"

definition dd_new_chunk_maker :: "'z gzip \<Rightarrow> 'z dd_chunk chunker \<times> 'z dd_chunk message_packer" where
  "dd_new_chunk_maker gz =
     (dd_chunker gz ddChunkMaxRecords ddChunkMaxSizeBytes, new_message_packer ddChunkIDSuffix)"

definition ff_match_chunk_id :: "bytes \<Rightarrow> bool" where
  "ff_match_chunk_id k = has_suffix k ffChunkIDSuffix"

definition dd_match_chunk_id :: "bytes \<Rightarrow> bool" where
  "dd_match_chunk_id k = has_suffix k ddChunkIDSuffix"

text \<open>The streams of a request: what a Forward request of a mode has to contain for given records.\<close>

definition ff_mode_packs ::
  "mp_lib \<Rightarrow> (bytes \<Rightarrow> bytes option) \<Rightarrow> message_mode \<Rightarrow> bytes \<Rightarrow> log_chunk \<Rightarrow> bytes list \<Rightarrow> bool" where
  "ff_mode_packs mp gunzip mode tag =
     ff_packs mp gunzip (mode = ModeCompressedPackedForward)
       (Some \<lparr>encTag = tag, encAsArray = (mode = ModeForward)\<rparr>)"

lemma ff_maker_cases:
  assumes "ff_new_chunk_maker gz mp mode tag = Inr (vt, p)"
  shows "vt = ff_chunker gz mp (mode = ModeCompressedPackedForward)
      (Some \<lparr>encTag = tag, encAsArray = (mode = ModeForward)\<rparr>) ffChunkMaxRecords ffChunkMaxSizeBytes \<and>
    p = new_message_packer ffChunkIDSuffix"
  using assms by (auto simp: ff_new_chunk_maker_def Let_def split: message_mode.splits)

text \<open>A compressor for the witnesses: it keeps everything until it is closed.\<close>

definition sample_gzip :: "bytes gzip" where
  "sample_gzip = \<lparr>gzOpen = Some [], gzWrite = (\<lambda>z d. (z @ d, [], True)), gzClose = (\<lambda>z. ([], CHR 0x1F # z, True))\<rparr>"

definition sample_gunzip :: "bytes \<Rightarrow> bytes option" where
  "sample_gunzip d = (case d of [] \<Rightarrow> None | c # s \<Rightarrow> if c = CHR 0x1F then Some s else None)"

definition sample_mp :: mp_lib where
  "sample_mp = \<lparr>mpArrayLen = (\<lambda>n. Some [char_of (0x90 + n)]), mpString = (\<lambda>s. Some (char_of (0xA0 + length s) # s)),
     mpBytes = (\<lambda>s. Some (char_of (0xC4::nat) # char_of (length s) # s)), mpOption = (\<lambda>n k z. Some k)\<rparr>"

lemma sample_gzip_ok: "gzip_ok sample_gzip sample_gunzip"
proof -
  have "gz_feed sample_gzip z ds = (z @ concat ds, [], True)" for z ds
    by (induction ds arbitrary: z) (simp_all add: sample_gzip_def)
  then show ?thesis by (simp add: gzip_ok_def sample_gzip_def sample_gunzip_def)
qed

lemma sample_mp_ok: "mp_ok sample_mp"
  by (simp add: mp_ok_def sample_mp_def)

definition sample_calls :: "maker_call list" where
  "sample_calls = [WriteStream 5 ''ab'', WriteStream 6 ''c'', FlushBuffer, WriteStream 9 ''d'']"

section \<open>Properties\<close>

text \<open>
  C13: The chunk maker of the fluentd output loses nothing: after any calls and a final flush, the
  chunks it has returned carry exactly the serialized records that were written, in order and each
  once, as requests of the configured mode; each chunk has at least one record, and at most 7 MiB of
  them unless it has a single one; the IDs are generated at the times of writes, in order.
\<close>

theorem fluentd_chunks:
  assumes "gzip_ok gz gunzip" and "mp_ok mp" and "ff_new_chunk_maker gz mp mode tag = Inr (vt, p)"
  shows "\<exists>chunks p' parts clock. maker_run vt (calls @ [FlushBuffer]) p = Inr (chunks, p') \<and>
    list_all2 (ff_mode_packs mp gunzip mode tag) chunks parts \<and> concat parts = streams_of calls \<and>
    list_all (\<lambda>ss. ss \<noteq> [] \<and> (length ss = 1 \<or> length (concat ss) \<le> ffChunkMaxSizeBytes)) parts \<and>
    map chunk_id chunks = generate_all clock (new_chunk_id_generator ffChunkIDSuffix) \<and>
    subseq clock (clock_of calls)"
proof -
  have m: "vt = ff_chunker gz mp (mode = ModeCompressedPackedForward)
      (Some \<lparr>encTag = tag, encAsArray = (mode = ModeForward)\<rparr>) ffChunkMaxRecords ffChunkMaxSizeBytes"
    "p = new_message_packer ffChunkIDSuffix"
    using ff_maker_cases[OF assms(3)] by simp_all
  have "fits (ff_within ffChunkMaxRecords ffChunkMaxSizeBytes) =
      (\<lambda>ss. ss \<noteq> [] \<and> (length ss = 1 \<or> length (concat ss) \<le> ffChunkMaxSizeBytes))"
    by (rule ext) (auto simp: fits_def ff_within_def ffChunkMaxRecords_def ffChunkMaxSizeBytes_def)
  with ff.all_packed[OF conjI[OF assms(1,2)], of "mode = ModeCompressedPackedForward"
      "Some \<lparr>encTag = tag, encAsArray = (mode = ModeForward)\<rparr>" ffChunkMaxRecords ffChunkMaxSizeBytes calls ffChunkIDSuffix]
  show ?thesis unfolding m ff_mode_packs_def by simp
qed

theorem fluentd_chunks_witness:
  "\<exists>chunks p' parts clock.
     maker_run (ff_chunker sample_gzip sample_mp True (Some \<lparr>encTag = ''t'', encAsArray = False\<rparr>) ffChunkMaxRecords ffChunkMaxSizeBytes)
       (sample_calls @ [FlushBuffer]) (new_message_packer ffChunkIDSuffix) = Inr (chunks, p') \<and>
     list_all2 (ff_mode_packs sample_mp sample_gunzip ModeCompressedPackedForward ''t'') chunks parts \<and>
     concat parts = [''ab'', ''c'', ''d''] \<and>
     list_all (\<lambda>ss. ss \<noteq> [] \<and> (length ss = 1 \<or> length (concat ss) \<le> ffChunkMaxSizeBytes)) parts \<and>
     map chunk_id chunks = generate_all clock (new_chunk_id_generator ffChunkIDSuffix) \<and> subseq clock [5, 6, 9]"
proof -
  have m: "ff_new_chunk_maker sample_gzip sample_mp ModeCompressedPackedForward ''t'' =
      Inr (ff_chunker sample_gzip sample_mp True (Some \<lparr>encTag = ''t'', encAsArray = False\<rparr>) ffChunkMaxRecords ffChunkMaxSizeBytes,
        new_message_packer ffChunkIDSuffix)"
    by (simp add: ff_new_chunk_maker_def)
  have "streams_of sample_calls = [''ab'', ''c'', ''d'']" "clock_of sample_calls = [5, 6, 9]"
    by (simp_all add: sample_calls_def)
  with fluentd_chunks[OF sample_gzip_ok sample_mp_ok m, of sample_calls] show ?thesis by simp
qed

text \<open>
  C14: The chunk maker of the Datadog output loses nothing: the chunks returned up to a final flush
  decompress to JSON arrays whose elements are the serialized records, in order and each once; an
  array has at least one element, at most 1000, and at most 5 MiB unless it has a single one.
\<close>

theorem datadog_chunks:
  assumes "gzip_ok gz gunzip"
  shows "\<exists>chunks p' parts clock.
    maker_run (fst (dd_new_chunk_maker gz)) (calls @ [FlushBuffer]) (snd (dd_new_chunk_maker gz)) = Inr (chunks, p') \<and>
    list_all2 (\<lambda>c ss. \<exists>data. chunk_data c = Some data \<and> gunzip data = Some (json_array ss)) chunks parts \<and>
    concat parts = streams_of calls \<and>
    list_all (\<lambda>ss. ss \<noteq> [] \<and> length ss \<le> ddChunkMaxRecords \<and>
      (length ss = 1 \<or> length (json_array ss) \<le> ddChunkMaxSizeBytes)) parts \<and>
    map chunk_id chunks = generate_all clock (new_chunk_id_generator ddChunkIDSuffix) \<and>
    subseq clock (clock_of calls)"
proof -
  have f: "fits (dd_within ddChunkMaxRecords ddChunkMaxSizeBytes) =
      (\<lambda>ss. ss \<noteq> [] \<and> length ss \<le> ddChunkMaxRecords \<and>
        (length ss = 1 \<or> length (json_array ss) \<le> ddChunkMaxSizeBytes))"
    by (rule ext) (auto simp: fits_def dd_within_def ddChunkMaxRecords_def ddChunkMaxSizeBytes_def)
  have "dd_packs gunzip = (\<lambda>c ss. \<exists>data. chunk_data c = Some data \<and> gunzip data = Some (json_array ss))"
    by (simp add: dd_packs_def fun_eq_iff)
  with dd.all_packed[OF assms, of ddChunkMaxRecords ddChunkMaxSizeBytes calls ddChunkIDSuffix] f show ?thesis
    by (simp add: dd_new_chunk_maker_def)
qed

theorem datadog_chunks_witness:
  "\<exists>chunks p' parts clock.
    maker_run (dd_chunker sample_gzip ddChunkMaxRecords ddChunkMaxSizeBytes) (sample_calls @ [FlushBuffer])
      (new_message_packer ddChunkIDSuffix) = Inr (chunks, p') \<and>
    list_all2 (\<lambda>c ss. \<exists>data. chunk_data c = Some data \<and> sample_gunzip data = Some (json_array ss)) chunks parts \<and>
    concat parts = [''ab'', ''c'', ''d''] \<and>
    list_all (\<lambda>ss. ss \<noteq> [] \<and> length ss \<le> ddChunkMaxRecords \<and>
      (length ss = 1 \<or> length (json_array ss) \<le> ddChunkMaxSizeBytes)) parts \<and>
    map chunk_id chunks = generate_all clock (new_chunk_id_generator ddChunkIDSuffix) \<and> subseq clock [5, 6, 9]"
proof -
  have "streams_of sample_calls = [''ab'', ''c'', ''d'']" "clock_of sample_calls = [5, 6, 9]"
    by (simp_all add: sample_calls_def)
  with datadog_chunks[OF sample_gzip_ok, of sample_calls] show ?thesis by (simp add: dd_new_chunk_maker_def)
qed

end
