(* ===== verification/Keyset.thy ===== *)
theory Keyset
  imports Template "HOL-Library.AList"
begin

text \<open>
  Distribution of records to pipelines by key set: \<open>util/localcachedmap/localcachedmap.go\<close>,
  \<open>orchestrate/obase/tagbuilder.go\<close>, \<open>orchestrate/obykeyset/channelinputbuffer.go\<close>,
  \<open>orchestrator.go\<close> and \<open>config.go\<close>. Every connection has a sink with buffers of its own, one per key
  set; pipelines and the global map of them are shared. The goroutines of the connections interleave
  at their accesses to what is shared: looking up or creating a pipeline (under the mutex) and
  sending to a channel. An event is one such step, or the beginning of a call of a sink. The clock,
  the order in which Go walks a map and whether a send times out are arguments. A pipeline is what
  it was created with and what its channel has been sent; what it does is in the theories of the
  worker and the buffer.
\<close>

section \<open>Tags\<close>

record tag_builder =
  tagExpander :: expander
  tagBuffer :: bytes

definition new_tag_builder :: "bytes \<Rightarrow> bytes list \<Rightarrow> tag_builder cfg go" where
  "new_tag_builder template keyNames =
     go_bind (new_expander template (\<lambda>name.
         case index_byte name keyNames of
           None \<Rightarrow> Inl (FieldNotDefined name)
         | Some i \<Rightarrow> Inr (\<lambda>labelValues. go_index labelValues (int i)))) (\<lambda>r.
       Inr (case r of Inl e \<Rightarrow> Inl e | Inr ex \<Rightarrow> Inr \<lparr>tagExpander = ex, tagBuffer = []\<rparr>))"

definition build_tag :: "tag_builder \<Rightarrow> bytes list \<Rightarrow> (bytes \<times> tag_builder) go" where
  "build_tag tb keyValues =
     go_bind (run_with_buffer (tagExpander tb) keyValues (tagBuffer tb)) (\<lambda>(tag, buf).
       Inr (tag, tb\<lparr>tagBuffer := buf\<rparr>))"

section \<open>The buffer between a connection and a channel\<close>

record input_buffer =
  channelOf :: nat
  pendingLogs :: "log_record list"
  pendingBytes :: nat
  lastFlushTime :: gotime

definition new_input_buffer :: "nat \<Rightarrow> gotime \<Rightarrow> input_buffer" where
  "new_input_buffer ch now = \<lparr>channelOf = ch, pendingLogs = [], pendingBytes = 0, lastFlushTime = now\<rparr>"

definition append_log :: "log_record \<Rightarrow> input_buffer \<Rightarrow> bool \<times> input_buffer" where
  "append_log r b =
     (let b = b\<lparr>pendingLogs := pendingLogs b @ [r], pendingBytes := pendingBytes b + RawLength r\<rparr> in
      (IntermediateBufferMaxTotalBytes \<le> pendingBytes b \<or>
       IntermediateBufferMaxNumLogs \<le> length (pendingLogs b), b))"

text \<open>The copy that is sent, and the buffer after.\<close>

definition flush_logs :: "gotime \<Rightarrow> input_buffer \<Rightarrow> log_record list \<times> input_buffer" where
  "flush_logs now b =
     (pendingLogs b, b\<lparr>pendingLogs := [], pendingBytes := 0, lastFlushTime := now\<rparr>)"

section \<open>The maps\<close>

text \<open>
  A pipeline: its key set, the IDs given to \<open>startPipeline\<close>, its channel (open, and the batches sent
  with the sink they came from).
\<close>

record pipeline =
  pipeKeys :: "bytes list"
  workerID :: bytes
  outputTag :: bytes
  chanOpen :: bool
  chanSent :: "(nat \<times> log_record list) list"

text \<open>
  A sink, its buffers by merged key, and where it is in a call of \<open>Accept\<close>, \<open>Tick\<close> or \<open>Close\<close>: the
  rest of the records given, the buffers to be flushed next, the time taken at the beginning. The
  log of the records it has taken is for reasoning.
\<close>

record orch_sink =
  localMap :: "(bytes \<times> input_buffer) list"
  todo :: "log_record list"
  flushing :: "bytes list"
  callTime :: gotime
  sinkClosed :: bool
  takenLog :: "log_record list"

record orchestrator =
  keyLocators :: "locator list"
  tagBuilder :: tag_builder
  globalMap :: "(bytes \<times> nat) list"
  pipelines :: "pipeline list"
  orchSinks :: "orch_sink list"
  destroyed :: bool
  timedOut :: bool

text \<open>\<open>newPipeline\<close>: the tag, the ID, and the start of the workers on a new channel.\<close>

definition new_pipeline :: "bytes list \<Rightarrow> orchestrator \<Rightarrow> (nat \<times> orchestrator) go" where
  "new_pipeline keys orc =
     go_bind (build_tag (tagBuilder orc) keys) (\<lambda>(tag, tb).
       Inr (length (pipelines orc),
            orc\<lparr>tagBuilder := tb,
              pipelines := pipelines orc @
                [\<lparr>pipeKeys = keys, workerID = str_join '','' keys, outputTag = tag, chanOpen = True, chanSent = []\<rparr>]\<rparr>))"

text \<open>\<open>GlobalCachedMap.getOrCreate\<close>, under the mutex.\<close>

definition get_or_create_global :: "bytes list \<Rightarrow> bytes \<Rightarrow> orchestrator \<Rightarrow> (nat \<times> orchestrator) go" where
  "get_or_create_global keys mergedKey orc =
     (case map_of (globalMap orc) mergedKey of
        Some ch \<Rightarrow> Inr (ch, orc)
      | None \<Rightarrow> go_bind (new_pipeline keys orc) (\<lambda>(ch, orc).
          Inr (ch, orc\<lparr>globalMap := (mergedKey, ch) # globalMap orc\<rparr>)))"

text \<open>\<open>LocalCachedMap.GetOrCreate\<close>: keys are merged without a separator.\<close>

definition get_or_create_local ::
  "bytes list \<Rightarrow> gotime \<Rightarrow> (bytes \<times> input_buffer) list \<Rightarrow> orchestrator \<Rightarrow>
     (bytes \<times> input_buffer \<times> (bytes \<times> input_buffer) list \<times> orchestrator) go" where
  "get_or_create_local tempKeys now lm orc =
     (let merged = concat tempKeys in
      case map_of lm merged of
        Some cache \<Rightarrow> Inr (merged, cache, lm, orc)
      | None \<Rightarrow> go_bind (get_or_create_global tempKeys merged orc) (\<lambda>(ch, orc).
          let cache = new_input_buffer ch now in Inr (merged, cache, (merged, cache) # lm, orc)))"

section \<open>Construction\<close>

text \<open>
  Pipelines for the queues left on disk: IDs that do not split into as many keys as configured are
  ignored.
\<close>

fun create_initial ::
  "nat \<Rightarrow> gotime \<Rightarrow> bytes list \<Rightarrow> (bytes \<times> input_buffer) list \<Rightarrow> orchestrator \<Rightarrow> orchestrator go" where
  "create_initial numKeys now [] lm orc = Inr orc"
| "create_initial numKeys now (pid # pids) lm orc =
     (let keys = str_split CHR '','' pid in
      if length keys \<noteq> numKeys then create_initial numKeys now pids lm orc
      else go_bind (get_or_create_local keys now lm orc) (\<lambda>(_, _, lm, orc). create_initial numKeys now pids lm orc))"

definition new_orchestrator ::
  "log_schema \<Rightarrow> bytes list \<Rightarrow> bytes \<Rightarrow> bytes list \<Rightarrow> gotime \<Rightarrow> orchestrator go" where
  "new_orchestrator schema keyFields tagTemplate initialIDs now =
     (case create_field_locators schema keyFields of
        Inl e \<Rightarrow> Inl (LoggerPanic ''keyFields'')
      | Inr locs \<Rightarrow>
          go_bind (new_tag_builder tagTemplate keyFields) (\<lambda>r.
            case r of
              Inl e \<Rightarrow> Inl (LoggerPanic ''tagTemplate'')
            | Inr tb \<Rightarrow>
                create_initial (length keyFields) now initialIDs []
                  \<lparr>keyLocators = locs, tagBuilder = tb, globalMap = [], pipelines = [], orchSinks = [],
                   destroyed = False, timedOut = False\<rparr>))"

definition verify_keyset_config :: "log_schema \<Rightarrow> bytes list \<Rightarrow> bytes \<Rightarrow> bytes list cfg go" where
  "verify_keyset_config schema keys tagTemplate =
     (if keys = [] then Inr (Inl (EmptyList ''keys''))
      else case create_field_locators schema keys of
             Inl e \<Rightarrow> Inr (Inl e)
           | Inr _ \<Rightarrow>
               if tagTemplate = [] then Inr (Inl (Unspecified ''tag''))
               else go_bind (new_tag_builder tagTemplate keys) (\<lambda>r.
                 Inr (case r of Inl e \<Rightarrow> Inl e | Inr _ \<Rightarrow> Inr keys)))"

section \<open>Steps\<close>

datatype orch_event =
    NewSink
  | AcceptLogs nat gotime "log_record list"
  | TakeLog nat gotime
  | SendLogs nat bool
  | TickSink nat gotime "bytes list"
  | CloseSink nat gotime "bytes list"
  | DestroyMap

definition new_orch_sink :: orch_sink where
  "new_orch_sink = \<lparr>localMap = [], todo = [], flushing = [], callTime = 0, sinkClosed = False, takenLog = []\<rparr>"

definition put_sink :: "nat \<Rightarrow> orch_sink \<Rightarrow> orchestrator \<Rightarrow> orchestrator" where
  "put_sink i s orc = orc\<lparr>orchSinks := (orchSinks orc)[i := s]\<rparr>"

definition sink_idle :: "orch_sink \<Rightarrow> bool" where
  "sink_idle s = (todo s = [] \<and> flushing s = [] \<and> \<not> sinkClosed s)"

text \<open>One record of a call of \<open>Accept\<close>.\<close>

definition take_log :: "nat \<Rightarrow> gotime \<Rightarrow> log_record \<Rightarrow> orch_sink \<Rightarrow> orchestrator \<Rightarrow> orchestrator go" where
  "take_log i now r s orc =
     go_bind (extract_field_set (keyLocators orc) r) (\<lambda>tempKeySet.
     go_bind (get_or_create_local tempKeySet now (localMap s) orc) (\<lambda>(merged, cache, lm, orc).
       let (full, cache) = append_log r cache in
       Inr (put_sink i (s\<lparr>localMap := AList.update merged cache lm, todo := tl (todo s),
                          flushing := (if full then [merged] else []), takenLog := takenLog s @ [r]\<rparr>) orc)))"

text \<open>The next buffer to be flushed: it is emptied, and its copy sent or, after a minute, dropped.\<close>

definition send_logs :: "nat \<Rightarrow> bool \<Rightarrow> bytes \<Rightarrow> bytes list \<Rightarrow> orch_sink \<Rightarrow> orchestrator \<Rightarrow> orchestrator go" where
  "send_logs i ok k ks s orc =
     (case map_of (localMap s) k of
        None \<Rightarrow> Inl NilDereference
      | Some cache \<Rightarrow>
          let (batch, cache') = flush_logs (callTime s) cache;
              p = pipelines orc ! channelOf cache;
              orc = put_sink i (s\<lparr>localMap := AList.update k cache' (localMap s), flushing := ks\<rparr>) orc in
          if \<not> chanOpen p then Inl SendOnClosedChannel
          else if ok then Inr (orc\<lparr>pipelines := (pipelines orc)[channelOf cache := p\<lparr>chanSent := chanSent p @ [(i, batch)]\<rparr>]\<rparr>)
          else Inr (orc\<lparr>timedOut := True\<rparr>))"

text \<open>The buffers a walk over all of them selects for flushing.\<close>

definition flush_all :: "bool \<Rightarrow> gotime \<Rightarrow> bytes list \<Rightarrow> orch_sink \<Rightarrow> bytes list" where
  "flush_all forceAll now order s =
     filter (\<lambda>k. case map_of (localMap s) k of
         None \<Rightarrow> False
       | Some cache \<Rightarrow> pendingLogs cache \<noteq> [] \<and>
           (forceAll \<or> \<not> now - lastFlushTime cache < IntermediateFlushInterval)) order"

definition walk_order :: "bytes list \<Rightarrow> orch_sink \<Rightarrow> bool" where
  "walk_order order s = (distinct order \<and> set order = fst ` set (localMap s))"

definition with_sink :: "nat \<Rightarrow> orchestrator \<Rightarrow> (orch_sink \<Rightarrow> orchestrator go option) \<Rightarrow> orchestrator go option" where
  "with_sink i orc f = (if i < length (orchSinks orc) then f (orchSinks orc ! i) else None)"

text \<open>\<open>Destroy\<close> closes the channels (and waits for the workers).\<close>

definition destroy_map :: "orchestrator \<Rightarrow> orchestrator" where
  "destroy_map orc = orc\<lparr>pipelines := map (\<lambda>p. p\<lparr>chanOpen := False\<rparr>) (pipelines orc), destroyed := True\<rparr>"

text \<open>\<^term>\<open>None\<close>: the event is not possible here. A sink is not called after \<open>Close\<close>.\<close>

fun orch_step :: "orch_event \<Rightarrow> orchestrator \<Rightarrow> orchestrator go option" where
  "orch_step NewSink orc = Some (Inr (orc\<lparr>orchSinks := orchSinks orc @ [new_orch_sink]\<rparr>))"
| "orch_step (AcceptLogs i now logs) orc = with_sink i orc (\<lambda>s.
     if sink_idle s then Some (Inr (put_sink i (s\<lparr>todo := logs, callTime := now\<rparr>) orc)) else None)"
| "orch_step (TakeLog i now) orc = with_sink i orc (\<lambda>s.
     case todo s of
       [] \<Rightarrow> None
     | r # _ \<Rightarrow> if flushing s = [] then Some (take_log i now r s orc) else None)"
| "orch_step (SendLogs i ok) orc = with_sink i orc (\<lambda>s.
     case flushing s of [] \<Rightarrow> None | k # ks \<Rightarrow> Some (send_logs i ok k ks s orc))"
| "orch_step (TickSink i now order) orc = with_sink i orc (\<lambda>s.
     if sink_idle s \<and> walk_order order s
     then Some (Inr (put_sink i (s\<lparr>flushing := flush_all False now order s, callTime := now\<rparr>) orc)) else None)"
| "orch_step (CloseSink i now order) orc = with_sink i orc (\<lambda>s.
     if sink_idle s \<and> walk_order order s
     then Some (Inr (put_sink i (s\<lparr>flushing := flush_all True now order s, callTime := now, sinkClosed := True\<rparr>) orc)) else None)"
| "orch_step DestroyMap orc =
     (if destroyed orc then None
      else Some (Inr (destroy_map orc)))"

fun orch_run :: "orch_event list \<Rightarrow> orchestrator \<Rightarrow> orchestrator option" where
  "orch_run [] orc = Some orc"
| "orch_run (e # es) orc =
     (case orch_step e orc of Some (Inr orc) \<Rightarrow> orch_run es orc | _ \<Rightarrow> None)"

inductive orch_reachable :: "log_schema \<Rightarrow> bytes list \<Rightarrow> bytes \<Rightarrow> orchestrator \<Rightarrow> bool"
  for schema keyFields tagTemplate where
  start: "new_orchestrator schema keyFields tagTemplate initialIDs now = Inr orc \<Longrightarrow>
    orch_reachable schema keyFields tagTemplate orc"
| step: "orch_reachable schema keyFields tagTemplate orc \<Longrightarrow> orch_step e orc = Some (Inr orc') \<Longrightarrow>
    orch_reachable schema keyFields tagTemplate orc'"

section \<open>The maps agree\<close>

definition merged_key :: "orchestrator \<Rightarrow> log_record \<Rightarrow> bytes" where
  "merged_key orc r = (case extract_field_set (keyLocators orc) r of Inr ks \<Rightarrow> concat ks | Inl _ \<Rightarrow> [])"

text \<open>One pipeline for each merged key, with the ID made from its key set.\<close>

definition global_ok :: "orchestrator \<Rightarrow> bool" where
  "global_ok orc \<longleftrightarrow>
     (\<forall>m n. map_of (globalMap orc) m = Some n \<longleftrightarrow>
        n < length (pipelines orc) \<and> concat (pipeKeys (pipelines orc ! n)) = m) \<and>
     list_all (\<lambda>p. workerID p = str_join '','' (pipeKeys p)) (pipelines orc)"

lemma global_ok_index:
  "global_ok orc \<Longrightarrow> map_of (globalMap orc) m = Some n \<Longrightarrow>
    n < length (pipelines orc) \<and> concat (pipeKeys (pipelines orc ! n)) = m"
  unfolding global_ok_def by blast

text \<open>Adding pipelines changes nothing else.\<close>

definition extends :: "orchestrator \<Rightarrow> orchestrator \<Rightarrow> bool" where
  "extends a b \<longleftrightarrow> keyLocators b = keyLocators a \<and> orchSinks b = orchSinks a \<and> timedOut b = timedOut a \<and>
     destroyed b = destroyed a \<and> tagExpander (tagBuilder b) = tagExpander (tagBuilder a) \<and>
     map_of (globalMap a) \<subseteq>\<^sub>m map_of (globalMap b) \<and>
     (\<exists>ps. pipelines b = pipelines a @ ps \<and> list_all (\<lambda>p. chanSent p = []) ps)"

lemma extends_refl: "extends a a"
  by (simp add: extends_def)

lemma extends_trans: "extends a b \<Longrightarrow> extends b c \<Longrightarrow> extends a c"
  unfolding extends_def by (force intro: map_le_trans)

lemma build_tag_keeps: "build_tag tb keys = Inr (tag, tb') \<Longrightarrow> tagExpander tb' = tagExpander tb"
  by (auto simp: build_tag_def go_bind_eq_Inr)

lemma get_or_create_global_ok:
  assumes "get_or_create_global keys (concat keys) orc = Inr (ch, orc')" and "global_ok orc"
  shows "global_ok orc' \<and> extends orc orc' \<and> map_of (globalMap orc') (concat keys) = Some ch"
proof (cases "map_of (globalMap orc) (concat keys)")
  case (Some n)
  then show ?thesis using assms by (simp add: get_or_create_global_def extends_refl)
next
  case None
  obtain tag tb where t: "build_tag (tagBuilder orc) keys = Inr (tag, tb)"
    using assms(1) None by (auto simp: get_or_create_global_def new_pipeline_def go_bind_eq_Inr)
  let ?p = "\<lparr>pipeKeys = keys, workerID = str_join '','' keys, outputTag = tag, chanOpen = True, chanSent = []\<rparr>"
  have orc': "orc' = orc\<lparr>tagBuilder := tb, pipelines := pipelines orc @ [?p],
      globalMap := (concat keys, length (pipelines orc)) # globalMap orc\<rparr>" "ch = length (pipelines orc)"
    using assms(1) None t by (auto simp: get_or_create_global_def new_pipeline_def)
  have g: "map_of (globalMap orc) m = Some n \<longleftrightarrow>
      n < length (pipelines orc) \<and> concat (pipeKeys (pipelines orc ! n)) = m" for m n
    using assms(2) by (auto simp: global_ok_def)
  have no: "n < length (pipelines orc) \<Longrightarrow> concat (pipeKeys (pipelines orc ! n)) \<noteq> concat keys" for n
    using g[of "concat keys" n] None by simp
  have "map_of (globalMap orc') m = Some n \<longleftrightarrow>
      n < length (pipelines orc') \<and> concat (pipeKeys (pipelines orc' ! n)) = m" for m n
    using g[of m n] no[of n] by (auto simp: orc' nth_append less_Suc_eq)
  moreover have "list_all (\<lambda>p. workerID p = str_join '','' (pipeKeys p)) (pipelines orc')"
    using assms(2) by (simp add: orc' global_ok_def)
  moreover have "extends orc orc'"
    using None build_tag_keeps[OF t] by (auto simp: extends_def orc' map_le_def)
  ultimately show ?thesis by (simp add: global_ok_def orc')
qed

text \<open>What a sink knows: its buffers point to the pipelines of their keys.\<close>

definition links_ok :: "orchestrator \<Rightarrow> (bytes \<times> input_buffer) list \<Rightarrow> bool" where
  "links_ok orc lm \<longleftrightarrow> distinct (map fst lm) \<and>
     (\<forall>m b. map_of lm m = Some b \<longrightarrow> map_of (globalMap orc) m = Some (channelOf b))"

lemma links_ok_extends: "links_ok a lm \<Longrightarrow> extends a b \<Longrightarrow> links_ok b lm"
  by (auto simp: links_ok_def extends_def map_le_def dom_def)

definition pending_in :: "(bytes \<times> input_buffer) list \<Rightarrow> bytes \<Rightarrow> log_record list" where
  "pending_in lm m = (case map_of lm m of None \<Rightarrow> [] | Some b \<Rightarrow> pendingLogs b)"

lemma get_or_create_local_ok:
  assumes "get_or_create_local keys now lm orc = Inr (merged, cache, lm', orc')"
    and "global_ok orc" and "links_ok orc lm"
  shows "global_ok orc' \<and> extends orc orc' \<and> links_ok orc' lm' \<and> merged = concat keys \<and>
    map_of lm' merged = Some cache \<and> fst ` set lm \<subseteq> fst ` set lm' \<and>
    (\<forall>m. pending_in lm' m = pending_in lm m) \<and> (\<forall>m. m \<noteq> merged \<longrightarrow> map_of lm' m = map_of lm m)"
proof (cases "map_of lm (concat keys)")
  case (Some b)
  then show ?thesis using assms by (auto simp: get_or_create_local_def extends_refl)
next
  case None
  obtain ch where c: "get_or_create_global keys (concat keys) orc = Inr (ch, orc')" "merged = concat keys"
    "cache = new_input_buffer ch now" "lm' = (concat keys, cache) # lm"
    using assms(1) None by (auto simp: get_or_create_local_def Let_def go_bind_eq_Inr)
  have g: "global_ok orc'" "extends orc orc'" "map_of (globalMap orc') (concat keys) = Some ch"
    using get_or_create_global_ok[OF c(1) assms(2)] by auto
  have l: "links_ok orc' lm" using assms(3) g(2) by (rule links_ok_extends)
  have "concat keys \<notin> fst ` set lm" using None by (simp add: map_of_eq_None_iff)
  then show ?thesis using g l None
    by (auto simp: c(2-4) links_ok_def pending_in_def new_input_buffer_def split: if_splits)
qed

section \<open>The invariant\<close>

definition sent_by :: "nat \<Rightarrow> pipeline \<Rightarrow> log_record list" where
  "sent_by i p = concat (map snd (filter (\<lambda>x. fst x = i) (chanSent p)))"

text \<open>What sink \<open>i\<close> has sent to the pipeline of a merged key.\<close>

definition passed_of :: "orchestrator \<Rightarrow> nat \<Rightarrow> bytes \<Rightarrow> log_record list" where
  "passed_of orc i m = (case map_of (globalMap orc) m of None \<Rightarrow> [] | Some n \<Rightarrow> sent_by i (pipelines orc ! n))"

definition flow_ok :: "orchestrator \<Rightarrow> nat \<Rightarrow> orch_sink \<Rightarrow> bool" where
  "flow_ok orc i s \<longleftrightarrow>
     (\<forall>m. passed_of orc i m @ pending_in (localMap s) m = filter (\<lambda>r. merged_key orc r = m) (takenLog s))"

definition sink_ok :: "orchestrator \<Rightarrow> orch_sink \<Rightarrow> bool" where
  "sink_ok orc s \<longleftrightarrow> links_ok orc (localMap s) \<and> distinct (flushing s) \<and>
     (\<forall>m\<in>set (flushing s). pending_in (localMap s) m \<noteq> []) \<and>
     (\<forall>m. length (pending_in (localMap s) m) \<le> IntermediateBufferMaxNumLogs) \<and>
     (\<forall>m. m \<notin> set (flushing s) \<longrightarrow> length (pending_in (localMap s) m) < IntermediateBufferMaxNumLogs) \<and>
     (sinkClosed s \<longrightarrow> todo s = [] \<and> (\<forall>m. pending_in (localMap s) m \<noteq> [] \<longrightarrow> m \<in> set (flushing s)))"

definition batches_ok :: "orchestrator \<Rightarrow> bool" where
  "batches_ok orc \<longleftrightarrow> (\<forall>p\<in>set (pipelines orc). \<forall>(j, b)\<in>set (chanSent p).
     j < length (orchSinks orc) \<and> b \<noteq> [] \<and> length b \<le> IntermediateBufferMaxNumLogs)"

definition orch_ok :: "orchestrator \<Rightarrow> bool" where
  "orch_ok orc \<longleftrightarrow> global_ok orc \<and> batches_ok orc \<and>
     (\<forall>i<length (orchSinks orc). sink_ok orc (orchSinks orc ! i) \<and>
        (\<not> timedOut orc \<longrightarrow> flow_ok orc i (orchSinks orc ! i)))"

lemma merged_key_extends: "extends a b \<Longrightarrow> merged_key b r = merged_key a r"
  by (simp add: merged_key_def extends_def)

lemma passed_of_extends:
  assumes "extends a b" and "global_ok a" and "global_ok b"
  shows "passed_of b i m = passed_of a i m"
proof (cases "map_of (globalMap b) m")
  case None
  then have "map_of (globalMap a) m = None" using assms(1) by (auto simp: extends_def map_le_def dom_def)
  then show ?thesis using None by (simp add: passed_of_def)
next
  case (Some n)
  obtain ps where ps: "pipelines b = pipelines a @ ps" "list_all (\<lambda>p. chanSent p = []) ps"
    using assms(1) by (auto simp: extends_def)
  have n: "n < length (pipelines b)" "concat (pipeKeys (pipelines b ! n)) = m"
    using assms(3) Some by (auto simp: global_ok_def)
  show ?thesis
  proof (cases "n < length (pipelines a)")
    case True
    then have "map_of (globalMap a) m = Some n"
      using assms(2) n(2) ps(1) by (auto simp: global_ok_def nth_append)
    then show ?thesis using Some True ps(1) by (simp add: passed_of_def nth_append)
  next
    case False
    then have "map_of (globalMap a) m \<noteq> Some k" for k
      using assms(1) Some \<open>global_ok a\<close> unfolding extends_def map_le_def global_ok_def by (metis domI option.inject)
    then have "map_of (globalMap a) m = None" by (cases "map_of (globalMap a) m") auto
    moreover have "chanSent (pipelines b ! n) = []"
      using False n(1) ps by (simp add: nth_append list_all_length)
    ultimately show ?thesis using Some by (simp add: passed_of_def sent_by_def)
  qed
qed

lemma flow_ok_extends:
  "flow_ok a i s \<Longrightarrow> extends a b \<Longrightarrow> global_ok a \<Longrightarrow> global_ok b \<Longrightarrow> flow_ok b i s"
  by (simp add: flow_ok_def passed_of_extends merged_key_extends)

lemma sink_ok_extends: "sink_ok a s \<Longrightarrow> extends a b \<Longrightarrow> sink_ok b s"
  using links_ok_extends by (auto simp: sink_ok_def)

lemma orch_ok_extends:
  assumes "orch_ok a" and "extends a b" and "global_ok b"
  shows "orch_ok b"
proof -
  have g: "global_ok a" using assms(1) by (simp add: orch_ok_def)
  obtain ps where "pipelines b = pipelines a @ ps" "list_all (\<lambda>p. chanSent p = []) ps"
    using assms(2) by (auto simp: extends_def)
  then have "batches_ok b"
    using assms(1,2) by (auto simp: orch_ok_def batches_ok_def extends_def list_all_iff)
  then show ?thesis
    using assms sink_ok_extends[OF _ assms(2)] flow_ok_extends[OF _ assms(2) g assms(3)]
    by (auto simp: orch_ok_def extends_def)
qed

text \<open>Replacing one sink.\<close>

lemma put_sink_simps [simp]:
  "keyLocators (put_sink i s orc) = keyLocators orc" "globalMap (put_sink i s orc) = globalMap orc"
  "pipelines (put_sink i s orc) = pipelines orc" "timedOut (put_sink i s orc) = timedOut orc"
  "tagBuilder (put_sink i s orc) = tagBuilder orc" "destroyed (put_sink i s orc) = destroyed orc"
  "orchSinks (put_sink i s orc) = (orchSinks orc)[i := s]"
  "merged_key (put_sink i s orc) = merged_key orc" "passed_of (put_sink i s orc) = passed_of orc"
  by (auto simp: put_sink_def merged_key_def passed_of_def fun_eq_iff split: option.split)

lemma put_sink_ok:
  assumes "orch_ok orc" and "sink_ok orc s" and "\<not> timedOut orc \<Longrightarrow> flow_ok orc i s"
  shows "orch_ok (put_sink i s orc)"
proof -
  have "sink_ok (put_sink i s orc) t = sink_ok orc t" "flow_ok (put_sink i s orc) j t = flow_ok orc j t" for j t
    by (simp_all add: sink_ok_def links_ok_def flow_ok_def)
  moreover have "sink_ok orc ((orchSinks orc)[i := s] ! j) \<and> (\<not> timedOut orc \<longrightarrow> flow_ok orc j ((orchSinks orc)[i := s] ! j))"
    if "j < length (orchSinks orc)" for j
    using that assms by (cases "j = i") (auto simp: orch_ok_def)
  ultimately show ?thesis using assms
    by (simp add: orch_ok_def global_ok_def batches_ok_def)
qed

section \<open>Every step keeps the invariant\<close>

lemma orch_ok_sink: "orch_ok orc \<Longrightarrow> i < length (orchSinks orc) \<Longrightarrow> sink_ok orc (orchSinks orc ! i)"
  by (simp add: orch_ok_def)

lemma orch_ok_flow: "orch_ok orc \<Longrightarrow> i < length (orchSinks orc) \<Longrightarrow> \<not> timedOut orc \<Longrightarrow> flow_ok orc i (orchSinks orc ! i)"
  by (simp add: orch_ok_def)

lemma pending_in_update: "pending_in (AList.update k b lm) m = (if m = k then pendingLogs b else pending_in lm m)"
  by (simp add: pending_in_def update_conv)

lemma links_ok_update:
  "links_ok orc lm \<Longrightarrow> map_of lm k = Some b \<Longrightarrow> channelOf b' = channelOf b \<Longrightarrow> links_ok orc (AList.update k b' lm)"
  by (auto simp: links_ok_def update_conv distinct_update)

text \<open>A step that changes only where the sink is in a call.\<close>

lemma idle_step_ok:
  assumes "orch_ok orc" and "i < length (orchSinks orc)" and "s = orchSinks orc ! i" and "sink_idle s"
    and "set (flushing s') \<subseteq> {m. pending_in (localMap s) m \<noteq> []}" and "distinct (flushing s')"
    and "localMap s' = localMap s" and "takenLog s' = takenLog s"
    and "sinkClosed s' \<longrightarrow> todo s' = [] \<and> (\<forall>m. pending_in (localMap s) m \<noteq> [] \<longrightarrow> m \<in> set (flushing s'))"
  shows "orch_ok (put_sink i s' orc)"
proof (rule put_sink_ok[OF assms(1)])
  show "sink_ok orc s'" using orch_ok_sink[OF assms(1,2)] assms(3-9) by (auto simp: sink_ok_def sink_idle_def)
  show "flow_ok orc i s'" if "\<not> timedOut orc"
    using orch_ok_flow[OF assms(1,2) that] assms(3,7,8) by (simp add: flow_ok_def)
qed

lemma append_log_ok:
  "append_log r b = (full, b') \<Longrightarrow> pendingLogs b' = pendingLogs b @ [r] \<and> channelOf b' = channelOf b \<and>
    (\<not> full \<longrightarrow> length (pendingLogs b') < IntermediateBufferMaxNumLogs)"
  by (auto simp: append_log_def Let_def)

lemma take_log_ok:
  assumes ok: "orch_ok orc" and i: "i < length (orchSinks orc)" and s: "s = orchSinks orc ! i"
    and td: "todo s = r # rest" and fl: "flushing s = []" and step: "take_log i now r s orc = Inr orc'"
  shows "orch_ok orc'"
proof -
  have so: "sink_ok orc s" using orch_ok_sink[OF ok i] s by simp
  obtain keys where keys: "extract_field_set (keyLocators orc) r = Inr keys"
    using step by (auto simp: take_log_def go_bind_eq_Inr)
  obtain merged cache lm orc1 where g: "get_or_create_local keys now (localMap s) orc = Inr (merged, cache, lm, orc1)"
    using step keys by (auto simp: take_log_def go_bind_eq_Inr)
  obtain full cache' where a: "append_log r cache = (full, cache')" by (metis surj_pair)
  have glob: "global_ok orc" "links_ok orc (localMap s)" using ok so by (auto simp: orch_ok_def sink_ok_def)
  have c: "global_ok orc1" "extends orc orc1" "links_ok orc1 lm" "merged = concat keys" "map_of lm merged = Some cache"
    "\<forall>m. pending_in lm m = pending_in (localMap s) m"
    using get_or_create_local_ok[OF g glob] by auto
  let ?s = "s\<lparr>localMap := AList.update merged cache' lm, todo := tl (todo s),
      flushing := (if full then [merged] else []), takenLog := takenLog s @ [r]\<rparr>"
  have orc': "orc' = put_sink i ?s orc1" using step keys g a by (simp add: take_log_def)
  have ok1: "orch_ok orc1" using ok c(2,1) by (rule orch_ok_extends)
  have al: "pendingLogs cache' = pendingLogs cache @ [r]" "channelOf cache' = channelOf cache"
    "\<not> full \<longrightarrow> length (pendingLogs cache') < IntermediateBufferMaxNumLogs"
    using append_log_ok[OF a] by auto
  have pc: "pendingLogs cache = pending_in (localMap s) merged" using c(5,6) by (metis pending_in_def option.simps(5))
  have small: "length (pending_in (localMap s) m) < IntermediateBufferMaxNumLogs" for m
    using so fl by (simp add: sink_ok_def)
  have p': "pending_in (AList.update merged cache' lm) m =
      pending_in (localMap s) m @ (if m = merged then [r] else [])" for m
    using al(1) pc c(6) by (simp add: pending_in_update)
  have "sink_ok orc1 ?s"
  proof -
    have "links_ok orc1 (AList.update merged cache' lm)" using links_ok_update[OF c(3,5) al(2)] .
    moreover have "length (pending_in (localMap s) m @ (if m = merged then [r] else [])) \<le> IntermediateBufferMaxNumLogs" for m
      using small[of m] by (cases "m = merged") auto
    moreover have "length (pending_in (localMap s) m @ (if m = merged then [r] else [])) < IntermediateBufferMaxNumLogs"
      if "m \<notin> set (if full then [merged] else [])" for m
      using that small[of m] al(1,3) pc by (auto split: if_splits)
    moreover have "\<not> sinkClosed s" using so td by (auto simp: sink_ok_def)
    ultimately show ?thesis by (simp add: sink_ok_def p')
  qed
  moreover have "flow_ok orc1 i ?s" if "\<not> timedOut orc1"
  proof -
    have t: "\<not> timedOut orc" using that c(2) by (simp add: extends_def)
    have f: "flow_ok orc1 i s" using flow_ok_extends[OF orch_ok_flow[OF ok i t] c(2) glob(1) c(1)] s by simp
    have "merged_key orc1 r = merged" using merged_key_extends[OF c(2)] keys c(4) by (simp add: merged_key_def)
    then have "passed_of orc1 i m @ pending_in (localMap s) m @ (if m = merged then [r] else []) =
        filter (\<lambda>r. merged_key orc1 r = m) (takenLog s @ [r])" for m
      using f by (simp add: flow_ok_def)
    then show ?thesis by (simp add: flow_ok_def p')
  qed
  ultimately show ?thesis unfolding orc' using put_sink_ok[OF ok1] by blast
qed

text \<open>Sending a batch on a channel.\<close>

definition add_batch :: "nat \<Rightarrow> nat \<Rightarrow> log_record list \<Rightarrow> orchestrator \<Rightarrow> orchestrator" where
  "add_batch ch i batch orc =
     orc\<lparr>pipelines := (pipelines orc)[ch := (pipelines orc ! ch)\<lparr>chanSent := chanSent (pipelines orc ! ch) @ [(i, batch)]\<rparr>]\<rparr>"

lemma passed_of_add_batch:
  assumes "ch < length (pipelines orc)"
  shows "passed_of (add_batch ch i batch orc) j m =
    passed_of orc j m @ (if j = i \<and> map_of (globalMap orc) m = Some ch then batch else [])"
proof (cases "map_of (globalMap orc) m")
  case None
  then show ?thesis by (simp add: passed_of_def add_batch_def)
next
  case (Some n)
  then show ?thesis using assms by (cases "n = ch") (auto simp: passed_of_def add_batch_def sent_by_def)
qed

lemma add_batch_simps [simp]:
  "keyLocators (add_batch ch i batch orc) = keyLocators orc" "globalMap (add_batch ch i batch orc) = globalMap orc"
  "length (pipelines (add_batch ch i batch orc)) = length (pipelines orc)"
  "orchSinks (add_batch ch i batch orc) = orchSinks orc" "timedOut (add_batch ch i batch orc) = timedOut orc"
  "merged_key (add_batch ch i batch orc) = merged_key orc"
  by (simp_all add: add_batch_def merged_key_def fun_eq_iff)

lemma add_batch_nth:
  "pipelines (add_batch ch i batch orc) ! n =
    (if n = ch \<and> ch < length (pipelines orc)
     then (pipelines orc ! ch)\<lparr>chanSent := chanSent (pipelines orc ! ch) @ [(i, batch)]\<rparr>
     else pipelines orc ! n)"
proof (cases "ch < length (pipelines orc)")
  case False
  then show ?thesis by (simp add: add_batch_def list_update_beyond)
qed (auto simp: add_batch_def)

lemma add_batch_keys:
  "pipeKeys (pipelines (add_batch ch i batch orc) ! n) = pipeKeys (pipelines orc ! n)"
  "workerID (pipelines (add_batch ch i batch orc) ! n) = workerID (pipelines orc ! n)"
  by (auto simp: add_batch_nth)

lemma global_ok_add_batch: "global_ok orc \<Longrightarrow> global_ok (add_batch ch i batch orc)"
  by (simp add: global_ok_def list_all_length add_batch_keys)

lemma orch_ok_add_batch:
  assumes "orch_ok orc" and "i < length (orchSinks orc)" and "batch \<noteq> []" and "length batch \<le> IntermediateBufferMaxNumLogs"
    and "ch < length (pipelines orc)"
    and "sink_ok (add_batch ch i batch orc) s"
    and "\<not> timedOut orc \<Longrightarrow> flow_ok (add_batch ch i batch orc) i s"
  shows "orch_ok (put_sink i s (add_batch ch i batch orc))"
proof -
  let ?o = "put_sink i s (add_batch ch i batch orc)"
  have g: "global_ok orc" using assms(1) by (simp add: orch_ok_def)
  have "global_ok ?o" using global_ok_add_batch[OF g] by (simp add: global_ok_def)
  moreover have "batches_ok ?o"
  proof -
    have b: "\<forall>(j, b)\<in>set (chanSent (pipelines orc ! n)). j < length (orchSinks orc) \<and> b \<noteq> [] \<and> length b \<le> IntermediateBufferMaxNumLogs"
      if "n < length (pipelines orc)" for n
      using assms(1) that by (auto simp: orch_ok_def batches_ok_def)
    have "\<forall>(j, b)\<in>set (chanSent (pipelines ?o ! n)). j < length (orchSinks orc) \<and> b \<noteq> [] \<and> length b \<le> IntermediateBufferMaxNumLogs"
      if "n < length (pipelines orc)" for n
      using b[OF that] assms(2-5) by (auto simp: add_batch_nth)
    then have "\<forall>p\<in>set (pipelines ?o). \<forall>(j, b)\<in>set (chanSent p). j < length (orchSinks orc) \<and> b \<noteq> [] \<and>
        length b \<le> IntermediateBufferMaxNumLogs"
      unfolding all_set_conv_all_nth by simp
    then show ?thesis by (simp add: batches_ok_def)
  qed
  moreover have "sink_ok ?o (orchSinks ?o ! j) \<and> (\<not> timedOut ?o \<longrightarrow> flow_ok ?o j (orchSinks ?o ! j))"
    if j: "j < length (orchSinks orc)" for j
  proof -
    have eq: "sink_ok ?o t = sink_ok (add_batch ch i batch orc) t" "flow_ok ?o j t = flow_ok (add_batch ch i batch orc) j t" for t
      by (simp_all add: sink_ok_def links_ok_def flow_ok_def)
    show ?thesis
    proof (cases "j = i")
      case True
      then show ?thesis using assms(2,6,7) eq by simp
    next
      case False
      have "sink_ok (add_batch ch i batch orc) (orchSinks orc ! j)"
        using orch_ok_sink[OF assms(1) j] by (simp add: sink_ok_def links_ok_def)
      moreover have "flow_ok (add_batch ch i batch orc) j (orchSinks orc ! j)" if "\<not> timedOut orc"
        using orch_ok_flow[OF assms(1) j that] False by (simp add: flow_ok_def passed_of_add_batch[OF assms(5)])
      ultimately show ?thesis using False eq by simp
    qed
  qed
  ultimately show ?thesis by (simp add: orch_ok_def)
qed

lemma send_logs_ok:
  assumes ok: "orch_ok orc" and i: "i < length (orchSinks orc)" and s: "s = orchSinks orc ! i"
    and fl: "flushing s = k # ks" and step: "send_logs i sent k ks s orc = Inr orc'"
  shows "orch_ok orc'"
proof -
  have so: "sink_ok orc s" using orch_ok_sink[OF ok i] s by simp
  have pk: "pending_in (localMap s) k \<noteq> []" using so fl by (simp add: sink_ok_def)
  obtain b where b: "map_of (localMap s) k = Some b" using pk by (auto simp: pending_in_def split: option.splits)
  let ?b = "b\<lparr>pendingLogs := [], pendingBytes := 0, lastFlushTime := callTime s\<rparr>"
  let ?s = "s\<lparr>localMap := AList.update k ?b (localMap s), flushing := ks\<rparr>"
  have batch: "pendingLogs b = pending_in (localMap s) k" using b by (simp add: pending_in_def)
  have gm: "map_of (globalMap orc) k = Some (channelOf b)" using so b by (auto simp: sink_ok_def links_ok_def)
  have ch: "channelOf b < length (pipelines orc)" using gm ok by (auto simp: orch_ok_def global_ok_def)
  have len: "length (pendingLogs b) \<le> IntermediateBufferMaxNumLogs" using so batch by (simp add: sink_ok_def)
  have links: "links_ok orc (AList.update k ?b (localMap s))"
    using so b by (intro links_ok_update) (auto simp: sink_ok_def)
  have p': "pending_in (AList.update k ?b (localMap s)) m = (if m = k then [] else pending_in (localMap s) m)" for m
    by (simp add: pending_in_update)
  have small: "0 < IntermediateBufferMaxNumLogs" by (simp add: IntermediateBufferMaxNumLogs_def)
  have sink: "sink_ok a ?s" if "globalMap a = globalMap orc" for a
    using so links fl that small by (auto simp: sink_ok_def links_ok_def p')
  show ?thesis
  proof (cases sent)
    case True
    have orc': "orc' = put_sink i ?s (add_batch (channelOf b) i (pendingLogs b) orc)"
      using step b True by (auto simp: send_logs_def flush_logs_def Let_def add_batch_def put_sink_def split: if_splits)
    have "flow_ok (add_batch (channelOf b) i (pendingLogs b) orc) i ?s" if t: "\<not> timedOut orc"
    proof -
      have inj: "map_of (globalMap orc) m = Some (channelOf b) \<longleftrightarrow> m = k" for m
        using gm ok by (auto simp: orch_ok_def global_ok_def)
      have "passed_of orc i m @ pending_in (localMap s) m = filter (\<lambda>r. merged_key orc r = m) (takenLog s)" for m
        using orch_ok_flow[OF ok i t] s by (simp add: flow_ok_def)
      then show ?thesis by (simp add: flow_ok_def passed_of_add_batch[OF ch] inj p' batch)
    qed
    then show ?thesis unfolding orc' using pk batch len ch
      by (intro orch_ok_add_batch[OF ok i]) (simp_all add: sink)
  next
    case False
    have orc': "orc' = put_sink i ?s (orc\<lparr>timedOut := True\<rparr>)"
      using step b False by (auto simp: send_logs_def flush_logs_def Let_def put_sink_def split: if_splits)
    have "orch_ok (orc\<lparr>timedOut := True\<rparr>)"
      using ok by (auto simp: orch_ok_def global_ok_def batches_ok_def sink_ok_def links_ok_def)
    then show ?thesis unfolding orc' by (rule put_sink_ok) (simp_all add: sink)
  qed
qed

lemma close_channels_ok:
  assumes "orch_ok orc"
  shows "orch_ok (destroy_map orc)"
proof -
  let ?o = "orc\<lparr>pipelines := map (\<lambda>p. p\<lparr>chanOpen := False\<rparr>) (pipelines orc), destroyed := True\<rparr>"
  have g: "global_ok orc" using assms by (simp add: orch_ok_def)
  have "global_ok ?o" using g by (auto simp: global_ok_def list_all_iff)
  moreover have "passed_of ?o i m = passed_of orc i m" for i m
  proof (cases "map_of (globalMap orc) m")
    case (Some n)
    then show ?thesis using global_ok_index[OF g Some] by (simp add: passed_of_def sent_by_def)
  qed (simp add: passed_of_def)
  moreover have "merged_key ?o = merged_key orc" by (simp add: merged_key_def fun_eq_iff)
  ultimately show ?thesis using assms unfolding destroy_map_def
    by (auto simp: orch_ok_def batches_ok_def sink_ok_def links_ok_def flow_ok_def)
qed

lemma new_orch_sink_simps [simp]:
  "localMap new_orch_sink = []" "todo new_orch_sink = []" "flushing new_orch_sink = []"
  "sinkClosed new_orch_sink = False" "takenLog new_orch_sink = []"
  by (simp_all add: new_orch_sink_def)

lemma new_sink_ok:
  assumes "orch_ok orc"
  shows "orch_ok (orc\<lparr>orchSinks := orchSinks orc @ [new_orch_sink]\<rparr>)"
proof -
  let ?o = "orc\<lparr>orchSinks := orchSinks orc @ [new_orch_sink]\<rparr>"
  have keep: "passed_of ?o = passed_of orc" "merged_key ?o = merged_key orc"
    by (auto simp: passed_of_def merged_key_def fun_eq_iff split: option.split)
  have g: "global_ok orc" "batches_ok orc" using assms by (simp_all add: orch_ok_def)
  have "sent_by (length (orchSinks orc)) p = []" if "p \<in> set (pipelines orc)" for p
  proof -
    have "filter (\<lambda>x. fst x = length (orchSinks orc)) (chanSent p) = []"
      using g(2) that by (fastforce simp: batches_ok_def filter_empty_conv)
    then show ?thesis by (simp add: sent_by_def)
  qed
  then have "passed_of orc (length (orchSinks orc)) m = []" for m
    using global_ok_index[OF g(1)] by (auto simp: passed_of_def split: option.split)
  then have n: "flow_ok ?o (length (orchSinks orc)) new_orch_sink"
    by (simp add: flow_ok_def keep pending_in_def)
  have t: "sink_ok ?o new_orch_sink"
    by (simp add: sink_ok_def links_ok_def pending_in_def IntermediateBufferMaxNumLogs_def)
  have "sink_ok ?o (orchSinks ?o ! j) \<and> (\<not> timedOut ?o \<longrightarrow> flow_ok ?o j (orchSinks ?o ! j))"
    if "j < length (orchSinks ?o)" for j
  proof (cases "j = length (orchSinks orc)")
    case True
    then show ?thesis using n t by simp
  next
    case False
    then have j: "j < length (orchSinks orc)" using that by simp
    then show ?thesis using orch_ok_sink[OF assms j] orch_ok_flow[OF assms j]
      by (simp add: nth_append sink_ok_def links_ok_def flow_ok_def keep)
  qed
  moreover have "global_ok ?o" using g(1) by (simp add: global_ok_def)
  moreover have "batches_ok ?o" using g(2) by (fastforce simp: batches_ok_def)
  ultimately show ?thesis by (simp add: orch_ok_def)
qed

lemma orch_step_ok:
  assumes "orch_ok orc" and "orch_step e orc = Some (Inr orc')"
  shows "orch_ok orc'"
proof (cases e)
  case NewSink
  then show ?thesis using assms(2) new_sink_ok[OF assms(1)] by auto
next
  case (AcceptLogs i now logs)
  then have i: "i < length (orchSinks orc)" "sink_idle (orchSinks orc ! i)"
    and e: "orc' = put_sink i ((orchSinks orc ! i)\<lparr>todo := logs, callTime := now\<rparr>) orc"
    using assms(2) by (auto simp: with_sink_def split: if_splits)
  show ?thesis unfolding e using i
    by (intro idle_step_ok[OF assms(1) i(1) refl i(2)]) (auto simp: sink_idle_def)
next
  case (TakeLog i now)
  then obtain r rest where i: "i < length (orchSinks orc)" "todo (orchSinks orc ! i) = r # rest" "flushing (orchSinks orc ! i) = []"
    "take_log i now r (orchSinks orc ! i) orc = Inr orc'"
    using assms(2) by (auto simp: with_sink_def split: if_splits list.splits)
  then show ?thesis by (intro take_log_ok[OF assms(1) i(1) refl])
next
  case (SendLogs i ok)
  then obtain k ks where i: "i < length (orchSinks orc)" "flushing (orchSinks orc ! i) = k # ks"
    "send_logs i ok k ks (orchSinks orc ! i) orc = Inr orc'"
    using assms(2) by (auto simp: with_sink_def split: if_splits list.splits)
  then show ?thesis by (intro send_logs_ok[OF assms(1) i(1) refl])
next
  case (TickSink i now order)
  let ?s = "orchSinks orc ! i"
  from TickSink have i: "i < length (orchSinks orc)" "sink_idle ?s" "walk_order order ?s"
    and e: "orc' = put_sink i (?s\<lparr>flushing := flush_all False now order ?s, callTime := now\<rparr>) orc"
    using assms(2) by (auto simp: with_sink_def split: if_splits)
  show ?thesis unfolding e using i
    by (intro idle_step_ok[OF assms(1) i(1) refl i(2)])
      (auto simp: sink_idle_def flush_all_def walk_order_def pending_in_def split: option.splits)
next
  case (CloseSink i now order)
  let ?s = "orchSinks orc ! i"
  from CloseSink have i: "i < length (orchSinks orc)" "sink_idle ?s" "walk_order order ?s"
    and e: "orc' = put_sink i (?s\<lparr>flushing := flush_all True now order ?s, callTime := now, sinkClosed := True\<rparr>) orc"
    using assms(2) by (auto simp: with_sink_def split: if_splits)
  have "m \<in> set (flush_all True now order ?s)" if nz: "pending_in (localMap ?s) m \<noteq> []" for m
  proof -
    obtain b where b: "map_of (localMap ?s) m = Some b" "pendingLogs b \<noteq> []"
      using nz by (auto simp: pending_in_def split: option.splits)
    then have "m \<in> set order" using i(3) map_of_SomeD[OF b(1)] by (force simp: walk_order_def)
    then show ?thesis using b by (simp add: flush_all_def)
  qed
  then show ?thesis unfolding e using i
    by (intro idle_step_ok[OF assms(1) i(1) refl i(2)])
      (auto simp: sink_idle_def flush_all_def walk_order_def pending_in_def split: option.splits)
next
  case DestroyMap
  then show ?thesis using assms close_channels_ok by (auto split: if_splits)
qed

lemma create_initial_ok:
  "create_initial n now ids lm orc = Inr orc' \<Longrightarrow> orch_ok orc \<Longrightarrow> links_ok orc lm \<Longrightarrow> orch_ok orc' \<and> extends orc orc'"
proof (induction ids arbitrary: lm orc)
  case (Cons pid pids)
  let ?keys = "str_split CHR '','' pid"
  show ?case
  proof (cases "length ?keys = n")
    case False
    then show ?thesis using Cons by simp
  next
    case True
    obtain merged cache lm1 orc1 where g: "get_or_create_local ?keys now lm orc = Inr (merged, cache, lm1, orc1)"
      "create_initial n now pids lm1 orc1 = Inr orc'"
      using Cons(2) True by (auto simp: go_bind_eq_Inr)
    have c: "global_ok orc1" "extends orc orc1" "links_ok orc1 lm1"
      using get_or_create_local_ok[OF g(1) _ Cons(4)] Cons(3) by (auto simp: orch_ok_def)
    have o1: "orch_ok orc1" using Cons(3) c(2,1) by (rule orch_ok_extends)
    show ?thesis using Cons(1)[OF g(2) o1 c(3)] extends_trans[OF c(2)] by blast
  qed
qed (simp add: extends_refl)

lemma new_orchestrator_cases:
  assumes "new_orchestrator schema keyFields tagTemplate ids now = Inr orc"
  shows "\<exists>locs tb. create_field_locators schema keyFields = Inr locs \<and> new_tag_builder tagTemplate keyFields = Inr (Inr tb) \<and>
    create_initial (length keyFields) now ids []
      \<lparr>keyLocators = locs, tagBuilder = tb, globalMap = [], pipelines = [], orchSinks = [], destroyed = False, timedOut = False\<rparr> = Inr orc"
proof (cases "create_field_locators schema keyFields")
  case (Inr locs)
  then obtain r where r: "new_tag_builder tagTemplate keyFields = Inr r"
    using assms by (auto simp: new_orchestrator_def go_bind_eq_Inr)
  show ?thesis using assms Inr r by (cases r) (auto simp: new_orchestrator_def)
qed (use assms in \<open>simp add: new_orchestrator_def\<close>)

lemma orch_reachable_ok: "orch_reachable schema keyFields tagTemplate orc \<Longrightarrow> orch_ok orc"
proof (induction rule: orch_reachable.induct)
  case (start ids now orc)
  obtain locs tb where s: "create_initial (length keyFields) now ids []
      \<lparr>keyLocators = locs, tagBuilder = tb, globalMap = [], pipelines = [], orchSinks = [], destroyed = False, timedOut = False\<rparr> = Inr orc"
    using new_orchestrator_cases[OF start] by blast
  show ?case by (rule conjunct1[OF create_initial_ok[OF s]])
    (simp_all add: orch_ok_def global_ok_def batches_ok_def links_ok_def)
qed (rule orch_step_ok)

section \<open>Names and tags of pipelines\<close>

definition tag_of :: "expander \<Rightarrow> bytes list \<Rightarrow> bytes go" where
  "tag_of ex keys = go_bind (run_with_buffer ex keys []) (\<lambda>(tag, _). Inr tag)"

lemma tag_of_build: "build_tag tb keys = Inr (tag, tb') \<Longrightarrow> tag_of (tagExpander tb) keys = Inr tag"
  by (auto simp: build_tag_def tag_of_def run_with_buffer_def go_bind_eq_Inr)

lemma build_tag_of: "tag_of (tagExpander tb) keys = Inr tag \<Longrightarrow> \<exists>tb'. build_tag tb keys = Inr (tag, tb') \<and> tagExpander tb' = tagExpander tb"
  by (auto simp: build_tag_def tag_of_def run_with_buffer_def go_bind_eq_Inr split: if_splits)

text \<open>Every pipeline has a key for each locator and the tag its template gives.\<close>

definition named :: "orchestrator \<Rightarrow> bool" where
  "named orc \<longleftrightarrow> (\<forall>p\<in>set (pipelines orc). length (pipeKeys p) = length (keyLocators orc) \<and>
     tag_of (tagExpander (tagBuilder orc)) (pipeKeys p) = Inr (outputTag p))"

definition same_build :: "orchestrator \<Rightarrow> orchestrator \<Rightarrow> bool" where
  "same_build a b \<longleftrightarrow> keyLocators b = keyLocators a \<and> tagExpander (tagBuilder b) = tagExpander (tagBuilder a)"

lemma named_create:
  assumes "get_or_create_local keys now lm orc = Inr (merged, cache, lm', orc')"
    and "named orc" and "length keys = length (keyLocators orc)"
  shows "named orc' \<and> same_build orc orc'"
proof (cases "map_of lm (concat keys)")
  case (Some b)
  then show ?thesis using assms by (simp add: get_or_create_local_def same_build_def)
next
  case None
  then obtain ch where c: "get_or_create_global keys (concat keys) orc = Inr (ch, orc')"
    using assms(1) by (auto simp: get_or_create_local_def Let_def go_bind_eq_Inr)
  show ?thesis
  proof (cases "map_of (globalMap orc) (concat keys)")
    case (Some n)
    then show ?thesis using c assms(2) by (simp add: get_or_create_global_def same_build_def)
  next
    case None
    then obtain tag tb where t: "build_tag (tagBuilder orc) keys = Inr (tag, tb)"
      using c by (auto simp: get_or_create_global_def new_pipeline_def go_bind_eq_Inr)
    show ?thesis
      using c None t assms(2,3) tag_of_build[OF t] build_tag_keeps[OF t]
      by (auto simp: get_or_create_global_def new_pipeline_def named_def same_build_def)
  qed
qed

lemma extract_field_set_length: "extract_field_set locs r = Inr ks \<Longrightarrow> length ks = length locs"
  by (induction locs arbitrary: ks) (auto simp: go_bind_eq_Inr)

lemma named_put_sink: "named orc \<Longrightarrow> named (put_sink i s orc)"
  by (simp add: named_def)

lemma send_logs_channels:
  assumes "send_logs i ok k ks s orc = Inr orc'"
  shows "\<exists>n p. pipelines orc' = (pipelines orc)[n := (pipelines orc ! n)\<lparr>chanSent := p\<rparr>] \<and>
    keyLocators orc' = keyLocators orc \<and> tagBuilder orc' = tagBuilder orc"
proof -
  obtain b where b: "map_of (localMap s) k = Some b"
    using assms by (auto simp: send_logs_def split: option.splits)
  show ?thesis
  proof (cases ok)
    case True
    then show ?thesis using assms b
      by (intro exI[of _ "channelOf b"] exI[of _ "chanSent (pipelines orc ! channelOf b) @ [(i, pendingLogs b)]"])
        (auto simp: send_logs_def flush_logs_def Let_def split: if_splits)
  next
    case False
    then show ?thesis using assms b
      by (intro exI[of _ "length (pipelines orc)"])
        (auto simp: send_logs_def flush_logs_def Let_def list_update_beyond split: if_splits)
  qed
qed

lemma named_step:
  assumes "named orc" and "orch_step e orc = Some (Inr orc')"
  shows "named orc' \<and> same_build orc orc'"
proof (cases e)
  case (TakeLog i now)
  then obtain r rest where i: "take_log i now r (orchSinks orc ! i) orc = Inr orc'"
    using assms(2) by (auto simp: with_sink_def split: if_splits list.splits)
  obtain keys where keys: "extract_field_set (keyLocators orc) r = Inr keys"
    using i by (auto simp: take_log_def go_bind_eq_Inr)
  obtain merged cache lm orc1 where g: "get_or_create_local keys now (localMap (orchSinks orc ! i)) orc = Inr (merged, cache, lm, orc1)"
    using i keys by (auto simp: take_log_def go_bind_eq_Inr)
  have n: "named orc1 \<and> same_build orc orc1"
    using named_create[OF g assms(1)] extract_field_set_length[OF keys] by simp
  obtain s where "orc' = put_sink i s orc1"
    using i keys g by (auto simp: take_log_def case_prod_beta)
  then show ?thesis using n named_put_sink by (auto simp: same_build_def)
next
  case (SendLogs i ok)
  then obtain k ks where "send_logs i ok k ks (orchSinks orc ! i) orc = Inr orc'"
    using assms(2) by (auto simp: with_sink_def split: if_splits list.splits)
  then obtain n p where "pipelines orc' = (pipelines orc)[n := (pipelines orc ! n)\<lparr>chanSent := p\<rparr>]"
    "keyLocators orc' = keyLocators orc" "tagBuilder orc' = tagBuilder orc"
    using send_logs_channels by metis
  then show ?thesis using assms(1)
    by (cases "n < length (pipelines orc)")
      (auto simp: named_def same_build_def list_update_beyond dest!: set_update_subset_insert[THEN subsetD])
qed (use assms in \<open>auto simp: with_sink_def destroy_map_def named_def same_build_def split: if_splits\<close>)

definition names :: "orchestrator \<Rightarrow> (bytes list \<times> bytes \<times> bytes) list" where
  "names orc = map (\<lambda>p. (pipeKeys p, workerID p, outputTag p)) (pipelines orc)"

definition tag_value :: "expander \<Rightarrow> bytes list \<Rightarrow> bytes" where
  "tag_value ex keys = (case tag_of ex keys of Inr t \<Rightarrow> t | Inl _ \<Rightarrow> [])"

abbreviation keys_of_id :: "bytes \<Rightarrow> bytes list" where
  "keys_of_id \<equiv> str_split CHR '',''"

lemma create_initial_names:
  assumes "list_all (\<lambda>k. length (keys_of_id k) = n \<and> tag_of ex (keys_of_id k) = Inr (tag_value ex (keys_of_id k))) ids"
    and "distinct (map (\<lambda>k. concat (keys_of_id k)) ids)" and "tagExpander (tagBuilder orc) = ex"
    and "\<forall>k\<in>set ids. map_of lm (concat (keys_of_id k)) = None \<and> map_of (globalMap orc) (concat (keys_of_id k)) = None"
  shows "\<exists>orc'. create_initial n now ids lm orc = Inr orc' \<and>
    names orc' = names orc @ map (\<lambda>k. (keys_of_id k, k, tag_value ex (keys_of_id k))) ids"
  using assms
proof (induction ids arbitrary: lm orc)
  case (Cons k ids)
  let ?keys = "keys_of_id k"
  obtain tb where t: "build_tag (tagBuilder orc) ?keys = Inr (tag_value ex ?keys, tb)" "tagExpander tb = ex"
    using Cons(2,4) build_tag_of[of "tagBuilder orc" ?keys] by auto
  let ?p = "\<lparr>pipeKeys = ?keys, workerID = k, outputTag = tag_value ex ?keys, chanOpen = True, chanSent = []\<rparr>"
  let ?o = "orc\<lparr>tagBuilder := tb, pipelines := pipelines orc @ [?p],
      globalMap := (concat ?keys, length (pipelines orc)) # globalMap orc\<rparr>"
  let ?cache = "new_input_buffer (length (pipelines orc)) now"
  have g: "get_or_create_local ?keys now lm orc = Inr (concat ?keys, ?cache, (concat ?keys, ?cache) # lm, ?o)"
    using Cons(5) t(1) by (simp add: get_or_create_local_def get_or_create_global_def new_pipeline_def str_join_split Let_def)
  have fresh: "\<forall>j\<in>set ids. map_of ((concat ?keys, ?cache) # lm) (concat (keys_of_id j)) = None \<and>
      map_of (globalMap ?o) (concat (keys_of_id j)) = None"
  proof
    fix j assume j: "j \<in> set ids"
    then have "concat (keys_of_id j) \<in> (\<lambda>k. concat (keys_of_id k)) ` set ids" by (rule imageI)
    then have "concat (keys_of_id j) \<noteq> concat ?keys" using Cons(3) by auto
    then show "map_of ((concat ?keys, ?cache) # lm) (concat (keys_of_id j)) = None \<and>
        map_of (globalMap ?o) (concat (keys_of_id j)) = None"
      using Cons(5) j by simp
  qed
  obtain orc' where "create_initial n now ids ((concat ?keys, ?cache) # lm) ?o = Inr orc'"
    "names orc' = names ?o @ map (\<lambda>k. (keys_of_id k, k, tag_value ex (keys_of_id k))) ids"
    using Cons(1)[OF _ _ _ fresh] Cons(2,3) t(2) by auto
  then show ?case using g Cons(2) by (simp add: names_def)
qed simp

lemma create_field_locators_length: "create_field_locators s ns = Inr locs \<Longrightarrow> length locs = length ns"
  by (induction ns arbitrary: locs) (auto split: sum.splits)

text \<open>What stays as the configuration made it.\<close>

definition built :: "log_schema \<Rightarrow> bytes list \<Rightarrow> bytes \<Rightarrow> orchestrator \<Rightarrow> bool" where
  "built schema keyFields tagTemplate orc \<longleftrightarrow> create_field_locators schema keyFields = Inr (keyLocators orc) \<and>
     (\<exists>tb. new_tag_builder tagTemplate keyFields = Inr (Inr tb) \<and> tagExpander tb = tagExpander (tagBuilder orc))"

lemma create_initial_named:
  "create_initial n now ids lm orc = Inr orc' \<Longrightarrow> named orc \<Longrightarrow> n = length (keyLocators orc) \<Longrightarrow>
    named orc' \<and> same_build orc orc'"
proof (induction ids arbitrary: lm orc)
  case (Cons pid pids)
  let ?keys = "keys_of_id pid"
  show ?case
  proof (cases "length ?keys = n")
    case False
    then show ?thesis using Cons by simp
  next
    case True
    obtain merged cache lm1 orc1 where g: "get_or_create_local ?keys now lm orc = Inr (merged, cache, lm1, orc1)"
      "create_initial n now pids lm1 orc1 = Inr orc'"
      using Cons(2) True by (auto simp: go_bind_eq_Inr)
    have c: "named orc1 \<and> same_build orc orc1" using named_create[OF g(1) Cons(3)] True Cons(4) by simp
    then show ?thesis using Cons(1)[OF g(2)] Cons(4) by (auto simp: same_build_def)
  qed
qed (simp add: same_build_def)

lemma reachable_named:
  "orch_reachable schema keyFields tagTemplate orc \<Longrightarrow> named orc \<and> built schema keyFields tagTemplate orc"
proof (induction rule: orch_reachable.induct)
  case (start ids now orc)
  obtain locs tb where s: "create_field_locators schema keyFields = Inr locs" "new_tag_builder tagTemplate keyFields = Inr (Inr tb)"
    "create_initial (length keyFields) now ids []
      \<lparr>keyLocators = locs, tagBuilder = tb, globalMap = [], pipelines = [], orchSinks = [], destroyed = False, timedOut = False\<rparr> = Inr orc"
    using new_orchestrator_cases[OF start] by blast
  have "named orc \<and> same_build \<lparr>keyLocators = locs, tagBuilder = tb, globalMap = [], pipelines = [], orchSinks = [],
      destroyed = False, timedOut = False\<rparr> orc"
    by (rule create_initial_named[OF s(3)]) (simp_all add: named_def create_field_locators_length[OF s(1)])
  then show ?case using s(1,2) by (simp add: built_def same_build_def)
next
  case (step orc e orc')
  then show ?case using named_step[OF _ step(2)] by (auto simp: built_def same_build_def)
qed

lemma global_ok_distinct: "global_ok orc \<Longrightarrow> distinct (map (\<lambda>p. concat (pipeKeys p)) (pipelines orc))"
  unfolding distinct_conv_nth global_ok_def by (metis length_map nth_map option.inject)

section \<open>Examples\<close>

lemma orch_run_reachable:
  "orch_run es orc = Some orc' \<Longrightarrow> orch_reachable schema keyFields tagTemplate orc \<Longrightarrow>
    orch_reachable schema keyFields tagTemplate orc'"
  by (induction es orc rule: orch_run.induct) (auto split: option.splits sum.splits intro: orch_reachable.step)

definition sample_schema2 :: log_schema where
  "sample_schema2 = \<lparr>fieldNames = [''app'', ''host''], maxFields = 2\<rparr>"

definition sample_log :: "bytes \<Rightarrow> bytes \<Rightarrow> log_record" where
  "sample_log app host = \<lparr>Fields = [app, host], RawLength = 10, Timestamp = 0, Unescaped = False, backbuf = None, refCount = 0\<rparr>"

definition sample_events :: "orch_event list" where
  "sample_events =
     [NewSink, NewSink, AcceptLogs 0 1 [sample_log ''a'' ''x'', sample_log ''b'' ''x'', sample_log ''a'' ''x''],
      TakeLog 0 1, TakeLog 0 1, AcceptLogs 1 1 [sample_log ''b'' ''x''], TakeLog 1 1, TakeLog 0 1,
      CloseSink 0 2 [''ax'', ''bx''], SendLogs 0 True, SendLogs 0 True]"

definition sample_orch :: "orchestrator option" where
  "sample_orch = (case new_orchestrator sample_schema2 [''app'', ''host''] ''T'' [] 0 of
     Inl _ \<Rightarrow> None | Inr orc \<Rightarrow> orch_run sample_events orc)"

lemma sample_tag_builder:
  "new_tag_builder ''T'' [''app'', ''host''] = Inr (Inr \<lparr>tagExpander = [\<lambda>_. Inr ''T''], tagBuffer = []\<rparr>)"
proof -
  have "find_all_parts ''T'' = [''T'']" by code_simp
  moreover have "str_index ''$$'' ''T'' = None" by code_simp
  ultimately show ?thesis by (simp add: new_tag_builder_def new_expander_def go_index_def)
qed

lemmas sample_eval = sample_events_def sample_log_def with_sink_def sink_idle_def put_sink_def take_log_def
  get_or_create_local_def get_or_create_global_def new_pipeline_def build_tag_def run_with_buffer_def loc_get_def go_index_def
  new_input_buffer_def append_log_def IntermediateBufferMaxNumLogs_def IntermediateBufferMaxTotalBytes_def
  send_logs_def flush_logs_def flush_all_def walk_order_def new_orch_sink_def Let_def numeral_2_eq_2

lemma sample_orch_view:
  "map_option (\<lambda>orc. (timedOut orc, map chanSent (pipelines orc), names orc, map takenLog (orchSinks orc))) sample_orch =
     Some (False, [[(0, [sample_log ''a'' ''x'', sample_log ''a'' ''x''])], [(0, [sample_log ''b'' ''x''])]],
       [([''a'', ''x''], ''a,x'', ''T''), ([''b'', ''x''], ''b,x'', ''T'')],
       [[sample_log ''a'' ''x'', sample_log ''b'' ''x'', sample_log ''a'' ''x''], [sample_log ''b'' ''x'']])"
proof -
  have l: "create_field_locators sample_schema2 [''app'', ''host''] = Inr [0, 1]" by code_simp
  have "new_orchestrator sample_schema2 [''app'', ''host''] ''T'' [] 0 =
      Inr \<lparr>keyLocators = [0, 1], tagBuilder = \<lparr>tagExpander = [\<lambda>_. Inr ''T''], tagBuffer = []\<rparr>, globalMap = [],
        pipelines = [], orchSinks = [], destroyed = False, timedOut = False\<rparr>"
    by (simp add: new_orchestrator_def l sample_tag_builder del: create_field_locators.simps)
  then show ?thesis unfolding sample_orch_def by (simp add: sample_eval names_def insert_commute)
qed

lemma sample_orch_reachable:
  "sample_orch = Some orc \<Longrightarrow> orch_reachable sample_schema2 [''app'', ''host''] ''T'' orc"
  by (auto simp: sample_orch_def split: sum.splits intro: orch_run_reachable orch_reachable.start)

section \<open>Properties\<close>

text \<open>
  C17: Records are routed by their key sets. As long as no send has timed out, in every state each
  pipeline has been sent by each connection exactly the records the connection has taken whose
  merged keys are those of the pipeline, in order, but for those still in the connection's buffer;
  every record taken has exactly one such pipeline; a closed connection leaves nothing in its
  buffers; and every batch is non-empty and holds at most 500 records. (Merged keys are
  concatenations: records with different key sets and the same concatenation share a pipeline.)
\<close>

theorem records_routed:
  assumes "orch_reachable schema keyFields tagTemplate orc" and "\<not> timedOut orc" and "i < length (orchSinks orc)"
    and "s = orchSinks orc ! i"
  shows "(\<forall>p\<in>set (pipelines orc). sent_by i p @ pending_in (localMap s) (concat (pipeKeys p)) =
      filter (\<lambda>r. merged_key orc r = concat (pipeKeys p)) (takenLog s)) \<and>
    (\<forall>r\<in>set (takenLog s). \<exists>!p. p \<in> set (pipelines orc) \<and> concat (pipeKeys p) = merged_key orc r) \<and>
    (sinkClosed s \<and> flushing s = [] \<longrightarrow> (\<forall>m. pending_in (localMap s) m = [])) \<and>
    (\<forall>p\<in>set (pipelines orc). \<forall>(j, batch)\<in>set (chanSent p). batch \<noteq> [] \<and> length batch \<le> IntermediateBufferMaxNumLogs)"
proof -
  have ok: "orch_ok orc" by (rule orch_reachable_ok[OF assms(1)])
  have g: "global_ok orc" "batches_ok orc" using ok by (simp_all add: orch_ok_def)
  have f: "passed_of orc i m @ pending_in (localMap s) m = filter (\<lambda>r. merged_key orc r = m) (takenLog s)" for m
    using orch_ok_flow[OF ok assms(3,2)] assms(4) by (simp add: flow_ok_def)
  have so: "sink_ok orc s" using orch_ok_sink[OF ok assms(3)] assms(4) by simp
  have d: "distinct (map (\<lambda>p. concat (pipeKeys p)) (pipelines orc))" by (rule global_ok_distinct[OF g(1)])
  have p: "passed_of orc i (concat (pipeKeys p)) = sent_by i p" if q: "p \<in> set (pipelines orc)" for p
  proof -
    obtain n where n: "n < length (pipelines orc)" "p = pipelines orc ! n" using q by (auto simp: in_set_conv_nth)
    then have "map_of (globalMap orc) (concat (pipeKeys p)) = Some n" using g(1) by (simp add: global_ok_def)
    then show ?thesis using n by (simp add: passed_of_def)
  qed
  have e: "\<exists>!p. p \<in> set (pipelines orc) \<and> concat (pipeKeys p) = merged_key orc r" if "r \<in> set (takenLog s)" for r
  proof -
    have "passed_of orc i (merged_key orc r) @ pending_in (localMap s) (merged_key orc r) \<noteq> []"
      using f[of "merged_key orc r"] that by (auto simp: filter_empty_conv)
    then obtain n where "map_of (globalMap orc) (merged_key orc r) = Some n"
      using so by (auto simp: passed_of_def pending_in_def sink_ok_def links_ok_def split: option.splits)
    from global_ok_index[OF g(1) this]
    have "pipelines orc ! n \<in> set (pipelines orc) \<and> concat (pipeKeys (pipelines orc ! n)) = merged_key orc r" by simp
    moreover have "q = q'" if "q \<in> set (pipelines orc)" "q' \<in> set (pipelines orc)"
      "concat (pipeKeys q) = concat (pipeKeys q')" for q q'
      using d that unfolding distinct_map inj_on_def by blast
    ultimately show ?thesis by (intro ex1I) auto
  qed
  have c: "pending_in (localMap s) m = []" if "sinkClosed s" "flushing s = []" for m
    using so that by (force simp: sink_ok_def)
  have b: "\<forall>(j, batch)\<in>set (chanSent p). batch \<noteq> [] \<and> length batch \<le> IntermediateBufferMaxNumLogs"
    if "p \<in> set (pipelines orc)" for p
    using g(2) that by (fastforce simp: batches_ok_def)
  have a: "sent_by i p @ pending_in (localMap s) (concat (pipeKeys p)) =
      filter (\<lambda>r. merged_key orc r = concat (pipeKeys p)) (takenLog s)" if "p \<in> set (pipelines orc)" for p
    using f[of "concat (pipeKeys p)"] p[OF that] by simp
  show ?thesis using a e c b by blast
qed

theorem records_routed_witness:
  "\<exists>orc. sample_orch = Some orc \<and>
    (\<forall>p\<in>set (pipelines orc). sent_by 0 p @ pending_in (localMap (orchSinks orc ! 0)) (concat (pipeKeys p)) =
      filter (\<lambda>r. merged_key orc r = concat (pipeKeys p)) [sample_log ''a'' ''x'', sample_log ''b'' ''x'', sample_log ''a'' ''x''])"
proof -
  obtain orc where o: "sample_orch = Some orc" "\<not> timedOut orc"
    "map takenLog (orchSinks orc) = [[sample_log ''a'' ''x'', sample_log ''b'' ''x'', sample_log ''a'' ''x''], [sample_log ''b'' ''x'']]"
    using sample_orch_view by auto
  have l: "length (orchSinks orc) = 2" using arg_cong[OF o(3), of length] by simp
  then have tl: "takenLog (orchSinks orc ! 0) = [sample_log ''a'' ''x'', sample_log ''b'' ''x'', sample_log ''a'' ''x'']"
    using nth_map[of 0 "orchSinks orc" takenLog] o(3) by simp
  have "0 < length (orchSinks orc)" using l by simp
  from conjunct1[OF records_routed[OF sample_orch_reachable[OF o(1)] o(2) this refl]]
  show ?thesis unfolding tl using o(1) by blast
qed

text \<open>
  Restarting with queues of the last run recreates their pipelines: if no key contains a
  comma, the IDs of the pipelines are different, and an orchestrator started with these IDs, in any
  order, has pipelines with the same key sets, IDs and tags.
\<close>

lemma pipelines_recreated:
  assumes "orch_reachable schema keyFields tagTemplate orc" and "keyFields \<noteq> []"
    and "\<forall>p\<in>set (pipelines orc). \<forall>k\<in>set (pipeKeys p). CHR '','' \<notin> set k"
    and "set ids \<subseteq> workerID ` set (pipelines orc)" and "distinct ids"
  shows "distinct (map workerID (pipelines orc)) \<and>
    (\<exists>orc'. new_orchestrator schema keyFields tagTemplate ids now = Inr orc' \<and>
      set (names orc') = (\<lambda>p. (pipeKeys p, workerID p, outputTag p)) ` {p \<in> set (pipelines orc). workerID p \<in> set ids})"
proof -
  have ok: "global_ok orc" using orch_reachable_ok[OF assms(1)] by (simp add: orch_ok_def)
  have nm: "named orc" "built schema keyFields tagTemplate orc" using reachable_named[OF assms(1)] by auto
  let ?ex = "tagExpander (tagBuilder orc)"
  have locs: "create_field_locators schema keyFields = Inr (keyLocators orc)" using nm(2) by (simp add: built_def)
  have p: "keys_of_id (workerID p) = pipeKeys p" "tag_of ?ex (pipeKeys p) = Inr (outputTag p)"
    "length (pipeKeys p) = length keyFields" if "p \<in> set (pipelines orc)" for p
  proof -
    show l: "length (pipeKeys p) = length keyFields" "tag_of ?ex (pipeKeys p) = Inr (outputTag p)"
      using nm(1) that create_field_locators_length[OF locs] by (simp_all add: named_def)
    have "workerID p = str_join '','' (pipeKeys p)" using ok that by (simp add: global_ok_def list_all_iff)
    then show "keys_of_id (workerID p) = pipeKeys p"
      using str_split_join[of "pipeKeys p" "CHR '',''"] assms(2,3) that l(1)
      by (cases "pipeKeys p = []") (auto simp: list_all_iff)
  qed
  have d: "distinct (map (\<lambda>p. concat (pipeKeys p)) (pipelines orc))" by (rule global_ok_distinct[OF ok])
  have ids: "distinct (map workerID (pipelines orc))"
    using d p(1) by (auto simp: distinct_map inj_on_def) metis
  have k: "length (keys_of_id k) = length keyFields \<and> tag_of ?ex (keys_of_id k) = Inr (tag_value ?ex (keys_of_id k))"
    if kin: "k \<in> set ids" for k
  proof -
    obtain p where "p \<in> set (pipelines orc)" "k = workerID p" using kin assms(4) by auto
    then show ?thesis using p by (simp add: tag_value_def)
  qed
  have dk: "distinct (map (\<lambda>k. concat (keys_of_id k)) ids)"
  proof -
    have "inj_on (\<lambda>k. concat (keys_of_id k)) (workerID ` set (pipelines orc))"
      using d p(1) by (auto simp: distinct_map inj_on_def)
    then show ?thesis using assms(4,5) by (auto simp: distinct_map intro: inj_on_subset)
  qed
  obtain tb where tb: "new_tag_builder tagTemplate keyFields = Inr (Inr tb)" "tagExpander tb = ?ex"
    using nm(2) by (auto simp: built_def)
  let ?o = "\<lparr>keyLocators = keyLocators orc, tagBuilder = tb, globalMap = [], pipelines = [], orchSinks = [],
      destroyed = False, timedOut = False\<rparr>"
  obtain orc' where o': "create_initial (length keyFields) now ids [] ?o = Inr orc'"
    "names orc' = names ?o @ map (\<lambda>k. (keys_of_id k, k, tag_value ?ex (keys_of_id k))) ids"
    using create_initial_names[of "length keyFields" ?ex ids ?o "[]" now] k dk tb(2) by (auto simp: list_all_iff)
  have "new_orchestrator schema keyFields tagTemplate ids now = Inr orc'"
    using locs tb(1) o'(1) by (simp add: new_orchestrator_def)
  moreover have "set (names orc') = (\<lambda>p. (pipeKeys p, workerID p, outputTag p)) ` {p \<in> set (pipelines orc). workerID p \<in> set ids}"
  proof -
    have "set ids = workerID ` {p \<in> set (pipelines orc). workerID p \<in> set ids}" using assms(4) by auto
    then have "(\<lambda>k. (keys_of_id k, k, tag_value ?ex (keys_of_id k))) ` set ids =
        (\<lambda>k. (keys_of_id k, k, tag_value ?ex (keys_of_id k))) ` workerID ` {p \<in> set (pipelines orc). workerID p \<in> set ids}" by simp
    also have "\<dots> = (\<lambda>p. (pipeKeys p, workerID p, outputTag p)) ` {p \<in> set (pipelines orc). workerID p \<in> set ids}"
      unfolding image_image by (intro image_cong refl) (simp add: p tag_value_def)
    finally show ?thesis unfolding o'(2) by (simp add: names_def)
  qed
  ultimately show ?thesis using ids by blast
qed

text \<open>With a comma in a key, an ID splits into too many keys and no pipeline is created; and two key
  sets can have the same ID.\<close>

lemma comma_not_recreated:
  "str_join '','' [''a,b'', ''c''] = ''a,b,c'' \<and> str_join '','' [''a'', ''b,c''] = ''a,b,c'' \<and>
   concat [''a,b'', ''c''] \<noteq> concat [''a'', ''b,c''] \<and>
   (case new_orchestrator sample_schema2 [''app'', ''host''] ''T'' [''a,b,c''] 0 of Inr orc \<Rightarrow> names orc = [] | Inl _ \<Rightarrow> False)"
  by code_simp

end
