(* ===== verification/Datadog_Serializer.thy ===== *)
theory Datadog_Serializer
  imports Utf8 Chunk_Ids
begin

text \<open>
  Records to JSON events for Datadog: \<open>output/datadog/eventserializer.go\<close>. A Go map of strings is
  an association list; \<open>encoding/json\<close> writes its keys in order and escapes strings as documented
  (control characters, quotes, backslashes, the three HTML characters, the two line separators;
  bytes that are not UTF-8 become U+FFFD). The decoder reads JSON objects of strings as the format
  is specified, and gives back what was serialized.
\<close>

section \<open>JSON strings and objects\<close>

definition hex_digit :: "nat \<Rightarrow> char" where
  "hex_digit n = (if n < 10 then char_of (48 + n) else char_of (87 + n))"

text \<open>The escape of one ASCII byte.\<close>

definition escape_ascii :: "char \<Rightarrow> bytes" where
  "escape_ascii c =
     (let b = code_of c in
      if c = CHR 0x22 \<or> c = CHR 0x5C then [CHR 0x5C, c]
      else if b = 8 then [CHR 0x5C, CHR ''b'']
      else if b = 12 then [CHR 0x5C, CHR ''f'']
      else if b = 10 then [CHR 0x5C, CHR ''n'']
      else if b = 13 then [CHR 0x5C, CHR ''r'']
      else if b = 9 then [CHR 0x5C, CHR ''t'']
      else if b < 32 \<or> c = CHR ''<'' \<or> c = CHR ''>'' \<or> c = CHR ''&''
           then CHR 0x5C # ''u00'' @ [hex_digit (b div 16), hex_digit (b mod 16)]
      else [c])"

definition line_separator :: "bytes \<Rightarrow> bool" where
  "line_separator s = (s = [CHR 0xE2, CHR 0x80, CHR 0xA8] \<or> s = [CHR 0xE2, CHR 0x80, CHR 0xA9])"

function json_escape :: "bytes \<Rightarrow> bytes" where
  "json_escape s =
     (case s of
        [] \<Rightarrow> []
      | c # r \<Rightarrow>
          if code_of c \<le> 127 then escape_ascii c @ json_escape r
          else if utf8_width s = 0 then CHR 0x5C # ''ufffd'' @ json_escape r
          else let w = take (utf8_width s) s in
               (if line_separator w then CHR 0x5C # ''u202'' @ [hex_digit (code_of (w ! 2) mod 16)] else w) @
               json_escape (drop (utf8_width s) s))"
  by pat_completeness auto
termination by (relation "measure length") auto

declare json_escape.simps [simp del]

definition json_quote :: "bytes \<Rightarrow> bytes" where
  "json_quote s = CHR 0x22 # json_escape s @ [CHR 0x22]"

definition json_member :: "bytes \<times> bytes \<Rightarrow> bytes" where
  "json_member kv = json_quote (fst kv) @ CHR '':'' # json_quote (snd kv)"

definition json_object :: "(bytes \<times> bytes) list \<Rightarrow> bytes" where
  "json_object m = ''{'' @ str_join '','' (map json_member m) @ ''}''"

text \<open>\<open>json.Marshal\<close> of a map.\<close>

definition marshal_map :: "(bytes \<times> bytes) list \<Rightarrow> bytes" where
  "marshal_map m = json_object (sort_key fst m)"

section \<open>The serializer\<close>

record dd_serializer =
  ddSchema :: log_schema
  ddMasks :: "bool list"
  ddTags :: bytes

definition new_dd_serializer :: "log_schema \<Rightarrow> bytes list \<Rightarrow> bytes \<Rightarrow> dd_serializer" where
  "new_dd_serializer schema hiddenNames tags =
     \<lparr>ddSchema = schema, ddMasks = map (\<lambda>name. name = [] \<or> name \<in> set hiddenNames) (fieldNames schema), ddTags = tags\<rparr>"

fun dd_fill :: "(bool \<times> bytes) list \<Rightarrow> nat \<Rightarrow> bytes list \<Rightarrow> (bytes \<times> bytes) list \<Rightarrow> (bytes \<times> bytes) list go" where
  "dd_fill [] i fs m = Inr m"
| "dd_fill ((masked, name) # slots) i fs m =
     (if masked then dd_fill slots (Suc i) fs m
      else go_bind (go_index fs (int i)) (\<lambda>v.
             dd_fill slots (Suc i) fs (if v \<noteq> [] then AList.update name v m else m)))"

definition unix_milli :: "gotime \<Rightarrow> int" where
  "unix_milli t = t div 1000000"

definition format_int :: "int \<Rightarrow> bytes" where
  "format_int i = fmt_padded 0 i"

definition dd_serialize :: "dd_serializer \<Rightarrow> log_record \<Rightarrow> bytes go" where
  "dd_serialize ser r =
     go_bind (dd_fill (zip (ddMasks ser) (fieldNames (ddSchema ser))) 0 (Fields r) []) (\<lambda>m.
       let m = AList.update ''timestamp'' (format_int (unix_milli (Timestamp r))) m;
           m = (if (case map_of m ''ddtags'' of None \<Rightarrow> True | Some v \<Rightarrow> v = []) \<and> ddTags ser \<noteq> []
                then AList.update ''ddtags'' (ddTags ser) m else m) in
       Inr (marshal_map m))"

section \<open>A decoder of JSON objects of strings\<close>

definition hex_value :: "char \<Rightarrow> nat option" where
  "hex_value c =
     (let b = code_of c in
      if 48 \<le> b \<and> b \<le> 57 then Some (b - 48)
      else if 97 \<le> b \<and> b \<le> 102 then Some (b - 87)
      else if 65 \<le> b \<and> b \<le> 70 then Some (b - 55)
      else None)"

text \<open>The UTF-8 bytes of a code point of the basic plane; surrogates are not decoded.\<close>

definition utf8_bytes :: "nat \<Rightarrow> bytes option" where
  "utf8_bytes n =
     (if n < 128 then Some [char_of n]
      else if n < 2048 then Some [char_of (192 + n div 64), char_of (128 + n mod 64)]
      else if 0xD800 \<le> n \<and> n \<le> 0xDFFF then None
      else if n < 65536 then Some [char_of (224 + n div 4096), char_of (128 + n div 64 mod 64), char_of (128 + n mod 64)]
      else None)"

definition unicode_escape :: "char \<Rightarrow> char \<Rightarrow> char \<Rightarrow> char \<Rightarrow> bytes option" where
  "unicode_escape a b c d =
     Option.bind (hex_value a) (\<lambda>a. Option.bind (hex_value b) (\<lambda>b. Option.bind (hex_value c) (\<lambda>c.
     Option.bind (hex_value d) (\<lambda>d. utf8_bytes (((a * 16 + b) * 16 + c) * 16 + d)))))"

definition simple_escape :: "char \<Rightarrow> char option" where
  "simple_escape c =
     (if c = CHR 0x22 \<or> c = CHR 0x5C \<or> c = CHR ''/'' then Some c
      else if c = CHR ''b'' then Some (CHR 0x08)
      else if c = CHR ''f'' then Some (CHR 0x0C)
      else if c = CHR ''n'' then Some (CHR 0x0A)
      else if c = CHR ''r'' then Some (CHR 0x0D)
      else if c = CHR ''t'' then Some (CHR 0x09)
      else None)"

definition put_front :: "bytes \<Rightarrow> (bytes \<times> bytes) option \<Rightarrow> (bytes \<times> bytes) option" where
  "put_front a r = map_option (\<lambda>(s, rest). (a @ s, rest)) r"

text \<open>After the opening quote: the text, and what follows the closing quote.\<close>

fun json_text :: "bytes \<Rightarrow> (bytes \<times> bytes) option" where
  "json_text [] = None"
| "json_text (c # s) =
     (if c = CHR 0x22 then Some ([], s)
      else if c = CHR 0x5C then
        (case s of
           [] \<Rightarrow> None
         | e # s1 \<Rightarrow>
             if e = CHR ''u'' then
               (case s1 of
                  x1 # x2 # x3 # x4 # s2 \<Rightarrow>
                    (case unicode_escape x1 x2 x3 x4 of None \<Rightarrow> None | Some u \<Rightarrow> put_front u (json_text s2))
                | _ \<Rightarrow> None)
             else (case simple_escape e of None \<Rightarrow> None | Some ch \<Rightarrow> put_front [ch] (json_text s1)))
      else if code_of c < 32 then None
      else put_front [c] (json_text s))"

definition json_string :: "bytes \<Rightarrow> (bytes \<times> bytes) option" where
  "json_string s = (case s of [] \<Rightarrow> None | c # r \<Rightarrow> if c = CHR 0x22 then json_text r else None)"

definition json_pair :: "bytes \<Rightarrow> ((bytes \<times> bytes) \<times> bytes) option" where
  "json_pair s =
     Option.bind (json_string s) (\<lambda>(k, s1).
       case s1 of
         [] \<Rightarrow> None
       | c # s2 \<Rightarrow> if c = CHR '':'' then Option.bind (json_string s2) (\<lambda>(v, s3). Some ((k, v), s3)) else None)"

fun json_pairs :: "nat \<Rightarrow> bytes \<Rightarrow> (bytes \<times> bytes) list option" where
  "json_pairs 0 s = None"
| "json_pairs (Suc n) s =
     Option.bind (json_pair s) (\<lambda>(kv, s1).
       if s1 = ''}'' then Some [kv]
       else case s1 of
              [] \<Rightarrow> None
            | c # s2 \<Rightarrow> if c = CHR '','' then map_option (Cons kv) (json_pairs n s2) else None)"

definition json_decode :: "bytes \<Rightarrow> (bytes \<times> bytes) list option" where
  "json_decode s =
     (if s = ''{}'' then Some []
      else case s of [] \<Rightarrow> None | c # r \<Rightarrow> if c = CHR ''{'' then json_pairs (length r) r else None)"

section \<open>The decoder reads what the encoder writes\<close>

text \<open>A text as JSON carries it: bytes that are not UTF-8 are replaced.\<close>

function json_clean :: "bytes \<Rightarrow> bytes" where
  "json_clean s =
     (if s = [] then []
      else if utf8_width s = 0 then [CHR 0xEF, CHR 0xBF, CHR 0xBD] @ json_clean (drop 1 s)
      else take (utf8_width s) s @ json_clean (drop (utf8_width s) s))"
  by pat_completeness auto
termination by (relation "measure length") auto

declare json_clean.simps [simp del]

lemma json_clean_valid: "valid_utf8 s \<Longrightarrow> json_clean s = s"
proof (induction s rule: json_clean.induct)
  case (1 s)
  show ?case
  proof (cases "s = []")
    case True
    then show ?thesis by (simp add: json_clean.simps)
  next
    case False
    have v: "utf8_width s \<noteq> 0" "valid_utf8 (drop (utf8_width s) s)" using valid_utf8_step[OF 1(3) False] by auto
    then show ?thesis using 1(2)[OF False v] False by (subst json_clean.simps) simp
  qed
qed

lemma put_front_put_front [simp]: "put_front a (put_front b r) = put_front (a @ b) r"
  by (cases r) (auto simp: put_front_def)

lemma put_front_Some [simp]: "put_front a (Some (s, rest)) = Some (a @ s, rest)"
  by (simp add: put_front_def)

lemma hex_value_digit [simp]: "n < 16 \<Longrightarrow> hex_value (hex_digit n) = Some n"
  by (simp add: hex_value_def hex_digit_def Let_def)

lemma hex_value_zero [simp]: "hex_value CHR ''0'' = Some 0" "hex_value CHR ''2'' = Some 2"
  "hex_value CHR ''f'' = Some 15" "hex_value CHR ''d'' = Some 13"
  by (simp_all add: hex_value_def)

lemma unicode_escape_ascii: "code_of c < 128 \<Longrightarrow>
    unicode_escape CHR ''0'' CHR ''0'' (hex_digit (code_of c div 16)) (hex_digit (code_of c mod 16)) = Some [c]"
  by (simp add: unicode_escape_def utf8_bytes_def)

lemma char_of_code: "code_of c = n \<Longrightarrow> char_of n = c"
  by auto

lemma char_of_bytes: "char_of (8::nat) = CHR 0x08" "char_of (12::nat) = CHR 0x0C" "char_of (10::nat) = CHR 0x0A"
  "char_of (13::nat) = CHR 0x0D" "char_of (9::nat) = CHR 0x09" "char_of (239::nat) = CHR 0xEF"
  "char_of (191::nat) = CHR 0xBF" "char_of (189::nat) = CHR 0xBD" "char_of (226::nat) = CHR 0xE2"
  "char_of (128::nat) = CHR 0x80" "char_of (168::nat) = CHR 0xA8" "char_of (169::nat) = CHR 0xA9"
  by (rule char_of_code, simp)+

lemma json_text_escape_ascii:
  assumes "code_of c < 128"
  shows "json_text (escape_ascii c @ t) = put_front [c] (json_text t)"
proof (cases "code_of c < 32 \<or> c = CHR ''<'' \<or> c = CHR ''>'' \<or> c = CHR ''&'' \<or> c = CHR 0x22 \<or> c = CHR 0x5C")
  case False
  then show ?thesis by (auto simp: escape_ascii_def Let_def)
next
  case True
  have ch: "c = char_of (code_of c)" by simp
  consider "c = CHR 0x22" | "c = CHR 0x5C" | "code_of c = 8" | "code_of c = 12" | "code_of c = 10" | "code_of c = 13" | "code_of c = 9"
    | (hex) "c \<noteq> CHR 0x22" "c \<noteq> CHR 0x5C" "code_of c \<noteq> 8" "code_of c \<noteq> 12" "code_of c \<noteq> 10" "code_of c \<noteq> 13" "code_of c \<noteq> 9"
    by blast
  then show ?thesis
  proof cases
    case hex
    then have "escape_ascii c = CHR 0x5C # ''u00'' @ [hex_digit (code_of c div 16), hex_digit (code_of c mod 16)]"
      using True by (simp add: escape_ascii_def Let_def)
    then show ?thesis using unicode_escape_ascii[OF assms] by simp
  next
    case 3
    then have "c = CHR 0x08" using ch by (simp add: char_of_bytes)
    then show ?thesis by (simp add: escape_ascii_def simple_escape_def)
  next
    case 4
    then have "c = CHR 0x0C" using ch by (simp add: char_of_bytes)
    then show ?thesis by (simp add: escape_ascii_def simple_escape_def)
  next
    case 5
    then have "c = CHR 0x0A" using ch by (simp add: char_of_bytes)
    then show ?thesis by (simp add: escape_ascii_def simple_escape_def)
  next
    case 6
    then have "c = CHR 0x0D" using ch by (simp add: char_of_bytes)
    then show ?thesis by (simp add: escape_ascii_def simple_escape_def)
  next
    case 7
    then have "c = CHR 0x09" using ch by (simp add: char_of_bytes)
    then show ?thesis by (simp add: escape_ascii_def simple_escape_def)
  qed (simp_all add: escape_ascii_def simple_escape_def)
qed

lemma json_text_high: "\<forall>c\<in>set w. 128 \<le> code_of c \<Longrightarrow> json_text (w @ t) = put_front w (json_text t)"
proof (induction w)
  case Nil
  then show ?case by (cases "json_text t") (auto simp: put_front_def)
next
  case (Cons c w)
  then have "c \<noteq> CHR 0x22" "c \<noteq> CHR 0x5C" "\<not> code_of c < 32" by auto
  then show ?case using Cons by simp
qed

lemma json_text_escape: "json_text (json_escape s @ CHR 0x22 # rest) = Some (json_clean s, rest)"
proof (induction s rule: json_escape.induct)
  case (1 s)
  show ?case
  proof (cases s)
    case Nil
    then show ?thesis by (simp add: json_escape.simps json_clean.simps)
  next
    case (Cons c r)
    show ?thesis
    proof (cases "code_of c \<le> 127")
      case True
      have "json_clean s = c # json_clean r" using Cons True by (subst json_clean.simps) simp
      moreover have "json_escape s = escape_ascii c @ json_escape r" using Cons True by (subst json_escape.simps) simp
      ultimately show ?thesis using 1(1)[OF Cons True] json_text_escape_ascii[of c] True by simp
    next
      case False
      show ?thesis
      proof (cases "utf8_width s = 0")
        case True
        have "json_clean s = [CHR 0xEF, CHR 0xBF, CHR 0xBD] @ json_clean r" using Cons True by (subst json_clean.simps) simp
        moreover have "json_escape s = CHR 0x5C # ''ufffd'' @ json_escape r" using Cons False True by (subst json_escape.simps) simp
        moreover have "unicode_escape CHR ''f'' CHR ''f'' CHR ''f'' CHR ''d'' = Some [CHR 0xEF, CHR 0xBF, CHR 0xBD]"
          by (simp add: unicode_escape_def utf8_bytes_def char_of_bytes)
        ultimately show ?thesis using 1(2)[OF Cons False True] by simp
      next
        case w: False
        define v where "v = take (utf8_width s) s"
        let ?esc = "if line_separator v then CHR 0x5C # ''u202'' @ [hex_digit (code_of (v ! 2) mod 16)] else v"
        have cl: "json_clean s = v @ json_clean (drop (utf8_width s) s)" using Cons w by (subst json_clean.simps) (simp add: v_def)
        have es: "json_escape s = ?esc @ json_escape (drop (utf8_width s) s)"
          using Cons False w by (subst json_escape.simps) (simp add: v_def Let_def)
        have high: "\<forall>c\<in>set v. 128 \<le> code_of c"
        proof -
          obtain c' t r' where b: "s = c' # t @ r'" "length t = utf8_width s - 1" "list_all is_cont t"
            using utf8_width_body[OF w] by blast
          have "v = c' # t" using b w by (simp add: v_def take_Cons')
          then show ?thesis using b(1,3) Cons False by (auto simp: list_all_iff is_cont_def)
        qed
        have sep: "json_text (CHR 0x5C # ''u202'' @ [hex_digit (code_of (v ! 2) mod 16)] @ t) = put_front v (json_text t)"
          if "line_separator v" for t
          using that by (auto simp: line_separator_def unicode_escape_def utf8_bytes_def hex_value_def hex_digit_def char_of_bytes)
        have "json_text (?esc @ t) = put_front v (json_text t)" for t
          using sep[of t] json_text_high[OF high, of t] by simp
        then show ?thesis using 1(3)[OF Cons False w v_def] cl es by simp
      qed
    qed
  qed
qed

lemma json_string_quote: "json_string (json_quote s @ rest) = Some (json_clean s, rest)"
  using json_text_escape[of s rest] by (simp add: json_string_def json_quote_def)

definition clean_pair :: "bytes \<times> bytes \<Rightarrow> bytes \<times> bytes" where
  "clean_pair kv = (json_clean (fst kv), json_clean (snd kv))"

lemma json_pair_member: "json_pair (json_member kv @ rest) = Some (clean_pair kv, rest)"
  by (simp add: json_pair_def json_member_def json_string_quote clean_pair_def)

lemma json_member_length: "1 < length (json_member kv)"
  by (simp add: json_member_def json_quote_def)

lemma json_pairs_members:
  "m \<noteq> [] \<Longrightarrow> length m \<le> n \<Longrightarrow> json_pairs n (str_join '','' (map json_member m) @ ''}'') = Some (map clean_pair m)"
proof (induction m arbitrary: n)
  case (Cons kv m)
  obtain k where n: "n = Suc k" using Cons(3) by (cases n) auto
  show ?case
  proof (cases "m = []")
    case True
    then show ?thesis using n by (simp add: json_pair_member)
  next
    case False
    have "str_join '','' (map json_member (kv # m)) @ ''}'' =
        json_member kv @ CHR '','' # (str_join '','' (map json_member m) @ ''}'')"
      using False by (simp add: str_join_Cons)
    then show ?thesis using Cons(1)[OF False, of k] Cons(3) n by (simp add: json_pair_member)
  qed
qed simp

lemma str_join_length: "length m \<le> length (str_join '','' (map json_member m) @ ''}'')"
proof (induction m)
  case (Cons kv m)
  then show ?case using json_member_length[of kv] by (cases "m = []") (simp_all add: str_join_Cons)
qed simp

text \<open>Decoding an encoded object gives its members, in order, with clean texts.\<close>

lemma json_decode_object: "json_decode (json_object m) = Some (map clean_pair m)"
proof (cases "m = []")
  case True
  then show ?thesis by (simp add: json_decode_def json_object_def)
next
  case False
  then obtain kv m' where m: "m = kv # m'" by (cases m) auto
  have "json_object m \<noteq> ''{}''"
    using json_member_length[of kv] by (cases "m' = []") (auto simp: json_object_def m str_join_Cons json_member_def json_quote_def)
  then show ?thesis using json_pairs_members[OF False str_join_length] False
    by (simp add: json_decode_def json_object_def)
qed

section \<open>The map of a record\<close>

lemma json_clean_ascii: "\<forall>c\<in>set s. code_of c \<le> 127 \<Longrightarrow> json_clean s = s"
  by (induction s) (simp_all add: json_clean.simps[of "[]"] json_clean.simps[of "_ # _"])

lemma dec_digits_ascii: "c \<in> set (dec_digits w n) \<Longrightarrow> code_of c \<le> 127"
  by (induction w arbitrary: n) (auto simp: digit_def)

lemma format_int_ascii: "\<forall>c\<in>set (format_int i). code_of c \<le> 127"
  by (auto simp: format_int_def fmt_padded_def dec_digits_ascii)

text \<open>A field shows when it is not masked and not empty.\<close>

definition dd_shows :: "dd_serializer \<Rightarrow> log_record \<Rightarrow> nat \<Rightarrow> bool" where
  "dd_shows ser r i \<longleftrightarrow> i < length (fieldNames (ddSchema ser)) \<and> \<not> ddMasks ser ! i \<and> Fields r ! i \<noteq> []"

lemma dd_fill_panics:
  "j < length slots \<Longrightarrow> \<not> fst (slots ! j) \<Longrightarrow> length fs \<le> i + j \<Longrightarrow> \<exists>e. dd_fill slots i fs m = Inl e"
proof (induction slots i fs m arbitrary: j rule: dd_fill.induct)
  case (2 masked name slots i fs m)
  show ?case
  proof (cases j)
    case 0
    then show ?thesis using 2(4,5) by (simp add: go_index_def)
  next
    case (Suc j')
    show ?thesis
    proof (cases masked)
      case True
      then show ?thesis using 2(1)[OF True, of j'] 2(3-5) Suc by simp
    next
      case False
      show ?thesis
      proof (cases "i < length fs")
        case True
        then show ?thesis using 2(2)[OF False, of "fs ! i" j'] 2(3-5) Suc False by simp
      qed (simp add: False go_index_def)
    qed
  qed
qed simp

lemma dd_fill_map:
  assumes "distinct (map snd slots)" "\<forall>j<length slots. \<not> fst (slots ! j) \<longrightarrow> i + j < length fs" "distinct (map fst m)"
  shows "\<exists>m'. dd_fill slots i fs m = Inr m' \<and> distinct (map fst m')
    \<and> (\<forall>j<length slots. \<not> fst (slots ! j) \<and> fs ! (i + j) \<noteq> [] \<longrightarrow> map_of m' (snd (slots ! j)) = Some (fs ! (i + j)))
    \<and> (\<forall>k. (\<forall>j<length slots. \<not> fst (slots ! j) \<and> fs ! (i + j) \<noteq> [] \<longrightarrow> snd (slots ! j) \<noteq> k) \<longrightarrow> map_of m' k = map_of m k)"
  using assms
proof (induction slots arbitrary: i m)
  case (Cons slot slots)
  obtain masked name where slot: "slot = (masked, name)" by (cases slot)
  define m1 where "m1 = (if \<not> masked \<and> fs ! i \<noteq> [] then AList.update name (fs ! i) m else m)"
  have m1: "distinct (map fst m1)" using Cons(4) by (simp add: m1_def distinct_update)
  have idx: "\<not> masked \<Longrightarrow> i < length fs" using Cons(3) slot by auto
  have room: "\<forall>j<length slots. \<not> fst (slots ! j) \<longrightarrow> Suc i + j < length fs" using Cons(3) by auto
  have d: "distinct (map snd slots)" using Cons(2) by simp
  obtain m' where m': "dd_fill slots (Suc i) fs m1 = Inr m'" "distinct (map fst m')"
      and set: "\<forall>j<length slots. \<not> fst (slots ! j) \<and> fs ! (Suc i + j) \<noteq> [] \<longrightarrow> map_of m' (snd (slots ! j)) = Some (fs ! (Suc i + j))"
      and keep: "\<forall>k. (\<forall>j<length slots. \<not> fst (slots ! j) \<and> fs ! (Suc i + j) \<noteq> [] \<longrightarrow> snd (slots ! j) \<noteq> k) \<longrightarrow> map_of m' k = map_of m1 k"
    using Cons(1)[OF d room m1] by (elim exE conjE) (rule that)
  have fresh: "snd (slots ! j) \<noteq> name" if "j < length slots" for j using Cons(2) slot nth_mem[OF that] by auto
  have "dd_fill (slot # slots) i fs m = Inr m'" using m'(1) idx slot by (cases masked) (auto simp: m1_def)
  moreover have "map_of m' (snd ((slot # slots) ! j)) = Some (fs ! (i + j))"
    if j: "j < length (slot # slots)" "\<not> fst ((slot # slots) ! j)" "fs ! (i + j) \<noteq> []" for j
  proof (cases j)
    case 0
    have "map_of m' name = map_of m1 name" using keep fresh by simp
    then show ?thesis using 0 j slot by (simp add: m1_def update_conv)
  next
    case (Suc j')
    then show ?thesis using set j by simp
  qed
  moreover have "map_of m' k = map_of m k"
    if k: "\<forall>j<length (slot # slots). \<not> fst ((slot # slots) ! j) \<and> fs ! (i + j) \<noteq> [] \<longrightarrow> snd ((slot # slots) ! j) \<noteq> k" for k
  proof -
    have "\<not> fst (slots ! j) \<and> fs ! (Suc i + j) \<noteq> [] \<longrightarrow> snd (slots ! j) \<noteq> k" if "j < length slots" for j
      using k[rule_format, of "Suc j"] that by simp
    then have "map_of m' k = map_of m1 k" using keep by simp
    moreover have "map_of m1 k = map_of m k" using k[rule_format, of 0] slot
      by (cases "masked \<or> fs ! i = []") (auto simp: m1_def update_conv)
    ultimately show ?thesis by simp
  qed
  ultimately show ?case using m'(2) by (intro exI[of _ m']) simp
qed simp

lemma marshal_decoded:
  assumes "distinct (map fst m)" "\<forall>k\<in>set (map fst m). valid_utf8 k"
  shows "\<exists>d. json_decode (marshal_map m) = Some d \<and> sorted (map fst d) \<and> distinct (map fst d)
    \<and> (\<forall>k. map_of d k = map_option json_clean (map_of m k))"
proof -
  define d where "d = map clean_pair (sort_key fst m)"
  have key: "map fst d = map fst (sort_key fst m)"
    using assms(2) by (simp add: d_def clean_pair_def json_clean_valid)
  have same: "d = map (\<lambda>(k, v). (k, json_clean v)) (sort_key fst m)"
    using assms(2) by (auto simp: d_def clean_pair_def json_clean_valid)
  have keys: "distinct (map fst (sort_key fst m))"
    using assms(1) by (simp add: distinct_map)
  have "map_of (sort_key fst m) = map_of m"
    using map_of_eqI[of "sort_key fst m" m] by (metis (no_types) assms(1) keys map_of_inject_set set_sort)
  then have "map_of d k = map_option json_clean (map_of m k)" for k by (simp add: same map_of_map)
  moreover have "json_decode (marshal_map m) = Some d" by (simp add: marshal_map_def json_decode_object d_def)
  ultimately show ?thesis using key keys by (intro exI[of _ d]) simp
qed

lemma dd_serialize_panics:
  assumes "j < length (fieldNames (ddSchema ser))" "length (ddMasks ser) = length (fieldNames (ddSchema ser))"
    and "\<not> ddMasks ser ! j" "length (Fields r) \<le> j"
  shows "\<exists>e. dd_serialize ser r = Inl e"
proof -
  obtain e where "dd_fill (zip (ddMasks ser) (fieldNames (ddSchema ser))) 0 (Fields r) [] = Inl e"
    using dd_fill_panics[of j "zip (ddMasks ser) (fieldNames (ddSchema ser))" "Fields r" 0 "[]"] assms by auto
  then show ?thesis by (simp add: dd_serialize_def)
qed

lemma distinct_map_Nil: "distinct (map f [])"
  by simp

text \<open>The map before it is marshalled.\<close>

lemma dd_serialize_map:
  assumes "distinct (fieldNames (ddSchema ser))" "length (ddMasks ser) = length (fieldNames (ddSchema ser))"
    and "\<forall>j<length (fieldNames (ddSchema ser)). \<not> ddMasks ser ! j \<longrightarrow> j < length (Fields r)"
  shows "\<exists>m. dd_serialize ser r = Inr (marshal_map m) \<and> distinct (map fst m)
    \<and> map_of m ''timestamp'' = Some (format_int (unix_milli (Timestamp r)))
    \<and> (\<forall>i. dd_shows ser r i \<and> fieldNames (ddSchema ser) ! i \<noteq> ''timestamp'' \<longrightarrow>
         map_of m (fieldNames (ddSchema ser) ! i) = Some (Fields r ! i))
    \<and> ((\<forall>i. dd_shows ser r i \<longrightarrow> fieldNames (ddSchema ser) ! i \<noteq> ''ddtags'') \<longrightarrow>
         map_of m ''ddtags'' = (if ddTags ser = [] then None else Some (ddTags ser)))
    \<and> (\<forall>k. k \<notin> {''timestamp'', ''ddtags''} \<and> (\<forall>i. dd_shows ser r i \<longrightarrow> fieldNames (ddSchema ser) ! i \<noteq> k) \<longrightarrow> map_of m k = None)"
proof -
  let ?names = "fieldNames (ddSchema ser)"
  let ?slots = "zip (ddMasks ser) ?names"
  have d: "distinct (map snd ?slots)" using assms(1,2) by simp
  have room: "\<forall>j<length ?slots. \<not> fst (?slots ! j) \<longrightarrow> 0 + j < length (Fields r)" using assms(2,3) by simp
  obtain m0 where m0: "dd_fill ?slots 0 (Fields r) [] = Inr m0" "distinct (map fst m0)"
    and set: "\<forall>j<length ?slots. \<not> fst (?slots ! j) \<and> Fields r ! (0 + j) \<noteq> [] \<longrightarrow> map_of m0 (snd (?slots ! j)) = Some (Fields r ! (0 + j))"
    and keep: "\<forall>k. (\<forall>j<length ?slots. \<not> fst (?slots ! j) \<and> Fields r ! (0 + j) \<noteq> [] \<longrightarrow> snd (?slots ! j) \<noteq> k) \<longrightarrow> map_of m0 k = map_of [] k"
    using dd_fill_map[OF d room, of "[]", OF distinct_map_Nil] by (elim exE conjE) (rule that)
  have shown: "map_of m0 (?names ! i) = Some (Fields r ! i)" if "dd_shows ser r i" for i
    using set that assms(2) by (simp add: dd_shows_def)
  have hidden: "map_of m0 k = None" if "\<forall>i. dd_shows ser r i \<longrightarrow> ?names ! i \<noteq> k" for k
    using keep that assms(2) by (simp add: dd_shows_def)
  define m1 where "m1 = AList.update ''timestamp'' (format_int (unix_milli (Timestamp r))) m0"
  define m2 where "m2 = (if (case map_of m1 ''ddtags'' of None \<Rightarrow> True | Some v \<Rightarrow> v = []) \<and> ddTags ser \<noteq> []
                then AList.update ''ddtags'' (ddTags ser) m1 else m1)"
  have "dd_serialize ser r = Inr (marshal_map m2)" using m0(1) by (simp add: dd_serialize_def m1_def m2_def Let_def)
  moreover have "distinct (map fst m2)" using m0(2) by (simp add: m1_def m2_def distinct_update)
  moreover have "map_of m2 ''timestamp'' = Some (format_int (unix_milli (Timestamp r)))"
    by (simp add: m1_def m2_def update_conv)
  moreover have "map_of m2 (?names ! i) = Some (Fields r ! i)" if i: "dd_shows ser r i" "?names ! i \<noteq> ''timestamp''" for i
  proof (cases "?names ! i = ''ddtags''")
    case True
    then have "map_of m1 ''ddtags'' = Some (Fields r ! i)" using shown[OF i(1)] by (simp add: m1_def update_conv)
    then show ?thesis using True i(1) by (simp add: m2_def dd_shows_def)
  next
    case False
    then show ?thesis using shown[OF i(1)] i(2) by (simp add: m1_def m2_def update_conv)
  qed
  moreover have "map_of m2 ''ddtags'' = (if ddTags ser = [] then None else Some (ddTags ser))"
    if "\<forall>i. dd_shows ser r i \<longrightarrow> ?names ! i \<noteq> ''ddtags''"
    using hidden[OF that] by (simp add: m1_def m2_def update_conv)
  moreover have "map_of m2 k = None"
    if "k \<notin> {''timestamp'', ''ddtags''}" "\<forall>i. dd_shows ser r i \<longrightarrow> ?names ! i \<noteq> k" for k
    using hidden[OF that(2)] that(1) by (simp add: m1_def m2_def update_conv)
  ultimately show ?thesis by (intro exI[of _ m2] conjI) simp_all
qed

section \<open>Properties\<close>

text \<open>
  C16: A record is one JSON object that a reader decodes without ambiguity: its keys are distinct and in
  order; every visible field that is not empty is there under its name with its value (bytes that are not
  UTF-8 replaced), timestamp is always the record's time in milliseconds, whatever the field of that
  name holds, ddtags is the configured tags unless a visible field gives it, and nothing else is there.
  Only a record with fewer fields than the visible part of the schema panics.
\<close>

theorem datadog_event_json:
  assumes schema: "schema_ok schema" "\<forall>name\<in>set (fieldNames schema). valid_utf8 name"
    and ser: "ser = new_dd_serializer schema hiddenNames tags"
  shows "if \<forall>j<length (fieldNames schema). fieldNames schema ! j \<notin> set hiddenNames \<longrightarrow> j < length (Fields r) then
      \<exists>out d. dd_serialize ser r = Inr out \<and> json_decode out = Some d \<and> sorted (map fst d) \<and> distinct (map fst d)
        \<and> map_of d ''timestamp'' = Some (format_int (unix_milli (Timestamp r)))
        \<and> (\<forall>i. dd_shows ser r i \<and> fieldNames schema ! i \<noteq> ''timestamp'' \<longrightarrow>
             map_of d (fieldNames schema ! i) = Some (json_clean (Fields r ! i)))
        \<and> ((\<forall>i. dd_shows ser r i \<longrightarrow> fieldNames schema ! i \<noteq> ''ddtags'') \<longrightarrow>
             map_of d ''ddtags'' = (if tags = [] then None else Some (json_clean tags)))
        \<and> (\<forall>k. k \<notin> {''timestamp'', ''ddtags''} \<and> (\<forall>i. dd_shows ser r i \<longrightarrow> fieldNames schema ! i \<noteq> k) \<longrightarrow> map_of d k = None)
    else \<exists>e. dd_serialize ser r = Inl e"
proof (cases "\<forall>j<length (fieldNames schema). fieldNames schema ! j \<notin> set hiddenNames \<longrightarrow> j < length (Fields r)")
  case True
  have names: "distinct (fieldNames (ddSchema ser))" "length (ddMasks ser) = length (fieldNames (ddSchema ser))"
    and sch: "ddSchema ser = schema" "ddTags ser = tags"
    using schema(1) by (simp_all add: ser new_dd_serializer_def schema_ok_def)
  have room: "\<forall>j<length (fieldNames (ddSchema ser)). \<not> ddMasks ser ! j \<longrightarrow> j < length (Fields r)"
    using True by (simp add: ser new_dd_serializer_def)
  obtain m where m: "dd_serialize ser r = Inr (marshal_map m)" "distinct (map fst m)"
      and ts: "map_of m ''timestamp'' = Some (format_int (unix_milli (Timestamp r)))"
      and shown: "\<forall>i. dd_shows ser r i \<and> fieldNames schema ! i \<noteq> ''timestamp'' \<longrightarrow> map_of m (fieldNames schema ! i) = Some (Fields r ! i)"
      and tags: "(\<forall>i. dd_shows ser r i \<longrightarrow> fieldNames schema ! i \<noteq> ''ddtags'') \<longrightarrow> map_of m ''ddtags'' = (if tags = [] then None else Some tags)"
      and rest: "\<forall>k. k \<notin> {''timestamp'', ''ddtags''} \<and> (\<forall>i. dd_shows ser r i \<longrightarrow> fieldNames schema ! i \<noteq> k) \<longrightarrow> map_of m k = None"
    using dd_serialize_map[OF names room, unfolded sch] by (elim exE conjE) (rule that)
  have "valid_utf8 k" if k: "k \<in> set (map fst m)" for k
  proof (rule ccontr)
    assume bad: "\<not> valid_utf8 k"
    have "valid_utf8 ''timestamp''" "valid_utf8 ''ddtags''" by (simp_all add: valid_utf8.simps)
    then have "k \<notin> {''timestamp'', ''ddtags''}" using bad by auto
    moreover have "\<forall>i. dd_shows ser r i \<longrightarrow> fieldNames schema ! i \<noteq> k"
      using schema(2) bad nth_mem[of _ "fieldNames schema"] by (auto simp: dd_shows_def sch)
    ultimately have "map_of m k = None" using rest by simp
    then show False using k by (simp add: map_of_eq_None_iff)
  qed
  then obtain d where "json_decode (marshal_map m) = Some d" "sorted (map fst d)" "distinct (map fst d)"
      "\<forall>k. map_of d k = map_option json_clean (map_of m k)"
    using marshal_decoded[OF m(2)] by auto
  moreover have "json_clean (format_int (unix_milli (Timestamp r))) = format_int (unix_milli (Timestamp r))"
    by (simp add: json_clean_ascii format_int_ascii)
  ultimately have "\<exists>out d. dd_serialize ser r = Inr out \<and> json_decode out = Some d \<and> sorted (map fst d) \<and> distinct (map fst d)
        \<and> map_of d ''timestamp'' = Some (format_int (unix_milli (Timestamp r)))
        \<and> (\<forall>i. dd_shows ser r i \<and> fieldNames schema ! i \<noteq> ''timestamp'' \<longrightarrow>
             map_of d (fieldNames schema ! i) = Some (json_clean (Fields r ! i)))
        \<and> ((\<forall>i. dd_shows ser r i \<longrightarrow> fieldNames schema ! i \<noteq> ''ddtags'') \<longrightarrow>
             map_of d ''ddtags'' = (if tags = [] then None else Some (json_clean tags)))
        \<and> (\<forall>k. k \<notin> {''timestamp'', ''ddtags''} \<and> (\<forall>i. dd_shows ser r i \<longrightarrow> fieldNames schema ! i \<noteq> k) \<longrightarrow> map_of d k = None)"
    using m(1) ts shown tags rest by (intro exI[of _ "marshal_map m"] exI[of _ d] conjI) simp_all
  then show ?thesis unfolding if_P[OF True] .
next
  case False
  then obtain j where "j < length (fieldNames schema)" "fieldNames schema ! j \<notin> set hiddenNames" "length (Fields r) \<le> j" by auto
  moreover from this have "fieldNames schema ! j \<noteq> []" using schema(1) nth_mem[of j "fieldNames schema"] by (metis schema_ok_def)
  ultimately have "\<exists>e. dd_serialize ser r = Inl e"
    by (intro dd_serialize_panics[of j]) (simp_all add: ser new_dd_serializer_def)
  then show ?thesis unfolding if_not_P[OF False] .
qed

definition sample_dd_record :: log_record where
  "sample_dd_record = \<lparr>Fields = [''h'', ''warn'', ''<ok>'', []], RawLength = 20, Timestamp = 1700000000123456789,
     Unescaped = False, backbuf = None, refCount = 1\<rparr>"

definition sample_dd_schema :: log_schema where
  "sample_dd_schema = \<lparr>fieldNames = [''host'', ''level'', ''log'', ''task''], maxFields = 4\<rparr>"

lemma datadog_event_json_witness:
  "\<exists>out d. dd_serialize (new_dd_serializer sample_dd_schema [''level''] ''env:x'') sample_dd_record = Inr out
     \<and> json_decode out = Some d \<and> map_of d ''log'' = Some ''<ok>'' \<and> map_of d ''ddtags'' = Some ''env:x'' \<and> map_of d ''level'' = None"
proof -
  have vis: "dd_shows (new_dd_serializer sample_dd_schema [''level''] ''env:x'') sample_dd_record i = (i = 0 \<or> i = 2)" for i
    by (auto simp: dd_shows_def new_dd_serializer_def sample_dd_schema_def sample_dd_record_def less_Suc_eq numeral_2_eq_2)
  have s: "schema_ok sample_dd_schema" "\<forall>name\<in>set (fieldNames sample_dd_schema). valid_utf8 name"
    by (simp_all add: sample_dd_schema_def schema_ok_def valid_utf8.simps)
  have room: "\<forall>j<length (fieldNames sample_dd_schema). fieldNames sample_dd_schema ! j \<notin> set [''level''] \<longrightarrow> j < length (Fields sample_dd_record)"
    by (simp add: sample_dd_schema_def sample_dd_record_def)
  obtain out d where e: "dd_serialize (new_dd_serializer sample_dd_schema [''level''] ''env:x'') sample_dd_record = Inr out" "json_decode out = Some d"
      and f: "\<forall>i. (i = 0 \<or> i = 2) \<and> fieldNames sample_dd_schema ! i \<noteq> ''timestamp'' \<longrightarrow>
             map_of d (fieldNames sample_dd_schema ! i) = Some (json_clean (Fields sample_dd_record ! i))"
      and g: "(\<forall>i. (i = 0 \<or> i = 2) \<longrightarrow> fieldNames sample_dd_schema ! i \<noteq> ''ddtags'') \<longrightarrow>
             map_of d ''ddtags'' = (if ''env:x'' = [] then None else Some (json_clean ''env:x''))"
      and h: "\<forall>k. k \<notin> {''timestamp'', ''ddtags''} \<and> (\<forall>i. (i = 0 \<or> i = 2) \<longrightarrow> fieldNames sample_dd_schema ! i \<noteq> k) \<longrightarrow> map_of d k = None"
    using datadog_event_json[OF s refl, of "[''level'']" sample_dd_record "''env:x''", unfolded if_P[OF room] vis]
    by (elim exE conjE) (rule that)
  have "map_of d ''log'' = Some ''<ok>''" using f[rule_format, of 2] by (simp add: sample_dd_schema_def sample_dd_record_def json_clean_ascii)
  moreover have "map_of d ''ddtags'' = Some ''env:x''" using g by (auto simp: sample_dd_schema_def json_clean_ascii)
  moreover have "map_of d ''level'' = None" using h[rule_format, of "''level''"] by (auto simp: sample_dd_schema_def)
  ultimately show ?thesis using e by (intro exI[of _ out] exI[of _ d]) simp
qed

end
