(* ===== verification/Worker.thy ===== *)
theory Worker
  imports Transform_Build Transform_Labels Event_Serializer Chunk_Maker Datadog_Serializer Allocator
begin

text \<open>
  The processing worker of a pipeline: \<open>base/bsupport/logprocessingworker.go\<close> on the loop of
  \<open>pipelineworkerbase.go\<close>, with the outputs as \<open>orchestrate/obase/pipelines.go\<close> builds them.
  An output is used through a table of its methods, \<open>'o output_ops\<close>; the locale
  \<open>pipeline_output\<close> is the contract the worker relies on, and the fluentd and Datadog outputs are
  its interpretation. The chunks given to an output's accepter are collected, in order.
\<close>

section \<open>The loop of a pipeline worker\<close>

text \<open>What the loop receives: a value of its channel or a tick; the handlers may be missing.\<close>

datatype 't base_event = BaseInput 't | BaseTick gotime

record ('t, 's) base_worker =
  baseOnInput :: "'t \<Rightarrow> 's \<Rightarrow> 's run"
  baseOnTick :: "(gotime \<Rightarrow> 's \<Rightarrow> 's run) option"
  baseOnStop :: "('s \<Rightarrow> 's run) option"

definition call_tick :: "('t, 's) base_worker \<Rightarrow> gotime \<Rightarrow> 's \<Rightarrow> 's run" where
  "call_tick b now s = (case baseOnTick b of None \<Rightarrow> Some (Inr s) | Some h \<Rightarrow> h now s)"

fun base_process_main :: "('t, 's) base_worker \<Rightarrow> 't base_event list \<Rightarrow> 's \<Rightarrow> 's run" where
  "base_process_main b [] s = Some (Inr s)"
| "base_process_main b (e # es) s =
     run_bind (case e of BaseInput v \<Rightarrow> baseOnInput b v s | BaseTick now \<Rightarrow> call_tick b now s) (base_process_main b es)"

text \<open>The channel is closed after the events; \<open>now\<close> is the time then.\<close>

definition base_run :: "('t, 's) base_worker \<Rightarrow> 't base_event list \<Rightarrow> gotime \<Rightarrow> 's \<Rightarrow> 's run" where
  "base_run b es now s =
     run_bind (base_process_main b es s) (\<lambda>s.
     run_bind (call_tick b now s) (\<lambda>s.
       case baseOnStop b of None \<Rightarrow> Some (Inr s) | Some h \<Rightarrow> h s))"

section \<open>The processing worker\<close>

record 'o output_ops =
  serializeRecord :: "'o \<Rightarrow> log_record \<Rightarrow> (bytes \<times> 'o \<times> log_record) go"
  writeStream :: "gotime \<Rightarrow> bytes \<Rightarrow> 'o \<Rightarrow> (log_chunk option \<times> 'o) go"
  flushBuffer :: "'o \<Rightarrow> log_chunk option \<times> 'o"

record 'o output_interface =
  component :: 'o
  outputName :: bytes
  acceptedChunks :: "log_chunk list"

record 'o processing_worker =
  deallocator :: log_allocator
  procCounter :: process_counters
  transformList :: "transform list"
  outputList :: "'o output_interface list"
  lastChunkTime :: gotime

definition new_processing_worker ::
  "log_allocator \<Rightarrow> process_counters \<Rightarrow> transform list \<Rightarrow> 'o output_interface list \<Rightarrow> gotime \<Rightarrow> 'o processing_worker" where
  "new_processing_worker alloc pc ts outs now =
     \<lparr>deallocator = alloc, procCounter = pc, transformList = ts, outputList = outs, lastChunkTime = now\<rparr>"

text \<open>A transform counts through the closure of its label: the counter of the label's index.\<close>

fun count_events :: "process_counters \<Rightarrow> count_event list \<Rightarrow> process_counters go" where
  "count_events pc [] = Inr pc"
| "count_events pc ((label, len) # evs) =
     (case map_of (customVecs pc) label of
        None \<Rightarrow> Inl NilDereference
      | Some i \<Rightarrow> go_bind (count_process pc i len) (\<lambda>pc. count_events pc evs))"

text \<open>Counting at the input counter that was selected.\<close>

definition count_input :: "(input_counters \<Rightarrow> input_counters) \<Rightarrow> bytes \<Rightarrow> process_counters \<Rightarrow> process_counters" where
  "count_input f key pc =
     (case map_of (keySetPairs pc) key of
        None \<Rightarrow> pc
      | Some q \<Rightarrow> pc\<lparr>keySetPairs := set_pair key (q\<lparr>inputCounter := f (inputCounter q)\<rparr>) (keySetPairs pc)\<rparr>)"

definition accept_chunk ::
  "nat \<Rightarrow> log_chunk option \<Rightarrow> 'o output_interface \<Rightarrow> process_counters \<Rightarrow> ('o output_interface \<times> process_counters) go" where
  "accept_chunk i maybeChunk out pc =
     (case maybeChunk of
        None \<Rightarrow> Inr (out, pc)
      | Some c \<Rightarrow> go_bind (count_chunk pc i c) (\<lambda>pc.
          Inr (out\<lparr>acceptedChunks := acceptedChunks out @ [c]\<rparr>, pc)))"

text \<open>One record through the outputs from the \<open>i\<close>-th on; \<open>clock i\<close> is the time at which it is written there.\<close>

fun output_record ::
  "'o output_ops \<Rightarrow> (nat \<Rightarrow> gotime) \<Rightarrow> nat \<Rightarrow> 'o output_interface list \<Rightarrow> log_record \<Rightarrow> log_allocator \<Rightarrow> process_counters \<Rightarrow>
    ('o output_interface list \<times> log_record \<times> log_allocator \<times> process_counters) go" where
  "output_record ops clock i [] r alloc pc = Inr ([], r, alloc, pc)"
| "output_record ops clock i (out # outs) r alloc pc =
     go_bind (serializeRecord ops (component out) r) (\<lambda>(stream, comp, r).
     go_bind (release alloc r) (\<lambda>(r, alloc).
     go_bind (count_stream pc i stream) (\<lambda>pc.
     go_bind (writeStream ops (clock i) stream comp) (\<lambda>(maybeChunk, comp).
     go_bind (accept_chunk i maybeChunk (out\<lparr>component := comp\<rparr>) pc) (\<lambda>(out, pc).
     go_bind (output_record ops clock (Suc i) outs r alloc pc) (\<lambda>(outs, r, alloc, pc).
       Inr (out # outs, r, alloc, pc)))))))"

definition process_record ::
  "environment \<Rightarrow> 'o output_ops \<Rightarrow> (nat \<Rightarrow> gotime) \<Rightarrow> log_record \<Rightarrow> 'o processing_worker \<Rightarrow> 'o processing_worker run" where
  "process_record env ops clock r w =
     run_bind (Some (select_metric_key_set (procCounter w) r)) (\<lambda>(icounter, pc).
     run_bind (run_transforms env (transformList w) r) (\<lambda>(res, ts, r, evs).
     Some (go_bind (count_events pc evs) (\<lambda>pc.
       if res = DROP then
         let pc = count_input (\<lambda>c. count_record_drop c r) icounter pc in
         go_bind (release (deallocator w) r) (\<lambda>(r, alloc).
           Inr (w\<lparr>deallocator := alloc, procCounter := pc, transformList := ts\<rparr>))
       else
         let pc = count_input (\<lambda>c. count_record_pass c r) icounter pc in
         go_bind (output_record ops clock 0 (outputList w) r (deallocator w) pc) (\<lambda>(outs, r, alloc, pc).
           Inr (w\<lparr>deallocator := alloc, procCounter := pc, transformList := ts, outputList := outs\<rparr>))))))"

text \<open>A batch; \<open>clock k i\<close> is the time at which its \<open>k\<close>-th record is written to the \<open>i\<close>-th output.\<close>

type_synonym batch = "(nat \<Rightarrow> nat \<Rightarrow> gotime) \<times> log_record list"

fun process_batch ::
  "environment \<Rightarrow> 'o output_ops \<Rightarrow> (nat \<Rightarrow> nat \<Rightarrow> gotime) \<Rightarrow> nat \<Rightarrow> log_record list \<Rightarrow> 'o processing_worker \<Rightarrow> 'o processing_worker run" where
  "process_batch env ops clock k [] w = Some (Inr w)"
| "process_batch env ops clock k (r # rs) w =
     run_bind (process_record env ops (clock k) r w) (process_batch env ops clock (Suc k) rs)"

definition on_input :: "environment \<Rightarrow> 'o output_ops \<Rightarrow> batch \<Rightarrow> 'o processing_worker \<Rightarrow> 'o processing_worker run" where
  "on_input env ops b w = (if snd b = [] then Some (Inr w) else process_batch env ops (fst b) 0 (snd b) w)"

fun flush_chunk ::
  "'o output_ops \<Rightarrow> nat \<Rightarrow> 'o output_interface list \<Rightarrow> process_counters \<Rightarrow> ('o output_interface list \<times> process_counters) go" where
  "flush_chunk ops i [] pc = Inr ([], pc)"
| "flush_chunk ops i (out # outs) pc =
     (let (maybeChunk, comp) = flushBuffer ops (component out) in
      go_bind (accept_chunk i maybeChunk (out\<lparr>component := comp\<rparr>) pc) (\<lambda>(out, pc).
      go_bind (flush_chunk ops (Suc i) outs pc) (\<lambda>(outs, pc). Inr (out # outs, pc))))"

definition flush_and_update :: "'o output_ops \<Rightarrow> 'o processing_worker \<Rightarrow> 'o processing_worker run" where
  "flush_and_update ops w =
     Some (go_bind (flush_chunk ops 0 (outputList w) (procCounter w)) (\<lambda>(outs, pc).
       Inr (w\<lparr>outputList := outs, procCounter := update_process_counters pc\<rparr>)))"

definition on_tick :: "'o output_ops \<Rightarrow> gotime \<Rightarrow> 'o processing_worker \<Rightarrow> 'o processing_worker run" where
  "on_tick ops now w =
     (if now - lastChunkTime w < IntermediateFlushInterval then Some (Inr w) else flush_and_update ops w)"

definition on_stop :: "'o output_ops \<Rightarrow> 'o processing_worker \<Rightarrow> 'o processing_worker run" where
  "on_stop ops w = flush_and_update ops w"

definition worker_base :: "environment \<Rightarrow> 'o output_ops \<Rightarrow> (batch, 'o processing_worker) base_worker" where
  "worker_base env ops =
     \<lparr>baseOnInput = on_input env ops, baseOnTick = Some (on_tick ops), baseOnStop = Some (on_stop ops)\<rparr>"

section \<open>Counting never fails\<close>

text \<open>Counters of the same shape, in order.\<close>

definition counters_like :: "process_counters \<Rightarrow> process_counters \<Rightarrow> bool" where
  "counters_like pc pc' \<longleftrightarrow>
     process_ok pc' \<and> keyExtractor pc' = keyExtractor pc \<and> customVecs pc' = customVecs pc \<and>
     length (serializedLengths pc') = length (serializedLengths pc) \<and>
     length (chunksCounts pc') = length (chunksCounts pc) \<and> length (chunksLengths pc') = length (chunksLengths pc)"

definition counters_for :: "nat \<Rightarrow> process_counters \<Rightarrow> bool" where
  "counters_for n pc \<longleftrightarrow>
     process_ok pc \<and> length (serializedLengths pc) = n \<and> length (chunksCounts pc) = n \<and> length (chunksLengths pc) = n"

lemma counters_for_like: "counters_for n pc \<Longrightarrow> counters_like pc pc' \<Longrightarrow> counters_for n pc'"
  by (simp add: counters_for_def counters_like_def)

lemma counters_like_trans: "counters_like a b \<Longrightarrow> counters_like b c \<Longrightarrow> counters_like a c"
  by (simp add: counters_like_def)

lemma counters_like_refl: "counters_for n a \<Longrightarrow> counters_like a a"
  by (simp add: counters_like_def counters_for_def)

lemma count_stream_ok:
  "counters_for n pc \<Longrightarrow> i < n \<Longrightarrow> \<exists>pc'. count_stream pc i s = Inr pc' \<and> counters_like pc pc'"
  by (simp add: count_stream_def counters_for_def counters_like_def process_ok_def)

lemma count_chunk_ok:
  "counters_for n pc \<Longrightarrow> i < n \<Longrightarrow> \<exists>pc'. count_chunk pc i c = Inr pc' \<and> counters_like pc pc'"
  by (simp add: count_chunk_def counters_for_def counters_like_def process_ok_def)

lemma list_all_set_pair:
  assumes "list_all (\<lambda>(k, q). P q) ps" and "\<And>q. map_of ps key = Some q \<Longrightarrow> P pair" and "distinct (map fst ps)"
  shows "list_all (\<lambda>(k, q). P q) (set_pair key pair ps)"
  using assms by (auto simp: set_pair_def list_all_iff)

lemma process_ok_set_pair:
  assumes "process_ok pc" and "map_of (keySetPairs pc) key = Some q"
    and "custom_ok (length (customVecs pc)) (customCounters pair)"
  shows "counters_like pc (pc\<lparr>keySetPairs := set_pair key pair (keySetPairs pc)\<rparr>)"
  using assms list_all_set_pair[of "\<lambda>q. custom_ok (length (customVecs pc)) (customCounters q)"]
  by (simp add: counters_like_def process_ok_def)

lemma count_input_like: "process_ok pc \<Longrightarrow> counters_like pc (count_input f key pc)"
proof (cases "map_of (keySetPairs pc) key")
  case None
  moreover assume "process_ok pc"
  ultimately show ?thesis by (simp add: count_input_def counters_like_def)
next
  case (Some q)
  moreover assume p: "process_ok pc"
  moreover have "custom_ok (length (customVecs pc)) (customCounters q)"
    using p Some by (auto simp: process_ok_def list_all_iff dest: map_of_SomeD)
  ultimately show ?thesis using process_ok_set_pair[OF p Some] by (simp add: count_input_def)
qed

lemma count_process_like:
  assumes "process_ok pc" and "process_ready pc i l"
  shows "\<exists>pc'. count_process pc i n = Inr pc' \<and> counters_like pc pc'"
proof -
  obtain key q c where *: "map_of (keySetPairs pc) key = Some q" "custom_ok (length (customVecs pc)) (customCounters q)"
    "count_process pc i n = Inr (pc\<lparr>keySetPairs := set_pair key
       (q\<lparr>customCounters := (customCounters q)[i := Some (count_record c n)]\<rparr>) (keySetPairs pc)\<rparr>)"
    by (rule count_process_ready[OF assms(2)])
  then show ?thesis using process_ok_set_pair[OF assms(1) *(1)] by (simp add: custom_ok_upd)
qed

lemma count_events_ok:
  assumes "process_ok pc" and "\<forall>l i. map_of (customVecs pc) l = Some i \<longrightarrow> process_ready pc i l"
    and "fst ` set evs \<subseteq> dom (map_of (customVecs pc))"
  shows "\<exists>pc'. count_events pc evs = Inr pc' \<and> counters_like pc pc'"
  using assms
proof (induction evs arbitrary: pc)
  case Nil
  then show ?case by (simp add: counters_like_def)
next
  case (Cons e evs)
  obtain l n where e: "e = (l, n)" by fastforce
  obtain i where i: "map_of (customVecs pc) l = Some i" using Cons(4) e by auto
  have r: "process_ready pc i l" using Cons(3) i by simp
  obtain pc1 where 1: "count_process pc i n = Inr pc1" "counters_like pc pc1"
    using count_process_like[OF Cons(2) r] by blast
  have v: "customVecs pc1 = customVecs pc" "process_ok pc1" using 1(2) by (simp_all add: counters_like_def)
  have "\<forall>l i. map_of (customVecs pc1) l = Some i \<longrightarrow> process_ready pc1 i l"
    using Cons(3) process_counts.bump_keeps[OF r 1(1)] v(1) by simp
  then obtain pc2 where "count_events pc1 evs = Inr pc2" "counters_like pc1 pc2"
    using Cons(1)[OF v(2)] Cons(4) v(1) by auto
  then show ?case using 1 i e counters_like_trans by auto
qed

lemma select_like:
  assumes "counters_for n pc" and "list_all (loc_ok (length (Fields r))) (keyExtractor pc)"
  shows "\<exists>key pc'. select_metric_key_set pc r = Inr (key, pc') \<and> counters_like pc pc' \<and>
    (\<forall>l i. map_of (customVecs pc') l = Some i \<longrightarrow> process_ready pc' i l)"
proof -
  obtain key pc' where s: "select_metric_key_set pc r = Inr (key, pc')" "process_ok pc'" "customVecs pc' = customVecs pc"
    "\<forall>l i. map_of (customVecs pc) l = Some i \<longrightarrow> process_ready pc' i l"
    using select_ready[of pc r] assms by (auto simp: counters_for_def)
  have "keyExtractor pc' = keyExtractor pc \<and> serializedLengths pc' = serializedLengths pc \<and>
      chunksCounts pc' = chunksCounts pc \<and> chunksLengths pc' = chunksLengths pc"
    using s(1) by (auto simp: select_metric_key_set_def Let_def go_bind_eq_Inr split: option.splits)
  then show ?thesis using s by (intro exI[of _ key] exI[of _ pc']) (simp add: counters_like_def)
qed

lemma update_like: "counters_for n pc \<Longrightarrow> counters_like pc (update_process_counters pc)"
  by (auto simp: counters_for_def counters_like_def update_process_counters_def process_ok_def list_all_iff
      custom_ok_def update_pair_def comp_def case_prod_beta)

section \<open>The contract of an output\<close>

text \<open>
  \<open>kind\<close> is what does not change about an output. A record that \<open>fits\<close> is serialized to its
  \<open>text\<close>; \<open>packs\<close> tells which streams a chunk carries; \<open>holds\<close>: the streams not yet in a chunk.
\<close>

locale pipeline_output =
  fixes ops :: "'o output_ops"
    and kind :: "'o \<Rightarrow> 'k"
    and fits :: "'k \<Rightarrow> log_record \<Rightarrow> bool"
    and text_of :: "'k \<Rightarrow> log_record \<Rightarrow> bytes"
    and after :: "'k \<Rightarrow> log_record \<Rightarrow> log_record"
    and packs :: "'k \<Rightarrow> log_chunk \<Rightarrow> bytes list \<Rightarrow> bool"
    and holds :: "'o \<Rightarrow> bytes list \<Rightarrow> bool"
  assumes serializes: "holds c ss \<Longrightarrow> fits (kind c) r \<Longrightarrow>
      \<exists>c'. serializeRecord ops c r = Inr (text_of (kind c) r, c', after (kind c) r) \<and> kind c' = kind c \<and> holds c' ss"
    and writes: "holds c ss \<Longrightarrow>
      \<exists>mc c'. writeStream ops now s c = Inr (mc, c') \<and> kind c' = kind c \<and>
        (case mc of None \<Rightarrow> holds c' (ss @ [s]) | Some ch \<Rightarrow> packs (kind c) ch ss \<and> holds c' [s])"
    and flushes: "holds c ss \<Longrightarrow>
      \<exists>mc c'. flushBuffer ops c = (mc, c') \<and> kind c' = kind c \<and> holds c' [] \<and>
        (case mc of None \<Rightarrow> ss = [] | Some ch \<Rightarrow> packs (kind c) ch ss)"
    and framed: "same_frame r (after k r)"

fun streams :: "('k \<Rightarrow> log_record \<Rightarrow> bytes) \<Rightarrow> ('k \<Rightarrow> log_record \<Rightarrow> log_record) \<Rightarrow> 'k list \<Rightarrow> log_record \<Rightarrow> bytes list" where
  "streams txt aft [] r = []"
| "streams txt aft (k # ks) r = txt k r # streams txt aft ks ((aft k r)\<lparr>refCount := refCount r - 1\<rparr>)"

fun fit_all :: "('k \<Rightarrow> log_record \<Rightarrow> bool) \<Rightarrow> ('k \<Rightarrow> log_record \<Rightarrow> log_record) \<Rightarrow> 'k list \<Rightarrow> log_record \<Rightarrow> bool" where
  "fit_all ok aft [] r \<longleftrightarrow> True"
| "fit_all ok aft (k # ks) r \<longleftrightarrow> ok k r \<and> fit_all ok aft ks ((aft k r)\<lparr>refCount := refCount r - 1\<rparr>)"

lemma length_streams [simp]: "length (streams txt aft ks r) = length ks"
  by (induction ks arbitrary: r) simp_all

context pipeline_output
begin

text \<open>What an output has been given: the streams of its chunks, then those it still holds.\<close>

definition delivered :: "'o output_interface \<Rightarrow> bytes list \<Rightarrow> bool" where
  "delivered out sent \<longleftrightarrow>
     (\<exists>parts rest. list_all2 (packs (kind (component out))) (acceptedChunks out) parts \<and>
        holds (component out) rest \<and> concat parts @ rest = sent)"

definition kind_of :: "'o output_interface \<Rightarrow> 'k" where
  "kind_of out = kind (component out)"

lemma accept_delivered:
  assumes "counters_for n pc" and "i < n" and "kind c' = kind (component out)"
    and "list_all2 (packs (kind (component out))) (acceptedChunks out) parts"
    and "case mc of None \<Rightarrow> holds c' rest \<and> concat parts @ rest = sent
      | Some ch \<Rightarrow> packs (kind (component out)) ch ss \<and> holds c' rest \<and> concat parts @ ss @ rest = sent"
  shows "\<exists>out' pc'. accept_chunk i mc (out\<lparr>component := c'\<rparr>) pc = Inr (out', pc') \<and> counters_like pc pc' \<and>
    kind_of out' = kind_of out \<and> outputName out' = outputName out \<and> component out' = c' \<and> delivered out' sent"
proof (cases mc)
  case None
  then show ?thesis using assms(3-5) counters_like_refl[OF assms(1)]
    by (auto simp: accept_chunk_def delivered_def kind_of_def)
next
  case (Some ch)
  obtain pc' where pc: "count_chunk pc i ch = Inr pc'" "counters_like pc pc'" using count_chunk_ok[OF assms(1,2)] by blast
  have "list_all2 (packs (kind c')) (acceptedChunks out @ [ch]) (parts @ [ss])"
    using assms(3,4,5) Some by (simp add: list_all2_appendI)
  then have "delivered (out\<lparr>component := c', acceptedChunks := acceptedChunks out @ [ch]\<rparr>) sent"
    using assms(5) Some by (auto simp: delivered_def intro!: exI[of _ "parts @ [ss]"] exI[of _ rest])
  then show ?thesis using pc Some assms(3) by (simp add: accept_chunk_def kind_of_def)
qed

lemma output_delivered:
  assumes "counters_for n pc" and "i < n" and "delivered out sent" and "fits (kind_of out) r"
    and "release alloc (after (kind_of out) r) = Inr (r', alloc')"
  shows "\<exists>c1 c2 mc pc1 out' pc'.
    serializeRecord ops (component out) r = Inr (text_of (kind_of out) r, c1, after (kind_of out) r) \<and>
    count_stream pc i (text_of (kind_of out) r) = Inr pc1 \<and>
    writeStream ops now (text_of (kind_of out) r) c1 = Inr (mc, c2) \<and>
    accept_chunk i mc (out\<lparr>component := c2\<rparr>) pc1 = Inr (out', pc') \<and> counters_like pc pc' \<and>
    kind_of out' = kind_of out \<and> outputName out' = outputName out \<and> delivered out' (sent @ [text_of (kind_of out) r])"
proof -
  let ?s = "text_of (kind_of out) r"
  obtain parts rest where d: "list_all2 (packs (kind (component out))) (acceptedChunks out) parts"
    "holds (component out) rest" "concat parts @ rest = sent" using assms(3) by (auto simp: delivered_def)
  obtain c1 where 1: "serializeRecord ops (component out) r = Inr (?s, c1, after (kind_of out) r)"
    "kind c1 = kind (component out)" "holds c1 rest"
    using serializes[OF d(2)] assms(4) by (auto simp: kind_of_def)
  obtain pc1 where 2: "count_stream pc i ?s = Inr pc1" "counters_like pc pc1" using count_stream_ok[OF assms(1,2)] by blast
  obtain mc c2 where 3: "writeStream ops now ?s c1 = Inr (mc, c2)" "kind c2 = kind c1"
    "case mc of None \<Rightarrow> holds c2 (rest @ [?s]) | Some ch \<Rightarrow> packs (kind c1) ch rest \<and> holds c2 [?s]"
    using writes[OF 1(3)] by blast
  have k: "kind c2 = kind (component out)" using 1(2) 3(2) by simp
  have "\<exists>out' pc'. accept_chunk i mc (out\<lparr>component := c2\<rparr>) pc1 = Inr (out', pc') \<and> counters_like pc1 pc' \<and>
    kind_of out' = kind_of out \<and> outputName out' = outputName out \<and> component out' = c2 \<and> delivered out' (sent @ [?s])"
  proof (cases mc)
    case None
    then show ?thesis using 3(3) d(3)
      by (intro accept_delivered[OF counters_for_like[OF assms(1) 2(2)] assms(2) k d(1), where rest = "rest @ [?s]"]) simp
  next
    case (Some ch)
    then show ?thesis using 3(3) d(3) 1(2)
      by (intro accept_delivered[OF counters_for_like[OF assms(1) 2(2)] assms(2) k d(1), where rest = "[?s]" and ss = rest]) simp
  qed
  then obtain out' pc' where 4: "accept_chunk i mc (out\<lparr>component := c2\<rparr>) pc1 = Inr (out', pc')" "counters_like pc1 pc'"
    "kind_of out' = kind_of out" "outputName out' = outputName out" "delivered out' (sent @ [?s])" by blast
  show ?thesis
    using 1(1) 2(1) 3(1) 4 counters_like_trans[OF 2(2) 4(2)] by blast
qed

end

text \<open>One reference is released: the record stays, or goes back to the pool.\<close>

definition allocator_after :: "nat \<Rightarrow> log_allocator \<Rightarrow> log_allocator \<Rightarrow> bool" where
  "allocator_after k alloc alloc' \<longleftrightarrow>
     allocator_ok alloc' \<and> allocFields alloc' = allocFields alloc \<and>
     length (recordPool alloc') = length (recordPool alloc) + k"

lemma allocator_after_trans: "allocator_after j a b \<Longrightarrow> allocator_after k b c \<Longrightarrow> allocator_after (j + k) a c"
  by (simp add: allocator_after_def)

lemma in_use_after: "in_use a r \<Longrightarrow> same_frame r r' \<Longrightarrow> allocFields b = allocFields a \<Longrightarrow> in_use b r'"
  by (simp add: in_use_def same_frame_def)

lemma release_one:
  assumes "allocator_ok alloc" and "in_use alloc r" and "0 < refCount r"
  shows "\<exists>r' alloc'. release alloc r = Inr (r', alloc') \<and> allocator_after (if refCount r = 1 then 1 else 0) alloc alloc' \<and>
    (refCount r = 1 \<or> r' = r\<lparr>refCount := refCount r - 1\<rparr>)"
proof (cases "refCount r = 1")
  case True
  then show ?thesis using release_last[OF assms(1,2) True] by (auto simp: allocator_after_def)
next
  case False
  then show ?thesis using release_keeps[OF assms(1,2)] assms(1,3) by (simp add: allocator_after_def)
qed

context pipeline_output
begin

lemma output_record_ok:
  assumes "list_all2 delivered outs sents" and "fit_all fits after (map kind_of outs) r" and "counters_for n pc"
    and "i + length outs = n" and "allocator_ok alloc" and "in_use alloc r" and "refCount r = int (length outs)" and "outs \<noteq> []"
  shows "\<exists>outs' r' alloc' pc'. output_record ops clock i outs r alloc pc = Inr (outs', r', alloc', pc') \<and>
    counters_like pc pc' \<and> map kind_of outs' = map kind_of outs \<and> map outputName outs' = map outputName outs \<and>
    list_all2 delivered outs' (map2 (\<lambda>s t. s @ [t]) sents (streams text_of after (map kind_of outs) r)) \<and>
    allocator_after 1 alloc alloc'"
  using assms
proof (induction outs arbitrary: sents r pc i alloc)
  case (Cons out outs)
  obtain sent sents' where s: "sents = sent # sents'" "delivered out sent" "list_all2 delivered outs sents'"
    using Cons(2) by (auto simp: list_all2_Cons1)
  let ?k = "kind_of out"
  have f: "same_frame r (after ?k r)" by (rule framed)
  have u: "in_use alloc (after ?k r)" "refCount (after ?k r) = int (Suc (length outs))"
    using in_use_after[OF Cons(7) f] f Cons(8) by (simp_all add: same_frame_def)
  obtain r1 alloc1 where rel: "release alloc (after ?k r) = Inr (r1, alloc1)"
    "allocator_after (if outs = [] then 1 else 0) alloc alloc1"
    "outs = [] \<or> r1 = (after ?k r)\<lparr>refCount := refCount r - 1\<rparr>"
    using release_one[OF Cons(6) u(1)] u(2) f by (auto simp: same_frame_def)
  have i: "i < n" using Cons(5) by simp
  have fit: "fits ?k r" using Cons(3) by simp
  obtain c1 c2 mc pc1 out' pc2 where o1: "serializeRecord ops (component out) r = Inr (text_of ?k r, c1, after ?k r)"
    "count_stream pc i (text_of ?k r) = Inr pc1" "writeStream ops (clock i) (text_of ?k r) c1 = Inr (mc, c2)"
    "accept_chunk i mc (out\<lparr>component := c2\<rparr>) pc1 = Inr (out', pc2)" "counters_like pc pc2"
    "kind_of out' = ?k" "outputName out' = outputName out" "delivered out' (sent @ [text_of ?k r])"
    using output_delivered[OF Cons(4) i s(2) fit rel(1), of "clock i"] by (elim exE conjE) (rule that)
  show ?case
  proof (cases "outs = []")
    case True
    then show ?thesis using o1 rel(1,2) s by simp
  next
    case False
    have r1: "r1 = (after ?k r)\<lparr>refCount := refCount r - 1\<rparr>" using rel(3) False by simp
    have a1: "allocator_after 0 alloc alloc1" using rel(2) False by simp
    have "in_use alloc1 r1" "refCount r1 = int (length outs)"
      using u(1) a1 Cons(8) r1
      by (simp_all add: in_use_def allocator_after_def)
    moreover have "fit_all fits after (map kind_of outs) r1" using Cons(3) r1 by simp
    moreover have "allocator_ok alloc1" using a1 by (simp add: allocator_after_def)
    ultimately obtain outs' r2 alloc2 pc3 where o2: "output_record ops clock (Suc i) outs r1 alloc1 pc2 = Inr (outs', r2, alloc2, pc3)"
      "counters_like pc2 pc3" "map kind_of outs' = map kind_of outs" "map outputName outs' = map outputName outs"
      "list_all2 delivered outs' (map2 (\<lambda>s t. s @ [t]) sents' (streams text_of after (map kind_of outs) r1))"
      "allocator_after 1 alloc1 alloc2"
      using Cons(1)[OF s(3) _ counters_for_like[OF Cons(4) o1(5)], of r1 "Suc i" alloc1] Cons(5) False by auto
    have run: "output_record ops clock i (out # outs) r alloc pc = Inr (out' # outs', r2, alloc2, pc3)"
      using o1(1-4) rel(1) o2(1) by simp
    have like: "counters_like pc pc3" by (rule counters_like_trans[OF o1(5) o2(2)])
    have al: "allocator_after 1 alloc alloc2" using allocator_after_trans[OF a1 o2(6)] by simp
    have dl: "list_all2 delivered (out' # outs')
        (map2 (\<lambda>s t. s @ [t]) sents (streams text_of after (map kind_of (out # outs)) r))"
      using o1(8) o2(5) s(1) r1 by simp
    show ?thesis using run like al dl o1(6,7) o2(3,4)
      by (intro exI[of _ "out' # outs'"] exI[of _ r2] exI[of _ alloc2] exI[of _ pc3]) simp
  qed
qed simp

text \<open>An output whose chunks carry all it has been given.\<close>

definition flushed :: "'o output_interface \<Rightarrow> bytes list \<Rightarrow> bool" where
  "flushed out sent \<longleftrightarrow>
     holds (component out) [] \<and>
     (\<exists>parts. list_all2 (packs (kind_of out)) (acceptedChunks out) parts \<and> concat parts = sent)"

lemma flushed_delivered: "flushed out sent \<Longrightarrow> delivered out sent"
  unfolding flushed_def delivered_def kind_of_def by force

lemma flush_one:
  assumes "delivered out sent" and "counters_for n pc" and "i < n"
  shows "\<exists>mc c' out' pc'. flushBuffer ops (component out) = (mc, c') \<and>
    accept_chunk i mc (out\<lparr>component := c'\<rparr>) pc = Inr (out', pc') \<and> counters_like pc pc' \<and>
    kind_of out' = kind_of out \<and> outputName out' = outputName out \<and> flushed out' sent"
proof -
  obtain parts rest where d: "list_all2 (packs (kind (component out))) (acceptedChunks out) parts"
    "holds (component out) rest" "concat parts @ rest = sent" using assms(1) by (auto simp: delivered_def)
  obtain mc c' where f: "flushBuffer ops (component out) = (mc, c')" "kind c' = kind (component out)" "holds c' []"
    "case mc of None \<Rightarrow> rest = [] | Some ch \<Rightarrow> packs (kind (component out)) ch rest"
    using flushes[OF d(2)] by blast
  show ?thesis
  proof (cases mc)
    case None
    have "flushed (out\<lparr>component := c'\<rparr>) sent" using d(1,3) f None by (auto simp: flushed_def kind_of_def)
    then show ?thesis using f None counters_like_refl[OF assms(2)] by (simp add: accept_chunk_def kind_of_def)
  next
    case (Some ch)
    obtain pc' where pc: "count_chunk pc i ch = Inr pc'" "counters_like pc pc'" using count_chunk_ok[OF assms(2,3)] by blast
    have "list_all2 (packs (kind c')) (acceptedChunks out @ [ch]) (parts @ [rest])" "concat (parts @ [rest]) = sent"
      using d(1,3) f Some by (simp_all add: list_all2_appendI)
    then have "flushed (out\<lparr>component := c', acceptedChunks := acceptedChunks out @ [ch]\<rparr>) sent"
      using f(3) unfolding flushed_def kind_of_def by fastforce
    then show ?thesis using f pc Some by (simp add: accept_chunk_def kind_of_def)
  qed
qed

lemma flush_ok:
  assumes "list_all2 delivered outs sents" and "counters_for n pc" and "i + length outs = n"
  shows "\<exists>outs' pc'. flush_chunk ops i outs pc = Inr (outs', pc') \<and> counters_like pc pc' \<and>
    map kind_of outs' = map kind_of outs \<and> map outputName outs' = map outputName outs \<and> list_all2 flushed outs' sents"
  using assms
proof (induction outs arbitrary: sents pc i)
  case Nil
  then show ?case using counters_like_refl by simp
next
  case (Cons out outs)
  obtain sent sents' where s: "sents = sent # sents'" "delivered out sent" "list_all2 delivered outs sents'"
    using Cons(2) by (auto simp: list_all2_Cons1)
  have i: "i < n" "Suc i + length outs = n" using Cons(4) by simp_all
  obtain mc c' out' pc1 where o1: "flushBuffer ops (component out) = (mc, c')"
    "accept_chunk i mc (out\<lparr>component := c'\<rparr>) pc = Inr (out', pc1)" "counters_like pc pc1"
    "kind_of out' = kind_of out" "outputName out' = outputName out" "flushed out' sent"
    using flush_one[OF s(2) Cons(3) i(1)] by (elim exE conjE) (rule that)
  obtain outs' pc2 where o2: "flush_chunk ops (Suc i) outs pc1 = Inr (outs', pc2)" "counters_like pc1 pc2"
    "map kind_of outs' = map kind_of outs" "map outputName outs' = map outputName outs" "list_all2 flushed outs' sents'"
    using Cons(1)[OF s(3) counters_for_like[OF Cons(3) o1(3)] i(2)] by (elim exE conjE) (rule that)
  then show ?case using o1 s(1) counters_like_trans[OF o1(3) o2(2)] by simp
qed

end

section \<open>The worker\<close>

text \<open>The \<open>j\<close>-th stream of every record passed so far.\<close>

definition sent_to ::
  "('k \<Rightarrow> log_record \<Rightarrow> bytes) \<Rightarrow> ('k \<Rightarrow> log_record \<Rightarrow> log_record) \<Rightarrow> 'k list \<Rightarrow> log_record list \<Rightarrow> bytes list list" where
  "sent_to txt aft kinds passed = map (\<lambda>j. map (\<lambda>r. streams txt aft kinds r ! j) passed) [0..<length kinds]"

lemma sent_to_snoc:
  "map2 (\<lambda>s t. s @ [t]) (sent_to txt aft kinds passed) (streams txt aft kinds r) = sent_to txt aft kinds (passed @ [r])"
  by (rule nth_equalityI) (simp_all add: sent_to_def)

text \<open>The number of records recycled of those that came out of the transforms.\<close>

definition recycled :: "nat \<Rightarrow> (filter_result \<times> log_record) list \<Rightarrow> nat" where
  "recycled outputs results = length (filter (\<lambda>(res, r). res \<noteq> DROP \<or> outputs = 1) results)"

definition passed_records :: "(filter_result \<times> log_record) list \<Rightarrow> log_record list" where
  "passed_records results = map snd (filter (\<lambda>(res, r). res \<noteq> DROP) results)"

lemma results_simps [simp]:
  "recycled n [] = 0" "recycled n ((res, r) # rs) = (if res \<noteq> DROP \<or> n = 1 then 1 else 0) + recycled n rs"
  "passed_records [] = []" "passed_records ((res, r) # rs) = (if res \<noteq> DROP then r # passed_records rs else passed_records rs)"
  "passed_records (xs @ ys) = passed_records xs @ passed_records ys"
  "recycled n (xs @ ys) = recycled n xs + recycled n ys"
  by (simp_all add: recycled_def passed_records_def)

text \<open>A record as the allocator gives it out for so many outputs.\<close>

definition fresh_record :: "log_allocator \<Rightarrow> nat \<Rightarrow> log_record \<Rightarrow> bool" where
  "fresh_record alloc n r \<longleftrightarrow> in_use alloc r \<and> refCount r = int n"

context pipeline_output
begin

definition worker_inv :: "'k list \<Rightarrow> log_record list \<Rightarrow> 'o processing_worker \<Rightarrow> bool" where
  "worker_inv kinds passed w \<longleftrightarrow>
     kinds \<noteq> [] \<and> map kind_of (outputList w) = kinds \<and> counters_for (length kinds) (procCounter w) \<and>
     list_all (loc_ok (allocFields (deallocator w))) (keyExtractor (procCounter w)) \<and>
     labels_of_list (transformList w) \<subseteq> dom (map_of (customVecs (procCounter w))) \<and>
     allocator_ok (deallocator w) \<and> list_all2 delivered (outputList w) (sent_to text_of after kinds passed)"

definition worker_after :: "nat \<Rightarrow> 'o processing_worker \<Rightarrow> 'o processing_worker \<Rightarrow> bool" where
  "worker_after k w w' \<longleftrightarrow>
     allocator_after k (deallocator w) (deallocator w') \<and>
     map outputName (outputList w') = map outputName (outputList w) \<and> lastChunkTime w' = lastChunkTime w"

lemma process_record_ok:
  assumes inv: "worker_inv kinds passed w" and fr: "fresh_record (deallocator w) (length kinds) r"
    and run: "run_transforms env (transformList w) r = Some (Inr (res, ts, r', evs))"
    and fit: "res \<noteq> DROP \<Longrightarrow> fit_all fits after kinds r'"
  shows "\<exists>w'. process_record env ops clock r w = Some (Inr w') \<and> transformList w' = ts \<and>
    worker_inv kinds (passed @ passed_records [(res, r')]) w' \<and> worker_after (recycled (length kinds) [(res, r')]) w w'"
proof -
  let ?n = "allocFields (deallocator w)" and ?pc = "procCounter w"
  have i: "kinds \<noteq> []" "map kind_of (outputList w) = kinds" "counters_for (length kinds) ?pc"
    "list_all (loc_ok ?n) (keyExtractor ?pc)" "labels_of_list (transformList w) \<subseteq> dom (map_of (customVecs ?pc))"
    "allocator_ok (deallocator w)" "list_all2 delivered (outputList w) (sent_to text_of after kinds passed)"
    using inv by (simp_all add: worker_inv_def)
  have u: "in_use (deallocator w) r" "refCount r = int (length kinds)" "length (Fields r) = ?n"
    using fr by (simp_all add: fresh_record_def in_use_def)
  obtain key pc1 where 1: "select_metric_key_set ?pc r = Inr (key, pc1)" "counters_like ?pc pc1"
    "\<forall>l i. map_of (customVecs pc1) l = Some i \<longrightarrow> process_ready pc1 i l"
    using select_like[OF i(3), of r] i(4) u(3) by auto
  have lab: "labels_of_list ts = labels_of_list (transformList w)" "events_in (labels_of_list (transformList w)) evs"
    using run_labels(2)[OF run] by simp_all
  have p1: "process_ok pc1" using 1(2) by (simp add: counters_like_def)
  have "fst ` set evs \<subseteq> dom (map_of (customVecs pc1))"
    using lab(2) i(5) 1(2) by (auto simp: events_in_def counters_like_def)
  then obtain pc2 where 2: "count_events pc1 evs = Inr pc2" "counters_like pc1 pc2"
    using count_events_ok[OF p1 1(3)] by blast
  have fr': "same_frame r r'" using run_frame(2)[OF run] .
  have u': "in_use (deallocator w) r'" "refCount r' = int (length kinds)"
    using in_use_after[OF u(1) fr' refl] fr' u(2) by (simp_all add: same_frame_def)
  define f where "f c = (if res = DROP then count_record_drop c r' else count_record_pass c r')" for c
  define pc3 where "pc3 = count_input f key pc2"
  have "process_ok pc2" using 2(2) by (simp add: counters_like_def)
  then have like: "counters_like ?pc pc3"
    using counters_like_trans[OF counters_like_trans[OF 1(2) 2(2)] count_input_like] by (simp add: pc3_def)
  have shape: "keyExtractor pc3 = keyExtractor ?pc" "customVecs pc3 = customVecs ?pc" using like by (simp_all add: counters_like_def)
  show ?thesis
  proof (cases "res = DROP")
    case True
    then have ff: "f = (\<lambda>c. count_record_drop c r')" by (auto simp: f_def)
    obtain r2 alloc where rel: "release (deallocator w) r' = Inr (r2, alloc)"
      "allocator_after (if length kinds = 1 then 1 else 0) (deallocator w) alloc"
      using release_one[OF i(6) u'(1)] u'(2) i(1) by auto
    have "process_record env ops clock r w =
        Some (Inr (w\<lparr>deallocator := alloc, procCounter := pc3, transformList := ts\<rparr>))"
      using 1(1) run 2(1) True rel(1) by (simp add: process_record_def pc3_def ff)
    then show ?thesis using i rel(2) like shape lab(1) counters_for_like True
      by (simp add: worker_inv_def worker_after_def allocator_after_def)
  next
    case False
    then have ff: "f = (\<lambda>c. count_record_pass c r')" by (auto simp: f_def)
    have len: "length (outputList w) = length kinds" using i(2) by auto
    obtain outs r2 alloc pc4 where o: "output_record ops clock 0 (outputList w) r' (deallocator w) pc3 = Inr (outs, r2, alloc, pc4)"
      "counters_like pc3 pc4" "map kind_of outs = map kind_of (outputList w)" "map outputName outs = map outputName (outputList w)"
      "list_all2 delivered outs (map2 (\<lambda>s t. s @ [t]) (sent_to text_of after kinds passed)
        (streams text_of after (map kind_of (outputList w)) r'))"
      "allocator_after 1 (deallocator w) alloc"
      using output_record_ok[OF i(7) _ counters_for_like[OF i(3) like] _ i(6) u'(1), of 0 clock] fit[OF False] i(1,2) len u'(2)
      by auto
    have "process_record env ops clock r w =
        Some (Inr (w\<lparr>deallocator := alloc, procCounter := pc4, transformList := ts, outputList := outs\<rparr>))"
      using 1(1) run 2(1) False o(1) by (simp add: process_record_def pc3_def ff)
    moreover have "counters_like ?pc pc4" by (rule counters_like_trans[OF like o(2)])
    ultimately show ?thesis using i o(3-6) lab(1) counters_for_like[OF i(3)] False
      by (simp add: worker_inv_def worker_after_def allocator_after_def sent_to_snoc counters_like_def)
  qed
qed

end

section \<open>A run of the worker\<close>

fun records_of :: "batch base_event list \<Rightarrow> log_record list" where
  "records_of [] = []"
| "records_of (BaseInput b # es) = snd b @ records_of es"
| "records_of (BaseTick now # es) = records_of es"

lemma run_chain_append:
  "run_chain env ts (rs @ rs') = Some (Inr (ts2, out)) \<Longrightarrow>
    \<exists>ts1 out1 out2. run_chain env ts rs = Some (Inr (ts1, out1)) \<and> run_chain env ts1 rs' = Some (Inr (ts2, out2)) \<and> out = out1 @ out2"
proof (induction rs arbitrary: ts out)
  case (Cons r rs)
  then obtain res ts1 r1 evs out1 where 1: "run_transforms env ts r = Some (Inr (res, ts1, r1, evs))"
    "run_chain env ts1 (rs @ rs') = Some (Inr (ts2, out1))" "out = (res, r1) # out1"
    by (auto simp: run_bind_eq_Inr)
  from Cons(1)[OF 1(2)] show ?case using 1 by auto
qed simp

lemma fresh_after: "allocator_after k a b \<Longrightarrow> fresh_record a n r \<Longrightarrow> fresh_record b n r"
  by (simp add: fresh_record_def in_use_def allocator_after_def)

context pipeline_output
begin

definition all_fit :: "'k list \<Rightarrow> (filter_result \<times> log_record) list \<Rightarrow> bool" where
  "all_fit kinds results \<longleftrightarrow> (\<forall>(res, r)\<in>set results. res \<noteq> DROP \<longrightarrow> fit_all fits after kinds r)"

lemma worker_after_compose: "worker_after j a b \<Longrightarrow> worker_after k b c \<Longrightarrow> worker_after (j + k) a c"
  using allocator_after_trans by (auto simp: worker_after_def)

lemma process_batch_ok:
  assumes "worker_inv kinds passed w" and "\<forall>r\<in>set rs. fresh_record (deallocator w) (length kinds) r"
    and "run_chain env (transformList w) rs = Some (Inr (ts, results))" and "all_fit kinds results"
  shows "\<exists>w'. process_batch env ops clock k rs w = Some (Inr w') \<and> transformList w' = ts \<and>
    worker_inv kinds (passed @ passed_records results) w' \<and> worker_after (recycled (length kinds) results) w w'"
  using assms
proof (induction rs arbitrary: passed w k results)
  case Nil
  then show ?case by (simp add: worker_after_def allocator_after_def worker_inv_def)
next
  case (Cons r rs)
  obtain res ts1 r1 evs out where 1: "run_transforms env (transformList w) r = Some (Inr (res, ts1, r1, evs))"
    "run_chain env ts1 rs = Some (Inr (ts, out))" "results = (res, r1) # out"
    using Cons(4) by (auto simp: run_bind_eq_Inr)
  have fit: "res \<noteq> DROP \<Longrightarrow> fit_all fits after kinds r1" "all_fit kinds out" using Cons(5) 1(3) by (auto simp: all_fit_def)
  have fr: "fresh_record (deallocator w) (length kinds) r" using Cons(3) by simp
  obtain w1 where w1: "process_record env ops (clock k) r w = Some (Inr w1)" "transformList w1 = ts1"
    "worker_inv kinds (passed @ passed_records [(res, r1)]) w1" "worker_after (recycled (length kinds) [(res, r1)]) w w1"
    using process_record_ok[OF Cons(2) fr 1(1) fit(1)] by blast
  have fresh: "\<forall>r\<in>set rs. fresh_record (deallocator w1) (length kinds) r"
    using Cons(3) w1(4) fresh_after by (auto simp: worker_after_def)
  have run: "run_chain env (transformList w1) rs = Some (Inr (ts, out))" using 1(2) w1(2) by simp
  obtain w2 where w2: "process_batch env ops clock (Suc k) rs w1 = Some (Inr w2)" "transformList w2 = ts"
    "worker_inv kinds ((passed @ passed_records [(res, r1)]) @ passed_records out) w2" "worker_after (recycled (length kinds) out) w1 w2"
    using Cons(1)[OF w1(3) fresh run fit(2)] by blast
  have "worker_after (recycled (length kinds) results) w w2" using worker_after_compose[OF w1(4) w2(4)] 1(3) by simp
  then show ?case using w1(1) w2 1(3) by (cases "res = DROP") simp_all
qed

lemma flush_worker_ok:
  assumes "worker_inv kinds passed w"
  shows "\<exists>w'. flush_and_update ops w = Some (Inr w') \<and> transformList w' = transformList w \<and> worker_inv kinds passed w' \<and>
    worker_after 0 w w' \<and> list_all2 flushed (outputList w') (sent_to text_of after kinds passed)"
proof -
  have i: "counters_for (length kinds) (procCounter w)" "list_all2 delivered (outputList w) (sent_to text_of after kinds passed)"
    "map kind_of (outputList w) = kinds"
    using assms by (simp_all add: worker_inv_def)
  have len: "0 + length (outputList w) = length kinds" using i(3) by auto
  obtain outs pc where f: "flush_chunk ops 0 (outputList w) (procCounter w) = Inr (outs, pc)" "counters_like (procCounter w) pc"
    "map kind_of outs = map kind_of (outputList w)" "map outputName outs = map outputName (outputList w)"
    "list_all2 flushed outs (sent_to text_of after kinds passed)"
    using flush_ok[OF i(2,1) len] by (elim exE conjE) (rule that)
  have like: "counters_like (procCounter w) (update_process_counters pc)"
    using counters_like_trans[OF f(2) update_like[OF counters_for_like[OF i(1) f(2)]]] .
  have "list_all2 delivered outs (sent_to text_of after kinds passed)"
    using f(5) flushed_delivered by (rule list_all2_mono)
  then show ?thesis using f assms like counters_for_like[OF i(1) like]
    by (simp add: flush_and_update_def worker_inv_def worker_after_def allocator_after_def counters_like_def)
qed

lemma tick_ok:
  assumes "worker_inv kinds passed w"
  shows "\<exists>w'. on_tick ops now w = Some (Inr w') \<and> transformList w' = transformList w \<and> worker_inv kinds passed w' \<and> worker_after 0 w w'"
proof (cases "now - lastChunkTime w < IntermediateFlushInterval")
  case True
  then show ?thesis using assms by (simp add: on_tick_def worker_after_def allocator_after_def worker_inv_def)
next
  case False
  then show ?thesis using flush_worker_ok[OF assms] by (auto simp: on_tick_def)
qed

lemma main_ok:
  assumes "worker_inv kinds passed w" and "\<forall>r\<in>set (records_of es). fresh_record (deallocator w) (length kinds) r"
    and "run_chain env (transformList w) (records_of es) = Some (Inr (ts, results))" and "all_fit kinds results"
  shows "\<exists>w'. base_process_main (worker_base env ops) es w = Some (Inr w') \<and>
    worker_inv kinds (passed @ passed_records results) w' \<and> worker_after (recycled (length kinds) results) w w'"
  using assms
proof (induction es arbitrary: passed w results)
  case Nil
  then show ?case by (simp add: worker_after_def allocator_after_def worker_inv_def)
next
  case (Cons e es)
  show ?case
  proof (cases e)
    case (BaseInput b)
    obtain ts1 out1 out2 where r: "run_chain env (transformList w) (snd b) = Some (Inr (ts1, out1))"
      "run_chain env ts1 (records_of es) = Some (Inr (ts, out2))" "results = out1 @ out2"
      using run_chain_append[of env "transformList w" "snd b" "records_of es" ts results] Cons(4) BaseInput by auto
    have fit: "all_fit kinds out1" "all_fit kinds out2" using Cons(5) r(3) by (auto simp: all_fit_def)
    have fr: "\<forall>r\<in>set (snd b). fresh_record (deallocator w) (length kinds) r" using Cons(3) BaseInput by auto
    obtain w1 where w1: "process_batch env ops (fst b) 0 (snd b) w = Some (Inr w1)" "transformList w1 = ts1"
      "worker_inv kinds (passed @ passed_records out1) w1" "worker_after (recycled (length kinds) out1) w w1"
      using process_batch_ok[OF Cons(2) fr r(1) fit(1)] by blast
    have inp: "on_input env ops b w = Some (Inr w1)" using w1(1) by (auto simp: on_input_def)
    have fresh: "\<forall>r\<in>set (records_of es). fresh_record (deallocator w1) (length kinds) r"
      using Cons(3) BaseInput w1(4) fresh_after by (auto simp: worker_after_def)
    have run: "run_chain env (transformList w1) (records_of es) = Some (Inr (ts, out2))" using r(2) w1(2) by simp
    obtain w2 where w2: "base_process_main (worker_base env ops) es w1 = Some (Inr w2)"
      "worker_inv kinds ((passed @ passed_records out1) @ passed_records out2) w2" "worker_after (recycled (length kinds) out2) w1 w2"
      using Cons(1)[OF w1(3) fresh run fit(2)] by blast
    show ?thesis using BaseInput inp w2 worker_after_compose[OF w1(4) w2(3)] r(3)
      by (simp add: worker_base_def)
  next
    case (BaseTick now)
    obtain w1 where w1: "on_tick ops now w = Some (Inr w1)" "transformList w1 = transformList w" "worker_inv kinds passed w1" "worker_after 0 w w1"
      using tick_ok[OF Cons(2)] by blast
    have fresh: "\<forall>r\<in>set (records_of es). fresh_record (deallocator w1) (length kinds) r"
      using Cons(3) BaseTick w1(4) fresh_after by (auto simp: worker_after_def)
    have run: "run_chain env (transformList w1) (records_of es) = Some (Inr (ts, results))" using Cons(4) BaseTick w1(2) by simp
    obtain w2 where w2: "base_process_main (worker_base env ops) es w1 = Some (Inr w2)"
      "worker_inv kinds (passed @ passed_records results) w2" "worker_after (recycled (length kinds) results) w1 w2"
      using Cons(1)[OF w1(3) fresh run Cons(5)] by blast
    show ?thesis using BaseTick w1(1) w2 worker_after_compose[OF w1(4) w2(3)]
      by (simp add: worker_base_def call_tick_def)
  qed
qed

text \<open>The whole run: the chunks of every output carry the streams of all passed records.\<close>

lemma base_run_ok:
  assumes "worker_inv kinds passed w" and "\<forall>r\<in>set (records_of es). fresh_record (deallocator w) (length kinds) r"
    and "run_chain env (transformList w) (records_of es) = Some (Inr (ts, results))" and "all_fit kinds results"
  shows "\<exists>w'. base_run (worker_base env ops) es now w = Some (Inr w') \<and>
    worker_inv kinds (passed @ passed_records results) w' \<and> worker_after (recycled (length kinds) results) w w' \<and>
    list_all2 flushed (outputList w') (sent_to text_of after kinds (passed @ passed_records results))"
proof -
  obtain w1 where w1: "base_process_main (worker_base env ops) es w = Some (Inr w1)"
    "worker_inv kinds (passed @ passed_records results) w1" "worker_after (recycled (length kinds) results) w w1"
    using main_ok[OF assms] by blast
  obtain w2 where w2: "on_tick ops now w1 = Some (Inr w2)" "worker_inv kinds (passed @ passed_records results) w2" "worker_after 0 w1 w2"
    using tick_ok[OF w1(2)] by blast
  obtain w3 where w3: "flush_and_update ops w2 = Some (Inr w3)" "worker_inv kinds (passed @ passed_records results) w3"
    "worker_after 0 w2 w3" "list_all2 flushed (outputList w3) (sent_to text_of after kinds (passed @ passed_records results))"
    using flush_worker_ok[OF w2(2)] by blast
  have "worker_after (recycled (length kinds) results) w w3"
    using worker_after_compose[OF worker_after_compose[OF w1(3) w2(3)] w3(3)] by simp
  then show ?thesis using w1(1) w2(1) w3
    by (simp add: base_run_def worker_base_def call_tick_def on_stop_def)
qed

end

end
