(* ===== verification/Outputs.thy ===== *)
theory Outputs
  imports Worker
begin

text \<open>
  The outputs of a pipeline and its construction: the serializer and the chunk maker of each output
  (\<open>output/fluentdforward/config.go\<close>, \<open>output/datadog/config.go\<close>), put together as
  \<open>orchestrate/obase/pipelines.go\<close> does. Both outputs meet the contract of the worker, so the
  worker of a verified configuration delivers every record it does not drop.
\<close>

section \<open>The two outputs\<close>

datatype output_config = FluentdOutput serialization_config message_mode | DatadogOutput "bytes list"

text \<open>The mode and the tag of a fluentd output determine the functions of its chunks.\<close>

datatype 'z pipeline_component =
    FluentdOut event_serializer message_mode bytes "'z ff_chunk message_packer"
  | DatadogOut dd_serializer "'z dd_chunk message_packer"

definition ff_output_chunker :: "'z gzip \<Rightarrow> mp_lib \<Rightarrow> message_mode \<Rightarrow> bytes \<Rightarrow> 'z ff_chunk chunker" where
  "ff_output_chunker gz mp mode tag =
     ff_chunker gz mp (mode = ModeCompressedPackedForward) (Some \<lparr>encTag = tag, encAsArray = (mode = ModeForward)\<rparr>)
       ffChunkMaxRecords ffChunkMaxSizeBytes"

definition dd_output_chunker :: "'z gzip \<Rightarrow> 'z dd_chunk chunker" where
  "dd_output_chunker gz = dd_chunker gz ddChunkMaxRecords ddChunkMaxSizeBytes"

fun new_component :: "'z gzip \<Rightarrow> mp_lib \<Rightarrow> log_schema \<Rightarrow> bytes \<Rightarrow> output_config \<Rightarrow> 'z pipeline_component go" where
  "new_component gz mp schema tag (FluentdOutput config mode) =
     go_bind (must_new_event_serializer schema config) (\<lambda>ser.
     go_bind (ff_new_chunk_maker gz mp mode tag) (\<lambda>(vt, packer). Inr (FluentdOut ser mode tag packer)))"
| "new_component gz mp schema tag (DatadogOutput hiddenNames) =
     Inr (DatadogOut (new_dd_serializer schema hiddenNames tag) (snd (dd_new_chunk_maker gz)))"

fun component_serialize :: "'z pipeline_component \<Rightarrow> log_record \<Rightarrow> (bytes \<times> 'z pipeline_component \<times> log_record) go" where
  "component_serialize (FluentdOut ser mode tag p) r =
     go_bind (serialize_record ser r) (\<lambda>(s, ser, r). Inr (s, FluentdOut ser mode tag p, r))"
| "component_serialize (DatadogOut ser p) r = go_bind (dd_serialize ser r) (\<lambda>s. Inr (s, DatadogOut ser p, r))"

fun component_write ::
  "'z gzip \<Rightarrow> mp_lib \<Rightarrow> gotime \<Rightarrow> bytes \<Rightarrow> 'z pipeline_component \<Rightarrow> (log_chunk option \<times> 'z pipeline_component) go" where
  "component_write gz mp now s (FluentdOut ser mode tag p) =
     go_bind (write_stream (ff_output_chunker gz mp mode tag) now s p) (\<lambda>(mc, p). Inr (mc, FluentdOut ser mode tag p))"
| "component_write gz mp now s (DatadogOut ser p) =
     go_bind (write_stream (dd_output_chunker gz) now s p) (\<lambda>(mc, p). Inr (mc, DatadogOut ser p))"

fun component_flush :: "'z gzip \<Rightarrow> mp_lib \<Rightarrow> 'z pipeline_component \<Rightarrow> log_chunk option \<times> 'z pipeline_component" where
  "component_flush gz mp (FluentdOut ser mode tag p) =
     (case flush_buffer (ff_output_chunker gz mp mode tag) p of (mc, p) \<Rightarrow> (mc, FluentdOut ser mode tag p))"
| "component_flush gz mp (DatadogOut ser p) =
     (case flush_buffer (dd_output_chunker gz) p of (mc, p) \<Rightarrow> (mc, DatadogOut ser p))"

definition component_ops :: "'z gzip \<Rightarrow> mp_lib \<Rightarrow> 'z pipeline_component output_ops" where
  "component_ops gz mp =
     \<lparr>serializeRecord = component_serialize, writeStream = component_write gz mp, flushBuffer = component_flush gz mp\<rparr>"

section \<open>They meet the contract\<close>

text \<open>What never changes: a component without what its buffers hold.\<close>

fun blank_component :: "'z pipeline_component \<Rightarrow> 'z pipeline_component" where
  "blank_component (FluentdOut ser mode tag p) =
     FluentdOut (ser\<lparr>eventBuffer := replicate (length (eventBuffer ser)) (CHR 0x00)\<rparr>) mode tag (new_message_packer [])"
| "blank_component (DatadogOut ser p) = DatadogOut ser (new_message_packer [])"

fun component_fits :: "'z pipeline_component \<Rightarrow> log_record \<Rightarrow> bool" where
  "component_fits (FluentdOut ser mode tag p) r \<longleftrightarrow>
     length (fieldSlots ser) \<le> length (Fields r) \<and>
     slots_valid (zip (fieldSlots ser) (take (length (fieldSlots ser)) (Fields r))) (length (fieldSlots ser)) \<and>
     list_all (\<lambda>(loc, key). loc_ok (length (fieldSlots ser)) loc) (envFields ser) \<and>
     record_room ser r < length (eventBuffer ser)"
| "component_fits (DatadogOut ser p) r \<longleftrightarrow> (\<exists>s. dd_serialize ser r = Inr s)"

fun component_text :: "'z pipeline_component \<Rightarrow> log_record \<Rightarrow> bytes" where
  "component_text (FluentdOut ser mode tag p) r = record_bytes ser r"
| "component_text (DatadogOut ser p) r = projr (dd_serialize ser r)"

fun component_after :: "'z pipeline_component \<Rightarrow> log_record \<Rightarrow> log_record" where
  "component_after (FluentdOut ser mode tag p) r =
     after_fields (zip (fieldSlots ser) (take (length (fieldSlots ser)) (Fields r))) r"
| "component_after (DatadogOut ser p) r = r"

fun component_packs ::
  "mp_lib \<Rightarrow> (bytes \<Rightarrow> bytes option) \<Rightarrow> 'z pipeline_component \<Rightarrow> log_chunk \<Rightarrow> bytes list \<Rightarrow> bool" where
  "component_packs mp gunzip (FluentdOut ser mode tag p) = ff_mode_packs mp gunzip mode tag"
| "component_packs mp gunzip (DatadogOut ser p) = dd_packs gunzip"

lemma record_bytes_buffer [simp]: "record_bytes (ser\<lparr>eventBuffer := b\<rparr>) r = record_bytes ser r"
  by (simp add: record_bytes_def)

lemma record_room_buffer [simp]: "record_room (ser\<lparr>eventBuffer := b\<rparr>) r = record_room ser r"
  by (simp add: record_room_def)

text \<open>The packers of the two kinds of chunks, by the names used here.\<close>

definition ff_holding :: "'z gzip \<Rightarrow> message_mode \<Rightarrow> bytes \<Rightarrow> 'z ff_chunk message_packer \<Rightarrow> bytes list \<Rightarrow> bool" where
  "ff_holding gz mode tag p ss \<longleftrightarrow>
     (\<exists>cur. ff.packing gz (mode = ModeCompressedPackedForward) (Some \<lparr>encTag = tag, encAsArray = (mode = ModeForward)\<rparr>)
        ffChunkMaxRecords ffChunkMaxSizeBytes p cur ss)"

definition dd_holding :: "'z gzip \<Rightarrow> 'z dd_chunk message_packer \<Rightarrow> bytes list \<Rightarrow> bool" where
  "dd_holding gz p ss \<longleftrightarrow> (\<exists>cur. dd.packing gz ddChunkMaxRecords ddChunkMaxSizeBytes p cur ss)"

lemma ff_holding_write:
  assumes "gzip_ok gz gunzip" and "mp_ok mp" and "ff_holding gz mode tag p ss"
  shows "\<exists>mc p'. write_stream (ff_output_chunker gz mp mode tag) now s p = Inr (mc, p') \<and>
    (case mc of None \<Rightarrow> ff_holding gz mode tag p' (ss @ [s])
     | Some ch \<Rightarrow> ff_mode_packs mp gunzip mode tag ch ss \<and> ff_holding gz mode tag p' [s])"
proof -
  obtain cur where p: "ff.packing gz (mode = ModeCompressedPackedForward) (Some \<lparr>encTag = tag, encAsArray = (mode = ModeForward)\<rparr>)
        ffChunkMaxRecords ffChunkMaxSizeBytes p cur ss" using assms(3) by (auto simp: ff_holding_def)
  obtain mc p' cur' ss' where w: "write_stream (ff_output_chunker gz mp mode tag) now s p = Inr (mc, p')"
    "ff.packing gz (mode = ModeCompressedPackedForward) (Some \<lparr>encTag = tag, encAsArray = (mode = ModeForward)\<rparr>)
        ffChunkMaxRecords ffChunkMaxSizeBytes p' cur' ss'"
    and c: "case mc of None \<Rightarrow> ss' = ss @ [s] | Some ch \<Rightarrow> cur = [chunk_id ch] \<and> ff_mode_packs mp gunzip mode tag ch ss \<and>
        fits (ff_within ffChunkMaxRecords ffChunkMaxSizeBytes) ss \<and> ss' = [s]"
    using ff.write_packing[OF conjI[OF assms(1,2)] p, of now s, folded ff_output_chunker_def ff_mode_packs_def]
    by (elim exE conjE) (rule that)
  have "ff_holding gz mode tag p' ss'" using w(2) by (auto simp: ff_holding_def)
  then show ?thesis using w(1) c by (cases mc) simp_all
qed

lemma dd_holding_write:
  assumes "gzip_ok gz gunzip" and "dd_holding gz p ss"
  shows "\<exists>mc p'. write_stream (dd_output_chunker gz) now s p = Inr (mc, p') \<and>
    (case mc of None \<Rightarrow> dd_holding gz p' (ss @ [s]) | Some ch \<Rightarrow> dd_packs gunzip ch ss \<and> dd_holding gz p' [s])"
proof -
  obtain cur where p: "dd.packing gz ddChunkMaxRecords ddChunkMaxSizeBytes p cur ss" using assms(2) by (auto simp: dd_holding_def)
  obtain mc p' cur' ss' where w: "write_stream (dd_output_chunker gz) now s p = Inr (mc, p')"
    "dd.packing gz ddChunkMaxRecords ddChunkMaxSizeBytes p' cur' ss'"
    and c: "case mc of None \<Rightarrow> ss' = ss @ [s] | Some ch \<Rightarrow> cur = [chunk_id ch] \<and> dd_packs gunzip ch ss \<and>
        fits (dd_within ddChunkMaxRecords ddChunkMaxSizeBytes) ss \<and> ss' = [s]"
    using dd.write_packing[OF assms(1) p, of now s, folded dd_output_chunker_def] by (elim exE conjE) (rule that)
  have "dd_holding gz p' ss'" using w(2) by (auto simp: dd_holding_def)
  then show ?thesis using w(1) c by (cases mc) simp_all
qed

lemma ff_holding_flush:
  assumes "gzip_ok gz gunzip" and "mp_ok mp" and "ff_holding gz mode tag p ss"
  shows "\<exists>mc p'. flush_buffer (ff_output_chunker gz mp mode tag) p = (mc, p') \<and> ff_holding gz mode tag p' [] \<and>
    (case mc of None \<Rightarrow> ss = [] | Some ch \<Rightarrow> ff_mode_packs mp gunzip mode tag ch ss)"
proof -
  obtain cur where p: "ff.packing gz (mode = ModeCompressedPackedForward) (Some \<lparr>encTag = tag, encAsArray = (mode = ModeForward)\<rparr>)
        ffChunkMaxRecords ffChunkMaxSizeBytes p cur ss" using assms(3) by (auto simp: ff_holding_def)
  obtain mc p' where w: "flush_buffer (ff_output_chunker gz mp mode tag) p = (mc, p')"
    "ff.packing gz (mode = ModeCompressedPackedForward) (Some \<lparr>encTag = tag, encAsArray = (mode = ModeForward)\<rparr>)
        ffChunkMaxRecords ffChunkMaxSizeBytes p' [] []"
    and c: "case mc of None \<Rightarrow> ss = [] \<and> cur = [] | Some ch \<Rightarrow> cur = [chunk_id ch] \<and> ff_mode_packs mp gunzip mode tag ch ss \<and>
        fits (ff_within ffChunkMaxRecords ffChunkMaxSizeBytes) ss"
    using ff.flush_packing[OF conjI[OF assms(1,2)] p, folded ff_output_chunker_def ff_mode_packs_def]
    by (elim exE conjE) (rule that)
  have "ff_holding gz mode tag p' []" using w(2) by (auto simp: ff_holding_def)
  then show ?thesis using w(1) c by (cases mc) simp_all
qed

lemma dd_holding_flush:
  assumes "gzip_ok gz gunzip" and "dd_holding gz p ss"
  shows "\<exists>mc p'. flush_buffer (dd_output_chunker gz) p = (mc, p') \<and> dd_holding gz p' [] \<and>
    (case mc of None \<Rightarrow> ss = [] | Some ch \<Rightarrow> dd_packs gunzip ch ss)"
proof -
  obtain cur where p: "dd.packing gz ddChunkMaxRecords ddChunkMaxSizeBytes p cur ss" using assms(2) by (auto simp: dd_holding_def)
  obtain mc p' where w: "flush_buffer (dd_output_chunker gz) p = (mc, p')"
    "dd.packing gz ddChunkMaxRecords ddChunkMaxSizeBytes p' [] []"
    and c: "case mc of None \<Rightarrow> ss = [] \<and> cur = [] | Some ch \<Rightarrow> cur = [chunk_id ch] \<and> dd_packs gunzip ch ss \<and>
        fits (dd_within ddChunkMaxRecords ddChunkMaxSizeBytes) ss"
    using dd.flush_packing[OF assms(1) p, folded dd_output_chunker_def] by (elim exE conjE) (rule that)
  have "dd_holding gz p' []" using w(2) by (auto simp: dd_holding_def)
  then show ?thesis using w(1) c by (cases mc) simp_all
qed

lemma new_packer_holding: "ff_holding gz mode tag (new_message_packer k) []" "dd_holding gz (new_message_packer k) []"
  unfolding ff_holding_def dd_holding_def by (rule exI, rule ff.new_packing) (rule exI, rule dd.new_packing)

fun component_holds ::
  "'z gzip \<Rightarrow> (bytes \<Rightarrow> bytes option) \<Rightarrow> mp_lib \<Rightarrow> 'z pipeline_component \<Rightarrow> bytes list \<Rightarrow> bool" where
  "component_holds gz gunzip mp (FluentdOut ser mode tag p) ss \<longleftrightarrow> gzip_ok gz gunzip \<and> mp_ok mp \<and> ff_holding gz mode tag p ss"
| "component_holds gz gunzip mp (DatadogOut ser p) ss \<longleftrightarrow> gzip_ok gz gunzip \<and> mp_ok mp \<and> dd_holding gz p ss"

lemma component_serializes:
  assumes "component_holds gz gunzip mp c ss" and "component_fits (blank_component c) r"
  shows "\<exists>c'. component_serialize c r = Inr (component_text (blank_component c) r, c', component_after (blank_component c) r) \<and>
    blank_component c' = blank_component c \<and> component_holds gz gunzip mp c' ss"
proof (cases c)
  case (FluentdOut ser mode tag p)
  have "serialize_record ser r = Inr (record_bytes ser r,
      ser\<lparr>eventBuffer := patch (eventBuffer ser) 0 (record_bytes ser r)\<rparr>,
      after_fields (zip (fieldSlots ser) (take (length (fieldSlots ser)) (Fields r))) r)"
    "length (record_bytes ser r) \<le> length (eventBuffer ser)"
    using serialize_record_ok[of ser r] assms(2) FluentdOut by simp_all
  then show ?thesis using assms(1) FluentdOut by simp
next
  case (DatadogOut ser p)
  then show ?thesis using assms by auto
qed

lemma component_writes:
  assumes "component_holds gz gunzip mp c ss"
  shows "\<exists>mc c'. component_write gz mp now s c = Inr (mc, c') \<and> blank_component c' = blank_component c \<and>
    (case mc of None \<Rightarrow> component_holds gz gunzip mp c' (ss @ [s])
     | Some ch \<Rightarrow> component_packs mp gunzip (blank_component c) ch ss \<and> component_holds gz gunzip mp c' [s])"
proof (cases c)
  case (FluentdOut ser mode tag p)
  then have l: "gzip_ok gz gunzip" "mp_ok mp" "ff_holding gz mode tag p ss" using assms by simp_all
  obtain mc p' where w: "write_stream (ff_output_chunker gz mp mode tag) now s p = Inr (mc, p')"
    and c: "case mc of None \<Rightarrow> ff_holding gz mode tag p' (ss @ [s])
     | Some ch \<Rightarrow> ff_mode_packs mp gunzip mode tag ch ss \<and> ff_holding gz mode tag p' [s]"
    using ff_holding_write[OF l] by blast
  show ?thesis using w c l FluentdOut by (cases mc) simp_all
next
  case (DatadogOut ser p)
  then have l: "gzip_ok gz gunzip" "mp_ok mp" "dd_holding gz p ss" using assms by simp_all
  obtain mc p' where w: "write_stream (dd_output_chunker gz) now s p = Inr (mc, p')"
    and c: "case mc of None \<Rightarrow> dd_holding gz p' (ss @ [s]) | Some ch \<Rightarrow> dd_packs gunzip ch ss \<and> dd_holding gz p' [s]"
    using dd_holding_write[OF l(1,3)] by blast
  show ?thesis using w c l DatadogOut by (cases mc) simp_all
qed

lemma component_flushes:
  assumes "component_holds gz gunzip mp c ss"
  shows "\<exists>mc c'. component_flush gz mp c = (mc, c') \<and> blank_component c' = blank_component c \<and> component_holds gz gunzip mp c' [] \<and>
    (case mc of None \<Rightarrow> ss = [] | Some ch \<Rightarrow> component_packs mp gunzip (blank_component c) ch ss)"
proof (cases c)
  case (FluentdOut ser mode tag p)
  then have l: "gzip_ok gz gunzip" "mp_ok mp" "ff_holding gz mode tag p ss" using assms by simp_all
  obtain mc p' where w: "flush_buffer (ff_output_chunker gz mp mode tag) p = (mc, p')" "ff_holding gz mode tag p' []"
    and c: "case mc of None \<Rightarrow> ss = [] | Some ch \<Rightarrow> ff_mode_packs mp gunzip mode tag ch ss"
    using ff_holding_flush[OF l] by blast
  show ?thesis using w c l FluentdOut by (cases mc) simp_all
next
  case (DatadogOut ser p)
  then have l: "gzip_ok gz gunzip" "mp_ok mp" "dd_holding gz p ss" using assms by simp_all
  obtain mc p' where w: "flush_buffer (dd_output_chunker gz) p = (mc, p')" "dd_holding gz p' []"
    and c: "case mc of None \<Rightarrow> ss = [] | Some ch \<Rightarrow> dd_packs gunzip ch ss"
    using dd_holding_flush[OF l(1,3)] by blast
  show ?thesis using w c l DatadogOut by (cases mc) simp_all
qed

lemma component_framed: "same_frame r (component_after k r)"
proof (cases k)
  case (FluentdOut ser mode tag p)
  then obtain u where "component_after k r = r\<lparr>Unescaped := u\<rparr>" using after_fields_keeps by fastforce
  then show ?thesis by (simp add: same_frame_def)
qed simp

interpretation outputs: pipeline_output "component_ops gz mp" blank_component component_fits component_text component_after
    "component_packs mp gunzip" "component_holds gz gunzip mp"
  for gz :: "'z gzip" and gunzip mp
  by unfold_locales
    (simp_all only: component_ops_def output_ops.simps component_serializes component_writes component_flushes component_framed)

section \<open>Starting a pipeline\<close>

fun register_labels :: "bytes list \<Rightarrow> process_counters \<Rightarrow> process_counters" where
  "register_labels [] pc = pc"
| "register_labels (l # ls) pc = register_labels ls (snd (register_process_counter pc l))"

fun new_interfaces ::
  "'z gzip \<Rightarrow> mp_lib \<Rightarrow> log_schema \<Rightarrow> bytes \<Rightarrow> (bytes \<times> output_config) list \<Rightarrow> 'z pipeline_component output_interface list go" where
  "new_interfaces gz mp schema tag [] = Inr []"
| "new_interfaces gz mp schema tag ((name, cfg) # pairs) =
     go_bind (new_component gz mp schema tag cfg) (\<lambda>c.
     go_bind (new_interfaces gz mp schema tag pairs) (\<lambda>outs.
       Inr (\<lparr>component = c, outputName = name, acceptedChunks = []\<rparr> # outs)))"

definition start_pipeline ::
  "environment \<Rightarrow> 'z gzip \<Rightarrow> mp_lib \<Rightarrow> log_schema \<Rightarrow> locator list \<Rightarrow> transform_config list \<Rightarrow>
    (bytes \<times> output_config) list \<Rightarrow> bytes \<Rightarrow> log_allocator \<Rightarrow> gotime \<Rightarrow> 'z pipeline_component processing_worker run" where
  "start_pipeline env gz mp schema metricKeys transforms pairs tag alloc now =
     run_bind (Some (new_interfaces gz mp schema tag pairs)) (\<lambda>outs.
     run_bind (Some (new_process_counters schema metricKeys (map fst pairs))) (\<lambda>pc.
     run_bind (new_transforms env schema transforms) (\<lambda>(ts, labels).
       Some (Inr (new_processing_worker alloc (register_labels labels pc) ts outs now)))))"

section \<open>What an output is for\<close>

definition output_ok :: "log_schema \<Rightarrow> output_config \<Rightarrow> bool" where
  "output_ok schema cfg =
     (case cfg of
        FluentdOutput config mode \<Rightarrow> serialization_ok schema config \<and> length (environmentFields config) < 65536 \<and>
          mode \<in> {ModeForward, ModePackedForward, ModeCompressedPackedForward}
      | DatadogOutput hiddenNames \<Rightarrow> True)"

text \<open>A record the output has room for.\<close>

definition output_fits :: "log_schema \<Rightarrow> output_config \<Rightarrow> log_record \<Rightarrow> bool" where
  "output_fits schema cfg r =
     (length (fieldNames schema) \<le> length (Fields r) \<and>
      (case cfg of
         FluentdOutput config mode \<Rightarrow>
           (case new_event_serializer schema config of
              Inr (Inr ser) \<Rightarrow> record_room ser r < 2 * InputLogMaxRecordBytes
            | _ \<Rightarrow> False)
       | DatadogOutput hiddenNames \<Rightarrow> True))"

text \<open>A stream that carries a record; a chunk that carries streams.\<close>

definition stream_carries :: "log_schema \<Rightarrow> bytes \<Rightarrow> output_config \<Rightarrow> log_record \<Rightarrow> bytes \<Rightarrow> bool" where
  "stream_carries schema tag cfg r s =
     (case cfg of
        FluentdOutput config mode \<Rightarrow> \<exists>u. decode 4 s = Some (event_message schema config (r\<lparr>Unescaped := u\<rparr>), [])
      | DatadogOutput hiddenNames \<Rightarrow> dd_serialize (new_dd_serializer schema hiddenNames tag) r = Inr s)"

definition chunk_carries ::
  "mp_lib \<Rightarrow> (bytes \<Rightarrow> bytes option) \<Rightarrow> bytes \<Rightarrow> output_config \<Rightarrow> log_chunk \<Rightarrow> bytes list \<Rightarrow> bool" where
  "chunk_carries mp gunzip tag cfg =
     (case cfg of FluentdOutput config mode \<Rightarrow> ff_mode_packs mp gunzip mode tag | DatadogOutput hiddenNames \<Rightarrow> dd_packs gunzip)"

text \<open>The fixed part of the component of an output.\<close>

definition component_for :: "log_schema \<Rightarrow> bytes \<Rightarrow> output_config \<Rightarrow> 'z pipeline_component \<Rightarrow> bool" where
  "component_for schema tag cfg k =
     (case cfg of
        FluentdOutput config mode \<Rightarrow> \<exists>ser p. new_event_serializer schema config = Inr (Inr ser) \<and> k = FluentdOut ser mode tag p
      | DatadogOutput hiddenNames \<Rightarrow> \<exists>p. k = DatadogOut (new_dd_serializer schema hiddenNames tag) p)"

lemma new_component_ok:
  assumes "output_ok schema cfg" and "gzip_ok gz gunzip" and "mp_ok mp"
  shows "\<exists>c. new_component gz mp schema tag cfg = Inr c \<and> component_for schema tag cfg (blank_component c) \<and>
    component_holds gz gunzip mp c []"
proof (cases cfg)
  case (FluentdOutput config mode)
  then have so: "serialization_ok schema config" using assms(1) by (simp add: output_ok_def)
  then obtain locs ser where ser: "new_event_serializer schema config = Inr (Inr ser)"
    "eventBuffer ser = replicate (2 * InputLogMaxRecordBytes) (CHR 0x00)"
    using new_event_serializer_ok[OF so] by auto
  have blank: "ser\<lparr>eventBuffer := replicate (length (eventBuffer ser)) (CHR 0x00)\<rparr> = ser" using ser(2) by simp
  obtain vt where "ff_new_chunk_maker gz mp mode tag = Inr (vt, new_message_packer ffChunkIDSuffix)"
    using assms(1) FluentdOutput by (auto simp: output_ok_def ff_new_chunk_maker_def Let_def)
  then show ?thesis using FluentdOutput ser blank assms(2,3) new_packer_holding
    by (simp add: must_new_event_serializer_def must_def component_for_def)
next
  case (DatadogOutput hiddenNames)
  then show ?thesis using assms(2,3) new_packer_holding by (simp add: component_for_def dd_new_chunk_maker_def)
qed

lemma new_interfaces_ok:
  assumes "\<forall>(name, cfg)\<in>set pairs. output_ok schema cfg" and "gzip_ok gz gunzip" and "mp_ok mp"
  shows "\<exists>outs. new_interfaces gz mp schema tag pairs = Inr outs \<and> map outputName outs = map fst pairs \<and>
    list_all2 (\<lambda>cfg k. component_for schema tag cfg k) (map snd pairs) (map outputs.kind_of outs) \<and>
    list_all2 (outputs.delivered mp gunzip gz) outs (map (\<lambda>_. []) pairs)"
  using assms(1)
proof (induction pairs)
  case (Cons pair pairs)
  obtain name cfg where p: "pair = (name, cfg)" by fastforce
  obtain c where c: "new_component gz mp schema tag cfg = Inr c" "component_for schema tag cfg (blank_component c)"
    "component_holds gz gunzip mp c []"
    using new_component_ok[of schema cfg gz gunzip mp tag] Cons(2) assms(2,3) p by auto
  have "outputs.delivered mp gunzip gz \<lparr>component = c, outputName = name, acceptedChunks = []\<rparr> []"
    using c(3) by (simp add: outputs.delivered_def)
  then show ?case using Cons c(1,2) p by (auto simp: outputs.kind_of_def)
qed simp

lemma loc_names_ok: "list_all (loc_ok (length (fieldNames schema))) locs \<Longrightarrow> \<exists>names. loc_names schema locs = Inr names"
  by (induction locs) (auto simp: loc_name_def go_index_def loc_ok_def)

lemma register_labels_ok:
  assumes "vecs_ok (customVecs pc)" and "keySetPairs pc = []"
  shows "vecs_ok (customVecs (register_labels ls pc)) \<and> keySetPairs (register_labels ls pc) = [] \<and>
    set ls \<subseteq> dom (map_of (customVecs (register_labels ls pc))) \<and>
    dom (map_of (customVecs pc)) \<subseteq> dom (map_of (customVecs (register_labels ls pc))) \<and>
    keyExtractor (register_labels ls pc) = keyExtractor pc \<and> serializedLengths (register_labels ls pc) = serializedLengths pc \<and>
    chunksCounts (register_labels ls pc) = chunksCounts pc \<and> chunksLengths (register_labels ls pc) = chunksLengths pc"
  using assms
proof (induction ls arbitrary: pc)
  case (Cons l ls)
  obtain i pc1 where r: "register_process_counter pc l = (i, pc1)" by fastforce
  have 1: "vecs_ok (customVecs pc1)" "keySetPairs pc1 = []" "map_of (customVecs pc1) l = Some i"
    "dom (map_of (customVecs pc)) \<subseteq> dom (map_of (customVecs pc1))"
    using register_process_ok[OF Cons(2,3) r] by (auto simp: dom_def)
  have same: "keyExtractor pc1 = keyExtractor pc" "serializedLengths pc1 = serializedLengths pc"
    "chunksCounts pc1 = chunksCounts pc" "chunksLengths pc1 = chunksLengths pc"
    using r by (auto simp: register_process_counter_def Let_def split: option.splits)
  note ih = Cons(1)[OF 1(1,2)]
  have "l \<in> dom (map_of (customVecs pc1))" using 1(3) by auto
  then have "l \<in> dom (map_of (customVecs (register_labels ls pc1)))" using ih by (meson subsetD)
  moreover have "dom (map_of (customVecs pc)) \<subseteq> dom (map_of (customVecs (register_labels ls pc1)))"
    using 1(4) ih by (meson subset_trans)
  ultimately show ?case using ih same r by simp
qed simp

lemma counters_start:
  assumes "list_all (loc_ok (length (fieldNames schema))) locs"
  shows "\<exists>pc. new_process_counters schema locs names = Inr pc \<and> counters_for (length names) (register_labels ls pc) \<and>
    keyExtractor (register_labels ls pc) = locs \<and> set ls \<subseteq> dom (map_of (customVecs (register_labels ls pc)))"
proof -
  obtain ns where "loc_names schema locs = Inr ns" using loc_names_ok[OF assms] by blast
  then obtain pc where pc: "new_process_counters schema locs names = Inr pc" "keyExtractor pc = locs" "customVecs pc = []"
    "keySetPairs pc = []" "length (serializedLengths pc) = length names" "length (chunksCounts pc) = length names"
    "length (chunksLengths pc) = length names"
    by (simp add: new_process_counters_def)
  have "vecs_ok (customVecs pc)" by (simp add: pc vecs_ok_def)
  from register_labels_ok[OF this pc(4), of ls] pc show ?thesis by (simp add: counters_for_def process_ok_def)
qed

section \<open>Every stream carries its record\<close>

text \<open>A record as a later output sees it.\<close>

abbreviation seen_as :: "log_record \<Rightarrow> bool \<Rightarrow> int \<Rightarrow> log_record" where
  "seen_as r u n \<equiv> r\<lparr>Unescaped := u, refCount := n\<rparr>"

lemma rewriter_limit_fields: "Fields r' = Fields r \<Longrightarrow> rewriter_limit w v r' = rewriter_limit w v r"
  by (induction w) (simp_all add: inlined_def)

lemma fields_room_fields: "Fields r' = Fields r \<Longrightarrow> fields_room l r' = fields_room l r"
proof (induction l r arbitrary: r' rule: fields_room.induct)
  case (2 masked key rw v rest r)
  show ?case
  proof (cases "masked \<or> v = []")
    case True
    then show ?thesis using 2(1)[OF True 2(4)] by simp
  next
    case False
    show ?thesis
    proof (cases rw)
      case None
      then show ?thesis using 2(2)[OF False None 2(4)] False by simp
    next
      case (Some w)
      have "Fields (after_rewrite w r') = Fields (after_rewrite w r)" using 2(4) by simp
      then have "fields_room rest (after_rewrite w r') = fields_room rest (after_rewrite w r)" by (rule 2(3)[OF False Some])
      moreover have "rewriter_limit w v r' = rewriter_limit w v r" by (rule rewriter_limit_fields[OF 2(4)])
      ultimately show ?thesis using False Some by simp
    qed
  qed
qed simp

lemma record_room_seen: "record_room ser (seen_as r u n) = record_room ser r"
  using fields_room_fields[of "seen_as r u n" r] by (simp add: record_room_def)

lemma component_after_seen: "\<exists>u. component_after k r = r\<lparr>Unescaped := u\<rparr>"
proof (cases k)
  case (FluentdOut ser mode tag p)
  then show ?thesis using after_fields_keeps by fastforce
next
  case (DatadogOut ser p)
  then show ?thesis by (intro exI[of _ "Unescaped r"]) simp
qed

lemma streams_seen:
  "j < length kinds \<Longrightarrow> \<exists>u n. streams component_text component_after kinds r ! j = component_text (kinds ! j) (seen_as r u n)"
proof (induction kinds arbitrary: r j)
  case (Cons k kinds)
  show ?case
  proof (cases j)
    case 0
    then show ?thesis by (intro exI[of _ "Unescaped r"] exI[of _ "refCount r"]) simp
  next
    case (Suc j')
    obtain u where u: "component_after k r = r\<lparr>Unescaped := u\<rparr>" using component_after_seen by blast
    then obtain u' n' where "streams component_text component_after kinds (seen_as r u (refCount r - 1)) ! j' =
        component_text (kinds ! j') (seen_as (seen_as r u (refCount r - 1)) u' n')"
      using Cons(1)[of j' "seen_as r u (refCount r - 1)"] Cons(2) Suc by auto
    then show ?thesis using u Suc by (intro exI[of _ u'] exI[of _ n']) simp
  qed
qed simp

lemma fit_all_seen:
  "(\<forall>k\<in>set kinds. \<forall>u n. component_fits k (seen_as r u n)) \<Longrightarrow> fit_all component_fits component_after kinds r"
proof (induction kinds arbitrary: r)
  case (Cons k kinds)
  obtain u where u: "component_after k r = r\<lparr>Unescaped := u\<rparr>" using component_after_seen by blast
  have "component_fits k (seen_as r (Unescaped r) (refCount r))" using Cons(2) by (meson list.set_intros(1))
  moreover have "fit_all component_fits component_after kinds (seen_as r u (refCount r - 1))"
    using Cons(2) by (intro Cons(1)) simp
  ultimately show ?case using u by simp
qed simp

lemma dd_fits:
  assumes "length (fieldNames schema) \<le> length (Fields r)" and "distinct (fieldNames schema)"
  shows "\<exists>s. dd_serialize (new_dd_serializer schema hiddenNames tag) r = Inr s"
proof -
  let ?ser = "new_dd_serializer schema hiddenNames tag"
  have a: "distinct (fieldNames (ddSchema ?ser))" "length (ddMasks ?ser) = length (fieldNames (ddSchema ?ser))"
    "\<forall>j<length (fieldNames (ddSchema ?ser)). \<not> ddMasks ?ser ! j \<longrightarrow> j < length (Fields r)"
    using assms by (simp_all add: new_dd_serializer_def)
  show ?thesis using dd_serialize_map[OF a] by blast
qed

lemma component_fits_config:
  assumes "output_ok schema cfg" and "component_for schema tag cfg k" and "output_fits schema cfg r" and "distinct (fieldNames schema)"
  shows "component_fits k (seen_as r u n)"
proof (cases cfg)
  case (FluentdOutput config mode)
  then obtain ser p where k: "new_event_serializer schema config = Inr (Inr ser)" "k = FluentdOut ser mode tag p"
    and so: "serialization_ok schema config"
    using assms(1,2) by (auto simp: component_for_def output_ok_def)
  have room: "record_room ser r < 2 * InputLogMaxRecordBytes" "length (fieldNames schema) \<le> length (Fields r)"
    using assms(3) FluentdOutput k(1) by (simp_all add: output_fits_def)
  show ?thesis using built_serializer[OF so k(1), of "take (length (fieldNames schema)) (Fields r)"] room k(2)
    by (simp add: record_room_seen)
next
  case (DatadogOutput hiddenNames)
  then obtain p where "k = DatadogOut (new_dd_serializer schema hiddenNames tag) p"
    using assms(2) by (auto simp: component_for_def)
  then show ?thesis using dd_fits[of schema "seen_as r u n"] assms(3,4) by (simp add: output_fits_def)
qed

lemma dd_serialize_seen: "dd_serialize ser (seen_as r u n) = dd_serialize ser r"
  by (simp add: dd_serialize_def)

lemma component_text_carries:
  assumes "output_ok schema cfg" and "component_for schema tag cfg k" and "output_fits schema cfg r" and "distinct (fieldNames schema)"
    and "length (fieldNames schema) < 65535"
  shows "stream_carries schema tag cfg r (component_text k (seen_as r u n))"
proof (cases cfg)
  case (FluentdOutput config mode)
  then obtain ser p where k: "new_event_serializer schema config = Inr (Inr ser)" "k = FluentdOut ser mode tag p"
    and so: "serialization_ok schema config" "length (environmentFields config) < 65536"
    using assms(1,2) by (auto simp: component_for_def output_ok_def)
  have room: "record_room ser (seen_as r u n) < 2 ^ 32" "length (fieldNames schema) \<le> length (Fields (seen_as r u n))"
    using assms(3) FluentdOutput k(1)
    by (simp_all add: output_fits_def record_room_seen InputLogMaxRecordBytes_def InputLogMaxMessageBytes_def)
  have "event_message schema config (seen_as r u n) = event_message schema config (r\<lparr>Unescaped := u\<rparr>)"
    by (simp add: event_message_def)
  then show ?thesis using record_bytes_event[OF so(1) k(1) room(2) assms(5) so(2) room(1)] FluentdOutput k(2)
    by (auto simp: stream_carries_def)
next
  case (DatadogOutput hiddenNames)
  then obtain p where "k = DatadogOut (new_dd_serializer schema hiddenNames tag) p"
    using assms(2) by (auto simp: component_for_def)
  then show ?thesis using dd_fits[of schema r hiddenNames tag] assms(3,4) DatadogOutput
    by (auto simp: output_fits_def stream_carries_def dd_serialize_seen)
qed

lemma component_packs_config: "component_for schema tag cfg k \<Longrightarrow> component_packs mp gunzip k = chunk_carries mp gunzip tag cfg"
  by (cases cfg) (auto simp: component_for_def chunk_carries_def)

lemma start_pipeline_ok:
  assumes "gzip_ok gz gunzip" and "mp_ok mp" and "list_all (loc_ok (length (fieldNames schema))) metricKeys"
    and "length (fieldNames schema) \<le> maxFields schema" and "pairs \<noteq> []" and "\<forall>(name, cfg)\<in>set pairs. output_ok schema cfg"
    and "allocator_ok alloc" and "allocFields alloc = maxFields schema"
    and "new_transforms env schema transforms = Some (Inr (ts, labels))"
  shows "\<exists>w. start_pipeline env gz mp schema metricKeys transforms pairs tag alloc now = Some (Inr w) \<and>
    transformList w = ts \<and> deallocator w = alloc \<and> length (outputList w) = length pairs \<and>
    list_all2 (component_for schema tag) (map snd pairs) (map outputs.kind_of (outputList w)) \<and>
    outputs.worker_inv mp gunzip gz (map outputs.kind_of (outputList w)) [] w"
proof -
  obtain outs where o: "new_interfaces gz mp schema tag pairs = Inr outs" "map outputName outs = map fst pairs"
    "list_all2 (component_for schema tag) (map snd pairs) (map outputs.kind_of outs)"
    "list_all2 (outputs.delivered mp gunzip gz) outs (map (\<lambda>_. []) pairs)"
    using new_interfaces_ok[OF assms(6,1,2)] by auto
  obtain pc where p: "new_process_counters schema metricKeys (map fst pairs) = Inr pc"
    "counters_for (length (map fst pairs)) (register_labels labels pc)" "keyExtractor (register_labels labels pc) = metricKeys"
    "set labels \<subseteq> dom (map_of (customVecs (register_labels labels pc)))"
    using counters_start[OF assms(3)] by blast
  have len: "length outs = length pairs" using o(2) map_eq_imp_length_eq by blast
  define w where "w = new_processing_worker alloc (register_labels labels pc) ts outs now"
  have "list_all (loc_ok (allocFields alloc)) metricKeys"
    using assms(3,4,8) by (auto simp: list_all_iff intro: loc_ok_mono)
  moreover have "labels_of_list ts = set labels" using new_labels(2)[OF assms(9)] .
  moreover have "map (\<lambda>_. []) pairs = sent_to component_text component_after (map outputs.kind_of outs) []"
    by (rule nth_equalityI) (simp_all add: sent_to_def len)
  ultimately have "outputs.worker_inv mp gunzip gz (map outputs.kind_of outs) [] w"
    using o(4) p(2-4) assms(5,7) len by (auto simp: outputs.worker_inv_def w_def new_processing_worker_def)
  then show ?thesis using o p(1) assms(9) len
    by (simp add: start_pipeline_def w_def new_processing_worker_def)
qed

text \<open>The chunks of a flushed output, in terms of its configuration.\<close>

lemma flushed_carries:
  assumes "output_ok schema cfg" and "component_for schema tag cfg (kinds ! j)" and "j < length kinds"
    and "\<forall>r\<in>set passed. output_fits schema cfg r" and "distinct (fieldNames schema)" and "length (fieldNames schema) < 65535"
    and "outputs.kind_of out = kinds ! j"
    and "outputs.flushed mp gunzip gz out (map (\<lambda>r. streams component_text component_after kinds r ! j) passed)"
  shows "\<exists>parts. list_all2 (chunk_carries mp gunzip tag cfg) (acceptedChunks out) parts \<and>
    list_all2 (stream_carries schema tag cfg) passed (concat parts)"
proof -
  let ?texts = "map (\<lambda>r. streams component_text component_after kinds r ! j) passed"
  obtain parts where parts: "list_all2 (component_packs mp gunzip (kinds ! j)) (acceptedChunks out) parts" "concat parts = ?texts"
    using assms(8) by (auto simp: outputs.flushed_def assms(7))
  have "stream_carries schema tag cfg r (streams component_text component_after kinds r ! j)" if r: "r \<in> set passed" for r
  proof -
    obtain u n where "streams component_text component_after kinds r ! j = component_text (kinds ! j) (seen_as r u n)"
      using streams_seen[OF assms(3), of r] by auto
    then show ?thesis using component_text_carries[OF assms(1,2) _ assms(5,6)] assms(4) r by simp
  qed
  then have "list_all2 (stream_carries schema tag cfg) passed (concat parts)"
    unfolding parts(2) by (simp add: list_all2_conv_all_nth)
  then show ?thesis using parts(1) component_packs_config[OF assms(2), of mp gunzip] by (intro exI[of _ parts]) simp
qed

section \<open>Properties\<close>


section \<open>A sample pipeline\<close>

definition sample_pairs :: "(bytes \<times> output_config) list" where
  "sample_pairs = [(''dd'', DatadogOutput []), (''ff'', FluentdOutput sample_config ModeForward)]"

definition two_outputs_record :: log_record where
  "two_outputs_record = sample_record\<lparr>refCount := 2\<rparr>"

lemma sample_fits: "output_fits sample_schema (FluentdOutput sample_config ModeForward) two_outputs_record"
proof -
  have ok: "serialization_ok sample_schema sample_config"
    by (simp add: serialization_ok_def sample_schema_def sample_config_def)
  obtain locs where locs: "create_field_locators sample_schema (environmentFields sample_config) = Inr locs"
    and new: "new_event_serializer sample_schema sample_config = Inr (Inr
      \<lparr>fieldSlots = map (\<lambda>name. (hidden sample_config name, str_block name, built_chain sample_schema sample_config name)) (fieldNames sample_schema),
       envFields = zip locs (map str_block (environmentFields sample_config)),
       eventBuffer = replicate (2 * InputLogMaxRecordBytes) (CHR 0x00)\<rparr>)" (is "_ = Inr (Inr ?ser)")
    using new_event_serializer_ok[OF ok] by blast
  have l: "locs = [1]"
    using locs by (simp add: sample_schema_def sample_config_def create_field_locator_def)
  have "record_room ?ser two_outputs_record < 2 * InputLogMaxRecordBytes"
    by (simp add: l record_room_def Let_def sample_schema_def sample_config_def sample_record_def two_outputs_record_def hidden_def chain_of_def
        built_chain_def pair_bytes_def str_block_def str4_def InputLogMaxRecordBytes_def InputLogMaxMessageBytes_def)
  then show ?thesis using new by (simp add: output_fits_def sample_schema_def two_outputs_record_def sample_record_def)
qed


end
