(* ===== verification/Reload.thy ===== *)
theory Reload
  imports Template "HOL-Library.Multiset"
begin

text \<open>
  Replacing the orchestrator while connections stay open: \<open>run/reloadable.go\<close>. Connections hold
  sinks that point into an array by client number; a reload closes the sinks behind them, shuts the
  orchestrator down, starts another and makes new sinks in their place. Every call of a sink and the
  reload itself hold a lock, so they are single steps; making a sink is two, because the orchestrator
  is asked for it before the lock is taken. All orchestrators so far are kept, the last is the one in
  use; a sink carries the number of its own. The locale \<open>orchestrator_contract\<close> is what is relied on.
\<close>

section \<open>Orchestrators\<close>

text \<open>
  The methods of an orchestrator \<open>'d\<close> and of its sinks \<open>'k\<close>; \<open>'c\<close> is what the environment decides
  in a call (times, sends that time out).
\<close>

record ('d, 'k, 'c) orchestrator_ops =
  opNewSink :: "bytes \<Rightarrow> nat \<Rightarrow> 'd \<Rightarrow> 'k \<times> 'd"
  opAccept :: "'c \<Rightarrow> 'k \<Rightarrow> log_record list \<Rightarrow> 'd \<Rightarrow> 'd go"
  opTick :: "'c \<Rightarrow> 'k \<Rightarrow> 'd \<Rightarrow> 'd go"
  opClose :: "'c \<Rightarrow> 'k \<Rightarrow> 'd \<Rightarrow> 'd go"
  opShutdown :: "'d \<Rightarrow> 'd go"

definition MaxClientNumber :: nat where
  "MaxClientNumber = 262144"

text \<open>The sinks made for clients and not yet installed, and the log of what was accepted, are for the steps.\<close>

record ('d, 'k) reloadable =
  launched :: "'d list"
  downstreamSinks :: "(nat \<times> 'k) option list"
  downstreamAddrs :: "bytes list"
  newSinks :: "(nat \<times> bytes \<times> nat \<times> 'k) list"
  acceptedLogs :: "log_record multiset"

definition new_reloadable :: "'d \<Rightarrow> ('d, 'k) reloadable" where
  "new_reloadable d =
     \<lparr>launched = [d], downstreamSinks = replicate MaxClientNumber None, downstreamAddrs = replicate MaxClientNumber [],
      newSinks = [], acceptedLogs = {#}\<rparr>"

abbreviation downstream :: "('d, 'k) reloadable \<Rightarrow> nat" where
  "downstream orc \<equiv> length (launched orc) - 1"

text \<open>\<open>NewSink\<close>: first the sink of the orchestrator, then, under the lock, its place.\<close>

definition make_sink :: "('d, 'k, 'c) orchestrator_ops \<Rightarrow> bytes \<Rightarrow> nat \<Rightarrow> ('d, 'k) reloadable \<Rightarrow> ('d, 'k) reloadable" where
  "make_sink ops addr n orc =
     (case opNewSink ops addr n (launched orc ! downstream orc) of (k, d) \<Rightarrow>
        orc\<lparr>launched := (launched orc)[downstream orc := d], newSinks := newSinks orc @ [(n, addr, downstream orc, k)]\<rparr>)"

definition install_sink :: "nat \<times> bytes \<times> nat \<times> 'k \<Rightarrow> ('d, 'k) reloadable \<Rightarrow> ('d, 'k) reloadable go" where
  "install_sink new orc =
     (case new of (n, addr, i, k) \<Rightarrow>
        go_bind (go_set (downstreamSinks orc) n (Some (i, k))) (\<lambda>sinks.
        go_bind (go_set (downstreamAddrs orc) n addr) (\<lambda>addrs.
          Inr (orc\<lparr>downstreamSinks := sinks, downstreamAddrs := addrs, newSinks := remove1 new (newSinks orc)\<rparr>))))"

text \<open>Calling the sink in the place of a client.\<close>

definition call_downstream :: "nat \<Rightarrow> ('k \<Rightarrow> 'd \<Rightarrow> 'd go) \<Rightarrow> ('d, 'k) reloadable \<Rightarrow> ('d, 'k) reloadable go" where
  "call_downstream n f orc =
     go_bind (go_index (downstreamSinks orc) (int n)) (\<lambda>sink.
       case sink of
         None \<Rightarrow> Inl NilDereference
       | Some (i, k) \<Rightarrow>
           go_bind (go_index (launched orc) (int i)) (\<lambda>d.
           go_bind (f k d) (\<lambda>d. Inr (orc\<lparr>launched := (launched orc)[i := d]\<rparr>))))"

definition sink_accept ::
  "('d, 'k, 'c) orchestrator_ops \<Rightarrow> 'c \<Rightarrow> nat \<Rightarrow> log_record list \<Rightarrow> ('d, 'k) reloadable \<Rightarrow> ('d, 'k) reloadable go" where
  "sink_accept ops c n logs orc =
     go_bind (call_downstream n (\<lambda>k. opAccept ops c k logs) orc) (\<lambda>orc.
       Inr (orc\<lparr>acceptedLogs := acceptedLogs orc + mset logs\<rparr>))"

definition sink_tick :: "('d, 'k, 'c) orchestrator_ops \<Rightarrow> 'c \<Rightarrow> nat \<Rightarrow> ('d, 'k) reloadable \<Rightarrow> ('d, 'k) reloadable go" where
  "sink_tick ops c n orc = call_downstream n (opTick ops c) orc"

definition sink_close :: "('d, 'k, 'c) orchestrator_ops \<Rightarrow> 'c \<Rightarrow> nat \<Rightarrow> ('d, 'k) reloadable \<Rightarrow> ('d, 'k) reloadable go" where
  "sink_close ops c n orc =
     go_bind (call_downstream n (opClose ops c) orc) (\<lambda>orc.
     go_bind (go_set (downstreamSinks orc) n None) (\<lambda>sinks. Inr (orc\<lparr>downstreamSinks := sinks\<rparr>)))"

definition shutdown_downstream :: "('d, 'k, 'c) orchestrator_ops \<Rightarrow> 'd list \<Rightarrow> 'd list go" where
  "shutdown_downstream ops ds =
     go_bind (go_index ds (int (length ds) - 1)) (\<lambda>d.
     go_bind (opShutdown ops d) (\<lambda>d. Inr (ds[length ds - 1 := d])))"

section \<open>Reloading\<close>

text \<open>Closing all sinks; \<open>cs n\<close> is decided for the \<open>n\<close>-th.\<close>

fun close_sinks ::
  "('d, 'k, 'c) orchestrator_ops \<Rightarrow> (nat \<Rightarrow> 'c) \<Rightarrow> nat \<Rightarrow> (nat \<times> 'k) option list \<Rightarrow> 'd list \<Rightarrow> 'd list go" where
  "close_sinks ops cs n [] ds = Inr ds"
| "close_sinks ops cs n (None # sinks) ds = close_sinks ops cs (Suc n) sinks ds"
| "close_sinks ops cs n (Some (i, k) # sinks) ds =
     go_bind (go_index ds (int i)) (\<lambda>d.
     go_bind (opClose ops (cs n) k d) (\<lambda>d. close_sinks ops cs (Suc n) sinks (ds[i := d])))"

text \<open>New sinks of the new orchestrator, the \<open>cur\<close>-th, for the clients that had one.\<close>

fun recreate_sinks ::
  "('d, 'k, 'c) orchestrator_ops \<Rightarrow> nat \<Rightarrow> nat \<Rightarrow> ((nat \<times> 'k) option \<times> bytes) list \<Rightarrow> 'd \<Rightarrow> (nat \<times> 'k) option list \<times> 'd" where
  "recreate_sinks ops cur n [] d = ([], d)"
| "recreate_sinks ops cur n ((None, addr) # places) d =
     (let (sinks, d) = recreate_sinks ops cur (Suc n) places d in (None # sinks, d))"
| "recreate_sinks ops cur n ((Some _, addr) # places) d =
     (let (k, d) = opNewSink ops addr n d; (sinks, d) = recreate_sinks ops cur (Suc n) places d in
      (Some (cur, k) # sinks, d))"

text \<open>\<open>renewed\<close> is what the reloader gives: an error, which changes nothing, or the next orchestrator.\<close>

definition reload ::
  "('d, 'k, 'c) orchestrator_ops \<Rightarrow> (nat \<Rightarrow> 'c) \<Rightarrow> 'd cfg \<Rightarrow> ('d, 'k) reloadable \<Rightarrow> ('d, 'k) reloadable go" where
  "reload ops cs renewed orc =
     (case renewed of
        Inl e \<Rightarrow> Inr orc
      | Inr fresh \<Rightarrow>
          go_bind (close_sinks ops cs 0 (downstreamSinks orc) (launched orc)) (\<lambda>ds.
          go_bind (shutdown_downstream ops ds) (\<lambda>ds.
            let (sinks, d) = recreate_sinks ops (length ds) 0 (zip (downstreamSinks orc) (downstreamAddrs orc)) fresh in
            Inr (orc\<lparr>launched := ds @ [d], downstreamSinks := sinks\<rparr>))))"

text \<open>
  The steps. Client numbers are unique among the connections that are open; a connection calls its
  sink until it closes it.
\<close>

datatype ('d, 'c) reload_event =
    MakeSink bytes nat
  | InstallSink nat
  | AcceptFrom 'c nat "log_record list"
  | TickFrom 'c nat
  | CloseFrom 'c nat
  | ReloadConfig "nat \<Rightarrow> 'c" "'d cfg"

definition installed :: "nat \<Rightarrow> ('d, 'k) reloadable \<Rightarrow> bool" where
  "installed n orc = (n < length (downstreamSinks orc) \<and> downstreamSinks orc ! n \<noteq> None)"

fun reload_step ::
  "('d, 'k, 'c) orchestrator_ops \<Rightarrow> ('d, 'c) reload_event \<Rightarrow> ('d, 'k) reloadable \<Rightarrow> ('d, 'k) reloadable go option" where
  "reload_step ops (MakeSink addr n) orc =
     (if n < MaxClientNumber \<and> \<not> installed n orc \<and> n \<notin> fst ` set (newSinks orc) then Some (Inr (make_sink ops addr n orc)) else None)"
| "reload_step ops (InstallSink j) orc =
     (if j < length (newSinks orc) then Some (install_sink (newSinks orc ! j) orc) else None)"
| "reload_step ops (AcceptFrom c n logs) orc = (if installed n orc then Some (sink_accept ops c n logs orc) else None)"
| "reload_step ops (TickFrom c n) orc = (if installed n orc then Some (sink_tick ops c n orc) else None)"
| "reload_step ops (CloseFrom c n) orc = (if installed n orc then Some (sink_close ops c n orc) else None)"
| "reload_step ops (ReloadConfig cs renewed) orc = Some (reload ops cs renewed orc)"

fun reload_run ::
  "('d, 'k, 'c) orchestrator_ops \<Rightarrow> ('d, 'c) reload_event list \<Rightarrow> ('d, 'k) reloadable \<Rightarrow> ('d, 'k) reloadable go option" where
  "reload_run ops [] orc = Some (Inr orc)"
| "reload_run ops (e # es) orc =
     (case reload_step ops e orc of
        None \<Rightarrow> None
      | Some (Inl p) \<Rightarrow> Some (Inl p)
      | Some (Inr orc) \<Rightarrow> reload_run ops es orc)"

text \<open>No reload succeeds while a sink has been made and not installed.\<close>

fun calm :: "('d, 'k, 'c) orchestrator_ops \<Rightarrow> ('d, 'c) reload_event list \<Rightarrow> ('d, 'k) reloadable \<Rightarrow> bool" where
  "calm ops [] orc \<longleftrightarrow> True"
| "calm ops (e # es) orc \<longleftrightarrow>
     (case e of ReloadConfig cs (Inr fresh) \<Rightarrow> newSinks orc = [] | _ \<Rightarrow> True) \<and>
     (case reload_step ops e orc of Some (Inr orc) \<Rightarrow> calm ops es orc | _ \<Rightarrow> True)"

definition shutdown_all :: "('d, 'k, 'c) orchestrator_ops \<Rightarrow> ('d, 'k) reloadable \<Rightarrow> ('d, 'k) reloadable go" where
  "shutdown_all ops orc = go_bind (shutdown_downstream ops (launched orc)) (\<lambda>ds. Inr (orc\<lparr>launched := ds\<rparr>))"

section \<open>The contract of an orchestrator\<close>

text \<open>
  \<open>owns d k\<close>: the sink \<open>k\<close> of \<open>d\<close> is open; \<open>received\<close>: the records given to its sinks;
  \<open>settled d logs\<close>: \<open>d\<close> has been shut down and has passed on exactly \<open>logs\<close>.
\<close>

locale orchestrator_contract =
  fixes ops :: "('d, 'k, 'c) orchestrator_ops"
    and ready :: "'d \<Rightarrow> bool"
    and owns :: "'d \<Rightarrow> 'k \<Rightarrow> bool"
    and received :: "'d \<Rightarrow> log_record multiset"
    and settled :: "'d \<Rightarrow> log_record multiset \<Rightarrow> bool"
    and fine :: "'c \<Rightarrow> bool"
    and fits :: "'d \<Rightarrow> log_record \<Rightarrow> bool"
  assumes makes: "ready d \<Longrightarrow> opNewSink ops addr n d = (k, d') \<Longrightarrow>
      ready d' \<and> \<not> owns d k \<and> owns d' = (\<lambda>k'. k' = k \<or> owns d k') \<and> received d' = received d \<and> fits d' = fits d"
    and accepts: "ready d \<Longrightarrow> owns d k \<Longrightarrow> fine c \<Longrightarrow> \<forall>r\<in>set logs. fits d r \<Longrightarrow>
      \<exists>d'. opAccept ops c k logs d = Inr d' \<and> ready d' \<and> owns d' = owns d \<and> received d' = received d + mset logs \<and> fits d' = fits d"
    and ticks: "ready d \<Longrightarrow> owns d k \<Longrightarrow> fine c \<Longrightarrow>
      \<exists>d'. opTick ops c k d = Inr d' \<and> ready d' \<and> owns d' = owns d \<and> received d' = received d \<and> fits d' = fits d"
    and closes: "ready d \<Longrightarrow> owns d k \<Longrightarrow> fine c \<Longrightarrow>
      \<exists>d'. opClose ops c k d = Inr d' \<and> ready d' \<and> owns d' = (\<lambda>k'. owns d k' \<and> k' \<noteq> k) \<and> received d' = received d \<and> fits d' = fits d"
    and shuts: "ready d \<Longrightarrow> \<forall>k. \<not> owns d k \<Longrightarrow> \<exists>d'. opShutdown ops d = Inr d' \<and> settled d' (received d)"

text \<open>The sinks in place.\<close>

fun sink_keys :: "(nat \<times> 'k) option list \<Rightarrow> 'k list" where
  "sink_keys [] = []"
| "sink_keys (None # sinks) = sink_keys sinks"
| "sink_keys (Some (i, k) # sinks) = k # sink_keys sinks"

lemma sink_keys_put:
  "n < length s \<Longrightarrow> s ! n = None \<Longrightarrow> mset (sink_keys (s[n := Some (i, k)])) = add_mset k (mset (sink_keys s))"
proof (induction s arbitrary: n)
  case (Cons x s)
  then show ?case by (cases n; cases x) (auto simp: add_mset_commute)
qed simp

lemma sink_keys_clear:
  "n < length s \<Longrightarrow> s ! n = Some (i, k) \<Longrightarrow> mset (sink_keys s) = add_mset k (mset (sink_keys (s[n := None])))"
proof (induction s arbitrary: n)
  case (Cons x s)
  then show ?case by (cases n; cases x) (auto simp: add_mset_commute)
qed simp

lemma sink_keys_None [simp]: "sink_keys (replicate n None) = []"
  by (induction n) simp_all

lemma sink_keys_mem: "k \<in> set (sink_keys s) \<longleftrightarrow> (\<exists>n<length s. \<exists>i. s ! n = Some (i, k))"
proof (induction s)
  case (Cons x s)
  have "(\<exists>n<length (x # s). \<exists>i. (x # s) ! n = Some (i, k)) \<longleftrightarrow> (\<exists>i. x = Some (i, k)) \<or> (\<exists>n<length s. \<exists>i. s ! n = Some (i, k))"
    by (auto simp: less_Suc_eq_0_disj)
  then show ?case using Cons by (cases x) auto
qed simp

definition all_keys :: "('d, 'k) reloadable \<Rightarrow> 'k list" where
  "all_keys orc = sink_keys (downstreamSinks orc) @ map (\<lambda>(n, addr, i, k). k) (newSinks orc)"

context orchestrator_contract
begin

lemma close_sinks_ok:
  assumes "cur < length ds" and "ready (ds ! cur)" and "\<forall>n<length sinks. \<forall>i k. sinks ! n = Some (i, k) \<longrightarrow> i = cur"
    and "distinct (sink_keys sinks)" and "\<forall>k\<in>set (sink_keys sinks). owns (ds ! cur) k" and "\<forall>n. fine (cs n)"
  shows "\<exists>d. close_sinks ops cs m sinks ds = Inr (ds[cur := d]) \<and> ready d \<and> received d = received (ds ! cur) \<and>
    owns d = (\<lambda>k. owns (ds ! cur) k \<and> k \<notin> set (sink_keys sinks))"
  using assms
proof (induction sinks arbitrary: ds m)
  case Nil
  then show ?case by (intro exI[of _ "ds ! cur"]) simp
next
  case (Cons x sinks)
  have tail: "\<forall>n<length sinks. \<forall>i k. sinks ! n = Some (i, k) \<longrightarrow> i = cur" using Cons(4) by (metis Suc_less_eq length_Cons nth_Cons_Suc)
  show ?case
  proof (cases x)
    case None
    then show ?thesis using Cons(1)[OF Cons(2,3) tail _ _ Cons(7), of "Suc m"] Cons(5,6) by simp
  next
    case (Some ik)
    then obtain i k where x: "x = Some (i, k)" by (cases ik) auto
    have i: "i = cur" using Cons(4) x by (metis length_greater_0_conv list.discI nth_Cons_0)
    have k: "owns (ds ! cur) k" "k \<notin> set (sink_keys sinks)" "distinct (sink_keys sinks)" using Cons(5,6) x by simp_all
    obtain d where d: "opClose ops (cs m) k (ds ! cur) = Inr d" "ready d" "owns d = (\<lambda>k'. owns (ds ! cur) k' \<and> k' \<noteq> k)"
      "received d = received (ds ! cur)"
      using closes[OF Cons(3) k(1), of "cs m"] Cons(7) by blast
    have l: "cur < length (ds[cur := d])" "ds[cur := d] ! cur = d" using Cons(2) by simp_all
    have "\<forall>k'\<in>set (sink_keys sinks). owns (ds[cur := d] ! cur) k'" using Cons(6) k(2) d(3) l(2) x by auto
    then obtain d' where d': "close_sinks ops cs (Suc m) sinks (ds[cur := d]) = Inr (ds[cur := d'])" "ready d'"
      "received d' = received d" "owns d' = (\<lambda>k'. owns d k' \<and> k' \<notin> set (sink_keys sinks))"
      using Cons(1)[OF l(1) _ tail k(3) _ Cons(7), of "Suc m"] d(2) l(2) by auto
    have "close_sinks ops cs m (x # sinks) ds = Inr (ds[cur := d'])"
      using x i d(1) d'(1) Cons(2) by (simp add: go_index_def)
    then show ?thesis using d d' x by (intro exI[of _ d']) auto
  qed
qed

lemma recreate_sinks_ok:
  assumes "ready d" and "recreate_sinks ops cur m places d = (sinks, d')"
  shows "ready d' \<and> received d' = received d \<and> fits d' = fits d \<and> length sinks = length places \<and>
    (\<forall>n<length places. sinks ! n = None \<longleftrightarrow> fst (places ! n) = None) \<and>
    (\<forall>n<length sinks. \<forall>i k. sinks ! n = Some (i, k) \<longrightarrow> i = cur) \<and> distinct (sink_keys sinks) \<and>
    (\<forall>k\<in>set (sink_keys sinks). \<not> owns d k) \<and> owns d' = (\<lambda>k. owns d k \<or> k \<in> set (sink_keys sinks))"
  using assms
proof (induction places arbitrary: m sinks d d')
  case Nil
  then show ?case by simp
next
  case (Cons place places)
  obtain s addr where place: "place = (s, addr)" by fastforce
  show ?case
  proof (cases s)
    case None
    obtain sinks1 where r: "recreate_sinks ops cur (Suc m) places d = (sinks1, d')" "sinks = None # sinks1"
      using Cons(3) place None by (auto split: prod.splits)
    from Cons(1)[OF Cons(2) r(1)] show ?thesis using place None r(2) by (simp add: All_less_Suc2)
  next
    case (Some ik)
    obtain k d1 where n: "opNewSink ops addr m d = (k, d1)" by fastforce
    obtain sinks1 where r: "recreate_sinks ops cur (Suc m) places d1 = (sinks1, d')" "sinks = Some (cur, k) # sinks1"
      using Cons(3) place Some n by (auto split: prod.splits)
    have n1: "ready d1" "\<not> owns d k" "owns d1 = (\<lambda>k'. k' = k \<or> owns d k')" "received d1 = received d" "fits d1 = fits d"
      using makes[OF Cons(2) n] by simp_all
    from Cons(1)[OF n1(1) r(1)] show ?thesis using place Some r(2) n1 by (auto simp: All_less_Suc2)
  qed
qed

end

section \<open>What a reload keeps\<close>

definition made_by :: "nat \<Rightarrow> (nat \<times> 'k) option list \<Rightarrow> bool" where
  "made_by cur s \<longleftrightarrow> (\<forall>n<length s. \<forall>i k. s ! n = Some (i, k) \<longrightarrow> i = cur)"

lemma made_by_nth: "made_by cur s \<Longrightarrow> n < length s \<Longrightarrow> s ! n = Some (i, k) \<Longrightarrow> i = cur"
  unfolding made_by_def by blast

lemma made_by_put: "made_by cur s \<Longrightarrow> \<forall>i k. x = Some (i, k) \<longrightarrow> i = cur \<Longrightarrow> made_by cur (s[n := x])"
  unfolding made_by_def
proof (intro allI impI)
  fix m i k
  assume a: "\<forall>n<length s. \<forall>i k. s ! n = Some (i, k) \<longrightarrow> i = cur" "\<forall>i k. x = Some (i, k) \<longrightarrow> i = cur"
    and m: "m < length (s[n := x])" "s[n := x] ! m = Some (i, k)"
  show "i = cur"
  proof (cases "m = n")
    case True
    then have "x = Some (i, k)" using m by simp
    then show ?thesis using a(2) by blast
  next
    case False
    then have "m < length s" "s ! m = Some (i, k)" using m by simp_all
    then show ?thesis using a(1) by blast
  qed
qed

text \<open>The places of the clients refer to the orchestrator in use, and no sink is in two.\<close>

definition places_ok :: "nat \<Rightarrow> ('d, 'k) reloadable \<Rightarrow> bool" where
  "places_ok cur orc \<longleftrightarrow>
     length (downstreamSinks orc) = MaxClientNumber \<and> length (downstreamAddrs orc) = MaxClientNumber \<and>
     made_by cur (downstreamSinks orc) \<and>
     (\<forall>(n, addr, i, k)\<in>set (newSinks orc). n < MaxClientNumber \<and> i = cur \<and> downstreamSinks orc ! n = None) \<and>
     distinct (map fst (newSinks orc)) \<and> distinct (all_keys orc)"

lemma places_ok_key:
  assumes "places_ok cur orc" and "installed n orc"
  obtains k where "n < length (downstreamSinks orc)" "downstreamSinks orc ! n = Some (cur, k)" "k \<in> set (all_keys orc)"
proof -
  obtain i k where k: "n < length (downstreamSinks orc)" "downstreamSinks orc ! n = Some (i, k)"
    using assms(2) unfolding installed_def by auto
  have "made_by cur (downstreamSinks orc)" using assms(1) unfolding places_ok_def by (elim conjE)
  then have i: "i = cur" using k by (rule made_by_nth)
  have "k \<in> set (sink_keys (downstreamSinks orc))" unfolding sink_keys_mem by (intro exI[of _ n] exI[of _ i] conjI k)
  then have "k \<in> set (all_keys orc)" by (simp add: all_keys_def)
  then show thesis using that[of k] k i by simp
qed

lemma call_current:
  assumes "places_ok (length old) orc" and "launched orc = old @ [cur]" and "downstreamSinks orc ! n = Some (length old, k)"
    and "n < length (downstreamSinks orc)" and "f k cur = Inr d"
  shows "call_downstream n f orc = Inr (orc\<lparr>launched := old @ [d]\<rparr>)"
  using assms by (simp add: call_downstream_def go_index_def)

lemma all_keys_launched [simp]: "all_keys (orc\<lparr>launched := ds\<rparr>) = all_keys orc"
  by (simp add: all_keys_def)

lemma all_keys_logs [simp]: "all_keys (orc\<lparr>acceptedLogs := logs\<rparr>) = all_keys orc"
  by (simp add: all_keys_def)

lemma places_ok_launched [simp]: "places_ok cur (orc\<lparr>launched := ds\<rparr>) = places_ok cur orc"
  by (simp add: places_ok_def)

lemma places_ok_logs [simp]: "places_ok cur (orc\<lparr>acceptedLogs := logs\<rparr>) = places_ok cur orc"
  by (simp add: places_ok_def)

lemma make_sink_places:
  assumes "places_ok (length old) orc" and "launched orc = old @ [cur]" and "opNewSink ops addr n cur = (k, d)"
    and "k \<notin> set (all_keys orc)" and "n < MaxClientNumber" and "\<not> installed n orc" and "n \<notin> fst ` set (newSinks orc)"
  shows "places_ok (length old) (make_sink ops addr n orc) \<and> launched (make_sink ops addr n orc) = old @ [d] \<and>
    set (all_keys (make_sink ops addr n orc)) = insert k (set (all_keys orc)) \<and>
    acceptedLogs (make_sink ops addr n orc) = acceptedLogs orc"
proof -
  have m: "make_sink ops addr n orc =
      orc\<lparr>launched := old @ [d], newSinks := newSinks orc @ [(n, addr, length old, k)]\<rparr>"
    using assms(2,3) by (simp add: make_sink_def)
  have a: "all_keys (make_sink ops addr n orc) = all_keys orc @ [k]" by (simp add: m all_keys_def)
  have "downstreamSinks orc ! n = None" using assms(1,5,6) unfolding places_ok_def installed_def by metis
  then show ?thesis using assms(1,4,5,7) a by (auto simp: m places_ok_def)
qed

lemma remove1_split:
  assumes "x \<in> set xs" and "distinct (map fst xs)"
  obtains ys zs where "xs = ys @ x # zs" "remove1 x xs = ys @ zs"
proof -
  obtain ys zs where s: "xs = ys @ x # zs" "x \<notin> set ys" using split_list_first[OF assms(1)] by blast
  then show thesis using that[of ys zs] by (simp add: remove1_append)
qed

lemma install_sink_places:
  assumes "places_ok cur orc" and "j < length (newSinks orc)"
  shows "\<exists>orc'. install_sink (newSinks orc ! j) orc = Inr orc' \<and> places_ok cur orc' \<and> launched orc' = launched orc \<and>
    set (all_keys orc') = set (all_keys orc) \<and> acceptedLogs orc' = acceptedLogs orc"
proof -
  obtain n addr i k where new: "newSinks orc ! j = (n, addr, i, k)" by (cases "newSinks orc ! j") auto
  have mem: "(n, addr, i, k) \<in> set (newSinks orc)" using assms(2) new nth_mem by metis
  have n: "n < length (downstreamSinks orc)" "n < length (downstreamAddrs orc)" "i = cur" "downstreamSinks orc ! n = None"
    using assms(1) mem unfolding places_ok_def by auto
  obtain ys zs where s: "newSinks orc = ys @ (n, addr, i, k) # zs" "remove1 (n, addr, i, k) (newSinks orc) = ys @ zs"
    using remove1_split[OF mem] assms(1) unfolding places_ok_def by blast
  define orc' where "orc' = orc\<lparr>downstreamSinks := (downstreamSinks orc)[n := Some (cur, k)],
    downstreamAddrs := (downstreamAddrs orc)[n := addr], newSinks := ys @ zs\<rparr>"
  have r: "install_sink (newSinks orc ! j) orc = Inr orc'"
    using n s(2) by (simp add: install_sink_def new orc'_def go_set_def)
  have keys: "mset (all_keys orc') = mset (all_keys orc)"
    using sink_keys_put[OF n(1,4), of cur k] by (simp add: all_keys_def orc'_def s(1))
  have d: "distinct (all_keys orc')"
    using keys assms(1) mset_eq_imp_distinct_iff unfolding places_ok_def by blast
  have f: "n \<notin> fst ` set (ys @ zs)" "distinct (map fst (ys @ zs))"
    using assms(1) s(1) unfolding places_ok_def by auto
  have new': "\<forall>(m, addr, i, k)\<in>set (ys @ zs). m < MaxClientNumber \<and> i = cur \<and> downstreamSinks orc' ! m = None"
  proof (intro ballI, clarify)
    fix m a i' k' assume e: "(m, a, i', k') \<in> set (ys @ zs)"
    then have "m \<noteq> n" using f(1) by force
    moreover have "(m, a, i', k') \<in> set (newSinks orc)" using e s(1) by auto
    then have "m < MaxClientNumber \<and> i' = cur \<and> downstreamSinks orc ! m = None"
      using assms(1) unfolding places_ok_def by fastforce
    ultimately show "m < MaxClientNumber \<and> i' = cur \<and> downstreamSinks orc' ! m = None" by (simp add: orc'_def)
  qed
  have old: "made_by cur (downstreamSinks orc')"
    using made_by_put[of cur "downstreamSinks orc" "Some (cur, k)" n] assms(1) unfolding places_ok_def by (simp add: orc'_def)
  have "places_ok cur orc'"
    using assms(1) d f(2) new' old unfolding places_ok_def by (simp add: orc'_def)
  then show ?thesis using r mset_eq_setD[OF keys] by (intro exI[of _ orc']) (simp add: orc'_def)
qed

lemma clear_place:
  assumes "places_ok cur orc" and "n < length (downstreamSinks orc)" and "downstreamSinks orc ! n = Some (cur, k)"
  shows "places_ok cur (orc\<lparr>downstreamSinks := (downstreamSinks orc)[n := None]\<rparr>) \<and>
    set (all_keys (orc\<lparr>downstreamSinks := (downstreamSinks orc)[n := None]\<rparr>)) = set (all_keys orc) - {k}"
proof -
  let ?orc = "orc\<lparr>downstreamSinks := (downstreamSinks orc)[n := None]\<rparr>"
  have m: "mset (all_keys orc) = add_mset k (mset (all_keys ?orc))"
    using sink_keys_clear[OF assms(2,3)] by (simp add: all_keys_def)
  then have m': "mset (all_keys orc) = mset (k # all_keys ?orc)" by simp
  have d: "distinct (k # all_keys ?orc)"
    using assms(1) mset_eq_imp_distinct_iff[OF m'] unfolding places_ok_def by blast
  have "set (all_keys orc) = set (k # all_keys ?orc)" using m' by (rule mset_eq_setD)
  moreover have "made_by cur (downstreamSinks ?orc)"
    using made_by_put[of cur "downstreamSinks orc" None n] assms(1) unfolding places_ok_def by simp
  moreover have "\<forall>(m, addr, i, k)\<in>set (newSinks ?orc). m < MaxClientNumber \<and> i = cur \<and> downstreamSinks ?orc ! m = None"
  proof (intro ballI, clarify)
    fix m a i' k' assume "(m, a, i', k') \<in> set (newSinks ?orc)"
    then have "m < MaxClientNumber \<and> i' = cur \<and> downstreamSinks orc ! m = None"
      using assms(1) unfolding places_ok_def by fastforce
    then show "m < MaxClientNumber \<and> i' = cur \<and> downstreamSinks ?orc ! m = None" by (cases "m = n") (simp_all add: assms(2))
  qed
  ultimately show ?thesis using assms(1) d unfolding places_ok_def by simp
qed

text \<open>The orchestrators a run starts, and the records it accepts.\<close>

fun orchestrators_of :: "('d, 'c) reload_event list \<Rightarrow> 'd list" where
  "orchestrators_of [] = []"
| "orchestrators_of (ReloadConfig cs (Inr fresh) # es) = fresh # orchestrators_of es"
| "orchestrators_of (e # es) = orchestrators_of es"

fun records_of :: "('d, 'c) reload_event list \<Rightarrow> log_record list" where
  "records_of [] = []"
| "records_of (AcceptFrom c n logs # es) = logs @ records_of es"
| "records_of (e # es) = records_of es"

fun choices_fine :: "('c \<Rightarrow> bool) \<Rightarrow> ('d, 'c) reload_event \<Rightarrow> bool" where
  "choices_fine fine (AcceptFrom c n logs) = fine c"
| "choices_fine fine (TickFrom c n) = fine c"
| "choices_fine fine (CloseFrom c n) = fine c"
| "choices_fine fine (ReloadConfig cs renewed) = (\<forall>n. fine (cs n))"
| "choices_fine fine e = True"

context orchestrator_contract
begin

definition fresh_for :: "log_record set \<Rightarrow> 'd \<Rightarrow> bool" where
  "fresh_for R d \<longleftrightarrow> ready d \<and> (\<forall>k. \<not> owns d k) \<and> received d = {#} \<and> (\<forall>r\<in>R. fits d r)"

definition reload_inv :: "log_record set \<Rightarrow> ('d, 'k) reloadable \<Rightarrow> bool" where
  "reload_inv R orc \<longleftrightarrow> (\<exists>old cur logs. launched orc = old @ [cur] \<and> ready cur \<and> (\<forall>r\<in>R. fits cur r) \<and>
     list_all2 settled old logs \<and> acceptedLogs orc = sum_list logs + received cur \<and>
     places_ok (length old) orc \<and> (\<forall>k. owns cur k \<longleftrightarrow> k \<in> set (all_keys orc)))"

lemma reload_invI:
  "launched orc = old @ [cur] \<Longrightarrow> ready cur \<Longrightarrow> \<forall>r\<in>R. fits cur r \<Longrightarrow> list_all2 settled old logs \<Longrightarrow>
   acceptedLogs orc = sum_list logs + received cur \<Longrightarrow> places_ok (length old) orc \<Longrightarrow>
   \<forall>k. owns cur k \<longleftrightarrow> k \<in> set (all_keys orc) \<Longrightarrow> reload_inv R orc"
  unfolding reload_inv_def by (intro exI conjI)

lemma reload_inv_current:
  assumes "reload_inv R orc"
  obtains old cur logs where "launched orc = old @ [cur]" "ready cur" "\<forall>r\<in>R. fits cur r" "list_all2 settled old logs"
    "acceptedLogs orc = sum_list logs + received cur" "places_ok (length old) orc"
    "\<forall>k. owns cur k \<longleftrightarrow> k \<in> set (all_keys orc)"
  using assms unfolding reload_inv_def by (elim exE conjE) (rule that)

lemma make_sink_inv:
  assumes "reload_inv R orc" and "n < MaxClientNumber" and "\<not> installed n orc" and "n \<notin> fst ` set (newSinks orc)"
  shows "reload_inv R (make_sink ops addr n orc)"
proof -
  obtain old cur logs where i: "launched orc = old @ [cur]" "ready cur" "\<forall>r\<in>R. fits cur r" "list_all2 settled old logs"
    "acceptedLogs orc = sum_list logs + received cur" "places_ok (length old) orc" "\<forall>k. owns cur k \<longleftrightarrow> k \<in> set (all_keys orc)"
    using assms(1) by (rule reload_inv_current)
  obtain k d where m: "opNewSink ops addr n cur = (k, d)" by fastforce
  have d: "ready d" "\<not> owns cur k" "owns d = (\<lambda>k'. k' = k \<or> owns cur k')" "received d = received cur" "fits d = fits cur"
    using makes[OF i(2) m] by simp_all
  have "k \<notin> set (all_keys orc)" using d(2) i(7) by simp
  note p = make_sink_places[OF i(6,1) m this assms(2-4)]
  show ?thesis by (rule reload_invI[of _ old d R logs]) (use p d i in simp_all)
qed

lemma install_sink_inv:
  assumes "reload_inv R orc" and "j < length (newSinks orc)"
  shows "\<exists>orc'. install_sink (newSinks orc ! j) orc = Inr orc' \<and> reload_inv R orc'"
proof -
  obtain old cur logs where i: "launched orc = old @ [cur]" "ready cur" "\<forall>r\<in>R. fits cur r" "list_all2 settled old logs"
    "acceptedLogs orc = sum_list logs + received cur" "places_ok (length old) orc" "\<forall>k. owns cur k \<longleftrightarrow> k \<in> set (all_keys orc)"
    using assms(1) by (rule reload_inv_current)
  obtain orc' where r: "install_sink (newSinks orc ! j) orc = Inr orc'" "places_ok (length old) orc'"
    "launched orc' = launched orc" "set (all_keys orc') = set (all_keys orc)" "acceptedLogs orc' = acceptedLogs orc"
    using install_sink_places[OF i(6) assms(2)] by (elim exE conjE) (rule that)
  have "reload_inv R orc'" by (rule reload_invI[of _ old cur R logs]) (use r i in simp_all)
  then show ?thesis using r(1) by simp
qed

lemma sink_accept_inv:
  assumes "reload_inv R orc" and "installed n orc" and "fine c" and "set rs \<subseteq> R"
  shows "\<exists>orc'. sink_accept ops c n rs orc = Inr orc' \<and> reload_inv R orc'"
proof -
  obtain old cur logs where i: "launched orc = old @ [cur]" "ready cur" "\<forall>r\<in>R. fits cur r" "list_all2 settled old logs"
    "acceptedLogs orc = sum_list logs + received cur" "places_ok (length old) orc" "\<forall>k. owns cur k \<longleftrightarrow> k \<in> set (all_keys orc)"
    using assms(1) by (rule reload_inv_current)
  obtain k where k: "n < length (downstreamSinks orc)" "downstreamSinks orc ! n = Some (length old, k)" "k \<in> set (all_keys orc)"
    using i(6) assms(2) by (rule places_ok_key)
  have o: "owns cur k" "\<forall>r\<in>set rs. fits cur r" using i(3,7) k(3) assms(4) by auto
  obtain d where d: "opAccept ops c k rs cur = Inr d" "ready d" "owns d = owns cur" "received d = received cur + mset rs"
    "fits d = fits cur"
    using accepts[OF i(2) o(1) assms(3) o(2)] by (elim exE conjE) (rule that)
  let ?orc = "orc\<lparr>launched := old @ [d], acceptedLogs := acceptedLogs orc + mset rs\<rparr>"
  have "sink_accept ops c n rs orc = Inr ?orc"
    using call_current[where f = "\<lambda>k. opAccept ops c k rs", OF i(6,1) k(2,1) d(1)] by (simp add: sink_accept_def)
  moreover have "reload_inv R ?orc" by (rule reload_invI[of _ old d R logs]) (use d i in simp_all)
  ultimately show ?thesis by blast
qed

lemma sink_tick_inv:
  assumes "reload_inv R orc" and "installed n orc" and "fine c"
  shows "\<exists>orc'. sink_tick ops c n orc = Inr orc' \<and> reload_inv R orc'"
proof -
  obtain old cur logs where i: "launched orc = old @ [cur]" "ready cur" "\<forall>r\<in>R. fits cur r" "list_all2 settled old logs"
    "acceptedLogs orc = sum_list logs + received cur" "places_ok (length old) orc" "\<forall>k. owns cur k \<longleftrightarrow> k \<in> set (all_keys orc)"
    using assms(1) by (rule reload_inv_current)
  obtain k where k: "n < length (downstreamSinks orc)" "downstreamSinks orc ! n = Some (length old, k)" "k \<in> set (all_keys orc)"
    using i(6) assms(2) by (rule places_ok_key)
  have o: "owns cur k" using i(7) k(3) by simp
  obtain d where d: "opTick ops c k cur = Inr d" "ready d" "owns d = owns cur" "received d = received cur" "fits d = fits cur"
    using ticks[OF i(2) o assms(3)] by (elim exE conjE) (rule that)
  have "sink_tick ops c n orc = Inr (orc\<lparr>launched := old @ [d]\<rparr>)"
    using call_current[where f = "opTick ops c", OF i(6,1) k(2,1) d(1)] by (simp add: sink_tick_def)
  moreover have "reload_inv R (orc\<lparr>launched := old @ [d]\<rparr>)" by (rule reload_invI[of _ old d R logs]) (use d i in simp_all)
  ultimately show ?thesis by blast
qed

lemma sink_close_inv:
  assumes "reload_inv R orc" and "installed n orc" and "fine c"
  shows "\<exists>orc'. sink_close ops c n orc = Inr orc' \<and> reload_inv R orc'"
proof -
  obtain old cur logs where i: "launched orc = old @ [cur]" "ready cur" "\<forall>r\<in>R. fits cur r" "list_all2 settled old logs"
    "acceptedLogs orc = sum_list logs + received cur" "places_ok (length old) orc" "\<forall>k. owns cur k \<longleftrightarrow> k \<in> set (all_keys orc)"
    using assms(1) by (rule reload_inv_current)
  obtain k where k: "n < length (downstreamSinks orc)" "downstreamSinks orc ! n = Some (length old, k)" "k \<in> set (all_keys orc)"
    using i(6) assms(2) by (rule places_ok_key)
  have o: "owns cur k" using i(7) k(3) by simp
  obtain d where d: "opClose ops c k cur = Inr d" "ready d" "owns d = (\<lambda>k'. owns cur k' \<and> k' \<noteq> k)"
    "received d = received cur" "fits d = fits cur"
    using closes[OF i(2) o assms(3)] by (elim exE conjE) (rule that)
  let ?mid = "orc\<lparr>launched := old @ [d]\<rparr>"
  let ?orc = "?mid\<lparr>downstreamSinks := (downstreamSinks ?mid)[n := None]\<rparr>"
  have p: "places_ok (length old) ?orc \<and> set (all_keys ?orc) = set (all_keys ?mid) - {k}"
    by (rule clear_place) (use i(6) k(1,2) in simp_all)
  have "sink_close ops c n orc = Inr ?orc"
    using call_current[where f = "opClose ops c", OF i(6,1) k(2,1) d(1)] k(1) by (simp add: sink_close_def go_set_def)
  moreover have "reload_inv R ?orc"
    by (rule reload_invI[of _ old d R logs]) (use p d i in \<open>simp_all add: conj_commute\<close>)
  ultimately show ?thesis by blast
qed

lemma reload_inv_reload:
  assumes "reload_inv R orc" and "newSinks orc = []" and "\<forall>n. fine (cs n)" and "fresh_for R fresh"
  shows "\<exists>orc'. reload ops cs (Inr fresh) orc = Inr orc' \<and> reload_inv R orc'"
proof -
  obtain old cur logs where i: "launched orc = old @ [cur]" "ready cur" "\<forall>r\<in>R. fits cur r" "list_all2 settled old logs"
    "acceptedLogs orc = sum_list logs + received cur" "places_ok (length old) orc" "\<forall>k. owns cur k \<longleftrightarrow> k \<in> set (all_keys orc)"
    using assms(1) by (rule reload_inv_current)
  let ?s = "downstreamSinks orc"
  have keys: "all_keys orc = sink_keys ?s" using assms(2) by (simp add: all_keys_def)
  have s: "\<forall>n<length ?s. \<forall>i k. ?s ! n = Some (i, k) \<longrightarrow> i = length old" "distinct (sink_keys ?s)" "length ?s = length (downstreamAddrs orc)"
    using i(6) keys unfolding places_ok_def made_by_def by simp_all
  obtain d where d: "close_sinks ops cs 0 ?s (launched orc) = Inr ((launched orc)[length old := d])" "ready d" "received d = received cur"
    "owns d = (\<lambda>k. owns cur k \<and> k \<notin> set (sink_keys ?s))"
    using close_sinks_ok[of "length old" "launched orc" ?s cs 0] s assms(3) i(1,2,7) keys by auto
  have "\<forall>k. \<not> owns d k" using d(4) i(7) keys by simp
  then obtain d' where d': "opShutdown ops d = Inr d'" "settled d' (received cur)" using shuts[OF d(2)] d(3) by auto
  have sh: "shutdown_downstream ops ((launched orc)[length old := d]) = Inr (old @ [d'])"
    using d'(1) i(1) by (simp add: shutdown_downstream_def go_index_def)
  obtain sinks e where r: "recreate_sinks ops (length (old @ [d'])) 0 (zip ?s (downstreamAddrs orc)) fresh = (sinks, e)"
    by fastforce
  have f: "ready fresh" "\<forall>k. \<not> owns fresh k" "received fresh = {#}" "\<forall>r\<in>R. fits fresh r"
    using assms(4) by (simp_all add: fresh_for_def)
  let ?orc = "orc\<lparr>launched := (old @ [d']) @ [e], downstreamSinks := sinks\<rparr>"
  have re: "reload ops cs (Inr fresh) orc = Inr ?orc"
    using d(1) sh r by (simp add: reload_def)
  note k = recreate_sinks_ok[OF f(1) r]
  have len: "length sinks = MaxClientNumber" using k s(3) i(6) by (simp add: places_ok_def)
  have ks: "all_keys ?orc = sink_keys sinks" using assms(2) by (simp add: all_keys_def)
  have p: "places_ok (length (old @ [d'])) ?orc"
    using k i(6) len assms(2) unfolding places_ok_def made_by_def ks by simp
  have "reload_inv R ?orc"
  proof (rule reload_invI[of _ "old @ [d']" e R "logs @ [received cur]"])
    show "list_all2 settled (old @ [d']) (logs @ [received cur])" using i(4) d'(2) by (simp add: list_all2_appendI)
    show "\<forall>k. owns e k \<longleftrightarrow> k \<in> set (all_keys ?orc)" unfolding ks using k f(2) by simp
  qed (use k p f i in simp_all)
  then show ?thesis using re by blast
qed

end

lemma reload_step_logs:
  assumes "reload_step ops e orc = Some (Inr orc')"
  shows "acceptedLogs orc' = acceptedLogs orc + mset (records_of [e])"
proof (cases e)
  case (ReloadConfig cs renewed)
  then show ?thesis using assms
    by (cases renewed) (auto simp: reload_def Let_def case_prod_beta go_bind_eq_Inr)
qed (use assms in \<open>auto simp: make_sink_def install_sink_def sink_accept_def sink_tick_def sink_close_def
  call_downstream_def go_bind_eq_Inr split: if_splits prod.splits option.splits\<close>)

lemma new_reloadable_places: "places_ok 0 (new_reloadable d)"
  by (simp add: places_ok_def new_reloadable_def made_by_def all_keys_def)

context orchestrator_contract
begin

lemma new_reloadable_inv: "fresh_for R d \<Longrightarrow> reload_inv R (new_reloadable d)"
  by (rule reload_invI[of _ "[]" d R "[]"])
    (use new_reloadable_places in \<open>simp_all add: fresh_for_def new_reloadable_def all_keys_def\<close>)

lemma reload_step_inv:
  assumes "reload_inv R orc" and "reload_step ops e orc = Some res" and "set (records_of [e]) \<subseteq> R" and "choices_fine fine e"
    and "\<forall>d\<in>set (orchestrators_of [e]). fresh_for R d"
    and "case e of ReloadConfig cs (Inr fresh) \<Rightarrow> newSinks orc = [] | _ \<Rightarrow> True"
  shows "\<exists>orc'. res = Inr orc' \<and> reload_inv R orc'"
proof (cases e)
  case (MakeSink addr n)
  then show ?thesis using assms(1,2) make_sink_inv by (auto split: if_splits)
next
  case (InstallSink j)
  then show ?thesis using assms(1,2) install_sink_inv[of R orc j] by (auto split: if_splits)
next
  case (AcceptFrom c n logs)
  then show ?thesis using assms sink_accept_inv[of R orc n c logs] by (auto split: if_splits)
next
  case (TickFrom c n)
  then show ?thesis using assms sink_tick_inv[of R orc n c] by (auto split: if_splits)
next
  case (CloseFrom c n)
  then show ?thesis using assms sink_close_inv[of R orc n c] by (auto split: if_splits)
next
  case (ReloadConfig cs renewed)
  show ?thesis
  proof (cases renewed)
    case (Inl err)
    then show ?thesis using assms(1,2) ReloadConfig by (intro exI[of _ orc]) (simp add: reload_def)
  next
    case (Inr fresh)
    then show ?thesis using assms ReloadConfig reload_inv_reload[of R orc cs fresh] by simp
  qed
qed

lemma reload_run_ok:
  assumes "reload_inv R orc" and "reload_run ops es orc = Some res" and "set (records_of es) \<subseteq> R"
    and "\<forall>e\<in>set es. choices_fine fine e" and "\<forall>d\<in>set (orchestrators_of es). fresh_for R d" and "calm ops es orc"
  shows "\<exists>orc'. res = Inr orc' \<and> reload_inv R orc' \<and> acceptedLogs orc' = acceptedLogs orc + mset (records_of es)"
  using assms
proof (induction es arbitrary: orc)
  case Nil
  then show ?case by (intro exI[of _ orc]) simp
next
  case (Cons e es)
  have rs: "records_of (e # es) = records_of [e] @ records_of es" by (cases e) simp_all
  have os: "set (orchestrators_of (e # es)) = set (orchestrators_of [e]) \<union> set (orchestrators_of es)"
  proof (cases e)
    case (ReloadConfig cs renewed)
    then show ?thesis by (cases renewed) simp_all
  qed simp_all
  obtain r where r: "reload_step ops e orc = Some r" using Cons(3) by (auto split: option.splits)
  have 1: "set (records_of [e]) \<subseteq> R" "choices_fine fine e" "\<forall>d\<in>set (orchestrators_of [e]). fresh_for R d"
    "case e of ReloadConfig cs (Inr fresh) \<Rightarrow> newSinks orc = [] | _ \<Rightarrow> True"
    using Cons(4-7) rs os by auto
  obtain orc1 where o: "r = Inr orc1" "reload_inv R orc1"
    using reload_step_inv[OF Cons(2) r 1] by (elim exE conjE) (rule that)
  have 2: "reload_run ops es orc1 = Some res" "set (records_of es) \<subseteq> R" "\<forall>e\<in>set es. choices_fine fine e"
    "\<forall>d\<in>set (orchestrators_of es). fresh_for R d" "calm ops es orc1"
    using Cons(3-7) rs os r o(1) by auto
  obtain orc' where o': "res = Inr orc'" "reload_inv R orc'" "acceptedLogs orc' = acceptedLogs orc1 + mset (records_of es)"
    using Cons(1)[OF o(2) 2] by (elim exE conjE) (rule that)
  have "acceptedLogs orc1 = acceptedLogs orc + mset (records_of [e])" using r o(1) by (intro reload_step_logs) simp
  then show ?case using o' rs by (intro exI[of _ orc']) simp
qed

lemma shutdown_all_ok:
  assumes "reload_inv R orc" and "\<forall>n. \<not> installed n orc" and "newSinks orc = []"
  shows "\<exists>orc' logs. shutdown_all ops orc = Inr orc' \<and> list_all2 settled (launched orc') logs \<and> acceptedLogs orc = sum_list logs"
proof -
  obtain old cur logs where i: "launched orc = old @ [cur]" "ready cur" "\<forall>r\<in>R. fits cur r" "list_all2 settled old logs"
    "acceptedLogs orc = sum_list logs + received cur" "places_ok (length old) orc" "\<forall>k. owns cur k \<longleftrightarrow> k \<in> set (all_keys orc)"
    using assms(1) by (rule reload_inv_current)
  have "k \<notin> set (sink_keys (downstreamSinks orc))" for k
    using assms(2) unfolding sink_keys_mem installed_def by (metis option.distinct(1))
  then have "\<forall>k. \<not> owns cur k" using i(7) assms(3) by (simp add: all_keys_def)
  then obtain d where d: "opShutdown ops cur = Inr d" "settled d (received cur)" using shuts[OF i(2)] by auto
  have "shutdown_all ops orc = Inr (orc\<lparr>launched := old @ [d]\<rparr>)"
    using d(1) i(1) by (simp add: shutdown_all_def shutdown_downstream_def go_index_def)
  then show ?thesis using i(4,5) d(2)
    by (intro exI[of _ "orc\<lparr>launched := old @ [d]\<rparr>"] exI[of _ "logs @ [received cur]"]) (simp add: list_all2_appendI)
qed

text \<open>From the start: no panic, and every record accepted is settled by one orchestrator, or is with the current one.\<close>

lemma records_kept:
  assumes "reload_run ops es (new_reloadable d) = Some res" and "\<forall>d\<in>set (d # orchestrators_of es). fresh_for (set (records_of es)) d"
    and "\<forall>e\<in>set es. choices_fine fine e" and "calm ops es (new_reloadable d)"
  shows "\<exists>orc logs. res = Inr orc \<and> list_all2 settled (butlast (launched orc)) logs \<and>
    mset (records_of es) = sum_list logs + received (last (launched orc)) \<and>
    ((\<forall>n. \<not> installed n orc) \<longrightarrow> newSinks orc = [] \<longrightarrow>
      (\<exists>orc' logs. shutdown_all ops orc = Inr orc' \<and> list_all2 settled (launched orc') logs \<and> mset (records_of es) = sum_list logs))"
proof -
  have i: "reload_inv (set (records_of es)) (new_reloadable d)" using assms(2) by (intro new_reloadable_inv) simp
  have f: "\<forall>d\<in>set (orchestrators_of es). fresh_for (set (records_of es)) d" using assms(2) by simp
  obtain orc where o: "res = Inr orc" "reload_inv (set (records_of es)) orc"
    and l: "acceptedLogs orc = mset (records_of es)"
    using reload_run_ok[OF i assms(1) subset_refl assms(3) f assms(4)] by (auto simp: new_reloadable_def)
  obtain old cur logs where c: "launched orc = old @ [cur]" "list_all2 settled old logs"
    "acceptedLogs orc = sum_list logs + received cur"
    using o(2) by (rule reload_inv_current)
  show ?thesis using shutdown_all_ok[OF o(2)] o(1) c l by (intro exI[of _ orc] exI[of _ logs]) simp
qed

end

end
