(* ===== verification/Orchestrators.thy ===== *)
theory Orchestrators
  imports Reload Keyset
begin

text \<open>
  The two orchestrators as what can stand behind a reloadable one: the one for key sets
  (\<open>orchestrate/obykeyset/orchestrator.go\<close>), its calls as sequences of the steps of \<open>Keyset\<close>, and the
  singleton (\<open>orchestrate/osingleton\<close>). Both are interpretations of \<open>orchestrator_contract\<close>.
\<close>

section \<open>The singleton\<close>

text \<open>
  One channel for all: it is open or closed, and has been sent batches. Sinks are numbers; closing
  one does nothing, so which are closed is only for reasoning, as are the records dropped.
\<close>

record singleton_orchestrator =
  singletonTag :: bytes
  inputChannelOpen :: bool
  inputChannelSent :: "log_record list list"
  childClosed :: "bool list"
  childDropped :: "log_record list"

definition verify_singleton_config :: "bytes \<Rightarrow> unit cfg go" where
  "verify_singleton_config tag =
     (if tag = [] then Inr (Inl (Unspecified ''tag''))
      else go_bind (new_tag_builder tag []) (\<lambda>r. Inr (case r of Inl e \<Rightarrow> Inl e | Inr _ \<Rightarrow> Inr ())))"

definition new_singleton :: "bytes \<Rightarrow> singleton_orchestrator" where
  "new_singleton tag =
     \<lparr>singletonTag = tag, inputChannelOpen = True, inputChannelSent = [], childClosed = [], childDropped = []\<rparr>"

definition singleton_new_sink :: "bytes \<Rightarrow> nat \<Rightarrow> singleton_orchestrator \<Rightarrow> nat \<times> singleton_orchestrator" where
  "singleton_new_sink addr n orc = (length (childClosed orc), orc\<lparr>childClosed := childClosed orc @ [False]\<rparr>)"

text \<open>A copy is sent, or after a minute, dropped.\<close>

definition singleton_accept :: "bool \<Rightarrow> nat \<Rightarrow> log_record list \<Rightarrow> singleton_orchestrator \<Rightarrow> singleton_orchestrator go" where
  "singleton_accept sent k logs orc =
     (if \<not> inputChannelOpen orc then Inl SendOnClosedChannel
      else if sent then Inr (orc\<lparr>inputChannelSent := inputChannelSent orc @ [logs]\<rparr>)
      else Inr (orc\<lparr>childDropped := childDropped orc @ logs\<rparr>))"

definition singleton_tick :: "bool \<Rightarrow> nat \<Rightarrow> singleton_orchestrator \<Rightarrow> singleton_orchestrator go" where
  "singleton_tick sent k orc = Inr orc"

definition singleton_close :: "bool \<Rightarrow> nat \<Rightarrow> singleton_orchestrator \<Rightarrow> singleton_orchestrator go" where
  "singleton_close sent k orc = Inr (orc\<lparr>childClosed := (childClosed orc)[k := True]\<rparr>)"

definition singleton_shutdown :: "singleton_orchestrator \<Rightarrow> singleton_orchestrator go" where
  "singleton_shutdown orc =
     (if \<not> inputChannelOpen orc then Inl CloseOfClosedChannel else Inr (orc\<lparr>inputChannelOpen := False\<rparr>))"

definition singleton_ops :: "(singleton_orchestrator, nat, bool) orchestrator_ops" where
  "singleton_ops = \<lparr>opNewSink = singleton_new_sink, opAccept = singleton_accept, opTick = singleton_tick,
     opClose = singleton_close, opShutdown = singleton_shutdown\<rparr>"

definition singleton_ready :: "singleton_orchestrator \<Rightarrow> bool" where
  "singleton_ready orc \<longleftrightarrow> inputChannelOpen orc \<and> childDropped orc = []"

definition singleton_owns :: "singleton_orchestrator \<Rightarrow> nat \<Rightarrow> bool" where
  "singleton_owns orc k \<longleftrightarrow> k < length (childClosed orc) \<and> \<not> childClosed orc ! k"

definition singleton_received :: "singleton_orchestrator \<Rightarrow> log_record multiset" where
  "singleton_received orc = mset (concat (inputChannelSent orc))"

definition singleton_settled :: "singleton_orchestrator \<Rightarrow> log_record multiset \<Rightarrow> bool" where
  "singleton_settled orc logs \<longleftrightarrow> \<not> inputChannelOpen orc \<and> mset (concat (inputChannelSent orc)) = logs"

lemmas singleton_defs = singleton_ops_def singleton_ready_def singleton_owns_def singleton_received_def singleton_settled_def
  singleton_new_sink_def singleton_accept_def singleton_tick_def singleton_close_def singleton_shutdown_def

interpretation singleton: orchestrator_contract singleton_ops singleton_ready singleton_owns singleton_received
    singleton_settled "\<lambda>sent. sent" "\<lambda>_ _. True"
proof unfold_locales
  fix d d' :: singleton_orchestrator and k :: nat
  show "singleton_ready d' \<and> \<not> singleton_owns d k \<and> singleton_owns d' = (\<lambda>k'. k' = k \<or> singleton_owns d k') \<and>
      singleton_received d' = singleton_received d \<and> (\<lambda>_::log_record. True) = (\<lambda>_. True)"
    if "singleton_ready d" "opNewSink singleton_ops addr n d = (k, d')" for addr n
    using that by (auto simp: singleton_defs fun_eq_iff nth_append)
  show "\<exists>d'. opClose singleton_ops c k d = Inr d' \<and> singleton_ready d' \<and>
      singleton_owns d' = (\<lambda>k'. singleton_owns d k' \<and> k' \<noteq> k) \<and> singleton_received d' = singleton_received d \<and>
      (\<lambda>_::log_record. True) = (\<lambda>_. True)"
    if "singleton_ready d" "singleton_owns d k" for c
    using that by (auto simp: singleton_defs fun_eq_iff nth_list_update)
qed (auto simp: singleton_defs)

section \<open>By key set: whole calls\<close>

text \<open>What is decided in a call: the time at its beginning, the order of a walk, and which sends succeed.\<close>

record keyset_choice =
  clockNow :: gotime
  walkOrder :: "(bytes \<times> input_buffer) list \<Rightarrow> bytes list"
  sendsInTime :: "nat \<Rightarrow> bool"

definition keyset_new_sink :: "bytes \<Rightarrow> nat \<Rightarrow> orchestrator \<Rightarrow> nat \<times> orchestrator" where
  "keyset_new_sink addr n orc = (length (orchSinks orc), orc\<lparr>orchSinks := orchSinks orc @ [new_orch_sink]\<rparr>)"

fun send_each :: "(nat \<Rightarrow> bool) \<Rightarrow> nat \<Rightarrow> bytes list \<Rightarrow> orchestrator \<Rightarrow> orchestrator go" where
  "send_each ok i [] orc = Inr orc"
| "send_each ok i (k # ks) orc =
     go_bind (send_logs i (ok (length ks)) k ks (orchSinks orc ! i) orc) (send_each ok i ks)"

fun take_each :: "(nat \<Rightarrow> bool) \<Rightarrow> nat \<Rightarrow> gotime \<Rightarrow> log_record list \<Rightarrow> orchestrator \<Rightarrow> orchestrator go" where
  "take_each ok i now [] orc = Inr orc"
| "take_each ok i now (r # rs) orc =
     go_bind (take_log i now r (orchSinks orc ! i) orc) (\<lambda>orc.
     go_bind (send_each (\<lambda>_. ok (length rs)) i (flushing (orchSinks orc ! i)) orc) (take_each ok i now rs))"

definition keyset_accept :: "keyset_choice \<Rightarrow> nat \<Rightarrow> log_record list \<Rightarrow> orchestrator \<Rightarrow> orchestrator go" where
  "keyset_accept c i logs orc =
     take_each (sendsInTime c) i (clockNow c) logs
       (put_sink i ((orchSinks orc ! i)\<lparr>todo := logs, callTime := clockNow c\<rparr>) orc)"

definition flush_all_local_buffers :: "bool \<Rightarrow> keyset_choice \<Rightarrow> nat \<Rightarrow> orchestrator \<Rightarrow> orchestrator go" where
  "flush_all_local_buffers forceAll c i orc =
     (let s = orchSinks orc ! i; ks = flush_all forceAll (clockNow c) (walkOrder c (localMap s)) s in
      send_each (sendsInTime c) i ks
        (put_sink i (s\<lparr>flushing := ks, callTime := clockNow c, sinkClosed := (sinkClosed s \<or> forceAll)\<rparr>) orc))"

definition keyset_tick :: "keyset_choice \<Rightarrow> nat \<Rightarrow> orchestrator \<Rightarrow> orchestrator go" where
  "keyset_tick = flush_all_local_buffers False"

definition keyset_close :: "keyset_choice \<Rightarrow> nat \<Rightarrow> orchestrator \<Rightarrow> orchestrator go" where
  "keyset_close = flush_all_local_buffers True"

definition keyset_shutdown :: "orchestrator \<Rightarrow> orchestrator go" where
  "keyset_shutdown orc =
     (if \<exists>p\<in>set (pipelines orc). \<not> chanOpen p then Inl CloseOfClosedChannel else Inr (destroy_map orc))"

definition keyset_ops :: "(orchestrator, nat, keyset_choice) orchestrator_ops" where
  "keyset_ops = \<lparr>opNewSink = keyset_new_sink, opAccept = keyset_accept, opTick = keyset_tick,
     opClose = keyset_close, opShutdown = keyset_shutdown\<rparr>"

section \<open>Calls run to their ends\<close>

text \<open>A record whose keys are there and can be made into a tag.\<close>

definition keyset_fits :: "orchestrator \<Rightarrow> log_record \<Rightarrow> bool" where
  "keyset_fits orc r \<longleftrightarrow> (\<exists>keys tag. extract_field_set (keyLocators orc) r = Inr keys \<and>
     tag_of (tagExpander (tagBuilder orc)) keys = Inr tag)"

definition channels_open :: "orchestrator \<Rightarrow> bool" where
  "channels_open orc \<longleftrightarrow> (\<forall>p\<in>set (pipelines orc). chanOpen p)"

text \<open>Between two steps of a call of sink \<open>i\<close>.\<close>

definition during_call :: "nat \<Rightarrow> orchestrator \<Rightarrow> bool" where
  "during_call i orc \<longleftrightarrow> orch_ok orc \<and> \<not> timedOut orc \<and> channels_open orc \<and> i < length (orchSinks orc)"

text \<open>What a call of sink \<open>i\<close> leaves as it is.\<close>

definition only_sink :: "nat \<Rightarrow> orchestrator \<Rightarrow> orchestrator \<Rightarrow> bool" where
  "only_sink i a b \<longleftrightarrow> keyLocators b = keyLocators a \<and> tagExpander (tagBuilder b) = tagExpander (tagBuilder a) \<and>
     length (orchSinks b) = length (orchSinks a) \<and> (\<forall>j. j \<noteq> i \<longrightarrow> orchSinks b ! j = orchSinks a ! j)"

lemma only_sink_refl [simp]: "only_sink i a a"
  by (simp add: only_sink_def)

lemma only_sink_trans: "only_sink i a b \<Longrightarrow> only_sink i b c \<Longrightarrow> only_sink i a c"
  by (simp add: only_sink_def)

lemma only_sink_put [simp]: "only_sink i a (put_sink i s a)"
  by (simp add: only_sink_def)

lemma only_sink_fits: "only_sink i a b \<Longrightarrow> keyset_fits b = keyset_fits a"
  by (simp add: only_sink_def keyset_fits_def fun_eq_iff)

text \<open>Sink \<open>i\<close> after a part of a call, from what it was before.\<close>

definition sink_at :: "nat \<Rightarrow> orchestrator \<Rightarrow> log_record list \<Rightarrow> bytes list \<Rightarrow> log_record list \<Rightarrow> bool \<Rightarrow> bool" where
  "sink_at i orc rest ks taken closed \<longleftrightarrow> todo (orchSinks orc ! i) = rest \<and> flushing (orchSinks orc ! i) = ks \<and>
     takenLog (orchSinks orc ! i) = taken \<and> sinkClosed (orchSinks orc ! i) = closed"

lemma channels_open_update:
  "channels_open orc \<Longrightarrow> chanOpen p \<Longrightarrow> channels_open (put_sink i s (orc\<lparr>pipelines := (pipelines orc)[n := p]\<rparr>))"
  unfolding channels_open_def using set_update_subset_insert by fastforce

lemma send_logs_runs:
  assumes "during_call i orc" and "sink_at i orc rest (k # ks) taken closed"
  shows "\<exists>orc'. send_logs i True k ks (orchSinks orc ! i) orc = Inr orc' \<and> during_call i orc' \<and> only_sink i orc orc' \<and>
    sink_at i orc' rest ks taken closed"
proof -
  let ?s = "orchSinks orc ! i"
  have d: "orch_ok orc" "\<not> timedOut orc" "channels_open orc" "i < length (orchSinks orc)"
    using assms(1) by (simp_all add: during_call_def)
  have so: "sink_ok orc ?s" by (rule orch_ok_sink[OF d(1,4)])
  have fl: "flushing ?s = k # ks" using assms(2) by (simp add: sink_at_def)
  have "pending_in (localMap ?s) k \<noteq> []" using so fl by (simp add: sink_ok_def)
  then obtain b where b: "map_of (localMap ?s) k = Some b" by (auto simp: pending_in_def split: option.splits)
  have gm: "map_of (globalMap orc) k = Some (channelOf b)" using so b by (auto simp: sink_ok_def links_ok_def)
  have ch: "channelOf b < length (pipelines orc)" using gm d(1) by (auto simp: orch_ok_def global_ok_def)
  have op: "chanOpen (pipelines orc ! channelOf b)" using d(3) ch by (simp add: channels_open_def)
  let ?s' = "?s\<lparr>localMap := AList.update k (b\<lparr>pendingLogs := [], pendingBytes := 0, lastFlushTime := callTime ?s\<rparr>) (localMap ?s), flushing := ks\<rparr>"
  let ?p = "(pipelines orc ! channelOf b)\<lparr>chanSent := chanSent (pipelines orc ! channelOf b) @ [(i, pendingLogs b)]\<rparr>"
  let ?o = "put_sink i ?s' (orc\<lparr>pipelines := (pipelines orc)[channelOf b := ?p]\<rparr>)"
  have r: "send_logs i True k ks ?s orc = Inr ?o"
    using b op by (simp add: send_logs_def flush_logs_def put_sink_def Let_def)
  have "orch_ok ?o" by (rule send_logs_ok[OF d(1,4) refl fl r])
  moreover have "channels_open ?o" by (rule channels_open_update[OF d(3)]) (simp add: op)
  ultimately have "during_call i ?o" using d(2,4) by (simp add: during_call_def)
  moreover have "only_sink i orc ?o" by (simp add: only_sink_def)
  moreover have "sink_at i ?o rest ks taken closed" using assms(2) d(4) by (simp add: sink_at_def)
  ultimately show ?thesis using r by blast
qed

lemma send_each_runs:
  assumes "during_call i orc" and "sink_at i orc rest ks taken closed" and "\<forall>n. ok n"
  shows "\<exists>orc'. send_each ok i ks orc = Inr orc' \<and> during_call i orc' \<and> only_sink i orc orc' \<and>
    sink_at i orc' rest [] taken closed"
  using assms
proof (induction ks arbitrary: orc)
  case Nil
  then show ?case by (intro exI[of _ orc]) simp
next
  case (Cons k ks)
  obtain orc1 where o: "send_logs i True k ks (orchSinks orc ! i) orc = Inr orc1" "during_call i orc1" "only_sink i orc orc1"
    "sink_at i orc1 rest ks taken closed"
    using send_logs_runs[OF Cons(2,3)] by (elim exE conjE) (rule that)
  obtain orc' where o': "send_each ok i ks orc1 = Inr orc'" "during_call i orc'" "only_sink i orc1 orc'"
    "sink_at i orc' rest [] taken closed"
    using Cons(1)[OF o(2,4) Cons(4)] by (elim exE conjE) (rule that)
  have "send_each ok i (k # ks) orc = Inr orc'" using o(1) o'(1) Cons(4) by simp
  then show ?case using o' only_sink_trans[OF o(3) o'(3)] by blast
qed

lemma get_or_create_local_runs:
  assumes "tag_of (tagExpander (tagBuilder orc)) keys = Inr tag" and "channels_open orc"
  shows "\<exists>merged cache lm orc'. get_or_create_local keys now lm0 orc = Inr (merged, cache, lm, orc') \<and> channels_open orc'"
proof (cases "map_of lm0 (concat keys)")
  case (Some b)
  then show ?thesis using assms(2) by (simp add: get_or_create_local_def)
next
  case None
  show ?thesis
  proof (cases "map_of (globalMap orc) (concat keys)")
    case (Some ch)
    then show ?thesis using None assms(2) by (simp add: get_or_create_local_def get_or_create_global_def Let_def)
  next
    case none: None
    obtain tb where "build_tag (tagBuilder orc) keys = Inr (tag, tb)" using build_tag_of[OF assms(1)] by blast
    then show ?thesis using None none assms(2)
      by (simp add: get_or_create_local_def get_or_create_global_def new_pipeline_def channels_open_def Let_def)
  qed
qed

lemma take_log_runs:
  assumes "during_call i orc" and "sink_at i orc (r # rest) [] taken closed" and "keyset_fits orc r"
  shows "\<exists>orc' ks. take_log i now r (orchSinks orc ! i) orc = Inr orc' \<and> during_call i orc' \<and> only_sink i orc orc' \<and>
    sink_at i orc' rest ks (taken @ [r]) closed"
proof -
  let ?s = "orchSinks orc ! i"
  have d: "orch_ok orc" "\<not> timedOut orc" "channels_open orc" "i < length (orchSinks orc)"
    using assms(1) by (simp_all add: during_call_def)
  have s: "todo ?s = r # rest" "flushing ?s = []" using assms(2) by (simp_all add: sink_at_def)
  obtain keys tag where k: "extract_field_set (keyLocators orc) r = Inr keys" "tag_of (tagExpander (tagBuilder orc)) keys = Inr tag"
    using assms(3) by (auto simp: keyset_fits_def)
  obtain merged cache lm orc1 where g: "get_or_create_local keys now (localMap ?s) orc = Inr (merged, cache, lm, orc1)"
    "channels_open orc1"
    using get_or_create_local_runs[OF k(2) d(3), of now "localMap ?s"] by (elim exE conjE) (rule that)
  have so: "global_ok orc" "links_ok orc (localMap ?s)" using orch_ok_sink[OF d(1,4)] d(1) by (simp_all add: sink_ok_def orch_ok_def)
  have ex: "extends orc orc1" using get_or_create_local_ok[OF g(1) so] by (elim conjE)
  obtain full cache' where a: "append_log r cache = (full, cache')" by fastforce
  let ?s' = "?s\<lparr>localMap := AList.update merged cache' lm, todo := tl (todo ?s),
      flushing := (if full then [merged] else []), takenLog := takenLog ?s @ [r]\<rparr>"
  have t: "take_log i now r ?s orc = Inr (put_sink i ?s' orc1)" using k(1) g(1) a by (simp add: take_log_def)
  have "orch_ok (put_sink i ?s' orc1)" by (rule take_log_ok[OF d(1,4) refl s t])
  then have "during_call i (put_sink i ?s' orc1)" using d(2,4) ex g(2)
    by (simp add: during_call_def extends_def channels_open_def)
  moreover have "only_sink i orc (put_sink i ?s' orc1)" using ex by (simp add: only_sink_def extends_def)
  moreover have "sink_at i (put_sink i ?s' orc1) rest (flushing ?s') (taken @ [r]) closed"
    using assms(2) ex d(4) by (simp add: sink_at_def extends_def)
  ultimately show ?thesis using t by blast
qed

lemma take_each_runs:
  assumes "during_call i orc" and "sink_at i orc rs [] taken closed" and "\<forall>n. ok n" and "\<forall>r\<in>set rs. keyset_fits orc r"
  shows "\<exists>orc'. take_each ok i now rs orc = Inr orc' \<and> during_call i orc' \<and> only_sink i orc orc' \<and>
    sink_at i orc' [] [] (taken @ rs) closed"
  using assms
proof (induction rs arbitrary: orc taken)
  case Nil
  then show ?case by (intro exI[of _ orc]) simp
next
  case (Cons r rs)
  have fit: "keyset_fits orc r" using Cons(5) by simp
  obtain orc1 ks where o: "take_log i now r (orchSinks orc ! i) orc = Inr orc1" "during_call i orc1" "only_sink i orc orc1"
    "sink_at i orc1 rs ks (taken @ [r]) closed"
    using take_log_runs[OF Cons(2,3) fit, of now] by (elim exE conjE) (rule that)
  have ok': "\<forall>n. (\<lambda>_. ok (length rs)) n" using Cons(4) by simp
  obtain orc2 where o2: "send_each (\<lambda>_. ok (length rs)) i ks orc1 = Inr orc2" "during_call i orc2" "only_sink i orc1 orc2"
    "sink_at i orc2 rs [] (taken @ [r]) closed"
    using send_each_runs[OF o(2,4) ok'] by (elim exE conjE) (rule that)
  have os: "only_sink i orc orc2" by (rule only_sink_trans[OF o(3) o2(3)])
  have fits: "\<forall>r\<in>set rs. keyset_fits orc2 r" using Cons(5) only_sink_fits[OF os] by simp
  obtain orc' where o': "take_each ok i now rs orc2 = Inr orc'" "during_call i orc'" "only_sink i orc2 orc'"
    "sink_at i orc' [] [] ((taken @ [r]) @ rs) closed"
    using Cons(1)[OF o2(2,4) Cons(4) fits] by (elim exE conjE) (rule that)
  have "flushing (orchSinks orc1 ! i) = ks" using o(4) by (simp add: sink_at_def)
  then have "take_each ok i now (r # rs) orc = Inr orc'" using o(1) o2(1) o'(1) by simp
  then show ?case using o' only_sink_trans[OF os o'(3)] by (intro exI[of _ orc']) simp
qed

section \<open>By key set: the contract\<close>

definition keyset_ready :: "orchestrator \<Rightarrow> bool" where
  "keyset_ready orc \<longleftrightarrow> orch_ok orc \<and> \<not> timedOut orc \<and> channels_open orc \<and>
     (\<forall>s\<in>set (orchSinks orc). todo s = [] \<and> flushing s = [])"

definition keyset_owns :: "orchestrator \<Rightarrow> nat \<Rightarrow> bool" where
  "keyset_owns orc k \<longleftrightarrow> k < length (orchSinks orc) \<and> \<not> sinkClosed (orchSinks orc ! k)"

definition keyset_received :: "orchestrator \<Rightarrow> log_record multiset" where
  "keyset_received orc = mset (concat (map takenLog (orchSinks orc)))"

text \<open>All channels are closed and have been sent exactly these records.\<close>

definition keyset_settled :: "orchestrator \<Rightarrow> log_record multiset \<Rightarrow> bool" where
  "keyset_settled orc logs \<longleftrightarrow> (\<forall>p\<in>set (pipelines orc). \<not> chanOpen p) \<and>
     mset (concat (map (\<lambda>p. concat (map snd (chanSent p))) (pipelines orc))) = logs"

text \<open>Sends are in time, and a walk visits every entry once.\<close>

definition keyset_fine :: "keyset_choice \<Rightarrow> bool" where
  "keyset_fine c \<longleftrightarrow> (\<forall>n. sendsInTime c n) \<and>
     (\<forall>lm. distinct (map fst lm) \<longrightarrow> distinct (walkOrder c lm) \<and> set (walkOrder c lm) = fst ` set lm)"

lemma mset_concat_update: "i < length xs \<Longrightarrow> mset (concat (xs[i := xs ! i @ ys])) = mset (concat xs) + mset ys"
proof (induction xs arbitrary: i)
  case (Cons x xs)
  then show ?case by (cases i) simp_all
qed simp

text \<open>The end of a call.\<close>

lemma call_ends:
  assumes "keyset_ready orc" and "i < length (orchSinks orc)" and "only_sink i orc orc'" and "during_call i orc'"
    and "sink_at i orc' [] [] (takenLog (orchSinks orc ! i) @ rs) closed"
  shows "keyset_ready orc' \<and> keyset_owns orc' = (\<lambda>k. if k = i then \<not> closed else keyset_owns orc k) \<and>
    keyset_received orc' = keyset_received orc + mset rs \<and> keyset_fits orc' = keyset_fits orc"
proof -
  have l: "length (orchSinks orc') = length (orchSinks orc)" "\<And>j. j \<noteq> i \<Longrightarrow> orchSinks orc' ! j = orchSinks orc ! j"
    using assms(3) by (simp_all add: only_sink_def)
  have s: "orchSinks orc' = (orchSinks orc)[i := orchSinks orc' ! i]"
  proof (rule nth_equalityI)
    fix j assume "j < length (orchSinks orc')"
    then show "orchSinks orc' ! j = (orchSinks orc)[i := orchSinks orc' ! i] ! j"
      using l(1) l(2)[of j] by (cases "j = i") simp_all
  qed (simp add: l(1))
  have t: "todo (orchSinks orc' ! i) = []" "flushing (orchSinks orc' ! i) = []"
    "takenLog (orchSinks orc' ! i) = takenLog (orchSinks orc ! i) @ rs" "sinkClosed (orchSinks orc' ! i) = closed"
    using assms(5) by (simp_all add: sink_at_def)
  have "\<forall>x\<in>set (orchSinks orc'). todo x = [] \<and> flushing x = []"
    using assms(1) t(1,2) set_update_subset_insert[of "orchSinks orc" i "orchSinks orc' ! i"] s
    unfolding keyset_ready_def by auto
  moreover have "map takenLog (orchSinks orc') = (map takenLog (orchSinks orc))[i := map takenLog (orchSinks orc) ! i @ rs]"
    using s t(3) assms(2) by (metis map_update nth_map)
  then have "keyset_received orc' = keyset_received orc + mset rs"
    unfolding keyset_received_def using mset_concat_update[of i "map takenLog (orchSinks orc)" rs] assms(2) by simp
  moreover have "keyset_owns orc' = (\<lambda>k. if k = i then \<not> closed else keyset_owns orc k)"
    using l t(4) assms(2) by (auto simp: keyset_owns_def fun_eq_iff)
  ultimately show ?thesis
    using assms(4) only_sink_fits[OF assms(3)] by (simp add: keyset_ready_def during_call_def)
qed

lemma ready_sink:
  "keyset_ready orc \<Longrightarrow> i < length (orchSinks orc) \<Longrightarrow> todo (orchSinks orc ! i) = [] \<and> flushing (orchSinks orc ! i) = []"
  by (simp add: keyset_ready_def)

lemma keyset_accept_ok:
  assumes "keyset_ready orc" and "keyset_owns orc i" and "keyset_fine c" and "\<forall>r\<in>set rs. keyset_fits orc r"
  shows "\<exists>orc'. keyset_accept c i rs orc = Inr orc' \<and> keyset_ready orc' \<and> keyset_owns orc' = keyset_owns orc \<and>
    keyset_received orc' = keyset_received orc + mset rs \<and> keyset_fits orc' = keyset_fits orc"
proof -
  let ?s = "orchSinks orc ! i"
  let ?o = "put_sink i (?s\<lparr>todo := rs, callTime := clockNow c\<rparr>) orc"
  have i: "i < length (orchSinks orc)" "\<not> sinkClosed ?s" using assms(2) by (simp_all add: keyset_owns_def)
  have q: "todo ?s = []" "flushing ?s = []" using ready_sink[OF assms(1) i(1)] by simp_all
  have ok: "orch_ok orc" "\<not> timedOut orc" "channels_open orc" using assms(1) by (simp_all add: keyset_ready_def)
  have "sink_idle ?s" using q i(2) by (simp add: sink_idle_def)
  then have "orch_ok ?o" using q i by (intro idle_step_ok[OF ok(1) i(1) refl]) auto
  then have d: "during_call i ?o" using ok(2,3) i(1) by (simp add: during_call_def channels_open_def)
  have a: "sink_at i ?o rs [] (takenLog ?s) False" using q i by (simp add: sink_at_def)
  have f: "\<forall>r\<in>set rs. keyset_fits ?o r" using assms(4) only_sink_fits[OF only_sink_put] by simp
  have t: "\<forall>n. sendsInTime c n" using assms(3) by (simp add: keyset_fine_def)
  obtain orc' where o: "take_each (sendsInTime c) i (clockNow c) rs ?o = Inr orc'" "during_call i orc'" "only_sink i ?o orc'"
    "sink_at i orc' [] [] (takenLog ?s @ rs) False"
    using take_each_runs[OF d a t f, of "clockNow c"] by (elim exE conjE) (rule that)
  have os: "only_sink i orc orc'" by (rule only_sink_trans[OF only_sink_put o(3)])
  have "(\<lambda>k. if k = i then \<not> False else keyset_owns orc k) = keyset_owns orc" using assms(2) by (auto simp: fun_eq_iff)
  then show ?thesis using call_ends[OF assms(1) i(1) os o(2,4)] o(1) by (simp add: keyset_accept_def)
qed

lemma flush_all_local_buffers_ok:
  assumes "keyset_ready orc" and "keyset_owns orc i" and "keyset_fine c"
  shows "\<exists>orc'. flush_all_local_buffers forceAll c i orc = Inr orc' \<and> keyset_ready orc' \<and>
    keyset_owns orc' = (\<lambda>k. if k = i then \<not> forceAll else keyset_owns orc k) \<and>
    keyset_received orc' = keyset_received orc \<and> keyset_fits orc' = keyset_fits orc"
proof -
  let ?s = "orchSinks orc ! i"
  let ?ks = "flush_all forceAll (clockNow c) (walkOrder c (localMap ?s)) ?s"
  let ?e = "(if forceAll then CloseSink else TickSink) i (clockNow c) (walkOrder c (localMap ?s))"
  let ?o = "put_sink i (?s\<lparr>flushing := ?ks, callTime := clockNow c, sinkClosed := (sinkClosed ?s \<or> forceAll)\<rparr>) orc"
  have i: "i < length (orchSinks orc)" "\<not> sinkClosed ?s" using assms(2) by (simp_all add: keyset_owns_def)
  have q: "todo ?s = []" "flushing ?s = []" using ready_sink[OF assms(1) i(1)] by simp_all
  have ok: "orch_ok orc" "\<not> timedOut orc" "channels_open orc" using assms(1) by (simp_all add: keyset_ready_def)
  have "distinct (map fst (localMap ?s))" using orch_ok_sink[OF ok(1) i(1)] by (simp add: sink_ok_def links_ok_def)
  then have w: "walk_order (walkOrder c (localMap ?s)) ?s" using assms(3) by (simp add: walk_order_def keyset_fine_def)
  have same: "s\<lparr>flushing := ks, callTime := t, sinkClosed := False\<rparr> = s\<lparr>flushing := ks, callTime := t\<rparr>"
    if "\<not> sinkClosed s" for s :: orch_sink and ks t
    using that by (cases s) simp
  have "orch_step ?e orc = Some (Inr ?o)"
    using i q w by (cases forceAll) (simp_all add: with_sink_def sink_idle_def same)
  then have "orch_ok ?o" by (rule orch_step_ok[OF ok(1)])
  then have d: "during_call i ?o" using ok(2,3) i(1) by (simp add: during_call_def channels_open_def)
  have a: "sink_at i ?o [] ?ks (takenLog ?s) forceAll" using q i by (simp add: sink_at_def)
  have t: "\<forall>n. sendsInTime c n" using assms(3) by (simp add: keyset_fine_def)
  obtain orc' where o: "send_each (sendsInTime c) i ?ks ?o = Inr orc'" "during_call i orc'" "only_sink i ?o orc'"
    "sink_at i orc' [] [] (takenLog ?s) forceAll"
    using send_each_runs[OF d a t] by (elim exE conjE) (rule that)
  have os: "only_sink i orc orc'" by (rule only_sink_trans[OF only_sink_put o(3)])
  have e: "sink_at i orc' [] [] (takenLog ?s @ []) forceAll" using o(4) by simp
  show ?thesis using call_ends[OF assms(1) i(1) os o(2) e] o(1) by (simp add: flush_all_local_buffers_def Let_def)
qed

lemma keyset_new_sink_ok:
  assumes "keyset_ready orc" and "keyset_new_sink addr n orc = (k, orc')"
  shows "keyset_ready orc' \<and> \<not> keyset_owns orc k \<and> keyset_owns orc' = (\<lambda>k'. k' = k \<or> keyset_owns orc k') \<and>
    keyset_received orc' = keyset_received orc \<and> keyset_fits orc' = keyset_fits orc"
proof -
  have o: "orc' = orc\<lparr>orchSinks := orchSinks orc @ [new_orch_sink]\<rparr>" "k = length (orchSinks orc)"
    using assms(2) by (simp_all add: keyset_new_sink_def)
  have "orch_ok orc'" unfolding o(1) by (rule new_sink_ok) (use assms(1) in \<open>simp add: keyset_ready_def\<close>)
  then show ?thesis using assms(1)
    by (auto simp: o keyset_ready_def channels_open_def keyset_owns_def keyset_received_def keyset_fits_def nth_append
      less_Suc_eq fun_eq_iff)
qed

text \<open>When all sinks are closed, everything taken has been sent.\<close>

lemma mset_concat_sum: "mset (concat xs) = (\<Sum>i<length xs. mset (xs ! i))"
proof (induction xs)
  case (Cons x xs)
  then show ?case by (simp add: sum.lessThan_Suc_shift del: sum.lessThan_Suc)
qed simp

text \<open>Batches by the sinks they come from.\<close>

lemma sent_by_partition:
  assumes "\<forall>(j, b)\<in>set (chanSent p). j < n"
  shows "mset (concat (map snd (chanSent p))) = (\<Sum>i<n. mset (sent_by i p))"
proof -
  have "mset (concat (map snd bs)) = (\<Sum>i<n. mset (concat (map snd (filter (\<lambda>x. fst x = i) bs))))"
    if "\<forall>(j, b)\<in>set bs. j < n" for bs :: "(nat \<times> log_record list) list"
    using that
  proof (induction bs)
    case (Cons x bs)
    obtain j b where x: "x = (j, b)" by fastforce
    have "(\<Sum>i<n. if j = i then mset b else {#}) = mset b" using Cons(2) x by simp
    moreover have "mset (concat (map snd (filter (\<lambda>x. fst x = i) (x # bs)))) =
        (if j = i then mset b else {#}) + mset (concat (map snd (filter (\<lambda>x. fst x = i) bs)))" for i
      using x by simp
    moreover have "mset (concat (map snd bs)) = (\<Sum>i<n. mset (concat (map snd (filter (\<lambda>x. fst x = i) bs))))"
      using Cons(2) by (intro Cons(1)) simp
    moreover have "mset (concat (map snd (x # bs))) = mset b + mset (concat (map snd bs))" using x by simp
    ultimately show ?case by (simp only: sum.distrib)
  qed simp
  from this[OF assms] show ?thesis by (simp only: sent_by_def)
qed

lemma filter_partition:
  fixes m :: nat
  assumes "\<forall>r\<in>set rs. \<exists>!n. n < m \<and> f r = key n"
  shows "(\<Sum>n<m. mset (filter (\<lambda>r. f r = key n) rs)) = mset rs"
  using assms
proof (induction rs)
  case (Cons r rs)
  have "\<exists>!n. n < m \<and> f r = key n" using Cons(2) by simp
  then obtain k where k: "k < m" "f r = key k" "\<forall>n<m. f r = key n \<longrightarrow> n = k" by blast
  have "(\<Sum>n<m. if f r = key n then {#r#} else {#}) = (\<Sum>n<m. if k = n then {#r#} else {#})"
  proof (intro sum.cong refl)
    fix n assume "n \<in> {..<m}"
    then have "f r = key n \<longleftrightarrow> k = n" using k(2,3) by fastforce
    then show "(if f r = key n then {#r#} else {#}) = (if k = n then {#r#} else {#})" by simp
  qed
  also have "\<dots> = {#r#}" using k(1) by simp
  finally have 1: "(\<Sum>n<m. if f r = key n then {#r#} else {#}) = {#r#}" .
  have "mset (filter (\<lambda>r. f r = key n) (r # rs)) =
      (if f r = key n then {#r#} else {#}) + mset (filter (\<lambda>r. f r = key n) rs)" for n
    by simp
  moreover have "(\<Sum>n<m. mset (filter (\<lambda>r. f r = key n) rs)) = mset rs" using Cons(2) by (intro Cons(1)) simp
  ultimately show ?case using 1 by (simp add: sum.distrib del: filter.simps)
qed simp

lemma all_sent:
  assumes "keyset_ready orc" and "\<forall>k. \<not> keyset_owns orc k"
  shows "mset (concat (map (\<lambda>p. concat (map snd (chanSent p))) (pipelines orc))) = keyset_received orc"
proof -
  let ?ps = "pipelines orc" and ?ss = "orchSinks orc"
  let ?key = "\<lambda>n. concat (pipeKeys (?ps ! n))"
  have ok: "orch_ok orc" "\<not> timedOut orc" using assms(1) by (simp_all add: keyset_ready_def)
  have g: "global_ok orc" "batches_ok orc" using ok(1) by (simp_all add: orch_ok_def)
  have f: "passed_of orc i m = filter (\<lambda>r. merged_key orc r = m) (takenLog (?ss ! i))" if i: "i < length ?ss" for i m
  proof -
    have "sinkClosed (?ss ! i)" "flushing (?ss ! i) = []" using assms i by (auto simp: keyset_owns_def keyset_ready_def)
    then have "pending_in (localMap (?ss ! i)) m = []" using orch_ok_sink[OF ok(1) i] by (force simp: sink_ok_def)
    then show ?thesis using orch_ok_flow[OF ok(1) i ok(2)] unfolding flow_ok_def by (metis append_Nil2)
  qed
  have p: "passed_of orc i (?key n) = sent_by i (?ps ! n)" if "n < length ?ps" for i n
  proof -
    have "map_of (globalMap orc) (?key n) = Some n" using g(1) that by (simp add: global_ok_def)
    then show ?thesis by (simp add: passed_of_def)
  qed
  have u: "\<forall>r\<in>set (takenLog (?ss ! i)). \<exists>!n. n < length ?ps \<and> merged_key orc r = ?key n" if i: "i < length ?ss" for i
  proof
    fix r assume "r \<in> set (takenLog (?ss ! i))"
    then have "passed_of orc i (merged_key orc r) \<noteq> []" using f[OF i] by (auto simp: filter_empty_conv)
    then obtain n where n: "map_of (globalMap orc) (merged_key orc r) = Some n"
      by (auto simp: passed_of_def split: option.splits)
    show "\<exists>!n. n < length ?ps \<and> merged_key orc r = ?key n"
    proof (rule ex1I[of _ n])
      show "n < length ?ps \<and> merged_key orc r = ?key n" using global_ok_index[OF g(1) n] by simp
      fix k assume "k < length ?ps \<and> merged_key orc r = ?key k"
      then have "map_of (globalMap orc) (merged_key orc r) = Some k" using g(1) by (simp add: global_ok_def)
      then show "k = n" using n by simp
    qed
  qed
  have "mset (concat (map snd (chanSent (?ps ! n)))) = (\<Sum>i<length ?ss. mset (sent_by i (?ps ! n)))" if "n < length ?ps" for n
    using g(2) nth_mem[OF that] by (intro sent_by_partition) (fastforce simp: batches_ok_def)
  then have "mset (concat (map (\<lambda>p. concat (map snd (chanSent p))) ?ps)) =
      (\<Sum>n<length ?ps. \<Sum>i<length ?ss. mset (sent_by i (?ps ! n)))"
    by (simp add: mset_concat_sum[of "map _ _"])
  also have "\<dots> = (\<Sum>i<length ?ss. \<Sum>n<length ?ps. mset (sent_by i (?ps ! n)))" by (rule sum.swap)
  also have "\<dots> = (\<Sum>i<length ?ss. mset (takenLog (?ss ! i)))"
  proof (intro sum.cong refl)
    fix i assume "i \<in> {..<length ?ss}"
    then have i: "i < length ?ss" by simp
    have "(\<Sum>n<length ?ps. mset (sent_by i (?ps ! n))) =
        (\<Sum>n<length ?ps. mset (filter (\<lambda>r. merged_key orc r = ?key n) (takenLog (?ss ! i))))"
      by (intro sum.cong refl) (simp add: p[symmetric] f[OF i])
    also have "\<dots> = mset (takenLog (?ss ! i))" by (rule filter_partition[OF u[OF i]])
    finally show "(\<Sum>n<length ?ps. mset (sent_by i (?ps ! n))) = mset (takenLog (?ss ! i))" .
  qed
  also have "\<dots> = keyset_received orc" by (simp add: keyset_received_def mset_concat_sum[of "map _ _"])
  finally show ?thesis .
qed

lemma keyset_shutdown_ok:
  assumes "keyset_ready orc" and "\<forall>k. \<not> keyset_owns orc k"
  shows "\<exists>orc'. keyset_shutdown orc = Inr orc' \<and> keyset_settled orc' (keyset_received orc)"
  using all_sent[OF assms] assms(1)
  by (simp add: keyset_shutdown_def keyset_settled_def destroy_map_def keyset_ready_def channels_open_def comp_def)

interpretation keyset: orchestrator_contract keyset_ops keyset_ready keyset_owns keyset_received keyset_settled keyset_fine keyset_fits
proof unfold_locales
  fix d :: orchestrator and k c
  assume d: "keyset_ready d"
  show "keyset_ready d' \<and> \<not> keyset_owns d k \<and> keyset_owns d' = (\<lambda>k'. k' = k \<or> keyset_owns d k') \<and>
      keyset_received d' = keyset_received d \<and> keyset_fits d' = keyset_fits d"
    if "opNewSink keyset_ops addr n d = (k, d')" for addr n d'
    using keyset_new_sink_ok[OF d] that by (simp add: keyset_ops_def)
  show "\<exists>d'. opShutdown keyset_ops d = Inr d' \<and> keyset_settled d' (keyset_received d)" if "\<forall>k. \<not> keyset_owns d k"
    using keyset_shutdown_ok[OF d that] by (simp add: keyset_ops_def)
  assume k: "keyset_owns d k" and c: "keyset_fine c"
  show "\<exists>d'. opAccept keyset_ops c k logs d = Inr d' \<and> keyset_ready d' \<and> keyset_owns d' = keyset_owns d \<and>
      keyset_received d' = keyset_received d + mset logs \<and> keyset_fits d' = keyset_fits d"
    if "\<forall>r\<in>set logs. keyset_fits d r" for logs
    using keyset_accept_ok[OF d k c that] by (simp add: keyset_ops_def)
  have o: "(\<lambda>k'. if k' = k then \<not> False else keyset_owns d k') = keyset_owns d"
    "(\<lambda>k'. if k' = k then \<not> True else keyset_owns d k') = (\<lambda>k'. keyset_owns d k' \<and> k' \<noteq> k)"
    using k by (auto simp: fun_eq_iff)
  show "\<exists>d'. opTick keyset_ops c k d = Inr d' \<and> keyset_ready d' \<and> keyset_owns d' = keyset_owns d \<and>
      keyset_received d' = keyset_received d \<and> keyset_fits d' = keyset_fits d"
    using flush_all_local_buffers_ok[OF d k c, of False] unfolding o by (simp add: keyset_ops_def keyset_tick_def)
  show "\<exists>d'. opClose keyset_ops c k d = Inr d' \<and> keyset_ready d' \<and> keyset_owns d' = (\<lambda>k'. keyset_owns d k' \<and> k' \<noteq> k) \<and>
      keyset_received d' = keyset_received d \<and> keyset_fits d' = keyset_fits d"
    using flush_all_local_buffers_ok[OF d k c, of True] unfolding o by (simp add: keyset_ops_def keyset_close_def)
qed

section \<open>Construction gives a fresh orchestrator\<close>

text \<open>Tags can be made of any key set with as many keys as configured.\<close>

lemma solver_total:
  "create_variable_expression_solver resolver a b = Inr p \<Longrightarrow> resolver source = Inr v \<Longrightarrow> \<exists>w. p source = Inr w"
  by (auto simp: create_variable_expression_solver_def go_bind_eq_Inr substring_correct split: if_splits)

lemma make_providers_total:
  assumes "make_providers resolve ps = Inr (Inr providers)" and "\<forall>name p. resolve name = Inr p \<longrightarrow> (\<exists>v. p source = Inr v)"
  shows "\<forall>p\<in>set providers. \<exists>v. p source = Inr v"
  using assms(1)
proof (induction ps arbitrary: providers)
  case (Cons part ps)
  have step: "\<forall>p\<in>set providers. \<exists>v. p source = Inr v"
    if "go_bind (make_providers resolve ps) (\<lambda>r. case r of Inl e \<Rightarrow> Inr (Inl e) | Inr providers \<Rightarrow> Inr (Inr (provider # providers))) =
        Inr (Inr providers)" and "\<exists>v. provider source = Inr v" for provider
  proof (cases "make_providers resolve ps")
    case (Inr r)
    then show ?thesis using that Cons(1) by (cases r) auto
  qed (use that in simp)
  obtain c where c: "go_index part 0 = Inr c" using Cons(2) by (auto simp: go_bind_eq_Inr)
  show ?case
  proof (cases "c = CHR ''$''")
    case False
    then show ?thesis using Cons(2) c step by (simp add: Let_def)
  next
    case True
    obtain d where d: "go_index part 1 = Inr d" using Cons(2) c True by (auto simp: go_bind_eq_Inr Let_def)
    show ?thesis
    proof (cases "d = CHR ''{'' \<and> last part = CHR ''}''")
      case False
      then obtain vp where v: "resolve (tl part) = Inr vp" using Cons(2) c d True by (auto simp: Let_def split: sum.splits)
      then show ?thesis using Cons(2) c d True False assms(2) by (intro step[of vp]) (auto simp: Let_def)
    next
      case braces: True
      obtain vexpr where e: "go_slice part 2 (int (length part) - 1) = Inr vexpr"
        using Cons(2) c d True braces by (auto simp: go_bind_eq_Inr Let_def)
      obtain vname a b where m: "match_variable_expression vexpr = Some (vname, a, b)"
        using Cons(2) c d True braces e by (auto simp: Let_def split: option.splits)
      obtain vp where v: "resolve vname = Inr vp"
        using Cons(2) c d True braces e m by (auto simp: Let_def split: sum.splits)
      obtain provider where p: "create_variable_expression_solver vp a b = Inr provider"
        using Cons(2) c d True braces e m v by (auto simp: Let_def go_bind_eq_Inr)
      have "\<exists>w. provider source = Inr w" using solver_total[OF p] assms(2) v by blast
      then show ?thesis using Cons(2) c d True braces e m v p by (intro step[of provider]) (simp_all add: Let_def)
    qed
  qed
qed simp

lemma tag_total:
  assumes "new_tag_builder template keyNames = Inr (Inr tb)" and "length keys = length keyNames"
  shows "\<exists>tag. tag_of (tagExpander tb) keys = Inr tag"
proof -
  let ?resolve = "\<lambda>name. case index_byte name keyNames of None \<Rightarrow> Inl (FieldNotDefined name)
      | Some i \<Rightarrow> Inr (\<lambda>labelValues. go_index labelValues (int i))"
  have r: "\<forall>name p. ?resolve name = Inr p \<longrightarrow> (\<exists>v. p keys = Inr v)"
    using assms(2) by (auto simp: go_index_def dest: index_byte_SomeD split: option.splits)
  obtain x where x: "new_expander template ?resolve = Inr x" using assms(1) by (auto simp: new_tag_builder_def go_bind_eq_Inr)
  then have "new_expander template ?resolve = Inr (Inr (tagExpander tb))"
    using assms(1) by (cases x) (auto simp: new_tag_builder_def)
  from make_providers_total[OF new_expander_providers[OF this] r] have "\<exists>f. \<forall>p\<in>set (tagExpander tb). p keys = Inr (f p)" by metis
  then obtain f where "\<forall>p\<in>set (tagExpander tb). p keys = Inr (f p)" by blast
  then have "\<exists>buf. run_with_buffer (tagExpander tb) keys [] = Inr (concat (map f (tagExpander tb)), buf)"
    by (intro expander_run_ok(2)) simp
  then show ?thesis by (auto simp: tag_of_def)
qed

lemma get_or_create_local_open:
  "get_or_create_local keys now lm0 orc = Inr (merged, cache, lm, orc') \<Longrightarrow> channels_open orc \<Longrightarrow> channels_open orc'"
  by (auto simp: get_or_create_local_def get_or_create_global_def new_pipeline_def channels_open_def Let_def go_bind_eq_Inr
      split: option.splits)

lemma create_initial_open: "create_initial n now ids lm orc = Inr orc' \<Longrightarrow> channels_open orc \<Longrightarrow> channels_open orc'"
proof (induction ids arbitrary: lm orc)
  case (Cons pid pids)
  show ?case
  proof (cases "length (str_split CHR '','' pid) = n")
    case False
    then show ?thesis using Cons by simp
  next
    case True
    obtain merged cache lm1 orc1 where g: "get_or_create_local (str_split CHR '','' pid) now lm orc = Inr (merged, cache, lm1, orc1)"
      "create_initial n now pids lm1 orc1 = Inr orc'"
      using Cons(2) True by (auto simp: go_bind_eq_Inr)
    show ?thesis by (rule Cons(1)[OF g(2) get_or_create_local_open[OF g(1) Cons(3)]])
  qed
qed simp

lemma new_orchestrator_fresh:
  assumes "new_orchestrator schema keyFields tagTemplate ids now = Inr orc"
    and "\<forall>r\<in>R. length (fieldNames schema) \<le> length (Fields r)"
  shows "keyset.fresh_for R orc"
proof -
  obtain locs tb where s: "create_field_locators schema keyFields = Inr locs" "new_tag_builder tagTemplate keyFields = Inr (Inr tb)"
    "create_initial (length keyFields) now ids []
      \<lparr>keyLocators = locs, tagBuilder = tb, globalMap = [], pipelines = [], orchSinks = [], destroyed = False, timedOut = False\<rparr> = Inr orc"
    using new_orchestrator_cases[OF assms(1)] by (elim exE conjE) (rule that)
  let ?o = "\<lparr>keyLocators = locs, tagBuilder = tb, globalMap = [], pipelines = [], orchSinks = [], destroyed = False, timedOut = False\<rparr>"
  have "orch_ok orc \<and> extends ?o orc"
    by (rule create_initial_ok[OF s(3)]) (simp_all add: orch_ok_def global_ok_def batches_ok_def links_ok_def)
  then have o: "orch_ok orc" "orchSinks orc = []" "keyLocators orc = locs" "\<not> timedOut orc"
    "tagExpander (tagBuilder orc) = tagExpander tb"
    by (simp_all add: extends_def)
  have op: "channels_open orc" by (rule create_initial_open[OF s(3)]) (simp add: channels_open_def)
  have "keyset_fits orc r" if r: "r \<in> R" for r
  proof -
    have "list_all (loc_ok (length (Fields r))) locs"
      using create_field_locators_ok[OF s(1)] assms(2) r by (fastforce simp: list_all_iff loc_ok_def)
    then have e: "extract_field_set locs r = Inr (map (\<lambda>loc. Fields r ! nat loc) locs)" by (rule extract_field_set_ok)
    obtain tag where "tag_of (tagExpander tb) (map (\<lambda>loc. Fields r ! nat loc) locs) = Inr tag"
      using tag_total[OF s(2), of "map (\<lambda>loc. Fields r ! nat loc) locs"] create_field_locators_ok[OF s(1)] by auto
    then show ?thesis using e o(3,5) by (simp add: keyset_fits_def)
  qed
  then show ?thesis using o op
    by (simp add: keyset.fresh_for_def keyset_ready_def keyset_owns_def keyset_received_def)
qed

section \<open>Examples\<close>

definition sample_choice :: "gotime \<Rightarrow> keyset_choice" where
  "sample_choice now = \<lparr>clockNow = now, walkOrder = map fst, sendsInTime = (\<lambda>_. True)\<rparr>"

lemma sample_choice_fine: "keyset_fine (sample_choice now)"
  by (simp add: keyset_fine_def sample_choice_def)

definition sample_orc :: orchestrator where
  "sample_orc = \<lparr>keyLocators = [0, 1], tagBuilder = \<lparr>tagExpander = [\<lambda>_. Inr ''T''], tagBuffer = []\<rparr>, globalMap = [],
     pipelines = [], orchSinks = [], destroyed = False, timedOut = False\<rparr>"

lemma sample_orc_new: "new_orchestrator sample_schema2 [''app'', ''host''] ''T'' [] 0 = Inr sample_orc"
proof -
  have "create_field_locators sample_schema2 [''app'', ''host''] = Inr [0, 1]" by code_simp
  then show ?thesis
    by (simp add: new_orchestrator_def sample_tag_builder sample_orc_def del: create_field_locators.simps)
qed

lemma close_sinks_None: "close_sinks ops cs n (replicate m None) ds = Inr ds"
  by (induction m arbitrary: n) simp_all

lemma recreate_sinks_None: "recreate_sinks ops cur n (replicate m (None, addr)) d = (replicate m None, d)"
  by (induction m arbitrary: n) simp_all

definition sample_reload :: "(orchestrator, keyset_choice) reload_event list" where
  "sample_reload =
     [MakeSink ''1.2.3.4:5'' 0, InstallSink 0, AcceptFrom (sample_choice 1) 0 [sample_log ''a'' ''x''],
      ReloadConfig (\<lambda>_. sample_choice 2) (Inr sample_orc), AcceptFrom (sample_choice 3) 0 [sample_log ''b'' ''x'']]"

lemmas reload_eval = new_reloadable_def make_sink_def install_sink_def sink_accept_def sink_tick_def sink_close_def
  call_downstream_def shutdown_downstream_def reload_def installed_def close_sinks_None recreate_sinks_None go_set_def

lemmas keyset_eval = keyset_ops_def keyset_new_sink_def keyset_accept_def keyset_tick_def keyset_close_def
  flush_all_local_buffers_def keyset_shutdown_def destroy_map_def sample_choice_def sample_orc_def

text \<open>The sample with one sink, and what its calls make of it.\<close>

definition sample_orc1 :: orchestrator where
  "sample_orc1 = sample_orc\<lparr>orchSinks := [new_orch_sink]\<rparr>"

definition sample_taken :: "gotime \<Rightarrow> log_record \<Rightarrow> orchestrator" where
  "sample_taken now r = sample_orc
     \<lparr>globalMap := [(concat (Fields r), 0)],
      pipelines := [\<lparr>pipeKeys = Fields r, workerID = str_join '','' (Fields r), outputTag = ''T'', chanOpen = True, chanSent = []\<rparr>],
      orchSinks := [\<lparr>localMap = [(concat (Fields r), \<lparr>channelOf = 0, pendingLogs = [r], pendingBytes = RawLength r, lastFlushTime = now\<rparr>)],
        todo = [], flushing = [], callTime = now, sinkClosed = False, takenLog = [r]\<rparr>]\<rparr>"

lemma sample_accept: "keyset_accept (sample_choice now) 0 [sample_log app host] sample_orc1 = Inr (sample_taken now (sample_log app host))"
  by (simp add: keyset_eval sample_orc1_def sample_taken_def sample_eval)

lemma sample_close: "\<exists>d. keyset_close (sample_choice later) 0 (sample_taken now (sample_log app host)) = Inr d \<and> (\<forall>p\<in>set (pipelines d). chanOpen p)"
  by (simp add: keyset_eval sample_taken_def sample_eval)

lemma sample_reload_runs:
  "\<exists>orc. reload_run keyset_ops sample_reload (new_reloadable sample_orc) = Some (Inr orc) \<and>
     calm keyset_ops sample_reload (new_reloadable sample_orc)"
proof -
  have "MaxClientNumber = Suc 262143" by (simp add: MaxClientNumber_def)
  then obtain m where m: "MaxClientNumber = Suc m" by blast
  obtain d where d: "keyset_close (sample_choice 2) 0 (sample_taken 1 (sample_log ''a'' ''x'')) = Inr d" "\<forall>p\<in>set (pipelines d). chanOpen p"
    using sample_close by blast
  have n: "keyset_new_sink addr 0 sample_orc = (0, sample_orc1)" for addr
    by (simp add: keyset_new_sink_def sample_orc1_def sample_orc_def)
  have s: "keyset_shutdown d = Inr (destroy_map d)" using d(2) by (auto simp: keyset_shutdown_def)
  show ?thesis by (simp add: sample_reload_def m reload_eval keyset_ops_def n sample_accept d(1) s go_index_def)
qed

section \<open>Properties\<close>



text \<open>
  The other case: a reload between the two halves of \<open>NewSink\<close> leaves the connection with a sink of
  the orchestrator that was shut down, and its next records panic.
\<close>

lemma new_sink_race_panics:
  "reload_run singleton_ops
     [MakeSink addr 0, ReloadConfig (\<lambda>_. True) (Inr (new_singleton tag')), InstallSink 0, AcceptFrom True 0 [r]]
     (new_reloadable (new_singleton tag)) = Some (Inl SendOnClosedChannel)"
proof -
  have "MaxClientNumber = Suc 262143" by (simp add: MaxClientNumber_def)
  then obtain m where m: "MaxClientNumber = Suc m" by blast
  show ?thesis
    by (simp add: m reload_eval singleton_ops_def singleton_new_sink_def singleton_shutdown_def singleton_accept_def
      new_singleton_def go_index_def)
qed

text \<open>With the singleton, too, nothing is lost.\<close>

lemma singleton_reload_keeps_records:
  assumes "reload_run singleton_ops es (new_reloadable (new_singleton tag)) = Some res"
    and "\<forall>orc\<in>set (orchestrators_of es). \<exists>tag. orc = new_singleton tag"
    and "\<forall>e\<in>set es. choices_fine (\<lambda>sent. sent) e" and "calm singleton_ops es (new_reloadable (new_singleton tag))"
  shows "\<exists>orc logs. res = Inr orc \<and> list_all2 singleton_settled (butlast (launched orc)) logs \<and>
    mset (records_of es) = sum_list logs + singleton_received (last (launched orc))"
proof -
  have "\<forall>d\<in>set (new_singleton tag # orchestrators_of es). singleton.fresh_for (set (records_of es)) d"
    using assms(2) by (auto simp: singleton.fresh_for_def singleton_defs new_singleton_def)
  from singleton.records_kept[OF assms(1) this assms(3,4)] show ?thesis by blast
qed

end
