(* ===== verification/Input_Config.thy ===== *)
theory Input_Config
  imports Receiver Transform_Build
begin

text \<open>
  The configuration of the syslog input, \<open>input/sysloginput/sysloginput.go\<close>: its verification, what
  it makes for each connection, and which fields it locates in the schema. Verification locates
  every field that the parser and the transforms use but one kind, the captures of \<open>extract\<close>; if
  these fields have the same places in two schemas, the same parser and transforms are made.
\<close>

section \<open>Addresses\<close>

text \<open>\<open>net.SplitHostPort\<close>: the host and the port.\<close>

definition split_host_port :: "bytes \<Rightarrow> (bytes \<times> bytes) option" where
  "split_host_port s =
     (case last_index_byte CHR '':'' s of
        None \<Rightarrow> None
      | Some i \<Rightarrow>
          (let port = drop (Suc i) s in
           if s ! 0 = CHR ''['' then
             (case index_byte CHR '']'' s of
                None \<Rightarrow> None
              | Some e \<Rightarrow>
                  if Suc e = i \<and> CHR ''['' \<notin> set (drop 1 s) \<and> CHR '']'' \<notin> set (drop (Suc e) s)
                  then Some (drop 1 (take e s), port) else None)
           else if CHR '':'' \<in> set (take i s) \<or> CHR ''['' \<in> set s \<or> CHR '']'' \<in> set s then None
           else Some (take i s, port)))"

section \<open>The syslog input\<close>

record syslog_config =
  syslogAddress :: bytes
  LevelMapping :: "bytes list"
  Extractions :: "transform_config list"

text \<open>The parser made to see if there is an error has counters of its own.\<close>

definition verify_syslog_input :: "environment \<Rightarrow> log_schema \<Rightarrow> syslog_config \<Rightarrow> unit cfg go" where
  "verify_syslog_input env schema cfg =
     cfg_then (fail_if (split_host_port (syslogAddress cfg) = None) (InvalidValue ''.address''))
     (cfg_then (fail_if (LevelMapping cfg = []) (EmptyList ''.levelMapping''))
     (cfg_then (fail_if (Extractions cfg = []) (EmptyList ''.extractions''))
     (cfg_then (Inr (case new_syslog_parser schema (LevelMapping cfg) new_input_counters of Inl e \<Rightarrow> Inl e | Inr _ \<Rightarrow> Inr ()))
        (verify_transforms env schema (Extractions cfg)))))"

text \<open>What \<open>NewTransform\<close> registers of the counters of the input.\<close>

fun register_custom_labels :: "bytes list \<Rightarrow> counter_host \<Rightarrow> counter_host" where
  "register_custom_labels [] host = host"
| "register_custom_labels (l # ls) host = register_custom_labels ls (snd (register_custom_counter host l))"

text \<open>\<open>createParser\<close> of \<open>NewInput\<close>, called for each connection.\<close>

definition create_parser ::
  "environment \<Rightarrow> log_allocator \<Rightarrow> log_schema \<Rightarrow> syslog_config \<Rightarrow> input_counters \<Rightarrow> (syslog_parser \<times> composite_state) run" where
  "create_parser env alloc schema cfg counters =
     (case new_syslog_parser schema (LevelMapping cfg) counters of
        Inl e \<Rightarrow> Some (Inl (LoggerPanic ''failed to create parser''))
      | Inr (parser, counters) \<Rightarrow>
          run_bind (new_transforms env schema (Extractions cfg)) (\<lambda>(ts, labels).
            Some (Inr (parser,
              \<lparr>csAllocator = alloc,
               csCounters = counters\<lparr>customHost := register_custom_labels labels (customHost counters)\<rparr>,
               csExtractions = ts\<rparr>))))"

definition new_syslog_input ::
  "environment \<Rightarrow> log_allocator \<Rightarrow> log_schema \<Rightarrow> syslog_config \<Rightarrow> (input_counters \<Rightarrow> (syslog_parser \<times> composite_state) run) cfg" where
  "new_syslog_input env alloc schema cfg =
     (if LevelMapping cfg = [] then Inl (EmptyList ''.levelMapping'')
      else if Extractions cfg = [] then Inl (EmptyList ''.extractions'')
      else Inr (create_parser env alloc schema cfg))"

section \<open>Which fields are located\<close>

definition part_variable :: "bytes \<Rightarrow> bytes list" where
  "part_variable p =
     (case p of
        [] \<Rightarrow> []
      | c # rest \<Rightarrow>
          if c \<noteq> CHR ''$'' then []
          else if rest \<noteq> [] \<and> hd rest = CHR ''{'' \<and> last p = CHR ''}''
          then (case match_variable_expression (take (length p - 3) (drop 2 p)) of None \<Rightarrow> [] | Some (name, a, b) \<Rightarrow> [name])
          else [rest])"

definition template_fields :: "bytes \<Rightarrow> bytes list" where
  "template_fields template = concat (map part_variable (find_all_parts template))"

text \<open>The names a transform locates when it is verified.\<close>

fun transform_fields :: "transform_config \<Rightarrow> bytes list"
and transforms_fields :: "transform_config list \<Rightarrow> bytes list"
and cases_fields :: "(matcher_config \<times> transform_config list) list \<Rightarrow> bytes list" where
  "transform_fields (AddFieldsConfig pairs) = concat (map (\<lambda>(dst, expr). dst # template_fields expr) pairs)"
| "transform_fields (BlockConfig steps) = transforms_fields steps"
| "transform_fields (DelFieldsConfig keys) = keys"
| "transform_fields (DropConfig match percentage label) = map fst match"
| "transform_fields (ExtractConfig key pattern) = [key]"
| "transform_fields (ExtractSpecialConfig pos key pattern maxLength destKey) = [key, destKey]"
| "transform_fields (IfConfig match thens) = map fst match @ transforms_fields thens"
| "transform_fields (MapValueConfig key mapping def) = [key]"
| "transform_fields (ParseTimeConfig key label) = [key]"
| "transform_fields (RedactEmailConfig key label) = [key]"
| "transform_fields (ReplaceConfig key pattern repl) = [key]"
| "transform_fields (SwitchConfig cases) = cases_fields cases"
| "transform_fields (TruncateConfig key maxLength sfx) = [key]"
| "transform_fields (UnescapeConfig key) = [key]"
| "transforms_fields [] = []"
| "transforms_fields (c # cs) = transform_fields c @ transforms_fields cs"
| "cases_fields [] = []"
| "cases_fields ((match, thens) # rest) = map fst match @ transforms_fields thens @ cases_fields rest"

text \<open>The captures of \<open>extract\<close>, which are located only when the transform is made.\<close>

definition pattern_captures :: "environment \<Rightarrow> bytes \<Rightarrow> bytes list" where
  "pattern_captures env pattern =
     (case compileRegexp env pattern of None \<Rightarrow> [] | Some re \<Rightarrow> filter (\<lambda>name. name \<noteq> []) (subexpNames re))"

fun transform_captures :: "environment \<Rightarrow> transform_config \<Rightarrow> bytes list"
and transforms_captures :: "environment \<Rightarrow> transform_config list \<Rightarrow> bytes list"
and cases_captures :: "environment \<Rightarrow> (matcher_config \<times> transform_config list) list \<Rightarrow> bytes list" where
  "transform_captures env (BlockConfig steps) = transforms_captures env steps"
| "transform_captures env (ExtractConfig key pattern) = pattern_captures env pattern"
| "transform_captures env (IfConfig match thens) = transforms_captures env thens"
| "transform_captures env (SwitchConfig cases) = cases_captures env cases"
| "transform_captures env c = []"
| "transforms_captures env [] = []"
| "transforms_captures env (c # cs) = transform_captures env c @ transforms_captures env cs"
| "cases_captures env [] = []"
| "cases_captures env ((match, thens) # rest) = transforms_captures env thens @ cases_captures env rest"

definition syslog_fields :: "bytes list" where
  "syslog_fields = [''facility'', ''level''] @ rest_names @ [''log'']"

definition input_fields :: "syslog_config \<Rightarrow> bytes list" where
  "input_fields cfg = syslog_fields @ transforms_fields (Extractions cfg)"

section \<open>Schemas that agree\<close>

definition same_places :: "log_schema \<Rightarrow> log_schema \<Rightarrow> bytes set \<Rightarrow> bool" where
  "same_places s s' names \<longleftrightarrow> (\<forall>name\<in>names. create_field_locator s' name = create_field_locator s name)"

lemma same_places_un [simp]: "same_places s s' (A \<union> B) \<longleftrightarrow> same_places s s' A \<and> same_places s s' B"
  by (auto simp: same_places_def)

lemma same_places_insert [simp]:
  "same_places s s' (insert n A) \<longleftrightarrow> create_field_locator s' n = create_field_locator s n \<and> same_places s s' A"
  by (simp add: same_places_def)

lemma same_places_empty [simp]: "same_places s s' {}"
  by (simp add: same_places_def)

lemma same_places_subset: "same_places s s' A \<Longrightarrow> B \<subseteq> A \<Longrightarrow> same_places s s' B"
  by (auto simp: same_places_def)

lemma create_field_locators_agree:
  "same_places s s' (set names) \<Longrightarrow> create_field_locators s' names = create_field_locators s names"
  by (induction names) (simp_all split: sum.split)

lemma must_locators_agree: "same_places s s' (set names) \<Longrightarrow> must_locators s' names = must_locators s names"
  by (induction names) (simp_all add: must_create_field_locator_def)

lemma subexp_locators_agree:
  "same_places s s' (set (filter (\<lambda>n. n \<noteq> []) names)) \<Longrightarrow> subexp_locators s' names = subexp_locators s names"
  by (induction names) (auto simp: must_create_field_locator_def)

lemma new_matcher_agree:
  assumes "same_places s s' (fst ` set match)"
  shows "new_matcher s' match = new_matcher s match"
proof -
  have "locate_matches s' match = locate_matches s match"
    using assms by (induction match) (auto simp: must_create_field_locator_def)
  then show ?thesis by (simp add: new_matcher_def)
qed

lemma make_providers_agree:
  "\<forall>name\<in>set (concat (map part_variable parts)). resolve' name = resolve name \<Longrightarrow>
    make_providers resolve' parts = make_providers resolve parts"
proof (induction parts)
  case (Cons p ps)
  have ps: "make_providers resolve' ps = make_providers resolve ps" using Cons by simp
  have here: "\<forall>name\<in>set (part_variable p). resolve' name = resolve name" using Cons(2) by simp
  show ?case
  proof (cases p)
    case Nil
    then show ?thesis by (simp add: go_index_def)
  next
    case (Cons c rest)
    show ?thesis
    proof (cases "c = CHR ''$''")
      case False
      then show ?thesis using Cons ps by (simp add: go_index_def Let_def)
    next
      case True
      show ?thesis
      proof (cases "rest \<noteq> [] \<and> hd rest = CHR ''{'' \<and> last p = CHR ''}''")
        case braces: True
        obtain rest' where rest: "rest = CHR ''{'' # rest'" using braces by (cases rest) auto
        let ?v = "take (length p - 3) (drop 2 p)"
        have i: "go_index p 0 = Inr c" "go_index p 1 = Inr (CHR ''{'')" using Cons rest by (simp_all add: go_index_def)
        have s: "go_slice p 2 (int (length p) - 1) = Inr ?v"
        proof -
          have "rest' \<noteq> []" using braces Cons rest True by auto
          then have l: "3 \<le> length p" using Cons rest by (cases rest') auto
          then have "nat (int (length p) - 1) = length p - 1" by simp
          then show ?thesis using l by (simp add: go_slice_def numeral_3_eq_3)
        qed
        have m: "\<forall>n a b. match_variable_expression ?v = Some (n, a, b) \<longrightarrow> resolve' n = resolve n"
          using here Cons True braces by (auto simp: part_variable_def)
        show ?thesis
          using i s True braces ps m by (auto simp: Let_def split: option.split prod.split)
      next
        case False
        have n: "resolve' rest = resolve rest" using here Cons True False by (auto simp: part_variable_def)
        have t: "tl p = rest" using Cons by simp
        show ?thesis
        proof (cases rest)
          case Nil
          then show ?thesis using Cons True by (simp add: go_index_def Let_def)
        next
          case c: (Cons d rest')
          have i: "go_index p 0 = Inr c" "go_index p 1 = Inr d" using Cons c by (simp_all add: go_index_def)
          have f: "\<not> (d = CHR ''{'' \<and> last p = CHR ''}'')" using False c by simp
          show ?thesis unfolding make_providers.simps i go_bind_Inr Let_def if_not_P[OF f] ps t n ..

        qed
      qed
    qed
  qed
qed simp

lemma new_expander_agree:
  assumes "same_places s s' (set (template_fields template))"
  shows "new_expander template (create_template_variable_resolver s') = new_expander template (create_template_variable_resolver s)"
proof -
  have "make_providers (create_template_variable_resolver s') (find_all_parts template) =
      make_providers (create_template_variable_resolver s) (find_all_parts template)"
    using assms by (intro make_providers_agree)
      (auto simp: same_places_def template_fields_def create_template_variable_resolver_def)
  then show ?thesis by (simp add: new_expander_def)
qed

lemma must_create_agree:
  "create_field_locator s' n = create_field_locator s n \<Longrightarrow> must_create_field_locator s' n = must_create_field_locator s n"
  by (simp add: must_create_field_locator_def)

lemma new_add_fields_agree:
  "same_places s s' (set (concat (map (\<lambda>(dst, expr). dst # template_fields expr) pairs))) \<Longrightarrow>
    new_add_fields s' pairs = new_add_fields s pairs"
proof (induction pairs)
  case (Cons p pairs)
  obtain dst expr where p: "p = (dst, expr)" by fastforce
  have h: "create_field_locator s' dst = create_field_locator s dst" "same_places s s' (set (template_fields expr))"
    "same_places s s' (set (concat (map (\<lambda>(dst, expr). dst # template_fields expr) pairs)))"
    using Cons(2) p by simp_all
  have "must_create_field_locator s' dst = must_create_field_locator s dst"
    "new_expander expr (create_template_variable_resolver s') = new_expander expr (create_template_variable_resolver s)"
    "new_add_fields s' pairs = new_add_fields s pairs"
    by (rule must_create_agree[OF h(1)], rule new_expander_agree[OF h(2)], rule Cons(1)[OF h(3)])
  then show ?case by (simp only: p new_add_fields.simps)
qed simp

text \<open>The same places give the same transforms.\<close>

lemma transforms_agree:
  "same_places s s' (set (transform_fields c) \<union> set (transform_captures env c)) \<Longrightarrow> new_transform env s' c = new_transform env s c"
  "same_places s s' (set (transforms_fields cs) \<union> set (transforms_captures env cs)) \<Longrightarrow>
    new_transforms env s' cs = new_transforms env s cs"
  "same_places s s' (set (cases_fields css) \<union> set (cases_captures env css)) \<Longrightarrow> new_cases env s' css = new_cases env s css"
proof (induction env s c and env s cs and env s css rule: new_transform_new_transforms_new_cases.induct)
  case (1 env s pairs)
  then have "new_add_fields s' pairs = new_add_fields s pairs" by (intro new_add_fields_agree) simp
  then show ?case by simp
next
  case (3 env s keys)
  then have "must_locators s' keys = must_locators s keys" by (intro must_locators_agree) simp
  then show ?case by simp
next
  case (4 env s match percentage label)
  then have "new_matcher s' match = new_matcher s match" by (intro new_matcher_agree) simp
  then show ?case by (simp add: new_drop_def)
next
  case (5 env s key pattern)
  show ?case
  proof (cases "compileRegexp env pattern")
    case None
    then show ?thesis by (simp add: new_extract_def must_compile_def)
  next
    case (Some re)
    have "subexp_locators s' (subexpNames re) = subexp_locators s (subexpNames re)"
      using 5 Some by (intro subexp_locators_agree) (simp add: pattern_captures_def)
    moreover have "must_create_field_locator s' key = must_create_field_locator s key" using 5 by (intro must_create_agree) simp
    ultimately show ?thesis using Some by (simp add: new_extract_def must_compile_def)
  qed
next
  case (6 env s pos key pattern maxLength destKey)
  then have "must_create_field_locator s' key = must_create_field_locator s key"
    "must_create_field_locator s' destKey = must_create_field_locator s destKey" by (simp_all add: must_create_field_locator_def)
  then show ?case by (simp add: new_extract_special_def)
next
  case (7 env s match thens)
  have "new_matcher s' match = new_matcher s match" using 7(2) by (intro new_matcher_agree) simp
  then show ?case using 7 by (cases "new_matcher s match") simp_all
next
  case (16 env s c cs)
  have c: "new_transform env s' c = new_transform env s c" using 16 by simp
  have cs: "new_transforms env s' cs = new_transforms env s cs" if "new_transform env s c = Some (Inr x)" for x
    using 16(2)[OF that] 16(3) by (cases x) simp
  show ?case unfolding new_transforms.simps c
    by (rule run_bind_cong) (auto dest: cs)
next
  case (18 env s match thens rest)
  have "new_matcher s' match = new_matcher s match" using 18(3) by (intro new_matcher_agree) simp
  moreover have "new_transforms env s' thens = new_transforms env s thens" if "new_matcher s match = Inr m" for m
    using 18(1)[of m] that 18(3) by simp
  moreover have "new_cases env s' rest = new_cases env s rest"
    if "new_matcher s match = Inr m" "new_transforms env s thens = Some (Inr (ts, l))" for m ts l
    using 18(2)[of m "(ts, l)" ts l] that 18(3) by simp
  ultimately show ?case
    by (cases "new_matcher s match"; cases "new_transforms env s thens")
      (auto intro!: run_bind_cong)
qed (simp_all add: with_locator_def must_create_field_locator_def)

lemma new_syslog_parser_agree:
  assumes "same_places s s' (set syslog_fields)"
  shows "new_syslog_parser s' mapping counters = new_syslog_parser s mapping counters"
proof -
  have "create_field_locators s' rest_names = create_field_locators s rest_names"
    using assms by (intro create_field_locators_agree) (auto simp: syslog_fields_def same_places_def)
  moreover have "create_field_locator s' ''facility'' = create_field_locator s ''facility''"
    "create_field_locator s' ''level'' = create_field_locator s ''level''"
    "create_field_locator s' ''log'' = create_field_locator s ''log''"
    using assms by (simp_all add: syslog_fields_def)
  ultimately show ?thesis by (simp only: new_syslog_parser_def)
qed

lemma create_parser_agree:
  assumes "same_places s s' (set (input_fields cfg) \<union> set (transforms_captures env (Extractions cfg)))"
  shows "create_parser env alloc s' cfg counters = create_parser env alloc s cfg counters"
proof -
  have "new_syslog_parser s' (LevelMapping cfg) c = new_syslog_parser s (LevelMapping cfg) c" for c
    using assms by (intro new_syslog_parser_agree) (simp add: input_fields_def)
  moreover have "new_transforms env s' (Extractions cfg) = new_transforms env s (Extractions cfg)"
    using assms by (intro transforms_agree(2)) (simp add: input_fields_def)
  ultimately show ?thesis by (simp only: create_parser_def)
qed

section \<open>What verification locates is in the schema\<close>

lemma verify_keys_located: "verify_keys s keys = Inr (Inr ()) \<Longrightarrow> set keys \<subseteq> set (fieldNames s)"
  by (induction s keys rule: verify_keys.induct) (auto simp: cfg_then_ok check_locator_ok create_field_locator_defined)

lemma verify_matcher_located: "verify_matcher s match = Inr () \<Longrightarrow> fst ` set match \<subseteq> set (fieldNames s)"
  by (induction s match rule: verify_matcher.induct)
    (auto split: sum.splits if_splits simp flip: create_field_locator_defined)

lemma locators_defined: "create_field_locators s ns = Inr locs \<Longrightarrow> set ns \<subseteq> set (fieldNames s)"
  by (induction ns arbitrary: locs) (auto split: sum.splits simp flip: create_field_locator_defined)

lemma make_providers_resolved:
  "make_providers resolve parts = Inr (Inr ps) \<Longrightarrow> n \<in> set (concat (map part_variable parts)) \<Longrightarrow> \<exists>p. resolve n = Inr p"
proof (induction parts arbitrary: ps)
  case (Cons part parts)
  have later: ?case if "make_providers resolve parts = Inr (Inr qs)" "n \<notin> set (part_variable part)" for qs
    using Cons(1)[OF that(1)] Cons(3) that(2) by simp
  obtain c where c: "go_index part 0 = Inr c" using Cons(2) by (auto simp: go_bind_eq_Inr)
  then obtain rest where part: "part = c # rest" by (cases part) (auto simp: go_index_def)
  have tail: "\<exists>qs. make_providers resolve parts = Inr (Inr qs)"
    if "go_bind (make_providers resolve parts) (\<lambda>r. case r of Inl e \<Rightarrow> Inr (Inl e) | Inr qs \<Rightarrow> Inr (Inr (provider # qs))) = Inr (Inr ps)" for provider
  proof (cases "make_providers resolve parts")
    case (Inr r)
    then show ?thesis using that by (cases r) auto
  qed (use that in simp)
  show ?case
  proof (cases "c = CHR ''$''")
    case False
    then show ?thesis using Cons(2) c tail[of "\<lambda>_. Inr part"] later part by (auto simp: Let_def part_variable_def)
  next
    case True
    obtain d where d: "go_index part 1 = Inr d" using Cons(2) c True by (auto simp: go_bind_eq_Inr Let_def)
    then obtain rest' where rest: "rest = d # rest'" using part by (cases rest) (auto simp: go_index_def)
    show ?thesis
    proof (cases "d = CHR ''{'' \<and> last part = CHR ''}''")
      case False
      then have v: "part_variable part = [rest]" using part True rest by (auto simp: part_variable_def)
      obtain vp where vp: "resolve rest = Inr vp" using Cons(2) c d True False part by (auto simp: Let_def split: sum.splits)
      then show ?thesis using Cons(2) c d True False part tail[of vp] later v by (cases "n = rest") (auto simp: Let_def)
    next
      case braces: True
      obtain vexpr where e: "go_slice part 2 (int (length part) - 1) = Inr vexpr"
        using Cons(2) c d True braces by (auto simp: go_bind_eq_Inr Let_def)
      have x: "vexpr = take (length part - 3) (drop 2 part)"
        using e by (auto simp: go_slice_def nat_diff_distrib numeral_3_eq_3 split: if_splits)
      obtain vname a b where m: "match_variable_expression vexpr = Some (vname, a, b)"
        using Cons(2) c d True braces e by (auto simp: Let_def split: option.splits)
      have v: "part_variable part = [vname]" using part True rest braces m x by (auto simp: part_variable_def)
      obtain vp where vp: "resolve vname = Inr vp"
        using Cons(2) c d True braces e m by (auto simp: Let_def split: sum.splits)
      obtain provider where p: "create_variable_expression_solver vp a b = Inr provider"
        using Cons(2) c d True braces e m vp by (auto simp: Let_def go_bind_eq_Inr)
      show ?thesis using Cons(2) c d True braces e m vp p tail[of provider] later v by (cases "n = vname") (auto simp: Let_def)
    qed
  qed
qed simp

lemma template_located:
  assumes "new_expander template (create_template_variable_resolver s) = Inr (Inr ex)"
  shows "set (template_fields template) \<subseteq> set (fieldNames s)"
proof
  fix n assume n: "n \<in> set (template_fields template)"
  have "\<exists>p. create_template_variable_resolver s n = Inr p"
    using make_providers_resolved[OF new_expander_providers[OF assms]] n unfolding template_fields_def by blast
  then have "\<exists>loc. create_field_locator s n = Inr loc"
    by (cases "create_field_locator s n") (simp_all add: create_template_variable_resolver_def)
  then show "n \<in> set (fieldNames s)" by (simp add: create_field_locator_defined)
qed

lemma verify_add_fields_located:
  "verify_add_fields s pairs = Inr (Inr ()) \<Longrightarrow>
    set (concat (map (\<lambda>(dst, expr). dst # template_fields expr) pairs)) \<subseteq> set (fieldNames s)"
proof (induction pairs)
  case (Cons p pairs)
  obtain dst expr where p: "p = (dst, expr)" by fastforce
  have v: "check_locator s dst = Inr (Inr ())"
    "go_bind (new_expander expr (create_template_variable_resolver s)) (\<lambda>r. case r of Inl e \<Rightarrow> Inr (Inl e) | Inr _ \<Rightarrow> verify_add_fields s pairs) = Inr (Inr ())"
    using Cons(2) p by (simp_all add: cfg_then_ok)
  obtain r where r: "new_expander expr (create_template_variable_resolver s) = Inr r" using v(2) by (auto simp: go_bind_eq_Inr)
  obtain ex where ex: "r = Inr ex" "verify_add_fields s pairs = Inr (Inr ())" using v(2) r by (cases r) auto
  have "dst \<in> set (fieldNames s)" using v(1) by (simp add: check_locator_ok create_field_locator_defined)
  then show ?case using p Cons(1)[OF ex(2)] template_located r ex(1) by simp
qed simp

lemma transforms_located:
  "verify_transform env s c = Inr (Inr ()) \<Longrightarrow> set (transform_fields c) \<subseteq> set (fieldNames s)"
  "verify_transforms env s cs = Inr (Inr ()) \<Longrightarrow> set (transforms_fields cs) \<subseteq> set (fieldNames s)"
  "verify_cases env s css = Inr (Inr ()) \<Longrightarrow> set (cases_fields css) \<subseteq> set (fieldNames s)"
proof (induction env s c and env s cs and env s css rule: verify_transform_verify_transforms_verify_cases.induct)
  case (1 env s pairs)
  then show ?case using verify_add_fields_located by (simp add: checks)
next
  case (3 env s keys)
  then show ?case using verify_keys_located by (simp add: checks)
next
  case (4 env s match percentage label)
  then show ?case using verify_matcher_located by (simp add: checks verify_drop_def)
next
  case (7 env s match thens)
  then show ?case using verify_matcher_located by (simp add: checks)
next
  case (18 env s match thens rest)
  then show ?case using verify_matcher_located by (simp add: checks)
qed (auto simp: checks verify_extract_def verify_extract_special_def verify_map_value_def verify_labelled_def verify_replace_def
  verify_truncate_def create_field_locator_defined)

lemma input_located:
  assumes "verify_syslog_input env s cfg = Inr (Inr ())"
  shows "set (input_fields cfg) \<subseteq> set (fieldNames s)"
proof -
  have v: "verify_transforms env s (Extractions cfg) = Inr (Inr ())"
    and p: "(case new_syslog_parser s (LevelMapping cfg) new_input_counters of Inl e \<Rightarrow> Inl e | Inr _ \<Rightarrow> Inr ()) = (Inr () :: unit cfg)"
    using assms by (simp_all add: verify_syslog_input_def checks)
  obtain x y z w where l: "create_field_locator s ''facility'' = Inr x" "create_field_locator s ''level'' = Inr y"
    "create_field_locators s rest_names = Inr z" "create_field_locator s ''log'' = Inr w"
    using p by (auto simp: new_syslog_parser_def split: if_splits sum.splits)
  have "set rest_names \<subseteq> set (fieldNames s)" using l(3) by (rule locators_defined)
  moreover have "{''facility'', ''level'', ''log''} \<subseteq> set (fieldNames s)"
    using l(1,2,4) by (auto simp flip: create_field_locator_defined)
  ultimately show ?thesis using transforms_located(2)[OF v] by (auto simp: input_fields_def syslog_fields_def)
qed

end
