(* ===== verification/Run_Config.thy ===== *)
theory Run_Config
  imports Input_Config Orchestrators Outputs Queue_Dirs
begin

text \<open>
  The configuration file as a whole and its reloading: \<open>run/config.go\<close> (the checks on the decoded
  file), \<open>run/configstats.go\<close> (which fields are fixed or unused), \<open>run/loader.go\<close> (what is made of
  a configuration, once) and \<open>run/reloader.go\<close> (which new configurations may replace the running
  one). The inputs stay as they are over a reload and go on laying out records by the old schema; a
  reload is allowed when the new schema has every field they use in its old place.
\<close>

section \<open>Outputs\<close>

record output_pair =
  pairName :: bytes
  bufferConfig :: hybrid_config
  outputConfig :: output_config
  upstreamAddress :: bytes
  upstreamTimeout :: int

fun verify_rewrite_fields :: "log_schema \<Rightarrow> (bytes \<times> rewriter_config list) list \<Rightarrow> unit cfg" where
  "verify_rewrite_fields schema [] = Inr ()"
| "verify_rewrite_fields schema ((field, cs) # rest) =
     (case create_field_locator schema field of
        Inl e \<Rightarrow> Inl e
      | Inr _ \<Rightarrow>
          (case verify_rewriter_configs schema cs of
             Inl e \<Rightarrow> Inl e
           | Inr _ \<Rightarrow> verify_rewrite_fields schema rest))"

fun verify_message_mode :: "message_mode \<Rightarrow> unit cfg" where
  "verify_message_mode (ModeOther name) =
     Inl (if name = [] then Unspecified ''.messageMode'' else InvalidValue ''.messageMode'')"
| "verify_message_mode mode = Inr ()"

definition verify_fluentd_upstream :: "bytes \<Rightarrow> int \<Rightarrow> unit cfg" where
  "verify_fluentd_upstream address maxDuration =
     (if address = [] then Inl (Unspecified ''.upstream.address'')
      else if split_host_port address = None then Inl (InvalidValue ''.upstream.address'')
      else if maxDuration = 0 then Inl (Unspecified ''.upstream.maxDuration'')
      else Inr ())"

fun verify_output :: "log_schema \<Rightarrow> output_config \<Rightarrow> bytes \<Rightarrow> int \<Rightarrow> unit cfg" where
  "verify_output schema (FluentdOutput config mode) address maxDuration =
     (if environmentFields config = [] then Inl (Unspecified ''.serialization.environmentFields'')
      else case verify_rewrite_fields schema (rewriteFields config) of
        Inl e \<Rightarrow> Inl e
      | Inr _ \<Rightarrow>
          (case verify_message_mode mode of
             Inl e \<Rightarrow> Inl e
           | Inr _ \<Rightarrow> verify_fluentd_upstream address maxDuration))"
| "verify_output schema (DatadogOutput hiddenNames) address httpTimeout =
     (if address = [] then Inl (Unspecified ''address'')
      else if httpTimeout = 0 then Inl (Unspecified ''httpTimeout'')
      else Inr ())"

definition verify_output_pair :: "log_schema \<Rightarrow> output_pair \<Rightarrow> unit cfg" where
  "verify_output_pair schema p =
     (case verify_hybrid_config (bufferConfig p) of
        Inl e \<Rightarrow> Inl e
      | Inr _ \<Rightarrow> verify_output schema (outputConfig p) (upstreamAddress p) (upstreamTimeout p))"

text \<open>The names an output locates when it is verified.\<close>

definition rewriter_fields :: "rewriter_config list \<Rightarrow> bytes list" where
  "rewriter_fields cs = concat (map (\<lambda>c. case c of InlineConfig field \<Rightarrow> [field] | _ \<Rightarrow> []) cs)"

fun output_fields :: "output_config \<Rightarrow> bytes list" where
  "output_fields (FluentdOutput config mode) = concat (map (\<lambda>(field, cs). field # rewriter_fields cs) (rewriteFields config))"
| "output_fields (DatadogOutput hiddenNames) = []"

section \<open>The configuration file\<close>

datatype orchestration_config = ByKeySet "bytes list" bytes | Singleton bytes

record run_config =
  confFields :: "bytes list"
  confMaxFields :: int
  confInputs :: "syslog_config list"
  confOrchestration :: orchestration_config
  confMetricKeys :: "bytes list"
  confTransformations :: "transform_config list"
  confOutputs :: "output_pair list"

record config_stats =
  FixedFields :: "bytes list"
  UnusedFields :: "bytes list"
  OrchestrationKeys :: "bytes list"

definition check_and_create_schema :: "run_config \<Rightarrow> log_schema cfg" where
  "check_and_create_schema conf =
     (if confFields conf = [] then Inl (EmptyList ''schema: fields'')
      else if confMaxFields conf = 0 then Inl (Unspecified ''schema: maxFields'')
      else new_log_schema (confFields conf) (nat (confMaxFields conf)))"

fun orchestration_type :: "orchestration_config \<Rightarrow> bytes" where
  "orchestration_type (ByKeySet keys tag) = ''byKeySet''"
| "orchestration_type (Singleton tag) = ''singleton''"

fun verify_orchestration :: "log_schema \<Rightarrow> orchestration_config \<Rightarrow> bytes list cfg go" where
  "verify_orchestration schema (ByKeySet keys tag) = verify_keyset_config schema keys tag"
| "verify_orchestration schema (Singleton tag) =
     go_bind (verify_singleton_config tag) (\<lambda>r. Inr (case r of Inl e \<Rightarrow> Inl e | Inr _ \<Rightarrow> Inr []))"

definition check_metric_keys :: "run_config \<Rightarrow> log_schema \<Rightarrow> bytes list \<Rightarrow> unit cfg" where
  "check_metric_keys conf schema orchestrationKeys =
     (if confMetricKeys conf = [] then Inl (EmptyList ''metricKeys'')
      else case create_field_locators schema (confMetricKeys conf) of
        Inl e \<Rightarrow> Inl e
      | Inr _ \<Rightarrow>
          (case filter (\<lambda>key. key \<in> set orchestrationKeys) (confMetricKeys conf) of
             [] \<Rightarrow> Inr ()
           | key # _ \<Rightarrow> Inl (Duplicated key)))"

fun verify_input_configs :: "environment \<Rightarrow> log_schema \<Rightarrow> syslog_config list \<Rightarrow> unit cfg go" where
  "verify_input_configs env schema [] = Inr (Inr ())"
| "verify_input_configs env schema (cfg # cfgs) =
     cfg_then (verify_syslog_input env schema cfg) (verify_input_configs env schema cfgs)"

text \<open>Names seen before must not come again.\<close>

fun verify_output_pairs :: "log_schema \<Rightarrow> bytes list \<Rightarrow> output_pair list \<Rightarrow> unit cfg" where
  "verify_output_pairs schema seen [] = Inr ()"
| "verify_output_pairs schema seen (p # ps) =
     (if pairName p \<in> set seen then Inl (Duplicated (pairName p))
      else case verify_output_pair schema p of
        Inl e \<Rightarrow> Inl e
      | Inr _ \<Rightarrow> verify_output_pairs schema (pairName p # seen) ps)"

section \<open>Which fields are used\<close>

text \<open>
  The schema calls back with the index of each field it locates; what the callback does depends on
  the phase. The names located in a phase are those of the parts verified in it.
\<close>

record stats_builder =
  fieldsFixed :: "bool list"
  fieldsInUse :: "bool list"

definition new_stats_builder :: "log_schema \<Rightarrow> stats_builder" where
  "new_stats_builder schema =
     \<lparr>fieldsFixed = replicate (length (fieldNames schema)) False, fieldsInUse = replicate (length (fieldNames schema)) False\<rparr>"

definition on_located :: "log_schema \<Rightarrow> (nat \<Rightarrow> stats_builder \<Rightarrow> stats_builder) \<Rightarrow> bytes list \<Rightarrow> stats_builder \<Rightarrow> stats_builder" where
  "on_located schema callback located b =
     fold (\<lambda>name b. case create_field_locator schema name of Inl _ \<Rightarrow> b | Inr loc \<Rightarrow> callback (nat loc) b) located b"

definition track_fixed :: "nat \<Rightarrow> stats_builder \<Rightarrow> stats_builder" where
  "track_fixed i b = b\<lparr>fieldsFixed := (fieldsFixed b)[i := True], fieldsInUse := (fieldsInUse b)[i := True]\<rparr>"

definition track_used :: "nat \<Rightarrow> stats_builder \<Rightarrow> stats_builder" where
  "track_used i b = b\<lparr>fieldsInUse := (fieldsInUse b)[i := True]\<rparr>"

definition finish_stats :: "log_schema \<Rightarrow> bytes list \<Rightarrow> stats_builder \<Rightarrow> config_stats" where
  "finish_stats schema keys b =
     \<lparr>FixedFields = map fst (filter snd (zip (fieldNames schema) (fieldsFixed b))),
      UnusedFields = map fst (filter (\<lambda>(name, inUse). \<not> inUse) (zip (fieldNames schema) (fieldsInUse b))),
      OrchestrationKeys = keys\<rparr>"

text \<open>\<open>ParseConfigFile\<close> after the file is decoded.\<close>

definition cfg_bind :: "'a cfg go \<Rightarrow> ('a \<Rightarrow> 'b cfg go) \<Rightarrow> 'b cfg go" where
  "cfg_bind m f = go_bind m (\<lambda>r. case r of Inl e \<Rightarrow> Inr (Inl e) | Inr x \<Rightarrow> f x)"

definition parse_config :: "environment \<Rightarrow> run_config \<Rightarrow> (log_schema \<times> config_stats) cfg go" where
  "parse_config env conf =
     cfg_bind (Inr (check_and_create_schema conf)) (\<lambda>schema.
     cfg_bind (verify_input_configs env schema (confInputs conf)) (\<lambda>_.
     cfg_bind (verify_orchestration schema (confOrchestration conf)) (\<lambda>keys.
       let b = on_located schema track_fixed (concat (map input_fields (confInputs conf)) @ keys) (new_stats_builder schema) in
     cfg_bind (Inr (check_metric_keys conf schema keys)) (\<lambda>_.
     cfg_bind (verify_transforms env schema (confTransformations conf)) (\<lambda>_.
     cfg_bind (Inr (verify_output_pairs schema [] (confOutputs conf))) (\<lambda>_.
       let b = on_located schema track_used
           (confMetricKeys conf @ transforms_fields (confTransformations conf) @
            concat (map (\<lambda>p. output_fields (outputConfig p)) (confOutputs conf))) b in
       Inr (Inr (schema, finish_stats schema keys b))))))))"

section \<open>Loading\<close>

text \<open>What is made of a configuration; whether the inputs and the orchestrator have been started.\<close>

record loader =
  loaderConfig :: run_config
  loaderStats :: config_stats
  loaderSchema :: log_schema
  loaderAllocator :: log_allocator
  loaderMetricKeys :: "locator list"
  inputsLaunched :: bool
  orchestratorStarted :: bool

definition new_loader :: "environment \<Rightarrow> run_config \<Rightarrow> loader cfg go" where
  "new_loader env conf =
     cfg_bind (parse_config env conf) (\<lambda>(schema, stats).
     go_bind (must_create_field_locators schema (confMetricKeys conf)) (\<lambda>locs.
       Inr (Inr \<lparr>loaderConfig = conf, loaderStats = stats, loaderSchema = schema,
         loaderAllocator = new_log_allocator schema (length (confOutputs conf)), loaderMetricKeys = locs,
         inputsLaunched = False, orchestratorStarted = False\<rparr>)))"

datatype started = KeysetStarted orchestrator | SingletonStarted singleton_orchestrator

text \<open>The IDs of the queues on disk, for an orchestrator by key set, and the time are arguments.\<close>

definition start_orchestrator :: "bytes list \<Rightarrow> gotime \<Rightarrow> loader \<Rightarrow> (started \<times> loader) go" where
  "start_orchestrator ids now l =
     (if orchestratorStarted l then Inl (LoggerPanic ''StartOrchestrator can only be invoked once per Loader'')
      else case confOrchestration (loaderConfig l) of
        ByKeySet keys tag \<Rightarrow>
          go_bind (new_orchestrator (loaderSchema l) keys tag ids now) (\<lambda>orc.
            Inr (KeysetStarted orc, l\<lparr>orchestratorStarted := True\<rparr>))
      | Singleton tag \<Rightarrow> Inr (SingletonStarted (new_singleton tag), l\<lparr>orchestratorStarted := True\<rparr>))"

text \<open>The inputs: how each makes a parser for a connection. An error is fatal.\<close>

fun new_inputs ::
  "environment \<Rightarrow> log_allocator \<Rightarrow> log_schema \<Rightarrow> syslog_config list \<Rightarrow>
     (input_counters \<Rightarrow> (syslog_parser \<times> composite_state) run) list go" where
  "new_inputs env alloc schema [] = Inr []"
| "new_inputs env alloc schema (cfg # cfgs) =
     (case new_syslog_input env alloc schema cfg of
        Inl e \<Rightarrow> Inl (LoggerPanic ''input'')
      | Inr mk \<Rightarrow> go_bind (new_inputs env alloc schema cfgs) (\<lambda>mks. Inr (mk # mks)))"

definition launch_inputs ::
  "environment \<Rightarrow> loader \<Rightarrow> ((input_counters \<Rightarrow> (syslog_parser \<times> composite_state) run) list \<times> loader) go" where
  "launch_inputs env l =
     (if inputsLaunched l then Inl (LoggerPanic ''LaunchInputs can only be invoked once per Loader'')
      else go_bind (new_inputs env (loaderAllocator l) (loaderSchema l) (confInputs (loaderConfig l))) (\<lambda>mks.
        Inr (mks, l\<lparr>inputsLaunched := True\<rparr>)))"

section \<open>Reloading\<close>

fun check_fixed_fields :: "log_schema \<Rightarrow> log_schema \<Rightarrow> bytes list \<Rightarrow> unit cfg go" where
  "check_fixed_fields oldSchema newSchema [] = Inr (Inr ())"
| "check_fixed_fields oldSchema newSchema (field # rest) =
     go_bind (must_create_field_locator oldSchema field) (\<lambda>oldLocation.
       case create_field_locator newSchema field of
         Inl e \<Rightarrow> Inr (Inl (FieldNotDefined field))
       | Inr newLocation \<Rightarrow>
           if oldLocation \<noteq> newLocation then Inr (Inl (MustNotChange ''schema/fields''))
           else check_fixed_fields oldSchema newSchema rest)"

text \<open>\<open>marshal\<close> is the YAML library writing the inputs, which are compared as text.\<close>

definition check_config_compatibility ::
  "(syslog_config list \<Rightarrow> bytes cfg) \<Rightarrow> run_config \<Rightarrow> log_schema \<Rightarrow> config_stats \<Rightarrow>
     run_config \<Rightarrow> log_schema \<Rightarrow> config_stats \<Rightarrow> unit cfg go" where
  "check_config_compatibility marshal oldConf oldSchema oldStats newConf newSchema newStats =
     cfg_then (fail_if (confMaxFields oldConf \<noteq> confMaxFields newConf) (MustNotChange ''schema/maxFields''))
     (cfg_then (case marshal (confInputs oldConf) of
         Inl e \<Rightarrow> Inr (Inl e)
       | Inr oldInputs \<Rightarrow>
           (case marshal (confInputs newConf) of
              Inl e \<Rightarrow> Inr (Inl e)
            | Inr newInputs \<Rightarrow> fail_if (oldInputs \<noteq> newInputs) (MustNotChange ''inputs'')))
     (cfg_then (fail_if (orchestration_type (confOrchestration oldConf) \<noteq> orchestration_type (confOrchestration newConf))
         (MustNotChange ''orchestration/type''))
     (cfg_then (fail_if (OrchestrationKeys oldStats \<noteq> OrchestrationKeys newStats) (MustNotChange ''orchestration/keys''))
        (check_fixed_fields oldSchema newSchema (FixedFields oldStats)))))"

record reloader =
  currentLoader :: loader
  numReload :: int

text \<open>An error leaves everything as it is.\<close>

definition initiate_reload ::
  "environment \<Rightarrow> (syslog_config list \<Rightarrow> bytes cfg) \<Rightarrow> run_config \<Rightarrow> reloader \<Rightarrow> loader cfg go" where
  "initiate_reload env marshal newConf r =
     cfg_bind (new_loader env newConf) (\<lambda>newLoader.
       let l = currentLoader r in
       cfg_bind (check_config_compatibility marshal (loaderConfig l) (loaderSchema l) (loaderStats l)
           (loaderConfig newLoader) (loaderSchema newLoader) (loaderStats newLoader)) (\<lambda>_.
         Inr (Inr newLoader)))"

definition complete_reload :: "bytes list \<Rightarrow> gotime \<Rightarrow> loader \<Rightarrow> reloader \<Rightarrow> (started \<times> reloader) go" where
  "complete_reload ids now newLoader r =
     go_bind (start_orchestrator ids now
         (newLoader\<lparr>loaderAllocator := loaderAllocator (currentLoader r), inputsLaunched := inputsLaunched (currentLoader r),
           orchestratorStarted := False\<rparr>)) (\<lambda>(orc, l).
       Inr (orc, r\<lparr>currentLoader := l, numReload := numReload r + 1\<rparr>))"

section \<open>What verification and tracking give\<close>

lemma cfg_bind_ok: "cfg_bind m f = Inr (Inr y) \<longleftrightarrow> (\<exists>x. m = Inr (Inr x) \<and> f x = Inr (Inr y))"
  by (cases m; cases "projr m") (auto simp: cfg_bind_def)

definition marked :: "bytes list \<Rightarrow> bool list \<Rightarrow> bytes set" where
  "marked fs flags = {fs ! i | i. i < length fs \<and> flags ! i}"

lemma marked_filter:
  assumes "length flags = length fs"
  shows "set (map fst (filter snd (zip fs flags))) = marked fs flags"
proof -
  have "x \<in> set (map fst (filter snd (zip fs flags))) \<longleftrightarrow> (\<exists>i<length fs. x = fs ! i \<and> flags ! i)" for x
    using assms by (auto simp: set_zip image_iff)
  then show ?thesis by (auto simp: marked_def)
qed

lemma unmarked_filter:
  assumes "length flags = length fs" and "distinct fs"
  shows "set (map fst (filter (\<lambda>(name, inUse). \<not> inUse) (zip fs flags))) = set fs - marked fs flags"
proof -
  have "x \<in> set (map fst (filter (\<lambda>(name, inUse). \<not> inUse) (zip fs flags))) \<longleftrightarrow> (\<exists>i<length fs. x = fs ! i \<and> \<not> flags ! i)" for x
    using assms(1) by (auto simp: set_zip image_iff)
  moreover have "(\<exists>i<length fs. x = fs ! i \<and> \<not> flags ! i) \<longleftrightarrow> x \<in> set fs \<and> \<not> (\<exists>i<length fs. x = fs ! i \<and> flags ! i)" for x
    using assms(2) by (metis in_set_conv_nth nth_eq_iff_index_eq)
  ultimately show ?thesis by (auto simp: marked_def)
qed

lemma marked_update:
  "i < length fs \<Longrightarrow> length flags = length fs \<Longrightarrow> marked fs (flags[i := True]) = insert (fs ! i) (marked fs flags)"
  by (auto simp: marked_def nth_list_update split: if_splits)

lemma marked_none [simp]: "marked fs (replicate (length fs) False) = {}"
  by (auto simp: marked_def)

text \<open>What is located in a phase is what gets marked.\<close>

lemma on_located_marks:
  assumes "length (fieldsFixed b) = length (fieldNames s)" and "length (fieldsInUse b) = length (fieldNames s)"
  shows "marked (fieldNames s) (fieldsFixed (on_located s track_fixed located b)) =
      marked (fieldNames s) (fieldsFixed b) \<union> (set located \<inter> set (fieldNames s)) \<and>
    marked (fieldNames s) (fieldsInUse (on_located s track_fixed located b)) =
      marked (fieldNames s) (fieldsInUse b) \<union> (set located \<inter> set (fieldNames s)) \<and>
    length (fieldsFixed (on_located s track_fixed located b)) = length (fieldNames s) \<and>
    length (fieldsInUse (on_located s track_fixed located b)) = length (fieldNames s)"
  using assms
proof (induction located arbitrary: b)
  case (Cons n ns)
  show ?case
  proof (cases "create_field_locator s n")
    case (Inl e)
    then have "n \<notin> set (fieldNames s)" by (metis Inl_Inr_False create_field_locator_defined)
    then show ?thesis using Cons(1)[OF Cons(2,3)] Inl by (simp add: on_located_def)
  next
    case (Inr loc)
    have l: "nat loc < length (fieldNames s)" "fieldNames s ! nat loc = n"
      using create_field_locator_ok[OF Inr] by (auto simp: loc_ok_def loc_name_def go_index_def split: if_splits)
    have b: "length (fieldsFixed (track_fixed (nat loc) b)) = length (fieldNames s)"
      "length (fieldsInUse (track_fixed (nat loc) b)) = length (fieldNames s)"
      using Cons(2,3) by (simp_all add: track_fixed_def)
    have "n \<in> set (fieldNames s)" using l nth_mem by metis
    then show ?thesis using Cons(1)[OF b] Inr l Cons(2,3)
      by (simp add: on_located_def track_fixed_def marked_update)
  qed
qed (simp add: on_located_def)

lemma on_located_used:
  assumes "length (fieldsInUse b) = length (fieldNames s)"
  shows "fieldsFixed (on_located s track_used located b) = fieldsFixed b \<and>
    marked (fieldNames s) (fieldsInUse (on_located s track_used located b)) =
      marked (fieldNames s) (fieldsInUse b) \<union> (set located \<inter> set (fieldNames s)) \<and>
    length (fieldsInUse (on_located s track_used located b)) = length (fieldNames s)"
  using assms
proof (induction located arbitrary: b)
  case (Cons n ns)
  show ?case
  proof (cases "create_field_locator s n")
    case (Inl e)
    then have "n \<notin> set (fieldNames s)" by (metis Inl_Inr_False create_field_locator_defined)
    then show ?thesis using Cons(1)[OF Cons(2)] Inl by (simp add: on_located_def)
  next
    case (Inr loc)
    have l: "nat loc < length (fieldNames s)" "fieldNames s ! nat loc = n"
      using create_field_locator_ok[OF Inr] by (auto simp: loc_ok_def loc_name_def go_index_def split: if_splits)
    have b: "length (fieldsInUse (track_used (nat loc) b)) = length (fieldNames s)"
      using Cons(2) by (simp add: track_used_def)
    have "n \<in> set (fieldNames s)" using l nth_mem by metis
    then show ?thesis using Cons(1)[OF b] Inr l Cons(2)
      by (simp add: on_located_def track_used_def marked_update)
  qed
qed (simp add: on_located_def)

lemma new_log_schema_ok:
  "new_log_schema fs n = Inr s \<Longrightarrow> fieldNames s = fs \<and> maxFields s = n \<and> length fs \<le> n \<and> distinct fs"
  by (auto simp: new_log_schema_iff schema_ok_def)

text \<open>Everything a configuration that parses has been checked for.\<close>

lemma parse_config_ok:
  assumes "parse_config env conf = Inr (Inr (s, stats))"
  shows "new_log_schema (confFields conf) (nat (confMaxFields conf)) = Inr s \<and>
    verify_input_configs env s (confInputs conf) = Inr (Inr ()) \<and>
    verify_orchestration s (confOrchestration conf) = Inr (Inr (OrchestrationKeys stats)) \<and>
    check_metric_keys conf s (OrchestrationKeys stats) = Inr () \<and>
    verify_transforms env s (confTransformations conf) = Inr (Inr ()) \<and>
    verify_output_pairs s [] (confOutputs conf) = Inr () \<and>
    stats = finish_stats s (OrchestrationKeys stats) (on_located s track_used
      (confMetricKeys conf @ transforms_fields (confTransformations conf) @
        concat (map (\<lambda>p. output_fields (outputConfig p)) (confOutputs conf)))
      (on_located s track_fixed (concat (map input_fields (confInputs conf)) @ OrchestrationKeys stats) (new_stats_builder s)))"
  using assms by (auto simp: parse_config_def cfg_bind_ok check_and_create_schema_def finish_stats_def Let_def split: if_splits)

text \<open>The fixed fields are those of the inputs and the keys; the unused ones are located nowhere.\<close>

lemma stats_exact:
  assumes "parse_config env conf = Inr (Inr (s, stats))"
  shows "set (FixedFields stats) = (set (concat (map input_fields (confInputs conf))) \<union> set (OrchestrationKeys stats)) \<inter> set (fieldNames s) \<and>
    set (UnusedFields stats) = set (fieldNames s) - (set (FixedFields stats) \<union> set (confMetricKeys conf) \<union>
      set (transforms_fields (confTransformations conf)) \<union> \<Union> (set ` output_fields ` outputConfig ` set (confOutputs conf)))"
proof -
  let ?fixed = "concat (map input_fields (confInputs conf)) @ OrchestrationKeys stats"
  let ?used = "confMetricKeys conf @ transforms_fields (confTransformations conf) @
      concat (map (\<lambda>p. output_fields (outputConfig p)) (confOutputs conf))"
  let ?b0 = "new_stats_builder s"
  let ?b1 = "on_located s track_fixed ?fixed ?b0"
  let ?b2 = "on_located s track_used ?used ?b1"
  have d: "distinct (fieldNames s)" and st: "stats = finish_stats s (OrchestrationKeys stats) ?b2"
    using parse_config_ok[OF assms] new_log_schema_ok[of "confFields conf" "nat (confMaxFields conf)" s] by simp_all
  have l0: "length (fieldsFixed ?b0) = length (fieldNames s)" "length (fieldsInUse ?b0) = length (fieldNames s)"
    by (simp_all add: new_stats_builder_def)
  have m0: "marked (fieldNames s) (fieldsFixed ?b0) = {}" "marked (fieldNames s) (fieldsInUse ?b0) = {}"
    by (simp_all add: new_stats_builder_def)
  note 1 = on_located_marks[OF l0, of ?fixed]
  have l1: "length (fieldsInUse ?b1) = length (fieldNames s)" using 1 by simp
  note 2 = on_located_used[OF l1, of ?used]
  have f: "FixedFields stats = map fst (filter snd (zip (fieldNames s) (fieldsFixed ?b2)))"
    "UnusedFields stats = map fst (filter (\<lambda>(name, inUse). \<not> inUse) (zip (fieldNames s) (fieldsInUse ?b2)))"
    by (subst st, simp add: finish_stats_def)+
  have F: "set (FixedFields stats) = set ?fixed \<inter> set (fieldNames s)"
    unfolding f(1) using marked_filter[of "fieldsFixed ?b2" "fieldNames s"] 1 2 m0 by simp
  have "set (UnusedFields stats) = set (fieldNames s) - marked (fieldNames s) (fieldsInUse ?b2)"
    unfolding f(2) using unmarked_filter[OF _ d] 2 by simp
  also have "marked (fieldNames s) (fieldsInUse ?b2) = (set ?fixed \<union> set ?used) \<inter> set (fieldNames s)" using 1 2 m0 by auto
  finally show ?thesis using F by auto
qed

lemma verify_inputs_located:
  "verify_input_configs env s cfgs = Inr (Inr ()) \<Longrightarrow> cfg \<in> set cfgs \<Longrightarrow> set (input_fields cfg) \<subseteq> set (fieldNames s)"
  by (induction cfgs) (auto simp: cfg_then_ok dest: input_located)

lemma verify_orchestration_located:
  assumes "verify_orchestration s orc = Inr (Inr keys)"
  shows "set keys \<subseteq> set (fieldNames s)"
proof (cases orc)
  case (ByKeySet ks tag)
  then have v: "verify_keyset_config s ks tag = Inr (Inr keys)" using assms by simp
  obtain locs where locs: "create_field_locators s ks = Inr locs"
    using v by (cases "create_field_locators s ks") (auto simp: verify_keyset_config_def split: if_splits)
  then obtain r where r: "new_tag_builder tag ks = Inr r"
    using v by (auto simp: verify_keyset_config_def go_bind_eq_Inr split: if_splits)
  then have "keys = ks" using v locs by (cases r) (auto simp: verify_keyset_config_def split: if_splits)
  then show ?thesis using locs by (simp add: locators_defined)
next
  case (Singleton tag)
  then obtain r where "verify_singleton_config tag = Inr r" using assms by (auto simp: go_bind_eq_Inr)
  then show ?thesis using assms Singleton by (cases r) auto
qed

lemma check_fixed_fields_ok: "check_fixed_fields s s' fs = Inr (Inr ()) \<Longrightarrow> same_places s s' (set fs)"
  by (induction fs)
    (auto simp: go_bind_eq_Inr must_create_field_locator_def must_def split: sum.splits if_splits)

lemma check_config_compatibility_ok:
  assumes "check_config_compatibility marshal old s stats new s' stats' = Inr (Inr ())"
  shows "confMaxFields new = confMaxFields old \<and> OrchestrationKeys stats' = OrchestrationKeys stats \<and>
    orchestration_type (confOrchestration new) = orchestration_type (confOrchestration old) \<and> same_places s s' (set (FixedFields stats))"
  using assms check_fixed_fields_ok by (auto simp: check_config_compatibility_def checks)

text \<open>The check itself never panics: the fixed fields are in the old schema.\<close>

lemma check_fixed_fields_total: "set fs \<subseteq> set (fieldNames s) \<Longrightarrow> \<exists>r. check_fixed_fields s s' fs = Inr r"
proof (induction fs)
  case (Cons f fs)
  obtain loc where "create_field_locator s f = Inr loc" using Cons(2) create_field_locator_defined[of s f] by auto
  then show ?case using Cons by (auto simp: must_create_field_locator_def must_def split: sum.split)
qed simp

lemma check_config_compatibility_total:
  assumes "parse_config env old = Inr (Inr (s, stats))"
  shows "\<exists>r. check_config_compatibility marshal old s stats new s' stats' = Inr r"
proof -
  have "set (FixedFields stats) \<subseteq> set (fieldNames s)" using stats_exact[OF assms] by auto
  then obtain r where "check_fixed_fields s s' (FixedFields stats) = Inr r" using check_fixed_fields_total by blast
  then show ?thesis by (auto simp: check_config_compatibility_def cfg_then_def fail_if_def split: sum.split)
qed

section \<open>A verified configuration starts\<close>

lemma get_or_create_local_expander:
  "get_or_create_local keys now lm0 orc = Inr (merged, cache, lm, orc') \<Longrightarrow>
    tagExpander (tagBuilder orc') = tagExpander (tagBuilder orc)"
  by (auto simp: get_or_create_local_def get_or_create_global_def new_pipeline_def Let_def go_bind_eq_Inr
      split: option.splits dest: build_tag_keeps)

lemma create_initial_runs:
  assumes "channels_open orc" and "\<forall>keys. length keys = n \<longrightarrow> (\<exists>tag. tag_of (tagExpander (tagBuilder orc)) keys = Inr tag)"
  shows "\<exists>orc'. create_initial n now ids lm orc = Inr orc'"
  using assms
proof (induction ids arbitrary: lm orc)
  case (Cons pid ids)
  show ?case
  proof (cases "length (str_split CHR '','' pid) = n")
    case False
    then show ?thesis using Cons by simp
  next
    case True
    then obtain tag where t: "tag_of (tagExpander (tagBuilder orc)) (str_split CHR '','' pid) = Inr tag" using Cons(3) by blast
    obtain merged cache lm1 orc1 where g: "get_or_create_local (str_split CHR '','' pid) now lm orc = Inr (merged, cache, lm1, orc1)"
      "channels_open orc1"
      using get_or_create_local_runs[OF t Cons(2), of now lm] by (elim exE conjE) (rule that)
    obtain orc' where "create_initial n now ids lm1 orc1 = Inr orc'"
      using Cons(1)[OF g(2), of lm1] Cons(3) get_or_create_local_expander[OF g(1)] by auto
    then show ?thesis using g(1) True by simp
  qed
qed simp

lemma keyset_config_starts:
  assumes "verify_keyset_config s keys tag = Inr (Inr ks)"
  shows "\<exists>orc. new_orchestrator s keys tag ids now = Inr orc \<and> ks = keys"
proof -
  obtain locs where locs: "create_field_locators s keys = Inr locs"
    using assms by (cases "create_field_locators s keys") (auto simp: verify_keyset_config_def split: if_splits)
  then obtain r where r: "new_tag_builder tag keys = Inr r"
    using assms by (auto simp: verify_keyset_config_def go_bind_eq_Inr split: if_splits)
  then obtain tb where tb: "new_tag_builder tag keys = Inr (Inr tb)" "ks = keys"
    using assms locs by (cases r) (auto simp: verify_keyset_config_def split: if_splits)
  have "\<exists>orc'. create_initial (length keys) now ids []
      \<lparr>keyLocators = locs, tagBuilder = tb, globalMap = [], pipelines = [], orchSinks = [], destroyed = False, timedOut = False\<rparr> = Inr orc'"
    by (rule create_initial_runs) (use tag_total[OF tb(1)] in \<open>simp_all add: channels_open_def\<close>)
  then show ?thesis using locs tb by (auto simp: new_orchestrator_def)
qed

lemma orchestration_starts:
  assumes "verify_orchestration (loaderSchema l) (confOrchestration (loaderConfig l)) = Inr (Inr ks)" and "\<not> orchestratorStarted l"
  shows "\<exists>st. start_orchestrator ids now l = Inr (st, l\<lparr>orchestratorStarted := True\<rparr>) \<and>
    (\<forall>orc. st = KeysetStarted orc \<longrightarrow> (\<exists>tag. new_orchestrator (loaderSchema l) ks tag ids now = Inr orc))"
proof (cases "confOrchestration (loaderConfig l)")
  case (ByKeySet keys tag)
  then show ?thesis using keyset_config_starts[of "loaderSchema l" keys tag ks ids now] assms
    by (auto simp: start_orchestrator_def)
next
  case (Singleton tag)
  then show ?thesis using assms(2) by (simp add: start_orchestrator_def)
qed

section \<open>Properties\<close>

text \<open>A running loader: its parts come from its configuration.\<close>

definition loaded :: "environment \<Rightarrow> loader \<Rightarrow> bool" where
  "loaded env l \<longleftrightarrow> parse_config env (loaderConfig l) = Inr (Inr (loaderSchema l, loaderStats l))"

lemma new_loader_loaded: "new_loader env conf = Inr (Inr l) \<Longrightarrow> loaded env l \<and> loaderConfig l = conf"
  by (auto simp: new_loader_def cfg_bind_ok go_bind_eq_Inr loaded_def)

lemma restarted_keyset:
  assumes "new_orchestrator newSchema keys tag ids now = Inr orc"
    and "create_field_locators newSchema keys = create_field_locators oldSchema keys"
    and "length (fieldNames newSchema) \<le> maxFields oldSchema"
  shows "create_field_locators oldSchema keys = Inr (keyLocators orc) \<and>
    ((\<forall>rec\<in>R. length (Fields rec) = maxFields oldSchema) \<longrightarrow> keyset.fresh_for R orc)"
proof -
  have "built newSchema keys tag orc" using reachable_named[OF orch_reachable.start[OF assms(1)]] by simp
  then have "create_field_locators oldSchema keys = Inr (keyLocators orc)" using assms(2) by (simp add: built_def)
  then show ?thesis using new_orchestrator_fresh[OF assms(1), of R] assms(3) by auto
qed


definition sample_env :: environment where
  "sample_env = \<lparr>compileRegexp = (\<lambda>_. None), localOffset = (\<lambda>_. 0)\<rparr>"

definition sample_input :: syslog_config where
  "sample_input = \<lparr>syslogAddress = ''h:514'', LevelMapping = SeverityNames, Extractions = [TruncateConfig ''log'' 100 ''...'']\<rparr>"

definition sample_conf :: "bytes list \<Rightarrow> bytes list \<Rightarrow> run_config" where
  "sample_conf extra deleted =
     \<lparr>confFields = syslog_fields @ extra, confMaxFields = 12, confInputs = [sample_input], confOrchestration = ByKeySet [''app''] ''T'',
      confMetricKeys = [''host''], confTransformations = [DelFieldsConfig deleted],
      confOutputs = [\<lparr>pairName = ''o'', bufferConfig = \<lparr>RootPath = ''/q'', MaxBufSize = 1\<rparr>, outputConfig = DatadogOutput [],
        upstreamAddress = ''u'', upstreamTimeout = 1\<rparr>]\<rparr>"

lemma sample_conf_parses:
  "parse_config sample_env (sample_conf [] [''pid'']) = Inr (Inr
     (\<lparr>fieldNames = syslog_fields, maxFields = 12\<rparr>,
      \<lparr>FixedFields = syslog_fields, UnusedFields = [], OrchestrationKeys = [''app'']\<rparr>))"
  by code_simp

lemma sample_conf2_parses:
  "parse_config sample_env (sample_conf [''x'', ''y''] [''y'']) = Inr (Inr
     (\<lparr>fieldNames = syslog_fields @ [''x'', ''y''], maxFields = 12\<rparr>,
      \<lparr>FixedFields = syslog_fields, UnusedFields = [''x''], OrchestrationKeys = [''app'']\<rparr>))"
  by code_simp

lemma sample_compatible:
  "check_config_compatibility (\<lambda>cfgs. Inr (concat (map syslogAddress cfgs)))
     (sample_conf [] [''pid'']) \<lparr>fieldNames = syslog_fields, maxFields = 12\<rparr>
     \<lparr>FixedFields = syslog_fields, UnusedFields = [], OrchestrationKeys = [''app'']\<rparr>
     (sample_conf [''x'', ''y''] [''y'']) \<lparr>fieldNames = syslog_fields @ [''x'', ''y''], maxFields = 12\<rparr>
     \<lparr>FixedFields = syslog_fields, UnusedFields = [''x''], OrchestrationKeys = [''app'']\<rparr> = Inr (Inr ())"
  by code_simp

lemma sample_loads:
  "\<exists>l. new_loader sample_env (sample_conf [] [''pid'']) = Inr (Inr l) \<and>
     loaderSchema l = \<lparr>fieldNames = syslog_fields, maxFields = 12\<rparr> \<and>
     loaderStats l = \<lparr>FixedFields = syslog_fields, UnusedFields = [], OrchestrationKeys = [''app'']\<rparr>"
  "\<exists>l. new_loader sample_env (sample_conf [''x'', ''y''] [''y'']) = Inr (Inr l) \<and>
     loaderSchema l = \<lparr>fieldNames = syslog_fields @ [''x'', ''y''], maxFields = 12\<rparr> \<and>
     loaderStats l = \<lparr>FixedFields = syslog_fields, UnusedFields = [''x''], OrchestrationKeys = [''app'']\<rparr>"
proof -
  have "must_create_field_locators \<lparr>fieldNames = syslog_fields, maxFields = 12\<rparr> [''host''] = Inr [3]"
    "must_create_field_locators \<lparr>fieldNames = syslog_fields @ [''x'', ''y''], maxFields = 12\<rparr> [''host''] = Inr [3]"
    by code_simp+
  moreover have "confMetricKeys (sample_conf e d) = [''host'']" for e d by (simp add: sample_conf_def)
  ultimately show "\<exists>l. new_loader sample_env (sample_conf [] [''pid'']) = Inr (Inr l) \<and>
     loaderSchema l = \<lparr>fieldNames = syslog_fields, maxFields = 12\<rparr> \<and>
     loaderStats l = \<lparr>FixedFields = syslog_fields, UnusedFields = [], OrchestrationKeys = [''app'']\<rparr>"
  "\<exists>l. new_loader sample_env (sample_conf [''x'', ''y''] [''y'']) = Inr (Inr l) \<and>
     loaderSchema l = \<lparr>fieldNames = syslog_fields @ [''x'', ''y''], maxFields = 12\<rparr> \<and>
     loaderStats l = \<lparr>FixedFields = syslog_fields, UnusedFields = [''x''], OrchestrationKeys = [''app'']\<rparr>"
    by (simp_all add: new_loader_def cfg_bind_def sample_conf_parses sample_conf2_parses)
qed


text \<open>
  What the checks miss: \<open>extract\<close> in an input captures into a field, which a reload moves. The check passes, and
  the running inputs write to a place that has another name in the new schema.
\<close>

lemma moved_capture_allowed:
  fixes find
  defines "env \<equiv> \<lparr>compileRegexp = (\<lambda>_. Some \<lparr>subexpNames = [[], ''x''], findSubmatchIndex = find, replaceAll = (\<lambda>v _. v)\<rparr>),
    localOffset = (\<lambda>_. 0)\<rparr>"
  defines "old \<equiv> \<lparr>fieldNames = syslog_fields @ [''x'', ''y''], maxFields = 12\<rparr>"
  defines "new \<equiv> \<lparr>fieldNames = syslog_fields @ [''y'', ''x''], maxFields = 12\<rparr>"
  shows "verify_transforms env old [ExtractConfig ''log'' ''p''] = Inr (Inr ()) \<and>
    transforms_fields [ExtractConfig ''log'' ''p''] = [''log''] \<and>
    check_fixed_fields old new (syslog_fields @ [''log'']) = Inr (Inr ()) \<and>
    subexp_locators old [[], ''x''] = Inr [-1, 9] \<and> subexp_locators new [[], ''x''] = Inr [-1, 10]"
  unfolding env_def old_def new_def
  by (intro conjI) (simp add: checks verify_extract_def syslog_fields_def create_field_locator_defined, simp, code_simp, code_simp, code_simp)

end
