(* ===== verification/Listener.thy ===== *)
theory Listener
  imports Orchestrators
begin

text \<open>
  The TCP listener around the connections: \<open>input/tcplistener/tcplinelistener.go\<close>. One goroutine
  accepts, one per connection reads (what a connection does with what it reads is in \<open>Receiver\<close>),
  one per socket waits to close it. A step is one thing one of them does; which one is next, what
  \<open>AcceptTCP\<close> and \<open>Read\<close> return and the file descriptors the system gives out are events. A descriptor, which is
  the client number, is never given out while its socket is open.
\<close>

section \<open>State\<close>

text \<open>Where \<open>runConnection\<close> is: before \<open>NewSink\<close>, in the loop, between the loop and \<open>Close\<close>, at the end.\<close>

datatype task_phase = Starting | Reading | Ending | Ended

record connection_task =
  taskAddress :: bytes
  taskClient :: nat
  taskPhase :: task_phase
  socketOpen :: bool
  abortConn :: bool

text \<open>The calls to the receiver, with the client numbers of the sinks.\<close>

datatype sink_call = SinkMade bytes nat | SinkClosed nat

record tcp_listener =
  stopRequested :: bool
  abortListener :: bool
  listening :: bool
  acceptLoop :: bool
  tasks :: "connection_task list"
  taskCounter :: int
  sinkCalls :: "sink_call list"

definition new_tcp_listener :: tcp_listener where
  "new_tcp_listener =
     \<lparr>stopRequested = False, abortListener = False, listening = True, acceptLoop = True, tasks = [], taskCounter = 1, sinkCalls = []\<rparr>"

section \<open>Steps\<close>

datatype listener_event =
    RequestStop
  | AcceptConn nat bytes
  | AcceptError
  | ReadError nat
  | CloseListener
  | AcceptClosed
  | StartTask nat
  | CloseSocket nat
  | ReadClosed nat
  | CloseTask nat

definition with_task ::
  "nat \<Rightarrow> tcp_listener \<Rightarrow> (connection_task \<Rightarrow> bool) \<Rightarrow> (connection_task \<Rightarrow> connection_task) \<Rightarrow> tcp_listener option" where
  "with_task i l guard f =
     (if i < length (tasks l) \<and> guard (tasks l ! i) then Some (l\<lparr>tasks := (tasks l)[i := f (tasks l ! i)]\<rparr>) else None)"

text \<open>A connection whose number is too large is closed at once.\<close>

definition accept_conn :: "nat \<Rightarrow> bytes \<Rightarrow> tcp_listener \<Rightarrow> tcp_listener" where
  "accept_conn client addr l =
     (if client \<ge> MaxClientNumber then l
      else l\<lparr>taskCounter := taskCounter l + 1,
             tasks := tasks l @ [\<lparr>taskAddress = addr, taskClient = client, taskPhase = Starting, socketOpen = True, abortConn = False\<rparr>]\<rparr>)"

text \<open>The end of the loop of a connection: \<open>closed\<close> says that the error is that the socket is closed.\<close>

definition end_loop :: "bool \<Rightarrow> bool \<Rightarrow> connection_task \<Rightarrow> connection_task" where
  "end_loop stop closed t =
     (if closed \<and> stop then t\<lparr>taskPhase := Ending\<rparr> else t\<lparr>taskPhase := Ending, abortConn := True\<rparr>)"

fun listener_step :: "listener_event \<Rightarrow> tcp_listener \<Rightarrow> tcp_listener option" where
  "listener_step RequestStop l = Some (l\<lparr>stopRequested := True\<rparr>)"
| "listener_step (AcceptConn client addr) l =
     (if acceptLoop l \<and> listening l \<and> (\<forall>t\<in>set (tasks l). socketOpen t \<longrightarrow> taskClient t \<noteq> client)
      then Some (accept_conn client addr l) else None)"
| "listener_step AcceptError l =
     (if acceptLoop l then Some (l\<lparr>acceptLoop := False, abortListener := True, taskCounter := taskCounter l - 1\<rparr>) else None)"
| "listener_step (ReadError i) l = with_task i l (\<lambda>t. taskPhase t = Reading) (end_loop (stopRequested l) False)"
| "listener_step CloseListener l =
     (if listening l \<and> (stopRequested l \<or> abortListener l) then Some (l\<lparr>listening := False\<rparr>) else None)"
| "listener_step AcceptClosed l =
     (if acceptLoop l \<and> \<not> listening l
      then Some (l\<lparr>acceptLoop := False, abortListener := (abortListener l \<or> \<not> stopRequested l), taskCounter := taskCounter l - 1\<rparr>)
      else None)"
| "listener_step (StartTask i) l =
     map_option (\<lambda>l'. l'\<lparr>sinkCalls := sinkCalls l @ [SinkMade (taskAddress (tasks l ! i)) (taskClient (tasks l ! i))]\<rparr>)
       (with_task i l (\<lambda>t. taskPhase t = Starting) (\<lambda>t. t\<lparr>taskPhase := Reading\<rparr>))"
| "listener_step (CloseSocket i) l =
     with_task i l (\<lambda>t. taskPhase t \<noteq> Starting \<and> socketOpen t \<and> (stopRequested l \<or> abortConn t)) (\<lambda>t. t\<lparr>socketOpen := False\<rparr>)"
| "listener_step (ReadClosed i) l =
     with_task i l (\<lambda>t. taskPhase t = Reading \<and> \<not> socketOpen t) (end_loop (stopRequested l) True)"
| "listener_step (CloseTask i) l =
     map_option (\<lambda>l'. l'\<lparr>taskCounter := taskCounter l - 1, sinkCalls := sinkCalls l @ [SinkClosed (taskClient (tasks l ! i))]\<rparr>)
       (with_task i l (\<lambda>t. taskPhase t = Ending) (\<lambda>t. t\<lparr>taskPhase := Ended\<rparr>))"

fun listener_run :: "listener_event list \<Rightarrow> tcp_listener \<Rightarrow> tcp_listener option" where
  "listener_run [] l = Some l"
| "listener_run (e # es) l = Option.bind (listener_step e l) (listener_run es)"

inductive listener_reachable :: "tcp_listener \<Rightarrow> bool" where
  start: "listener_reachable new_tcp_listener"
| step: "listener_reachable l \<Longrightarrow> listener_step e l = Some l' \<Longrightarrow> listener_reachable l'"

text \<open>The steps the goroutines take by themselves; the others are up to clients and the system.\<close>

fun own_step :: "listener_event \<Rightarrow> bool" where
  "own_step RequestStop = False"
| "own_step (AcceptConn client addr) = False"
| "own_step AcceptError = False"
| "own_step (ReadError i) = False"
| "own_step e = True"

section \<open>What is left to do\<close>

fun phase_work :: "task_phase \<Rightarrow> nat" where
  "phase_work Starting = 3"
| "phase_work Reading = 2"
| "phase_work Ending = 1"
| "phase_work Ended = 0"

definition task_work :: "connection_task \<Rightarrow> nat" where
  "task_work t = phase_work (taskPhase t) + (if socketOpen t then 1 else 0)"

definition work_left :: "tcp_listener \<Rightarrow> nat" where
  "work_left l = (if listening l then 1 else 0) + (if acceptLoop l then 1 else 0) + sum_list (map task_work (tasks l))"

lemma sum_list_update:
  "i < length xs \<Longrightarrow> sum_list (map f (xs[i := y])) + f (xs ! i) = sum_list (map f xs) + (f y :: nat)"
proof (induction xs arbitrary: i)
  case (Cons x xs)
  then show ?case by (cases i) fastforce+
qed simp

lemma with_task_work:
  assumes "with_task i l guard f = Some l'" and "\<And>t. guard t \<Longrightarrow> task_work (f t) < task_work t"
  shows "work_left l' < work_left l"
proof -
  have i: "i < length (tasks l)" "guard (tasks l ! i)" and l': "l' = l\<lparr>tasks := (tasks l)[i := f (tasks l ! i)]\<rparr>"
    using assms(1) by (auto simp: with_task_def split: if_splits)
  show ?thesis using assms(2)[OF i(2)] sum_list_update[OF i(1), of task_work "f (tasks l ! i)"] l'
    by (simp add: work_left_def)
qed

lemma own_step_work:
  assumes "listener_step e l = Some l'" and "own_step e"
  shows "work_left l' < work_left l"
proof (cases e)
  case (StartTask i)
  then obtain l1 where "with_task i l (\<lambda>t. taskPhase t = Starting) (\<lambda>t. t\<lparr>taskPhase := Reading\<rparr>) = Some l1" "work_left l' = work_left l1"
    using assms(1) by (auto simp: work_left_def)
  then show ?thesis using with_task_work[of i l "\<lambda>t. taskPhase t = Starting"] by (fastforce simp: task_work_def)
next
  case (CloseSocket i)
  then have "with_task i l (\<lambda>t. taskPhase t \<noteq> Starting \<and> socketOpen t \<and> (stopRequested l \<or> abortConn t)) (\<lambda>t. t\<lparr>socketOpen := False\<rparr>) = Some l'"
    using assms(1) by simp
  then show ?thesis by (rule with_task_work) (simp add: task_work_def)
next
  case (ReadClosed i)
  then have "with_task i l (\<lambda>t. taskPhase t = Reading \<and> \<not> socketOpen t) (end_loop (stopRequested l) True) = Some l'"
    using assms(1) by simp
  then show ?thesis by (rule with_task_work) (simp add: task_work_def end_loop_def)
next
  case (CloseTask i)
  then obtain l1 where "with_task i l (\<lambda>t. taskPhase t = Ending) (\<lambda>t. t\<lparr>taskPhase := Ended\<rparr>) = Some l1" "work_left l' = work_left l1"
    using assms(1) by (auto simp: work_left_def)
  then show ?thesis using with_task_work[of i l "\<lambda>t. taskPhase t = Ending"] by (fastforce simp: task_work_def)
qed (use assms in \<open>auto simp: work_left_def split: if_splits\<close>)

lemma own_run_bound:
  "listener_run es l = Some l' \<Longrightarrow> list_all own_step es \<Longrightarrow> length es + work_left l' \<le> work_left l"
proof (induction es arbitrary: l)
  case (Cons e es)
  then obtain l1 where l1: "listener_step e l = Some l1" "listener_run es l1 = Some l'" by (auto simp: Option.bind_eq_Some_conv)
  have "own_step e" "list_all own_step es" using Cons(3) by simp_all
  then show ?case using Cons(1)[OF l1(2)] own_step_work[OF l1(1)] by simp
qed simp

section \<open>Counting\<close>

fun sinks_made :: "sink_call list \<Rightarrow> (bytes \<times> nat) list" where
  "sinks_made [] = []"
| "sinks_made (SinkMade addr n # calls) = (addr, n) # sinks_made calls"
| "sinks_made (SinkClosed n # calls) = sinks_made calls"

fun sinks_closed :: "sink_call list \<Rightarrow> nat list" where
  "sinks_closed [] = []"
| "sinks_closed (SinkMade addr n # calls) = sinks_closed calls"
| "sinks_closed (SinkClosed n # calls) = n # sinks_closed calls"

lemma sinks_append [simp]:
  "sinks_made (a @ b) = sinks_made a @ sinks_made b" "sinks_closed (a @ b) = sinks_closed a @ sinks_closed b"
  by (induction a rule: sinks_made.induct) simp_all

definition tasks_in :: "(connection_task \<Rightarrow> bool) \<Rightarrow> (connection_task \<Rightarrow> 'a) \<Rightarrow> connection_task list \<Rightarrow> 'a multiset" where
  "tasks_in P f ts = mset (map f (filter P ts))"

lemma tasks_in_simps [simp]:
  "tasks_in P f [] = {#}" "tasks_in P f (ts @ [t]) = (if P t then add_mset (f t) (tasks_in P f ts) else tasks_in P f ts)"
  by (simp_all add: tasks_in_def)

lemma tasks_in_update:
  "i < length ts \<Longrightarrow> tasks_in P f (ts[i := t]) + (if P (ts ! i) then {#f (ts ! i)#} else {#}) =
    tasks_in P f ts + (if P t then {#f t#} else {#})"
proof (induction ts arbitrary: i)
  case (Cons x xs)
  show ?case
  proof (cases i)
    case (Suc j)
    then have "j < length xs" using Cons(2) by simp
    then show ?thesis using Cons(1)[of j] Suc by (auto simp: tasks_in_def)
  qed (simp add: tasks_in_def)
qed simp

text \<open>
  One count for every goroutine that runs; every connection past its start has made a sink, and
  closed it at its end; the sockets that are open have different numbers.
\<close>

definition listener_inv :: "tcp_listener \<Rightarrow> bool" where
  "listener_inv l \<longleftrightarrow>
     taskCounter l = (if acceptLoop l then 1 else 0) + int (size (tasks_in (\<lambda>t. taskPhase t \<noteq> Ended) taskClient (tasks l))) \<and>
     mset (sinks_made (sinkCalls l)) = tasks_in (\<lambda>t. taskPhase t \<noteq> Starting) (\<lambda>t. (taskAddress t, taskClient t)) (tasks l) \<and>
     mset (sinks_closed (sinkCalls l)) = tasks_in (\<lambda>t. taskPhase t = Ended) taskClient (tasks l) \<and>
     (\<forall>t\<in>set (tasks l). taskClient t < MaxClientNumber) \<and> distinct (map taskClient (filter socketOpen (tasks l)))"

text \<open>A step of one connection that keeps its address and number and does not open its socket.\<close>

definition same_client :: "connection_task \<Rightarrow> connection_task \<Rightarrow> bool" where
  "same_client t t' \<longleftrightarrow> taskAddress t' = taskAddress t \<and> taskClient t' = taskClient t \<and> (socketOpen t' \<longrightarrow> socketOpen t)"

lemma open_update:
  "i < length ts \<Longrightarrow> same_client (ts ! i) t \<Longrightarrow> distinct (map taskClient (filter socketOpen ts)) \<Longrightarrow>
    distinct (map taskClient (filter socketOpen (ts[i := t])))"
proof (induction ts arbitrary: i)
  case (Cons x xs)
  have sub: "taskClient ` {y \<in> set (xs[j := t]). socketOpen y} \<subseteq> taskClient ` {y \<in> set xs. socketOpen y}"
    if "j < length xs" "same_client (xs ! j) t" for j
  proof
    fix c assume "c \<in> taskClient ` {y \<in> set (xs[j := t]). socketOpen y}"
    then obtain y where y: "y \<in> set (xs[j := t])" "socketOpen y" "c = taskClient y" by blast
    then have "y = t \<or> y \<in> set xs" using set_update_subset_insert by fast
    then show "c \<in> taskClient ` {y \<in> set xs. socketOpen y}"
      using that y nth_mem[OF that(1)] by (force simp: same_client_def)
  qed
  show ?case
  proof (cases i)
    case 0
    then show ?thesis using Cons(3,4) by (auto simp: same_client_def split: if_splits)
  next
    case (Suc j)
    then have j: "j < length xs" "same_client (xs ! j) t" using Cons(2,3) by simp_all
    have "distinct (map taskClient (filter socketOpen (xs[j := t])))" using Cons(1)[OF j] Cons(4) by (simp split: if_splits)
    then show ?thesis using Cons(4) Suc sub[OF j] by (auto split: if_splits)
  qed
qed simp

lemma with_task_inv:
  assumes "listener_inv l" and "with_task i l guard f = Some l'" and "\<And>t. guard t \<Longrightarrow> same_client t (f t)"
    and "\<And>t. guard t \<Longrightarrow> (taskPhase (f t) = Starting \<longleftrightarrow> taskPhase t = Starting) \<and> (taskPhase (f t) = Ended \<longleftrightarrow> taskPhase t = Ended)"
  shows "listener_inv l'"
proof -
  let ?t = "tasks l ! i"
  have i: "i < length (tasks l)" "guard ?t" and l': "l' = l\<lparr>tasks := (tasks l)[i := f ?t]\<rparr>"
    using assms(2) by (auto simp: with_task_def split: if_splits)
  have s: "same_client ?t (f ?t)" by (rule assms(3)[OF i(2)])
  note p = assms(4)[OF i(2)]
  have "tasks_in (\<lambda>t. taskPhase t \<noteq> Ended) taskClient (tasks l') = tasks_in (\<lambda>t. taskPhase t \<noteq> Ended) taskClient (tasks l)"
    "tasks_in (\<lambda>t. taskPhase t \<noteq> Starting) (\<lambda>t. (taskAddress t, taskClient t)) (tasks l') =
      tasks_in (\<lambda>t. taskPhase t \<noteq> Starting) (\<lambda>t. (taskAddress t, taskClient t)) (tasks l)"
    "tasks_in (\<lambda>t. taskPhase t = Ended) taskClient (tasks l') = tasks_in (\<lambda>t. taskPhase t = Ended) taskClient (tasks l)"
    using tasks_in_update[OF i(1), of "\<lambda>t. taskPhase t \<noteq> Ended" taskClient "f ?t"]
      tasks_in_update[OF i(1), of "\<lambda>t. taskPhase t \<noteq> Starting" "\<lambda>t. (taskAddress t, taskClient t)" "f ?t"]
      tasks_in_update[OF i(1), of "\<lambda>t. taskPhase t = Ended" taskClient "f ?t"] p s l'
    by (simp_all add: same_client_def split: if_splits)
  moreover have "\<forall>t\<in>set (tasks l'). taskClient t < MaxClientNumber"
  proof
    fix t assume "t \<in> set (tasks l')"
    then have "t = f ?t \<or> t \<in> set (tasks l)" using l' set_update_subset_insert[of "tasks l" i "f ?t"] by auto
    then show "taskClient t < MaxClientNumber" using assms(1) s nth_mem[OF i(1)] by (auto simp: listener_inv_def same_client_def)
  qed
  moreover have "distinct (map taskClient (filter socketOpen (tasks l')))"
    using open_update[OF i(1) s] assms(1) l' by (simp add: listener_inv_def)
  ultimately show ?thesis using assms(1) l' by (simp add: listener_inv_def)
qed

lemma start_task_inv:
  assumes "listener_inv l" and "listener_step (StartTask i) l = Some l'"
  shows "listener_inv l'"
proof -
  let ?t = "tasks l ! i"
  have i: "i < length (tasks l)" "taskPhase ?t = Starting"
    and l': "l' = l\<lparr>tasks := (tasks l)[i := ?t\<lparr>taskPhase := Reading\<rparr>], sinkCalls := sinkCalls l @ [SinkMade (taskAddress ?t) (taskClient ?t)]\<rparr>"
    using assms(2) by (auto simp: with_task_def split: if_splits)
  have s: "same_client ?t (?t\<lparr>taskPhase := Reading\<rparr>)" by (simp add: same_client_def)
  show ?thesis
    using tasks_in_update[OF i(1), of "\<lambda>t. taskPhase t \<noteq> Ended" taskClient "?t\<lparr>taskPhase := Reading\<rparr>"]
      tasks_in_update[OF i(1), of "\<lambda>t. taskPhase t \<noteq> Starting" "\<lambda>t. (taskAddress t, taskClient t)" "?t\<lparr>taskPhase := Reading\<rparr>"]
      tasks_in_update[OF i(1), of "\<lambda>t. taskPhase t = Ended" taskClient "?t\<lparr>taskPhase := Reading\<rparr>"]
      i open_update[OF i(1) s] assms(1) nth_mem[OF i(1)] set_update_subset_insert[of "tasks l" i "?t\<lparr>taskPhase := Reading\<rparr>"]
    unfolding listener_inv_def l' by auto
qed

lemma close_task_inv:
  assumes "listener_inv l" and "listener_step (CloseTask i) l = Some l'"
  shows "listener_inv l'"
proof -
  let ?t = "tasks l ! i"
  have i: "i < length (tasks l)" "taskPhase ?t = Ending"
    and l': "l' = l\<lparr>tasks := (tasks l)[i := ?t\<lparr>taskPhase := Ended\<rparr>], taskCounter := taskCounter l - 1,
      sinkCalls := sinkCalls l @ [SinkClosed (taskClient ?t)]\<rparr>"
    using assms(2) by (auto simp: with_task_def split: if_splits)
  have s: "same_client ?t (?t\<lparr>taskPhase := Ended\<rparr>)" by (simp add: same_client_def)
  have n: "add_mset (taskClient ?t) (tasks_in (\<lambda>t. taskPhase t \<noteq> Ended) taskClient (tasks l')) = tasks_in (\<lambda>t. taskPhase t \<noteq> Ended) taskClient (tasks l)"
    using tasks_in_update[OF i(1), of "\<lambda>t. taskPhase t \<noteq> Ended" taskClient "?t\<lparr>taskPhase := Ended\<rparr>"] i l' by simp
  then have "size (tasks_in (\<lambda>t. taskPhase t \<noteq> Ended) taskClient (tasks l)) = Suc (size (tasks_in (\<lambda>t. taskPhase t \<noteq> Ended) taskClient (tasks l')))"
    by (metis size_add_mset)
  then show ?thesis
    using tasks_in_update[OF i(1), of "\<lambda>t. taskPhase t \<noteq> Starting" "\<lambda>t. (taskAddress t, taskClient t)" "?t\<lparr>taskPhase := Ended\<rparr>"]
      tasks_in_update[OF i(1), of "\<lambda>t. taskPhase t = Ended" taskClient "?t\<lparr>taskPhase := Ended\<rparr>"]
      i open_update[OF i(1) s] assms(1) nth_mem[OF i(1)] set_update_subset_insert[of "tasks l" i "?t\<lparr>taskPhase := Ended\<rparr>"]
    unfolding listener_inv_def l' by auto
qed

lemma listener_step_inv:
  assumes "listener_inv l" and "listener_step e l = Some l'"
  shows "listener_inv l'"
proof (cases e)
  case (AcceptConn client addr)
  then show ?thesis using assms by (auto simp: listener_inv_def accept_conn_def split: if_splits)
next
  case (ReadError i)
  then have "with_task i l (\<lambda>t. taskPhase t = Reading) (end_loop (stopRequested l) False) = Some l'" using assms(2) by simp
  from with_task_inv[OF assms(1) this] show ?thesis by (simp add: end_loop_def same_client_def)
next
  case (CloseSocket i)
  then have "with_task i l (\<lambda>t. taskPhase t \<noteq> Starting \<and> socketOpen t \<and> (stopRequested l \<or> abortConn t)) (\<lambda>t. t\<lparr>socketOpen := False\<rparr>) = Some l'"
    using assms(2) by simp
  from with_task_inv[OF assms(1) this] show ?thesis by (simp add: same_client_def)
next
  case (ReadClosed i)
  then have "with_task i l (\<lambda>t. taskPhase t = Reading \<and> \<not> socketOpen t) (end_loop (stopRequested l) True) = Some l'" using assms(2) by simp
  from with_task_inv[OF assms(1) this] show ?thesis by (simp add: end_loop_def same_client_def)
next
  case (StartTask i)
  then show ?thesis using start_task_inv assms by blast
next
  case (CloseTask i)
  then show ?thesis using close_task_inv assms by blast
qed (use assms in \<open>auto simp: listener_inv_def split: if_splits\<close>)

lemma new_listener_inv: "listener_inv new_tcp_listener"
  by (simp add: listener_inv_def new_tcp_listener_def)

lemma listener_reachable_inv: "listener_reachable l \<Longrightarrow> listener_inv l"
  by (induction rule: listener_reachable.induct) (auto intro: new_listener_inv listener_step_inv)

lemma listener_run_inv: "listener_run es l = Some l' \<Longrightarrow> listener_inv l \<Longrightarrow> listener_inv l'"
  by (induction es arbitrary: l) (auto simp: Option.bind_eq_Some_conv intro: listener_step_inv)

lemma own_run_stop:
  "listener_run es l = Some l' \<Longrightarrow> list_all own_step es \<Longrightarrow> stopRequested l' = stopRequested l"
proof (induction es arbitrary: l)
  case (Cons e es)
  then obtain l1 where l1: "listener_step e l = Some l1" "listener_run es l1 = Some l'" by (auto simp: Option.bind_eq_Some_conv)
  have "stopRequested l1 = stopRequested l" using l1(1) Cons(3) by (cases e) (auto simp: with_task_def split: if_splits)
  then show ?case using Cons(1)[OF l1(2)] Cons(3) by simp
qed simp

text \<open>After a request to stop, there is a step to take until all is over.\<close>

lemma nothing_left:
  assumes "stopRequested l" and "\<forall>e. own_step e \<longrightarrow> listener_step e l = None"
  shows "\<not> listening l \<and> \<not> acceptLoop l \<and> (\<forall>t\<in>set (tasks l). taskPhase t = Ended)"
proof -
  have l: "\<not> listening l" using assms by (metis listener_step.simps(5) option.distinct(1) own_step.simps(5))
  have "\<not> acceptLoop l" using assms(2) l by (metis listener_step.simps(6) option.distinct(1) own_step.simps(6))
  moreover have "taskPhase (tasks l ! i) = Ended" if i: "i < length (tasks l)" for i
  proof (cases "taskPhase (tasks l ! i)")
    case Starting
    then show ?thesis using spec[OF assms(2), of "StartTask i"] i by (simp add: with_task_def)
  next
    case Reading
    then show ?thesis using spec[OF assms(2), of "CloseSocket i"] spec[OF assms(2), of "ReadClosed i"] i assms(1)
      by (cases "socketOpen (tasks l ! i)") (simp_all add: with_task_def)
  next
    case Ending
    then show ?thesis using spec[OF assms(2), of "CloseTask i"] i by (simp add: with_task_def)
  qed
  ultimately show ?thesis using l by (auto simp: in_set_conv_nth)
qed

section \<open>Properties\<close>

text \<open>
  C6: The listener stops, and is said to be stopped only when it has. In every state it can reach, the counter of
  goroutines is never negative, and is zero only when the accept loop is over and every connection
  has ended and closed the sink it made; open sockets have different client numbers, all within the
  limit. After a request to stop, the goroutines can take only as many steps as there is work left,
  and when none of them can take another the counter is zero.
\<close>

theorem listener_stops:
  assumes "listener_reachable l"
  shows "0 \<le> taskCounter l \<and>
    (taskCounter l = 0 \<longrightarrow> \<not> acceptLoop l \<and> (\<forall>t\<in>set (tasks l). taskPhase t = Ended) \<and>
      mset (sinks_closed (sinkCalls l)) = mset (map snd (sinks_made (sinkCalls l)))) \<and>
    distinct (map taskClient (filter socketOpen (tasks l))) \<and> (\<forall>t\<in>set (tasks l). taskClient t < MaxClientNumber) \<and>
    (\<forall>es l'. stopRequested l \<longrightarrow> list_all own_step es \<longrightarrow> listener_run es l = Some l' \<longrightarrow>
      length es \<le> work_left l \<and> ((\<forall>e. own_step e \<longrightarrow> listener_step e l' = None) \<longrightarrow> taskCounter l' = 0))"
proof -
  have inv: "listener_inv l" by (rule listener_reachable_inv[OF assms])
  note i = inv[unfolded listener_inv_def]
  have ended: "\<not> acceptLoop l \<and> (\<forall>t\<in>set (tasks l). taskPhase t = Ended)" if "taskCounter l = 0"
    using i that by (auto simp: tasks_in_def filter_empty_conv split: if_splits)
  have closed: "mset (sinks_closed (sinkCalls l)) = mset (map snd (sinks_made (sinkCalls l)))" if "taskCounter l = 0"
  proof -
    have "filter (\<lambda>t. taskPhase t \<noteq> Starting) (tasks l) = tasks l" "filter (\<lambda>t. taskPhase t = Ended) (tasks l) = tasks l"
      using ended[OF that] by (auto intro!: filter_True)
    then show ?thesis using i by (simp add: tasks_in_def mset_map image_mset.compositionality comp_def)
  qed
  have stop: "length es \<le> work_left l \<and> ((\<forall>e. own_step e \<longrightarrow> listener_step e l' = None) \<longrightarrow> taskCounter l' = 0)"
    if "stopRequested l" "list_all own_step es" "listener_run es l = Some l'" for es l'
  proof (intro conjI impI)
    show "length es \<le> work_left l" using own_run_bound[OF that(3,2)] by simp
    assume "\<forall>e. own_step e \<longrightarrow> listener_step e l' = None"
    then have "\<not> acceptLoop l' \<and> (\<forall>t\<in>set (tasks l'). taskPhase t = Ended)"
      using nothing_left[of l'] own_run_stop[OF that(3,2)] that(1) by simp
    then show "taskCounter l' = 0"
      using listener_run_inv[OF that(3) inv] by (simp add: listener_inv_def tasks_in_def filter_empty_conv)
  qed
  show ?thesis using i ended closed stop by simp
qed

definition sample_listening :: "listener_event list" where
  "sample_listening = [AcceptConn 7 ''a'', StartTask 0, AcceptConn 8 ''b'', RequestStop]"

lemma listener_run_reachable: "listener_run es l = Some l' \<Longrightarrow> listener_reachable l \<Longrightarrow> listener_reachable l'"
  by (induction es arbitrary: l) (auto simp: Option.bind_eq_Some_conv intro: listener_reachable.step)

theorem listener_stops_witness:
  "\<exists>l l'. listener_run sample_listening new_tcp_listener = Some l \<and> taskCounter l = 3 \<and> work_left l = 9 \<and>
     listener_run [CloseListener, CloseSocket 0, ReadClosed 0, CloseTask 0, AcceptClosed, StartTask 1, CloseSocket 1, ReadClosed 1,
       CloseTask 1] l = Some l' \<and> taskCounter l' = 0"
proof -
  let ?es = "[CloseListener, CloseSocket 0, ReadClosed 0, CloseTask 0, AcceptClosed, StartTask 1, CloseSocket 1, ReadClosed 1,
       CloseTask 1]"
  obtain l where l: "listener_run sample_listening new_tcp_listener = Some l" "taskCounter l = 3" "work_left l = 9" "stopRequested l"
    "\<exists>l'. listener_run ?es l = Some l' \<and> work_left l' = 0"
    by (simp add: sample_listening_def new_tcp_listener_def with_task_def accept_conn_def MaxClientNumber_def work_left_def
        task_work_def end_loop_def)
  then obtain l' where l': "listener_run ?es l = Some l'" "work_left l' = 0" by blast
  have r: "listener_reachable l" using listener_run_reachable[OF l(1)] listener_reachable.start by blast
  have "listener_step e l' = None" if "own_step e" for e
    using own_step_work[of e l'] that l'(2) by (cases "listener_step e l'") auto
  then have none: "\<forall>e. own_step e \<longrightarrow> listener_step e l' = None" by blast
  have own: "list_all own_step ?es" by simp
  from listener_stops[OF r] have "\<forall>es l'. stopRequested l \<longrightarrow> list_all own_step es \<longrightarrow> listener_run es l = Some l' \<longrightarrow>
      length es \<le> work_left l \<and> ((\<forall>e. own_step e \<longrightarrow> listener_step e l' = None) \<longrightarrow> taskCounter l' = 0)"
    by (elim conjE) assumption
  from this[rule_format, OF l(4) own l'(1)] none have "taskCounter l' = 0" by (elim conjE) (rule mp)
  then show ?thesis using l l'(1) by blast
qed

section \<open>Client numbers come back too early\<close>

text \<open>
  The socket of a connection is closed before its sink, so the system can give its descriptor to a
  new connection first. What the calls to the receiver then do to the reloadable orchestrator, which keeps its sinks by
  client number: closing the old sink removes the new one, and the next records of the new connection panic.
\<close>

fun replay_sinks :: "('d, 'k, 'c) orchestrator_ops \<Rightarrow> 'c \<Rightarrow> sink_call list \<Rightarrow> ('d, 'k) reloadable \<Rightarrow> ('d, 'k) reloadable go" where
  "replay_sinks ops c [] orc = Inr orc"
| "replay_sinks ops c (SinkMade addr n # calls) orc =
     (let orc = make_sink ops addr n orc in
      go_bind (install_sink (last (newSinks orc)) orc) (replay_sinks ops c calls))"
| "replay_sinks ops c (SinkClosed n # calls) orc = go_bind (sink_close ops c n orc) (replay_sinks ops c calls)"

lemma client_number_reused:
  "\<exists>l. listener_run [AcceptConn 7 ''a'', StartTask 0, ReadError 0, CloseSocket 0, AcceptConn 7 ''b'', StartTask 1, CloseTask 0]
       new_tcp_listener = Some l \<and>
     taskPhase (tasks l ! 1) = Reading \<and> taskClient (tasks l ! 1) = 7 \<and>
     sinkCalls l = [SinkMade ''a'' 7, SinkMade ''b'' 7, SinkClosed 7] \<and>
     (\<exists>orc. replay_sinks singleton_ops True (sinkCalls l) (new_reloadable (new_singleton ''t'')) = Inr orc \<and>
       sink_accept singleton_ops True 7 logs orc = Inl NilDereference)"
proof -
  have "MaxClientNumber = Suc (Suc (Suc (Suc (Suc (Suc (Suc (Suc 262136)))))))" by (simp add: MaxClientNumber_def)
  then obtain m where m: "MaxClientNumber = Suc (Suc (Suc (Suc (Suc (Suc (Suc (Suc m)))))))" by blast
  have e: "(7::nat) = Suc (Suc (Suc (Suc (Suc (Suc (Suc 0))))))" by simp
  show ?thesis
    by (simp add: e m new_tcp_listener_def with_task_def accept_conn_def end_loop_def reload_eval singleton_ops_def singleton_new_sink_def
        singleton_close_def new_singleton_def go_index_def)
qed

end
