(* ===== verification/Connections.thy ===== *)
theory Connections
  imports Client_Session Chunk_Maker
begin

text \<open>
  The connections behind the forwarding client: \<open>output/fluentdforward/clientworker.go\<close> (a socket
  that carries chunks and pings, and acknowledgements back) and \<open>output/datadog/clientworker.go\<close>
  (one HTTP request per chunk). What the network does is an argument of each operation. The operations
  of a connection are a record, \<open>connection_ops\<close>; the client of \<open>Client_Session\<close> runs on any such record,
  every result it gets from the network being the one an operation gives. The locale
  \<open>connection_contract\<close> is what a client can rely on, and both kinds of connections are interpretations of it.
\<close>

section \<open>The connection of the Forward protocol\<close>

text \<open>A call of \<open>Write\<close>: how many bytes it wrote, and whether it failed. Without an outcome it has not returned.\<close>

fun write_all :: "(nat \<times> bool) list \<Rightarrow> bytes \<Rightarrow> bytes \<times> bool option" where
  "write_all [] data = ([], None)"
| "write_all ((n, failed) # ws) data =
     (if failed then (take n data, Some False)
      else if drop n data = [] then (take n data, Some True)
      else (case write_all ws (drop n data) of (out, r) \<Rightarrow> (take n data @ out, r)))"

text \<open>A connection: what has been written to its socket since the login, and whether it is open.\<close>

record forward_connection =
  wireOut :: bytes
  sockOpen :: bool

datatype handshake_result = HandshakeError | LoginRejected bytes | LoginAccepted

datatype connection_error = FailedToConnect | FailedToHandshake | LoginRefused bytes

text \<open>
  The socket that was opened, if any, and the error, if any. Whether \<open>Dial\<close> succeeds and what
  \<open>DoClientHandshake\<close> returns are arguments; there is a login only where a secret is configured.
\<close>

definition close_connection :: "forward_connection \<Rightarrow> forward_connection" where
  "close_connection conn = conn\<lparr>sockOpen := False\<rparr>"

definition open_forward_connection ::
  "bytes \<Rightarrow> bool \<Rightarrow> handshake_result \<Rightarrow> forward_connection option \<times> connection_error option" where
  "open_forward_connection secret connected handshake =
     (if \<not> connected then (None, Some FailedToConnect)
      else let sock = \<lparr>wireOut = [], sockOpen = True\<rparr>;
        authErr = (if secret = [] then None
                   else case handshake of
                     HandshakeError \<Rightarrow> Some FailedToHandshake
                   | LoginRejected reason \<Rightarrow> Some (LoginRefused reason)
                   | LoginAccepted \<Rightarrow> None)
      in (case authErr of
            Some e \<Rightarrow> (Some (close_connection sock), Some e)
          | None \<Rightarrow> (Some sock, None)))"

text \<open>Setting the deadline may fail; then nothing is written.\<close>

definition send_bytes ::
  "bool \<times> (nat \<times> bool) list \<Rightarrow> bytes \<Rightarrow> forward_connection \<Rightarrow> (forward_connection \<times> bool) option" where
  "send_bytes env data conn =
     (case env of (deadlineSet, ws) \<Rightarrow>
        if \<not> deadlineSet then Some (conn, False)
        else (case write_all ws data of
                (out, None) \<Rightarrow> None
              | (out, Some ok) \<Rightarrow> Some (conn\<lparr>wireOut := wireOut conn @ out\<rparr>, ok)))"

definition chunk_payload :: "log_chunk \<Rightarrow> bytes" where
  "chunk_payload c = (case chunk_data c of None \<Rightarrow> [] | Some d \<Rightarrow> d)"

definition ff_send_chunk ::
  "bool \<times> (nat \<times> bool) list \<Rightarrow> log_chunk \<Rightarrow> forward_connection \<Rightarrow> (forward_connection \<times> bool) option" where
  "ff_send_chunk env c conn = send_bytes env (chunk_payload c) conn"

text \<open>\<open>ping\<close> is \<open>internalPingMessage\<close>, made once when the program starts.\<close>

definition ff_send_ping ::
  "bytes \<Rightarrow> bool \<times> (nat \<times> bool) list \<Rightarrow> forward_connection \<Rightarrow> (forward_connection \<times> bool) option" where
  "ff_send_ping ping env conn = send_bytes env ping conn"

definition build_internal_ping_message :: "mp_lib \<Rightarrow> bytes go" where
  "build_internal_ping_message mp =
     (case Option.bind (mpArrayLen mp 3) (\<lambda>root.
           Option.bind (mpString mp ''internal.ping'') (\<lambda>tag.
           Option.bind (mpArrayLen mp 0) (\<lambda>events.
           Option.bind (mpOption mp 0 [] []) (\<lambda>opt.
             Some (root @ tag @ events @ opt))))) of
        None \<Rightarrow> Inl (LoggerPanic ''failed to encode'')
      | Some message \<Rightarrow> Inr message)"

text \<open>Reading an acknowledgement: the decoder gives an error or the ID in the answer.\<close>

definition ff_read_chunk_ack :: "bool \<times> bytes option \<Rightarrow> forward_connection \<Rightarrow> bytes option" where
  "ff_read_chunk_ack env conn = (case env of (deadlineSet, decoded) \<Rightarrow> if deadlineSet then decoded else None)"

section \<open>The connection of the Datadog client\<close>

text \<open>A request that fails, or its answer: the status code and whether its body can be read.\<close>

datatype http_outcome = RequestFails | Response nat bool

record datadog_connection =
  requestHeaders :: "(bytes \<times> bytes) list"
  requestsMade :: "(bytes \<times> http_outcome) list"

text \<open>Made once; an address that is no URL panics. The key is read from the environment.\<close>

definition new_datadog_client :: "bool \<Rightarrow> bytes \<Rightarrow> datadog_connection go" where
  "new_datadog_client validAddress apiKey =
     (if \<not> validAddress then Inl (LoggerPanic ''NewRequest'')
      else Inr \<lparr>requestHeaders = [(''Content-Encoding'', ''gzip''), (''Content-Type'', ''application/json''), (''DD-API-KEY'', apiKey)],
        requestsMade = []\<rparr>)"

text \<open>Both ways of failing on a bad status are errors.\<close>

fun dd_answer_ok :: "http_outcome \<Rightarrow> bool" where
  "dd_answer_ok RequestFails = False"
| "dd_answer_ok (Response status readable) = (status < 300)"

definition dd_send_chunk :: "http_outcome \<Rightarrow> log_chunk \<Rightarrow> datadog_connection \<Rightarrow> (datadog_connection \<times> bool) option" where
  "dd_send_chunk env c conn =
     Some (conn\<lparr>requestsMade := requestsMade conn @ [(chunk_payload c, env)]\<rparr>, dd_answer_ok env)"

definition dd_send_ping :: "http_outcome \<Rightarrow> datadog_connection \<Rightarrow> (datadog_connection \<times> bool) option" where
  "dd_send_ping env conn = Some (conn, True)"

text \<open>There are no acknowledgements: an empty ID stands for the first chunk not yet acknowledged.\<close>

definition dd_read_chunk_ack :: "unit \<Rightarrow> datadog_connection \<Rightarrow> bytes option" where
  "dd_read_chunk_ack env conn = Some []"

section \<open>The client on its connections\<close>

record ('o, 'e, 'a, 'k) connection_ops =
  opOpen :: "'o \<Rightarrow> 'k option"
  opSend :: "'e \<Rightarrow> log_chunk \<Rightarrow> 'k \<Rightarrow> ('k \<times> bool) option"
  opPing :: "'e \<Rightarrow> 'k \<Rightarrow> ('k \<times> bool) option"
  opReadAck :: "'a \<Rightarrow> 'k \<Rightarrow> bytes option"
  opCloseConn :: "'k \<Rightarrow> 'k"

definition fluentd_connections ::
  "bytes \<Rightarrow> bytes \<Rightarrow> (bool \<times> handshake_result, bool \<times> (nat \<times> bool) list, bool \<times> bytes option, forward_connection) connection_ops" where
  "fluentd_connections secret ping =
     \<lparr>opOpen = (\<lambda>(connected, handshake). case open_forward_connection secret connected handshake of
          (Some conn, None) \<Rightarrow> Some conn | _ \<Rightarrow> None),
      opSend = ff_send_chunk, opPing = ff_send_ping ping, opReadAck = ff_read_chunk_ack, opCloseConn = close_connection\<rparr>"

text \<open>Every session is given the same client; its requests are listed by session here.\<close>

definition datadog_connections :: "datadog_connection \<Rightarrow> (unit, http_outcome, unit, datadog_connection) connection_ops" where
  "datadog_connections worker =
     \<lparr>opOpen = (\<lambda>_. Some worker), opSend = dd_send_chunk, opPing = dd_send_ping,
      opReadAck = dd_read_chunk_ack, opCloseConn = (\<lambda>conn. conn)\<rparr>"

text \<open>The connections of the sessions so far, oldest first, each with the acknowledgements read from it.\<close>

record 'k connected =
  client :: client_worker
  conns :: "('k \<times> bytes list) list"

definition new_connected :: "int \<Rightarrow> 'k connected" where
  "new_connected duration = \<lparr>client = new_client_worker duration, conns = []\<rparr>"

datatype ('o, 'e, 'a) connected_event = Opens 'o | Sends 'e | Pings 'e | ReadsAck 'a | Other client_event

text \<open>The events of the client that report what a connection did.\<close>

fun connection_result :: "client_event \<Rightarrow> bool" where
  "connection_result (Main (SendResult ok)) = True"
| "connection_result (Main (PingResult ok)) = True"
| "connection_result (Acker (AckRead reply)) = True"
| "connection_result (Worker Connected) = True"
| "connection_result (Worker ConnectFailed) = True"
| "connection_result ev = False"

definition session_aborted :: "client_worker \<Rightarrow> bool" where
  "session_aborted w = (case workerPc w of InSession s \<Rightarrow> connAborted s | _ \<Rightarrow> False)"

definition on_last :: "('k \<times> bytes list \<Rightarrow> 'k \<times> bytes list) \<Rightarrow> ('k \<times> bytes list) list \<Rightarrow> ('k \<times> bytes list) list" where
  "on_last f ks = (if ks = [] then [] else butlast ks @ [f (last ks)])"

text \<open>\<open>abortConn\<close> closes the connection, once.\<close>

definition advance ::
  "('o, 'e, 'a, 'k) connection_ops \<Rightarrow> client_event \<Rightarrow> (('k \<times> bytes list) list \<Rightarrow> ('k \<times> bytes list) list) \<Rightarrow>
     'k connected \<Rightarrow> 'k connected option" where
  "advance ops ev f st =
     map_option (\<lambda>w. \<lparr>client = w,
         conns = (if session_aborted w \<and> \<not> session_aborted (client st)
                  then on_last (\<lambda>(k, answers). (opCloseConn ops k, answers)) (f (conns st)) else f (conns st))\<rparr>)
       (client_step ev (client st))"

definition chunk_in_hand :: "client_worker \<Rightarrow> log_chunk option" where
  "chunk_in_hand w =
     (case workerPc w of
        InSession s \<Rightarrow> (case mainPc s of Sending st c \<Rightarrow> Some c | _ \<Rightarrow> None)
      | _ \<Rightarrow> None)"

fun connected_step ::
  "('o, 'e, 'a, 'k) connection_ops \<Rightarrow> ('o, 'e, 'a) connected_event \<Rightarrow> 'k connected \<Rightarrow> 'k connected option" where
  "connected_step ops (Opens env) st =
     (case opOpen ops env of
        None \<Rightarrow> advance ops (Worker ConnectFailed) (\<lambda>ks. ks) st
      | Some k \<Rightarrow> advance ops (Worker Connected) (\<lambda>ks. ks @ [(k, [])]) st)"
| "connected_step ops (Sends env) st =
     Option.bind (chunk_in_hand (client st)) (\<lambda>c.
     Option.bind (opSend ops env c (fst (last (conns st)))) (\<lambda>(k, ok).
       advance ops (Main (SendResult ok)) (on_last (\<lambda>(_, answers). (k, answers))) st))"
| "connected_step ops (Pings env) st =
     Option.bind (opPing ops env (fst (last (conns st)))) (\<lambda>(k, ok).
       advance ops (Main (PingResult ok)) (on_last (\<lambda>(_, answers). (k, answers))) st)"
| "connected_step ops (ReadsAck env) st =
     (let reply = opReadAck ops env (fst (last (conns st))) in
      advance ops (Acker (AckRead reply))
        (on_last (\<lambda>(k, answers). (k, answers @ (case reply of None \<Rightarrow> [] | Some i \<Rightarrow> [i])))) st)"
| "connected_step ops (Other ev) st = (if connection_result ev then None else advance ops ev (\<lambda>ks. ks) st)"

fun connected_run ::
  "('o, 'e, 'a, 'k) connection_ops \<Rightarrow> ('o, 'e, 'a) connected_event list \<Rightarrow> 'k connected \<Rightarrow> 'k connected option" where
  "connected_run ops [] st = Some st"
| "connected_run ops (ev # evs) st = Option.bind (connected_step ops ev st) (connected_run ops evs)"

inductive connected_reachable :: "('o, 'e, 'a, 'k) connection_ops \<Rightarrow> int \<Rightarrow> 'k connected \<Rightarrow> bool" for ops duration where
  start: "connected_reachable ops duration (new_connected duration)"
| step: "connected_reachable ops duration st \<Longrightarrow> connected_step ops ev st = Some st' \<Longrightarrow> connected_reachable ops duration st'"

text \<open>Leaving the connections out, these are runs of the client.\<close>

lemma advance_client: "advance ops ev f st = Some st' \<Longrightarrow> client_step ev (client st) = Some (client st')"
  by (auto simp: advance_def)

lemma connected_client_step:
  assumes "connected_step ops ev st = Some st'"
  shows "\<exists>e. client_step e (client st) = Some (client st')"
  using assms by (cases ev) (auto simp: Option.bind_eq_Some_conv Let_def split: option.splits if_splits dest: advance_client)

lemma connected_client: "connected_reachable ops duration st \<Longrightarrow> client_reachable duration (client st)"
proof (induction rule: connected_reachable.induct)
  case start
  then show ?case by (simp add: new_connected_def client_reachable.start)
next
  case (step st ev st')
  then show ?case using connected_client_step client_reachable.step by blast
qed

lemma connected_run_reachable:
  "connected_run ops evs st = Some st' \<Longrightarrow> connected_reachable ops duration st \<Longrightarrow> connected_reachable ops duration st'"
  by (induction evs arbitrary: st) (auto simp: Option.bind_eq_Some_conv intro: connected_reachable.step)

section \<open>What a step of the client does to a session\<close>

fun able :: "main_pc \<Rightarrow> bool" where
  "able (AtLoop st) = True"
| "able (Sending st c) = True"
| "able (QueueingForAck st c) = True"
| "able Pinging = True"
| "able _ = False"

text \<open>The chunks sent and not yet acknowledged.\<close>

definition waiting :: "client_session \<Rightarrow> log_chunk set" where
  "waiting s = set (ackerChan s) \<union> set (pendingChunks s) \<union> (case mainPc s of QueueingForAck st c \<Rightarrow> {c} | _ \<Rightarrow> {})"

definition framed :: "client_worker \<Rightarrow> client_session \<Rightarrow> client_worker \<Rightarrow> client_session \<Rightarrow> bool" where
  "framed w s w' s' \<longleftrightarrow>
     sentChunks w' = sentChunks w \<and> consumedChunks w' = consumedChunks w \<and> waiting s' \<subseteq> waiting s \<and>
     (able (mainPc s') \<longrightarrow> able (mainPc s)) \<and> (connAborted s \<longrightarrow> connAborted s')"

lemma waiting_collect:
  "waiting (collect_leftovers st ending retry s) = set (ackerChan s) \<union> set (pendingChunks s)"
  "\<not> able (mainPc (collect_leftovers st ending retry s))"
  "connAborted s \<Longrightarrow> connAborted (collect_leftovers st ending retry s)"
  by (cases st; cases ending; simp add: waiting_def collect_defs)+

lemma main_step_framed:
  assumes "main_step ev w s = Some (w', s')" and "\<not> connection_result (Main ev)"
  shows "framed w s w' s'"
proof (cases "mainPc s")
  case (AtLoop st)
  show ?thesis
  proof (cases st)
    case Recovery
    then show ?thesis using assms AtLoop
      by (cases ev) (auto simp: main_step_def framed_def waiting_def collect_defs split: if_splits list.splits)
  next
    case Normal
    then show ?thesis using assms AtLoop
      by (cases ev) (auto simp: main_step_def framed_def waiting_def collect_defs split: if_splits list.splits)
  qed
next
  case (QueueingForAck st c)
  then show ?thesis using assms
    by (cases ev; cases st) (auto simp: main_step_def framed_def waiting_def collect_defs split: if_splits)
next
  case (WaitSoftStop prev retry)
  then show ?thesis using assms
    by (cases ev) (auto simp: main_step_def framed_def waiting_def stop_acker_hard_def split: if_splits)
next
  case (WaitHardStop prev retry)
  then show ?thesis using assms
    by (cases ev) (auto simp: main_step_def framed_def waiting_def gather_leftovers_def Let_def split: if_splits)
qed (use assms in \<open>cases ev; simp add: main_step_def\<close>)+

lemma acker_step_framed:
  assumes "acker_step ev w s = Some (w', s')" and "\<not> connection_result (Acker ev)"
  shows "framed w s w' s'"
  using assms
  by (cases ev; cases "ackerPc s")
    (auto simp: acker_step_def framed_def waiting_def acker_end_def put_pending_def split: if_splits list.splits)

text \<open>The results of the connection.\<close>

lemma send_result_cases:
  assumes "main_step (SendResult ok) w s = Some (w', s')" and "chunk_in_hand w = Some c" and "workerPc w = InSession s"
  shows "if ok then sentChunks w' = sentChunks w @ [c] \<and> waiting s' = insert c (waiting s) \<and> able (mainPc s)
         else sentChunks w' = sentChunks w \<and> waiting s' = waiting s \<and> able (mainPc s) \<and> \<not> able (mainPc s') \<and> connAborted s'"
    and "consumedChunks w' = consumedChunks w" and "connAborted s \<longrightarrow> connAborted s'"
proof -
  obtain st where "mainPc s = Sending st c" using assms(2,3) by (auto simp: chunk_in_hand_def split: main_pc.splits)
  then have "send_result ok st c w s = Some (w', s')" and pc: "mainPc s = Sending st c" using assms(1) by (simp_all add: main_step_def)
  then show "if ok then sentChunks w' = sentChunks w @ [c] \<and> waiting s' = insert c (waiting s) \<and> able (mainPc s)
         else sentChunks w' = sentChunks w \<and> waiting s' = waiting s \<and> able (mainPc s) \<and> \<not> able (mainPc s') \<and> connAborted s'"
    and "consumedChunks w' = consumedChunks w" and "connAborted s \<longrightarrow> connAborted s'"
    by (auto simp: send_result_def waiting_collect split: if_splits) (auto simp: waiting_def)
qed

lemma read_ack_cases:
  assumes "acker_step (AckRead reply) w s = Some (w', s')" and "session_ok w s"
  shows "sentChunks w' = sentChunks w" and "waiting s' \<subseteq> waiting s" and "mainPc s' = mainPc s"
    and "connAborted s \<longrightarrow> connAborted s'"
    and "\<exists>cs. consumedChunks w' = consumedChunks w @ cs \<and>
      (\<forall>c\<in>set cs. c \<in> waiting s \<and> (reply = Some [] \<or> reply = Some (chunk_id c)))"
proof -
  obtain n where n: "ackerPc s = AckerWaitAck n" "read_ack reply n w s = Some (w', s')"
    using assms(1) by (cases "ackerPc s") (auto simp: acker_step_def)
  have p: "n \<in> set (pendingChunks s)" using assms(2) n(1) by (simp add: session_ok_def)
  have f: "find (\<lambda>d. chunk_id d = k) ps = Some d \<Longrightarrow> d \<in> set ps \<and> chunk_id d = k" for k ps d
    by (auto simp: find_Some_iff)
  show "sentChunks w' = sentChunks w" "waiting s' \<subseteq> waiting s" "mainPc s' = mainPc s" "connAborted s \<longrightarrow> connAborted s'"
    using n(2) by (auto simp: read_ack_def ack_chunk_def acker_end_def waiting_def delete_pending_def
        split: option.splits if_splits)
  show "\<exists>cs. consumedChunks w' = consumedChunks w @ cs \<and>
      (\<forall>c\<in>set cs. c \<in> waiting s \<and> (reply = Some [] \<or> reply = Some (chunk_id c)))"
    using n(2) p by (auto simp: read_ack_def ack_chunk_def waiting_def split: option.splits if_splits dest!: f)
qed

lemma ping_result_cases:
  assumes "main_step (PingResult ok) w s = Some (w', s')"
  shows "w' = w" and "waiting s' = waiting s" and "able (mainPc s)" and "able (mainPc s') \<longrightarrow> ok"
    and "connAborted s \<longrightarrow> connAborted s'"
proof -
  have "mainPc s = Pinging" "send_ping ok w s = Some (w', s')"
    using assms by (cases "mainPc s"; simp add: main_step_def split: stage.splits)+
  then show "w' = w" "waiting s' = waiting s" "able (mainPc s)" "able (mainPc s') \<longrightarrow> ok" "connAborted s \<longrightarrow> connAborted s'"
    by (auto simp: send_ping_def waiting_def collect_defs split: if_splits)
qed

section \<open>The contract of a connection\<close>

text \<open>
  \<open>whole k cs\<close>: the connection carries the chunks \<open>cs\<close> and nothing in part; \<open>partly k cs\<close>: it may carry
  a part of one more message at its end.
\<close>

locale connection_contract =
  fixes ops :: "('o, 'e, 'a, 'k) connection_ops"
    and whole :: "'k \<Rightarrow> log_chunk list \<Rightarrow> bool"
    and partly :: "'k \<Rightarrow> log_chunk list \<Rightarrow> bool"
    and isOpen :: "'k \<Rightarrow> bool"
  assumes open_whole: "opOpen ops env1 = Some k \<Longrightarrow> whole k []"
    and send_whole: "whole k cs \<Longrightarrow> opSend ops env2 c k = Some (k', True) \<Longrightarrow> whole k' (cs @ [c])"
    and send_cut: "whole k cs \<Longrightarrow> opSend ops env2 c k = Some (k', False) \<Longrightarrow> partly k' cs"
    and ping_whole: "whole k cs \<Longrightarrow> opPing ops env2 k = Some (k', True) \<Longrightarrow> whole k' cs"
    and ping_cut: "whole k cs \<Longrightarrow> opPing ops env2 k = Some (k', False) \<Longrightarrow> partly k' cs"
    and whole_cut: "whole k cs \<Longrightarrow> partly k cs"
    and close_cut: "partly k cs \<Longrightarrow> partly (opCloseConn ops k) cs"
    and close_whole: "whole k cs \<Longrightarrow> whole (opCloseConn ops k) cs"
    and closed: "\<not> isOpen (opCloseConn ops k)"
    and send_closed: "\<not> isOpen k \<Longrightarrow> opSend ops env2 c k = Some (k', ok) \<Longrightarrow> \<not> isOpen k'"
    and ping_closed: "\<not> isOpen k \<Longrightarrow> opPing ops env2 k = Some (k', ok) \<Longrightarrow> \<not> isOpen k'"

text \<open>
  How connections are linked to the client: each carries its chunks, which are all the chunks sent;
  a chunk consumed has been answered on a connection that carries it; the connection of a session can still be
  written to while the client is able to, and all others are closed.
\<close>

definition answered :: "('k \<times> bytes list) list \<Rightarrow> log_chunk list list \<Rightarrow> log_chunk \<Rightarrow> bool" where
  "answered ks css c \<longleftrightarrow>
     (\<exists>p\<in>set (zip ks css). c \<in> set (snd p) \<and> (chunk_id c \<in> set (snd (fst p)) \<or> [] \<in> set (snd (fst p))))"

definition carries :: "('k \<Rightarrow> log_chunk list \<Rightarrow> bool) \<Rightarrow> 'k connected \<Rightarrow> log_chunk list list \<Rightarrow> bool" where
  "carries partly st css \<longleftrightarrow>
     list_all2 (\<lambda>p cs. partly (fst p) cs) (conns st) css \<and> concat css = sentChunks (client st) \<and>
     (\<forall>c\<in>set (consumedChunks (client st)). answered (conns st) css c)"

definition session_link ::
  "('k \<Rightarrow> log_chunk list \<Rightarrow> bool) \<Rightarrow> ('k \<Rightarrow> bool) \<Rightarrow> client_session \<Rightarrow> 'k \<Rightarrow> log_chunk list \<Rightarrow> bool" where
  "session_link whole isOpen s k cs \<longleftrightarrow>
     (able (mainPc s) \<longrightarrow> whole k cs) \<and> waiting s \<subseteq> set cs \<and> (connAborted s \<longrightarrow> \<not> isOpen k)"

definition linked ::
  "('k \<Rightarrow> log_chunk list \<Rightarrow> bool) \<Rightarrow> ('k \<Rightarrow> log_chunk list \<Rightarrow> bool) \<Rightarrow> ('k \<Rightarrow> bool) \<Rightarrow> 'k connected \<Rightarrow> bool" where
  "linked whole partly isOpen st \<longleftrightarrow>
     (case workerPc (client st) of
        InSession s \<Rightarrow>
          (\<exists>ks k a pre cs. conns st = ks @ [(k, a)] \<and> carries partly st (pre @ [cs]) \<and> session_link whole isOpen s k cs \<and>
             (\<forall>p\<in>set ks. \<not> isOpen (fst p)))
      | _ \<Rightarrow> (\<exists>css. carries partly st css) \<and> (\<forall>p\<in>set (conns st). \<not> isOpen (fst p)))"

lemma answered_nth:
  assumes "length ks = length css"
  shows "answered ks css c \<longleftrightarrow>
    (\<exists>i<length ks. c \<in> set (css ! i) \<and> (chunk_id c \<in> set (snd (ks ! i)) \<or> [] \<in> set (snd (ks ! i))))"
proof -
  have "set (zip ks css) = (\<lambda>i. (ks ! i, css ! i)) ` {..<length ks}" using assms by (auto simp: set_zip)
  then show ?thesis by (auto simp: answered_def)
qed

lemma answered_mono:
  assumes "answered (ks @ [(k, a)]) (pre @ [cs]) c" and "length ks = length pre" and "set a \<subseteq> set a'" and "set cs \<subseteq> set cs'"
  shows "answered (ks @ [(k', a')]) (pre @ [cs']) c"
  using assms by (auto simp: answered_def)

lemma on_last_append [simp]: "on_last f (ks @ [x]) = ks @ [f x]"
  by (simp add: on_last_def)

lemma carries_session:
  assumes "carries partly st (pre @ [cs])" and "conns st = ks @ [(k, a)]"
    and "client st' = w'" and "conns st' = ks @ [(k', a')]"
    and "sentChunks w' = sentChunks (client st) @ d" and "consumedChunks w' = consumedChunks (client st) @ e"
    and "\<forall>c\<in>set e. c \<in> set (cs @ d) \<and> (chunk_id c \<in> set a' \<or> [] \<in> set a')" and "set a \<subseteq> set a'"
    and "partly k' (cs @ d)"
  shows "carries partly st' (pre @ [cs @ d])"
proof -
  have len: "length ks = length pre"
    using assms(1,2) list_all2_lengthD[of _ "conns st" "pre @ [cs]"] by (auto simp: carries_def)
  have "answered (ks @ [(k', a')]) (pre @ [cs @ d]) c" if "c \<in> set (consumedChunks w')" for c
  proof (cases "c \<in> set e")
    case True
    then show ?thesis using assms(7) len by (auto simp: answered_def)
  next
    case False
    then have "answered (ks @ [(k, a)]) (pre @ [cs]) c" using that assms(1,2,6) by (auto simp: carries_def)
    then show ?thesis by (rule answered_mono) (use len assms(8) in auto)
  qed
  then show ?thesis using assms len by (auto simp: carries_def list_all2_append)
qed

lemma worker_step_leaves:
  assumes "worker_step e w = Some w'" and "e \<noteq> Connected"
  obtains pc where "w' = w\<lparr>workerPc := pc\<rparr> \<or> (\<exists>cs. w' = w\<lparr>leftChunks := cs, workerPc := pc\<rparr>) \<or>
    (\<exists>n. w' = w\<lparr>finishedCalls := n, workerPc := pc\<rparr>)" "\<forall>s. pc \<noteq> InSession s"
proof -
  have "\<exists>pc. (w' = w\<lparr>workerPc := pc\<rparr> \<or> (\<exists>cs. w' = w\<lparr>leftChunks := cs, workerPc := pc\<rparr>) \<or>
    (\<exists>n. w' = w\<lparr>finishedCalls := n, workerPc := pc\<rparr>)) \<and> (\<forall>s. pc \<noteq> InSession s)"
  proof (cases "workerPc w")
    case (InSession s)
    then show ?thesis using assms
      by (auto simp: worker_step_def next_attempt_def split: worker_event.splits main_pc.splits reconnect_policy.splits)
  next
    case (Saving l)
    then show ?thesis using assms by (cases e; cases l) (auto simp: worker_step_def)
  qed (use assms in \<open>cases e; auto simp: worker_step_def next_attempt_def split: if_splits\<close>)+
  then show thesis using that by blast
qed

context connection_contract
begin

text \<open>A step within a session: what is new on the connection, and what is reported.\<close>

lemma session_advance:
  assumes "advance ops ev f st = Some st'" and "workerPc (client st) = InSession s" and "workerPc (client st') = InSession s'"
    and "conns st = ks @ [(k, a)]" and "carries partly st (pre @ [cs])" and "\<forall>p\<in>set ks. \<not> isOpen (fst p)"
    and "f (ks @ [(k, a)]) = ks @ [(k', a')]"
    and "sentChunks (client st') = sentChunks (client st) @ d" and "consumedChunks (client st') = consumedChunks (client st) @ e"
    and "\<forall>c\<in>set e. c \<in> set (cs @ d) \<and> (chunk_id c \<in> set a' \<or> [] \<in> set a')" and "set a \<subseteq> set a'"
    and "partly k' (cs @ d)" and "able (mainPc s') \<longrightarrow> whole k' (cs @ d)" and "waiting s' \<subseteq> set (cs @ d)"
    and "connAborted s \<longrightarrow> connAborted s'" and "connAborted s \<longrightarrow> \<not> isOpen k'"
  shows "linked whole partly isOpen st'"
proof -
  obtain k'' where k: "conns st' = ks @ [(k'', a')]" "partly k'' (cs @ d)" "able (mainPc s') \<longrightarrow> whole k'' (cs @ d)"
    "connAborted s' \<longrightarrow> \<not> isOpen k''"
  proof (cases "connAborted s' \<and> \<not> connAborted s")
    case True
    then have "conns st' = ks @ [(opCloseConn ops k', a')]"
      using assms(1,2,3,4,7) by (auto simp: advance_def session_aborted_def)
    then show ?thesis using that[of "opCloseConn ops k'"] assms(12,13) close_cut close_whole closed by blast
  next
    case False
    then have "conns st' = ks @ [(k', a')]"
      using assms(1,2,3,4,7) by (auto simp: advance_def session_aborted_def)
    then show ?thesis using that[of k'] assms(12,13,16) False by blast
  qed
  have "carries partly st' (pre @ [cs @ d])"
    by (rule carries_session[OF assms(5,4) refl k(1) assms(8-11) k(2)])
  moreover have "session_link whole isOpen s' k'' (cs @ d)" using k assms(14) by (simp add: session_link_def)
  ultimately have "\<exists>ks k a pre cs. conns st' = ks @ [(k, a)] \<and> carries partly st' (pre @ [cs]) \<and> session_link whole isOpen s' k cs \<and>
      (\<forall>p\<in>set ks. \<not> isOpen (fst p))"
    using k(1) assms(6) by (intro exI conjI)
  then show ?thesis using assms(3) by (simp add: linked_def)
qed

lemma linked_session:
  assumes "linked whole partly isOpen st" and "workerPc (client st) = InSession s"
  obtains ks k a pre cs where "conns st = ks @ [(k, a)]" "carries partly st (pre @ [cs])" "\<forall>p\<in>set ks. \<not> isOpen (fst p)"
    "able (mainPc s) \<longrightarrow> whole k cs" "waiting s \<subseteq> set cs" "connAborted s \<longrightarrow> \<not> isOpen k" "partly k cs"
proof -
  obtain ks k a pre cs where l: "conns st = ks @ [(k, a)]" "carries partly st (pre @ [cs])" "session_link whole isOpen s k cs"
    "\<forall>p\<in>set ks. \<not> isOpen (fst p)"
    using assms by (simp add: linked_def) (elim exE conjE, rule that)
  have "length ks = length pre" using l(1,2) list_all2_lengthD[of _ "conns st" "pre @ [cs]"] by (auto simp: carries_def)
  then have "partly k cs" using l(1,2) by (simp add: carries_def list_all2_append)
  then show thesis using l that by (simp add: session_link_def)
qed

lemma framed_advance:
  assumes "advance ops ev (\<lambda>ks. ks) st = Some st'" and "linked whole partly isOpen st"
    and "workerPc (client st) = InSession s" and "workerPc (client st') = InSession s'"
    and "framed (client st) s (client st') s'"
  shows "linked whole partly isOpen st'"
proof -
  obtain ks k a pre cs where l: "conns st = ks @ [(k, a)]" "carries partly st (pre @ [cs])" "\<forall>p\<in>set ks. \<not> isOpen (fst p)"
    "able (mainPc s) \<longrightarrow> whole k cs" "waiting s \<subseteq> set cs" "connAborted s \<longrightarrow> \<not> isOpen k" "partly k cs"
    by (rule linked_session[OF assms(2,3)])
  show ?thesis
    by (rule session_advance[OF assms(1,3,4) l(1-3), where k' = k and a' = a and d = "[]" and e = "[]"])
      (use assms(5) l in \<open>auto simp: framed_def\<close>)
qed

text \<open>A step that leaves the session, or happens outside of one.\<close>

lemma outside_linked:
  assumes "advance ops ev (\<lambda>ks. ks) st = Some st'" and "linked whole partly isOpen st"
    and "\<forall>s'. workerPc (client st') \<noteq> InSession s'"
    and "sentChunks (client st') = sentChunks (client st)" and "consumedChunks (client st') = consumedChunks (client st)"
    and "\<forall>s. workerPc (client st) = InSession s \<longrightarrow> connAborted s"
  shows "linked whole partly isOpen st'"
proof -
  have c: "conns st' = conns st"
    using assms(1,3) by (cases "workerPc (client st')") (auto simp: advance_def session_aborted_def)
  obtain css where css: "carries partly st css" and o: "\<forall>p\<in>set (conns st). \<not> isOpen (fst p)"
  proof (cases "workerPc (client st)")
    case (InSession s)
    obtain ks k a pre cs where l: "conns st = ks @ [(k, a)]" "carries partly st (pre @ [cs])" "\<forall>p\<in>set ks. \<not> isOpen (fst p)"
      "able (mainPc s) \<longrightarrow> whole k cs" "waiting s \<subseteq> set cs" "connAborted s \<longrightarrow> \<not> isOpen k" "partly k cs"
      by (rule linked_session[OF assms(2) InSession])
    then show ?thesis using that[of "pre @ [cs]"] assms(6) InSession by auto
  qed (use assms(2) that in \<open>auto simp: linked_def\<close>)
  have "carries partly st' css" using css c assms(4,5) by (simp add: carries_def)
  then show ?thesis using assms(3) o c by (cases "workerPc (client st')") (auto simp: linked_def)
qed

lemma opens_linked:
  assumes "connected_step ops (Opens env) st = Some st'" and "linked whole partly isOpen st"
  shows "linked whole partly isOpen st'"
proof (cases "opOpen ops env")
  case None
  then have a: "advance ops (Worker ConnectFailed) (\<lambda>ks. ks) st = Some st'" using assms(1) by simp
  have "worker_step ConnectFailed (client st) = Some (client st')" using advance_client[OF a] by simp
  then obtain l where l: "workerPc (client st) = Connecting l" "client st' = (client st)\<lparr>workerPc := RetryWait l\<rparr>"
    by (auto simp: worker_step_def next_attempt_def split: worker_pc.splits main_pc.splits)
  show ?thesis by (rule outside_linked[OF a assms(2)]) (simp_all add: l)
next
  case (Some k)
  then have a: "advance ops (Worker Connected) (\<lambda>ks. ks @ [(k, [])]) st = Some st'" using assms(1) by simp
  have "worker_step Connected (client st) = Some (client st')" using advance_client[OF a] by simp
  then obtain l where l: "workerPc (client st) = Connecting l" "client st' = (client st)\<lparr>workerPc := InSession (new_client_session l)\<rparr>"
    by (auto simp: worker_step_def split: worker_pc.splits main_pc.splits)
  have c: "conns st' = conns st @ [(k, [])]"
    using a l by (auto simp: advance_def session_aborted_def new_client_session_def)
  obtain css where css: "carries partly st css" and o: "\<forall>p\<in>set (conns st). \<not> isOpen (fst p)"
    using assms(2) l(1) by (auto simp: linked_def)
  have len: "length (conns st) = length css" using css list_all2_lengthD by (auto simp: carries_def)
  have "carries partly st' (css @ [[]])"
    using css whole_cut[OF open_whole[OF Some]] len
    by (auto simp: carries_def c l(2) list_all2_append answered_def)
  moreover have "session_link whole isOpen (new_client_session l) k []"
    using open_whole[OF Some] by (simp add: session_link_def new_client_session_def waiting_def)
  ultimately have "\<exists>ks k a pre cs. conns st' = ks @ [(k, a)] \<and> carries partly st' (pre @ [cs]) \<and>
      session_link whole isOpen (new_client_session l) k cs \<and> (\<forall>p\<in>set ks. \<not> isOpen (fst p))"
    using c o by (intro exI conjI)
  then show ?thesis by (simp add: linked_def l(2))
qed

lemma in_session_step:
  assumes "in_session f w = Some w'"
  obtains s w1 s' where "workerPc w = InSession s" "f w s = Some (w1, s')" "w' = w1\<lparr>workerPc := InSession s'\<rparr>"
  using assms by (auto simp: in_session_def split: worker_pc.splits)

lemma sends_linked:
  assumes "connected_step ops (Sends env) st = Some st'" and "linked whole partly isOpen st"
  shows "linked whole partly isOpen st'"
proof -
  obtain c k' ok where c: "chunk_in_hand (client st) = Some c" "opSend ops env c (fst (last (conns st))) = Some (k', ok)"
    and a: "advance ops (Main (SendResult ok)) (on_last (\<lambda>(_, answers). (k', answers))) st = Some st'"
    using assms(1) by (auto simp: Option.bind_eq_Some_conv)
  have "in_session (main_step (SendResult ok)) (client st) = Some (client st')" using advance_client[OF a] by simp
  then obtain s w1 s' where s: "workerPc (client st) = InSession s" "main_step (SendResult ok) (client st) s = Some (w1, s')"
    "client st' = w1\<lparr>workerPc := InSession s'\<rparr>" by (rule in_session_step)
  have s': "workerPc (client st') = InSession s'" by (simp add: s(3))
  note step = send_result_cases[OF s(2) c(1) s(1)]
  obtain ks k a pre cs where l: "conns st = ks @ [(k, a)]" "carries partly st (pre @ [cs])" "\<forall>p\<in>set ks. \<not> isOpen (fst p)"
    "able (mainPc s) \<longrightarrow> whole k cs" "waiting s \<subseteq> set cs" "connAborted s \<longrightarrow> \<not> isOpen k" "partly k cs"
    by (rule linked_session[OF assms(2) s(1)])
  have k: "whole k cs" "opSend ops env c k = Some (k', ok)" using step(1) l(1,4) c(2) by (auto split: if_splits)
  have closed_k: "connAborted s \<longrightarrow> \<not> isOpen k'" using l(6) send_closed[OF _ k(2)] by blast
  show ?thesis
  proof (cases ok)
    case True
    then have w: "whole k' (cs @ [c])" using send_whole[OF k(1)] k(2) by simp
    show ?thesis
      by (rule session_advance[OF a s(1) s' l(1-3), where k' = k' and a' = a and d = "[c]" and e = "[]"])
        (use True s(3) step l w whole_cut[OF w] closed_k in auto)
  next
    case False
    then have w: "partly k' cs" using send_cut[OF k(1)] k(2) by simp
    show ?thesis
      by (rule session_advance[OF a s(1) s' l(1-3), where k' = k' and a' = a and d = "[]" and e = "[]"])
        (use False s(3) step l w closed_k in auto)
  qed
qed

lemma pings_linked:
  assumes "connected_step ops (Pings env) st = Some st'" and "linked whole partly isOpen st"
  shows "linked whole partly isOpen st'"
proof -
  obtain k' ok where c: "opPing ops env (fst (last (conns st))) = Some (k', ok)"
    and a: "advance ops (Main (PingResult ok)) (on_last (\<lambda>(_, answers). (k', answers))) st = Some st'"
    using assms(1) by (auto simp: Option.bind_eq_Some_conv)
  have "in_session (main_step (PingResult ok)) (client st) = Some (client st')" using advance_client[OF a] by simp
  then obtain s w1 s' where s: "workerPc (client st) = InSession s" "main_step (PingResult ok) (client st) s = Some (w1, s')"
    "client st' = w1\<lparr>workerPc := InSession s'\<rparr>" by (rule in_session_step)
  have s': "workerPc (client st') = InSession s'" by (simp add: s(3))
  note step = ping_result_cases[OF s(2)]
  obtain ks k a pre cs where l: "conns st = ks @ [(k, a)]" "carries partly st (pre @ [cs])" "\<forall>p\<in>set ks. \<not> isOpen (fst p)"
    "able (mainPc s) \<longrightarrow> whole k cs" "waiting s \<subseteq> set cs" "connAborted s \<longrightarrow> \<not> isOpen k" "partly k cs"
    by (rule linked_session[OF assms(2) s(1)])
  have k: "whole k cs" "opPing ops env k = Some (k', ok)" using step(3) l(1,4) c by auto
  have closed_k: "connAborted s \<longrightarrow> \<not> isOpen k'" using l(6) ping_closed[OF _ k(2)] by blast
  have w: "partly k' cs" "ok \<longrightarrow> whole k' cs"
    using ping_whole[OF k(1)] ping_cut[OF k(1)] k(2) whole_cut by (cases ok; simp)+
  show ?thesis
    by (rule session_advance[OF a s(1) s' l(1-3), where k' = k' and a' = a and d = "[]" and e = "[]"])
      (use s(3) step l w closed_k in auto)
qed

lemma reads_linked:
  assumes "connected_step ops (ReadsAck env) st = Some st'" and "linked whole partly isOpen st" and "client_inv (client st)"
  shows "linked whole partly isOpen st'"
proof -
  define reply where "reply = opReadAck ops env (fst (last (conns st)))"
  have a: "advance ops (Acker (AckRead reply))
      (on_last (\<lambda>(k, answers). (k, answers @ (case reply of None \<Rightarrow> [] | Some i \<Rightarrow> [i])))) st = Some st'"
    using assms(1) by (simp add: reply_def Let_def)
  have "in_session (acker_step (AckRead reply)) (client st) = Some (client st')" using advance_client[OF a] by simp
  then obtain s w1 s' where s: "workerPc (client st) = InSession s" "acker_step (AckRead reply) (client st) s = Some (w1, s')"
    "client st' = w1\<lparr>workerPc := InSession s'\<rparr>" by (rule in_session_step)
  have s': "workerPc (client st') = InSession s'" by (simp add: s(3))
  have "session_ok (client st) s" using assms(3) s(1) by (simp add: client_inv_def)
  note step = read_ack_cases[OF s(2) this]
  obtain e where e: "consumedChunks w1 = consumedChunks (client st) @ e"
    "\<forall>c\<in>set e. c \<in> waiting s \<and> (reply = Some [] \<or> reply = Some (chunk_id c))"
    using step(5) by blast
  obtain ks k a pre cs where l: "conns st = ks @ [(k, a)]" "carries partly st (pre @ [cs])" "\<forall>p\<in>set ks. \<not> isOpen (fst p)"
    "able (mainPc s) \<longrightarrow> whole k cs" "waiting s \<subseteq> set cs" "connAborted s \<longrightarrow> \<not> isOpen k" "partly k cs"
    by (rule linked_session[OF assms(2) s(1)])
  show ?thesis
    by (rule session_advance[OF a s(1) s' l(1-3), where k' = k and a' = "a @ (case reply of None \<Rightarrow> [] | Some i \<Rightarrow> [i])"
          and d = "[]" and e = e])
      (use s(3) step(1-4) e l in auto)
qed

lemma others_linked:
  assumes "connected_step ops (Other ev) st = Some st'" and "linked whole partly isOpen st" and "client_inv (client st)"
  shows "linked whole partly isOpen st'"
proof -
  have n: "\<not> connection_result ev" and a: "advance ops ev (\<lambda>ks. ks) st = Some st'" using assms(1) by (auto split: if_splits)
  note c = advance_client[OF a]
  have inside: ?thesis
    if i: "in_session f (client st) = Some (client st')"
      and fr: "\<And>s w' s'. f (client st) s = Some (w', s') \<Longrightarrow> framed (client st) s w' s'" for f
  proof -
    obtain s w1 s' where s: "workerPc (client st) = InSession s" "f (client st) s = Some (w1, s')"
      "client st' = w1\<lparr>workerPc := InSession s'\<rparr>" by (rule in_session_step[OF i])
    have "framed (client st) s (client st') s'" using fr[OF s(2)] by (simp add: framed_def s(3))
    then show ?thesis using framed_advance[OF a assms(2) s(1)] s(3) by simp
  qed
  have still: ?thesis
    if "workerPc (client st') = workerPc (client st)" "sentChunks (client st') = sentChunks (client st)"
      "consumedChunks (client st') = consumedChunks (client st)"
  proof (cases "workerPc (client st)")
    case (InSession s)
    then show ?thesis using that framed_advance[OF a assms(2), of s s] by (simp add: framed_def)
  qed (use that outside_linked[OF a assms(2)] in simp_all)
  show ?thesis
  proof (cases ev)
    case (Main e)
    show ?thesis by (rule inside[of "main_step e"]) (use c n Main main_step_framed in auto)
  next
    case (Acker e)
    show ?thesis by (rule inside[of "acker_step e"]) (use c n Acker acker_step_framed in auto)
  next
    case AbortOnStop
    show ?thesis
      by (rule inside[of abort_session]) (use c AbortOnStop in \<open>auto simp: abort_session_def framed_def waiting_def split: if_splits\<close>)
  next
    case (Worker e)
    have w: "worker_step e (client st) = Some (client st')" using c Worker by simp
    have "connAborted s" if pc: "workerPc (client st) = InSession s" for s
    proof -
      have "session_ok (client st) s" using assms(3) pc by (simp add: client_inv_def)
      moreover obtain l r where "mainPc s = SessionDone l r"
        using w pc by (auto simp: worker_step_def split: worker_event.splits main_pc.splits)
      ultimately show ?thesis by (simp add: session_ok_def)
    qed
    moreover obtain pc where "client st' = (client st)\<lparr>workerPc := pc\<rparr> \<or>
        (\<exists>cs. client st' = (client st)\<lparr>leftChunks := cs, workerPc := pc\<rparr>) \<or>
        (\<exists>n. client st' = (client st)\<lparr>finishedCalls := n, workerPc := pc\<rparr>)" "\<forall>s. pc \<noteq> InSession s"
      by (rule worker_step_leaves[OF w]) (use n Worker in auto)
    ultimately show ?thesis by (intro outside_linked[OF a assms(2)]) auto
  next
    case (Feed chunk)
    then have "client st' = (client st)\<lparr>inputQueue := inputQueue (client st) @ [chunk]\<rparr>" using c by (auto split: if_splits)
    then show ?thesis by (intro still) simp_all
  next
    case CloseInput
    then have "client st' = (client st)\<lparr>inputChannelClosed := True\<rparr>" using c by (auto split: if_splits)
    then show ?thesis by (intro still) simp_all
  next
    case StopRequest
    then have "client st' = (client st)\<lparr>inputClosed := True\<rparr>" using c by (auto split: if_splits)
    then show ?thesis by (intro still) simp_all
  qed
qed

lemma reachable_linked: "connected_reachable ops duration st \<Longrightarrow> linked whole partly isOpen st"
proof (induction rule: connected_reachable.induct)
  case start
  have "carries partly (new_connected duration) []" by (simp add: carries_def new_connected_def new_client_worker_def)
  then show ?case by (auto simp: linked_def new_connected_def new_client_worker_def)
next
  case (step st ev st')
  have i: "client_inv (client st)" using client_reachable_inv[OF connected_client[OF step.hyps(1)]] .
  show ?case
  proof (cases ev)
    case (Opens env)
    then show ?thesis using opens_linked step by blast
  next
    case (Sends env)
    then show ?thesis using sends_linked step by blast
  next
    case (Pings env)
    then show ?thesis using pings_linked step by blast
  next
    case (ReadsAck env)
    then show ?thesis using reads_linked step i by blast
  next
    case (Other e)
    then show ?thesis using others_linked step i by blast
  qed
qed

text \<open>What a client can rely on, whatever happens.\<close>

lemma connections_carry:
  assumes "connected_reachable ops duration st"
  shows "\<exists>css. carries partly st css \<and> ((\<forall>s. workerPc (client st) \<noteq> InSession s) \<longrightarrow> (\<forall>p\<in>set (conns st). \<not> isOpen (fst p)))"
proof (cases "workerPc (client st)")
  case (InSession s)
  then show ?thesis using linked_session[OF reachable_linked[OF assms] InSession] by (metis worker_pc.inject(2))
qed (use reachable_linked[OF assms] in \<open>auto simp: linked_def\<close>)

end

section \<open>Forward connections keep the contract\<close>

datatype message = ChunkMessage log_chunk | PingMessage

fun message_bytes :: "bytes \<Rightarrow> message \<Rightarrow> bytes" where
  "message_bytes ping (ChunkMessage c) = chunk_payload c"
| "message_bytes ping PingMessage = ping"

definition message_chunks :: "message list \<Rightarrow> log_chunk list" where
  "message_chunks ms = concat (map (\<lambda>m. case m of ChunkMessage c \<Rightarrow> [c] | PingMessage \<Rightarrow> []) ms)"

lemma message_chunks_simps [simp]:
  "message_chunks [] = []" "message_chunks (ms @ ms') = message_chunks ms @ message_chunks ms'"
  "message_chunks [ChunkMessage c] = [c]" "message_chunks [PingMessage] = []"
  by (simp_all add: message_chunks_def)

lemma message_chunks_iff: "c \<in> set (message_chunks ms) \<longleftrightarrow> ChunkMessage c \<in> set ms"
proof (induction ms)
  case (Cons m ms)
  then show ?case by (cases m) (auto simp: message_chunks_def)
qed simp

definition ff_whole :: "bytes \<Rightarrow> forward_connection \<Rightarrow> log_chunk list \<Rightarrow> bool" where
  "ff_whole ping k cs \<longleftrightarrow> (\<exists>ms. wireOut k = concat (map (message_bytes ping) ms) \<and> message_chunks ms = cs)"

definition ff_partly :: "bytes \<Rightarrow> forward_connection \<Rightarrow> log_chunk list \<Rightarrow> bool" where
  "ff_partly ping k cs \<longleftrightarrow>
     (\<exists>ms n m. wireOut k = concat (map (message_bytes ping) ms) @ take n (message_bytes ping m) \<and> message_chunks ms = cs)"

lemma write_all_out:
  "write_all ws data = (out, r) \<Longrightarrow> (\<exists>n. out = take n data) \<and> (r = Some True \<longrightarrow> out = data)"
proof (induction ws data arbitrary: out rule: write_all.induct)
  case (2 n failed ws data)
  show ?case
  proof (cases "failed \<or> drop n data = []")
    case True
    then have "out = take n data" "r = Some True \<longrightarrow> drop n data = []" using "2.prems" by (auto split: if_splits)
    then show ?thesis by auto
  next
    case False
    then obtain rest where rest: "write_all ws (drop n data) = (rest, r)" "out = take n data @ rest"
      using "2.prems" by (auto split: prod.splits)
    have "(\<exists>m. rest = take m (drop n data)) \<and> (r = Some True \<longrightarrow> rest = drop n data)" by (rule "2.IH") (use False rest in auto)
    then obtain m where m: "rest = take m (drop n data)" "r = Some True \<longrightarrow> rest = drop n data" by blast
    have "out = take (n + m) data" using rest(2) m(1) by (simp add: take_add)
    moreover have "r = Some True \<longrightarrow> out = data" using rest(2) m(2) by auto
    ultimately show ?thesis by blast
  qed
qed simp

lemma send_bytes_out:
  assumes "send_bytes env data conn = Some (conn', ok)"
  shows "\<exists>n. conn' = conn\<lparr>wireOut := wireOut conn @ take n data\<rparr> \<and> (ok \<longrightarrow> take n data = data)"
proof (cases "fst env")
  case True
  then obtain out where "write_all (snd env) data = (out, Some ok)" "conn' = conn\<lparr>wireOut := wireOut conn @ out\<rparr>"
    using assms by (auto simp: send_bytes_def split: prod.splits option.splits)
  then show ?thesis using write_all_out[of "snd env" data out "Some ok"] by auto
next
  case False
  then have "conn' = conn" "\<not> ok" using assms by (auto simp: send_bytes_def split: prod.splits)
  then show ?thesis by (intro exI[of _ 0]) simp
qed

lemma ff_send_message:
  assumes "ff_whole ping k cs" and "send_bytes env (message_bytes ping m) k = Some (k', ok)"
  shows "ok \<Longrightarrow> ff_whole ping k' (cs @ message_chunks [m])" and "ff_partly ping k' cs" and "sockOpen k' = sockOpen k"
proof -
  obtain ms where ms: "wireOut k = concat (map (message_bytes ping) ms)" "message_chunks ms = cs"
    using assms(1) by (auto simp: ff_whole_def)
  obtain n where n: "k' = k\<lparr>wireOut := wireOut k @ take n (message_bytes ping m)\<rparr>" "ok \<longrightarrow> take n (message_bytes ping m) = message_bytes ping m"
    using send_bytes_out[OF assms(2)] by blast
  show "ff_whole ping k' (cs @ message_chunks [m])" if ok
    unfolding ff_whole_def using ms n that by (intro exI[of _ "ms @ [m]"]) simp
  show "ff_partly ping k' cs" unfolding ff_partly_def using ms n by (intro exI[of _ ms] exI[of _ n] exI[of _ m]) simp
  show "sockOpen k' = sockOpen k" by (simp add: n)
qed

lemma ff_whole_partly: "ff_whole ping k cs \<Longrightarrow> ff_partly ping k cs"
  unfolding ff_whole_def ff_partly_def by (metis append_Nil2 take0)

lemma send_bytes_closed: "send_bytes env data k = Some (k', ok) \<Longrightarrow> sockOpen k' = sockOpen k"
  using send_bytes_out by fastforce

interpretation fluentd: connection_contract "fluentd_connections secret ping" "ff_whole ping" "ff_partly ping" sockOpen
  for secret ping
proof unfold_locales
  fix env1 k assume "opOpen (fluentd_connections secret ping) env1 = Some k"
  then have "wireOut k = []"
    by (auto simp: fluentd_connections_def open_forward_connection_def Let_def split: prod.splits option.splits if_splits handshake_result.splits)
  then show "ff_whole ping k []" by (auto simp: ff_whole_def intro: exI[of _ "[]"])
next
  fix k cs env2 c k'
  assume w: "ff_whole ping k cs"
  show "opSend (fluentd_connections secret ping) env2 c k = Some (k', True) \<Longrightarrow> ff_whole ping k' (cs @ [c])"
    "opSend (fluentd_connections secret ping) env2 c k = Some (k', False) \<Longrightarrow> ff_partly ping k' cs"
    using ff_send_message(1)[OF w, of env2 "ChunkMessage c" k' True] ff_send_message(2)[OF w, of env2 "ChunkMessage c" k' False]
    by (simp_all add: fluentd_connections_def ff_send_chunk_def)
  show "opPing (fluentd_connections secret ping) env2 k = Some (k', True) \<Longrightarrow> ff_whole ping k' cs"
    "opPing (fluentd_connections secret ping) env2 k = Some (k', False) \<Longrightarrow> ff_partly ping k' cs"
    using ff_send_message(1)[OF w, of env2 PingMessage k' True] ff_send_message(2)[OF w, of env2 PingMessage k' False]
    by (simp_all add: fluentd_connections_def ff_send_ping_def)
next
  fix k cs
  show "ff_partly ping k cs \<Longrightarrow> ff_partly ping (opCloseConn (fluentd_connections secret ping) k) cs"
    "ff_whole ping k cs \<Longrightarrow> ff_whole ping (opCloseConn (fluentd_connections secret ping) k) cs"
    by (simp_all add: ff_whole_def ff_partly_def fluentd_connections_def close_connection_def)
qed (auto simp: fluentd_connections_def close_connection_def ff_send_chunk_def ff_send_ping_def ff_whole_partly dest: send_bytes_closed)

section \<open>Datadog connections keep the contract\<close>

definition dd_accepted :: "datadog_connection \<Rightarrow> log_chunk list \<Rightarrow> bool" where
  "dd_accepted k cs \<longleftrightarrow> map fst (filter (\<lambda>(body, answer). dd_answer_ok answer) (requestsMade k)) = map chunk_payload cs"

interpretation datadog: connection_contract "datadog_connections \<lparr>requestHeaders = headers, requestsMade = []\<rparr>"
  dd_accepted dd_accepted "\<lambda>_. False" for headers
  by unfold_locales (auto simp: datadog_connections_def dd_accepted_def dd_send_chunk_def dd_send_ping_def)

section \<open>Properties\<close>

text \<open>The chunks consumed, each found on a connection that answered.\<close>

lemma fluentd_consumed:
  assumes "connected_reachable (fluentd_connections secret ping) duration st" and "c \<in> set (consumedChunks (client st))"
  shows "\<exists>p\<in>set (conns st). (\<exists>u v. wireOut (fst p) = u @ chunk_payload c @ v) \<and> (chunk_id c \<in> set (snd p) \<or> [] \<in> set (snd p))"
proof -
  obtain css where cs: "carries (ff_partly ping) st css" using fluentd.connections_carry[OF assms(1)] by blast
  have len: "length (conns st) = length css" using cs list_all2_lengthD by (auto simp: carries_def)
  obtain i where i: "i < length css" "c \<in> set (css ! i)" "chunk_id c \<in> set (snd (conns st ! i)) \<or> [] \<in> set (snd (conns st ! i))"
    using cs assms(2) len by (auto simp: carries_def answered_nth[OF len])
  have "ff_partly ping (fst (conns st ! i)) (css ! i)" using cs i(1) by (auto simp: carries_def list_all2_conv_all_nth)
  then obtain ms part where ms: "wireOut (fst (conns st ! i)) = concat (map (message_bytes ping) ms) @ part" "message_chunks ms = css ! i"
    by (auto simp: ff_partly_def)
  then obtain us vs where "ms = us @ ChunkMessage c # vs"
    using i(2) message_chunks_iff by (metis split_list)
  then have "wireOut (fst (conns st ! i)) =
      concat (map (message_bytes ping) us) @ chunk_payload c @ concat (map (message_bytes ping) vs) @ part"
    using ms(1) by simp
  moreover have "conns st ! i \<in> set (conns st)" using i(1) len by simp
  ultimately show ?thesis using i(3) by blast
qed


definition sample_connected :: "(bool \<times> handshake_result, bool \<times> (nat \<times> bool) list, bool \<times> bytes option) connected_event list" where
  "sample_connected =
     [Other (Feed (sample_chunk ''a'')), Opens (True, LoginRejected ''no''), Other (Worker RetryTimeout), Opens (True, LoginAccepted),
      Other (Main NoLeftover), Other (Main InputTaken), Sends (True, [(0, False), (1, False)]), Other (Main Queued),
      Other (Acker ChunkReceived), Other (Main PingTime), Pings (True, [(2, True)]), ReadsAck (True, Some ''a''),
      Other (Acker AbortSeen), Other (Main HardStopped), Other (Worker SessionEnd)]"

lemma sample_connected_run:
  "map_option (\<lambda>st. (conns st, consumedChunks (client st)))
     (connected_run (fluentd_connections ''s'' ''PING'') sample_connected (new_connected 0)) =
   Some ([(\<lparr>wireOut = ''aPI'', sockOpen = False\<rparr>, [''a''])], [sample_chunk ''a''])"
  by code_simp


text \<open>
  C23: What counts as acknowledged by Datadog. Whatever the requests return and however the two goroutines interleave: the
  requests answered with a status below 300 have, in order, the data of the chunks sent as their bodies; and
  a chunk is reported as consumed only if a request with its data was answered so. The client aborting its
  connection, which closes nothing here, makes no difference.
\<close>

theorem datadog_acknowledged:
  assumes "new_datadog_client True apiKey = Inr worker" and "connected_reachable (datadog_connections worker) 0 st"
  shows "map fst (filter (\<lambda>(body, answer). dd_answer_ok answer) (concat (map (\<lambda>p. requestsMade (fst p)) (conns st)))) =
      map chunk_payload (sentChunks (client st)) \<and>
    (\<forall>c\<in>set (consumedChunks (client st)). \<exists>p\<in>set (conns st). \<exists>status readable.
      (chunk_payload c, Response status readable) \<in> set (requestsMade (fst p)) \<and> status < 300)"
proof -
  obtain headers where w: "worker = \<lparr>requestHeaders = headers, requestsMade = []\<rparr>"
    using assms(1) by (auto simp: new_datadog_client_def)
  obtain css where c: "carries dd_accepted st css" using datadog.connections_carry assms(2) unfolding w by blast
  have requests: "list_all2 (\<lambda>p cs. dd_accepted (fst p) cs) ks css \<Longrightarrow>
      map fst (filter (\<lambda>(body, answer). dd_answer_ok answer) (concat (map (\<lambda>p. requestsMade (fst p)) ks))) = map chunk_payload (concat css)" for ks css
    by (induction ks css rule: list_all2_induct) (simp_all add: dd_accepted_def)
  have len: "length (conns st) = length css" using c list_all2_lengthD by (auto simp: carries_def)
  have "map fst (filter (\<lambda>(body, answer). dd_answer_ok answer) (concat (map (\<lambda>p. requestsMade (fst p)) (conns st)))) =
      map chunk_payload (sentChunks (client st))"
    using requests[of "conns st" css] c by (simp add: carries_def)
  moreover have "\<exists>p\<in>set (conns st). \<exists>status readable. (chunk_payload d, Response status readable) \<in> set (requestsMade (fst p)) \<and> status < 300"
    if d: "d \<in> set (consumedChunks (client st))" for d
  proof -
    obtain i where i: "i < length (conns st)" "d \<in> set (css ! i)" "dd_accepted (fst (conns st ! i)) (css ! i)"
      using d c by (auto simp: carries_def answered_nth[OF len] list_all2_conv_all_nth)
    have "set (map fst (filter (\<lambda>(body, answer). dd_answer_ok answer) (requestsMade (fst (conns st ! i))))) = set (map chunk_payload (css ! i))"
      using i(3) by (simp only: dd_accepted_def)
    then have "chunk_payload d \<in> fst ` set (filter (\<lambda>(body, answer). dd_answer_ok answer) (requestsMade (fst (conns st ! i))))"
      using i(2) by simp
    then obtain r where "(chunk_payload d, r) \<in> set (requestsMade (fst (conns st ! i)))" "dd_answer_ok r" by auto
    then show ?thesis using i(1) by (cases r) (auto intro!: bexI[of _ "conns st ! i"])
  qed
  ultimately show ?thesis by blast
qed

theorem datadog_acknowledged_witness:
  "\<exists>worker st. new_datadog_client True ''k'' = Inr worker \<and>
     connected_run (datadog_connections worker)
       [Other (Feed (sample_chunk ''a'')), Opens (), Other (Main NoLeftover), Other (Main InputTaken), Sends (Response 202 True),
        Other (Main Queued), Other (Acker ChunkReceived), ReadsAck ()] (new_connected 0) = Some st \<and>
     consumedChunks (client st) = [sample_chunk ''a''] \<and>
     (\<exists>p\<in>set (conns st). \<exists>status readable. (''a'', Response status readable) \<in> set (requestsMade (fst p)) \<and> status < 300)"
proof -
  let ?es = "[Other (Feed (sample_chunk ''a'')), Opens (), Other (Main NoLeftover), Other (Main InputTaken), Sends (Response 202 True),
        Other (Main Queued), Other (Acker ChunkReceived), ReadsAck ()]"
  have "(case new_datadog_client True ''k'' of Inl _ \<Rightarrow> None
       | Inr worker \<Rightarrow> map_option (\<lambda>st. consumedChunks (client st)) (connected_run (datadog_connections worker) ?es (new_connected 0))) =
      Some [sample_chunk ''a'']"
    by code_simp
  then obtain worker st where w: "new_datadog_client True ''k'' = Inr worker"
    and st: "connected_run (datadog_connections worker) ?es (new_connected 0) = Some st" "consumedChunks (client st) = [sample_chunk ''a'']"
    by (auto split: sum.splits)
  have r: "connected_reachable (datadog_connections worker) 0 st"
    using connected_run_reachable[OF st(1)] connected_reachable.start by blast
  have "chunk_payload (sample_chunk ''a'') = ''a''" by (simp add: chunk_payload_def sample_chunk_def)
  then show ?thesis using datadog_acknowledged[OF w r] w st by auto
qed

end
