(* ===== verification/Delivery.thy ===== *)
theory Delivery
  imports Hybrid_Buffer Connections
begin

text \<open>
  The end of a pipeline: a buffer and the forwarding client that consumes it, as
  \<open>PrepareSequentialPipeline\<close> (\<open>orchestrate/obase/pipelines.go\<close>) puts them together with
  \<open>RegisterNewConsumer\<close> (\<open>buffer/hybridbuffer/outputfeeder.go\<close>). The input of the client is the output channel of
  the feeder, its two signals are the end of that channel, and its callbacks are those of the
  buffer. The client keeps what the buffer expects of a consumer, so that what \<open>Hybrid_Buffer\<close> shows for
  any consumer and what \<open>Client_Session\<close> and \<open>Connections\<close> show for any input hold together.
\<close>

section \<open>The buffer and its consumer\<close>

record 'k delivery =
  buffer :: bufferer
  forwarder :: "'k connected"

text \<open>
  The callbacks of a step of the client, in the order of \<open>ChunkConsumerArgs\<close>; the outcomes of the file
  operations they do are arguments.
\<close>

definition callbacks :: "write_io \<Rightarrow> bool \<Rightarrow> client_worker \<Rightarrow> client_worker \<Rightarrow> buffer_event list" where
  "callbacks io unlinkOk w w' =
     map (ChunkConsumed unlinkOk) (drop (length (consumedChunks w)) (consumedChunks w')) @
     map (ChunkLeft io) (drop (length (leftChunks w)) (leftChunks w')) @
     replicate (finishedCalls w' - finishedCalls w) ConsumerFinished"

text \<open>
  What the client sees of the channel: it is closed and signalled by the feeder, and empty as long
  as the output of the buffer is. Chunks come through \<open>TakeChunk\<close> only.
\<close>

fun sees :: "client_event \<Rightarrow> bufferer \<Rightarrow> bool" where
  "sees (Feed c) b = False"
| "sees (Main InputTaken) b = False"
| "sees CloseInput b = bufOutputClosed b"
| "sees StopRequest b = bufOutputClosed b"
| "sees (Main InputEnd) b = (bufOutput b = [])"
| "sees (Main PingTime) b = (bufOutput b = [] \<and> \<not> bufOutputClosed b)"
| "sees ev b = True"

fun own_events :: "buffer_event \<Rightarrow> bool" where
  "own_events (Accept io c) = True"
| "own_events CloseInputChannel = True"
| "own_events SignalInputClosed = True"
| "own_events (Feeder ev) = True"
| "own_events ev = False"

datatype ('o, 'e, 'a) delivery_event =
    BufferStep buffer_event
  | TakeChunk
  | ClientStep write_io bool "('o, 'e, 'a) connected_event"

fun delivery_step ::
  "('o, 'e, 'a, 'k) connection_ops \<Rightarrow> ('o, 'e, 'a) delivery_event \<Rightarrow> 'k delivery \<Rightarrow> 'k delivery option" where
  "delivery_step ops (BufferStep ev) d =
     (if own_events ev then map_option (\<lambda>b. d\<lparr>buffer := b\<rparr>) (buffer_step ev (buffer d)) else None)"
| "delivery_step ops TakeChunk d =
     (case bufOutput (buffer d) of
        [] \<Rightarrow> None
      | c # cs \<Rightarrow>
          Option.bind (connected_run ops [Other (Feed c), Other (Main InputTaken)] (forwarder d)) (\<lambda>f.
          Option.bind (buffer_step ConsumerTake (buffer d)) (\<lambda>b. Some \<lparr>buffer = b, forwarder = f\<rparr>)))"
| "delivery_step ops (ClientStep io unlinkOk ev) d =
     (if (case ev of Other e \<Rightarrow> sees e (buffer d) | _ \<Rightarrow> True)
      then Option.bind (connected_step ops ev (forwarder d)) (\<lambda>f.
        Option.bind (buffer_run (callbacks io unlinkOk (client (forwarder d)) (client f)) (buffer d)) (\<lambda>b.
          Some \<lparr>buffer = b, forwarder = f\<rparr>))
      else None)"

fun delivery_run ::
  "('o, 'e, 'a, 'k) connection_ops \<Rightarrow> ('o, 'e, 'a) delivery_event list \<Rightarrow> 'k delivery \<Rightarrow> 'k delivery option" where
  "delivery_run ops [] d = Some d"
| "delivery_run ops (ev # evs) d = Option.bind (delivery_step ops ev d) (delivery_run ops evs)"

text \<open>The buffer is started on its directory, then the client is registered and made.\<close>

definition start_delivery :: "int \<Rightarrow> bufferer \<Rightarrow> 'k delivery option" where
  "start_delivery duration b =
     map_option (\<lambda>b. \<lparr>buffer = b, forwarder = new_connected duration\<rparr>) (buffer_step RegisterConsumer b)"

inductive delivery_reachable ::
  "('o, 'e, 'a, 'k) connection_ops \<Rightarrow> int \<Rightarrow> file_dir option \<Rightarrow> 'k delivery \<Rightarrow> bool" for ops duration opened where
  start: "(\<And>dir. opened = Some dir \<Longrightarrow> distinct (map fst dir)) \<Longrightarrow>
     start_delivery duration (recover_existing_chunks seekOk readOk statOk (new_bufferer opened match maxBytes sendAll)) = Some d \<Longrightarrow>
     delivery_reachable ops duration opened d"
| step: "delivery_reachable ops duration opened d \<Longrightarrow> delivery_step ops ev d = Some d' \<Longrightarrow> delivery_reachable ops duration opened d'"

lemma delivery_run_reachable:
  "delivery_run ops evs d = Some d' \<Longrightarrow> delivery_reachable ops duration opened d \<Longrightarrow> delivery_reachable ops duration opened d'"
  by (induction evs arbitrary: d) (auto simp: Option.bind_eq_Some_conv intro: delivery_reachable.step)

section \<open>What both sides agree on\<close>

definition agreed :: "'k delivery \<Rightarrow> bool" where
  "agreed d \<longleftrightarrow>
     (let b = buffer d; w = client (forwarder d) in
      deliveredLog b = takenChunks w \<and> consumedLog b = consumedChunks w \<and> inputQueue w = [] \<and>
      consumerCount b + finishedCalls w = 1 \<and>
      mset (consumerHand b) + mset (consumedChunks w) + mset (leftChunks w) = mset (takenChunks w) \<and>
      (inputChannelClosed w \<or> inputClosed w \<longrightarrow> bufOutputClosed b))"

text \<open>How the reports of a client grow in a step.\<close>

definition reports :: "client_worker \<Rightarrow> client_worker \<Rightarrow> log_chunk list \<Rightarrow> log_chunk list \<Rightarrow> nat \<Rightarrow> bool" where
  "reports w w' cs ls n \<longleftrightarrow>
     consumedChunks w' = consumedChunks w @ cs \<and> leftChunks w' = leftChunks w @ ls \<and> finishedCalls w' = finishedCalls w + n"

lemma callbacks_reports:
  "reports w w' cs ls n \<Longrightarrow>
     callbacks io u w w' = map (ChunkConsumed u) cs @ map (ChunkLeft io) ls @ replicate n ConsumerFinished"
  by (simp add: callbacks_def reports_def)

definition quiet :: "client_worker \<Rightarrow> client_worker \<Rightarrow> bool" where
  "quiet w w' \<longleftrightarrow> takenChunks w' = takenChunks w \<and> inputQueue w' = inputQueue w \<and>
     inputChannelClosed w' = inputChannelClosed w \<and> inputClosed w' = inputClosed w"

lemma main_step_quiet:
  assumes "main_step ev w s = Some (w', s')" and "ev \<noteq> InputTaken"
  shows "quiet w w' \<and> reports w w' [] [] 0"
  using assms
  by (cases "mainPc s"; cases ev)
    (auto simp: main_step_def quiet_def reports_def send_result_def send_ping_def split: if_splits list.splits stage.splits)

lemma acker_step_quiet:
  assumes "acker_step ev w s = Some (w', s')"
  shows "quiet w w' \<and> (\<exists>cs. reports w w' cs [] 0)"
  using assms
  by (cases "ackerPc s"; cases ev)
    (auto simp: acker_step_def quiet_def reports_def read_ack_def ack_chunk_def split: if_splits list.splits option.splits)

lemma worker_step_quiet:
  assumes "worker_step ev w = Some w'"
  shows "quiet w w' \<and> ((\<exists>ls. reports w w' [] ls 0) \<or> (reports w w' [] [] 1 \<and> workerPc w' = WorkerStopped))"
proof (cases "workerPc w")
  case (Saving l)
  then show ?thesis using assms by (cases ev; cases l) (auto simp: worker_step_def quiet_def reports_def)
next
  case (InSession s)
  then show ?thesis using assms
    by (cases ev; cases "mainPc s") (auto simp: worker_step_def quiet_def reports_def next_attempt_def)
qed (use assms in \<open>cases ev; auto simp: worker_step_def quiet_def reports_def split: if_splits\<close>)+

section \<open>What a step of the buffer changes for the consumer\<close>

definition moved :: "bufferer \<Rightarrow> bufferer \<Rightarrow> log_chunk list \<Rightarrow> log_chunk list \<Rightarrow> nat \<Rightarrow> bool" where
  "moved b b' cs ls n \<longleftrightarrow>
     deliveredLog b' = deliveredLog b \<and> consumedLog b' = consumedLog b @ cs \<and>
     mset (consumerHand b) = mset (consumerHand b') + mset cs + mset ls \<and> consumerCount b = consumerCount b' + n \<and>
     (bufOutputClosed b \<longrightarrow> bufOutputClosed b')"

lemma moved_refl: "moved b b [] [] 0"
  by (simp add: moved_def)

lemma moved_trans: "moved b b1 cs ls n \<Longrightarrow> moved b1 b2 cs' ls' n' \<Longrightarrow> moved b b2 (cs @ cs') (ls @ ls') (n + n')"
  by (simp add: moved_def)

lemma consumed_moved: "buffer_step (ChunkConsumed u c) b = Some b' \<Longrightarrow> moved b b' [c] [] 0"
  by (auto simp: moved_def split: if_splits)

lemma left_moved: "buffer_step (ChunkLeft io c) b = Some b' \<Longrightarrow> moved b b' [] [c] 0"
  by (auto simp: moved_def mark_short_def Let_def split: if_splits prod.splits)

lemma finished_moved: "buffer_step ConsumerFinished b = Some b' \<Longrightarrow> moved b b' [] [] 1"
  by (auto simp: moved_def split: if_splits)

lemma run_append: "buffer_run (es @ es') b = Option.bind (buffer_run es b) (buffer_run es')"
proof (induction es arbitrary: b)
  case (Cons e es)
  then show ?case by (cases "buffer_step e b") simp_all
qed simp

lemma consumed_run_moved: "buffer_run (map (ChunkConsumed u) cs) b = Some b' \<Longrightarrow> moved b b' cs [] 0"
proof (induction cs arbitrary: b)
  case (Cons c cs)
  then obtain b1 where "buffer_step (ChunkConsumed u c) b = Some b1" "buffer_run (map (ChunkConsumed u) cs) b1 = Some b'"
    by (auto simp: Option.bind_eq_Some_conv)
  then show ?case using moved_trans[OF consumed_moved Cons.IH] by fastforce
qed (simp add: moved_refl)

lemma left_run_moved: "buffer_run (map (ChunkLeft io) ls) b = Some b' \<Longrightarrow> moved b b' [] ls 0"
proof (induction ls arbitrary: b)
  case (Cons c ls)
  then obtain b1 where "buffer_step (ChunkLeft io c) b = Some b1" "buffer_run (map (ChunkLeft io) ls) b1 = Some b'"
    by (auto simp: Option.bind_eq_Some_conv)
  then show ?case using moved_trans[OF left_moved Cons.IH] by fastforce
qed (simp add: moved_refl)

lemma finished_run_moved: "buffer_run (replicate n ConsumerFinished) b = Some b' \<Longrightarrow> moved b b' [] [] n"
proof (induction n arbitrary: b)
  case (Suc n)
  then obtain b1 where "buffer_step ConsumerFinished b = Some b1" "buffer_run (replicate n ConsumerFinished) b1 = Some b'"
    by (auto simp: Option.bind_eq_Some_conv)
  then show ?case using moved_trans[OF finished_moved Suc.IH] by fastforce
qed (simp add: moved_refl)

lemma callbacks_moved:
  assumes "buffer_run (map (ChunkConsumed u) cs @ map (ChunkLeft io) ls @ replicate n ConsumerFinished) b = Some b'"
  shows "moved b b' cs ls n"
proof -
  obtain b1 b2 where "buffer_run (map (ChunkConsumed u) cs) b = Some b1" "buffer_run (map (ChunkLeft io) ls) b1 = Some b2"
    "buffer_run (replicate n ConsumerFinished) b2 = Some b'"
    using assms by (auto simp: run_append Option.bind_eq_Some_conv)
  then show ?thesis
    using moved_trans[OF moved_trans[OF consumed_run_moved left_run_moved] finished_run_moved, of u cs b b1 io ls b2 n b'] by simp
qed

text \<open>When the callbacks are accepted.\<close>

lemma consumed_run_accepted: "mset cs \<subseteq># mset (consumerHand b) \<Longrightarrow> \<exists>b'. buffer_run (map (ChunkConsumed u) cs) b = Some b'"
proof (induction cs arbitrary: b)
  case (Cons c cs)
  then have c: "c \<in> set (consumerHand b)" by (metis insert_subset_eq_iff mset.simps(2) set_mset_mset)
  then obtain b1 where b1: "buffer_step (ChunkConsumed u c) b = Some b1" by simp
  have "mset cs \<subseteq># mset (consumerHand b1)"
    using Cons.prems consumed_moved[OF b1] by (simp add: moved_def)
  then show ?case using Cons.IH b1 by simp
qed simp

lemma left_run_accepted: "mset ls \<subseteq># mset (consumerHand b) \<Longrightarrow> \<exists>b'. buffer_run (map (ChunkLeft io) ls) b = Some b'"
proof (induction ls arbitrary: b)
  case (Cons c ls)
  then have c: "c \<in> set (consumerHand b)" by (metis insert_subset_eq_iff mset.simps(2) set_mset_mset)
  obtain c' ok op where "unload_chunk io c (operator (chunkMan b)) = (c', ok, op)" by (metis prod_cases3)
  then obtain b1 where b1: "buffer_step (ChunkLeft io c) b = Some b1" using c by (simp add: Let_def)
  have "mset ls \<subseteq># mset (consumerHand b1)"
    using Cons.prems left_moved[OF b1] by (simp add: moved_def)
  then show ?case using Cons.IH b1 by simp
qed simp

lemma callbacks_accepted:
  assumes "mset cs + mset ls \<subseteq># mset (consumerHand b)"
    and "n = 0 \<or> n = 1 \<and> consumerCount b = 1 \<and> mset (consumerHand b) = mset cs + mset ls"
  shows "\<exists>b'. buffer_run (map (ChunkConsumed u) cs @ map (ChunkLeft io) ls @ replicate n ConsumerFinished) b = Some b'"
proof -
  have "mset cs \<subseteq># mset (consumerHand b)" using assms(1) subset_mset.order_trans mset_subset_eq_add_left by blast
  then obtain b1 where b1: "buffer_run (map (ChunkConsumed u) cs) b = Some b1" using consumed_run_accepted by blast
  note m1 = consumed_run_moved[OF b1]
  have "mset ls \<subseteq># mset (consumerHand b1)"
    using assms(1) m1 by (simp add: moved_def add.commute)
  then obtain b2 where b2: "buffer_run (map (ChunkLeft io) ls) b1 = Some b2" using left_run_accepted by blast
  note m2 = left_run_moved[OF b2]
  have "\<exists>b'. buffer_run (replicate n ConsumerFinished) b2 = Some b'"
    using assms(2)
  proof
    assume "n = 1 \<and> consumerCount b = 1 \<and> mset (consumerHand b) = mset cs + mset ls"
    then have "consumerCount b2 = 1 \<and> consumerHand b2 = [] \<and> n = Suc 0" using m1 m2 by (auto simp: moved_def)
    then show ?thesis by simp
  qed simp
  then show ?thesis using b1 b2 by (simp add: run_append)
qed

text \<open>The steps of the producer and the feeder.\<close>

lemma save_chunk_consumer [simp]:
  "deliveredLog (save_chunk io c b) = deliveredLog b" "consumedLog (save_chunk io c b) = consumedLog b"
  "consumerHand (save_chunk io c b) = consumerHand b" "consumerCount (save_chunk io c b) = consumerCount b"
  "bufOutputClosed (save_chunk io c b) = bufOutputClosed b"
  by (simp_all add: save_chunk_def mark_short_def Let_def split: prod.splits)

lemma feeder_moved:
  assumes "feeder_step ev b = Some b'"
  shows "moved b b' [] [] 0"
proof (cases "feederPc b")
  case FeederLoop
  then obtain r u where "feeder_take r u b = Some b'" using assms by (cases ev) (auto simp: feeder_step_def)
  then show ?thesis by (cases rule: feeder_take_cases) (auto simp: moved_def begin_cleanup_def)
qed (use assms in \<open>cases ev; auto simp: feeder_step_def feeder_offer_def feeder_abort_def begin_cleanup_def save_input_def save_last_def
    save_output_def feeder_end_def moved_def split: if_splits list.splits\<close>)+

lemma accept_moved: "buf_accept io c b = Inr b' \<Longrightarrow> moved b b' [] [] 0"
  by (erule buf_accept_cases) (auto simp: moved_def)

lemma own_moved:
  assumes "buffer_step ev b = Some b'" and "own_events ev"
  shows "moved b b' [] [] 0"
proof (cases ev)
  case (Accept io c)
  then show ?thesis using assms accept_moved by (auto split: if_splits sum.splits)
next
  case (Feeder e)
  then show ?thesis using assms feeder_moved by simp
qed (use assms in \<open>auto simp: moved_def split: if_splits\<close>)

section \<open>The two sides stay agreed\<close>

lemma recover_loop_consumer [simp]:
  "deliveredLog (recover_loop s cs b) = deliveredLog b \<and> consumedLog (recover_loop s cs b) = consumedLog b \<and>
     consumerHand (recover_loop s cs b) = consumerHand b \<and> consumerCount (recover_loop s cs b) = consumerCount b"
  by (induction s cs b rule: recover_loop.induct) simp_all

lemma start_agreed:
  assumes "start_delivery duration (recover_existing_chunks seekOk readOk statOk (new_bufferer opened match maxBytes sendAll)) = Some d"
  shows "agreed d"
  using assms
  by (auto simp: start_delivery_def agreed_def new_connected_def new_client_worker_def Let_def recover_existing_chunks_def
      new_bufferer_def split: prod.splits if_splits)

lemma client_step_quiet:
  assumes "client_step ev w = Some w'" and "sees ev b"
  shows "takenChunks w' = takenChunks w \<and> inputQueue w' = inputQueue w \<and>
    (inputChannelClosed w' \<or> inputClosed w' \<longrightarrow> inputChannelClosed w \<or> inputClosed w \<or> bufOutputClosed b)"
    and "\<exists>cs ls n. reports w w' cs ls n \<and> (n = 0 \<or> n = 1 \<and> workerPc w' = WorkerStopped)"
proof -
  have "(takenChunks w' = takenChunks w \<and> inputQueue w' = inputQueue w \<and>
    (inputChannelClosed w' \<or> inputClosed w' \<longrightarrow> inputChannelClosed w \<or> inputClosed w \<or> bufOutputClosed b)) \<and>
    (\<exists>cs ls n. reports w w' cs ls n \<and> (n = 0 \<or> n = 1 \<and> workerPc w' = WorkerStopped))"
  proof (cases ev)
    case (Main e)
    then obtain s w1 s' where s: "main_step e w s = Some (w1, s')" "w' = w1\<lparr>workerPc := InSession s'\<rparr>"
      using assms(1) by (auto simp: in_session_def split: worker_pc.splits)
    have "e \<noteq> InputTaken" using assms(2) Main by auto
    from main_step_quiet[OF s(1) this] show ?thesis by (auto simp: s(2) quiet_def reports_def)
  next
    case (Acker e)
    then obtain s w1 s' where s: "acker_step e w s = Some (w1, s')" "w' = w1\<lparr>workerPc := InSession s'\<rparr>"
      using assms(1) by (auto simp: in_session_def split: worker_pc.splits)
    from acker_step_quiet[OF s(1)] show ?thesis by (auto simp: s(2) quiet_def reports_def)
  next
    case (Worker e)
    then show ?thesis using worker_step_quiet[of e w w'] assms(1) by (auto simp: quiet_def)
  next
    case AbortOnStop
    then show ?thesis using assms(1)
      by (auto simp: in_session_def abort_session_def reports_def split: worker_pc.splits if_splits)
  qed (use assms in \<open>auto simp: reports_def split: if_splits\<close>)
  then show "takenChunks w' = takenChunks w \<and> inputQueue w' = inputQueue w \<and>
    (inputChannelClosed w' \<or> inputClosed w' \<longrightarrow> inputChannelClosed w \<or> inputClosed w \<or> bufOutputClosed b)"
    and "\<exists>cs ls n. reports w w' cs ls n \<and> (n = 0 \<or> n = 1 \<and> workerPc w' = WorkerStopped)" by blast+
qed

text \<open>The event of the client behind an event of its connections.\<close>

lemma client_event:
  assumes "connected_step ops ev f = Some f'" and "case ev of Other e \<Rightarrow> sees e b | _ \<Rightarrow> True"
  obtains e where "client_step e (client f) = Some (client f')" "sees e b"
proof (cases ev)
  case (Opens env)
  then show ?thesis using assms(1) that[of "Worker ConnectFailed"] that[of "Worker Connected"]
    by (auto split: option.splits dest: advance_client)
next
  case (Sends env)
  then obtain ok g where a: "advance ops (Main (SendResult ok)) g f = Some f'" using assms(1) by (auto simp: Option.bind_eq_Some_conv)
  then show ?thesis using that[of "Main (SendResult ok)"] advance_client[OF a] by simp
next
  case (Pings env)
  then obtain ok g where a: "advance ops (Main (PingResult ok)) g f = Some f'" using assms(1) by (auto simp: Option.bind_eq_Some_conv)
  then show ?thesis using that[of "Main (PingResult ok)"] advance_client[OF a] by simp
next
  case (ReadsAck env)
  then obtain reply g where a: "advance ops (Acker (AckRead reply)) g f = Some f'" using assms(1) by (auto simp: Let_def)
  then show ?thesis using that[of "Acker (AckRead reply)"] advance_client[OF a] by simp
next
  case (Other e)
  then show ?thesis using assms that[of e] by (auto split: if_splits dest: advance_client)
qed

lemma client_side_agreed:
  assumes "agreed d" and "client_step e (client (forwarder d)) = Some (client f)" and "sees e (buffer d)"
    and "buffer_run (callbacks io u (client (forwarder d)) (client f)) (buffer d) = Some b"
  shows "agreed \<lparr>buffer = b, forwarder = f\<rparr>"
proof -
  obtain cs ls n where r: "reports (client (forwarder d)) (client f) cs ls n" using client_step_quiet(2)[OF assms(2,3)] by blast
  have m: "moved (buffer d) b cs ls n" using assms(4) unfolding callbacks_reports[OF r] by (rule callbacks_moved)
  let ?w = "client (forwarder d)"
  note q = client_step_quiet(1)[OF assms(2,3)]
  have a: "mset (consumerHand (buffer d)) + mset (consumedChunks ?w) + mset (leftChunks ?w) = mset (takenChunks ?w)"
    "inputChannelClosed ?w \<or> inputClosed ?w \<longrightarrow> bufOutputClosed (buffer d)"
    "deliveredLog (buffer d) = takenChunks ?w \<and> consumedLog (buffer d) = consumedChunks ?w \<and> inputQueue ?w = []"
    "consumerCount (buffer d) + finishedCalls ?w = 1"
    using assms(1) by (simp_all add: agreed_def Let_def)
  have "mset (consumerHand b) + mset (consumedChunks (client f)) + mset (leftChunks (client f)) = mset (takenChunks (client f))"
    using a(1) m q r by (simp add: moved_def reports_def algebra_simps)
  moreover have "inputChannelClosed (client f) \<or> inputClosed (client f) \<longrightarrow> bufOutputClosed b"
    using q a(2) m unfolding moved_def by blast
  ultimately show ?thesis using a(3,4) m q r by (simp add: agreed_def Let_def moved_def reports_def)
qed

lemma take_agreed:
  assumes "agreed d" and "delivery_step ops TakeChunk d = Some d'"
  shows "agreed d'"
proof -
  obtain c rest f b where o: "bufOutput (buffer d) = c # rest"
    and f: "connected_run ops [Other (Feed c), Other (Main InputTaken)] (forwarder d) = Some f"
    and b: "buffer_step ConsumerTake (buffer d) = Some b" and d': "d' = \<lparr>buffer = b, forwarder = f\<rparr>"
    using assms(2) by (auto simp: Option.bind_eq_Some_conv split: list.splits)
  obtain f1 where f1: "connected_step ops (Other (Feed c)) (forwarder d) = Some f1"
    "connected_step ops (Other (Main InputTaken)) f1 = Some f"
    using f by (auto simp: Option.bind_eq_Some_conv)
  have "client_step (Feed c) (client (forwarder d)) = Some (client f1)" using f1(1) by (auto dest: advance_client)
  then have w1: "client f1 = (client (forwarder d))\<lparr>inputQueue := [c]\<rparr>" using assms(1)
    by (auto simp: agreed_def Let_def split: if_splits)
  have "in_session (main_step InputTaken) (client f1) = Some (client f)" using f1(2) by (auto dest: advance_client)
  then obtain s w s' where s: "main_step InputTaken (client f1) s = Some (w, s')" "client f = w\<lparr>workerPc := InSession s'\<rparr>"
    by (auto simp: in_session_def split: worker_pc.splits)
  have "w = (client f1)\<lparr>inputQueue := [], takenChunks := takenChunks (client f1) @ [c]\<rparr>"
    using s(1) by (cases "mainPc s") (auto simp: main_step_def w1 split: stage.splits)
  then show ?thesis using assms(1) b o by (auto simp: d' agreed_def Let_def s(2) w1 split: if_splits)
qed

lemma delivery_agreed: "delivery_reachable ops duration opened d \<Longrightarrow> agreed d"
proof (induction rule: delivery_reachable.induct)
  case (start seekOk readOk statOk match maxBytes sendAll d)
  then show ?case by (intro start_agreed)
next
  case (step d ev d')
  show ?case
  proof (cases ev)
    case (BufferStep e)
    then obtain b where b: "buffer_step e (buffer d) = Some b" "own_events e" "d' = d\<lparr>buffer := b\<rparr>"
      using step.hyps(2) by (auto split: if_splits)
    then show ?thesis using own_moved[OF b(1,2)] step.IH by (auto simp: agreed_def Let_def moved_def)
  next
    case TakeChunk
    then show ?thesis using take_agreed step by blast
  next
    case (ClientStep io u e)
    then obtain f b where f: "case e of Other e \<Rightarrow> sees e (buffer d) | _ \<Rightarrow> True" "connected_step ops e (forwarder d) = Some f"
      and b: "buffer_run (callbacks io u (client (forwarder d)) (client f)) (buffer d) = Some b" "d' = \<lparr>buffer = b, forwarder = f\<rparr>"
      using step.hyps(2) by (auto simp: Option.bind_eq_Some_conv split: if_splits)
    obtain ce where "client_step ce (client (forwarder d)) = Some (client f)" "sees ce (buffer d)" by (rule client_event[OF f(2,1)])
    then show ?thesis using client_side_agreed[OF step.IH _ _ b(1)] b(2) by blast
  qed
qed

section \<open>Both sides run as on their own\<close>

lemma delivery_connected: "delivery_reachable ops duration opened d \<Longrightarrow> connected_reachable ops duration (forwarder d)"
proof (induction rule: delivery_reachable.induct)
  case (start seekOk readOk statOk match maxBytes sendAll d)
  then show ?case by (auto simp: start_delivery_def intro: connected_reachable.start split: if_splits)
next
  case (step d ev d')
  show ?case
  proof (cases ev)
    case (BufferStep e)
    then show ?thesis using step by (auto split: if_splits)
  next
    case TakeChunk
    then obtain c where "connected_run ops [Other (Feed c), Other (Main InputTaken)] (forwarder d) = Some (forwarder d')"
      using step.hyps(2) by (auto simp: Option.bind_eq_Some_conv simp del: connected_run.simps split: list.splits)
    then show ?thesis using connected_run_reachable step.IH by blast
  next
    case (ClientStep io u e)
    then have "connected_step ops e (forwarder d) = Some (forwarder d')"
      using step.hyps(2) by (auto simp: Option.bind_eq_Some_conv split: if_splits)
    then show ?thesis using connected_reachable.step step.IH by blast
  qed
qed

lemma delivery_buffer: "delivery_reachable ops duration opened d \<Longrightarrow> buffer_reachable opened (buffer d)"
proof (induction rule: delivery_reachable.induct)
  case (start seekOk readOk statOk match maxBytes sendAll d)
  have r: "buffer_reachable opened (recover_existing_chunks seekOk readOk statOk (new_bufferer opened match maxBytes sendAll))"
    by (rule buffer_reachable.start) (rule start.hyps(1))
  have "buffer_step RegisterConsumer (recover_existing_chunks seekOk readOk statOk (new_bufferer opened match maxBytes sendAll)) =
      Some (buffer d)"
    using start.hyps(2) unfolding start_delivery_def by (auto simp del: buffer_step.simps)
  then show ?case by (rule buffer_reachable.step[OF r])
next
  case (step d ev d')
  show ?case
  proof (cases ev)
    case (BufferStep e)
    then have "buffer_step e (buffer d) = Some (buffer d')" using step.hyps(2) by (auto split: if_splits)
    then show ?thesis using buffer_reachable.step step.IH by blast
  next
    case TakeChunk
    then have "buffer_step ConsumerTake (buffer d) = Some (buffer d')"
      using step.hyps(2)
      by (auto simp: Option.bind_eq_Some_conv simp del: connected_run.simps buffer_step.simps split: list.splits)
    then show ?thesis using buffer_reachable.step step.IH by blast
  next
    case (ClientStep io u e)
    then obtain es where "buffer_run es (buffer d) = Some (buffer d')"
      using step.hyps(2) by (auto simp: Option.bind_eq_Some_conv split: if_splits)
    then show ?thesis using buffer_run_reachable step.IH by blast
  qed
qed

lemma subseq_of_distinct: "subseq xs ys \<Longrightarrow> distinct ys \<Longrightarrow> distinct xs"
  by (induction rule: list_emb.induct) (auto dest: subseq_set)

lemma delivered_ids:
  assumes "buffer_reachable opened b" and "distinct (accepted_ids b)" and "[] \<notin> set (accepted_ids b)"
  shows "distinct (map chunk_id (deliveredLog b)) \<and> [] \<notin> chunk_id ` set (deliveredLog b)"
proof -
  have "subseq (passage b) (accepted_ids b)" using books_reachable[OF assms(1)] by (simp add: books_ok_def order_ok_def)
  then have "distinct (passage b)" "set (passage b) \<subseteq> set (accepted_ids b)"
    using subseq_of_distinct assms(2) subseq_set by blast+
  then show ?thesis using assms(3) by (auto simp: passage_def)
qed

lemma delivered_content:
  assumes "buffer_reachable opened b" and "\<not> shortWrites b" and "distinct (accepted_ids b)" and "[] \<notin> set (accepted_ids b)"
    and "c \<in> set (deliveredLog b)"
  shows "(chunk_id c, chunk_payload c) \<in> set (acceptedLog b)"
proof -
  have g: "good b" using assms(2-4) by (simp add: good_def ids_clean_def)
  have "chunk_data c = Some (content b (chunk_id c))"
    using payload_reachable[OF assms(1) g] assms(5) by (auto simp: payload_ok_def loaded_chunks_def)
  moreover have "chunk_id c \<in> set (accepted_ids b)"
    using stock_ids[OF books_reachable[OF assms(1)] g] assms(5) by (simp add: loaded_chunks_def)
  ultimately show ?thesis using log_content[OF assms(3)] by (simp add: chunk_payload_def)
qed

section \<open>Properties\<close>

text \<open>
  C21: The client keeps what the buffer expects of a consumer. Over any kind of connection, as long as the chunks
  have different non-empty IDs and no acknowledger outlives its hard stop: whatever step the client takes
  next, the buffer accepts the callbacks of that step. A chunk is reported only while the client has it, so at
  most once, and the client finishes when it has none.
\<close>

theorem consumer_contract_kept:
  assumes "delivery_reachable ops duration opened d" and "distinct (accepted_ids (buffer d))" and "[] \<notin> set (accepted_ids (buffer d))"
    and "connected_step ops ev (forwarder d) = Some f" and "case ev of Other e \<Rightarrow> sees e (buffer d) | _ \<Rightarrow> True"
    and "\<not> brokenStop (client f)"
  shows "\<exists>b. buffer_run (callbacks io unlinkOk (client (forwarder d)) (client f)) (buffer d) = Some b"
proof -
  let ?w = "client (forwarder d)"
  have a: "deliveredLog (buffer d) = takenChunks ?w" "consumerCount (buffer d) + finishedCalls ?w = 1"
    "mset (consumerHand (buffer d)) + mset (consumedChunks ?w) + mset (leftChunks ?w) = mset (takenChunks ?w)"
    using delivery_agreed[OF assms(1)] by (simp_all add: agreed_def Let_def)
  obtain e where e: "client_step e ?w = Some (client f)" "sees e (buffer d)" by (rule client_event[OF assms(4,5)])
  note q = client_step_quiet(1)[OF e]
  obtain cs ls n where r: "reports ?w (client f) cs ls n" "n = 0 \<or> n = 1 \<and> workerPc (client f) = WorkerStopped"
    using client_step_quiet(2)[OF e] by blast
  have i: "client_inv (client f)"
    using client_reachable_inv[OF connected_client[OF connected_reachable.step[OF delivery_connected[OF assms(1)] assms(4)]]] .
  have "ids_ok (client f)"
    using delivered_ids[OF delivery_buffer[OF assms(1)] assms(2,3)] a(1) q by (simp add: ids_ok_def)
  then have "accounted (client f) (worker_flight (workerPc (client f)))" using i assms(6) by (simp add: client_inv_def)
  then have h: "mset (consumerHand (buffer d)) = mset cs + mset ls + mset (worker_flight (workerPc (client f)))"
    using a(3) q r(1) by (simp add: accounted_def reports_def algebra_simps)
  have "n = 0 \<or> n = 1 \<and> consumerCount (buffer d) = 1 \<and> mset (consumerHand (buffer d)) = mset cs + mset ls"
    using r i h a(2) by (auto simp: client_inv_def reports_def split: if_splits)
  moreover have "mset cs + mset ls \<subseteq># mset (consumerHand (buffer d))" using h by simp
  ultimately show ?thesis unfolding callbacks_reports[OF r(1)] by (intro callbacks_accepted)
qed

definition sample_delivery :: "(bool \<times> handshake_result, bool \<times> (nat \<times> bool) list, bool \<times> bytes option) delivery_event list" where
  "sample_delivery =
     [BufferStep (Accept WriteFull (fresh_chunk ''b.ff'')), BufferStep (Feeder (Take True True)), BufferStep (Feeder Offer),
      ClientStep WriteFull True (Opens (True, LoginAccepted)), ClientStep WriteFull True (Other (Main NoLeftover)), TakeChunk,
      ClientStep WriteFull True (Sends (True, [(3, False)])), ClientStep WriteFull True (Other (Main Queued)),
      ClientStep WriteFull True (Other (Acker ChunkReceived))]"

definition sample_ending :: "(bool \<times> handshake_result, bool \<times> (nat \<times> bool) list, bool \<times> bytes option) delivery_event list" where
  "sample_ending =
     [ClientStep WriteFull True (ReadsAck (True, Some ''a.ff'')), BufferStep CloseInputChannel, BufferStep SignalInputClosed,
      BufferStep (Feeder (Take True True)), BufferStep (Feeder Abort), BufferStep (Feeder (Save WriteFull)),
      BufferStep (Feeder (Save WriteFull)), BufferStep (Feeder (Save WriteFull)), ClientStep WriteFull True (Other CloseInput),
      ClientStep WriteFull True (Other (Main InputEnd)), ClientStep WriteFull True (Other (Acker AbortSeen)),
      ClientStep WriteFull True (Other (Main HardStopped)), ClientStep WriteFull True (Other (Worker SessionEnd)),
      ClientStep WriteFull True (Other (Worker Finish)), BufferStep (Feeder (EndWait True True True))]"

lemmas client_run_defs = advance_def session_aborted_def on_last_def chunk_in_hand_def worker_step_def in_session_def next_attempt_def
  new_client_session_def main_step_def acker_step_def send_result_def read_ack_def ack_chunk_def put_pending_def
  delete_pending_def collect_leftovers_def stop_acker_hard_def acker_end_def gather_leftovers_def new_leftover_channel_def
  ForwarderMaxPendingChunksForAck_def new_connected_def new_client_worker_def fluentd_connections_def open_forward_connection_def
  close_connection_def ff_send_chunk_def ff_read_chunk_ack_def send_bytes_def chunk_payload_def callbacks_def start_delivery_def

lemma sample_delivery_run:
  "\<exists>d0 d f. start_delivery 0 sample_start = Some d0 \<and> delivery_run (fluentd_connections [] ''PING'') sample_delivery d0 = Some d \<and>
     acceptedLog (buffer d) = [(''a.ff'', ''old''), (''b.ff'', ''b.ff'')] \<and>
     connected_step (fluentd_connections [] ''PING'') (ReadsAck (True, Some ''a.ff'')) (forwarder d) = Some f \<and>
     \<not> brokenStop (client f) \<and> length (callbacks WriteFull True (client (forwarder d)) (client f)) = 1"
  by (simp add: sample_delivery_def sample_defs client_run_defs Let_def)

lemma sample_ending_run:
  "\<exists>d0 d. start_delivery 0 sample_start = Some d0 \<and>
     delivery_run (fluentd_connections [] ''PING'') (sample_delivery @ sample_ending) d0 = Some d \<and>
     acceptedLog (buffer d) = [(''a.ff'', ''old''), (''b.ff'', ''b.ff'')] \<and> feederPc (buffer d) = FeederStopped \<and>
     \<not> shortWrites (buffer d) \<and> length (dir_of (buffer d)) = 1 \<and>
     map chunk_id (consumedLog (buffer d)) = [''a.ff''] \<and> map chunk_id (leftLog (buffer d) @ savedLog (buffer d)) = [''b.ff'']"
  by (simp add: sample_delivery_def sample_ending_def sample_defs client_run_defs dir_of_def Let_def)

lemma sample_delivery_reachable:
  "start_delivery 0 sample_start = Some d \<Longrightarrow> delivery_reachable ops 0 (Some sample_dir) d"
  unfolding sample_start_def by (rule delivery_reachable.start) (auto simp: sample_dir_def)

theorem consumer_contract_kept_witness:
  "\<exists>(d :: forward_connection delivery) f b. connected_step (fluentd_connections [] ''PING'') (ReadsAck (True, Some ''a.ff'')) (forwarder d) = Some f \<and>
     length (callbacks WriteFull True (client (forwarder d)) (client f)) = 1 \<and>
     buffer_run (callbacks WriteFull True (client (forwarder d)) (client f)) (buffer d) = Some b"
proof -
  obtain d0 d f where d: "start_delivery 0 sample_start = Some d0"
    "delivery_run (fluentd_connections [] ''PING'') sample_delivery d0 = Some d"
    "acceptedLog (buffer d) = [(''a.ff'', ''old''), (''b.ff'', ''b.ff'')]"
    "connected_step (fluentd_connections [] ''PING'') (ReadsAck (True, Some ''a.ff'')) (forwarder d) = Some f"
    "\<not> brokenStop (client f)" "length (callbacks WriteFull True (client (forwarder d)) (client f)) = 1"
    using sample_delivery_run by (elim exE conjE) (rule that)
  have r: "delivery_reachable (fluentd_connections [] ''PING'') 0 (Some sample_dir) d"
    by (rule delivery_run_reachable[OF d(2) sample_delivery_reachable[OF d(1)]])
  have ids: "distinct (accepted_ids (buffer d))" "[] \<notin> set (accepted_ids (buffer d))" by (simp_all add: d(3))
  have "\<exists>b. buffer_run (callbacks WriteFull True (client (forwarder d)) (client f)) (buffer d) = Some b"
    by (rule consumer_contract_kept[OF r ids d(4) _ d(5)]) simp
  then obtain b where b: "buffer_run (callbacks WriteFull True (client (forwarder d)) (client f)) (buffer d) = Some b" by (rule exE)
  show ?thesis by (intro exI conjI) (rule d(4), rule d(6), rule b)
qed



end
