(* ===== verification/Restart.thy ===== *)
theory Restart
  imports Run_Config Hybrid_Buffer
begin

text \<open>
  A restart with queues on disk: \<open>StartOrchestrator\<close> of \<open>orchestrate/obykeyset/config.go\<close> scans the
  queue directories of all outputs for the IDs of pipelines to create at once, and each pipeline makes its buffers on
  the directory of its ID (\<open>ListBufferIDs\<close> and \<open>NewBufferer\<close> of \<open>buffer/hybridbuffer/config.go\<close>,
  \<open>newBufferer\<close> of \<open>bufferer.go\<close>). Environment variables in the root path are taken as expanded.
\<close>

section \<open>Finding the pipelines\<close>

text \<open>The root directory of an output, which of its entries can be examined, and which files are chunks of the output.\<close>

record queue_root =
  rootDir :: "root_dir option"
  rootStatOk :: "bytes \<Rightarrow> bool"
  rootChunk :: "bytes \<Rightarrow> bool"

definition list_buffer_ids :: "queue_root \<Rightarrow> bytes list" where
  "list_buffer_ids r = list_buffer_queue_ids (rootChunk r) (rootStatOk r) (rootDir r)"

text \<open>The IDs go through a map, whose order is the argument \<open>keyOrder\<close>.\<close>

definition initial_pipeline_ids :: "(bytes list \<Rightarrow> bytes list) \<Rightarrow> queue_root list \<Rightarrow> bytes list" where
  "initial_pipeline_ids keyOrder roots = keyOrder (remdups (concat (map list_buffer_ids roots)))"

definition start_keyset_orchestrator ::
  "(bytes list \<Rightarrow> bytes list) \<Rightarrow> queue_root list \<Rightarrow> gotime \<Rightarrow> log_schema \<Rightarrow> bytes list \<Rightarrow> bytes \<Rightarrow> orchestrator go" where
  "start_keyset_orchestrator keyOrder roots now schema keys tagTemplate =
     new_orchestrator schema keys tagTemplate (initial_pipeline_ids keyOrder roots) now"

section \<open>Making the buffers\<close>

definition new_queue_bufferer ::
  "(bytes \<Rightarrow> bytes) \<Rightarrow> 32 word \<Rightarrow> bool \<Rightarrow> bool \<Rightarrow> bytes \<Rightarrow> (bytes \<Rightarrow> bool) \<Rightarrow> int \<Rightarrow> bool \<Rightarrow> root_dir \<Rightarrow> root_dir \<times> bufferer" where
  "new_queue_bufferer md5hex umask mkdirOk writeOk bufferID match maxBytes sendAll dirs =
     (let dirs = make_buffer_queue_dir md5hex umask mkdirOk writeOk bufferID dirs in
      (dirs, new_bufferer (Option.bind (map_of dirs (queue_dir_name md5hex bufferID)) entry_files) match maxBytes sendAll))"

text \<open>An entry as \<open>make_buffer_queue_dir\<close> makes it, with the files put there since.\<close>

definition made_entry :: "32 word \<Rightarrow> bytes \<Rightarrow> file_dir \<Rightarrow> dir_entry" where
  "made_entry umask bufferID fs =
     \<lparr>entry_mode = new_dir_mode umask, entry_id_file = Some bufferID, entry_xattr = None, entry_files = Some fs\<rparr>"

lemma made_entry_made:
  assumes "map_of dirs (queue_dir_name md5hex bufferID) = None"
  shows "map_of (make_buffer_queue_dir md5hex umask True True bufferID dirs) (queue_dir_name md5hex bufferID) =
    Some (made_entry umask bufferID [])"
  using assms by (simp add: make_buffer_queue_dir_def Let_def made_entry_def update_conv')

lemma made_entry_listed:
  assumes "bufferID \<noteq> []" and "\<exists>fn\<in>set (map fst fs). isChunk fn \<and> fn \<noteq> idFileName" and "\<not> bit umask 2"
  shows "list_entry isChunk (made_entry umask bufferID fs) = Some bufferID"
proof -
  have "filter isChunk (map fst fs) \<noteq> []" using assms(2) by (auto simp: filter_empty_conv)
  then show ?thesis using assms(1,3) new_dir_mode_test[of umask]
    by (auto simp: filter_map list_entry_def made_entry_def entry_buffer_id_def count_existing_chunks_def new_chunk_operator_def)
qed

lemma listed_from_entry:
  assumes "map_of dirs name = Some e" and "list_entry (rootChunk r) e = Some k" and "rootDir r = Some dirs" and "rootStatOk r name"
  shows "k \<in> set (list_buffer_ids r)"
proof -
  have "name \<in> set (map fst dirs)" using assms(1) by (metis map_of_SomeD image_eqI fst_conv list.set_map)
  then show ?thesis using assms
    by (auto simp: list_buffer_ids_def list_buffer_queue_ids_def set_map_filter_Some bind_eq_Some_conv intro!: bexI[of _ name])
qed

lemma reopened_bufferer:
  assumes "map_of dirs (queue_dir_name md5hex bufferID) = Some (made_entry umask' bufferID fs)"
  shows "snd (new_queue_bufferer md5hex umask mkdirOk writeOk bufferID match maxBytes sendAll dirs) = new_bufferer (Some fs) match maxBytes sendAll"
  using assms by (simp add: new_queue_bufferer_def make_buffer_queue_dir_def Let_def made_entry_def update_conv')

section \<open>Properties\<close>


text \<open>One queue on disk, of the pipeline \<open>a,x\<close>, with one chunk.\<close>

definition sample_dirs :: root_dir where
  "sample_dirs = [(queue_dir_name (\<lambda>_. ''0123456789abcdef'') ''a,x'', made_entry 0 ''a,x'' [(''1.ff'', ''d'')])]"

definition sample_queue_root :: queue_root where
  "sample_queue_root = \<lparr>rootDir = Some sample_dirs, rootStatOk = \<lambda>_. True, rootChunk = \<lambda>_. True\<rparr>"

lemma sample_ids: "list_buffer_ids sample_queue_root = [''a,x'']"
proof -
  have "list_entry (\<lambda>_. True) (made_entry 0 ''a,x'' [(''1.ff'', ''d'')]) = Some ''a,x''"
    by (rule made_entry_listed) (simp_all add: idFileName_def)
  then show ?thesis
    by (simp add: list_buffer_ids_def sample_queue_root_def sample_dirs_def list_buffer_queue_ids_def map_filter_simps)
qed


end
